(* ===== verification/Prelude.thy ===== *)
theory Prelude
  imports Main "HOL-Library.Word"
begin

text \<open>
  Shared vocabulary of the development: faults of the C programs as values, a result type with
  sequential composition, arrays of the source as functions from an index with explicit bounds
  checks, and the generic lemmas that the component theories use.
\<close>

unbundle bit_operations_syntax

section \<open>Results\<close>

text \<open>
  Every way in which an operation of the C code does not run to its return is a value: a call of
  \<open>panic\<close>, an access through a null pointer, which has no defined behaviour in C, one to a page
  that has been freed, an array access out of its bounds, a loop that never ends because the state it spins on cannot change, and a call
  of \<open>sleep\<close>, after which the operation waits for another process.
\<close>

datatype fault =
    Panic string
  | NullDeref
  | Dangling
  | OutOfBounds
  | Hang
  | Blocked

type_synonym 'a result = "fault + 'a"

definition rbind :: "'a result \<Rightarrow> ('a \<Rightarrow> 'b result) \<Rightarrow> 'b result" where
  "rbind m f = (case m of Inl e \<Rightarrow> Inl e | Inr x \<Rightarrow> f x)"

definition ensure :: "bool \<Rightarrow> fault \<Rightarrow> unit result" where
  "ensure b e = (if b then Inr () else Inl e)"

named_theorems result_simps \<open>equations of the result combinators\<close>

lemma rbind_Inl [simp, result_simps]: "rbind (Inl e) f = Inl e"
  by (simp add: rbind_def)

lemma rbind_Inr [simp, result_simps]: "rbind (Inr x) f = f x"
  by (simp add: rbind_def)

lemma rbind_eq_Inr: "rbind m f = Inr y \<longleftrightarrow> (\<exists>x. m = Inr x \<and> f x = Inr y)"
  by (cases m) simp_all

lemma rbind_eq_Inl: "rbind m f = Inl e \<longleftrightarrow> m = Inl e \<or> (\<exists>x. m = Inr x \<and> f x = Inl e)"
  by (cases m) simp_all

lemma rbind_InrE:
  assumes "rbind m f = Inr y"
  obtains x where "m = Inr x" and "f x = Inr y"
  using assms by (auto simp: rbind_eq_Inr)

lemma rbind_cong [fundef_cong]:
  assumes "m = m'" and "\<And>x. m' = Inr x \<Longrightarrow> f x = g x"
  shows "rbind m f = rbind m' g"
  using assms by (cases m') simp_all

lemma rbind_assoc: "rbind (rbind m f) g = rbind m (\<lambda>x. rbind (f x) g)"
  by (cases m) simp_all

lemma ensure_eq_Inr [simp]: "ensure b e = Inr u \<longleftrightarrow> b"
  by (simp add: ensure_def)

lemma ensure_True [simp, result_simps]: "ensure True e = Inr ()"
  by (simp add: ensure_def)

lemma ensure_False [simp, result_simps]: "ensure False e = Inl e"
  by (simp add: ensure_def)

section \<open>What an operation gives when it returns\<close>

text \<open>
  \<open>gives m Q\<close>: if \<open>m\<close> is no fault, its value satisfies \<open>Q\<close>. The rules follow the shape of an
  operation; those of the operations of a component join them in \<open>gives_rules\<close>.
\<close>

definition gives :: "'a result \<Rightarrow> ('a \<Rightarrow> bool) \<Rightarrow> bool" where
  "gives m Q \<longleftrightarrow> (\<forall>x. m = Inr x \<longrightarrow> Q x)"

named_theorems gives_rules \<open>rules for the values that operations give\<close>

lemma givesI: "(\<And>x. m = Inr x \<Longrightarrow> Q x) \<Longrightarrow> gives m Q"
  by (simp add: gives_def)

lemma givesD: "gives m Q \<Longrightarrow> m = Inr x \<Longrightarrow> Q x"
  by (simp add: gives_def)

lemma gives_mono: "gives m P \<Longrightarrow> (\<And>x. P x \<Longrightarrow> Q x) \<Longrightarrow> gives m Q"
  by (simp add: gives_def)

lemma gives_Inr [gives_rules]: "Q x \<Longrightarrow> gives (Inr x) Q"
  by (simp add: gives_def)

lemma gives_Inl [gives_rules]: "gives (Inl e) Q"
  by (simp add: gives_def)

lemma gives_bind [gives_rules]: "gives m (\<lambda>x. gives (f x) Q) \<Longrightarrow> gives (rbind m f) Q"
  by (auto simp: gives_def rbind_eq_Inr)

lemma gives_ensure [gives_rules]: "(b \<Longrightarrow> Q ()) \<Longrightarrow> gives (ensure b e) Q"
  by (simp add: gives_def)

lemma gives_if [gives_rules]: "(b \<Longrightarrow> gives m Q) \<Longrightarrow> (\<not> b \<Longrightarrow> gives m' Q) \<Longrightarrow> gives (if b then m else m') Q"
  by simp

lemma gives_option [gives_rules]:
  "(x = None \<Longrightarrow> gives m Q) \<Longrightarrow> (\<And>y. x = Some y \<Longrightarrow> gives (f y) Q) \<Longrightarrow>
    gives (case x of None \<Rightarrow> m | Some y \<Rightarrow> f y) Q"
  by (cases x) simp_all

lemma gives_prod [gives_rules]: "(\<And>a b. x = (a, b) \<Longrightarrow> gives (f a b) Q) \<Longrightarrow> gives (case x of (a, b) \<Rightarrow> f a b) Q"
  by (cases x) simp

lemma gives_list [gives_rules]:
  "(x = [] \<Longrightarrow> gives m Q) \<Longrightarrow> (\<And>a as. x = a # as \<Longrightarrow> gives (f a as) Q) \<Longrightarrow>
    gives (case x of [] \<Rightarrow> m | a # as \<Rightarrow> f a as) Q"
  by (cases x) simp_all

section \<open>Machine words and page addresses\<close>

type_synonym u32 = "32 word"

text \<open>
  A physical page is a 20-bit page number, and holds 1024 words. \<open>page_of\<close> is the page of an
  address, \<open>page_addr\<close> the address of a page. \<open>PTE_ADDR\<close> and \<open>PTE_FLAGS\<close> are the macros of
  \<open>mmu.h\<close>, as are the rounding functions.
\<close>

type_synonym ppage = "20 word"

definition page_of :: "u32 \<Rightarrow> ppage" where
  "page_of a = ucast (drop_bit 12 a)"

definition page_addr :: "ppage \<Rightarrow> u32" where
  "page_addr p = push_bit 12 (ucast p)"

definition PTE_ADDR :: "u32 \<Rightarrow> u32" where
  "PTE_ADDR pte = pte AND NOT 0xFFF"

definition PTE_FLAGS :: "u32 \<Rightarrow> u32" where
  "PTE_FLAGS pte = pte AND 0xFFF"

definition PGROUNDUP :: "u32 \<Rightarrow> u32" where
  "PGROUNDUP a = (a + 0xFFF) AND NOT 0xFFF"

definition PGROUNDDOWN :: "u32 \<Rightarrow> u32" where
  "PGROUNDDOWN a = a AND NOT 0xFFF"

definition V2P :: "u32 \<Rightarrow> u32" where
  "V2P a = a - 0x80000000"

definition P2V :: "u32 \<Rightarrow> u32" where
  "P2V a = a + 0x80000000"

lemma unat_drop_bit: "unat (drop_bit k w) = unat (w :: u32) div 2 ^ k"
proof -
  have "unat w < 2 ^ LENGTH(32)" by (rule unsigned_less)
  then have "take_bit 32 (unat w) = unat w" by (intro take_bit_nat_eq_self) simp
  then have "unat (drop_bit k w) = drop_bit k (unat w)" by (intro unsigned_drop_bit_eq [THEN trans]) simp
  then show ?thesis by (simp only: drop_bit_eq_div)
qed

lemma V2P_P2V [simp]: "V2P (P2V a) = a" and P2V_V2P [simp]: "P2V (V2P a) = a"
  by (simp_all add: V2P_def P2V_def)

lemma low_bits: "(0xFFF :: u32) = mask 12"
  by (simp add: mask_eq_exp_minus_1)

lemma low_bits_int: "bit (0xFFF :: int) n \<longleftrightarrow> n < 12"
proof -
  have "(0xFFF :: int) = mask 12" by (simp add: mask_eq_exp_minus_1)
  then show ?thesis by (simp only: bit_mask_iff) simp
qed

lemma low_bits_word: "bit (0xFFF :: u32) n \<longleftrightarrow> n < 12"
  unfolding low_bits by (auto simp: bit_mask_iff)

lemmas bit_low_bits = low_bits_int low_bits_word

lemma PGROUNDDOWN_mod: "PGROUNDDOWN a = a - a mod 4096"
proof -
  have "PGROUNDDOWN a = push_bit 12 (drop_bit 12 a)"
    by (rule bit_word_eqI) (auto simp: PGROUNDDOWN_def bit_simps bit_low_bits)
  also have "\<dots> = a div 4096 * 4096" by (simp add: push_bit_eq_mult drop_bit_eq_div)
  finally show ?thesis by (simp add: minus_mod_eq_div_mult)
qed

lemma unat_PGROUNDDOWN: "unat (PGROUNDDOWN a) = unat a - unat a mod 4096"
proof -
  have "a mod 4096 \<le> a" by (simp add: word_le_nat_alt unat_mod)
  then show ?thesis by (simp add: PGROUNDDOWN_mod unat_sub unat_mod)
qed

lemma page_of_addr [simp]: "page_of (page_addr p) = p"
  by (rule bit_word_eqI)
    (auto simp: page_of_def page_addr_def bit_simps)

lemma PTE_ADDR_page: "PTE_ADDR a = page_addr (page_of a)"
  by (rule bit_word_eqI)
    (auto simp: PTE_ADDR_def page_of_def page_addr_def bit_simps bit_low_bits)

lemma page_of_PTE_ADDR [simp]: "page_of (PTE_ADDR a) = page_of a"
  by (simp add: PTE_ADDR_page)

lemma page_addr_inject [simp]: "page_addr p = page_addr q \<longleftrightarrow> p = q"
  by (metis page_of_addr)

text \<open>An address is that of its page with its offset in the page.\<close>

lemma page_of_or_flags:
  assumes "f AND NOT 0xFFF = 0"
  shows "page_of (page_addr p OR f) = p"
proof (rule bit_word_eqI)
  fix n assume n: "n < LENGTH(20)"
  have "\<not> bit f (n + 12)"
    using arg_cong [OF assms, of "\<lambda>w. bit w (n + 12)"] n by (auto simp: bit_simps bit_low_bits)
  with n show "bit (page_of (page_addr p OR f)) n = bit p n"
    by (auto simp: page_of_def page_addr_def bit_simps add.commute)
qed

lemma PTE_FLAGS_or:
  assumes "f AND NOT 0xFFF = 0"
  shows "PTE_FLAGS (page_addr p OR f) = f"
proof (rule bit_word_eqI)
  fix n assume "n < LENGTH(32)"
  then show "bit (PTE_FLAGS (page_addr p OR f)) n = bit f n"
    using arg_cong [OF assms, of "\<lambda>w. bit w n"]
    by (auto simp: PTE_FLAGS_def page_addr_def bit_simps bit_low_bits)
qed

section \<open>Lists\<close>

lemma find_Some_first:
  assumes "List.find P [0..<n] = Some k"
  shows "k < n" and "P k" and "\<And>j. j < k \<Longrightarrow> \<not> P j"
  using assms by (auto simp: find_Some_iff)

lemma find_SomeD: "List.find P xs = Some x \<Longrightarrow> x \<in> set xs \<and> P x"
  by (metis find_Some_iff nth_mem)

lemma find_None_all: "List.find P [0..<n] = None \<longleftrightarrow> (\<forall>k<n. \<not> P k)"
  by (auto simp: find_None_iff)

lemma find_first_eq:
  assumes "k < n" and "P k" and "\<And>j. j < k \<Longrightarrow> \<not> P j"
  shows "List.find P [0..<n] = Some k"
  using assms by (auto simp: find_Some_iff intro!: exI [where x = k])

lemma distinct_remove1_set [simp]: "distinct xs \<Longrightarrow> set (remove1 x xs) = set xs - {x}"
  by (rule set_remove1_eq)

lemma remove1_nth:
  assumes "distinct xs" and "i < length xs"
  shows "remove1 (xs ! i) xs = take i xs @ drop (Suc i) xs"
proof -
  have "xs = take i xs @ xs ! i # drop (Suc i) xs"
    using assms(2) by (rule id_take_nth_drop)
  moreover have "xs ! i \<notin> set (take i xs)"
    using assms by (auto simp: in_set_conv_nth distinct_conv_nth)
  ultimately show ?thesis
    by (metis remove1_append remove1.simps(2))
qed

lemma sorted_wrt_remove1: "sorted_wrt R xs \<Longrightarrow> sorted_wrt R (remove1 x xs)"
proof (induction xs)
  case (Cons a xs)
  then show ?case using set_remove1_subset [of x xs] by auto
qed simp

end
