(* ===== verification/MlfqQueue.thy ===== *)
theory MlfqQueue
  imports Prelude
begin

text \<open>
  The process queues of \<open>Project2/proc.c\<close>: \<open>struct pqueue\<close> is an array of \<open>NPROC\<close> pointers into
  the process table and an index \<open>rear\<close>. A pointer to \<open>ptable.proc[k]\<close> is the number \<open>k\<close>, the
  null pointer is \<open>None\<close>. Every array access is checked against the bounds of the array, because
  an access out of them overwrites \<open>rear\<close> or a neighbouring queue in the C program.
  The loops that the source writes out once per queue are here once, with the queue as argument.
  The second half relates the operations to operations on lists.
\<close>

section \<open>The queue and its elementary accesses\<close>

abbreviation NPROC :: int where
  "NPROC \<equiv> 64"

record pqueue =
  slots :: "int \<Rightarrow> nat option"
  rear :: int

definition empty_pqueue :: pqueue where
  "empty_pqueue = \<lparr>slots = (\<lambda>_. None), rear = 0\<rparr>"

definition qget :: "pqueue \<Rightarrow> int \<Rightarrow> nat option result" where
  "qget q i = (if 0 \<le> i \<and> i < NPROC then Inr (slots q i) else Inl OutOfBounds)"

definition qset :: "pqueue \<Rightarrow> int \<Rightarrow> nat option \<Rightarrow> pqueue result" where
  "qset q i v =
     (if 0 \<le> i \<and> i < NPROC then Inr (q\<lparr>slots := (slots q)(i := v)\<rparr>) else Inl OutOfBounds)"

definition deref :: "'a option \<Rightarrow> 'a result" where
  "deref v = (case v of None \<Rightarrow> Inl NullDeref | Some p \<Rightarrow> Inr p)"

lemma deref_simps [simp]: "deref None = Inl NullDeref" "deref (Some p) = Inr p"
  by (simp_all add: deref_def)

lemma deref_eq_Inr [simp]: "deref v = Inr p \<longleftrightarrow> v = Some p"
  by (cases v) auto

lemma qset_rear: "qset q i v = Inr q' \<Longrightarrow> rear q' = rear q"
  by (auto simp: qset_def split: if_splits)

section \<open>The loops of the source\<close>

text \<open>\<open>pq->proc[pq->rear] = p; pq->rear++\<close>\<close>

definition qpush :: "pqueue \<Rightarrow> nat \<Rightarrow> pqueue result" where
  "qpush q p = rbind (qset q (rear q) (Some p)) (\<lambda>q'. Inr (q'\<lparr>rear := rear q' + 1\<rparr>))"

text \<open>\<open>for(i = 0; i < pq->rear; i++) if (cond) break;\<close> returns the index where it stops.\<close>

function qscan :: "(nat \<Rightarrow> bool) \<Rightarrow> pqueue \<Rightarrow> int \<Rightarrow> int result" where
  "qscan c q i =
     (if i < rear q
      then rbind (qget q i) (\<lambda>v. rbind (deref v) (\<lambda>p.
             if c p then Inr i else qscan c q (i + 1)))
      else Inr i)"
  by pat_completeness auto
termination by (relation "measure (\<lambda>(c, q, i). nat (rear q - i))") auto

text \<open>\<open>while(pq->proc[i]->pid != p->pid) i++;\<close> has no bound of its own.\<close>

function qsearch :: "(nat \<Rightarrow> bool) \<Rightarrow> pqueue \<Rightarrow> int \<Rightarrow> int result" where
  "qsearch c q i =
     rbind (qget q i) (\<lambda>v. rbind (deref v) (\<lambda>p.
       if \<not> c p then qsearch c q (i + 1) else Inr i))"
  by pat_completeness auto
termination
  by (relation "measure (\<lambda>(c, q, i). nat (NPROC - i))") (auto simp: qget_def split: if_splits)

text \<open>\<open>for(j = i; j < pq->rear - 1; j++) pq->proc[j] = pq->proc[j+1];\<close>\<close>

function qshift_down :: "pqueue \<Rightarrow> int \<Rightarrow> pqueue result" where
  "qshift_down q j =
     (if j < rear q - 1
      then rbind (qget q (j + 1)) (\<lambda>v. rbind (qset q j v) (\<lambda>q'. qshift_down q' (j + 1)))
      else Inr q)"
  by pat_completeness auto
termination
  by (relation "measure (\<lambda>(q, j). nat (rear q - j))") (auto dest: qset_rear)

text \<open>\<open>for(j = pq->rear; j > i; j--) pq->proc[j] = pq->proc[j-1];\<close>\<close>

function qshift_up :: "pqueue \<Rightarrow> int \<Rightarrow> int \<Rightarrow> pqueue result" where
  "qshift_up q i j =
     (if i < j
      then rbind (qget q (j - 1)) (\<lambda>v. rbind (qset q j v) (\<lambda>q'. qshift_up q' i (j - 1)))
      else Inr q)"
  by pat_completeness auto
termination by (relation "measure (\<lambda>(q, i, j). nat (j - i))") auto

declare qscan.simps [simp del] qsearch.simps [simp del]
declare qshift_down.simps [simp del] qshift_up.simps [simp del]

text \<open>
  The removal that \<open>wait\<close> writes out for each queue: the first process of the queue that
  satisfies the condition is overwritten by its successors, and \<open>rear\<close> decreases.
\<close>

definition qreap :: "(nat \<Rightarrow> bool) \<Rightarrow> pqueue \<Rightarrow> pqueue result" where
  "qreap c q =
     rbind (qscan c q 0) (\<lambda>i.
       if i < rear q
       then rbind (qshift_down q i) (\<lambda>q'. Inr (q'\<lparr>rear := rear q' - 1\<rparr>))
       else Inr q)"

text \<open>
  \<open>removePCB\<close>: after the shift it clears the slot \<open>pq->proc[pq->rear]\<close>, one past the last
  process, and then decrements \<open>rear\<close>.
\<close>

definition qremove :: "(nat \<Rightarrow> bool) \<Rightarrow> pqueue \<Rightarrow> pqueue result" where
  "qremove c q =
     rbind (qsearch c q 0) (\<lambda>i.
     rbind (qshift_down q i) (\<lambda>q1.
     rbind (qset q1 (rear q1) None) (\<lambda>q2.
     Inr (q2\<lparr>rear := rear q2 - 1\<rparr>))))"

text \<open>
  The insertion into the priority queue in \<open>yield\<close>: find the first process of lower priority,
  move it and its successors up, store the process, increment \<open>rear\<close>.
\<close>

definition qinsert :: "(nat \<Rightarrow> bool) \<Rightarrow> pqueue \<Rightarrow> nat \<Rightarrow> pqueue result" where
  "qinsert lower q p =
     rbind (qscan lower q 0) (\<lambda>i.
     rbind (qshift_up q i (rear q)) (\<lambda>q1.
     rbind (qset q1 i (Some p)) (\<lambda>q2.
     Inr (q2\<lparr>rear := rear q2 + 1\<rparr>))))"

section \<open>Queues as lists\<close>

definition qrep :: "pqueue \<Rightarrow> nat list \<Rightarrow> bool" where
  "qrep q xs \<longleftrightarrow>
     rear q = int (length xs) \<and> rear q \<le> NPROC \<and>
     (\<forall>i<length xs. slots q (int i) = Some (xs ! i))"

definition qlist :: "pqueue \<Rightarrow> nat list" where
  "qlist q = map (\<lambda>i. the (slots q (int i))) [0..<nat (rear q)]"

lemma qrep_qlist: "qrep q xs \<Longrightarrow> qlist q = xs"
  by (auto simp: qrep_def qlist_def intro!: nth_equalityI)

lemma qrep_unique: "qrep q xs \<Longrightarrow> qrep q ys \<Longrightarrow> xs = ys"
  using qrep_qlist by blast

lemma qrep_empty [simp]: "qrep empty_pqueue []"
  by (simp add: qrep_def empty_pqueue_def)

lemma qrep_rear: "qrep q xs \<Longrightarrow> rear q = int (length xs)"
  by (simp add: qrep_def)

lemma qrep_length: "qrep q xs \<Longrightarrow> length xs \<le> 64"
  by (simp add: qrep_def)

lemma qrep_get:
  assumes "qrep q xs" and "i < length xs"
  shows "qget q (int i) = Inr (Some (xs ! i))"
  using assms by (simp add: qrep_def qget_def)

lemma qrep_slot: "qrep q xs \<Longrightarrow> i < length xs \<Longrightarrow> slots q (int i) = Some (xs ! i)"
  by (simp add: qrep_def)

lemma qrep_slot_Suc:
  "qrep q xs \<Longrightarrow> Suc i < length xs \<Longrightarrow> slots q (int i + 1) = Some (xs ! Suc i)"
  using qrep_slot [of q xs "Suc i"] by (simp add: add.commute)

lemma qrep_push:
  assumes "qrep q xs" and "length xs < 64"
  shows "\<exists>q'. qpush q p = Inr q' \<and> qrep q' (xs @ [p])"
  using assms by (auto simp: qrep_def qpush_def qset_def nth_append)

lemma qpush_full:
  assumes "qrep q xs" and "length xs = 64"
  shows "qpush q p = Inl OutOfBounds"
  using assms by (simp add: qrep_def qpush_def qset_def)

lemma qscan_from:
  assumes "qrep q xs" and "n \<le> length xs"
  shows "qscan c q (int n) = Inr (int (n + length (takeWhile (\<lambda>p. \<not> c p) (drop n xs))))"
  using assms
proof (induction "length xs - n" arbitrary: n)
  case 0
  then show ?case by (simp add: qscan.simps [of c q] qrep_rear)
next
  case (Suc m)
  then have n: "n < length xs" by simp
  have IH: "qscan c q (int (Suc n)) =
      Inr (int (Suc n + length (takeWhile (\<lambda>p. \<not> c p) (drop (Suc n) xs))))"
    using Suc.hyps Suc.prems n by (intro Suc.hyps(1)) auto
  have "drop n xs = xs ! n # drop (Suc n) xs"
    using n by (simp add: Cons_nth_drop_Suc)
  with IH n Suc.prems show ?case
    by (simp add: qscan.simps [of c q "int n"] qrep_rear qrep_get algebra_simps)
qed

lemma qrep_scan:
  assumes "qrep q xs"
  shows "qscan c q 0 = Inr (int (length (takeWhile (\<lambda>p. \<not> c p) xs)))"
  using qscan_from [OF assms, of 0] by simp

lemma qsearch_from:
  assumes "qrep q xs" and "n \<le> k" and "k < length xs" and "c (xs ! k)"
    and "\<And>j. j < k \<Longrightarrow> \<not> c (xs ! j)"
  shows "qsearch c q (int n) = Inr (int k)"
  using assms(2)
proof (induction "k - n" arbitrary: n)
  case 0
  then have "n = k" by simp
  with assms show ?case by (simp add: qsearch.simps [of c q] qrep_get)
next
  case (Suc m)
  then have n: "n < k" by simp
  have "qsearch c q (int (Suc n)) = Inr (int k)"
    using Suc.hyps n by (intro Suc.hyps(1)) auto
  with n assms show ?case
    by (simp add: qsearch.simps [of c q "int n"] qrep_get algebra_simps)
qed

lemma qrep_search:
  assumes "qrep q xs" and "k < length xs" and "c (xs ! k)"
    and "\<And>j. j < k \<Longrightarrow> \<not> c (xs ! j)"
  shows "qsearch c q 0 = Inr (int k)"
  using qsearch_from [where n = 0 and c = c, OF assms(1) le0 assms(2,3)] assms(4) by simp

text \<open>The two shifts in closed form.\<close>

lemma qshift_down_eq:
  assumes "0 \<le> j" and "rear q \<le> NPROC"
  shows "qshift_down q j =
    Inr (q\<lparr>slots := (\<lambda>i. if j \<le> i \<and> i < rear q - 1 then slots q (i + 1) else slots q i)\<rparr>)"
  using assms
proof (induction "nat (rear q - 1 - j)" arbitrary: q j)
  case 0
  then have "(\<lambda>i. if j \<le> i \<and> i < rear q - 1 then slots q (i + 1) else slots q i) = slots q"
    by (auto simp: fun_eq_iff)
  with 0 show ?case by (simp add: qshift_down.simps [of q])
next
  case (Suc m)
  let ?q = "q\<lparr>slots := (slots q)(j := slots q (j + 1))\<rparr>"
  have IH: "qshift_down ?q (j + 1) = Inr (?q\<lparr>slots := (\<lambda>i. if j + 1 \<le> i \<and> i < rear ?q - 1
      then slots ?q (i + 1) else slots ?q i)\<rparr>)"
    using Suc.hyps(2) Suc.prems by (intro Suc.hyps(1)) auto
  have "(\<lambda>i. if j + 1 \<le> i \<and> i < rear q - 1 then slots ?q (i + 1) else slots ?q i) =
      (\<lambda>i. if j \<le> i \<and> i < rear q - 1 then slots q (i + 1) else slots q i)"
    using Suc.hyps(2) by (auto simp: fun_eq_iff)
  with IH Suc.hyps(2) Suc.prems show ?case
    by (simp add: qshift_down.simps [of q j] qget_def qset_def)
qed

lemma qshift_up_eq:
  assumes "0 \<le> i" and "i \<le> j" and "j < NPROC"
  shows "qshift_up q i j =
    Inr (q\<lparr>slots := (\<lambda>k. if i < k \<and> k \<le> j then slots q (k - 1) else slots q k)\<rparr>)"
  using assms
proof (induction "nat (j - i)" arbitrary: q j)
  case 0
  then have "(\<lambda>k. if i < k \<and> k \<le> j then slots q (k - 1) else slots q k) = slots q"
    by (auto simp: fun_eq_iff)
  with 0 show ?case by (simp add: qshift_up.simps [of q])
next
  case (Suc m)
  let ?q = "q\<lparr>slots := (slots q)(j := slots q (j - 1))\<rparr>"
  have IH: "qshift_up ?q i (j - 1) =
      Inr (?q\<lparr>slots := (\<lambda>k. if i < k \<and> k \<le> j - 1 then slots ?q (k - 1) else slots ?q k)\<rparr>)"
    using Suc.hyps(2) Suc.prems by (intro Suc.hyps(1)) auto
  have "(\<lambda>k. if i < k \<and> k \<le> j - 1 then slots ?q (k - 1) else slots ?q k) =
      (\<lambda>k. if i < k \<and> k \<le> j then slots q (k - 1) else slots q k)"
    using Suc.hyps(2) by (auto simp: fun_eq_iff)
  with IH Suc.hyps(2) Suc.prems show ?case
    by (simp add: qshift_up.simps [of q i j] qget_def qset_def)
qed

lemma qrep_shift_down:
  assumes "qrep q xs" and "n < length xs"
  obtains q' where "qshift_down q (int n) = Inr q'" and "rear q' = rear q"
    and "\<And>q''. rear q'' = rear q' - 1 \<Longrightarrow> (\<And>i. i < rear q' - 1 \<Longrightarrow> slots q'' i = slots q' i) \<Longrightarrow>
      qrep q'' (take n xs @ drop (Suc n) xs)"
proof
  let ?q = "q\<lparr>slots := (\<lambda>i. if int n \<le> i \<and> i < rear q - 1 then slots q (i + 1) else slots q i)\<rparr>"
  show "qshift_down q (int n) = Inr ?q"
    using assms by (simp add: qshift_down_eq qrep_def)
  show "rear ?q = rear q" by simp
  fix q'' :: pqueue
  assume r: "rear q'' = rear ?q - 1" and s: "\<And>i. i < rear ?q - 1 \<Longrightarrow> slots q'' i = slots ?q i"
  show "qrep q'' (take n xs @ drop (Suc n) xs)"
    unfolding qrep_def
  proof (intro conjI allI impI)
    fix i assume i: "i < length (take n xs @ drop (Suc n) xs)"
    with assms have "int i < rear ?q - 1" by (simp add: qrep_def)
    from s [OF this] i assms show "slots q'' (int i) = Some ((take n xs @ drop (Suc n) xs) ! i)"
      by (cases "i < n") (auto simp: nth_append qrep_rear qrep_slot qrep_slot_Suc)
  qed (use assms r in \<open>auto simp: qrep_def\<close>)
qed

text \<open>The process \<open>p\<close> is the only one of a duplicate-free queue that the condition selects.\<close>

definition only_in :: "('a \<Rightarrow> bool) \<Rightarrow> 'a \<Rightarrow> 'a list \<Rightarrow> bool" where
  "only_in c p xs \<longleftrightarrow> distinct xs \<and> p \<in> set xs \<and> c p \<and> (\<forall>y\<in>set xs. c y \<longrightarrow> y = p)"

lemma first_index:
  assumes "only_in c p xs"
  obtains k where "k < length xs" and "xs ! k = p" and "\<And>j. j < k \<Longrightarrow> \<not> c (xs ! j)"
    and "length (takeWhile (\<lambda>x. \<not> c x) xs) = k"
proof -
  from assms obtain k where k: "k < length xs" "xs ! k = p"
    by (auto simp: only_in_def in_set_conv_nth)
  have nc: "\<not> c (xs ! j)" if j: "j < k" for j
  proof
    assume "c (xs ! j)"
    moreover have "xs ! j \<in> set xs" using j k(1) by simp
    ultimately have "xs ! j = xs ! k" using assms k(2) unfolding only_in_def by blast
    with assms j k(1) show False
      by (simp add: only_in_def nth_eq_iff_index_eq)
  qed
  have "takeWhile (\<lambda>x. \<not> c x) xs = take k xs"
    using k(2) nc assms unfolding only_in_def by (intro takeWhile_eq_take_P_nth) auto
  with k(1) have "length (takeWhile (\<lambda>x. \<not> c x) xs) = k" by simp
  with k nc show thesis by (intro that) auto
qed

text \<open>The three list-level effects: appending, removing one process, inserting by priority.\<close>

lemma qrep_reap:
  assumes "qrep q xs" and "only_in c p xs"
  shows "\<exists>q'. qreap c q = Inr q' \<and> qrep q' (remove1 p xs)"
proof -
  obtain k where k: "k < length xs" "xs ! k = p" "length (takeWhile (\<lambda>x. \<not> c x) xs) = k"
    using first_index [OF assms(2)] by metis
  from qrep_shift_down [OF assms(1) k(1)] obtain q' where
    q': "qshift_down q (int k) = Inr q'" "rear q' = rear q"
    "\<And>q''. rear q'' = rear q' - 1 \<Longrightarrow> (\<And>i. i < rear q' - 1 \<Longrightarrow> slots q'' i = slots q' i) \<Longrightarrow>
      qrep q'' (take k xs @ drop (Suc k) xs)" by metis
  have "qrep (q'\<lparr>rear := rear q' - 1\<rparr>) (remove1 p xs)"
    using q'(3) [of "q'\<lparr>rear := rear q' - 1\<rparr>"] remove1_nth [OF _ k(1)] k(2) assms(2) by (simp add: only_in_def)
  with q'(1) k(1,3) qrep_scan [OF assms(1), of c] qrep_rear [OF assms(1)] show ?thesis
    by (simp add: qreap_def)
qed

lemma qrep_reap_none:
  assumes "qrep q xs" and "\<And>y. y \<in> set xs \<Longrightarrow> \<not> c y"
  shows "qreap c q = Inr q"
proof -
  have "takeWhile (\<lambda>x. \<not> c x) xs = xs"
    using assms(2) by (simp add: takeWhile_eq_all_conv)
  with qrep_scan [OF assms(1), of c] qrep_rear [OF assms(1)] show ?thesis
    by (simp add: qreap_def)
qed

lemma qrep_remove:
  assumes "qrep q xs" and "only_in c p xs" and "length xs < 64"
  shows "\<exists>q'. qremove c q = Inr q' \<and> qrep q' (remove1 p xs)"
proof -
  obtain k where k: "k < length xs" "xs ! k = p" "\<And>j. j < k \<Longrightarrow> \<not> c (xs ! j)"
    using first_index [OF assms(2)] by metis
  have s: "qsearch c q 0 = Inr (int k)"
    using qrep_search [OF assms(1) k(1)] k(2,3) assms(2) by (simp add: only_in_def)
  from qrep_shift_down [OF assms(1) k(1)] obtain q' where
    q': "qshift_down q (int k) = Inr q'" "rear q' = rear q"
    "\<And>q''. rear q'' = rear q' - 1 \<Longrightarrow> (\<And>i. i < rear q' - 1 \<Longrightarrow> slots q'' i = slots q' i) \<Longrightarrow>
      qrep q'' (take k xs @ drop (Suc k) xs)" by metis
  have "qrep (q'\<lparr>slots := (slots q')(rear q' := None), rear := rear q' - 1\<rparr>) (remove1 p xs)"
    using q'(3) [of "q'\<lparr>slots := (slots q')(rear q' := None), rear := rear q' - 1\<rparr>"]
      remove1_nth [OF _ k(1)] k(2) assms(2) by (simp add: only_in_def)
  with s q'(1,2) assms(3) qrep_rear [OF assms(1)] show ?thesis
    by (simp add: qremove_def qset_def)
qed

lemma qremove_full:
  assumes "qrep q xs" and "only_in c p xs" and "length xs = 64"
  shows "qremove c q = Inl OutOfBounds"
proof -
  obtain k where k: "k < length xs" "xs ! k = p" "\<And>j. j < k \<Longrightarrow> \<not> c (xs ! j)"
    using first_index [OF assms(2)] by metis
  have s: "qsearch c q 0 = Inr (int k)"
    using qrep_search [OF assms(1) k(1)] k(2,3) assms(2) by (simp add: only_in_def)
  from qrep_shift_down [OF assms(1) k(1)] obtain q' where
    q': "qshift_down q (int k) = Inr q'" "rear q' = rear q" by metis
  with s assms(3) qrep_rear [OF assms(1)] show ?thesis
    by (simp add: qremove_def qset_def)
qed

lemma qrep_insert:
  assumes "qrep q xs" and "length xs < 64"
  shows "\<exists>q'. qinsert lower q p = Inr q' \<and>
    qrep q' (takeWhile (\<lambda>x. \<not> lower x) xs @ p # dropWhile (\<lambda>x. \<not> lower x) xs)"
proof -
  let ?k = "length (takeWhile (\<lambda>x. \<not> lower x) xs)"
  have k: "?k \<le> length xs" by (rule length_takeWhile_le)
  have tw: "takeWhile (\<lambda>x. \<not> lower x) xs = take ?k xs"
    by (metis takeWhile_eq_take)
  have dw: "dropWhile (\<lambda>x. \<not> lower x) xs = drop ?k xs"
    by (metis dropWhile_eq_drop)
  let ?q1 = "q\<lparr>slots := (\<lambda>i. if int ?k < i \<and> i \<le> rear q then slots q (i - 1) else slots q i)\<rparr>"
  let ?q2 = "?q1\<lparr>slots := (slots ?q1)(int ?k := Some p), rear := rear ?q1 + 1\<rparr>"
  have sh: "qshift_up q (int ?k) (rear q) = Inr ?q1"
    using assms k by (intro qshift_up_eq) (auto simp: qrep_rear)
  have "qinsert lower q p = Inr ?q2"
    using sh k assms(2) by (simp add: qinsert_def qrep_scan [OF assms(1)] qset_def)
  moreover have "qrep ?q2 (take ?k xs @ p # drop ?k xs)"
    unfolding qrep_def
  proof (intro conjI allI impI)
    fix i assume i: "i < length (take ?k xs @ p # drop ?k xs)"
    show "slots ?q2 (int i) = Some ((take ?k xs @ p # drop ?k xs) ! i)"
    proof (cases "i \<le> ?k")
      case True
      with k assms(1) show ?thesis
        by (cases "i = ?k") (auto simp: nth_append qrep_slot)
    next
      case False
      then obtain m where m: "i = Suc m" "?k \<le> m" by (cases i) auto
      with i k have "m < length xs" by simp
      with m k assms(1) show ?thesis
        by (auto simp: nth_append qrep_slot qrep_rear Suc_diff_le)
    qed
  qed (use assms k in \<open>auto simp: qrep_rear\<close>)
  ultimately show ?thesis using tw dw by simp
qed

end
