(* ===== verification/Machine.thy ===== *)
theory Machine
  imports Prelude
begin

text \<open>
  What the process components share: the states of a process or thread, the trap frame that the
  trap handler saves and the context of a kernel thread (\<open>proc.h\<close>, \<open>x86.h\<close>).
\<close>

datatype procstate = UNUSED | EMBRYO | SLEEPING | RUNNABLE | RUNNING | ZOMBIE

record trapframe =
  tf_edi :: u32
  tf_esi :: u32
  tf_ebp :: u32
  tf_oesp :: u32
  tf_ebx :: u32
  tf_edx :: u32
  tf_ecx :: u32
  tf_eax :: u32
  tf_gs :: "16 word"
  tf_fs :: "16 word"
  tf_es :: "16 word"
  tf_ds :: "16 word"
  tf_trapno :: u32
  tf_err :: u32
  tf_eip :: u32
  tf_cs :: "16 word"
  tf_eflags :: u32
  tf_esp :: u32
  tf_ss :: "16 word"

definition zero_tf :: trapframe where
  "zero_tf = \<lparr>tf_edi = 0, tf_esi = 0, tf_ebp = 0, tf_oesp = 0, tf_ebx = 0, tf_edx = 0, tf_ecx = 0,
     tf_eax = 0, tf_gs = 0, tf_fs = 0, tf_es = 0, tf_ds = 0, tf_trapno = 0, tf_err = 0, tf_eip = 0,
     tf_cs = 0, tf_eflags = 0, tf_esp = 0, tf_ss = 0\<rparr>"

text \<open>The code addresses that \<open>allocproc\<close> stores: the saved \<open>eip\<close> and the return address.\<close>

datatype code_addr = NoCode | Forkret | Trapret

record kcontext =
  edi :: u32
  esi :: u32
  ebx :: u32
  ebp :: u32
  eip :: code_addr

definition zero_context :: kcontext where
  "zero_context = \<lparr>edi = 0, esi = 0, ebx = 0, ebp = 0, eip = NoCode\<rparr>"

end
