(* ===== verification/Mlfq.thy ===== *)
theory Mlfq
  imports MlfqQueue Machine
begin

text \<open>
  Processes and their scheduling in \<open>Project2\<close> (\<open>proc.h\<close>, \<open>proc.c\<close>, the timer branch of \<open>trap.c\<close>,
  the system calls of \<open>sysproc.c\<close>): the process table with the four feedback queues and the
  monopoly queue. Each definition is the critical section of the function of the same name, run
  to the point where it returns or calls \<open>sched\<close>; it is parameterised by the CPU it runs on where
  the code calls \<open>myproc\<close>. The results of the page allocator (\<open>kalloc\<close>, \<open>copyuvm\<close>, which cannot be
  predicted by this component) are arguments of the operations that call it, \<open>None\<close> for failure.
\<close>

section \<open>Data\<close>

datatype queuelevel = L0 | L1 | L2 | L3 | MOQ

text \<open>
  A sleep channel is an address: that of a process, that of \<open>ticks\<close>, or any other one;
  \<open>NullChan\<close> is the null pointer.
\<close>

datatype chan = NullChan | ProcChan nat | TicksChan | AddrChan u32

record proc =
  sz :: u32
  pgdir :: "nat option"
  kstack :: "nat option"
  state :: procstate
  pid :: int
  parent :: "nat option"
  tf :: trapframe
  ctxt :: kcontext
  ret_addr :: code_addr
  chan :: chan
  killed :: bool
  ofile :: "nat \<Rightarrow> nat option"
  cwd :: "nat option"
  name :: string
  qlevel :: queuelevel
  priority :: int
  timeslice :: u32

record ptable =
  procs :: "nat \<Rightarrow> proc"
  QL0 :: pqueue
  QL1 :: pqueue
  QL2 :: pqueue
  QL3 :: pqueue
  moq :: pqueue
  mode :: int
  nextpid :: int
  initproc :: "nat option"
  ticks :: u32
  cpu_proc :: "nat \<Rightarrow> nat option"

text \<open>The queue that holds the processes of a level.\<close>

fun queue_of :: "queuelevel \<Rightarrow> ptable \<Rightarrow> pqueue" where
  "queue_of L0 s = QL0 s"
| "queue_of L1 s = QL1 s"
| "queue_of L2 s = QL2 s"
| "queue_of L3 s = QL3 s"
| "queue_of MOQ s = moq s"

fun set_queue :: "queuelevel \<Rightarrow> pqueue \<Rightarrow> ptable \<Rightarrow> ptable" where
  "set_queue L0 q s = s\<lparr>QL0 := q\<rparr>"
| "set_queue L1 q s = s\<lparr>QL1 := q\<rparr>"
| "set_queue L2 q s = s\<lparr>QL2 := q\<rparr>"
| "set_queue L3 q s = s\<lparr>QL3 := q\<rparr>"
| "set_queue MOQ q s = s\<lparr>moq := q\<rparr>"

definition upd_proc :: "nat \<Rightarrow> (proc \<Rightarrow> proc) \<Rightarrow> ptable \<Rightarrow> ptable" where
  "upd_proc p f s = s\<lparr>procs := (procs s)(p := f (procs s p))\<rparr>"

text \<open>\<open>for(p = ptable.proc; p < &ptable.proc[NPROC]; p++) if(cond) goto found;\<close>\<close>

definition find_proc :: "(proc \<Rightarrow> bool) \<Rightarrow> ptable \<Rightarrow> nat option" where
  "find_proc c s = List.find (\<lambda>p. c (procs s p)) [0..<64]"

section \<open>Process creation\<close>

definition pinit :: "ptable \<Rightarrow> ptable" where
  "pinit s = s\<lparr>QL0 := (QL0 s)\<lparr>rear := 0\<rparr>, QL1 := (QL1 s)\<lparr>rear := 0\<rparr>,
     QL2 := (QL2 s)\<lparr>rear := 0\<rparr>, QL3 := (QL3 s)\<lparr>rear := 0\<rparr>,
     moq := (moq s)\<lparr>rear := 0\<rparr>, mode := 0\<rparr>"

definition myproc :: "nat \<Rightarrow> ptable \<Rightarrow> nat option" where
  "myproc cpu s = cpu_proc s cpu"

text \<open>\<open>allocproc\<close>; \<open>kpage\<close> is the result of \<open>kalloc\<close>.\<close>

definition allocproc :: "nat option \<Rightarrow> ptable \<Rightarrow> (nat option \<times> ptable) result" where
  "allocproc kpage s =
     (case find_proc (\<lambda>r. state r = UNUSED) s of
        None \<Rightarrow> Inr (None, s)
      | Some p \<Rightarrow>
          let s1 = (upd_proc p (\<lambda>r. r\<lparr>state := EMBRYO, pid := nextpid s\<rparr>) s)
                     \<lparr>nextpid := nextpid s + 1\<rparr>
          in case kpage of
               None \<Rightarrow> Inr (None, upd_proc p (\<lambda>r. r\<lparr>kstack := None, state := UNUSED\<rparr>) s1)
             | Some k \<Rightarrow>
                 let s2 = upd_proc p (\<lambda>r. r\<lparr>kstack := Some k, ret_addr := Trapret,
                            ctxt := zero_context\<lparr>eip := Forkret\<rparr>,
                            qlevel := L0, priority := 0, timeslice := 2\<rparr>) s1
                 in rbind (qpush (QL0 s2) p) (\<lambda>q. Inr (Some p, s2\<lparr>QL0 := q\<rparr>)))"

text \<open>The loop of \<open>fork\<close> over the open files: the child \<open>r\<close> takes those of its parent \<open>c\<close>.\<close>

definition dup_files :: "proc \<Rightarrow> proc \<Rightarrow> nat \<Rightarrow> nat option" where
  "dup_files c r i = (if i < 16 \<and> ofile c i \<noteq> None then ofile c i else ofile r i)"

text \<open>
  \<open>fork\<close>; \<open>newdir\<close> is the result of \<open>copyuvm\<close>. Returns the pid of the child, or -1. The open
  files and the current directory are shared with the parent (the reference counts that \<open>filedup\<close>
  and \<open>idup\<close> keep are those of theory \<open>File\<close>).
\<close>

definition fork :: "nat option \<Rightarrow> nat option \<Rightarrow> nat \<Rightarrow> ptable \<Rightarrow> (int \<times> ptable) result" where
  "fork kpage newdir cpu s =
     rbind (deref (myproc cpu s)) (\<lambda>cur.
     rbind (allocproc kpage s) (\<lambda>(r, s1).
       case r of
         None \<Rightarrow> Inr (-1, s1)
       | Some np \<Rightarrow>
           (case newdir of
              None \<Rightarrow> Inr (-1, upd_proc np (\<lambda>r. r\<lparr>pgdir := None, kstack := None, state := UNUSED\<rparr>) s1)
            | Some d \<Rightarrow>
                let c = procs s1 cur in
                let s2 = upd_proc np (\<lambda>r. r\<lparr>pgdir := Some d, sz := sz c, parent := Some cur,
                           tf := (tf c)\<lparr>tf_eax := 0\<rparr>,
                           ofile := dup_files c r,
                           cwd := cwd c, name := name c, state := RUNNABLE\<rparr>) s1
                in Inr (pid (procs s2 np), s2))))"

text \<open>
  \<open>userinit\<close>: the first process; \<open>newdir\<close> is the result of \<open>setupkvm\<close>, \<open>root\<close> that of
  \<open>namei("/")\<close>. Its memory is one page and it starts at address 0 in user mode.
\<close>

definition userinit :: "nat option \<Rightarrow> nat option \<Rightarrow> nat option \<Rightarrow> ptable \<Rightarrow> ptable result" where
  "userinit kpage newdir root s =
     rbind (allocproc kpage s) (\<lambda>(r, s1).
     rbind (deref r) (\<lambda>p.
     rbind (case newdir of None \<Rightarrow> Inl (Panic ''userinit: out of memory?'') | Some d \<Rightarrow> Inr d) (\<lambda>d.
       Inr ((upd_proc p (\<lambda>r. r\<lparr>pgdir := Some d, sz := 4096,
              tf := zero_tf\<lparr>tf_cs := 27, tf_ds := 35, tf_es := 35, tf_ss := 35, tf_eflags := 512,
                tf_esp := 4096, tf_eip := 0\<rparr>,
              name := ''initcode'', cwd := root, state := RUNNABLE\<rparr>) s1)
            \<lparr>initproc := Some p\<rparr>))))"

section \<open>Sleeping and waking\<close>

definition wakeup1 :: "chan \<Rightarrow> ptable \<Rightarrow> ptable" where
  "wakeup1 ch s = s\<lparr>procs := (\<lambda>p. if p < 64 \<and> state (procs s p) = SLEEPING \<and> chan (procs s p) = ch
                               then (procs s p)\<lparr>state := RUNNABLE\<rparr> else procs s p)\<rparr>"

definition wakeup :: "chan \<Rightarrow> ptable \<Rightarrow> ptable" where
  "wakeup ch s = wakeup1 ch s"

text \<open>
  \<open>sched\<close>: the process must have left \<open>RUNNING\<close>; control passes to \<open>levelSchedule\<close>, which
  clears \<open>c->proc\<close>. The other three panics (the lock is not held, its nesting is not one,
  interrupts are on) are those of theory \<open>Spinlock\<close>.
\<close>

definition sched :: "nat \<Rightarrow> ptable \<Rightarrow> ptable result" where
  "sched cpu s =
     rbind (deref (myproc cpu s)) (\<lambda>p.
     rbind (ensure (state (procs s p) \<noteq> RUNNING) (Panic ''sched running'')) (\<lambda>_.
     Inr (s\<lparr>cpu_proc := (cpu_proc s)(cpu := None)\<rparr>)))"

text \<open>\<open>sleep\<close> up to \<open>sched\<close>, and what it does when the process runs again.\<close>

definition sleep :: "nat \<Rightarrow> chan \<Rightarrow> ptable \<Rightarrow> ptable result" where
  "sleep cpu ch s =
     (case myproc cpu s of
        None \<Rightarrow> Inl (Panic ''sleep'')
      | Some p \<Rightarrow> sched cpu (upd_proc p (\<lambda>r. r\<lparr>chan := ch, state := SLEEPING\<rparr>) s))"

definition sleep_resume :: "nat \<Rightarrow> ptable \<Rightarrow> ptable result" where
  "sleep_resume cpu s =
     rbind (deref (myproc cpu s)) (\<lambda>p. Inr (upd_proc p (\<lambda>r. r\<lparr>chan := NullChan\<rparr>) s))"

text \<open>\<open>kill\<close> returns 0, or -1 when there is no such process.\<close>

definition kill :: "int \<Rightarrow> ptable \<Rightarrow> int \<times> ptable" where
  "kill pd s =
     (case find_proc (\<lambda>r. pid r = pd) s of
        None \<Rightarrow> (-1, s)
      | Some p \<Rightarrow>
          (0, upd_proc p (\<lambda>r. r\<lparr>killed := True,
                state := (if state r = SLEEPING then RUNNABLE else state r)\<rparr>) s))"

section \<open>Exit and wait\<close>

definition chan_of :: "nat option \<Rightarrow> chan" where
  "chan_of v = (case v of None \<Rightarrow> NullChan | Some p \<Rightarrow> ProcChan p)"

text \<open>The loop of \<open>exit\<close> that passes the children to \<open>initproc\<close>, from the table entry \<open>p\<close> on.\<close>

function reparent :: "nat \<Rightarrow> nat \<Rightarrow> ptable \<Rightarrow> ptable" where
  "reparent cur p s =
     (if p < 64
      then reparent cur (p + 1)
        (if parent (procs s p) = Some cur
         then let s1 = upd_proc p (\<lambda>r. r\<lparr>parent := initproc s\<rparr>) s
              in if state (procs s1 p) = ZOMBIE then wakeup1 (chan_of (initproc s)) s1 else s1
         else s)
      else s)"
  by pat_completeness auto
termination by (relation "measure (\<lambda>(cur, p, s). 64 - p)") auto

declare reparent.simps [simp del]

definition exit :: "nat \<Rightarrow> ptable \<Rightarrow> ptable result" where
  "exit cpu s =
     rbind (deref (myproc cpu s)) (\<lambda>cur.
     rbind (ensure (Some cur \<noteq> initproc s) (Panic ''init exiting'')) (\<lambda>_.
       let s1 = upd_proc cur (\<lambda>r. r\<lparr>ofile := (\<lambda>i. if i < 16 then None else ofile r i),
                  cwd := None\<rparr>) s in
       let s2 = wakeup1 (chan_of (parent (procs s1 cur))) s1 in
       let s3 = reparent cur 0 s2 in
       sched cpu (upd_proc cur (\<lambda>r. r\<lparr>state := ZOMBIE\<rparr>) s3)))"

text \<open>
  The body of \<open>wait\<close> for the zombie child \<open>p\<close>: its record is cleared and it leaves the queue of
  its level, which is the first queue entry whose process is \<open>UNUSED\<close>.
\<close>

definition reap :: "nat \<Rightarrow> ptable \<Rightarrow> (int \<times> ptable) result" where
  "reap p s =
     (let pd = pid (procs s p);
          s1 = upd_proc p (\<lambda>r. r\<lparr>kstack := None, pid := 0, parent := None, name := [],
                 killed := False, state := UNUSED\<rparr>) s;
          lv = qlevel (procs s1 p)
      in rbind (qreap (\<lambda>k. state (procs s1 k) = UNUSED) (queue_of lv s1)) (\<lambda>q.
           Inr (pd, set_queue lv q s1)))"

datatype wait_result = Returns int | Sleeps

text \<open>One round of the loop of \<open>wait\<close>.\<close>

definition wait :: "nat \<Rightarrow> ptable \<Rightarrow> (wait_result \<times> ptable) result" where
  "wait cpu s =
     rbind (deref (myproc cpu s)) (\<lambda>cur.
       case find_proc (\<lambda>r. parent r = Some cur \<and> state r = ZOMBIE) s of
         Some p \<Rightarrow> rbind (reap p s) (\<lambda>(pd, s1). Inr (Returns pd, s1))
       | None \<Rightarrow>
           (let havekids = (find_proc (\<lambda>r. parent r = Some cur) s \<noteq> None)
            in if \<not> havekids \<or> killed (procs s cur) then Inr (Returns (-1), s)
               else rbind (sleep cpu (ProcChan cur) s) (\<lambda>s1. Inr (Sleeps, s1))))"

section \<open>The scheduler\<close>

definition checkQueue :: "pqueue \<Rightarrow> ptable \<Rightarrow> bool result" where
  "checkQueue q s =
     rbind (qscan (\<lambda>p. state (procs s p) = RUNNABLE) q 0) (\<lambda>i. Inr (i < rear q))"

text \<open>The checks of \<open>switchuvm\<close> on the process it switches to.\<close>

definition switchuvm_ok :: "proc \<Rightarrow> unit result" where
  "switchuvm_ok r =
     rbind (ensure (kstack r \<noteq> None) (Panic ''switchuvm: no kstack'')) (\<lambda>_.
     ensure (pgdir r \<noteq> None) (Panic ''switchuvm: no pgdir''))"

text \<open>\<open>levelSchedule\<close> up to \<open>swtch\<close>: the process that runs next, if any.\<close>

definition levelSchedule :: "nat \<Rightarrow> pqueue \<Rightarrow> ptable \<Rightarrow> (nat option \<times> ptable) result" where
  "levelSchedule cpu q s =
     (let s1 = s\<lparr>cpu_proc := (cpu_proc s)(cpu := None)\<rparr> in
      rbind (qscan (\<lambda>p. state (procs s1 p) = RUNNABLE) q 0) (\<lambda>i.
        if i < rear q
        then rbind (qget q i) (\<lambda>v. rbind (deref v) (\<lambda>p.
             rbind (switchuvm_ok (procs s1 p)) (\<lambda>_.
               Inr (Some p, upd_proc p (\<lambda>r. r\<lparr>state := RUNNING\<rparr>)
                              (s1\<lparr>cpu_proc := (cpu_proc s1)(cpu := Some p)\<rparr>)))))
        else Inr (None, s1)))"

definition unmonopolize :: "ptable \<Rightarrow> ptable" where
  "unmonopolize s = s\<lparr>mode := 0, ticks := 0\<rparr>"

text \<open>The loop of \<open>checkMoQ\<close> over the whole monopoly queue.\<close>

function checkMoQ_loop :: "ptable \<Rightarrow> int \<Rightarrow> bool \<Rightarrow> bool result" where
  "checkMoQ_loop s i check =
     (if i < rear (moq s)
      then rbind (qget (moq s) i) (\<lambda>v. rbind (deref v) (\<lambda>p.
             checkMoQ_loop s (i + 1) (check \<or> state (procs s p) \<noteq> ZOMBIE)))
      else Inr check)"
  by pat_completeness auto
termination by (relation "measure (\<lambda>(s, i, check). nat (rear (moq s) - i))") auto

declare checkMoQ_loop.simps [simp del]

definition checkMoQ :: "ptable \<Rightarrow> ptable result" where
  "checkMoQ s =
     rbind (checkMoQ_loop s 0 False) (\<lambda>check0.
       let check = (if rear (moq s) = 1 then False else check0)
       in Inr (if check then s else unmonopolize s))"

text \<open>
  One decision of \<open>scheduler\<close> under \<open>ptable.lock\<close>: the process it switches to, or none when it
  releases the lock.
\<close>

definition scheduler :: "nat \<Rightarrow> ptable \<Rightarrow> (nat option \<times> ptable) result" where
  "scheduler cpu s =
     (if mode s = 1
      then rbind (checkMoQ s) (\<lambda>s1. levelSchedule cpu (moq s1) s1)
      else
        rbind (checkQueue (QL0 s) s) (\<lambda>b0. if b0 then levelSchedule cpu (QL0 s) s else
        rbind (checkQueue (QL1 s) s) (\<lambda>b1. if b1 then levelSchedule cpu (QL1 s) s else
        rbind (checkQueue (QL2 s) s) (\<lambda>b2. if b2 then levelSchedule cpu (QL2 s) s else
        rbind (checkQueue (QL3 s) s) (\<lambda>b3. if b3 then levelSchedule cpu (QL3 s) s else
        Inr (None, s))))))"

definition removePCB :: "queuelevel \<Rightarrow> nat \<Rightarrow> ptable \<Rightarrow> ptable result" where
  "removePCB lv p s =
     rbind (qremove (\<lambda>k. pid (procs s k) = pid (procs s p)) (queue_of lv s)) (\<lambda>q.
       Inr (set_queue lv q s))"

text \<open>\<open>yield\<close> up to \<open>sched\<close>.\<close>

definition yield :: "nat \<Rightarrow> ptable \<Rightarrow> ptable result" where
  "yield cpu s =
     rbind (deref (myproc cpu s)) (\<lambda>p.
     let r = procs s p in
     if qlevel r = MOQ then sched cpu (upd_proc p (\<lambda>r. r\<lparr>state := RUNNABLE\<rparr>) s)
     else if timeslice r \<noteq> 0 then Inr (upd_proc p (\<lambda>r. r\<lparr>timeslice := timeslice r - 1\<rparr>) s)
     else
       rbind
        (if qlevel r = L0 then
           (if pid r mod 2 = 0 then
              rbind (removePCB L0 p (upd_proc p (\<lambda>r. r\<lparr>qlevel := L2, timeslice := 6\<rparr>) s)) (\<lambda>s1.
              rbind (qpush (QL2 s1) p) (\<lambda>q. Inr (s1\<lparr>QL2 := q\<rparr>)))
            else
              rbind (removePCB L0 p (upd_proc p (\<lambda>r. r\<lparr>qlevel := L1, timeslice := 4\<rparr>) s)) (\<lambda>s1.
              rbind (qpush (QL1 s1) p) (\<lambda>q. Inr (s1\<lparr>QL1 := q\<rparr>))))
         else
           let s0 = upd_proc p (\<lambda>r. r\<lparr>timeslice := 8\<rparr>) s in
           rbind (if qlevel r = L1 then removePCB L1 p s0 else Inr s0) (\<lambda>s1.
           rbind (if qlevel r = L2 then removePCB L2 p s1 else Inr s1) (\<lambda>s2.
           rbind (if qlevel r = L3
                  then removePCB L3 p (upd_proc p (\<lambda>r. if priority r > 0
                         then r\<lparr>priority := priority r - 1\<rparr> else r) s2)
                  else Inr s2) (\<lambda>s3.
           let s4 = upd_proc p (\<lambda>r. r\<lparr>qlevel := L3\<rparr>) s3 in
           rbind (qinsert (\<lambda>k. priority (procs s4 k) < priority (procs s4 p)) (QL3 s4) p) (\<lambda>q.
           Inr (s4\<lparr>QL3 := q\<rparr>))))))
        (\<lambda>s5. sched cpu (upd_proc p (\<lambda>r. r\<lparr>state := RUNNABLE\<rparr>) s5)))"

section \<open>Priority boosting and the timer\<close>

text \<open>The loop of \<open>boost\<close> over the queue \<open>q\<close> of one level, from index \<open>i\<close> on.\<close>

function boost_loop :: "pqueue \<Rightarrow> int \<Rightarrow> ptable \<Rightarrow> ptable result" where
  "boost_loop q i s =
     (if i < rear q
      then rbind (qget q i) (\<lambda>v.
           rbind (qset (QL0 s) (rear (QL0 s)) v) (\<lambda>q0.
           rbind (deref v) (\<lambda>p.
             boost_loop q (i + 1)
               (upd_proc p (\<lambda>r. r\<lparr>timeslice := 2, qlevel := L0\<rparr>)
                 (s\<lparr>QL0 := q0\<lparr>rear := rear q0 + 1\<rparr>\<rparr>)))))
      else Inr s)"
  by pat_completeness auto
termination by (relation "measure (\<lambda>(q, i, s). nat (rear q - i))") auto

declare boost_loop.simps [simp del]

definition boost :: "ptable \<Rightarrow> ptable result" where
  "boost s =
     (if ticks s mod 100 = 0
      then rbind (boost_loop (QL1 s) 0 s) (\<lambda>s1.
           rbind (boost_loop (QL2 s1) 0 s1) (\<lambda>s2.
           rbind (boost_loop (QL3 s2) 0 s2) (\<lambda>s3.
           Inr (s3\<lparr>QL1 := (QL1 s3)\<lparr>rear := 0\<rparr>, QL2 := (QL2 s3)\<lparr>rear := 0\<rparr>,
                   QL3 := (QL3 s3)\<lparr>rear := 0\<rparr>\<rparr>))))
      else Inr s)"

definition mode_queue :: "ptable \<Rightarrow> int" where
  "mode_queue s = mode s"

text \<open>The timer branch of \<open>trap\<close> on CPU 0, and its tail: a running process yields.\<close>

definition timer_tick :: "ptable \<Rightarrow> ptable result" where
  "timer_tick s =
     (let s1 = wakeup TicksChan (s\<lparr>ticks := ticks s + 1\<rparr>)
      in if mode_queue s1 = 0 then boost s1 else Inr s1)"

definition trap_timer :: "nat \<Rightarrow> ptable \<Rightarrow> ptable result" where
  "trap_timer cpu s =
     rbind (if cpu = 0 then timer_tick s else Inr s) (\<lambda>s1.
       case myproc cpu s1 of
         None \<Rightarrow> Inr s1
       | Some p \<Rightarrow> if state (procs s1 p) = RUNNING then yield cpu s1 else Inr s1)"

section \<open>The scheduling system calls\<close>

definition setpriority :: "int \<Rightarrow> int \<Rightarrow> ptable \<Rightarrow> int \<times> ptable" where
  "setpriority pd pri s =
     (case find_proc (\<lambda>r. pid r = pd) s of
        None \<Rightarrow> (-1, s)
      | Some p \<Rightarrow> (0, upd_proc p (\<lambda>r. r\<lparr>priority := pri\<rparr>) s))"

definition sys_setpriority :: "int option \<Rightarrow> int option \<Rightarrow> ptable \<Rightarrow> int \<times> ptable" where
  "sys_setpriority arg0 arg1 s =
     (case arg0 of None \<Rightarrow> (-1, s) | Some pd \<Rightarrow>
     (case arg1 of None \<Rightarrow> (-1, s) | Some pri \<Rightarrow>
       if pri > 10 \<or> pri < 0 then (-2, s) else setpriority pd pri s))"

fun level_number :: "queuelevel \<Rightarrow> int" where
  "level_number L0 = 0"
| "level_number L1 = 1"
| "level_number L2 = 2"
| "level_number L3 = 3"
| "level_number MOQ = 4"

definition getlev :: "nat \<Rightarrow> ptable \<Rightarrow> int result" where
  "getlev cpu s =
     rbind (deref (myproc cpu s)) (\<lambda>p.
       Inr (if qlevel (procs s p) \<noteq> MOQ then level_number (qlevel (procs s p)) else 99))"

definition monopolize :: "nat \<Rightarrow> ptable \<Rightarrow> ptable result" where
  "monopolize cpu s =
     rbind (deref (myproc cpu s)) (\<lambda>p.
       sched cpu (upd_proc p (\<lambda>r. r\<lparr>state := RUNNABLE\<rparr>) (s\<lparr>mode := 1\<rparr>)))"

text \<open>
  \<open>setmonopoly\<close>; the macro \<open>student_number\<close> is not defined in the repository (the tests ask
  to insert it), so it is an argument.
\<close>

definition setmonopoly ::
  "int \<Rightarrow> int \<Rightarrow> int \<Rightarrow> nat \<Rightarrow> ptable \<Rightarrow> (int \<times> ptable) result" where
  "setmonopoly student_number pd password cpu s =
     (if password \<noteq> student_number then Inr (-2, s)
      else rbind (deref (myproc cpu s)) (\<lambda>cur.
        if pd = pid (procs s cur) then Inr (-4, s)
        else case find_proc (\<lambda>r. pid r = pd) s of
          None \<Rightarrow> Inr (-1, s)
        | Some p \<Rightarrow>
            rbind (qscan (\<lambda>k. pd = pid (procs s k)) (moq s) 0) (\<lambda>i.
              if i < rear (moq s) then Inr (-3, s)
              else
                let lv = qlevel (procs s p) in
                rbind (if lv \<noteq> MOQ then removePCB lv p s else Inr s) (\<lambda>s1.
                let s2 = upd_proc p (\<lambda>r. r\<lparr>qlevel := MOQ\<rparr>) s1 in
                rbind (qpush (moq s2) p) (\<lambda>q.
                Inr (rear q, s2\<lparr>moq := q\<rparr>))))))"

definition sys_setmonopoly ::
  "int \<Rightarrow> int option \<Rightarrow> int option \<Rightarrow> nat \<Rightarrow> ptable \<Rightarrow> (int \<times> ptable) result" where
  "sys_setmonopoly student_number arg0 arg1 cpu s =
     (case arg0 of None \<Rightarrow> Inr (-1, s) | Some pd \<Rightarrow>
     (case arg1 of None \<Rightarrow> Inr (-2, s) | Some pw \<Rightarrow> setmonopoly student_number pd pw cpu s))"

text \<open>
  The loop test of \<open>sys_sleep\<close>: the ticks since the call, as the unsigned difference, against
  the requested number, which C converts to unsigned.
\<close>

definition sys_sleep_test :: "u32 \<Rightarrow> int \<Rightarrow> ptable \<Rightarrow> bool" where
  "sys_sleep_test ticks0 n s = (ticks s - ticks0 < word_of_int n)"

text \<open>One round of the loop of \<open>sys_sleep\<close>.\<close>

definition sys_sleep :: "u32 \<Rightarrow> int \<Rightarrow> nat \<Rightarrow> ptable \<Rightarrow> (wait_result \<times> ptable) result" where
  "sys_sleep ticks0 n cpu s =
     (if sys_sleep_test ticks0 n s
      then rbind (deref (myproc cpu s)) (\<lambda>p.
             if killed (procs s p) then Inr (Returns (-1), s)
             else rbind (sleep cpu TicksChan s) (\<lambda>s1. Inr (Sleeps, s1)))
      else Inr (Returns 0, s))"

end
