(* ===== verification/MlfqInv.thy ===== *)
theory MlfqInv
  imports Mlfq
begin

text \<open>
  The invariant of the \<open>Project2\<close> scheduler and its preservation. The queues are used through an
  interface: a locale with the laws of appending, removing and inserting by priority, which the
  array queues of \<open>MlfqQueue\<close> satisfy. The invariant says that the five queues partition the
  processes in use by level, that process ids are unique, that the running processes are those
  of the CPUs, and that every schedulable process has a stack and a page table.
\<close>

section \<open>The interface of a process queue\<close>

locale process_queue =
  fixes rep :: "'q \<Rightarrow> 'a list \<Rightarrow> bool"
    and push :: "'q \<Rightarrow> 'a \<Rightarrow> 'q result"
    and remove :: "('a \<Rightarrow> bool) \<Rightarrow> 'q \<Rightarrow> 'q result"
    and cap :: nat
  assumes rep_push: "rep q xs \<Longrightarrow> length xs < cap \<Longrightarrow> \<exists>q'. push q x = Inr q' \<and> rep q' (xs @ [x])"
    and rep_push_full: "rep q xs \<Longrightarrow> length xs = cap \<Longrightarrow> push q x = Inl OutOfBounds"
    and rep_remove: "rep q xs \<Longrightarrow> only_in c x xs \<Longrightarrow> length xs < cap \<Longrightarrow>
      \<exists>q'. remove c q = Inr q' \<and> rep q' (remove1 x xs)"
    and rep_remove_full: "rep q xs \<Longrightarrow> only_in c x xs \<Longrightarrow> length xs = cap \<Longrightarrow>
      remove c q = Inl OutOfBounds"
    and rep_length: "rep q xs \<Longrightarrow> length xs \<le> cap"
begin

lemma push_Inr:
  assumes "rep q xs" and "push q x = Inr q'"
  shows "rep q' (xs @ [x])" and "length xs < cap"
  using assms rep_push [of q xs x] rep_push_full [of q xs x] rep_length [of q xs]
  by (cases "length xs = cap"; force)+

lemma remove_Inr:
  assumes "rep q xs" and "only_in c x xs" and "remove c q = Inr q'"
  shows "rep q' (remove1 x xs)" and "length xs < cap"
  using assms rep_remove [of q xs c x] rep_remove_full [of q xs c x] rep_length [of q xs]
  by (cases "length xs = cap"; force)+

text \<open>Moving an element to the end of another queue.\<close>

lemma move_total:
  assumes "rep a xs" and "rep b ys" and "only_in c x xs"
    and "length xs < cap" and "length ys < cap"
  shows "\<exists>a' b'. remove c a = Inr a' \<and> push b x = Inr b' \<and>
    rep a' (remove1 x xs) \<and> rep b' (ys @ [x])"
  using rep_remove [OF assms(1,3,4)] rep_push [OF assms(2,5)] by blast

end

locale priority_process_queue = process_queue rep push remove cap
  for rep :: "'q \<Rightarrow> 'a list \<Rightarrow> bool" and push remove cap +
  fixes insert :: "('a \<Rightarrow> bool) \<Rightarrow> 'q \<Rightarrow> 'a \<Rightarrow> 'q result"
  assumes rep_insert: "rep q xs \<Longrightarrow> length xs < cap \<Longrightarrow>
      \<exists>q'. insert lower q x = Inr q' \<and>
        rep q' (takeWhile (\<lambda>y. \<not> lower y) xs @ x # dropWhile (\<lambda>y. \<not> lower y) xs)"
begin

text \<open>Taking an element out and putting it back by priority never fails for lack of room.\<close>

lemma reinsert_total:
  assumes "rep q xs" and "only_in c x xs" and "length xs < cap"
  shows "\<exists>q1 q2. remove c q = Inr q1 \<and> insert lower q1 x = Inr q2 \<and>
    rep q2 (takeWhile (\<lambda>y. \<not> lower y) (remove1 x xs) @ x # dropWhile (\<lambda>y. \<not> lower y) (remove1 x xs))"
proof -
  obtain q1 where q1: "remove c q = Inr q1" "rep q1 (remove1 x xs)"
    using rep_remove [OF assms] by blast
  have "length (remove1 x xs) < cap"
    using assms(3) length_remove1 [of x xs] by (auto split: if_splits)
  from rep_insert [OF q1(2) this] q1 show ?thesis by blast
qed

end

interpretation pq: priority_process_queue qrep qpush qremove 64 qinsert
  by unfold_locales
    (auto intro: qrep_push qrep_remove qrep_insert qrep_length simp: qpush_full qremove_full)

section \<open>The invariant\<close>

definition live :: "ptable \<Rightarrow> nat \<Rightarrow> bool" where
  "live s p \<longleftrightarrow> p < 64 \<and> state (procs s p) \<noteq> UNUSED"

abbreviation level_list :: "queuelevel \<Rightarrow> ptable \<Rightarrow> nat list" where
  "level_list lv s \<equiv> qlist (queue_of lv s)"

definition queues_ok :: "ptable \<Rightarrow> bool" where
  "queues_ok s \<longleftrightarrow>
     (\<forall>lv. qrep (queue_of lv s) (level_list lv s) \<and> distinct (level_list lv s) \<and>
       (\<forall>p. p \<in> set (level_list lv s) \<longleftrightarrow> live s p \<and> qlevel (procs s p) = lv))"

definition pids_ok :: "ptable \<Rightarrow> bool" where
  "pids_ok s \<longleftrightarrow> 0 < nextpid s \<and>
     (\<forall>p<64. 0 \<le> pid (procs s p) \<and> pid (procs s p) < nextpid s) \<and>
     (\<forall>p. live s p \<longrightarrow> pid (procs s p) \<noteq> 0) \<and>
     (\<forall>p<64. \<forall>p'<64. pid (procs s p) \<noteq> 0 \<longrightarrow> pid (procs s p) = pid (procs s p') \<longrightarrow> p = p')"

definition cpus_ok :: "ptable \<Rightarrow> bool" where
  "cpus_ok s \<longleftrightarrow>
     (\<forall>p. p < 64 \<and> state (procs s p) = RUNNING \<longleftrightarrow> (\<exists>c. cpu_proc s c = Some p)) \<and>
     (\<forall>c c' p. cpu_proc s c = Some p \<longrightarrow> cpu_proc s c' = Some p \<longrightarrow> c = c')"

definition mem_ok :: "ptable \<Rightarrow> bool" where
  "mem_ok s \<longleftrightarrow> (\<forall>p<64. state (procs s p) \<in> {SLEEPING, RUNNABLE, RUNNING} \<longrightarrow>
     kstack (procs s p) \<noteq> None \<and> pgdir (procs s p) \<noteq> None)"

definition mlfq_inv :: "ptable \<Rightarrow> bool" where
  "mlfq_inv s \<longleftrightarrow> queues_ok s \<and> pids_ok s \<and> cpus_ok s \<and> mem_ok s"

lemma queues_okI:
  assumes "\<And>lv. qrep (queue_of lv s) (f lv)" and "\<And>lv. distinct (f lv)"
    and "\<And>lv p. p \<in> set (f lv) \<longleftrightarrow> live s p \<and> qlevel (procs s p) = lv"
  shows "queues_ok s"
  unfolding queues_ok_def using assms by (simp add: qrep_qlist [OF assms(1)])

lemma queues_okD:
  assumes "queues_ok s"
  shows "qrep (queue_of lv s) (level_list lv s)" and "distinct (level_list lv s)"
    and "p \<in> set (level_list lv s) \<longleftrightarrow> live s p \<and> qlevel (procs s p) = lv"
  using assms by (auto simp: queues_ok_def)

text \<open>A step that leaves the queues, the levels and the use of the table entries alone.\<close>

lemma queues_ok_cong:
  assumes "\<And>lv. queue_of lv s' = queue_of lv s"
    and "\<And>p. p < 64 \<Longrightarrow> (state (procs s' p) = UNUSED) = (state (procs s p) = UNUSED)"
    and "\<And>p. p < 64 \<Longrightarrow> qlevel (procs s' p) = qlevel (procs s p)"
  shows "queues_ok s' = queues_ok s"
proof -
  have "live s' p \<and> qlevel (procs s' p) = lv \<longleftrightarrow> live s p \<and> qlevel (procs s p) = lv" for p lv
    using assms(2,3) by (auto simp: live_def)
  then show ?thesis by (simp add: queues_ok_def assms(1))
qed

lemma pids_ok_cong:
  assumes "nextpid s' = nextpid s"
    and "\<And>p. p < 64 \<Longrightarrow> (state (procs s' p) = UNUSED) = (state (procs s p) = UNUSED)"
    and "\<And>p. p < 64 \<Longrightarrow> pid (procs s' p) = pid (procs s p)"
  shows "pids_ok s' = pids_ok s"
proof -
  have l: "live s' p = live s p" for p
    using assms(2) by (auto simp: live_def)
  have q: "live s p \<Longrightarrow> pid (procs s' p) = pid (procs s p)" for p
    using assms(3) by (simp add: live_def)
  show ?thesis by (simp add: pids_ok_def assms(1,3) l q cong: conj_cong)
qed

lemma cpus_ok_RUNNING:
  assumes "cpus_ok s" and "cpu_proc s c = Some p"
  shows "p < 64" and "state (procs s p) = RUNNING"
  using assms unfolding cpus_ok_def by blast+

lemma queue_of_set_queue:
  "queue_of lv (set_queue lv' q s) = (if lv = lv' then q else queue_of lv s)"
  by (cases lv; cases lv') auto

lemma set_queue_frame [simp]:
  "procs (set_queue lv q s) = procs s" "cpu_proc (set_queue lv q s) = cpu_proc s"
  "nextpid (set_queue lv q s) = nextpid s" "mode (set_queue lv q s) = mode s"
  "initproc (set_queue lv q s) = initproc s" "ticks (set_queue lv q s) = ticks s"
  by (cases lv; simp)+

lemma upd_proc_frame [simp]:
  "queue_of lv (upd_proc p f s) = queue_of lv s" "cpu_proc (upd_proc p f s) = cpu_proc s"
  "nextpid (upd_proc p f s) = nextpid s" "mode (upd_proc p f s) = mode s"
  "initproc (upd_proc p f s) = initproc s" "ticks (upd_proc p f s) = ticks s"
  "QL0 (upd_proc p f s) = QL0 s" "QL1 (upd_proc p f s) = QL1 s" "QL2 (upd_proc p f s) = QL2 s"
  "QL3 (upd_proc p f s) = QL3 s" "moq (upd_proc p f s) = moq s"
  by (cases lv; simp add: upd_proc_def)+

lemma upd_proc_procs [simp]:
  "procs (upd_proc p f s) p' = (if p' = p then f (procs s p) else procs s p')"
  by (simp add: upd_proc_def)

lemma queue_of_frame [simp]:
  "queue_of lv (s\<lparr>cpu_proc := x\<rparr>) = queue_of lv s" "queue_of lv (s\<lparr>mode := m\<rparr>) = queue_of lv s"
  "queue_of lv (s\<lparr>nextpid := n\<rparr>) = queue_of lv s" "queue_of lv (s\<lparr>ticks := t\<rparr>) = queue_of lv s"
  "queue_of lv (s\<lparr>initproc := i\<rparr>) = queue_of lv s" "queue_of lv (s\<lparr>procs := ps\<rparr>) = queue_of lv s"
  by (cases lv; simp)+

lemma find_proc_SomeD:
  assumes "find_proc c s = Some p"
  shows "p < 64" and "c (procs s p)" and "\<And>j. j < p \<Longrightarrow> \<not> c (procs s j)"
  using find_Some_first [of "\<lambda>p. c (procs s p)" 64 p] assms by (auto simp: find_proc_def)

lemma find_proc_None: "find_proc c s = None \<longleftrightarrow> (\<forall>p<64. \<not> c (procs s p))"
  by (simp add: find_proc_def find_None_all)

text \<open>The list of a level that misses a table entry has room for it.\<close>

lemma level_list_room:
  assumes "queues_ok s" and "p < 64" and "p \<notin> set (level_list lv s)"
  shows "length (level_list lv s) < 64"
proof -
  have "length (level_list lv s) = card (set (level_list lv s))"
    using queues_okD(2) [OF assms(1)] by (simp add: distinct_card)
  also have "\<dots> \<le> card ({..<64} - {p})"
    using queues_okD(3) [OF assms(1)] assms(3) by (intro card_mono) (auto simp: live_def)
  also have "\<dots> < 64" using assms(2) by simp
  finally show ?thesis .
qed

text \<open>The process that a queue scan by pid selects is unique.\<close>

lemma only_in_pid:
  assumes "queues_ok s" and "pids_ok s" and "p \<in> set (level_list lv s)"
    and "\<And>k. pid (procs s' k) = pid (procs s k)"
  shows "only_in (\<lambda>k. pid (procs s' k) = pid (procs s' p)) p (level_list lv s)"
proof -
  have m: "live s k" if "k \<in> set (level_list lv s)" for k
    using that queues_okD(3) [OF assms(1)] by blast
  have "k = p" if "k \<in> set (level_list lv s)" "pid (procs s k) = pid (procs s p)" for k
    using m [OF that(1)] m [OF assms(3)] that(2) assms(2) unfolding pids_ok_def live_def by metis
  with assms queues_okD(2) [OF assms(1)] show ?thesis by (auto simp: only_in_def)
qed

section \<open>Steps that leave the queues alone\<close>

text \<open>
  A harmless step changes neither the queues, the ids, the levels nor the memory of a process;
  it may wake sleeping processes.
\<close>

definition harmless :: "ptable \<Rightarrow> ptable \<Rightarrow> bool" where
  "harmless s s' \<longleftrightarrow>
     (\<forall>lv. queue_of lv s' = queue_of lv s) \<and> nextpid s' = nextpid s \<and> cpu_proc s' = cpu_proc s \<and>
     (\<forall>p. pid (procs s' p) = pid (procs s p) \<and> qlevel (procs s' p) = qlevel (procs s p) \<and>
          kstack (procs s' p) = kstack (procs s p) \<and> pgdir (procs s' p) = pgdir (procs s p) \<and>
          (state (procs s' p) = state (procs s p) \<or>
           state (procs s p) = SLEEPING \<and> state (procs s' p) = RUNNABLE))"

lemma harmless_refl [simp]: "harmless s s"
  by (simp add: harmless_def)

lemma harmless_trans: "harmless s s1 \<Longrightarrow> harmless s1 s2 \<Longrightarrow> harmless s s2"
  unfolding harmless_def by (auto split: if_splits) (metis procstate.distinct)+

lemma harmless_live: "harmless s s' \<Longrightarrow> live s' p = live s p"
  unfolding harmless_def live_def by (metis procstate.distinct(3,5))

lemma harmless_RUNNING: "harmless s s' \<Longrightarrow> state (procs s' p) = RUNNING \<longleftrightarrow> state (procs s p) = RUNNING"
  unfolding harmless_def by (metis procstate.distinct)

lemma harmless_queues: "harmless s s' \<Longrightarrow> queues_ok s \<Longrightarrow> queues_ok s'"
  using harmless_live [of s s'] by (auto simp: queues_ok_def harmless_def)

lemma harmless_pids: "harmless s s' \<Longrightarrow> pids_ok s \<Longrightarrow> pids_ok s'"
  using harmless_live [of s s'] by (auto simp: pids_ok_def harmless_def)

lemma harmless_cpus: "harmless s s' \<Longrightarrow> cpus_ok s \<Longrightarrow> cpus_ok s'"
  using harmless_RUNNING [of s s'] by (auto simp: cpus_ok_def harmless_def)

lemma harmless_mem:
  assumes "harmless s s'" and "mem_ok s"
  shows "mem_ok s'"
  unfolding mem_ok_def
proof (intro allI impI)
  fix p assume p: "p < 64" and st: "state (procs s' p) \<in> {SLEEPING, RUNNABLE, RUNNING}"
  from assms(1) st have "state (procs s p) \<in> {SLEEPING, RUNNABLE, RUNNING}"
    unfolding harmless_def by (metis insert_iff)
  with assms(2) p have "kstack (procs s p) \<noteq> None \<and> pgdir (procs s p) \<noteq> None"
    unfolding mem_ok_def by blast
  moreover have "kstack (procs s' p) = kstack (procs s p)" "pgdir (procs s' p) = pgdir (procs s p)"
    using assms(1) unfolding harmless_def by blast+
  ultimately show "kstack (procs s' p) \<noteq> None \<and> pgdir (procs s' p) \<noteq> None" by simp
qed

lemma harmless_inv: "harmless s s' \<Longrightarrow> mlfq_inv s \<Longrightarrow> mlfq_inv s'"
  by (auto simp: mlfq_inv_def intro: harmless_queues harmless_pids harmless_cpus harmless_mem)

named_theorems harmless_steps \<open>operations that are harmless steps\<close>

lemma harmless_wakeup1 [harmless_steps]: "harmless s (wakeup1 ch s)"
  by (auto simp: harmless_def wakeup1_def)

lemma harmless_kill [harmless_steps]: "harmless s (snd (kill pd s))"
  by (auto simp: harmless_def kill_def split: option.splits)

lemma harmless_setpriority [harmless_steps]: "harmless s (snd (setpriority pd pri s))"
  by (auto simp: harmless_def setpriority_def split: option.splits)

lemma harmless_sys_setpriority [harmless_steps]: "harmless s (snd (sys_setpriority a b s))"
  using harmless_setpriority by (auto simp: sys_setpriority_def split: option.splits)

lemma harmless_unmonopolize [harmless_steps]: "harmless s (unmonopolize s)"
  by (auto simp: harmless_def unmonopolize_def)

lemma harmless_sleep_resume [harmless_steps]:
  "sleep_resume cpu s = Inr s' \<Longrightarrow> harmless s s'"
  by (auto simp: harmless_def sleep_resume_def rbind_eq_Inr split: if_splits)

lemma harmless_reparent [harmless_steps]: "harmless s (reparent cur p s)"
proof (induction cur p s rule: reparent.induct)
  case (1 cur p s)
  let ?s1 = "upd_proc p (\<lambda>r. r\<lparr>parent := initproc s\<rparr>) s"
  let ?s2 = "if parent (procs s p) = Some cur
    then (if state (procs ?s1 p) = ZOMBIE then wakeup1 (chan_of (initproc s)) ?s1 else ?s1) else s"
  have "harmless s ?s1" by (auto simp: harmless_def)
  then have "harmless s ?s2" using harmless_trans harmless_wakeup1 by auto
  with 1 show ?case
    by (auto simp: reparent.simps [of cur p s] Let_def intro: harmless_trans)
qed

section \<open>Giving up the CPU\<close>

text \<open>
  Between the change of the state of the running process and \<open>sched\<close>, that process is the only
  one of a CPU that is not \<open>RUNNING\<close>.
\<close>

definition cpus_leaving :: "nat \<Rightarrow> nat \<Rightarrow> ptable \<Rightarrow> bool" where
  "cpus_leaving c p s \<longleftrightarrow>
     cpu_proc s c = Some p \<and> p < 64 \<and> state (procs s p) \<noteq> RUNNING \<and>
     (\<forall>k. k \<noteq> p \<longrightarrow> (k < 64 \<and> state (procs s k) = RUNNING \<longleftrightarrow> (\<exists>c'. cpu_proc s c' = Some k))) \<and>
     (\<forall>c1 c2 k. cpu_proc s c1 = Some k \<longrightarrow> cpu_proc s c2 = Some k \<longrightarrow> c1 = c2)"

lemma cpus_ok_upd:
  "cpus_ok (s\<lparr>cpu_proc := f\<rparr>) \<longleftrightarrow>
     (\<forall>p. p < 64 \<and> state (procs s p) = RUNNING \<longleftrightarrow> (\<exists>c. f c = Some p)) \<and>
     (\<forall>c c' p. f c = Some p \<longrightarrow> f c' = Some p \<longrightarrow> c = c')"
proof -
  have "procs (s\<lparr>cpu_proc := f\<rparr>) = procs s" "cpu_proc (s\<lparr>cpu_proc := f\<rparr>) = f" by simp_all
  then show ?thesis by (simp only: cpus_ok_def)
qed

lemma sched_leaving:
  assumes "cpus_leaving c p s"
  shows "sched c s = Inr (s\<lparr>cpu_proc := (cpu_proc s)(c := None)\<rparr>)"
    and "cpus_ok (s\<lparr>cpu_proc := (cpu_proc s)(c := None)\<rparr>)"
proof -
  show "sched c s = Inr (s\<lparr>cpu_proc := (cpu_proc s)(c := None)\<rparr>)"
    using assms by (simp add: sched_def myproc_def cpus_leaving_def)
  have "k < 64 \<and> state (procs s k) = RUNNING \<longleftrightarrow>
      (\<exists>c'. ((cpu_proc s)(c := None)) c' = Some k)" for k
  proof (cases "k = p")
    case True
    have "((cpu_proc s)(c := None)) c' \<noteq> Some p" for c'
    proof
      assume a: "((cpu_proc s)(c := None)) c' = Some p"
      then have "c' \<noteq> c" and "cpu_proc s c' = Some p" by (auto split: if_splits)
      with assms show False unfolding cpus_leaving_def by blast
    qed
    moreover have "state (procs s p) \<noteq> RUNNING" using assms unfolding cpus_leaving_def by blast
    ultimately show ?thesis using True by simp
  next
    case False
    have "((cpu_proc s)(c := None)) c' = Some k \<longleftrightarrow> cpu_proc s c' = Some k" for c'
      using False assms unfolding cpus_leaving_def by (cases "c' = c") auto
    moreover have "k < 64 \<and> state (procs s k) = RUNNING \<longleftrightarrow> (\<exists>c'. cpu_proc s c' = Some k)"
      using False assms unfolding cpus_leaving_def by blast
    ultimately show ?thesis by (simp only:)
  qed
  moreover have "c1 = c2" if "((cpu_proc s)(c := None)) c1 = Some k"
      "((cpu_proc s)(c := None)) c2 = Some k" for c1 c2 k
  proof -
    from that have "cpu_proc s c1 = Some k" "cpu_proc s c2 = Some k" by (auto split: if_splits)
    with assms show ?thesis unfolding cpus_leaving_def by blast
  qed
  ultimately show "cpus_ok (s\<lparr>cpu_proc := (cpu_proc s)(c := None)\<rparr>)"
    unfolding cpus_ok_upd by blast
qed

lemma cpus_ok_leaving:
  assumes "cpus_ok s" and "cpu_proc s c = Some p" and "cpu_proc s' = cpu_proc s"
    and "state (procs s' p) \<noteq> RUNNING"
    and "\<And>k. k \<noteq> p \<Longrightarrow> k < 64 \<Longrightarrow> state (procs s' k) = RUNNING \<longleftrightarrow> state (procs s k) = RUNNING"
  shows "cpus_leaving c p s'"
  unfolding cpus_leaving_def assms(3)
proof (intro conjI allI impI)
  fix k assume "k \<noteq> p"
  then have "(k < 64 \<and> state (procs s' k) = RUNNING) = (k < 64 \<and> state (procs s k) = RUNNING)"
    using assms(5) by blast
  also have "\<dots> = (\<exists>c'. cpu_proc s c' = Some k)"
    using assms(1) unfolding cpus_ok_def by blast
  finally show "(k < 64 \<and> state (procs s' k) = RUNNING) = (\<exists>c'. cpu_proc s c' = Some k)" .
next
  fix c1 c2 k assume "cpu_proc s c1 = Some k" and "cpu_proc s c2 = Some k"
  with assms(1) show "c1 = c2" unfolding cpus_ok_def by blast
qed (use assms cpus_ok_RUNNING in blast)+

lemma queues_ok_cpu [simp]: "queues_ok (s\<lparr>cpu_proc := x\<rparr>) = queues_ok s"
  by (rule queues_ok_cong) auto

lemma pids_ok_cpu [simp]: "pids_ok (s\<lparr>cpu_proc := x\<rparr>) = pids_ok s"
  by (rule pids_ok_cong) auto

lemma mem_ok_cpu [simp]: "mem_ok (s\<lparr>cpu_proc := x\<rparr>) = mem_ok s"
  by (simp add: mem_ok_def)

lemma leaving_inv:
  assumes "cpus_leaving c p s" and "queues_ok s" and "pids_ok s" and "mem_ok s"
  shows "\<exists>s'. sched c s = Inr s' \<and> mlfq_inv s' \<and> procs s' = procs s \<and> cpu_proc s' c = None \<and>
    (\<forall>lv. queue_of lv s' = queue_of lv s) \<and> mode s' = mode s \<and> ticks s' = ticks s"
  using sched_leaving [OF assms(1)] assms(2-4) by (simp add: mlfq_inv_def)

text \<open>The running process changes its state in place and leaves the CPU.\<close>

lemma leave_in_place:
  assumes inv: "mlfq_inv s" and cp: "cpu_proc s c = Some p"
    and f: "state (f (procs s p)) \<notin> {RUNNING, UNUSED}"
      "pid (f (procs s p)) = pid (procs s p)" "qlevel (f (procs s p)) = qlevel (procs s p)"
      "kstack (f (procs s p)) = kstack (procs s p)" "pgdir (f (procs s p)) = pgdir (procs s p)"
  shows "\<exists>s'. sched c (upd_proc p f s) = Inr s' \<and> mlfq_inv s' \<and> procs s' = procs (upd_proc p f s) \<and>
    cpu_proc s' c = None \<and> (\<forall>lv. queue_of lv s' = queue_of lv s) \<and> mode s' = mode s \<and> ticks s' = ticks s"
proof -
  let ?s = "upd_proc p f s"
  have r: "p < 64" "state (procs s p) = RUNNING"
    using inv cp cpus_ok_RUNNING by (auto simp: mlfq_inv_def)
  have "cpus_leaving c p ?s"
    using cpus_ok_leaving [of s c p ?s] inv cp f(1) by (simp add: mlfq_inv_def)
  moreover have "queues_ok ?s"
    using inv r f queues_ok_cong [of ?s s] by (simp add: mlfq_inv_def)
  moreover have "pids_ok ?s"
    using inv r f pids_ok_cong [of ?s s] by (simp add: mlfq_inv_def)
  moreover have "mem_ok ?s"
    using inv r f unfolding mlfq_inv_def mem_ok_def by simp
  ultimately show ?thesis using leaving_inv [of c p ?s] by simp
qed

end
