(* ===== verification/MlfqOps.thy ===== *)
theory MlfqOps
  imports MlfqInv
begin

text \<open>
  The operations of the \<open>Project2\<close> scheduler keep the invariant, and what each of them does to
  the queues and to the processes. Every lemma of this theory is total: from a state in the
  invariant the operation returns, except where a queue that holds all 64 processes is full.
\<close>

section \<open>Process creation\<close>

lemma live_upd:
  "live (upd_proc p f s) k \<longleftrightarrow> (if k = p then p < 64 \<and> state (f (procs s p)) \<noteq> UNUSED else live s k)"
  by (auto simp: live_def)

text \<open>A process enters the end of a queue: it was in no queue before.\<close>

lemma enter_queue:
  assumes "queues_ok s" and "\<not> live s p" and "p < 64"
    and "queue_of lv s' = q'" and "qrep q' (level_list lv s @ [p])"
    and "\<And>lv'. lv' \<noteq> lv \<Longrightarrow> queue_of lv' s' = queue_of lv' s"
    and "state (procs s' p) \<noteq> UNUSED" and "qlevel (procs s' p) = lv"
    and "\<And>k. k \<noteq> p \<Longrightarrow> procs s' k = procs s k"
  shows "queues_ok s'"
proof (rule queues_okI [of s' "\<lambda>l. if l = lv then level_list lv s @ [p] else level_list l s"])
  fix l :: queuelevel and k
  have n: "p \<notin> set (level_list l s)" for l
    using queues_okD(3) [OF assms(1)] assms(2) by blast
  show "qrep (queue_of l s') (if l = lv then level_list lv s @ [p] else level_list l s)"
    using assms(4-6) queues_okD(1) [OF assms(1)] by auto
  show "distinct (if l = lv then level_list lv s @ [p] else level_list l s)"
    using queues_okD(2) [OF assms(1)] n by auto
  have "live s' k \<longleftrightarrow> k = p \<or> live s k"
    using assms(3,7,9) by (cases "k = p") (auto simp: live_def)
  moreover have "k \<noteq> p \<Longrightarrow> qlevel (procs s' k) = qlevel (procs s k)"
    using assms(9) by simp
  ultimately show "k \<in> set (if l = lv then level_list lv s @ [p] else level_list l s) \<longleftrightarrow>
      live s' k \<and> qlevel (procs s' k) = l"
    using queues_okD(3) [OF assms(1), of k l] assms(2,8) by (cases "k = p") auto
qed

definition fresh_proc :: "nat \<Rightarrow> int \<Rightarrow> proc \<Rightarrow> proc" where
  "fresh_proc k n r = r\<lparr>state := EMBRYO, pid := n, kstack := Some k, ret_addr := Trapret,
     ctxt := zero_context\<lparr>eip := Forkret\<rparr>, qlevel := L0, priority := 0, timeslice := 2\<rparr>"

lemma fresh_proc_simps [simp]:
  "state (fresh_proc k n r) = EMBRYO" "pid (fresh_proc k n r) = n"
  "kstack (fresh_proc k n r) = Some k" "qlevel (fresh_proc k n r) = L0"
  "timeslice (fresh_proc k n r) = 2" "priority (fresh_proc k n r) = 0"
  "ofile (fresh_proc k n r) = ofile r" "pgdir (fresh_proc k n r) = pgdir r"
  by (simp_all add: fresh_proc_def)

lemma upd_proc_compose: "upd_proc p g (upd_proc p f s) = upd_proc p (\<lambda>r. g (f r)) s"
  by (simp add: upd_proc_def)

lemma upd_proc_nextpid: "upd_proc p f (s\<lparr>nextpid := n\<rparr>) = (upd_proc p f s)\<lparr>nextpid := n\<rparr>"
  by (simp add: upd_proc_def)

lemma upd_proc_QL0: "upd_proc p f (s\<lparr>QL0 := q\<rparr>) = (upd_proc p f s)\<lparr>QL0 := q\<rparr>"
  by (simp add: upd_proc_def)

lemmas upd_proc_norm = upd_proc_compose upd_proc_nextpid upd_proc_QL0

lemma allocproc_success:
  assumes inv: "mlfq_inv s" and u: "find_proc (\<lambda>r. state r = UNUSED) s = Some p"
  obtains q where "allocproc (Some k) s =
      Inr (Some p, (upd_proc p (fresh_proc k (nextpid s)) s)\<lparr>nextpid := nextpid s + 1, QL0 := q\<rparr>)"
    and "qrep q (level_list L0 s @ [p])" and "p < 64" and "state (procs s p) = UNUSED"
proof -
  note p = find_proc_SomeD(1,2) [OF u]
  have qs: "queues_ok s" using inv by (simp add: mlfq_inv_def)
  have "p \<notin> set (level_list L0 s)"
    using queues_okD(3) [OF qs, of p L0] p(2) by (simp add: live_def)
  then have "length (level_list L0 s) < 64" using level_list_room [OF qs p(1)] by blast
  then obtain q where q: "qpush (QL0 s) p = Inr q" "qrep q (level_list L0 s @ [p])"
    using pq.rep_push queues_okD(1) [OF qs, of L0] by (metis queue_of.simps(1))
  show thesis
  proof (rule that [of q])
    show "allocproc (Some k) s =
      Inr (Some p, (upd_proc p (fresh_proc k (nextpid s)) s)\<lparr>nextpid := nextpid s + 1, QL0 := q\<rparr>)"
      using u q(1)
      by (simp add: allocproc_def Let_def upd_proc_norm fresh_proc_def [abs_def])
  qed (use q p in auto)
qed

lemma pids_ok_fresh:
  assumes "pids_ok s" and "p < 64" and "nextpid s' = nextpid s + 1"
    and "pid (procs s' p) = nextpid s"
    and "\<And>k. k \<noteq> p \<Longrightarrow> procs s' k = procs s k"
  shows "pids_ok s'"
proof -
  have b: "0 < nextpid s" "\<And>k. k < 64 \<Longrightarrow> 0 \<le> pid (procs s k) \<and> pid (procs s k) < nextpid s"
    and l: "\<And>k. live s k \<Longrightarrow> pid (procs s k) \<noteq> 0"
    and u: "\<And>k k'. k < 64 \<Longrightarrow> k' < 64 \<Longrightarrow> pid (procs s k) \<noteq> 0 \<Longrightarrow>
      pid (procs s k) = pid (procs s k') \<Longrightarrow> k = k'"
    using assms(1) unfolding pids_ok_def by blast+
  have e: "pid (procs s' k) = (if k = p then nextpid s else pid (procs s k))" for k
    using assms(4,5) by simp
  have "pid (procs s' k) \<noteq> 0" if "live s' k" for k
    using that b(1) l assms(5) by (cases "k = p") (auto simp: e live_def)
  moreover have "k = k'" if "k < 64" "k' < 64" "pid (procs s' k) \<noteq> 0" "pid (procs s' k) = pid (procs s' k')" for k k'
    using that u [of k k'] b(2) [of k] b(2) [of k'] by (auto simp: e split: if_splits)
  moreover have "0 \<le> pid (procs s' k) \<and> pid (procs s' k) < nextpid s'" if "k < 64" for k
    using b(1) b(2) [OF that] by (auto simp: e assms(3))
  ultimately show ?thesis using b(1) unfolding pids_ok_def assms(3) by fastforce
qed

lemma cpus_ok_cong:
  assumes "cpus_ok s" and "cpu_proc s' = cpu_proc s"
    and "\<And>k. k < 64 \<Longrightarrow> state (procs s' k) = RUNNING \<longleftrightarrow> state (procs s k) = RUNNING"
  shows "cpus_ok s'"
proof -
  have "(k < 64 \<and> state (procs s' k) = RUNNING) = (k < 64 \<and> state (procs s k) = RUNNING)" for k
    using assms(3) by blast
  with assms(1) show ?thesis unfolding cpus_ok_def assms(2) by presburger
qed

lemma mem_ok_upd1:
  assumes "mem_ok s" and "\<And>k. k \<noteq> p \<Longrightarrow> procs s' k = procs s k"
    and "state (procs s' p) \<in> {SLEEPING, RUNNABLE, RUNNING} \<Longrightarrow>
      kstack (procs s' p) \<noteq> None \<and> pgdir (procs s' p) \<noteq> None"
  shows "mem_ok s'"
  unfolding mem_ok_def
proof (intro allI impI)
  fix k assume k: "k < 64" "state (procs s' k) \<in> {SLEEPING, RUNNABLE, RUNNING}"
  show "kstack (procs s' k) \<noteq> None \<and> pgdir (procs s' k) \<noteq> None"
  proof (cases "k = p")
    case True
    with k assms(3) show ?thesis by simp
  next
    case False
    with k assms(1,2) show ?thesis unfolding mem_ok_def by metis
  qed
qed

text \<open>
  \<open>fork\<close> of a running process with the memory it needs: the child gets the next pid, the last
  place of the top queue and a full time slice, and is runnable.
\<close>

definition child_of :: "nat \<Rightarrow> nat \<Rightarrow> nat \<Rightarrow> ptable \<Rightarrow> proc \<Rightarrow> proc" where
  "child_of k d cur s r = (fresh_proc k (nextpid s) r)\<lparr>pgdir := Some d, sz := sz (procs s cur),
     parent := Some cur, tf := (tf (procs s cur))\<lparr>tf_eax := 0\<rparr>,
     ofile := dup_files (procs s cur) (fresh_proc k (nextpid s) r),
     cwd := cwd (procs s cur), name := name (procs s cur), state := RUNNABLE\<rparr>"

lemma child_of_simps [simp]:
  "state (child_of k d cur s r) = RUNNABLE" "pid (child_of k d cur s r) = nextpid s"
  "kstack (child_of k d cur s r) = Some k" "pgdir (child_of k d cur s r) = Some d"
  "qlevel (child_of k d cur s r) = L0" "timeslice (child_of k d cur s r) = 2"
  "parent (child_of k d cur s r) = Some cur" "tf (child_of k d cur s r) = (tf (procs s cur))\<lparr>tf_eax := 0\<rparr>"
  by (simp_all add: child_of_def)

lemma fork_success:
  assumes inv: "mlfq_inv s" and cp: "cpu_proc s c = Some cur"
    and u: "find_proc (\<lambda>r. state r = UNUSED) s = Some p"
  shows "\<exists>s'. fork (Some k) (Some d) c s = Inr (nextpid s, s') \<and> mlfq_inv s' \<and>
    procs s' = (procs s)(p := child_of k d cur s (procs s p)) \<and>
    level_list L0 s' = level_list L0 s @ [p] \<and>
    (\<forall>lv. lv \<noteq> L0 \<longrightarrow> queue_of lv s' = queue_of lv s) \<and> cpu_proc s' = cpu_proc s"
proof -
  obtain q where q: "allocproc (Some k) s =
      Inr (Some p, (upd_proc p (fresh_proc k (nextpid s)) s)\<lparr>nextpid := nextpid s + 1, QL0 := q\<rparr>)"
    "qrep q (level_list L0 s @ [p])" "p < 64" "state (procs s p) = UNUSED"
    using allocproc_success [OF inv u] by metis
  have ok: "queues_ok s" "pids_ok s" "cpus_ok s" "mem_ok s"
    using inv by (auto simp: mlfq_inv_def)
  have ne: "cur \<noteq> p" using cpus_ok_RUNNING [OF ok(3) cp] q(4) by auto
  let ?s = "(upd_proc p (child_of k d cur s) s)\<lparr>nextpid := nextpid s + 1, QL0 := q\<rparr>"
  have f: "fork (Some k) (Some d) c s = Inr (nextpid s, ?s)"
    using ne by (simp add: fork_def myproc_def cp q(1) Let_def upd_proc_norm child_of_def [abs_def])
  have pr: "procs ?s = (procs s)(p := child_of k d cur s (procs s p))"
    by (simp add: upd_proc_def)
  have l: "queue_of lv ?s = (if lv = L0 then q else queue_of lv s)" for lv
    by (cases lv) simp_all
  have "queues_ok ?s"
    by (rule enter_queue [OF ok(1) _ q(3), of L0 ?s q]) (use q(2,4) l pr in \<open>auto simp: live_def\<close>)
  moreover have "pids_ok ?s"
    by (rule pids_ok_fresh [OF ok(2) q(3)]) (simp_all add: pr)
  moreover have "cpus_ok ?s"
    by (rule cpus_ok_cong [OF ok(3)]) (use q(4) in \<open>auto simp: pr\<close>)
  moreover have "mem_ok ?s"
    by (rule mem_ok_upd1 [OF ok(4), of p]) (simp_all add: pr)
  ultimately have "mlfq_inv ?s" by (simp add: mlfq_inv_def)
  with f pr l qrep_qlist [OF q(2)] show ?thesis by auto
qed

lemma fork_no_slot:
  assumes "cpu_proc s c = Some cur" and "find_proc (\<lambda>r. state r = UNUSED) s = None"
  shows "fork kp d c s = Inr (-1, s)"
  using assms by (simp add: fork_def allocproc_def myproc_def)

lemma allocproc_no_stack:
  assumes inv: "mlfq_inv s"
  shows "\<exists>s'. allocproc None s = Inr (None, s') \<and> mlfq_inv s'"
proof (cases "find_proc (\<lambda>r. state r = UNUSED) s")
  case None
  with inv show ?thesis by (simp add: allocproc_def)
next
  case (Some p)
  note p = find_proc_SomeD(1,2) [OF Some]
  let ?s = "(upd_proc p (\<lambda>r. r\<lparr>state := EMBRYO, pid := nextpid s, kstack := None, state := UNUSED\<rparr>) s)
    \<lparr>nextpid := nextpid s + 1\<rparr>"
  have a: "allocproc None s = Inr (None, ?s)"
    using Some by (simp add: allocproc_def Let_def upd_proc_norm)
  have ok: "queues_ok s" "pids_ok s" "cpus_ok s" "mem_ok s"
    using inv by (auto simp: mlfq_inv_def)
  have "queues_ok ?s" using ok(1) queues_ok_cong [of ?s s] p by simp
  moreover have "pids_ok ?s"
    by (rule pids_ok_fresh [OF ok(2) p(1)]) simp_all
  moreover have "cpus_ok ?s"
    by (rule cpus_ok_cong [OF ok(3)]) (use p in auto)
  moreover have "mem_ok ?s"
    by (rule mem_ok_upd1 [OF ok(4), of p]) simp_all
  ultimately show ?thesis using a by (simp add: mlfq_inv_def)
qed

section \<open>Sleep, exit, wait\<close>

lemma sleep_inv:
  assumes "mlfq_inv s" and "cpu_proc s c = Some p"
  shows "\<exists>s'. sleep c ch s = Inr s' \<and> mlfq_inv s' \<and> cpu_proc s' c = None \<and>
    procs s' = (procs s)(p := (procs s p)\<lparr>chan := ch, state := SLEEPING\<rparr>)"
  using leave_in_place [OF assms, of "\<lambda>r. r\<lparr>chan := ch, state := SLEEPING\<rparr>"] assms(2)
  by (auto simp: sleep_def myproc_def upd_proc_def)

lemma exit_inv:
  assumes "mlfq_inv s" and "cpu_proc s c = Some p" and "initproc s \<noteq> Some p"
  shows "\<exists>s'. exit c s = Inr s' \<and> mlfq_inv s' \<and> cpu_proc s' c = None \<and>
    state (procs s' p) = ZOMBIE"
proof -
  let ?s1 = "upd_proc p (\<lambda>r. r\<lparr>ofile := (\<lambda>i. if i < 16 then None else ofile r i), cwd := None\<rparr>) s"
  let ?s2 = "wakeup1 (chan_of (parent (procs ?s1 p))) ?s1"
  let ?s3 = "reparent p 0 ?s2"
  have "harmless s ?s1" by (auto simp: harmless_def)
  then have h: "harmless s ?s3"
    using harmless_trans harmless_wakeup1 harmless_reparent by blast
  have inv: "mlfq_inv ?s3" using harmless_inv [OF h] assms(1) by blast
  have cp: "cpu_proc ?s3 c = Some p" using h assms(2) by (simp add: harmless_def)
  from leave_in_place [OF inv cp, of "\<lambda>r. r\<lparr>state := ZOMBIE\<rparr>"]
  obtain s' where s': "sched c (upd_proc p (\<lambda>r. r\<lparr>state := ZOMBIE\<rparr>) ?s3) = Inr s'" "mlfq_inv s'"
    "cpu_proc s' c = None" "procs s' = procs (upd_proc p (\<lambda>r. r\<lparr>state := ZOMBIE\<rparr>) ?s3)"
    by auto
  with assms(2,3) show ?thesis by (auto simp: exit_def myproc_def Let_def)
qed

lemma leave_queue:
  assumes "queues_ok s" and "p \<in> set (level_list lv s)"
    and "queue_of lv s' = q'" and "qrep q' (remove1 p (level_list lv s))"
    and "\<And>lv'. lv' \<noteq> lv \<Longrightarrow> queue_of lv' s' = queue_of lv' s"
    and "state (procs s' p) = UNUSED" and "\<And>k. k \<noteq> p \<Longrightarrow> procs s' k = procs s k"
  shows "queues_ok s'"
proof (rule queues_okI [of s' "\<lambda>l. if l = lv then remove1 p (level_list lv s) else level_list l s"])
  fix l :: queuelevel and k
  have d: "distinct (level_list lv s)" using queues_okD(2) [OF assms(1)] .
  have p: "live s p" "qlevel (procs s p) = lv"
    using assms(2) queues_okD(3) [OF assms(1), of p lv] by auto
  show "qrep (queue_of l s') (if l = lv then remove1 p (level_list lv s) else level_list l s)"
    using assms(3-5) queues_okD(1) [OF assms(1)] by auto
  show "distinct (if l = lv then remove1 p (level_list lv s) else level_list l s)"
    using queues_okD(2) [OF assms(1)] by (simp add: distinct_remove1)
  have "live s' k \<longleftrightarrow> k \<noteq> p \<and> live s k"
    using assms(6,7) by (cases "k = p") (auto simp: live_def)
  moreover have "k \<noteq> p \<Longrightarrow> qlevel (procs s' k) = qlevel (procs s k)"
    using assms(7) by simp
  ultimately show "k \<in> set (if l = lv then remove1 p (level_list lv s) else level_list l s) \<longleftrightarrow>
      live s' k \<and> qlevel (procs s' k) = l"
    using queues_okD(3) [OF assms(1), of k l] d p by (cases "k = p") auto
qed

lemma reap_spec:
  assumes inv: "mlfq_inv s" and p: "p < 64" and z: "state (procs s p) = ZOMBIE"
  shows "\<exists>s'. reap p s = Inr (pid (procs s p), s') \<and> mlfq_inv s' \<and>
    state (procs s' p) = UNUSED \<and> pid (procs s' p) = 0 \<and> (\<forall>k. k \<noteq> p \<longrightarrow> procs s' k = procs s k) \<and>
    level_list (qlevel (procs s p)) s' = remove1 p (level_list (qlevel (procs s p)) s) \<and>
    (\<forall>lv. lv \<noteq> qlevel (procs s p) \<longrightarrow> queue_of lv s' = queue_of lv s)"
proof -
  have ok: "queues_ok s" "pids_ok s" "cpus_ok s" "mem_ok s"
    using inv by (auto simp: mlfq_inv_def)
  let ?f = "\<lambda>r. r\<lparr>kstack := None, pid := 0, parent := None, name := [], killed := False, state := UNUSED\<rparr>"
  let ?s1 = "upd_proc p ?f s"
  let ?lv = "qlevel (procs s p)"
  have m: "p \<in> set (level_list ?lv s)"
    using queues_okD(3) [OF ok(1)] p z by (simp add: live_def)
  have "only_in (\<lambda>k. state (procs ?s1 k) = UNUSED) p (level_list ?lv s)"
    using m queues_okD(2,3) [OF ok(1)] by (auto simp: only_in_def live_def)
  then obtain q where q: "qreap (\<lambda>k. state (procs ?s1 k) = UNUSED) (queue_of ?lv s) = Inr q"
    "qrep q (remove1 p (level_list ?lv s))"
    using qrep_reap [OF queues_okD(1) [OF ok(1)]] by blast
  let ?s = "set_queue ?lv q ?s1"
  have r: "reap p s = Inr (pid (procs s p), ?s)"
    using q(1) by (simp add: reap_def)
  have "queues_ok ?s"
    by (rule leave_queue [OF ok(1) m, of ?s q]) (use q(2) in \<open>auto simp: queue_of_set_queue\<close>)
  moreover have "pids_ok ?s"
    using ok(2) unfolding pids_ok_def live_def by auto
  moreover have "cpus_ok ?s"
    by (rule cpus_ok_cong [OF ok(3)]) (use z in auto)
  moreover have "mem_ok ?s"
    by (rule mem_ok_upd1 [OF ok(4), of p]) simp_all
  ultimately have "mlfq_inv ?s" by (simp add: mlfq_inv_def)
  with r qrep_qlist [OF q(2)] show ?thesis by (auto simp: queue_of_set_queue)
qed

lemma wait_inv:
  assumes "mlfq_inv s" and "cpu_proc s c = Some cur"
  shows "\<exists>r s'. wait c s = Inr (r, s') \<and> mlfq_inv s'"
proof (cases "find_proc (\<lambda>r. parent r = Some cur \<and> state r = ZOMBIE) s")
  case None
  obtain s' where "sleep c (ProcChan cur) s = Inr s'" "mlfq_inv s'"
    using sleep_inv [OF assms, of "ProcChan cur"] by blast
  with None assms show ?thesis by (auto simp: wait_def myproc_def Let_def)
next
  case (Some p)
  from find_proc_SomeD(1,2) [OF Some] reap_spec [OF assms(1)]
  obtain s' where "reap p s = Inr (pid (procs s p), s')" "mlfq_inv s'" by blast
  with Some assms(2) show ?thesis by (simp add: wait_def myproc_def)
qed

end
