(* ===== verification/MlfqSched.thy ===== *)
theory MlfqSched
  imports MlfqOps
begin

text \<open>
  The scheduling decisions of \<open>Project2\<close>: which process \<open>scheduler\<close> dispatches, what \<open>yield\<close> does
  with a process whose time slice is used up, priority boosting and the monopoly queue. The lemmas
  describe each operation as a change of the lists of the levels.
\<close>

section \<open>Dispatching\<close>

lemma scan_find:
  assumes "qrep q xs"
  shows "case List.find c xs of
      None \<Rightarrow> qscan c q 0 = Inr (rear q)
    | Some p \<Rightarrow> \<exists>i. qscan c q 0 = Inr i \<and> i < rear q \<and> qget q i = Inr (Some p)"
proof (cases "List.find c xs")
  case None
  then have "takeWhile (\<lambda>p. \<not> c p) xs = xs"
    by (auto simp: find_None_iff takeWhile_eq_all_conv)
  with None qrep_scan [OF assms, of c] qrep_rear [OF assms] show ?thesis by simp
next
  case (Some p)
  then obtain i where i: "i < length xs" "c (xs ! i)" "xs ! i = p" "\<And>j. j < i \<Longrightarrow> \<not> c (xs ! j)"
    by (auto simp: find_Some_iff)
  have "takeWhile (\<lambda>p. \<not> c p) xs = take i xs"
    using i by (intro takeWhile_eq_take_P_nth) auto
  with i have "qscan c q 0 = Inr (int i)"
    using qrep_scan [OF assms, of c] by simp
  moreover have "int i < rear q" using i(1) qrep_rear [OF assms] by simp
  moreover have "qget q (int i) = Inr (Some p)" using qrep_get [OF assms i(1)] i(3) by simp
  ultimately show ?thesis using Some by auto
qed

abbreviation runnable_in :: "queuelevel \<Rightarrow> ptable \<Rightarrow> nat option" where
  "runnable_in lv s \<equiv> List.find (\<lambda>p. state (procs s p) = RUNNABLE) (level_list lv s)"

definition dispatched :: "nat \<Rightarrow> nat \<Rightarrow> ptable \<Rightarrow> ptable" where
  "dispatched cpu p s = upd_proc p (\<lambda>r. r\<lparr>state := RUNNING\<rparr>) (s\<lparr>cpu_proc := (cpu_proc s)(cpu := Some p)\<rparr>)"

lemma checkQueue_spec:
  assumes "queues_ok s"
  shows "checkQueue (queue_of lv s) s = Inr (runnable_in lv s \<noteq> None)"
  using scan_find [OF queues_okD(1) [OF assms], of "\<lambda>p. state (procs s p) = RUNNABLE" lv]
  by (auto simp: checkQueue_def split: option.splits)

lemma runnable_memory:
  assumes "mlfq_inv s" and "runnable_in lv s = Some p"
  shows "p < 64" "state (procs s p) = RUNNABLE" "qlevel (procs s p) = lv"
    "switchuvm_ok (procs s p) = Inr ()"
proof -
  have p: "p \<in> set (level_list lv s)" "state (procs s p) = RUNNABLE"
    using assms(2) by (auto simp: find_Some_iff)
  have "live s p \<and> qlevel (procs s p) = lv"
    using assms(1) p(1) queues_okD(3) [of s p lv] by (auto simp: mlfq_inv_def)
  then show "p < 64" "qlevel (procs s p) = lv" by (auto simp: live_def)
  show "state (procs s p) = RUNNABLE" by (rule p(2))
  show "switchuvm_ok (procs s p) = Inr ()"
    using assms(1) p(2) \<open>p < 64\<close> by (auto simp: switchuvm_ok_def mlfq_inv_def mem_ok_def)
qed

lemma levelSchedule_spec:
  assumes "mlfq_inv s" and "cpu_proc s cpu = None"
  shows "levelSchedule cpu (queue_of lv s) s =
    (case runnable_in lv s of None \<Rightarrow> Inr (None, s) | Some p \<Rightarrow> Inr (Some p, dispatched cpu p s))"
proof -
  have q: "qrep (queue_of lv s) (level_list lv s)"
    using assms(1) queues_okD(1) by (auto simp: mlfq_inv_def)
  have s: "s\<lparr>cpu_proc := (cpu_proc s)(cpu := None)\<rparr> = s"
    using assms(2) by (simp add: fun_upd_idem)
  from scan_find [OF q, of "\<lambda>p. state (procs s p) = RUNNABLE"] show ?thesis
    using runnable_memory(4) [OF assms(1), of lv]
    by (auto simp: levelSchedule_def s dispatched_def Let_def split: option.splits)
qed

text \<open>The levels in the order in which \<open>scheduler\<close> looks at them.\<close>

definition mlfq_pick :: "ptable \<Rightarrow> nat option" where
  "mlfq_pick s =
     (case runnable_in L0 s of Some p \<Rightarrow> Some p | None \<Rightarrow>
     (case runnable_in L1 s of Some p \<Rightarrow> Some p | None \<Rightarrow>
     (case runnable_in L2 s of Some p \<Rightarrow> Some p | None \<Rightarrow> runnable_in L3 s)))"

lemma scheduler_mlfq:
  assumes "mlfq_inv s" and "cpu_proc s cpu = None" and "mode s \<noteq> 1"
  shows "scheduler cpu s =
    (case mlfq_pick s of None \<Rightarrow> Inr (None, s) | Some p \<Rightarrow> Inr (Some p, dispatched cpu p s))"
proof -
  have q: "queues_ok s" using assms(1) by (simp add: mlfq_inv_def)
  note c = checkQueue_spec [OF q, of L0, simplified] checkQueue_spec [OF q, of L1, simplified]
    checkQueue_spec [OF q, of L2, simplified] checkQueue_spec [OF q, of L3, simplified]
  note l = levelSchedule_spec [OF assms(1,2), of L0, simplified]
    levelSchedule_spec [OF assms(1,2), of L1, simplified]
    levelSchedule_spec [OF assms(1,2), of L2, simplified]
    levelSchedule_spec [OF assms(1,2), of L3, simplified]
  show ?thesis
    using assms(3) by (simp add: scheduler_def c l mlfq_pick_def split: option.splits)
qed

lemma dispatched_inv:
  assumes "mlfq_inv s" and "cpu_proc s cpu = None" and "runnable_in lv s = Some p"
  shows "mlfq_inv (dispatched cpu p s)"
proof -
  note r = runnable_memory [OF assms(1,3)]
  have ok: "queues_ok s" "pids_ok s" "cpus_ok s" "mem_ok s"
    using assms(1) by (auto simp: mlfq_inv_def)
  let ?s = "dispatched cpu p s"
  have pr: "procs ?s = (procs s)(p := (procs s p)\<lparr>state := RUNNING\<rparr>)"
    by (simp add: dispatched_def upd_proc_def)
  have "queues_ok ?s"
    using ok(1) queues_ok_cong [of ?s s] r(2) by (simp add: pr) (simp add: dispatched_def)
  moreover have "pids_ok ?s"
    using ok(2) pids_ok_cong [of ?s s] r(2) by (simp add: pr) (simp add: dispatched_def)
  moreover have "mem_ok ?s"
    by (rule mem_ok_upd1 [OF ok(4), of p]) (use r(1,2) ok(4) in \<open>auto simp: pr mem_ok_def\<close>)
  moreover have "cpus_ok ?s"
  proof -
    have n: "cpu_proc s c \<noteq> Some p" for c
      using cpus_ok_RUNNING(2) [OF ok(3)] r(2) by (metis procstate.distinct(25))
    have c: "cpu_proc ?s = (cpu_proc s)(cpu := Some p)" by (simp add: dispatched_def)
    have "(k < 64 \<and> state (procs ?s k) = RUNNING) = (\<exists>c. cpu_proc ?s c = Some k)" for k
    proof (cases "k = p")
      case True
      with r(1) show ?thesis by (auto simp: pr c)
    next
      case False
      have "(\<exists>c. cpu_proc ?s c = Some k) = (\<exists>c. cpu_proc s c = Some k)"
        using False assms(2) unfolding c by (metis fun_upd_apply option.inject option.distinct(1))
      with False ok(3) show ?thesis unfolding cpus_ok_def by (simp add: pr)
    qed
    moreover have "c1 = c2" if "cpu_proc ?s c1 = Some k" "cpu_proc ?s c2 = Some k" for c1 c2 k
      using that n ok(3) unfolding c cpus_ok_def by (metis fun_upd_apply option.inject)
    ultimately show ?thesis unfolding cpus_ok_def by blast
  qed
  ultimately show ?thesis by (simp add: mlfq_inv_def)
qed

lemma mlfq_pick_level:
  assumes "mlfq_pick s = Some p"
  shows "\<exists>lv. lv \<noteq> MOQ \<and> runnable_in lv s = Some p \<and>
    (\<forall>lv'. level_number lv' < level_number lv \<longrightarrow> runnable_in lv' s = None)"
proof -
  have x: "level_number lv' < n \<Longrightarrow> (n = 0 \<longrightarrow> False) \<and> (n = 1 \<longrightarrow> lv' = L0) \<and>
      (n = 2 \<longrightarrow> lv' = L0 \<or> lv' = L1) \<and> (n = 3 \<longrightarrow> lv' = L0 \<or> lv' = L1 \<or> lv' = L2)" for lv' n
    by (cases lv') auto
  consider "runnable_in L0 s = Some p"
    | "runnable_in L0 s = None" "runnable_in L1 s = Some p"
    | "runnable_in L0 s = None" "runnable_in L1 s = None" "runnable_in L2 s = Some p"
    | "runnable_in L0 s = None" "runnable_in L1 s = None" "runnable_in L2 s = None"
      "runnable_in L3 s = Some p"
    using assms by (auto simp: mlfq_pick_def split: option.splits)
  then show ?thesis
  proof cases
    case 1 then show ?thesis using x [of _ 0] by (intro exI [of _ L0]) fastforce
  next
    case 2 then show ?thesis using x [of _ 1] by (intro exI [of _ L1]) fastforce
  next
    case 3 then show ?thesis using x [of _ 2] by (intro exI [of _ L2]) fastforce
  next
    case 4 then show ?thesis using x [of _ 3] by (intro exI [of _ L3]) fastforce
  qed
qed

lemma runnable_in_None:
  assumes "queues_ok s" and "runnable_in lv s = None" and "p < 64" and "qlevel (procs s p) = lv"
  shows "state (procs s p) \<noteq> RUNNABLE"
  using assms queues_okD(3) [OF assms(1), of p lv] by (auto simp: find_None_iff live_def)

section \<open>The monopoly queue\<close>

lemma checkMoQ_loop_from:
  assumes "qrep (moq s) xs" and "n \<le> length xs"
  shows "checkMoQ_loop s (int n) b = Inr (b \<or> (\<exists>p\<in>set (drop n xs). state (procs s p) \<noteq> ZOMBIE))"
  using assms(2)
proof (induction "length xs - n" arbitrary: n b)
  case 0
  then show ?case using assms(1) by (simp add: checkMoQ_loop.simps [of s] qrep_rear)
next
  case (Suc m)
  then have n: "n < length xs" by simp
  let ?b = "b \<or> state (procs s (xs ! n)) \<noteq> ZOMBIE"
  have IH: "checkMoQ_loop s (int (Suc n)) ?b =
      Inr (?b \<or> (\<exists>p\<in>set (drop (Suc n) xs). state (procs s p) \<noteq> ZOMBIE))"
    using Suc.hyps(2) n by (intro Suc.hyps(1)) auto
  have "drop n xs = xs ! n # drop (Suc n) xs" using n by (simp add: Cons_nth_drop_Suc)
  with IH n assms(1) show ?case
    by (simp add: checkMoQ_loop.simps [of s "int n"] qrep_rear qrep_get algebra_simps)
qed

lemma checkMoQ_spec:
  assumes "queues_ok s"
  shows "checkMoQ s = Inr (if length (level_list MOQ s) \<noteq> 1 \<and>
      (\<exists>p\<in>set (level_list MOQ s). state (procs s p) \<noteq> ZOMBIE) then s else unmonopolize s)"
proof -
  have q: "qrep (moq s) (level_list MOQ s)"
    using queues_okD(1) [OF assms, of MOQ] by simp
  show ?thesis
    using checkMoQ_loop_from [OF q, of 0 False] qrep_rear [OF q] by (simp add: checkMoQ_def)
qed

lemma unmonopolize_frame [simp]:
  "procs (unmonopolize s) = procs s" "queue_of lv (unmonopolize s) = queue_of lv s"
  "cpu_proc (unmonopolize s) = cpu_proc s" "mode (unmonopolize s) = 0" "ticks (unmonopolize s) = 0"
  by (cases lv; simp add: unmonopolize_def)+

lemma scheduler_moq:
  assumes "mlfq_inv s" and "cpu_proc s cpu = None" and "mode s = 1"
  shows "\<exists>s1. checkMoQ s = Inr s1 \<and> mlfq_inv s1 \<and> scheduler cpu s =
    (case runnable_in MOQ s of None \<Rightarrow> Inr (None, s1) | Some p \<Rightarrow> Inr (Some p, dispatched cpu p s1))"
proof -
  have q: "queues_ok s" using assms(1) by (simp add: mlfq_inv_def)
  obtain s1 where s1: "checkMoQ s = Inr s1" "s1 = s \<or> s1 = unmonopolize s"
    using checkMoQ_spec [OF q] by auto
  have i: "mlfq_inv s1"
    using s1(2) assms(1) harmless_inv harmless_unmonopolize by blast
  have e: "level_list MOQ s1 = level_list MOQ s" "procs s1 = procs s" "cpu_proc s1 = cpu_proc s"
    using s1(2) by (auto simp del: queue_of.simps)
  have "scheduler cpu s = levelSchedule cpu (queue_of MOQ s1) s1"
    using s1(1) assms(3) by (simp add: scheduler_def)
  also have "\<dots> = (case runnable_in MOQ s of None \<Rightarrow> Inr (None, s1) | Some p \<Rightarrow> Inr (Some p, dispatched cpu p s1))"
    using levelSchedule_spec [OF i, of cpu MOQ] assms(2) e by (simp del: queue_of.simps)
  finally show ?thesis using s1(1) i by blast
qed

lemma scheduler_inv:
  assumes "mlfq_inv s" and "cpu_proc s cpu = None"
  shows "\<exists>r s'. scheduler cpu s = Inr (r, s') \<and> mlfq_inv s'"
proof (cases "mode s = 1")
  case True
  obtain s1 where s1: "mlfq_inv s1" "checkMoQ s = Inr s1" "scheduler cpu s =
    (case runnable_in MOQ s of None \<Rightarrow> Inr (None, s1) | Some p \<Rightarrow> Inr (Some p, dispatched cpu p s1))"
    using scheduler_moq [OF assms True] by blast
  have "queues_ok s" using assms(1) by (simp add: mlfq_inv_def)
  from checkMoQ_spec [OF this] s1(2) have "s1 = s \<or> s1 = unmonopolize s" by auto
  then have "runnable_in MOQ s1 = runnable_in MOQ s" "cpu_proc s1 cpu = None"
    using assms(2) by (auto simp del: queue_of.simps)
  with s1 dispatched_inv [OF s1(1), of cpu MOQ] show ?thesis
    by (cases "runnable_in MOQ s") (auto simp del: queue_of.simps)
next
  case False
  show ?thesis
  proof (cases "mlfq_pick s")
    case None
    with assms scheduler_mlfq [OF assms False] show ?thesis by simp
  next
    case (Some p)
    from mlfq_pick_level [OF Some] obtain lv where "runnable_in lv s = Some p" by blast
    with Some assms scheduler_mlfq [OF assms False] dispatched_inv [OF assms] show ?thesis by simp
  qed
qed

end
