(* ===== verification/MlfqYield.thy ===== *)
theory MlfqYield
  imports MlfqSched
begin

text \<open>
  Movements between the queues of \<open>Project2\<close>: \<open>yield\<close> on an exhausted time slice, \<open>boost\<close>, and
  \<open>setmonopoly\<close>. Each is described as a change of the level lists and keeps the invariant.
\<close>

text \<open>From here on the queues are named by their level only.\<close>

declare queue_of.simps [simp del] set_queue.simps [simp del]

lemmas queue_fold [simp] = queue_of.simps [symmetric] set_queue.simps [symmetric]

declare queue_of_set_queue [simp]

section \<open>Demotion\<close>

text \<open>The level and the time slice that a process gets when its time slice is used up.\<close>

definition next_level :: "int \<Rightarrow> queuelevel \<Rightarrow> queuelevel" where
  "next_level pd lv = (if lv = L0 then if pd mod 2 = 0 then L2 else L1 else L3)"

definition slice_of :: "queuelevel \<Rightarrow> u32" where
  "slice_of lv = (case lv of L0 \<Rightarrow> 2 | L1 \<Rightarrow> 4 | L2 \<Rightarrow> 6 | L3 \<Rightarrow> 8 | MOQ \<Rightarrow> 0)"

text \<open>A process of priority \<open>k\<close> goes in front of the first process of a lower priority.\<close>

definition prio_insert :: "(nat \<Rightarrow> int) \<Rightarrow> nat \<Rightarrow> nat list \<Rightarrow> nat list" where
  "prio_insert pri p xs =
     takeWhile (\<lambda>k. \<not> pri k < pri p) xs @ p # dropWhile (\<lambda>k. \<not> pri k < pri p) xs"

lemma set_prio_insert [simp]: "set (prio_insert pri p xs) = insert p (set xs)"
proof -
  have "set (takeWhile (\<lambda>k. \<not> pri k < pri p) xs) \<union> set (dropWhile (\<lambda>k. \<not> pri k < pri p) xs) = set xs"
    by (metis set_append takeWhile_dropWhile_id)
  then show ?thesis by (auto simp: prio_insert_def)
qed

lemma distinct_prio_insert:
  assumes "distinct xs" and "p \<notin> set xs"
  shows "distinct (prio_insert pri p xs)"
proof -
  have "distinct (takeWhile (\<lambda>k. \<not> pri k < pri p) xs @ dropWhile (\<lambda>k. \<not> pri k < pri p) xs)"
    using assms(1) by simp
  note this [unfolded distinct_append]
  moreover have "p \<notin> set (takeWhile (\<lambda>k. \<not> pri k < pri p) xs)" "p \<notin> set (dropWhile (\<lambda>k. \<not> pri k < pri p) xs)"
    using assms(2) by (auto dest: set_takeWhileD set_dropWhileD)
  ultimately show ?thesis unfolding prio_insert_def by auto
qed

text \<open>Descending priorities stay descending.\<close>

lemma sorted_prio_insert:
  assumes "sorted_wrt (\<lambda>x y. pri y \<le> pri x) xs"
  shows "sorted_wrt (\<lambda>x y. pri y \<le> pri x) (prio_insert pri p xs)"
  using assms
proof (induction xs)
  case Nil
  then show ?case by (simp add: prio_insert_def)
next
  case (Cons x xs)
  show ?case
  proof (cases "pri x < pri p")
    case True
    with Cons.prems show ?thesis by (auto simp: prio_insert_def)
  next
    case False
    have "prio_insert pri p (x # xs) = x # prio_insert pri p xs"
      using False by (simp add: prio_insert_def)
    with False Cons show ?thesis by simp
  qed
qed

text \<open>The process \<open>p\<close> moves from the queue of level \<open>a\<close> to that of level \<open>b\<close>.\<close>

lemma move_queue:
  assumes ok: "queues_ok s" and p: "p \<in> set (level_list a s)"
    and b: "qrep (queue_of b s') ys" "distinct ys" "set ys = insert p (set (level_list b s))"
    and a: "a \<noteq> b \<Longrightarrow> qrep (queue_of a s') (remove1 p (level_list a s))"
    and o: "\<And>l. l \<noteq> a \<Longrightarrow> l \<noteq> b \<Longrightarrow> queue_of l s' = queue_of l s"
    and k: "\<And>k. k \<noteq> p \<Longrightarrow> state (procs s' k) = state (procs s k) \<and> qlevel (procs s' k) = qlevel (procs s k)"
    and s': "state (procs s' p) \<noteq> UNUSED" "qlevel (procs s' p) = b"
  shows "queues_ok s'"
proof (rule queues_okI [of s' "\<lambda>l. if l = b then ys else if l = a then remove1 p (level_list a s) else level_list l s"])
  fix l :: queuelevel and j
  have lp: "live s p" "qlevel (procs s p) = a"
    using p queues_okD(3) [OF ok, of p a] by auto
  show "qrep (queue_of l s') (if l = b then ys else if l = a then remove1 p (level_list a s) else level_list l s)"
    using a b(1) o queues_okD(1) [OF ok] by auto
  show "distinct (if l = b then ys else if l = a then remove1 p (level_list a s) else level_list l s)"
    using b(2) queues_okD(2) [OF ok] by (simp add: distinct_remove1)
  have "live s' j \<longleftrightarrow> live s j"
    using k s'(1) lp(1) by (cases "j = p") (auto simp: live_def)
  moreover have "set (remove1 p (level_list a s)) = set (level_list a s) - {p}"
    using queues_okD(2) [OF ok] by simp
  ultimately show "j \<in> set (if l = b then ys else if l = a then remove1 p (level_list a s) else level_list l s) \<longleftrightarrow>
      live s' j \<and> qlevel (procs s' j) = l"
    using b(3) k [of j] s'(2) lp queues_okD(3) [OF ok, of j] by (cases "j = p") auto
qed

lemma removePCB_spec:
  assumes "queues_ok s" and "pids_ok s" and "p \<in> set (level_list lv s)"
    and "\<And>l. queue_of l s0 = queue_of l s" and "\<And>k. pid (procs s0 k) = pid (procs s k)"
    and "length (level_list lv s) < 64"
  shows "\<exists>q. removePCB lv p s0 = Inr (set_queue lv q s0) \<and> qrep q (remove1 p (level_list lv s))"
  using pq.rep_remove [OF queues_okD(1) [OF assms(1)] only_in_pid [OF assms(1-3,5)] assms(6)] assms(4)
  by (auto simp: removePCB_def)

lemma yield_slice:
  assumes "cpu_proc s c = Some p" and "qlevel (procs s p) \<noteq> MOQ" and "timeslice (procs s p) \<noteq> 0"
  shows "yield c s = Inr (upd_proc p (\<lambda>r. r\<lparr>timeslice := timeslice r - 1\<rparr>) s)"
  using assms by (simp add: yield_def myproc_def)

text \<open>The end of \<open>yield\<close>: a process that has changed its queue leaves the CPU.\<close>

lemma leave_moved:
  assumes inv: "mlfq_inv s" and cp: "cpu_proc s c = Some p"
    and "queues_ok s5" and "cpu_proc s5 = cpu_proc s" and "nextpid s5 = nextpid s"
    and k: "\<And>k. k \<noteq> p \<Longrightarrow> procs s5 k = procs s k"
    and p: "state (procs s5 p) = RUNNING" "pid (procs s5 p) = pid (procs s p)"
      "kstack (procs s5 p) = kstack (procs s p)" "pgdir (procs s5 p) = pgdir (procs s p)"
  shows "\<exists>s'. sched c (upd_proc p (\<lambda>r. r\<lparr>state := RUNNABLE\<rparr>) s5) = Inr s' \<and> mlfq_inv s' \<and>
    procs s' = procs (upd_proc p (\<lambda>r. r\<lparr>state := RUNNABLE\<rparr>) s5) \<and> cpu_proc s' c = None \<and>
    (\<forall>lv. queue_of lv s' = queue_of lv s5)"
proof -
  have ok: "queues_ok s" "pids_ok s" "cpus_ok s" "mem_ok s"
    using inv by (auto simp: mlfq_inv_def)
  note run = cpus_ok_RUNNING [OF ok(3) cp]
  have e: "state (procs s5 k) = state (procs s k)" "pid (procs s5 k) = pid (procs s k)" for k
    using k p run by (cases "k = p"; simp)+
  have "pids_ok s5" using ok(2) pids_ok_cong [of s5 s] assms(5) e by simp
  moreover have "cpus_ok s5" by (rule cpus_ok_cong [OF ok(3) assms(4)]) (simp add: e)
  moreover have "mem_ok s5"
    by (rule mem_ok_upd1 [OF ok(4) k]) (use p run ok(4) in \<open>auto simp: mem_ok_def\<close>)
  ultimately have "mlfq_inv s5" using assms(3) by (simp add: mlfq_inv_def)
  with leave_in_place [of s5 c p "\<lambda>r. r\<lparr>state := RUNNABLE\<rparr>"] cp assms(4) show ?thesis by auto
qed

text \<open>From the top queue a process moves to the end of L1 or of L2, by the parity of its pid.\<close>

lemma yield_from_L0:
  assumes inv: "mlfq_inv s" and cp: "cpu_proc s c = Some p"
    and lv: "qlevel (procs s p) = L0" and ts: "timeslice (procs s p) = 0"
    and room: "length (level_list L0 s) < 64" and b: "b = next_level (pid (procs s p)) L0"
  shows "\<exists>s'. yield c s = Inr s' \<and> mlfq_inv s' \<and> cpu_proc s' c = None \<and>
    level_list L0 s' = remove1 p (level_list L0 s) \<and> level_list b s' = level_list b s @ [p] \<and>
    (\<forall>l. l \<noteq> L0 \<longrightarrow> l \<noteq> b \<longrightarrow> queue_of l s' = queue_of l s) \<and>
    procs s' = (procs s)(p := (procs s p)\<lparr>qlevel := b, timeslice := slice_of b, state := RUNNABLE\<rparr>)"
proof -
  have ok: "queues_ok s" "pids_ok s" "cpus_ok s" using inv by (auto simp: mlfq_inv_def)
  note run = cpus_ok_RUNNING [OF ok(3) cp]
  have m: "p \<in> set (level_list L0 s)"
    using queues_okD(3) [OF ok(1), of p L0] run lv by (simp add: live_def)
  let ?s0 = "upd_proc p (\<lambda>r. r\<lparr>qlevel := b, timeslice := slice_of b\<rparr>) s"
  have pid_s0: "pid (procs ?s0 k) = pid (procs s k)" for k by simp
  obtain q where q: "removePCB L0 p ?s0 = Inr (set_queue L0 q ?s0)"
    "qrep q (remove1 p (level_list L0 s))"
    using removePCB_spec [OF ok(1,2) m upd_proc_frame(1) pid_s0 room] by blast
  have b': "b = L1 \<or> b = L2" using b by (auto simp: next_level_def)
  have n: "p \<notin> set (level_list b s)"
    using queues_okD(3) [OF ok(1), of p b] lv b' by auto
  obtain q2 where q2: "qpush (queue_of b s) p = Inr q2" "qrep q2 (level_list b s @ [p])"
    using pq.rep_push [OF queues_okD(1) [OF ok(1)] level_list_room [OF ok(1) run(1) n]] by blast
  let ?s5 = "set_queue b q2 (set_queue L0 q ?s0)"
  have y: "yield c s = sched c (upd_proc p (\<lambda>r. r\<lparr>state := RUNNABLE\<rparr>) ?s5)"
    using cp lv ts b q(1) q2(1) b'
    by (auto simp: yield_def myproc_def next_level_def slice_of_def Let_def split: if_splits)
  have ne: "L0 \<noteq> b" using b' by auto
  have l: "queue_of l ?s5 = (if l = b then q2 else if l = L0 then q else queue_of l s)" for l
    by (auto simp: queue_of_set_queue)
  have "queues_ok ?s5"
    by (rule move_queue [OF ok(1) m, of b ?s5 "level_list b s @ [p]"])
      (use q(2) q2(2) n ne run queues_okD(2) [OF ok(1), of b] l in auto)
  from leave_moved [OF inv cp this] run obtain s' where
    s': "sched c (upd_proc p (\<lambda>r. r\<lparr>state := RUNNABLE\<rparr>) ?s5) = Inr s'" "mlfq_inv s'"
    "procs s' = procs (upd_proc p (\<lambda>r. r\<lparr>state := RUNNABLE\<rparr>) ?s5)" "cpu_proc s' c = None"
    "\<And>lv. queue_of lv s' = queue_of lv ?s5" by auto
  with y l ne qrep_qlist [OF q(2)] qrep_qlist [OF q2(2)] show ?thesis
    by (auto simp: fun_eq_iff)
qed


text \<open>
  From L1 and L2 a process moves into the priority queue L3; in L3 it loses one unit of priority
  and is inserted again.
\<close>

lemma yield_to_L3:
  assumes inv: "mlfq_inv s" and cp: "cpu_proc s c = Some p"
    and lv: "lv = L1 \<or> lv = L2" "qlevel (procs s p) = lv" and ts: "timeslice (procs s p) = 0"
    and room: "length (level_list lv s) < 64"
  shows "\<exists>s'. yield c s = Inr s' \<and> mlfq_inv s' \<and> cpu_proc s' c = None \<and>
    level_list lv s' = remove1 p (level_list lv s) \<and>
    level_list L3 s' = prio_insert (\<lambda>k. priority (procs s k)) p (level_list L3 s) \<and>
    (\<forall>l. l \<noteq> lv \<longrightarrow> l \<noteq> L3 \<longrightarrow> queue_of l s' = queue_of l s) \<and>
    procs s' = (procs s)(p := (procs s p)\<lparr>qlevel := L3, timeslice := slice_of L3, state := RUNNABLE\<rparr>)"
proof -
  have ok: "queues_ok s" "pids_ok s" "cpus_ok s" using inv by (auto simp: mlfq_inv_def)
  note run = cpus_ok_RUNNING [OF ok(3) cp]
  have m: "p \<in> set (level_list lv s)"
    using queues_okD(3) [OF ok(1), of p lv] run lv by (simp add: live_def)
  let ?s0 = "upd_proc p (\<lambda>r. r\<lparr>timeslice := 8\<rparr>) s"
  have pid_s0: "pid (procs ?s0 k) = pid (procs s k)" for k by simp
  obtain q where q: "removePCB lv p ?s0 = Inr (set_queue lv q ?s0)"
    "qrep q (remove1 p (level_list lv s))"
    using removePCB_spec [OF ok(1,2) m upd_proc_frame(1) pid_s0 room] by blast
  have n: "p \<notin> set (level_list L3 s)"
    using queues_okD(3) [OF ok(1), of p L3] lv by auto
  let ?s4 = "upd_proc p (\<lambda>r. r\<lparr>qlevel := L3\<rparr>) (set_queue lv q ?s0)"
  have pri: "priority (procs ?s4 k) = priority (procs s k)" for k by simp
  have q3: "QL3 ?s4 = queue_of L3 s" using lv by auto
  obtain q2 where q2: "qinsert (\<lambda>k. priority (procs ?s4 k) < priority (procs ?s4 p)) (QL3 ?s4) p = Inr q2"
    "qrep q2 (prio_insert (\<lambda>k. priority (procs s k)) p (level_list L3 s))"
    using pq.rep_insert [OF queues_okD(1) [OF ok(1)] level_list_room [OF ok(1) run(1) n]]
    unfolding pri q3 prio_insert_def by blast
  let ?s5 = "?s4\<lparr>QL3 := q2\<rparr>"
  have y: "yield c s = sched c (upd_proc p (\<lambda>r. r\<lparr>state := RUNNABLE\<rparr>) ?s5)"
    using cp lv ts q(1) q2(1)
    by (auto simp: yield_def myproc_def Let_def simp del: upd_proc_procs)
  have l: "queue_of l ?s5 = (if l = L3 then q2 else if l = lv then q else queue_of l s)" for l
    using lv by (cases l) (auto simp: queue_of_set_queue)
  have pr: "procs ?s5 k = (if k = p then (procs s p)\<lparr>timeslice := 8, qlevel := L3\<rparr> else procs s k)" for k
    by simp
  have "queues_ok ?s5"
    by (rule move_queue [OF ok(1) m, of L3 ?s5])
      (use q(2) q2(2) n lv run distinct_prio_insert [OF queues_okD(2) [OF ok(1)] n] l in auto)
  from leave_moved [OF inv cp this] run obtain s' where
    s': "sched c (upd_proc p (\<lambda>r. r\<lparr>state := RUNNABLE\<rparr>) ?s5) = Inr s'" "mlfq_inv s'"
    "procs s' = procs (upd_proc p (\<lambda>r. r\<lparr>state := RUNNABLE\<rparr>) ?s5)" "cpu_proc s' c = None"
    "\<And>lv. queue_of lv s' = queue_of lv ?s5" by auto
  with y l lv qrep_qlist [OF q(2)] qrep_qlist [OF q2(2)] show ?thesis
    by (auto simp: fun_eq_iff slice_of_def)
qed

lemma yield_in_L3:
  assumes inv: "mlfq_inv s" and cp: "cpu_proc s c = Some p"
    and lv: "qlevel (procs s p) = L3" and ts: "timeslice (procs s p) = 0"
    and room: "length (level_list L3 s) < 64"
    and k': "k' = (if priority (procs s p) > 0 then priority (procs s p) - 1 else priority (procs s p))"
  shows "\<exists>s'. yield c s = Inr s' \<and> mlfq_inv s' \<and> cpu_proc s' c = None \<and>
    level_list L3 s' =
      prio_insert ((\<lambda>k. priority (procs s k))(p := k')) p (remove1 p (level_list L3 s)) \<and>
    (\<forall>l. l \<noteq> L3 \<longrightarrow> queue_of l s' = queue_of l s) \<and>
    procs s' = (procs s)(p := (procs s p)\<lparr>priority := k', timeslice := slice_of L3, state := RUNNABLE\<rparr>)"
proof -
  have ok: "queues_ok s" "pids_ok s" "cpus_ok s" using inv by (auto simp: mlfq_inv_def)
  note run = cpus_ok_RUNNING [OF ok(3) cp]
  have m: "p \<in> set (level_list L3 s)"
    using queues_okD(3) [OF ok(1), of p L3] run lv by (simp add: live_def)
  let ?s0 = "upd_proc p (\<lambda>r. if priority r > 0 then r\<lparr>priority := priority r - 1\<rparr> else r)
    (upd_proc p (\<lambda>r. r\<lparr>timeslice := 8\<rparr>) s)"
  have pr0: "procs ?s0 k = (if k = p then (procs s p)\<lparr>timeslice := 8, priority := k'\<rparr> else procs s k)" for k
    using k' by simp
  have pid_s0: "pid (procs ?s0 k) = pid (procs s k)" for k by (simp add: pr0)
  have queue_s0: "queue_of l ?s0 = queue_of l s" for l by simp
  obtain q where q: "removePCB L3 p ?s0 = Inr (set_queue L3 q ?s0)"
    "qrep q (remove1 p (level_list L3 s))"
    using removePCB_spec [OF ok(1,2) m queue_s0 pid_s0 room] by blast
  let ?s4 = "upd_proc p (\<lambda>r. r\<lparr>qlevel := L3\<rparr>) (set_queue L3 q ?s0)"
  have pr4: "procs ?s4 k = (if k = p then (procs s p)\<lparr>timeslice := 8, priority := k', qlevel := L3\<rparr> else procs s k)" for k
    using k' by (simp add: upd_proc_def)
  have pri: "priority (procs ?s4 k) = ((\<lambda>k. priority (procs s k))(p := k')) k" for k
    by (simp add: pr4 del: upd_proc_procs)
  have q3: "QL3 ?s4 = q" by simp
  have r1: "length (remove1 p (level_list L3 s)) < 64"
    using room m by (simp add: length_remove1)
  obtain q2 where q2: "qinsert (\<lambda>k. priority (procs ?s4 k) < priority (procs ?s4 p)) (QL3 ?s4) p = Inr q2"
    "qrep q2 (prio_insert ((\<lambda>k. priority (procs s k))(p := k')) p (remove1 p (level_list L3 s)))"
    using pq.rep_insert [OF q(2) r1] unfolding pri q3 prio_insert_def by blast
  define s5 where "s5 = ?s4\<lparr>QL3 := q2\<rparr>"
  have y: "yield c s = sched c (upd_proc p (\<lambda>r. r\<lparr>state := RUNNABLE\<rparr>) s5)"
    using cp lv ts q(1) q2(1)
    by (simp add: yield_def myproc_def Let_def s5_def del: upd_proc_procs)
  have l: "queue_of l s5 = (if l = L3 then q2 else queue_of l s)" for l
    by (simp add: s5_def)
  have pr: "procs s5 k = (if k = p then (procs s p)\<lparr>timeslice := 8, priority := k', qlevel := L3\<rparr> else procs s k)" for k
    using pr4 [of k] by (simp add: s5_def del: upd_proc_procs)
  have fr: "cpu_proc s5 = cpu_proc s" "nextpid s5 = nextpid s" by (simp_all add: s5_def)
  let ?ys = "prio_insert ((\<lambda>k. priority (procs s k))(p := k')) p (remove1 p (level_list L3 s))"
  have d: "distinct (level_list L3 s)" by (rule queues_okD(2) [OF ok(1)])
  have "distinct ?ys" using d by (intro distinct_prio_insert) (auto simp: distinct_remove1)
  moreover have "set ?ys = insert p (set (level_list L3 s))" using d by auto
  moreover have "qrep (queue_of L3 s5) ?ys" using q2(2) l [of L3] by (simp only: if_True simp_thms)
  ultimately have "queues_ok s5"
    using l pr run(2) by (intro move_queue [OF ok(1) m, of L3 s5 ?ys]) simp_all
  from leave_moved [OF inv cp this fr] pr run(2) obtain s' where
    s': "sched c (upd_proc p (\<lambda>r. r\<lparr>state := RUNNABLE\<rparr>) s5) = Inr s'" "mlfq_inv s'"
    "procs s' = procs (upd_proc p (\<lambda>r. r\<lparr>state := RUNNABLE\<rparr>) s5)" "cpu_proc s' c = None"
    "\<And>lv. queue_of lv s' = queue_of lv s5" by auto
  have ps: "procs s' = (procs s)(p := (procs s p)\<lparr>priority := k', timeslice := slice_of L3, state := RUNNABLE\<rparr>)"
    using s'(3) pr lv by (simp add: fun_eq_iff slice_of_def)
  have "level_list L3 s' = ?ys"
    using s'(5) [of L3] l [of L3] qrep_qlist [OF q2(2)] by (simp only: if_True simp_thms)
  moreover have "queue_of j s' = queue_of j s" if "j \<noteq> L3" for j
    using s'(5) [of j] l [of j] that by (simp only: if_False)
  ultimately show ?thesis using y s' ps by (intro exI [of _ s']) simp
qed

end
