(* ===== verification/MlfqTop.thy ===== *)
theory MlfqTop
  imports MlfqYield
begin

text \<open>
  Priority boosting, the monopoly queue and the timer of \<open>Project2\<close>, the transition system of
  the scheduler with its invariant, and the properties of the scheduler.
\<close>

section \<open>Boosting\<close>

abbreviation boosted :: "proc \<Rightarrow> proc" where
  "boosted r \<equiv> r\<lparr>timeslice := 2, qlevel := L0\<rparr>"

lemma boost_loop_from:
  assumes "qrep q xs" and "n \<le> length xs" and "qrep (QL0 s) l0"
    and "length l0 + (length xs - n) \<le> 64"
  shows "\<exists>q'. boost_loop q (int n) s = Inr (s\<lparr>QL0 := q',
      procs := (\<lambda>k. if k \<in> set (drop n xs) then boosted (procs s k) else procs s k)\<rparr>) \<and>
    qrep q' (l0 @ drop n xs)"
  using assms(2-4)
proof (induction "length xs - n" arbitrary: n s l0)
  case 0
  then have "n = length xs" by simp
  with 0 assms(1) show ?case
    by (intro exI [of _ "QL0 s"]) (simp add: boost_loop.simps [of q] qrep_rear del: queue_fold)
next
  case (Suc m)
  then have n: "n < length xs" by simp
  have d: "drop n xs = xs ! n # drop (Suc n) xs" using n by (simp add: Cons_nth_drop_Suc)
  have l0: "length l0 < 64" using Suc.prems(3) n by simp
  let ?q0 = "(QL0 s)\<lparr>slots := (slots (QL0 s))(rear (QL0 s) := Some (xs ! n)), rear := rear (QL0 s) + 1\<rparr>"
  let ?s1 = "upd_proc (xs ! n) (\<lambda>r. boosted r) (s\<lparr>QL0 := ?q0\<rparr>)"
  have push: "qrep ?q0 (l0 @ [xs ! n])"
    using qrep_push [OF Suc.prems(2) l0, of "xs ! n"] l0 qrep_rear [OF Suc.prems(2)]
    by (auto simp: qpush_def qset_def)
  then have "qrep (QL0 ?s1) (l0 @ [xs ! n])" by (simp del: queue_fold)
  then have c: "qrep (QL0 ?s1) (l0 @ [xs ! n])" .
  have a: "m = length xs - Suc n" using Suc.hyps(2) by simp
  have b: "Suc n \<le> length xs" using n by simp
  have e: "length (l0 @ [xs ! n]) + (length xs - Suc n) \<le> 64" using Suc.prems(3) n by simp
  from Suc.hyps(1) [OF a b c e] obtain q' where
    q': "boost_loop q (int (Suc n)) ?s1 = Inr (?s1\<lparr>QL0 := q',
      procs := (\<lambda>k. if k \<in> set (drop (Suc n) xs) then boosted (procs ?s1 k) else procs ?s1 k)\<rparr>)"
    "qrep q' ((l0 @ [xs ! n]) @ drop (Suc n) xs)"
    by blast
  have "(\<lambda>k. if k \<in> set (drop (Suc n) xs) then boosted (procs ?s1 k) else procs ?s1 k) =
      (\<lambda>k. if k \<in> set (drop n xs) then boosted (procs s k) else procs s k)"
    by (auto simp: fun_eq_iff d)
  with q'(1) have "boost_loop q (int (Suc n)) ?s1 = Inr (s\<lparr>QL0 := q',
      procs := (\<lambda>k. if k \<in> set (drop n xs) then boosted (procs s k) else procs s k)\<rparr>)"
    by (simp add: upd_proc_def del: queue_fold)
  moreover have "boost_loop q (int n) s = boost_loop q (int (Suc n)) ?s1"
    using n l0 Suc.prems(2) assms(1)
    by (simp add: boost_loop.simps [of q "int n"] qrep_rear qrep_get qset_def add.commute del: queue_fold)
  ultimately show ?case using q'(2) d by auto
qed

text \<open>The lists of the levels cannot together hold more than the 64 processes.\<close>

lemma boost_room:
  assumes "queues_ok s"
  shows "length (level_list L0 s) + length (level_list L1 s) + length (level_list L2 s) +
    length (level_list L3 s) \<le> 64"
proof -
  let ?l = "level_list L0 s @ level_list L1 s @ level_list L2 s @ level_list L3 s"
  have "distinct ?l"
    using queues_okD(2,3) [OF assms] by auto
  then have "length ?l = card (set ?l)" by (rule distinct_card [symmetric])
  also have "\<dots> \<le> card {..<64::nat}"
    using queues_okD(3) [OF assms] by (intro card_mono) (auto simp: live_def)
  finally show ?thesis by simp
qed

lemma qrep_clear: "qrep (q\<lparr>rear := 0\<rparr>) []"
  by (simp add: qrep_def)

lemma boost_spec:
  assumes inv: "mlfq_inv s" and t: "ticks s mod 100 = 0"
  shows "\<exists>s'. boost s = Inr s' \<and> mlfq_inv s' \<and>
    level_list L0 s' = level_list L0 s @ level_list L1 s @ level_list L2 s @ level_list L3 s \<and>
    level_list L1 s' = [] \<and> level_list L2 s' = [] \<and> level_list L3 s' = [] \<and>
    queue_of MOQ s' = queue_of MOQ s \<and> cpu_proc s' = cpu_proc s \<and>
    procs s' = (\<lambda>k. if k \<in> set (level_list L1 s @ level_list L2 s @ level_list L3 s)
      then boosted (procs s k) else procs s k)"
proof -
  have ok: "queues_ok s" "pids_ok s" "cpus_ok s" "mem_ok s"
    using inv by (auto simp: mlfq_inv_def)
  note r = queues_okD(1) [OF ok(1)]
  note room = boost_room [OF ok(1)]
  let ?l = "\<lambda>lv. level_list lv s"
  obtain q1 where q1: "boost_loop (QL1 s) 0 s = Inr (s\<lparr>QL0 := q1,
      procs := (\<lambda>k. if k \<in> set (?l L1) then boosted (procs s k) else procs s k)\<rparr>)"
    "qrep q1 (?l L0 @ ?l L1)"
    using boost_loop_from [of "QL1 s" "?l L1" 0 s "?l L0"] r [of L0] r [of L1] room by auto
  define s1 where "s1 = s\<lparr>QL0 := q1,
      procs := (\<lambda>k. if k \<in> set (?l L1) then boosted (procs s k) else procs s k)\<rparr>"
  have s1: "QL0 s1 = q1" "QL2 s1 = QL2 s" "QL3 s1 = QL3 s" by (simp_all add: s1_def del: queue_fold)
  obtain q2 where q2: "boost_loop (QL2 s1) 0 s1 = Inr (s1\<lparr>QL0 := q2,
      procs := (\<lambda>k. if k \<in> set (?l L2) then boosted (procs s1 k) else procs s1 k)\<rparr>)"
    "qrep q2 ((?l L0 @ ?l L1) @ ?l L2)"
    using boost_loop_from [of "QL2 s1" "?l L2" 0 s1 "?l L0 @ ?l L1"] r [of L2] q1(2) s1 room by auto
  define s2 where "s2 = s1\<lparr>QL0 := q2,
      procs := (\<lambda>k. if k \<in> set (?l L2) then boosted (procs s1 k) else procs s1 k)\<rparr>"
  have s2: "QL0 s2 = q2" "QL3 s2 = QL3 s" by (simp_all add: s2_def s1_def del: queue_fold)
  obtain q3 where q3: "boost_loop (QL3 s2) 0 s2 = Inr (s2\<lparr>QL0 := q3,
      procs := (\<lambda>k. if k \<in> set (?l L3) then boosted (procs s2 k) else procs s2 k)\<rparr>)"
    "qrep q3 (((?l L0 @ ?l L1) @ ?l L2) @ ?l L3)"
    using boost_loop_from [of "QL3 s2" "?l L3" 0 s2 "(?l L0 @ ?l L1) @ ?l L2"] r [of L3] q2(2) s2 room
    by auto
  let ?ps = "\<lambda>k. if k \<in> set (?l L1 @ ?l L2 @ ?l L3) then boosted (procs s k) else procs s k"
  define s3 where "s3 = s2\<lparr>QL0 := q3,
      procs := (\<lambda>k. if k \<in> set (?l L3) then boosted (procs s2 k) else procs s2 k)\<rparr>"
  define s' where "s' = s3\<lparr>QL1 := (QL1 s3)\<lparr>rear := 0\<rparr>, QL2 := (QL2 s3)\<lparr>rear := 0\<rparr>,
      QL3 := (QL3 s3)\<lparr>rear := 0\<rparr>\<rparr>"
  have b: "boost s = Inr s'"
    using t q1(1) q2(1) q3(1) by (simp add: boost_def s1_def [symmetric] s2_def [symmetric]
        s3_def [symmetric] s'_def del: queue_fold)
  have pr: "procs s' = ?ps"
    by (auto simp: s'_def s3_def s2_def s1_def fun_eq_iff simp del: queue_fold)
  have fr: "cpu_proc s' = cpu_proc s" "nextpid s' = nextpid s" "moq s' = moq s"
    by (simp_all add: s'_def s3_def s2_def s1_def del: queue_fold)
  have q: "qrep (queue_of L0 s') (?l L0 @ ?l L1 @ ?l L2 @ ?l L3)"
    using q3(2) by (simp add: s'_def s3_def queue_of.simps del: queue_fold)
  have e: "qrep (queue_of lv s') []" if "lv \<in> {L1, L2, L3}" for lv
    using that by (auto simp: s'_def queue_of.simps qrep_clear simp del: queue_fold)
  have m: "queue_of MOQ s' = queue_of MOQ s" using fr(3) by simp
  have "queues_ok s'"
  proof (rule queues_okI [of s' "\<lambda>lv. if lv = L0 then ?l L0 @ ?l L1 @ ?l L2 @ ?l L3 else if lv = MOQ then ?l MOQ else []"])
    fix lv k
    show "qrep (queue_of lv s') (if lv = L0 then ?l L0 @ ?l L1 @ ?l L2 @ ?l L3 else if lv = MOQ then ?l MOQ else [])"
      using q e m r [of MOQ] by (cases lv) auto
    show "distinct (if lv = L0 then ?l L0 @ ?l L1 @ ?l L2 @ ?l L3 else if lv = MOQ then ?l MOQ else [])"
      using queues_okD(2,3) [OF ok(1)] by (cases lv) auto
    have "live s' k = live s k" by (auto simp: live_def pr)
    then show "k \<in> set (if lv = L0 then ?l L0 @ ?l L1 @ ?l L2 @ ?l L3 else if lv = MOQ then ?l MOQ else []) \<longleftrightarrow>
        live s' k \<and> qlevel (procs s' k) = lv"
      using queues_okD(3) [OF ok(1), of k] by (cases lv; cases "qlevel (procs s k)") (auto simp: pr)
  qed
  moreover have "pids_ok s'" using ok(2) pids_ok_cong [of s' s] fr by (simp add: pr)
  moreover have "cpus_ok s'" by (rule cpus_ok_cong [OF ok(3) fr(1)]) (simp add: pr)
  moreover have "mem_ok s'" using ok(4) by (auto simp: mem_ok_def pr)
  ultimately have "mlfq_inv s'" by (simp add: mlfq_inv_def)
  with b pr fr m qrep_qlist [OF q] qrep_qlist [OF e] show ?thesis by auto
qed

lemma boost_not_due: "ticks s mod 100 \<noteq> 0 \<Longrightarrow> boost s = Inr s"
  by (simp add: boost_def)

section \<open>The timer\<close>

lemma harmless_tick: "harmless s (wakeup TicksChan (s\<lparr>ticks := ticks s + 1\<rparr>))"
  by (auto simp: harmless_def wakeup_def wakeup1_def)

lemma timer_tick_inv:
  assumes "mlfq_inv s"
  shows "\<exists>s'. timer_tick s = Inr s' \<and> mlfq_inv s' \<and> cpu_proc s' = cpu_proc s"
proof -
  let ?s1 = "wakeup TicksChan (s\<lparr>ticks := ticks s + 1\<rparr>)"
  have i: "mlfq_inv ?s1" using harmless_inv [OF harmless_tick] assms by blast
  have c: "cpu_proc ?s1 = cpu_proc s" using harmless_tick [of s] by (simp add: harmless_def)
  show ?thesis
  proof (cases "mode_queue ?s1 = 0 \<and> ticks ?s1 mod 100 = 0")
    case True
    with boost_spec [OF i] c show ?thesis by (auto simp: timer_tick_def Let_def)
  next
    case False
    with i c boost_not_due [of ?s1] show ?thesis by (auto simp: timer_tick_def Let_def)
  qed
qed

text \<open>
  \<open>yield\<close> keeps the invariant whenever it returns; it only fails when the queue of the process
  holds all 64 processes, and then \<open>removePCB\<close> writes past its end.
\<close>

lemma yield_inv:
  assumes inv: "mlfq_inv s" and cp: "cpu_proc s c = Some p"
    and room: "length (level_list (qlevel (procs s p)) s) < 64"
  shows "\<exists>s'. yield c s = Inr s' \<and> mlfq_inv s'"
proof (cases "qlevel (procs s p) = MOQ")
  case True
  with cp leave_in_place [OF inv cp, of "\<lambda>r. r\<lparr>state := RUNNABLE\<rparr>"] show ?thesis
    by (auto simp: yield_def myproc_def)
next
  case nm: False
  show ?thesis
  proof (cases "timeslice (procs s p) = 0")
    case False
    have "harmless s (upd_proc p (\<lambda>r. r\<lparr>timeslice := timeslice r - 1\<rparr>) s)"
      by (auto simp: harmless_def)
    with harmless_inv inv yield_slice [OF cp nm False] show ?thesis by blast
  next
    case True
    show ?thesis
      using yield_from_L0 [OF inv cp _ True _ refl] yield_to_L3 [OF inv cp _ refl True]
        yield_in_L3 [OF inv cp _ True _ refl] nm room
      by (cases "qlevel (procs s p)") auto
  qed
qed

lemma yield_full:
  assumes inv: "mlfq_inv s" and cp: "cpu_proc s c = Some p" and nm: "qlevel (procs s p) \<noteq> MOQ"
    and ts: "timeslice (procs s p) = 0" and full: "length (level_list (qlevel (procs s p)) s) = 64"
  shows "yield c s = Inl OutOfBounds"
proof -
  have ok: "queues_ok s" "pids_ok s" "cpus_ok s" using inv by (auto simp: mlfq_inv_def)
  let ?lv = "qlevel (procs s p)"
  have m: "p \<in> set (level_list ?lv s)"
    using queues_okD(3) [OF ok(1), of p ?lv] cpus_ok_RUNNING [OF ok(3) cp] by (simp add: live_def)
  have *: "removePCB ?lv p s0 = Inl OutOfBounds"
    if "\<And>k. pid (procs s0 k) = pid (procs s k)" "queue_of ?lv s0 = queue_of ?lv s" for s0
    using pq.rep_remove_full [OF queues_okD(1) [OF ok(1)] only_in_pid [OF ok(1,2) m that(1)] full] that(2)
    by (simp add: removePCB_def)
  show ?thesis
    using cp nm ts * by (cases ?lv) (auto simp: yield_def myproc_def Let_def)
qed

section \<open>The monopoly system calls\<close>

lemma monopolize_inv:
  assumes "mlfq_inv s" and "cpu_proc s c = Some p"
  shows "\<exists>s'. monopolize c s = Inr s' \<and> mlfq_inv s' \<and> mode s' = 1 \<and> cpu_proc s' c = None"
proof -
  have h: "harmless s (s\<lparr>mode := 1\<rparr>)" by (simp add: harmless_def)
  from harmless_inv [OF this assms(1)] leave_in_place [of "s\<lparr>mode := 1\<rparr>" c p "\<lambda>r. r\<lparr>state := RUNNABLE\<rparr>"] assms(2)
  show ?thesis by (auto simp: monopolize_def myproc_def)
qed

lemma setmonopoly_spec:
  assumes inv: "mlfq_inv s" and cp: "cpu_proc s c = Some cur" and ne: "pd \<noteq> pid (procs s cur)"
    and f: "find_proc (\<lambda>r. pid r = pd) s = Some p" and lp: "live s p"
    and nm: "qlevel (procs s p) \<noteq> MOQ" and room: "length (level_list (qlevel (procs s p)) s) < 64"
  shows "\<exists>s'. setmonopoly n pd n c s = Inr (int (length (level_list MOQ s)) + 1, s') \<and> mlfq_inv s' \<and>
    level_list MOQ s' = level_list MOQ s @ [p] \<and>
    level_list (qlevel (procs s p)) s' = remove1 p (level_list (qlevel (procs s p)) s) \<and>
    procs s' = (procs s)(p := (procs s p)\<lparr>qlevel := MOQ\<rparr>)"
proof -
  have ok: "queues_ok s" "pids_ok s" "cpus_ok s" "mem_ok s" using inv by (auto simp: mlfq_inv_def)
  let ?lv = "qlevel (procs s p)"
  have m: "p \<in> set (level_list ?lv s)" using queues_okD(3) [OF ok(1), of p ?lv] lp by simp
  have n: "p \<notin> set (level_list MOQ s)" using queues_okD(3) [OF ok(1), of p MOQ] nm by simp
  have pdp: "pid (procs s p) = pd" using find_proc_SomeD(2) [OF f] .
  have "pd \<noteq> pid (procs s k)" if "k \<in> set (level_list MOQ s)" for k
  proof
    assume "pd = pid (procs s k)"
    moreover have "live s k" using that queues_okD(3) [OF ok(1), of k MOQ] by simp
    ultimately have "k = p" using ok(2) lp pdp unfolding pids_ok_def live_def by metis
    with that n show False by simp
  qed
  then have sc: "qscan (\<lambda>k. pd = pid (procs s k)) (queue_of MOQ s) 0 = Inr (rear (queue_of MOQ s))"
    using qrep_scan [OF queues_okD(1) [OF ok(1)], of "\<lambda>k. pd = pid (procs s k)" MOQ]
    by (simp add: takeWhile_eq_all_conv [THEN iffD2] qrep_rear [OF queues_okD(1) [OF ok(1)]])
  obtain q where q: "removePCB ?lv p s = Inr (set_queue ?lv q s)" "qrep q (remove1 p (level_list ?lv s))"
    using removePCB_spec [OF ok(1,2) m refl refl room] by blast
  obtain q2 where q2: "qpush (queue_of MOQ s) p = Inr q2" "qrep q2 (level_list MOQ s @ [p])"
    using pq.rep_push [OF queues_okD(1) [OF ok(1)] level_list_room [OF ok(1) _ n]] lp
    by (auto simp: live_def)
  define s' where "s' = set_queue MOQ q2 (upd_proc p (\<lambda>r. r\<lparr>qlevel := MOQ\<rparr>) (set_queue ?lv q s))"
  have r: "rear q2 = int (length (level_list MOQ s)) + 1" using qrep_rear [OF q2(2)] by simp
  have y: "setmonopoly n pd n c s = Inr (rear q2, s')"
    using cp ne f sc q(1) q2(1) nm by (auto simp: setmonopoly_def myproc_def Let_def s'_def)
  have pr: "procs s' = (procs s)(p := (procs s p)\<lparr>qlevel := MOQ\<rparr>)"
    by (simp add: s'_def fun_eq_iff)
  have l: "queue_of l s' = (if l = MOQ then q2 else if l = ?lv then q else queue_of l s)" for l
    by (simp add: s'_def)
  have fr: "cpu_proc s' = cpu_proc s" "nextpid s' = nextpid s" by (simp_all add: s'_def)
  have "queues_ok s'"
    by (rule move_queue [OF ok(1) m, of MOQ s' "level_list MOQ s @ [p]"])
      (use q(2) q2(2) n nm lp queues_okD(2) [OF ok(1), of MOQ] in \<open>auto simp: l pr live_def\<close>)
  moreover have "pids_ok s'" using ok(2) pids_ok_cong [of s' s] fr by (simp add: pr)
  moreover have "cpus_ok s'" by (rule cpus_ok_cong [OF ok(3) fr(1)]) (simp add: pr)
  moreover have "mem_ok s'" by (rule mem_ok_upd1 [OF ok(4), of p]) (use ok(4) lp in \<open>auto simp: pr mem_ok_def live_def\<close>)
  ultimately have "mlfq_inv s'" by (simp add: mlfq_inv_def)
  with y r pr l nm qrep_qlist [OF q(2)] qrep_qlist [OF q2(2)] show ?thesis by auto
qed

end
