(* ===== verification/MlfqSys.thy ===== *)
theory MlfqSys
  imports MlfqTop
begin

text \<open>
  The kernel of \<open>Project2\<close> as a transition system over its process table: the boot state, one step
  per critical section of \<open>proc.c\<close>, the states it reaches and the invariant they satisfy. A step
  of \<open>fork\<close> has its memory: what the code does when \<open>copyuvm\<close> fails is stated apart, because the
  invariant does not survive it.
\<close>

section \<open>Boot\<close>

text \<open>The zero-initialised table, with \<open>nextpid\<close> set to 1.\<close>

definition zero_proc :: proc where
  "zero_proc = \<lparr>sz = 0, pgdir = None, kstack = None, state = UNUSED, pid = 0, parent = None,
     tf = zero_tf, ctxt = zero_context, ret_addr = NoCode, chan = NullChan, killed = False,
     ofile = (\<lambda>_. None), cwd = None, name = [], qlevel = L0, priority = 0, timeslice = 0\<rparr>"

definition zero_queue :: pqueue where
  "zero_queue = \<lparr>slots = (\<lambda>_. None), rear = 0\<rparr>"

definition zero_table :: ptable where
  "zero_table = \<lparr>procs = (\<lambda>_. zero_proc), QL0 = zero_queue, QL1 = zero_queue, QL2 = zero_queue,
     QL3 = zero_queue, moq = zero_queue, mode = 0, nextpid = 1, initproc = None, ticks = 0,
     cpu_proc = (\<lambda>_. None)\<rparr>"

definition boot :: "nat \<Rightarrow> nat \<Rightarrow> nat option \<Rightarrow> ptable result" where
  "boot k d root = userinit (Some k) (Some d) root (pinit zero_table)"

section \<open>The steps\<close>

text \<open>
  An entry that failed to get its stack in \<open>allocproc\<close> keeps its pid and is \<open>UNUSED\<close>; \<open>setmonopoly\<close>
  would find it by that pid, and any unused entry by the pid 0. A step of \<open>setmonopoly\<close> is for a
  pid that no unused entry has.
\<close>

definition no_stale_pid :: "int \<Rightarrow> ptable \<Rightarrow> bool" where
  "no_stale_pid pd s \<longleftrightarrow> (\<forall>p<64. pid (procs s p) = pd \<longrightarrow> state (procs s p) \<noteq> UNUSED)"

inductive kstep :: "ptable \<Rightarrow> ptable \<Rightarrow> bool" where
  step_schedule: "cpu_proc s c = None \<Longrightarrow> scheduler c s = Inr (r, s') \<Longrightarrow> kstep s s'"
| step_timer: "trap_timer c s = Inr s' \<Longrightarrow> kstep s s'"
| step_yield: "cpu_proc s c = Some p \<Longrightarrow> yield c s = Inr s' \<Longrightarrow> kstep s s'"
| step_fork: "cpu_proc s c = Some p \<Longrightarrow> fork kp (Some d) c s = Inr (r, s') \<Longrightarrow> kstep s s'"
| step_exit: "cpu_proc s c = Some p \<Longrightarrow> exit c s = Inr s' \<Longrightarrow> kstep s s'"
| step_wait: "cpu_proc s c = Some p \<Longrightarrow> wait c s = Inr (w, s') \<Longrightarrow> kstep s s'"
| step_sleep: "cpu_proc s c = Some p \<Longrightarrow> sleep c ch s = Inr s' \<Longrightarrow> kstep s s'"
| step_resume: "sleep_resume c s = Inr s' \<Longrightarrow> kstep s s'"
| step_wakeup: "kstep s (wakeup ch s)"
| step_kill: "kstep s (snd (kill pd s))"
| step_setpriority: "kstep s (snd (sys_setpriority a b s))"
| step_setmonopoly: "cpu_proc s c = Some p \<Longrightarrow> no_stale_pid pd s \<Longrightarrow>
    setmonopoly sn pd pw c s = Inr (r, s') \<Longrightarrow> kstep s s'"
| step_monopolize: "cpu_proc s c = Some p \<Longrightarrow> monopolize c s = Inr s' \<Longrightarrow> kstep s s'"
| step_unmonopolize: "kstep s (unmonopolize s)"

inductive reachable :: "ptable \<Rightarrow> bool" where
  reach_boot: "boot k d root = Inr s \<Longrightarrow> reachable s"
| reach_step: "reachable s \<Longrightarrow> kstep s s' \<Longrightarrow> reachable s'"

section \<open>The invariant\<close>

lemma zero_table_inv: "mlfq_inv (pinit zero_table)"
proof -
  have q: "qrep (queue_of lv (pinit zero_table)) []" for lv
    by (cases lv) (auto simp: pinit_def zero_table_def zero_queue_def qrep_def queue_of.simps
        simp del: queue_fold)
  have "queues_ok (pinit zero_table)"
    by (rule queues_okI [of _ "\<lambda>_. []"])
      (use q in \<open>auto simp: live_def pinit_def zero_table_def zero_proc_def\<close>)
  then show ?thesis
    by (simp add: mlfq_inv_def pids_ok_def cpus_ok_def mem_ok_def live_def pinit_def
        zero_table_def zero_proc_def)
qed

lemma boot_spec:
  "\<exists>s. boot k d root = Inr s \<and> mlfq_inv s \<and> level_list L0 s = [0] \<and> initproc s = Some 0 \<and>
    state (procs s 0) = RUNNABLE \<and> cpu_proc s = (\<lambda>_. None) \<and> mode s = 0 \<and>
    (\<forall>p. p \<noteq> 0 \<longrightarrow> procs s p = zero_proc)"
proof -
  let ?z = "pinit zero_table"
  have z: "procs ?z = (\<lambda>_. zero_proc)" "nextpid ?z = 1" "cpu_proc ?z = (\<lambda>_. None)" "mode ?z = 0"
    by (simp_all add: pinit_def zero_table_def)
  have u: "find_proc (\<lambda>r. state r = UNUSED) ?z = Some 0"
    by (simp add: find_proc_def z zero_proc_def upt_conv_Cons)
  from allocproc_success [OF zero_table_inv u] obtain q where q:
    "allocproc (Some k) ?z = Inr (Some 0,
      (upd_proc 0 (fresh_proc k (nextpid ?z)) ?z)\<lparr>nextpid := nextpid ?z + 1, QL0 := q\<rparr>)"
    "qrep q (level_list L0 ?z @ [0])" by blast
  have zq: "queues_ok ?z" using zero_table_inv by (simp add: mlfq_inv_def)
  have zl: "\<not> live ?z k" for k by (simp add: live_def z zero_proc_def)
  have l0: "level_list L0 ?z = []"
    using queues_okD(3) [OF zq, of _ L0] zl by (metis list.set_intros(1) neq_Nil_conv)
  let ?g = "\<lambda>r. r\<lparr>pgdir := Some d, sz := 4096,
      tf := zero_tf\<lparr>tf_cs := 27, tf_ds := 35, tf_es := 35, tf_ss := 35, tf_eflags := 512,
        tf_esp := 4096, tf_eip := 0\<rparr>,
      name := ''initcode'', cwd := root, state := RUNNABLE\<rparr>"
  define s where "s = (upd_proc 0 ?g ((upd_proc 0 (fresh_proc k (nextpid ?z)) ?z)
      \<lparr>nextpid := nextpid ?z + 1, QL0 := q\<rparr>))\<lparr>initproc := Some 0\<rparr>"
  have b: "boot k d root = Inr s" by (simp add: boot_def userinit_def q(1) s_def)
  have pr: "procs s = (\<lambda>_. zero_proc)(0 := ?g (fresh_proc k 1 zero_proc))"
    by (simp add: s_def z fun_eq_iff)
  have fr: "cpu_proc s = (\<lambda>_. None)" "nextpid s = 2" "mode s = 0" "initproc s = Some 0"
    by (simp_all add: s_def z)
  have qs: "queue_of L0 s = q" by (simp add: s_def queue_of.simps del: queue_fold)
  have qs': "queue_of lv s = queue_of lv ?z" if "lv \<noteq> L0" for lv
    using that by (cases lv) (simp_all add: s_def queue_of.simps del: queue_fold)
  have "queues_ok s"
    by (rule enter_queue [OF zq zl _ qs q(2) qs']) (simp_all add: pr z)
  moreover have "pids_ok s" "cpus_ok s" "mem_ok s"
    by (auto simp: pids_ok_def cpus_ok_def mem_ok_def live_def pr fr zero_proc_def)
  ultimately have "mlfq_inv s" by (simp add: mlfq_inv_def)
  with b fr qs l0 qrep_qlist [OF q(2)] show ?thesis
    by (intro exI [of _ s]) (simp add: pr)
qed

lemma yield_Inr_inv:
  assumes "mlfq_inv s" and "cpu_proc s c = Some p" and "yield c s = Inr s'"
  shows "mlfq_inv s'"
proof (cases "length (level_list (qlevel (procs s p)) s) < 64")
  case True
  with yield_inv [OF assms(1,2)] assms(3) show ?thesis by auto
next
  case False
  then have f: "length (level_list (qlevel (procs s p)) s) = 64"
    using assms(1) pq.rep_length queues_okD(1) [of s "qlevel (procs s p)"]
    by (force simp: mlfq_inv_def)
  consider "qlevel (procs s p) = MOQ" | "qlevel (procs s p) \<noteq> MOQ" "timeslice (procs s p) \<noteq> 0"
    using yield_full [OF assms(1,2) _ _ f] assms(3) by fastforce
  then show ?thesis
  proof cases
    case 1
    with assms(2,3) leave_in_place [OF assms(1,2), of "\<lambda>r. r\<lparr>state := RUNNABLE\<rparr>"] show ?thesis
      by (auto simp: yield_def myproc_def)
  next
    case 2
    have "harmless s (upd_proc p (\<lambda>r. r\<lparr>timeslice := timeslice r - 1\<rparr>) s)"
      by (auto simp: harmless_def)
    with harmless_inv assms yield_slice [OF assms(2) 2] show ?thesis by auto
  qed
qed

lemma trap_timer_inv:
  assumes "mlfq_inv s" and "trap_timer c s = Inr s'"
  shows "mlfq_inv s'"
proof -
  obtain s1 where s1: "(if c = 0 then timer_tick s else Inr s) = Inr s1" "mlfq_inv s1"
    using timer_tick_inv [OF assms(1)] assms(1) by (cases "c = 0") auto
  with assms(2) yield_Inr_inv [OF s1(2)] show ?thesis
    by (auto simp: trap_timer_def myproc_def split: option.splits if_splits)
qed

lemma fork_inv:
  assumes "mlfq_inv s" and "cpu_proc s c = Some p" and "fork kp (Some d) c s = Inr (r, s')"
  shows "mlfq_inv s'"
proof (cases "find_proc (\<lambda>r. state r = UNUSED) s")
  case None
  with fork_no_slot [OF assms(2)] assms(1,3) show ?thesis by simp
next
  case (Some n)
  show ?thesis
  proof (cases kp)
    case None
    with allocproc_no_stack [OF assms(1)] assms(2,3) show ?thesis
      by (auto simp: fork_def myproc_def)
  next
    case k: (Some k)
    with fork_success [OF assms(1,2) Some, of k d] assms(3) show ?thesis by auto
  qed
qed

lemma exit_Inr_inv:
  assumes "mlfq_inv s" and "cpu_proc s c = Some p" and "exit c s = Inr s'"
  shows "mlfq_inv s'"
proof -
  have "initproc s \<noteq> Some p"
    using assms(2,3) by (auto simp: exit_def myproc_def)
  with exit_inv [OF assms(1,2)] assms(3) show ?thesis by auto
qed

lemma setmonopoly_inv:
  assumes inv: "mlfq_inv s" and cp: "cpu_proc s c = Some cur" and nz: "no_stale_pid pd s"
    and st: "setmonopoly sn pd pw c s = Inr (r, s')"
  shows "mlfq_inv s'"
proof (cases "pw \<noteq> sn \<or> pd = pid (procs s cur) \<or> find_proc (\<lambda>r. pid r = pd) s = None")
  case True
  with st cp inv show ?thesis by (auto simp: setmonopoly_def myproc_def split: if_splits)
next
  case False
  then obtain p where f: "find_proc (\<lambda>r. pid r = pd) s = Some p" and ne: "pd \<noteq> pid (procs s cur)"
    and pw: "pw = sn" by blast
  have ok: "queues_ok s" "pids_ok s" using inv by (auto simp: mlfq_inv_def)
  note p = find_proc_SomeD(1,2) [OF f]
  have lp: "live s p" using p nz by (simp add: no_stale_pid_def live_def)
  show ?thesis
  proof (cases "qlevel (procs s p) = MOQ")
    case True
    then have m: "p \<in> set (level_list MOQ s)" using queues_okD(3) [OF ok(1)] lp by simp
    have "List.find (\<lambda>k. pd = pid (procs s k)) (level_list MOQ s) \<noteq> None"
      using m p(2) by (auto simp: find_None_iff)
    with scan_find [OF queues_okD(1) [OF ok(1)], of "\<lambda>k. pd = pid (procs s k)" MOQ]
    obtain i where "qscan (\<lambda>k. pd = pid (procs s k)) (moq s) 0 = Inr i" "i < rear (moq s)"
      by auto
    with st cp ne f pw inv show ?thesis by (simp add: setmonopoly_def myproc_def)
  next
    case nm: False
    show ?thesis
    proof (cases "length (level_list (qlevel (procs s p)) s) < 64")
      case room: True
      from setmonopoly_spec [OF inv cp ne f lp nm room, of pw] st pw show ?thesis by auto
    next
      case False
      then have l: "length (level_list (qlevel (procs s p)) s) = 64"
        using pq.rep_length [OF queues_okD(1) [OF ok(1)]] by (metis nat_less_le)
      have m: "p \<in> set (level_list (qlevel (procs s p)) s)" using queues_okD(3) [OF ok(1)] lp by simp
      have rm: "removePCB (qlevel (procs s p)) p s = Inl OutOfBounds"
        using pq.rep_remove_full [OF queues_okD(1) [OF ok(1)] only_in_pid [OF ok m refl] l]
        by (simp add: removePCB_def)
      with st cp ne f pw nm inv show ?thesis
        by (auto simp: setmonopoly_def myproc_def rbind_eq_Inr Let_def split: if_splits)
    qed
  qed
qed

lemma kstep_inv:
  assumes "kstep s s'" and "mlfq_inv s"
  shows "mlfq_inv s'"
  using assms
proof (induction rule: kstep.induct)
  case (step_schedule s c r s')
  with scheduler_inv [of s c] show ?case by auto
next
  case (step_sleep s c p ch s')
  with sleep_inv [of s c p ch] show ?case by auto
next
  case (step_wait s c p w s')
  with wait_inv [of s c p] show ?case by auto
next
  case (step_monopolize s c p s')
  with monopolize_inv [of s c p] show ?case by auto
next
  case (step_wakeup s ch)
  then show ?case using harmless_inv [OF harmless_wakeup1] by (simp add: wakeup_def)
next
  case (step_kill s pd)
  then show ?case by (rule harmless_inv [OF harmless_kill])
next
  case (step_setpriority s a b)
  then show ?case by (rule harmless_inv [OF harmless_sys_setpriority])
next
  case (step_unmonopolize s)
  then show ?case by (rule harmless_inv [OF harmless_unmonopolize])
next
  case (step_resume c s s')
  then show ?case by (rule harmless_inv [OF harmless_sleep_resume])
qed (rule trap_timer_inv yield_Inr_inv fork_inv exit_Inr_inv setmonopoly_inv; assumption)+

lemma reachable_inv: "reachable s \<Longrightarrow> mlfq_inv s"
proof (induction rule: reachable.induct)
  case (reach_boot k d root s)
  with boot_spec [of k d root] show ?case by auto
qed (rule kstep_inv)

end
