(* ===== verification/MlfqProps.thy ===== *)
theory MlfqProps
  imports MlfqSys
begin

text \<open>
  The properties of the \<open>Project2\<close> scheduler, each with an instance at a concrete table.
\<close>

section \<open>A table with one running process\<close>

definition running_proc :: "queuelevel \<Rightarrow> u32 \<Rightarrow> int \<Rightarrow> proc" where
  "running_proc lv ts pri = zero_proc\<lparr>kstack := Some 1, pgdir := Some 2, state := RUNNING, pid := 1,
     qlevel := lv, priority := pri, timeslice := ts\<rparr>"

definition one_running :: "queuelevel \<Rightarrow> u32 \<Rightarrow> int \<Rightarrow> ptable" where
  "one_running lv ts pri = set_queue lv \<lparr>slots = (\<lambda>_. None)(0 := Some 0), rear = 1\<rparr>
     (zero_table\<lparr>procs := (\<lambda>_. zero_proc)(0 := running_proc lv ts pri), nextpid := 2,
        cpu_proc := (\<lambda>_. None)(0 := Some 0)\<rparr>)"

lemma running_proc_simps [simp]:
  "state (running_proc lv ts pri) = RUNNING" "pid (running_proc lv ts pri) = 1"
  "qlevel (running_proc lv ts pri) = lv" "priority (running_proc lv ts pri) = pri"
  "timeslice (running_proc lv ts pri) = ts" "kstack (running_proc lv ts pri) = Some 1"
  "pgdir (running_proc lv ts pri) = Some 2"
  by (simp_all add: running_proc_def zero_proc_def)

lemma zero_proc_simps [simp]: "state zero_proc = UNUSED" "pid zero_proc = 0" "parent zero_proc = None"
  by (simp_all add: zero_proc_def)

lemma one_running_simps [simp]:
  "procs (one_running lv ts pri) = (\<lambda>_. zero_proc)(0 := running_proc lv ts pri)"
  "cpu_proc (one_running lv ts pri) = (\<lambda>_. None)(0 := Some 0)"
  "nextpid (one_running lv ts pri) = 2" "mode (one_running lv ts pri) = 0"
  "ticks (one_running lv ts pri) = 0" "initproc (one_running lv ts pri) = None"
  by (simp_all add: one_running_def zero_table_def)

lemma one_running_qrep: "qrep (queue_of l (one_running lv ts pri)) (if l = lv then [0] else [])"
proof -
  have z: "queue_of l zero_table = zero_queue"
    by (cases l) (simp_all add: zero_table_def queue_of.simps del: queue_fold)
  show ?thesis by (simp add: one_running_def z qrep_def zero_queue_def)
qed

lemma one_running_list [simp]: "level_list l (one_running lv ts pri) = (if l = lv then [0] else [])"
  using qrep_qlist [OF one_running_qrep] .

lemma one_running_inv: "mlfq_inv (one_running lv ts pri)"
proof -
  have "queues_ok (one_running lv ts pri)"
    by (rule queues_okI [of _ "\<lambda>l. if l = lv then [0] else []", OF one_running_qrep])
      (auto simp: live_def)
  then show ?thesis by (simp add: mlfq_inv_def pids_ok_def cpus_ok_def mem_ok_def live_def)
qed

section \<open>The invariant\<close>



section \<open>Scheduling decisions\<close>

text \<open>
  C6: outside monopoly mode the scheduler never fails; it idles only when no process of the four
  levels is runnable, and otherwise switches to a runnable process, the first in its queue, such
  that no process of a higher level is runnable, and changes nothing but the CPU and its state.
\<close>

theorem scheduler_picks_highest:
  assumes "mlfq_inv s" and "cpu_proc s cpu = None" and "mode s \<noteq> 1"
  shows "scheduler cpu s = Inr (None, s) \<and>
      (\<forall>p<64. qlevel (procs s p) \<noteq> MOQ \<longrightarrow> state (procs s p) \<noteq> RUNNABLE) \<or>
    (\<exists>p lv xs ys. scheduler cpu s = Inr (Some p, dispatched cpu p s) \<and> state (procs s p) = RUNNABLE \<and>
      lv \<noteq> MOQ \<and> qlevel (procs s p) = lv \<and> level_list lv s = xs @ p # ys \<and>
      (\<forall>k\<in>set xs. state (procs s k) \<noteq> RUNNABLE) \<and>
      (\<forall>k<64. level_number (qlevel (procs s k)) < level_number lv \<longrightarrow> state (procs s k) \<noteq> RUNNABLE))"
proof (cases "mlfq_pick s")
  case None
  have q: "queues_ok s" using assms(1) by (simp add: mlfq_inv_def)
  have "runnable_in lv s = None" if "lv \<noteq> MOQ" for lv
    using None that by (cases lv) (auto simp: mlfq_pick_def split: option.splits)
  then have "\<forall>p<64. qlevel (procs s p) \<noteq> MOQ \<longrightarrow> state (procs s p) \<noteq> RUNNABLE"
    using runnable_in_None [OF q] by blast
  with scheduler_mlfq [OF assms] None show ?thesis by simp
next
  case (Some p)
  have q: "queues_ok s" using assms(1) by (simp add: mlfq_inv_def)
  obtain lv where lv: "lv \<noteq> MOQ" "runnable_in lv s = Some p"
      "\<And>lv'. level_number lv' < level_number lv \<Longrightarrow> runnable_in lv' s = None"
    using mlfq_pick_level [OF Some] by blast
  obtain xs ys where l: "level_list lv s = xs @ p # ys" "\<forall>k\<in>set xs. state (procs s k) \<noteq> RUNNABLE"
    using lv(2) unfolding find_Some_iff by (metis id_take_nth_drop in_set_conv_nth length_take
        min.absorb4 nth_take)
  have "\<forall>k<64. level_number (qlevel (procs s k)) < level_number lv \<longrightarrow> state (procs s k) \<noteq> RUNNABLE"
    using runnable_in_None [OF q] lv(3) by blast
  moreover have "scheduler cpu s = Inr (Some p, dispatched cpu p s)"
    using scheduler_mlfq [OF assms] Some by simp
  ultimately show ?thesis
    using lv(1) l runnable_memory(2,3) [OF assms(1) lv(2)] by blast
qed

theorem scheduler_picks_highest_witness:
  "scheduler 1 (one_running L2 0 0) = Inr (None, one_running L2 0 0)"
  using scheduler_picks_highest [OF one_running_inv [of L2 0 0], of 1]
  by (auto split: if_splits simp: find_Some_iff)

text \<open>
  C7: in monopoly mode the scheduler runs the first runnable process of the monopoly queue,
  whatever the levels hold; it returns to the feedback queues and resets the ticks when that queue
  holds no process, only zombies, or exactly one process.
\<close>

theorem scheduler_monopoly:
  assumes "mlfq_inv s" and "cpu_proc s cpu = None" and "mode s = 1"
  shows "\<exists>s1. scheduler cpu s = (case runnable_in MOQ s of None \<Rightarrow> Inr (None, s1)
        | Some p \<Rightarrow> Inr (Some p, dispatched cpu p s1)) \<and>
      s1 = (if length (level_list MOQ s) \<noteq> 1 \<and> (\<exists>p\<in>set (level_list MOQ s). state (procs s p) \<noteq> ZOMBIE)
            then s else s\<lparr>mode := 0, ticks := 0\<rparr>)"
proof -
  have q: "queues_ok s" using assms(1) by (simp add: mlfq_inv_def)
  obtain s1 where s1: "checkMoQ s = Inr s1" "scheduler cpu s = (case runnable_in MOQ s of
      None \<Rightarrow> Inr (None, s1) | Some p \<Rightarrow> Inr (Some p, dispatched cpu p s1))"
    using scheduler_moq [OF assms] by blast
  have "Inr s1 = (Inr (if length (level_list MOQ s) \<noteq> 1 \<and>
      (\<exists>p\<in>set (level_list MOQ s). state (procs s p) \<noteq> ZOMBIE) then s else s\<lparr>mode := 0, ticks := 0\<rparr>) :: ptable result)"
    using checkMoQ_spec [OF q] unfolding unmonopolize_def s1(1) .
  then have "s1 = (if length (level_list MOQ s) \<noteq> 1 \<and>
      (\<exists>p\<in>set (level_list MOQ s). state (procs s p) \<noteq> ZOMBIE) then s else s\<lparr>mode := 0, ticks := 0\<rparr>)"
    by (simp only: sum.inject)
  with s1(2) show ?thesis by blast
qed

theorem scheduler_monopoly_witness:
  "scheduler 1 ((one_running MOQ 0 0)\<lparr>mode := 1\<rparr>) =
     Inr (None, (one_running MOQ 0 0)\<lparr>mode := 0, ticks := 0\<rparr>)"
proof -
  have "harmless (one_running MOQ 0 0) ((one_running MOQ 0 0)\<lparr>mode := 1\<rparr>)"
    by (simp add: harmless_def)
  from harmless_inv [OF this one_running_inv] scheduler_monopoly [of "(one_running MOQ 0 0)\<lparr>mode := 1\<rparr>" 1]
  show ?thesis by auto
qed

section \<open>Time slices and demotion\<close>



text \<open>
  \<open>yield\<close> keeps the queue of \<open>L3\<close> in descending order of priority: a process that used up
  its time slice in \<open>L3\<close> loses one point of priority (never below 0) and goes behind the
  processes of at least its new priority.
\<close>

theorem yield_keeps_priority_order:
  assumes inv: "mlfq_inv s" and cp: "cpu_proc s c = Some p" and ts: "timeslice (procs s p) = 0"
    and nm: "qlevel (procs s p) \<noteq> MOQ" and room: "length (level_list (qlevel (procs s p)) s) < 64"
    and sorted: "sorted_wrt (\<lambda>x y. priority (procs s y) \<le> priority (procs s x)) (level_list L3 s)"
  shows "\<exists>s'. yield c s = Inr s' \<and>
    sorted_wrt (\<lambda>x y. priority (procs s' y) \<le> priority (procs s' x)) (level_list L3 s') \<and>
    priority (procs s' p) = (if qlevel (procs s p) = L3 \<and> priority (procs s p) > 0
      then priority (procs s p) - 1 else priority (procs s p))"
proof -
  consider "qlevel (procs s p) = L0" | "qlevel (procs s p) = L1 \<or> qlevel (procs s p) = L2"
    | "qlevel (procs s p) = L3" using nm by (cases "qlevel (procs s p)") auto
  then show ?thesis
  proof cases
    case 1
    let ?b = "next_level (pid (procs s p)) L0"
    have "?b \<noteq> L3" by (simp add: next_level_def)
    with yield_from_L0 [OF inv cp 1 ts _ refl] room 1 obtain s' where s': "yield c s = Inr s'"
      "level_list L3 s' = level_list L3 s" "\<And>k. priority (procs s' k) = priority (procs s k)" by auto
    with sorted 1 show ?thesis by simp
  next
    case 2
    then obtain s' where s': "yield c s = Inr s'" "\<And>k. priority (procs s' k) = priority (procs s k)"
      "level_list L3 s' = prio_insert (\<lambda>k. priority (procs s k)) p (level_list L3 s)"
      using yield_to_L3 [OF inv cp 2 refl ts room] by auto
    with sorted_prio_insert [OF sorted] 2 show ?thesis by auto
  next
    case 3
    define k' where "k' = (if priority (procs s p) > 0 then priority (procs s p) - 1 else priority (procs s p))"
    define pri where "pri = (\<lambda>k. priority (procs s k))(p := k')"
    obtain s' where s': "yield c s = Inr s'" "\<And>k. priority (procs s' k) = pri k"
      "level_list L3 s' = prio_insert pri p (remove1 p (level_list L3 s))"
      using yield_in_L3 [OF inv cp 3 ts _ k'_def] room 3 by (auto simp: pri_def)
    have d: "distinct (level_list L3 s)" using inv queues_okD(2) by (auto simp: mlfq_inv_def)
    have "sorted_wrt (\<lambda>x y. priority (procs s y) \<le> priority (procs s x)) (remove1 p (level_list L3 s))"
      using sorted by (rule sorted_wrt_remove1)
    then have "sorted_wrt (\<lambda>x y. pri y \<le> pri x) (remove1 p (level_list L3 s))"
      by (rule sorted_wrt_mono_rel [rotated]) (use d in \<open>auto simp: pri_def\<close>)
    from sorted_prio_insert [OF this, of p]
    have "sorted_wrt (\<lambda>x y. priority (procs s' y) \<le> priority (procs s' x)) (level_list L3 s')"
      by (simp only: s'(2,3))
    moreover have "priority (procs s' p) = k'" by (simp only: s'(2)) (simp add: pri_def)
    ultimately show ?thesis using s'(1) 3 by (simp add: k'_def)
  qed
qed

theorem yield_keeps_priority_order_witness:
  "\<exists>s'. yield 0 (one_running L3 0 5) = Inr s' \<and> priority (procs s' 0) = 4"
  using yield_keeps_priority_order [OF one_running_inv [of L3 0 5], of 0 0] by auto

text \<open>
  A process with \<open>t\<close> left of its time slice keeps the CPU for the first \<open>t\<close> calls of \<open>yield\<close>
  by the timer: each of them only takes one off its time slice, the queues and the other
  processes stay as they are.
\<close>

theorem yield_counts_down:
  assumes "cpu_proc s c = Some p" and "qlevel (procs s p) \<noteq> MOQ"
    and "n \<le> unat (timeslice (procs s p))"
  shows "((\<lambda>r. rbind r (yield c)) ^^ n) (Inr s) =
    Inr (upd_proc p (\<lambda>r. r\<lparr>timeslice := timeslice r - of_nat n\<rparr>) s)"
  using assms(3)
proof (induction n)
  case 0
  then show ?case by (simp add: upd_proc_def)
next
  case (Suc n)
  let ?s = "upd_proc p (\<lambda>r. r\<lparr>timeslice := timeslice r - of_nat n\<rparr>) s"
  have le: "(of_nat n :: u32) < timeslice (procs s p)"
    using Suc.prems by (simp add: word_less_nat_alt unat_of_nat
        order_le_less_trans [OF mod_less_eq_dividend])
  have "timeslice (procs ?s p) \<noteq> 0" using le by auto
  from yield_slice [of ?s c p] this assms(1,2) Suc show ?case
    by (simp add: upd_proc_compose algebra_simps)
qed

theorem yield_counts_down_witness:
  "((\<lambda>r. rbind r (yield 0)) ^^ 2) (Inr (one_running L0 2 0)) =
    Inr (upd_proc 0 (\<lambda>r. r\<lparr>timeslice := timeslice r - of_nat 2\<rparr>) (one_running L0 2 0))"
  using yield_counts_down [of "one_running L0 2 0" 0 0 2] by simp

section \<open>Boosting\<close>

text \<open>
  C9: a timer tick that makes the tick count a multiple of 100 outside monopoly mode puts every
  process of \<open>L1\<close>, \<open>L2\<close> and \<open>L3\<close> behind those of \<open>L0\<close>, in that order and in the order of their
  queues, with the time slice of \<open>L0\<close>; the monopoly queue stays as it is and the queue array
  of \<open>L0\<close> has room for all of them.
\<close>

theorem timer_tick_boosts:
  assumes "mlfq_inv s" and "mode s = 0" and "(ticks s + 1) mod 100 = 0"
  shows "\<exists>s'. timer_tick s = Inr s' \<and> mlfq_inv s' \<and>
    level_list L0 s' = level_list L0 s @ level_list L1 s @ level_list L2 s @ level_list L3 s \<and>
    level_list L1 s' = [] \<and> level_list L2 s' = [] \<and> level_list L3 s' = [] \<and>
    level_list MOQ s' = level_list MOQ s \<and>
    (\<forall>k\<in>set (level_list L1 s @ level_list L2 s @ level_list L3 s).
      qlevel (procs s' k) = L0 \<and> timeslice (procs s' k) = slice_of L0)"
proof -
  define s1 where "s1 = wakeup TicksChan (s\<lparr>ticks := ticks s + 1\<rparr>)"
  have h: "harmless s s1" using harmless_tick by (simp add: s1_def)
  have l: "level_list lv s1 = level_list lv s" for lv using h by (simp add: harmless_def)
  have t: "ticks s1 = ticks s + 1" "mode s1 = 0"
    using assms(2) by (simp_all add: s1_def wakeup_def wakeup1_def)
  obtain s' where s': "boost s1 = Inr s'" "mlfq_inv s'"
    "level_list L0 s' = level_list L0 s1 @ level_list L1 s1 @ level_list L2 s1 @ level_list L3 s1"
    "level_list L1 s' = []" "level_list L2 s' = []" "level_list L3 s' = []"
    "queue_of MOQ s' = queue_of MOQ s1"
    "procs s' = (\<lambda>k. if k \<in> set (level_list L1 s1 @ level_list L2 s1 @ level_list L3 s1)
      then boosted (procs s1 k) else procs s1 k)"
    using boost_spec [OF harmless_inv [OF h assms(1)]] assms(3) unfolding t by metis
  have "timer_tick s = Inr s'"
    using s'(1) t by (simp add: timer_tick_def s1_def [symmetric] mode_queue_def)
  moreover have "qlevel (procs s' k) = L0 \<and> timeslice (procs s' k) = slice_of L0"
    if "k \<in> set (level_list L1 s @ level_list L2 s @ level_list L3 s)" for k
    using that by (simp only: s'(8) l if_True) (simp add: slice_of_def)
  ultimately show ?thesis using s'(2-7) by (auto simp: l)
qed

theorem timer_tick_boosts_witness:
  "\<exists>s'. timer_tick ((one_running L3 0 0)\<lparr>ticks := 99\<rparr>) = Inr s' \<and> level_list L0 s' = [0]"
proof -
  have "harmless (one_running L3 0 0) ((one_running L3 0 0)\<lparr>ticks := 99\<rparr>)"
    by (simp add: harmless_def)
  from timer_tick_boosts [OF harmless_inv [OF this one_running_inv]] show ?thesis by fastforce
qed

section \<open>Exit, wait and fork\<close>

lemma sched_procs: "sched c s = Inr s' \<Longrightarrow> procs s' = procs s"
  by (auto simp: sched_def rbind_eq_Inr)

lemma reparent_spec:
  assumes "p \<le> 64"
  shows "initproc (reparent cur p s) = initproc s \<and> (\<forall>k.
    parent (procs (reparent cur p s) k) =
      (if p \<le> k \<and> k < 64 \<and> parent (procs s k) = Some cur then initproc s else parent (procs s k)) \<and>
    (state (procs s k) \<noteq> SLEEPING \<longrightarrow> state (procs (reparent cur p s) k) = state (procs s k)))"
  using assms
proof (induction cur p s rule: reparent.induct)
  case (1 cur p s)
  show ?case
  proof (cases "p < 64")
    case False
    then have "reparent cur p s = s" by (simp add: reparent.simps [of cur p s])
    with False show ?thesis by auto
  next
    case True
    define s1 where "s1 = upd_proc p (\<lambda>r. r\<lparr>parent := initproc s\<rparr>) s"
    define s2 where "s2 = (if parent (procs s p) = Some cur
      then if state (procs s1 p) = ZOMBIE then wakeup1 (chan_of (initproc s)) s1 else s1 else s)"
    have r: "reparent cur p s = reparent cur (p + 1) s2"
      using True by (simp add: reparent.simps [of cur p s] s2_def s1_def)
    have le: "p + 1 \<le> 64" using True by simp
    have ih: "initproc (reparent cur (p + 1) s2) = initproc s2 \<and> (\<forall>k.
      parent (procs (reparent cur (p + 1) s2) k) =
        (if p + 1 \<le> k \<and> k < 64 \<and> parent (procs s2 k) = Some cur then initproc s2 else parent (procs s2 k)) \<and>
      (state (procs s2 k) \<noteq> SLEEPING \<longrightarrow> state (procs (reparent cur (p + 1) s2) k) = state (procs s2 k)))"
      using 1(1) [OF True le] unfolding s2_def s1_def Let_def .
    have i: "initproc s2 = initproc s" by (simp add: s2_def s1_def wakeup1_def)
    have q: "parent (procs s2 k) = (if k = p \<and> parent (procs s p) = Some cur then initproc s
        else parent (procs s k))" for k
      by (simp add: s2_def s1_def wakeup1_def)
    have st: "state (procs s k) \<noteq> SLEEPING \<longrightarrow> state (procs s2 k) = state (procs s k)" for k
      by (simp add: s2_def s1_def wakeup1_def)
    show ?thesis unfolding r
    proof (intro conjI allI)
      show "initproc (reparent cur (p + 1) s2) = initproc s" using ih i by simp
      fix k
      show "parent (procs (reparent cur (p + 1) s2) k) =
        (if p \<le> k \<and> k < 64 \<and> parent (procs s k) = Some cur then initproc s else parent (procs s k))"
        using ih i q [of k] True by (cases "k = p") auto
      show "state (procs s k) \<noteq> SLEEPING \<longrightarrow>
          state (procs (reparent cur (p + 1) s2) k) = state (procs s k)"
        using ih st [of k] by metis
    qed
  qed
qed

text \<open>
  C10: a process that exits becomes a zombie and leaves its CPU, its children pass to \<open>initproc\<close>,
  and its parent, if it sleeps in \<open>wait\<close> (on its own address), is runnable again: the wakeup is not lost.
\<close>

theorem exit_wakes_parent:
  assumes inv: "mlfq_inv s" and cp: "cpu_proc s c = Some p" and ni: "initproc s \<noteq> Some p"
    and pa: "parent (procs s p) = Some q" and q: "q < 64" "q \<noteq> p"
    and w: "state (procs s q) = SLEEPING" "chan (procs s q) = ProcChan q"
  shows "\<exists>s'. exit c s = Inr s' \<and> mlfq_inv s' \<and> cpu_proc s' c = None \<and>
    state (procs s' p) = ZOMBIE \<and> parent (procs s' p) = Some q \<and> state (procs s' q) = RUNNABLE \<and>
    (\<forall>k<64. parent (procs s k) = Some p \<longrightarrow> parent (procs s' k) = initproc s)"
proof -
  let ?s1 = "upd_proc p (\<lambda>r. r\<lparr>ofile := (\<lambda>i. if i < 16 then None else ofile r i), cwd := None\<rparr>) s"
  let ?s2 = "wakeup1 (ProcChan q) ?s1"
  define s3 where "s3 = reparent p 0 ?s2"
  obtain s' where s': "exit c s = Inr s'" "mlfq_inv s'" "cpu_proc s' c = None" "state (procs s' p) = ZOMBIE"
    using exit_inv [OF inv cp ni] by blast
  have i: "initproc ?s2 = initproc s" by (simp add: wakeup1_def)
  have e: "exit c s = sched c (upd_proc p (\<lambda>r. r\<lparr>state := ZOMBIE\<rparr>) s3)"
    using cp ni pa by (simp add: exit_def myproc_def Let_def s3_def chan_of_def)
  have pr: "procs s' = procs (upd_proc p (\<lambda>r. r\<lparr>state := ZOMBIE\<rparr>) s3)"
    by (rule sched_procs [OF trans [OF e [symmetric] s'(1)]])
  have r: "\<And>k. parent (procs s3 k) = (if k < 64 \<and> parent (procs ?s2 k) = Some p then initproc s
      else parent (procs ?s2 k))"
    "\<And>k. state (procs ?s2 k) \<noteq> SLEEPING \<Longrightarrow> state (procs s3 k) = state (procs ?s2 k)"
    using reparent_spec [of 0 p ?s2] i by (simp_all add: s3_def)
  have p2: "parent (procs ?s2 k) = parent (procs s k)" for k by (simp add: wakeup1_def)
  have "state (procs ?s2 q) = RUNNABLE" using q w by (simp add: wakeup1_def)
  then have "state (procs s' q) = RUNNABLE" using r(2) [of q] q(2) by (simp add: pr)
  moreover have "parent (procs s' p) = Some q" using r(1) [of p] pa q(2) by (simp add: pr p2)
  moreover have "\<forall>k<64. parent (procs s k) = Some p \<longrightarrow> parent (procs s' k) = initproc s"
    using r(1) by (auto simp: pr p2)
  ultimately show ?thesis using s' by blast
qed

text \<open>
  A table with a parent in entry 0, asleep in \<open>wait\<close> or running, and its child in entry 1, both in \<open>L0\<close>.
\<close>

definition family :: "procstate \<Rightarrow> procstate \<Rightarrow> ptable" where
  "family a b = zero_table\<lparr>procs := (\<lambda>_. zero_proc)
       (0 := (running_proc L0 2 0)\<lparr>state := a, chan := ProcChan 0\<rparr>,
        1 := (running_proc L0 2 0)\<lparr>state := b, pid := 2, parent := Some 0\<rparr>),
     QL0 := \<lparr>slots = (\<lambda>_. None)(0 := Some 0, 1 := Some 1), rear = 2\<rparr>, nextpid := 3,
     cpu_proc := (\<lambda>_. None)(0 := if a = RUNNING then Some 0 else if b = RUNNING then Some 1 else None)\<rparr>"

lemma family_simps [simp]:
  "procs (family a b) = (\<lambda>_. zero_proc)
     (0 := (running_proc L0 2 0)\<lparr>state := a, chan := ProcChan 0\<rparr>,
      1 := (running_proc L0 2 0)\<lparr>state := b, pid := 2, parent := Some 0\<rparr>)"
  "cpu_proc (family a b) = (\<lambda>_. None)(0 := if a = RUNNING then Some 0 else if b = RUNNING then Some 1 else None)"
  "nextpid (family a b) = 3" "initproc (family a b) = None"
  by (simp_all add: family_def zero_table_def)

lemma family_inv:
  assumes "a \<noteq> UNUSED" and "b \<noteq> UNUSED" and "\<not> (a = RUNNING \<and> b = RUNNING)"
  shows "mlfq_inv (family a b)"
proof -
  have q: "qrep (queue_of l (family a b)) (if l = L0 then [0, 1] else [])" for l
    by (cases l) (simp_all add: family_def zero_table_def zero_queue_def queue_of.simps qrep_def
        less_Suc_eq nth_Cons' del: queue_fold)
  have "queues_ok (family a b)"
    by (rule queues_okI [of _ "\<lambda>l. if l = L0 then [0, 1] else []", OF q])
      (use assms in \<open>auto simp: live_def\<close>)
  moreover have "pids_ok (family a b)" by (auto simp: pids_ok_def live_def)
  moreover have "cpus_ok (family a b)" using assms by (auto simp: cpus_ok_def)
  moreover have "mem_ok (family a b)" by (auto simp: mem_ok_def)
  ultimately show ?thesis by (simp add: mlfq_inv_def)
qed

theorem exit_wakes_parent_witness:
  "\<exists>s'. exit 0 (family SLEEPING RUNNING) = Inr s' \<and> state (procs s' 0) = RUNNABLE"
  using exit_wakes_parent [OF family_inv [of SLEEPING RUNNING], of 0 1 0] by auto



text \<open>
  \<open>fork\<close> with a free entry, a stack and a copied address space returns a fresh pid to the
  parent; the child is a runnable copy that sees the result 0, it enters the end of \<open>L0\<close> with a
  full time slice, and nothing else changes.
\<close>

theorem fork_child:
  assumes "mlfq_inv s" and "cpu_proc s c = Some cur"
    and "find_proc (\<lambda>r. state r = UNUSED) s = Some p"
  shows "\<exists>s'. fork (Some k) (Some d) c s = Inr (nextpid s, s') \<and> mlfq_inv s' \<and>
    (\<forall>j<64. pid (procs s j) \<noteq> nextpid s) \<and> (\<forall>j. j \<noteq> p \<longrightarrow> procs s' j = procs s j) \<and>
    pid (procs s' p) = nextpid s \<and> state (procs s' p) = RUNNABLE \<and>
    parent (procs s' p) = Some cur \<and> tf (procs s' p) = (tf (procs s cur))\<lparr>tf_eax := 0\<rparr> \<and>
    timeslice (procs s' p) = slice_of L0 \<and> level_list L0 s' = level_list L0 s @ [p] \<and>
    (\<forall>lv. lv \<noteq> L0 \<longrightarrow> level_list lv s' = level_list lv s)"
proof -
  have "\<forall>j<64. pid (procs s j) \<noteq> nextpid s"
    using assms(1) unfolding mlfq_inv_def pids_ok_def by auto
  with fork_success [OF assms, of k d] show ?thesis
    by (auto simp: slice_of_def)
qed

theorem fork_child_witness:
  "\<exists>s'. fork (Some 3) (Some 4) 0 (one_running L0 2 0) = Inr (2, s') \<and> level_list L0 s' = [0, 1]"
  using fork_child [OF one_running_inv [of L0 2 0], of 0 0 1 3 4]
  by (auto simp: find_proc_def upt_conv_Cons)

section \<open>Where the scheduler fails\<close>

text \<open>
  C12: when the copy of the address space fails, \<open>fork\<close> frees the stack of the new entry and marks
  it unused, but leaves it in the queue of \<open>L0\<close>: the queues no longer hold exactly the processes
  in use.
\<close>

theorem fork_failed_copy_leaks:
  assumes "mlfq_inv s" and "cpu_proc s c = Some cur"
    and "find_proc (\<lambda>r. state r = UNUSED) s = Some p"
  shows "\<exists>s'. fork (Some k) None c s = Inr (-1, s') \<and> state (procs s' p) = UNUSED \<and>
    level_list L0 s' = level_list L0 s @ [p] \<and> \<not> mlfq_inv s'"
proof -
  obtain q where q: "allocproc (Some k) s =
      Inr (Some p, (upd_proc p (fresh_proc k (nextpid s)) s)\<lparr>nextpid := nextpid s + 1, QL0 := q\<rparr>)"
    "qrep q (level_list L0 s @ [p])" "p < 64"
    using allocproc_success [OF assms(1,3)] by blast
  define s' where "s' = upd_proc p (\<lambda>r. r\<lparr>pgdir := None, kstack := None, state := UNUSED\<rparr>)
    ((upd_proc p (fresh_proc k (nextpid s)) s)\<lparr>nextpid := nextpid s + 1, QL0 := q\<rparr>)"
  have f: "fork (Some k) None c s = Inr (-1, s')"
    using assms(2) q(1) by (simp add: fork_def myproc_def s'_def)
  have "queue_of L0 s' = q" by (simp add: s'_def queue_of.simps del: queue_fold)
  then have l: "level_list L0 s' = level_list L0 s @ [p]" using qrep_qlist [OF q(2)] by simp
  have u: "state (procs s' p) = UNUSED" by (simp add: s'_def)
  have "\<not> queues_ok s'"
    using queues_okD(3) [of s' p L0] l u by (auto simp: live_def)
  with f l u show ?thesis by (auto simp: mlfq_inv_def)
qed

theorem fork_failed_copy_leaks_witness:
  "\<exists>s'. fork (Some 3) None 0 (one_running L0 2 0) = Inr (-1, s') \<and> \<not> mlfq_inv s'"
  using fork_failed_copy_leaks [OF one_running_inv [of L0 2 0], of 0 0 1 3]
  by (auto simp: find_proc_def upt_conv_Cons)

end
