(* ===== verification/Mutex.thy ===== *)
theory Mutex
  imports Prelude
begin

text \<open>
  The test program of \<open>Project3_Locking\<close>: the threads of \<open>thread_func\<close>, each of which takes the
  lock, adds to a shared counter in a loop and releases the lock. The lock is an interface: a
  protocol whose steps interleave with those of the other threads and that never lets two threads
  inside. The client proofs, that no increment is lost, are done once over the interface.
\<close>

section \<open>The threads\<close>

text \<open>
  Where a thread is in \<open>thread_func\<close>: in \<open>lock\<close>, in the loop with its counter, in the loop between
  the read and the write of \<open>shared_resource++\<close>, or past \<open>unlock\<close>.
\<close>

datatype phase = Locking | Crit nat | Loaded nat int | Done

record 'l program =
  lockst :: 'l
  shared_resource :: int
  phase :: "nat \<Rightarrow> phase"

text \<open>
  A step of thread \<open>t\<close>, for a lock given by the steps of \<open>lock\<close> and \<open>unlock\<close> and a test that the
  former has returned.
\<close>

inductive thread_step :: "('l \<Rightarrow> nat \<Rightarrow> bool) \<Rightarrow> (nat \<Rightarrow> 'l \<Rightarrow> 'l \<Rightarrow> bool) \<Rightarrow> (nat \<Rightarrow> 'l \<Rightarrow> 'l \<Rightarrow> bool) \<Rightarrow>
    nat \<Rightarrow> nat \<Rightarrow> 'l program \<Rightarrow> 'l program \<Rightarrow> bool"
  for inside :: "'l \<Rightarrow> nat \<Rightarrow> bool" and acq rel :: "nat \<Rightarrow> 'l \<Rightarrow> 'l \<Rightarrow> bool" and iters :: nat where
  locking: "phase s t = Locking \<Longrightarrow> acq t (lockst s) l \<Longrightarrow>
    thread_step inside acq rel iters t s
      (s\<lparr>lockst := l, phase := (phase s)(t := if inside l t then Crit 0 else Locking)\<rparr>)"
| load: "phase s t = Crit i \<Longrightarrow> i < iters \<Longrightarrow>
    thread_step inside acq rel iters t s (s\<lparr>phase := (phase s)(t := Loaded i (shared_resource s))\<rparr>)"
| store: "phase s t = Loaded i r \<Longrightarrow>
    thread_step inside acq rel iters t s
      (s\<lparr>shared_resource := r + 1, phase := (phase s)(t := Crit (Suc i))\<rparr>)"
| leave: "phase s t = Crit i \<Longrightarrow> \<not> i < iters \<Longrightarrow> rel t (lockst s) l \<Longrightarrow>
    thread_step inside acq rel iters t s (s\<lparr>lockst := l, phase := (phase s)(t := Done)\<rparr>)"

inductive_cases thread_stepE: "thread_step inside acq rel iters t s s'"

text \<open>A run of the threads \<open>T\<close> that \<open>main\<close> has created.\<close>

inductive run :: "('l \<Rightarrow> nat \<Rightarrow> bool) \<Rightarrow> (nat \<Rightarrow> 'l \<Rightarrow> 'l \<Rightarrow> bool) \<Rightarrow> (nat \<Rightarrow> 'l \<Rightarrow> 'l \<Rightarrow> bool) \<Rightarrow>
    nat \<Rightarrow> nat set \<Rightarrow> 'l \<Rightarrow> 'l program \<Rightarrow> bool"
  for inside :: "'l \<Rightarrow> nat \<Rightarrow> bool" and acq rel :: "nat \<Rightarrow> 'l \<Rightarrow> 'l \<Rightarrow> bool" and iters :: nat
    and T :: "nat set" and l0 :: 'l where
  start: "run inside acq rel iters T l0 \<lparr>lockst = l0, shared_resource = 0, phase = (\<lambda>_. Locking)\<rparr>"
| step: "run inside acq rel iters T l0 s \<Longrightarrow> t \<in> T \<Longrightarrow> thread_step inside acq rel iters t s s' \<Longrightarrow>
    run inside acq rel iters T l0 s'"

text \<open>What a thread has added to the counter so far, and whether it is between lock and unlock.\<close>

fun added :: "nat \<Rightarrow> phase \<Rightarrow> nat" where
  "added n Locking = 0"
| "added n (Crit i) = i"
| "added n (Loaded i r) = i"
| "added n Done = n"

fun critical :: "phase \<Rightarrow> bool" where
  "critical (Crit i) = True"
| "critical (Loaded i r) = True"
| "critical _ = False"

section \<open>The interface of a lock\<close>

locale mutex =
  fixes inside :: "'l \<Rightarrow> nat \<Rightarrow> bool"
    and acq rel :: "nat \<Rightarrow> 'l \<Rightarrow> 'l \<Rightarrow> bool"
    and ok :: "'l \<Rightarrow> bool"
    and l0 :: 'l
    and T :: "nat set"
  assumes init: "ok l0" "\<not> inside l0 t"
    and acq_ok: "t \<in> T \<Longrightarrow> ok l \<Longrightarrow> acq t l l' \<Longrightarrow> \<not> inside l t \<Longrightarrow> ok l'"
    and acq_other: "t \<in> T \<Longrightarrow> acq t l l' \<Longrightarrow> u \<noteq> t \<Longrightarrow> inside l' u = inside l u"
    and rel_ok: "t \<in> T \<Longrightarrow> ok l \<Longrightarrow> rel t l l' \<Longrightarrow> inside l t \<Longrightarrow> ok l'"
    and rel_inside: "t \<in> T \<Longrightarrow> rel t l l' \<Longrightarrow> inside l' u = (u \<noteq> t \<and> inside l u)"
    and exclusion: "ok l \<Longrightarrow> inside l t \<Longrightarrow> inside l u \<Longrightarrow> t = u"
    and finite_T: "finite T"
begin

definition client_inv :: "nat \<Rightarrow> 'l program \<Rightarrow> bool" where
  "client_inv iters s \<longleftrightarrow> ok (lockst s) \<and>
     (\<forall>t. inside (lockst s) t \<longleftrightarrow> critical (phase s t)) \<and>
     shared_resource s = (\<Sum>t\<in>T. int (added iters (phase s t))) \<and>
     (\<forall>t i r. phase s t = Loaded i r \<longrightarrow> r = shared_resource s) \<and>
     (\<forall>t i. phase s t = Crit i \<longrightarrow> i \<le> iters) \<and> (\<forall>t i r. phase s t = Loaded i r \<longrightarrow> i < iters)"

lemma client_invD:
  assumes "client_inv iters s"
  shows "ok (lockst s)" and "inside (lockst s) t = critical (phase s t)"
    and "shared_resource s = (\<Sum>t\<in>T. int (added iters (phase s t)))"
    and "phase s t = Loaded i r \<Longrightarrow> r = shared_resource s"
    and "phase s t = Crit i \<Longrightarrow> i \<le> iters" and "phase s t = Loaded i r \<Longrightarrow> i < iters"
  using assms unfolding client_inv_def by blast+

lemma client_invI:
  assumes "ok (lockst s)" and "\<And>t. inside (lockst s) t = critical (phase s t)"
    and "shared_resource s = (\<Sum>t\<in>T. int (added iters (phase s t)))"
    and "\<And>t i r. phase s t = Loaded i r \<Longrightarrow> r = shared_resource s \<and> i < iters"
    and "\<And>t i. phase s t = Crit i \<Longrightarrow> i \<le> iters"
  shows "client_inv iters s"
  using assms unfolding client_inv_def by blast

lemma sum_phase_upd:
  assumes "t \<in> T"
  shows "(\<Sum>u\<in>T. int (added n (((phase s)(t := ph)) u))) =
    (\<Sum>u\<in>T. int (added n (phase s u))) - int (added n (phase s t)) + int (added n ph)"
  using finite_T assms by (simp add: sum.remove)

lemma sole:
  assumes "client_inv iters s" and "critical (phase s t)" and "critical (phase s u)"
  shows "t = u"
proof -
  have "ok (lockst s)" "inside (lockst s) t" "inside (lockst s) u"
    using assms by (simp_all add: client_inv_def)
  then show ?thesis by (rule exclusion)
qed

lemma step_client_inv:
  assumes st: "thread_step inside acq rel iters t s s'" and T: "t \<in> T" and inv: "client_inv iters s"
  shows "client_inv iters s'"
  using st
proof (cases rule: thread_step.cases)
  case (locking l)
  have n: "\<not> inside (lockst s) t" using client_invD(2) [OF inv, of t] locking(2) by simp
  show ?thesis
  proof (rule client_invI)
    show "ok (lockst s')" using acq_ok [OF T client_invD(1) [OF inv] locking(3) n] locking(1) by simp
    show "inside (lockst s') u = critical (phase s' u)" for u
      using locking(1) acq_other [OF T locking(3), of u] client_invD(2) [OF inv, of u] by simp
    show "shared_resource s' = (\<Sum>u\<in>T. int (added iters (phase s' u)))"
      unfolding locking(1) using client_invD(3) [OF inv] locking(2)
        sum_phase_upd [OF T, of iters s "if inside l t then Crit 0 else Locking"] by simp
  qed (use locking(1) client_invD(4-6) [OF inv] in \<open>auto split: if_splits\<close>)
next
  case (load i)
  show ?thesis
  proof (rule client_invI)
    show "inside (lockst s') u = critical (phase s' u)" for u
      using load client_invD(2) [OF inv, of u] client_invD(2) [OF inv, of t] by simp
    show "shared_resource s' = (\<Sum>u\<in>T. int (added iters (phase s' u)))"
      unfolding load(1) using client_invD(3) [OF inv] load(2)
        sum_phase_upd [OF T, of iters s "Loaded i (shared_resource s)"] by simp
  qed (use load client_invD(1,4-6) [OF inv] in \<open>auto split: if_splits\<close>)
next
  case (store i r)
  note r = client_invD(4,6) [OF inv store(2)]
  have others: "\<not> critical (phase s u)" if "u \<noteq> t" for u
    using sole [OF inv, of t u] store(2) that by auto
  show ?thesis
  proof (rule client_invI)
    show "inside (lockst s') u = critical (phase s' u)" for u
      using store client_invD(2) [OF inv, of u] client_invD(2) [OF inv, of t] by simp
    show "shared_resource s' = (\<Sum>u\<in>T. int (added iters (phase s' u)))"
      unfolding store(1) using client_invD(3) [OF inv] store(2) r(1)
        sum_phase_upd [OF T, of iters s "Crit (Suc i)"] by simp
    show "r' = shared_resource s' \<and> i' < iters" if "phase s' u = Loaded i' r'" for u i' r'
      using that others [of u] store(1) by (auto split: if_splits)
  qed (use store r client_invD(1,5) [OF inv] in \<open>auto split: if_splits\<close>)
next
  case (leave i l)
  have i: "i = iters" using client_invD(5) [OF inv leave(2)] leave(3) by simp
  have n: "inside (lockst s) t" using client_invD(2) [OF inv, of t] leave(2) by simp
  show ?thesis
  proof (rule client_invI)
    show "ok (lockst s')" using rel_ok [OF T client_invD(1) [OF inv] leave(4) n] leave(1) by simp
    show "inside (lockst s') u = critical (phase s' u)" for u
      using leave(1) rel_inside [OF T leave(4), of u] client_invD(2) [OF inv, of u] by simp
    show "shared_resource s' = (\<Sum>u\<in>T. int (added iters (phase s' u)))"
      unfolding leave(1) using client_invD(3) [OF inv] leave(2) i
        sum_phase_upd [OF T, of iters s Done] by simp
  qed (use leave(1) client_invD(4-6) [OF inv] in \<open>auto split: if_splits\<close>)
qed

lemma run_client_inv: "run inside acq rel iters T l0 s \<Longrightarrow> client_inv iters s"
proof (induction rule: run.induct)
  case start
  then show ?case using init by (simp add: client_inv_def)
next
  case (step s t s')
  then show ?case using step_client_inv by blast
qed

text \<open>No two threads are between \<open>lock\<close> and \<open>unlock\<close>, and no increment is lost.\<close>

lemma run_exclusion:
  "run inside acq rel iters T l0 s \<Longrightarrow> critical (phase s t) \<Longrightarrow> critical (phase s u) \<Longrightarrow> t = u"
  using sole run_client_inv by blast

lemma run_total:
  assumes "run inside acq rel iters T l0 s" and "\<And>t. t \<in> T \<Longrightarrow> phase s t = Done"
  shows "shared_resource s = int (card T * iters)"
proof -
  have "shared_resource s = (\<Sum>t\<in>T. int (added iters (phase s t)))"
    using run_client_inv [OF assms(1)] by (simp add: client_inv_def)
  also have "\<dots> = (\<Sum>t\<in>T. int iters)" using assms(2) by (intro sum.cong) auto
  finally show ?thesis by simp
qed

end

section \<open>The test-and-set lock\<close>

text \<open>
  \<open>pthread_lock_linux_atomic.c\<close>: one round of the loop of \<open>lock\<close> is the atomic exchange, which
  writes 1 and returns the old value; the loop ends when that was 0. The state holds the word \<open>lk\<close>
  and which threads have left their loop.
\<close>

record taslock =
  lk :: int
  holding :: "nat \<Rightarrow> bool"

definition sync_lock_test_and_set :: "int \<Rightarrow> taslock \<Rightarrow> int \<times> taslock" where
  "sync_lock_test_and_set v l = (lk l, l\<lparr>lk := v\<rparr>)"

definition tas_lock :: "nat \<Rightarrow> taslock \<Rightarrow> taslock" where
  "tas_lock t l = (let (old, l1) = sync_lock_test_and_set 1 l
                   in if old \<noteq> 0 then l1 else l1\<lparr>holding := (holding l1)(t := True)\<rparr>)"

definition tas_unlock :: "nat \<Rightarrow> taslock \<Rightarrow> taslock" where
  "tas_unlock t l = l\<lparr>lk := 0, holding := (holding l)(t := False)\<rparr>"

definition tas_init :: taslock where
  "tas_init = \<lparr>lk = 0, holding = (\<lambda>_. False)\<rparr>"

definition tas_ok :: "taslock \<Rightarrow> bool" where
  "tas_ok l \<longleftrightarrow> (if lk l = 0 then \<forall>t. \<not> holding l t else lk l = 1 \<and> (\<exists>!t. holding l t))"

abbreviation tas_acq :: "nat \<Rightarrow> taslock \<Rightarrow> taslock \<Rightarrow> bool" where
  "tas_acq t l l' \<equiv> l' = tas_lock t l"

abbreviation tas_rel :: "nat \<Rightarrow> taslock \<Rightarrow> taslock \<Rightarrow> bool" where
  "tas_rel t l l' \<equiv> l' = tas_unlock t l"

interpretation tas: mutex holding tas_acq tas_rel tas_ok tas_init "{0..<10}"
proof unfold_locales
  show "tas_ok l'" if "tas_ok l" "l' = tas_lock t l" "\<not> holding l t" for t l l'
    using that by (auto simp: tas_ok_def tas_lock_def sync_lock_test_and_set_def split: if_splits)
  show "tas_ok l'" if "tas_ok l" "l' = tas_unlock t l" "holding l t" for t l l'
    using that by (auto simp: tas_ok_def tas_unlock_def split: if_splits)
  show "t = u" if "tas_ok l" "holding l t" "holding l u" for l t u
    using that by (auto simp: tas_ok_def split: if_splits)
qed (auto simp: tas_ok_def tas_init_def tas_lock_def tas_unlock_def sync_lock_test_and_set_def)

text \<open>The lock never blocks for good: with no thread inside, the next round of any thread gets it.\<close>

lemma tas_progress:
  assumes "tas_ok l" and "\<And>u. \<not> holding l u"
  shows "holding (tas_lock t l) t"
  using assms by (auto simp: tas_ok_def tas_lock_def sync_lock_test_and_set_def split: if_splits)

end
