(* ===== verification/FilterLock.thy ===== *)
theory FilterLock
  imports Mutex
begin

text \<open>
  The software lock of \<open>pthread_lock_linux_patterson.c\<close>, Peterson's algorithm for \<open>N\<close> threads:
  a thread passes \<open>N\<close> levels, at each of which it may stay behind as the last one to arrive. Each
  step is one access to \<open>Flag\<close> or \<open>Turn\<close>, so the scan over the other threads is not atomic. The
  invariant says which threads have arrived at a level and why the last one waits.
\<close>

section \<open>The code\<close>

text \<open>
  The position of a thread in \<open>lock\<close>, with its local variables: before the write of \<open>Flag\<close> or of
  \<open>Turn\<close> at level \<open>i\<close>, before the test of \<open>Turn\<close>, in the scan at thread \<open>j\<close> with the value of
  \<open>gobreak\<close>, returned from \<open>lock\<close>, or outside of it.
\<close>

datatype position = Outside | SetFlag nat | SetTurn nat | TestTurn nat | Scan nat nat bool | Inside

record filter_lock =
  Flag :: "nat \<Rightarrow> nat"
  Turn :: "nat \<Rightarrow> nat"
  pos :: "nat \<Rightarrow> position"

definition filter_init :: filter_lock where
  "filter_init = \<lparr>Flag = (\<lambda>_. 0), Turn = (\<lambda>_. 0), pos = (\<lambda>_. Outside)\<rparr>"

text \<open>The end of the loop body at level \<open>i\<close>: the next level, or the return from \<open>lock\<close>.\<close>

definition next_pos :: "nat \<Rightarrow> nat \<Rightarrow> position" where
  "next_pos n i = (if Suc i \<le> n then SetFlag (Suc i) else Inside)"

text \<open>
  One step of \<open>lock\<close> by the thread with index \<open>idx\<close>, 1 to \<open>n\<close>; the arrays are indexed from 0 as
  in the code.
\<close>

definition filter_step :: "nat \<Rightarrow> nat \<Rightarrow> filter_lock \<Rightarrow> filter_lock" where
  "filter_step n idx s =
     (case pos s idx of
        Outside \<Rightarrow> s\<lparr>pos := (pos s)(idx := SetFlag 1)\<rparr>
      | SetFlag i \<Rightarrow> s\<lparr>Flag := (Flag s)(idx - 1 := i), pos := (pos s)(idx := SetTurn i)\<rparr>
      | SetTurn i \<Rightarrow> s\<lparr>Turn := (Turn s)(i - 1 := idx), pos := (pos s)(idx := TestTurn i)\<rparr>
      | TestTurn i \<Rightarrow> s\<lparr>pos := (pos s)(idx :=
          if Turn s (i - 1) \<noteq> idx then next_pos n i else Scan i 1 True)\<rparr>
      | Scan i j gobreak \<Rightarrow> s\<lparr>pos := (pos s)(idx :=
          if j \<le> n
          then if j = idx then Scan i (Suc j) gobreak
               else Scan i (Suc j) (if Flag s (j - 1) \<ge> i then False else gobreak)
          else if gobreak then next_pos n i else TestTurn i)\<rparr>
      | Inside \<Rightarrow> s)"

definition filter_unlock :: "nat \<Rightarrow> filter_lock \<Rightarrow> filter_lock" where
  "filter_unlock idx s = s\<lparr>Flag := (Flag s)(idx - 1 := 0), pos := (pos s)(idx := Outside)\<rparr>"

text \<open>
  \<open>searchidx\<close>: the index of a thread is one more than its place in the array \<open>threads\<close>; it ends the
  program when the thread is not there.
\<close>

fun searchidx_from :: "nat \<Rightarrow> 'tid list \<Rightarrow> 'tid \<Rightarrow> nat option" where
  "searchidx_from i [] tid = None"
| "searchidx_from i (t # ts) tid = (if t = tid then Some (i + 1) else searchidx_from (i + 1) ts tid)"

definition searchidx :: "'tid list \<Rightarrow> 'tid \<Rightarrow> nat option" where
  "searchidx threads tid = searchidx_from 0 threads tid"

section \<open>The invariant\<close>

text \<open>The level of a position: what the thread has written to its \<open>Flag\<close>.\<close>

fun flag_at :: "nat \<Rightarrow> position \<Rightarrow> nat" where
  "flag_at n Outside = 0"
| "flag_at n (SetFlag i) = i - 1"
| "flag_at n (SetTurn i) = i"
| "flag_at n (TestTurn i) = i"
| "flag_at n (Scan i j g) = i"
| "flag_at n Inside = n"

text \<open>The thread has written \<open>Turn\<close> at level \<open>i\<close>; it has passed level \<open>i\<close>.\<close>

fun arrived :: "nat \<Rightarrow> position \<Rightarrow> bool" where
  "arrived i Outside = False"
| "arrived i (SetFlag k) = (i < k)"
| "arrived i (SetTurn k) = (i < k)"
| "arrived i (TestTurn k) = (i \<le> k)"
| "arrived i (Scan k j g) = (i \<le> k)"
| "arrived i Inside = True"

fun passed :: "nat \<Rightarrow> position \<Rightarrow> bool" where
  "passed i Outside = False"
| "passed i (SetFlag k) = (i < k)"
| "passed i (SetTurn k) = (i < k)"
| "passed i (TestTurn k) = (i < k)"
| "passed i (Scan k j g) = (i < k)"
| "passed i Inside = True"

text \<open>The level of a position is one of the \<open>n\<close> levels.\<close>

fun pos_ok :: "nat \<Rightarrow> position \<Rightarrow> bool" where
  "pos_ok n (SetFlag i) = (1 \<le> i \<and> i \<le> n)"
| "pos_ok n (SetTurn i) = (1 \<le> i \<and> i \<le> n)"
| "pos_ok n (TestTurn i) = (1 \<le> i \<and> i \<le> n)"
| "pos_ok n (Scan i j g) = (1 \<le> i \<and> i \<le> n \<and> 1 \<le> j)"
| "pos_ok n _ = True"

definition waiters :: "nat \<Rightarrow> nat \<Rightarrow> filter_lock \<Rightarrow> nat set" where
  "waiters n i s = {p\<in>{1..n}. arrived i (pos s p)}"

definition passers :: "nat \<Rightarrow> nat \<Rightarrow> filter_lock \<Rightarrow> nat set" where
  "passers n i s = {p\<in>{1..n}. passed i (pos s p)}"

definition filter_ok :: "nat \<Rightarrow> filter_lock \<Rightarrow> bool" where
  "filter_ok n s \<longleftrightarrow>
     (\<forall>p\<in>{1..n}. pos_ok n (pos s p) \<and> Flag s (p - 1) = flag_at n (pos s p)) \<and>
     (\<forall>p. p \<notin> {1..n} \<longrightarrow> pos s p = Outside) \<and>
     (\<forall>i\<in>{1..n}. waiters n i s \<noteq> {} \<longrightarrow> Turn s (i - 1) \<in> waiters n i s) \<and>
     (\<forall>i\<in>{1..n}. Turn s (i - 1) \<in> passers n i s \<longrightarrow> waiters n i s = {Turn s (i - 1)}) \<and>
     (\<forall>p\<in>{1..n}. \<forall>i j. pos s p = Scan i j True \<longrightarrow> Turn s (i - 1) = p \<longrightarrow>
        (\<forall>q\<in>waiters n i s. q \<noteq> p \<longrightarrow> j \<le> q))"

lemma filter_okD:
  assumes "filter_ok n s"
  shows "p \<in> {1..n} \<Longrightarrow> pos_ok n (pos s p)"
    and "p \<in> {1..n} \<Longrightarrow> Flag s (p - 1) = flag_at n (pos s p)"
    and "p \<notin> {1..n} \<Longrightarrow> pos s p = Outside"
    and "i \<in> {1..n} \<Longrightarrow> q \<in> waiters n i s \<Longrightarrow> Turn s (i - 1) \<in> waiters n i s"
    and "i \<in> {1..n} \<Longrightarrow> Turn s (i - 1) \<in> passers n i s \<Longrightarrow> waiters n i s = {Turn s (i - 1)}"
    and "pos s p = Scan i j True \<Longrightarrow> p \<in> {1..n} \<Longrightarrow> Turn s (i - 1) = p \<Longrightarrow>
      q \<in> waiters n i s \<Longrightarrow> q \<noteq> p \<Longrightarrow> j \<le> q"
  using assms unfolding filter_ok_def by blast+

lemma filter_okI:
  assumes "\<And>p. p \<in> {1..n} \<Longrightarrow> pos_ok n (pos s p)"
    and "\<And>p. p \<in> {1..n} \<Longrightarrow> Flag s (p - 1) = flag_at n (pos s p)"
    and "\<And>p. p \<notin> {1..n} \<Longrightarrow> pos s p = Outside"
    and "\<And>i q. i \<in> {1..n} \<Longrightarrow> q \<in> waiters n i s \<Longrightarrow> Turn s (i - 1) \<in> waiters n i s"
    and "\<And>i. i \<in> {1..n} \<Longrightarrow> Turn s (i - 1) \<in> passers n i s \<Longrightarrow> waiters n i s = {Turn s (i - 1)}"
    and "\<And>p i j q. pos s p = Scan i j True \<Longrightarrow> p \<in> {1..n} \<Longrightarrow> Turn s (i - 1) = p \<Longrightarrow>
      q \<in> waiters n i s \<Longrightarrow> q \<noteq> p \<Longrightarrow> j \<le> q"
  shows "filter_ok n s"
  unfolding filter_ok_def using assms by blast

lemma passers_waiters: "passed i p \<Longrightarrow> arrived i p"
  by (cases p) auto

lemma arrived_flag: "arrived i p \<Longrightarrow> pos_ok n p \<Longrightarrow> i \<le> n \<Longrightarrow> i \<le> flag_at n p"
  by (cases p) auto

lemma next_arrived_passed: "pos_ok n p \<Longrightarrow> arrived (Suc i) p \<Longrightarrow> passed i p"
  by (cases p) auto

text \<open>
  A thread moves and writes no \<open>Turn\<close>, without arriving at a level: the clauses survive if it
  passes only levels of which it is not the last, or at which no other thread waits.
\<close>

lemma filter_ok_move:
  assumes ok: "filter_ok n s" and t: "t \<in> {1..n}"
    and s': "pos s' = (pos s)(t := ps)" "Turn s' = Turn s"
      "\<And>p. p \<noteq> t \<Longrightarrow> p \<in> {1..n} \<Longrightarrow> Flag s' (p - 1) = Flag s (p - 1)" "Flag s' (t - 1) = flag_at n ps"
    and ps: "pos_ok n ps" "\<And>i. 1 \<le> i \<Longrightarrow> i \<le> n \<Longrightarrow> arrived i ps = arrived i (pos s t)"
      "\<And>i. 1 \<le> i \<Longrightarrow> i \<le> n \<Longrightarrow> passed i ps \<Longrightarrow> \<not> passed i (pos s t) \<Longrightarrow> Turn s (i - 1) = t \<Longrightarrow> waiters n i s = {t}"
    and sc: "\<And>i j q. ps = Scan i j True \<Longrightarrow> Turn s (i - 1) = t \<Longrightarrow> q \<in> waiters n i s \<Longrightarrow> q \<noteq> t \<Longrightarrow> j \<le> q"
  shows "filter_ok n s'"
proof -
  have w: "waiters n i s' = waiters n i s" if "i \<in> {1..n}" for i
    using that ps(2) [of i] by (auto simp: waiters_def s'(1))
  show ?thesis
  proof (rule filter_okI)
    show "pos_ok n (pos s' p)" if "p \<in> {1..n}" for p
      using that ps(1) filter_okD(1) [OF ok] by (simp add: s'(1))
    show "Flag s' (p - 1) = flag_at n (pos s' p)" if "p \<in> {1..n}" for p
      using that s'(3) [of p] s'(4) filter_okD(2) [OF ok that] by (cases "p = t") (simp_all add: s'(1))
    show "pos s' p = Outside" if "p \<notin> {1..n}" for p
      using that t filter_okD(3) [OF ok, of p] by (auto simp: s'(1))
    show "Turn s' (i - 1) \<in> waiters n i s'" if "i \<in> {1..n}" "q \<in> waiters n i s'" for i q
      using filter_okD(4) [OF ok that(1)] that(2) unfolding w [OF that(1)] s'(2) .
    show "waiters n i s' = {Turn s' (i - 1)}" if i: "i \<in> {1..n}" "Turn s' (i - 1) \<in> passers n i s'" for i
    proof (cases "Turn s (i - 1) \<in> passers n i s")
      case True
      from filter_okD(5) [OF ok i(1) True] show ?thesis unfolding w [OF i(1)] s'(2) .
    next
      case False
      then have "Turn s (i - 1) = t" "passed i ps" "\<not> passed i (pos s t)"
        using i(2) by (auto simp: passers_def s' split: if_splits)
      with ps(3) [of i] i(1) show ?thesis unfolding w [OF i(1)] s'(2) by simp
    qed
    show "j \<le> q" if p: "pos s' p = Scan i j True" "p \<in> {1..n}" "Turn s' (i - 1) = p"
      "q \<in> waiters n i s'" "q \<noteq> p" for p i j q
    proof -
      have "pos_ok n (pos s' p)"
        using p(2) ps(1) filter_okD(1) [OF ok] by (simp add: s'(1))
      then have i: "i \<in> {1..n}" using p(1) by simp
      show ?thesis
        using p sc [of i j q] filter_okD(6) [OF ok, of p i j q] unfolding w [OF i] s'(2)
        by (cases "p = t") (simp_all add: s'(1))
    qed
  qed
qed

text \<open>The write of \<open>Turn\<close>: the thread arrives at level \<open>i\<close> as the last one.\<close>

lemma filter_ok_turn:
  assumes ok: "filter_ok n s" and t: "t \<in> {1..n}" and at: "pos s t = SetTurn i"
  shows "filter_ok n (s\<lparr>Turn := (Turn s)(i - 1 := t), pos := (pos s)(t := TestTurn i)\<rparr>)"
proof -
  define s' where "s' = s\<lparr>Turn := (Turn s)(i - 1 := t), pos := (pos s)(t := TestTurn i)\<rparr>"
  have sel: "pos s' = (pos s)(t := TestTurn i)" "Turn s' = (Turn s)(i - 1 := t)" "Flag s' = Flag s"
    by (simp_all add: s'_def)
  have i: "1 \<le> i" "i \<le> n" using filter_okD(1) [OF ok t] at by auto
  have ix: "k - 1 = i - 1 \<longleftrightarrow> k = i" if "1 \<le> k" for k using that i by auto
  have w: "waiters n k s' = (if k = i then insert t (waiters n i s) else waiters n k s)" for k
    using t at by (auto simp: waiters_def sel)
  have ps: "passers n k s' = passers n k s" for k
    using at by (auto simp: passers_def sel)
  have np: "t \<notin> passers n i s" using at by (auto simp: passers_def)
  have "filter_ok n s'"
  proof (rule filter_okI)
    show "pos_ok n (pos s' p)" if "p \<in> {1..n}" for p
      using that i filter_okD(1) [OF ok that] by (simp add: sel)
    show "Flag s' (p - 1) = flag_at n (pos s' p)" if "p \<in> {1..n}" for p
      using at filter_okD(2) [OF ok that] by (simp add: sel)
    show "pos s' p = Outside" if "p \<notin> {1..n}" for p
      using that t filter_okD(3) [OF ok, of p] by (auto simp: sel)
    show "Turn s' (k - 1) \<in> waiters n k s'" if "k \<in> {1..n}" "q \<in> waiters n k s'" for k q
      using that filter_okD(4) [OF ok that(1), of q] ix [of k] by (auto simp: w sel)
    show "waiters n k s' = {Turn s' (k - 1)}" if k: "k \<in> {1..n}" "Turn s' (k - 1) \<in> passers n k s'" for k
    proof (cases "k = i")
      case True
      with k np show ?thesis by (simp add: ps sel)
    next
      case False
      with k ix [of k] filter_okD(5) [OF ok k(1)] show ?thesis by (simp add: ps w sel)
    qed
    show "j \<le> q" if p: "pos s' p = Scan k j True" "p \<in> {1..n}" "Turn s' (k - 1) = p"
      "q \<in> waiters n k s'" "q \<noteq> p" for p k j q
    proof -
      have pt: "p \<noteq> t" "pos s p = Scan k j True" using p(1) by (auto simp: sel split: if_splits)
      then have k: "1 \<le> k" using filter_okD(1) [OF ok p(2)] by simp
      show ?thesis
        using p pt ix [OF k] filter_okD(6) [OF ok pt(2) p(2), of q] by (auto simp: w sel split: if_splits)
    qed
  qed
  then show ?thesis by (simp add: s'_def)
qed

lemma next_pos_facts:
  assumes "1 \<le> i" and "i \<le> n"
  shows "pos_ok n (next_pos n i)" "flag_at n (next_pos n i) = i"
    "1 \<le> k \<Longrightarrow> k \<le> n \<Longrightarrow> arrived k (next_pos n i) = (k \<le> i)"
    "1 \<le> k \<Longrightarrow> k \<le> n \<Longrightarrow> passed k (next_pos n i) = (k \<le> i)"
    "next_pos n i \<noteq> Scan k j g"
  using assms by (auto simp: next_pos_def)

lemma filter_step_ok:
  assumes ok: "filter_ok n s" and t: "t \<in> {1..n}"
  shows "filter_ok n (filter_step n t s)"
proof (cases "pos s t")
  case Outside
  show ?thesis
    by (rule filter_ok_move [OF ok t, of _ "SetFlag 1"])
      (use Outside t filter_okD(2) [OF ok t] in \<open>auto simp: filter_step_def\<close>)
next
  case (SetFlag i)
  have f: "Flag (filter_step n t s) (p - 1) = Flag s (p - 1)" if "p \<noteq> t" "p \<in> {1..n}" for p
    using that t SetFlag by (auto simp: filter_step_def)
  show ?thesis
    by (rule filter_ok_move [OF ok t, of _ "SetTurn i"])
      (use SetFlag f filter_okD(1) [OF ok t] in \<open>auto simp: filter_step_def\<close>)
next
  case (SetTurn i)
  with filter_ok_turn [OF ok t] show ?thesis by (simp add: filter_step_def)
next
  case (TestTurn i)
  have i: "1 \<le> i" "i \<le> n" "Flag s (t - 1) = i"
    using TestTurn filter_okD(1,2) [OF ok t] by auto
  show ?thesis
  proof (cases "Turn s (i - 1) = t")
    case False
    then have e: "filter_step n t s = s\<lparr>pos := (pos s)(t := next_pos n i)\<rparr>"
      using TestTurn by (simp add: filter_step_def)
    show ?thesis
      by (rule filter_ok_move [OF ok t, of _ "next_pos n i"])
        (use TestTurn i False next_pos_facts [OF i(1,2)] e in \<open>auto simp: le_less\<close>)
  next
    case True
    then have e: "filter_step n t s = s\<lparr>pos := (pos s)(t := Scan i 1 True)\<rparr>"
      using TestTurn by (simp add: filter_step_def)
    show ?thesis
      by (rule filter_ok_move [OF ok t, of _ "Scan i 1 True"])
        (use TestTurn i e in \<open>auto simp: waiters_def\<close>)
  qed
next
  case (Scan i j g)
  have i: "1 \<le> i" "i \<le> n" "Flag s (t - 1) = i" "1 \<le> j"
    using Scan filter_okD(1,2) [OF ok t] by auto
  have ge: "j \<le> q" if "g" "Turn s (i - 1) = t" "q \<in> waiters n i s" "q \<noteq> t" for q
    using filter_okD(6) [OF ok _ t that(2-4), of j] Scan that(1) by simp
  consider (own) "j \<le> n" "j = t" | (other) "j \<le> n" "j \<noteq> t" | (pass) "\<not> j \<le> n" g | (again) "\<not> j \<le> n" "\<not> g"
    by blast
  then show ?thesis
  proof cases
    case own
    then have e: "filter_step n t s = s\<lparr>pos := (pos s)(t := Scan i (Suc j) g)\<rparr>"
      using Scan by (simp add: filter_step_def)
    have sc: "Suc j \<le> q" if "g" "Turn s (i - 1) = t" "q \<in> waiters n i s" "q \<noteq> t" for q
      using ge [OF that] own(2) that(4) by simp
    show ?thesis
      by (rule filter_ok_move [OF ok t, of _ "Scan i (Suc j) g"]) (use Scan i e sc in auto)
  next
    case other
    let ?g = "if Flag s (j - 1) \<ge> i then False else g"
    have e: "filter_step n t s = s\<lparr>pos := (pos s)(t := Scan i (Suc j) ?g)\<rparr>"
      using Scan other by (simp add: filter_step_def)
    have sc: "Suc j \<le> q" if q: "?g" "Turn s (i - 1) = t" "q \<in> waiters n i s" "q \<noteq> t" for q
    proof -
      have "i \<le> Flag s (q - 1)"
        using q(3) arrived_flag [of i "pos s q" n] filter_okD(1,2) [OF ok, of q] i(2)
        by (auto simp: waiters_def)
      with q(1) have "q \<noteq> j" by (auto split: if_splits)
      moreover have "j \<le> q" using ge q by (auto split: if_splits)
      ultimately show ?thesis by simp
    qed
    show ?thesis
      by (rule filter_ok_move [OF ok t, of _ "Scan i (Suc j) ?g"])
        (use Scan i e sc in \<open>auto split: if_splits\<close>)
  next
    case pass
    then have e: "filter_step n t s = s\<lparr>pos := (pos s)(t := next_pos n i)\<rparr>"
      using Scan by (simp add: filter_step_def)
    have "waiters n i s = {t}" if "Turn s (i - 1) = t"
      using ge [OF pass(2) that] pass(1) Scan t by (force simp: waiters_def)
    then show ?thesis
      by (intro filter_ok_move [OF ok t, of _ "next_pos n i"])
        (use Scan i next_pos_facts [OF i(1,2)] e in \<open>auto simp: le_less\<close>)
  next
    case again
    then have e: "filter_step n t s = s\<lparr>pos := (pos s)(t := TestTurn i)\<rparr>"
      using Scan by (simp add: filter_step_def)
    show ?thesis
      by (rule filter_ok_move [OF ok t, of _ "TestTurn i"]) (use Scan i e in auto)
  qed
next
  case Inside
  with ok show ?thesis by (simp add: filter_step_def)
qed

lemma filter_unlock_ok:
  assumes ok: "filter_ok n s" and t: "t \<in> {1..n}" and at: "pos s t = Inside"
  shows "filter_ok n (filter_unlock t s)"
proof -
  let ?s = "filter_unlock t s"
  have w: "waiters n i ?s = waiters n i s - {t}" "passers n i ?s = passers n i s - {t}" for i
    by (auto simp: waiters_def passers_def filter_unlock_def)
  have p: "t \<in> passers n i s" for i using t at by (simp add: passers_def)
  have T: "Turn ?s = Turn s" by (simp add: filter_unlock_def)
  show ?thesis
  proof (rule filter_okI)
    show "pos_ok n (pos ?s p)" if "p \<in> {1..n}" for p
      using filter_okD(1) [OF ok that] by (simp add: filter_unlock_def)
    show "Flag ?s (p - 1) = flag_at n (pos ?s p)" if "p \<in> {1..n}" for p
      using filter_okD(2) [OF ok that] that t by (auto simp: filter_unlock_def)
    show "pos ?s p = Outside" if "p \<notin> {1..n}" for p
      using that filter_okD(3) [OF ok, of p] by (simp add: filter_unlock_def)
    show "Turn ?s (i - 1) \<in> waiters n i ?s" if i: "i \<in> {1..n}" "q \<in> waiters n i ?s" for i q
    proof -
      have "Turn s (i - 1) \<in> waiters n i s" using filter_okD(4) [OF ok i(1), of q] i(2) by (simp add: w)
      moreover have "Turn s (i - 1) \<noteq> t"
      proof
        assume "Turn s (i - 1) = t"
        then have "waiters n i s = {t}" using filter_okD(5) [OF ok i(1)] p by simp
        with i(2) show False by (simp add: w)
      qed
      ultimately show ?thesis by (simp add: w T)
    qed
    show "waiters n i ?s = {Turn ?s (i - 1)}" if i: "i \<in> {1..n}" "Turn ?s (i - 1) \<in> passers n i ?s" for i
    proof -
      have "waiters n i s = {Turn s (i - 1)}" "Turn s (i - 1) \<noteq> t"
        using filter_okD(5) [OF ok i(1)] i(2) by (simp_all add: w T)
      then show ?thesis by (simp add: w T)
    qed
    show "j \<le> q" if "pos ?s p = Scan i j True" "p \<in> {1..n}" "Turn ?s (i - 1) = p"
      "q \<in> waiters n i ?s" "q \<noteq> p" for p i j q
    proof -
      have "pos s p = Scan i j True" using that(1) by (auto simp: filter_unlock_def split: if_splits)
      from filter_okD(6) [OF ok this that(2)] that(3-5) show ?thesis by (simp add: w T)
    qed
  qed
qed

lemma filter_init_ok: "filter_ok n filter_init"
  by (simp add: filter_ok_def filter_init_def waiters_def passers_def)

section \<open>Mutual exclusion\<close>

text \<open>At most \<open>n - i\<close> threads pass level \<open>i\<close>, or one.\<close>

lemma finite_waiters: "finite (waiters n i s)" and finite_passers: "finite (passers n i s)"
  by (simp_all add: waiters_def passers_def)

lemma card_passers_waiters:
  assumes ok: "filter_ok n s" and i: "i \<in> {1..n}"
  shows "card (passers n i s) \<le> max 1 (card (waiters n i s) - 1)"
proof (cases "passers n i s = {}")
  case False
  have sub: "passers n i s \<subseteq> waiters n i s"
    using passers_waiters by (auto simp: passers_def waiters_def)
  then have t: "Turn s (i - 1) \<in> waiters n i s"
    using False filter_okD(4) [OF ok i] by blast
  show ?thesis
  proof (cases "Turn s (i - 1) \<in> passers n i s")
    case True
    then have "passers n i s \<subseteq> {Turn s (i - 1)}" using sub filter_okD(5) [OF ok i] by simp
    then have "card (passers n i s) \<le> 1" using card_mono [of "{Turn s (i - 1)}"] by simp
    then show ?thesis by simp
  next
    case np: False
    then have "passers n i s \<subseteq> waiters n i s - {Turn s (i - 1)}" using sub by auto
    then have "card (passers n i s) \<le> card (waiters n i s - {Turn s (i - 1)})"
      by (intro card_mono) (auto simp: finite_waiters)
    with t show ?thesis by (simp add: finite_waiters)
  qed
qed simp

lemma card_passers:
  assumes ok: "filter_ok n s" and "1 \<le> i" and "i \<le> n"
  shows "card (passers n i s) \<le> max 1 (n - i)"
  using assms(2,3)
proof (induction i rule: dec_induct)
  case base
  have "card (waiters n 1 s) \<le> card {1..n}" by (intro card_mono) (auto simp: waiters_def)
  with card_passers_waiters [OF ok, of 1] base show ?case by simp
next
  case (step i)
  have "waiters n (Suc i) s \<subseteq> passers n i s"
    using filter_okD(1) [OF ok] next_arrived_passed by (auto simp: waiters_def passers_def)
  then have "card (waiters n (Suc i) s) \<le> card (passers n i s)"
    by (intro card_mono finite_passers)
  with card_passers_waiters [OF ok, of "Suc i"] step show ?case by simp
qed

lemma filter_exclusion:
  assumes ok: "filter_ok n s" and "pos s p = Inside" and "pos s q = Inside"
  shows "p = q"
proof -
  have pq: "p \<in> {1..n}" "q \<in> {1..n}" using assms filter_okD(3) [OF ok] by fastforce+
  then have "1 \<le> n" by simp
  then have "card (passers n n s) \<le> 1" using card_passers [OF ok, of n] by simp
  moreover have "{p, q} \<subseteq> passers n n s" using pq assms by (simp add: passers_def)
  then have "card {p, q} \<le> card (passers n n s)" by (rule card_mono [OF finite_passers])
  ultimately have "card {p, q} \<le> 1" by (rule order_trans [rotated])
  then show ?thesis by (cases "p = q") auto
qed

section \<open>The threads over the filter lock\<close>

abbreviation filter_inside :: "filter_lock \<Rightarrow> nat \<Rightarrow> bool" where
  "filter_inside s p \<equiv> pos s p = Inside"

abbreviation filter_acq :: "nat \<Rightarrow> nat \<Rightarrow> filter_lock \<Rightarrow> filter_lock \<Rightarrow> bool" where
  "filter_acq n p s s' \<equiv> s' = filter_step n p s"

abbreviation filter_rel :: "nat \<Rightarrow> filter_lock \<Rightarrow> filter_lock \<Rightarrow> bool" where
  "filter_rel p s s' \<equiv> s' = filter_unlock p s"

lemma filter_step_other: "u \<noteq> p \<Longrightarrow> pos (filter_step n p s) u = pos s u"
  by (simp add: filter_step_def split: position.split)

interpretation filter: mutex filter_inside "filter_acq n" filter_rel "filter_ok n" filter_init "{1..n}"
  for n
proof unfold_locales
  show "\<not> filter_inside filter_init t" for t by (simp add: filter_init_def)
  show "filter_inside s' u = (u \<noteq> t \<and> filter_inside s u)" if "s' = filter_unlock t s" for s s' t u
    using that by (simp add: filter_unlock_def)
  show "filter_inside s' u = filter_inside s u" if "s' = filter_step n t s" "u \<noteq> t" for s s' t u
    using that by (simp add: filter_step_other)
  show "p = q" if "filter_ok n s" "filter_inside s p" "filter_inside s q" for s p q
    using filter_exclusion that .
qed (simp_all add: filter_init_ok filter_step_ok filter_unlock_ok)

end
