(* ===== verification/LockProps.thy ===== *)
theory LockProps
  imports FilterLock
begin

text \<open>
  The properties of the two locks of \<open>Project3_Locking\<close> and of the programs that test them.
\<close>

section \<open>The test-and-set lock\<close>

abbreviation tas_run :: "taslock program \<Rightarrow> bool" where
  "tas_run \<equiv> run holding tas_acq tas_rel 100 {0..<10} tas_init"

text \<open>
  With the test-and-set lock, in every interleaving of the 10 threads at most one is between
  \<open>lock\<close> and \<open>unlock\<close>, and when all have ended the shared counter is 1000: no increment is lost,
  although \<open>shared_resource++\<close> is a read and a write.
\<close>

theorem tas_counter:
  assumes "tas_run s"
  shows "(\<forall>t u. critical (phase s t) \<longrightarrow> critical (phase s u) \<longrightarrow> t = u) \<and>
    ((\<forall>t<10. phase s t = Done) \<longrightarrow> shared_resource s = 1000)"
  using tas.run_exclusion [OF assms] tas.run_total [OF assms] by auto

theorem tas_counter_witness:
  "\<exists>s. tas_run s \<and> phase s 3 = Crit 0 \<and> \<not> critical (phase s 4)"
proof -
  define s0 :: "taslock program" where
    "s0 = \<lparr>lockst = tas_init, shared_resource = 0, phase = (\<lambda>_. Locking)\<rparr>"
  let ?l = "tas_lock 3 tas_init"
  let ?s = "s0\<lparr>lockst := ?l, phase := (phase s0)(3 := if holding ?l 3 then Crit 0 else Locking)\<rparr>"
  have "holding ?l 3" by (simp add: tas_lock_def tas_init_def sync_lock_test_and_set_def)
  moreover have r: "tas_run ?s"
    by (rule run.step [OF run.start, of 3], simp) (unfold s0_def, rule thread_step.locking, simp_all)
  ultimately have ph: "phase ?s 3 = Crit 0" by simp
  have "critical (phase ?s u) \<longrightarrow> critical (phase ?s 3) \<longrightarrow> u = 3" for u
    using conjunct1 [OF tas_counter [OF r]] by blast
  from this [of 4] have "\<not> critical (phase ?s 4)" using ph by (simp only: critical.simps) simp
  with r ph show ?thesis by blast
qed

section \<open>The filter lock\<close>

abbreviation filter_run :: "nat \<Rightarrow> filter_lock program \<Rightarrow> bool" where
  "filter_run n \<equiv> run filter_inside (filter_acq n) filter_rel 1 {1..n} filter_init"

text \<open>
  C32: Peterson's lock for \<open>n\<close> threads gives mutual exclusion, for every \<open>n\<close> and every interleaving
  of the single accesses to \<open>Flag\<close> and \<open>Turn\<close> (the scan over the other threads is not atomic), and
  when all threads have ended the shared counter is \<open>n\<close>, 100 for the threads of the program.
\<close>

theorem filter_counter:
  assumes "filter_run n s"
  shows "(\<forall>t u. critical (phase s t) \<longrightarrow> critical (phase s u) \<longrightarrow> t = u) \<and>
    ((\<forall>t\<in>{1..n}. phase s t = Done) \<longrightarrow> shared_resource s = int n)"
  using filter.run_exclusion [OF assms] filter.run_total [OF assms] by auto

text \<open>A run in which the only thread of the program takes the lock.\<close>

definition solo :: "nat \<Rightarrow> filter_lock program" where
  "solo k = (let l = (filter_step 1 1 ^^ k) filter_init in
     \<lparr>lockst = l, shared_resource = 0,
      phase = (\<lambda>_. Locking)(1 := if pos l 1 = Inside then Crit 0 else Locking)\<rparr>)"

lemma solo_run: "k \<le> 6 \<Longrightarrow> filter_run 1 (solo k)"
proof (induction k)
  case 0
  have "solo 0 = \<lparr>lockst = filter_init, shared_resource = 0, phase = (\<lambda>_. Locking)\<rparr>"
    by (simp add: solo_def filter_init_def fun_eq_iff)
  then show ?case by (simp only:) (rule run.start)
next
  case (Suc k)
  let ?l = "(filter_step 1 1 ^^ k) filter_init"
  have "k = 0 \<or> k = 1 \<or> k = 2 \<or> k = 3 \<or> k = 4 \<or> k = 5" using Suc.prems by linarith
  then have n: "pos ?l 1 \<noteq> Inside"
    by (elim disjE) (simp_all add: eval_nat_numeral filter_step_def filter_init_def next_pos_def)
  have "thread_step filter_inside (filter_acq 1) filter_rel 1 1 (solo k)
    ((solo k)\<lparr>lockst := filter_step 1 1 (lockst (solo k)), phase := (phase (solo k))
       (1 := if filter_inside (filter_step 1 1 (lockst (solo k))) 1 then Crit 0 else Locking)\<rparr>)"
    by (rule thread_step.locking) (use n in \<open>simp_all add: solo_def\<close>)
  moreover have "(solo k)\<lparr>lockst := filter_step 1 1 (lockst (solo k)), phase := (phase (solo k))
       (1 := if filter_inside (filter_step 1 1 (lockst (solo k))) 1 then Crit 0 else Locking)\<rparr> = solo (Suc k)"
    by (simp add: solo_def Let_def)
  ultimately show ?case using run.step [of _ _ _ _ _ _ "solo k" 1] Suc by simp
qed

lemma solo_inside: "phase (solo 6) 1 = Crit 0"
  by (simp add: solo_def eval_nat_numeral filter_step_def filter_init_def next_pos_def)

theorem filter_counter_witness:
  "filter_run 1 (solo 6) \<and> phase (solo 6) 1 = Crit 0 \<and> \<not> critical (phase (solo 6) 2)"
proof -
  have r: "filter_run 1 (solo 6)" by (rule solo_run) simp
  have "critical (phase (solo 6) 2) \<longrightarrow> critical (phase (solo 6) 1) \<longrightarrow> (2 :: nat) = 1"
    using conjunct1 [OF filter_counter [OF r]] by blast
  then have "\<not> critical (phase (solo 6) 2)" unfolding solo_inside by simp
  with r solo_inside show ?thesis by blast
qed

text \<open>
  The counting argument behind the filter: of \<open>n\<close> threads at most \<open>n - i\<close> are past level
  \<open>i\<close> at any time (one past the last), whatever state the protocol is in.
\<close>

theorem filter_levels:
  assumes "filter_run n s" and "1 \<le> i" and "i \<le> n"
  shows "card (passers n i (lockst s)) \<le> max 1 (n - i)"
  by (rule card_passers [OF filter.client_invD(1) [OF filter.run_client_inv [OF assms(1)]] assms(2,3)])

theorem filter_levels_witness: "card (passers 1 1 (lockst (solo 6))) \<le> 1"
  using filter_levels [OF solo_run [of 6], of 1] by simp

text \<open>
  \<open>searchidx\<close> gives each of the threads in the array its own index, one more than its place;
  for a thread that is not in the array yet it ends the program, which is what happens to a thread
  that runs before \<open>pthread_create\<close> has stored its id.
\<close>

lemma searchidx_from_nth:
  assumes "distinct ts" and "k < length ts"
  shows "searchidx_from i ts (ts ! k) = Some (i + k + 1)"
  using assms
proof (induction ts arbitrary: i k)
  case (Cons t ts)
  then show ?case by (cases k) auto
qed simp

lemma searchidx_from_None: "searchidx_from i ts tid = None \<longleftrightarrow> tid \<notin> set ts"
  by (induction ts arbitrary: i) auto

theorem searchidx_index:
  assumes "distinct threads"
  shows "(\<forall>k<length threads. searchidx threads (threads ! k) = Some (k + 1)) \<and>
    (searchidx threads tid = None \<longleftrightarrow> tid \<notin> set threads)"
  using searchidx_from_nth [OF assms, of _ 0] by (simp add: searchidx_def searchidx_from_None)

theorem searchidx_index_witness:
  "searchidx [11, 12, 13::nat] 13 = Some 3 \<and> searchidx [11, 12, 13::nat] 5 = None"
  using searchidx_index [of "[11, 12, 13::nat]" 5] by (auto dest!: spec [of _ "2::nat"])

end
