(* ===== verification/Kalloc.thy ===== *)
theory Kalloc
  imports Prelude
begin

text \<open>
  The physical page allocator of \<open>Project4/kalloc.c\<close>: a free list threaded through the free pages
  themselves, and a table of reference counts of 8-bit \<open>char\<close>s, one per physical page. Memory is a
  function from page numbers to pages of 1024 words; the first word of a free page is its \<open>next\<close>
  pointer. Pointers are kernel virtual addresses. The address \<open>end\<close> of the kernel image comes from
  the linker and is a parameter. The sequential behaviour is an interface, the locale
  \<open>page_allocator\<close>; the two-processor behaviour of \<open>kalloc\<close>, which gives up its lock in the
  middle, is a step relation.
\<close>

section \<open>The code\<close>

record kmem =
  use_lock :: bool
  freelist :: u32
  refcount :: "ppage \<Rightarrow> 8 word"
  pmem :: "ppage \<Rightarrow> 10 word \<Rightarrow> u32"

abbreviation PHYSTOP :: u32 where
  "PHYSTOP \<equiv> 0xE000000"

definition kpage :: "u32 \<Rightarrow> ppage" where
  "kpage v = page_of (V2P v)"

text \<open>\<open>memset(v, c, PGSIZE)\<close> for a page and a byte, and \<open>memmove\<close> of a page.\<close>

definition fill_page :: "u32 \<Rightarrow> u32 \<Rightarrow> 's kmem_scheme \<Rightarrow> 's kmem_scheme" where
  "fill_page v w s = s\<lparr>pmem := (pmem s)(kpage v := (\<lambda>_. w))\<rparr>"

definition copy_page :: "u32 \<Rightarrow> u32 \<Rightarrow> 's kmem_scheme \<Rightarrow> 's kmem_scheme" where
  "copy_page dst src s = s\<lparr>pmem := (pmem s)(kpage dst := pmem s (kpage src))\<rparr>"

definition kfree_ok :: "u32 \<Rightarrow> u32 \<Rightarrow> bool" where
  "kfree_ok kend v \<longleftrightarrow> \<not> (v mod 4096 \<noteq> 0 \<or> v < kend \<or> PHYSTOP \<le> V2P v)"

definition kfree :: "u32 \<Rightarrow> u32 \<Rightarrow> 's kmem_scheme \<Rightarrow> 's kmem_scheme result" where
  "kfree kend v s =
     rbind (ensure (kfree_ok kend v) (Panic ''kfree'')) (\<lambda>_.
       let s1 = fill_page v 0x01010101 s;
           s2 = s1\<lparr>pmem := (pmem s1)(kpage v := (pmem s1 (kpage v))(0 := freelist s1))\<rparr>
       in Inr (s2\<lparr>freelist := v\<rparr>))"

definition kalloc :: "'s kmem_scheme \<Rightarrow> u32 \<times> 's kmem_scheme" where
  "kalloc s =
     (if freelist s = 0 then (0, s)
      else (freelist s, s\<lparr>freelist := pmem s (kpage (freelist s)) 0\<rparr>))"

lemma V2P_bounds:
  assumes "V2P v < PHYSTOP"
  shows "unat v = unat (V2P v) + 0x80000000" and "unat v < 0x8E000000"
proof -
  have a: "unat (V2P v) < 0xE000000" using assms by (simp add: word_less_nat_alt)
  have "unat (P2V (V2P v)) = unat (V2P v) + 0x80000000"
    unfolding P2V_def by (subst unat_add_lem [THEN iffD1]) (use a in simp_all)
  then show "unat v = unat (V2P v) + 0x80000000" by simp
  with a show "unat v < 0x8E000000" by simp
qed

lemma kfree_okD:
  assumes "kfree_ok kend v"
  shows "V2P v < PHYSTOP" and "unat v < 0x8E000000" and "v mod 4096 = 0" and "v \<noteq> 0"
proof -
  show 1: "V2P v < PHYSTOP" and "v mod 4096 = 0" using assms by (simp_all add: kfree_ok_def not_le)
  show "unat v < 0x8E000000" by (rule V2P_bounds(2) [OF 1])
  show "v \<noteq> 0" using V2P_bounds(1) [OF 1] by auto
qed

lemma kfree_Inr: "kfree kend v s = Inr s' \<Longrightarrow> kfree_ok kend v"
  by (simp add: kfree_def rbind_eq_Inr)

text \<open>The loop of \<open>freerange\<close> from the address \<open>p\<close> on.\<close>

function freerange_from :: "u32 \<Rightarrow> u32 \<Rightarrow> u32 \<Rightarrow> kmem \<Rightarrow> kmem result" where
  "freerange_from kend vend p s =
     (if p + 4096 \<le> vend
      then rbind (kfree kend p s) (\<lambda>s1. freerange_from kend vend (p + 4096) s1)
      else Inr s)"
  by pat_completeness auto
termination
proof (relation "measure (\<lambda>(kend, vend, p, s). 2 ^ 32 - unat p)", simp)
  fix kend vend p :: u32 and s s1 :: kmem
  assume "kfree kend p s = Inr s1"
  then have u: "unat p < 0x8E000000" using kfree_okD(2) kfree_Inr by blast
  then have "unat (p + 4096) = unat p + 4096" by (subst unat_add_lem [THEN iffD1]) auto
  with u show "((kend, vend, p + 4096, s1), (kend, vend, p, s)) \<in>
      measure (\<lambda>(kend, vend, p, s). 2 ^ 32 - unat p)" by simp
qed

declare freerange_from.simps [simp del]

definition freerange :: "u32 \<Rightarrow> u32 \<Rightarrow> u32 \<Rightarrow> kmem \<Rightarrow> kmem result" where
  "freerange kend vstart vend s = freerange_from kend vend (PGROUNDUP vstart) s"

definition kinit1 :: "u32 \<Rightarrow> u32 \<Rightarrow> u32 \<Rightarrow> kmem \<Rightarrow> kmem result" where
  "kinit1 kend vstart vend s = freerange kend vstart vend (s\<lparr>use_lock := False\<rparr>)"

definition kinit2 :: "u32 \<Rightarrow> u32 \<Rightarrow> u32 \<Rightarrow> kmem \<Rightarrow> kmem result" where
  "kinit2 kend vstart vend s = rbind (freerange kend vstart vend s) (\<lambda>s1. Inr (s1\<lparr>use_lock := True\<rparr>))"

text \<open>
  The counters of \<open>incr_refc\<close> and \<open>decr_refc\<close>, given the page table entry their argument points to;
  \<open>get_refc\<close> reads the \<open>char\<close>, which is signed on this machine. The array has one entry per page
  below \<open>PHYSTOP\<close>.
\<close>

definition refc_index :: "u32 \<Rightarrow> ppage result" where
  "refc_index pte = (if page_of (PTE_ADDR pte) < page_of PHYSTOP then Inr (page_of (PTE_ADDR pte))
                     else Inl OutOfBounds)"

definition incr_refc :: "u32 \<Rightarrow> 's kmem_scheme \<Rightarrow> 's kmem_scheme result" where
  "incr_refc pte s = rbind (refc_index pte) (\<lambda>p.
     Inr (s\<lparr>refcount := (refcount s)(p := refcount s p + 1)\<rparr>))"

definition decr_refc :: "u32 \<Rightarrow> 's kmem_scheme \<Rightarrow> 's kmem_scheme result" where
  "decr_refc pte s = rbind (refc_index pte) (\<lambda>p.
     Inr (s\<lparr>refcount := (refcount s)(p := refcount s p - 1)\<rparr>))"

definition get_refc :: "u32 \<Rightarrow> 's kmem_scheme \<Rightarrow> int result" where
  "get_refc pte s = rbind (refc_index pte) (\<lambda>p. Inr (sint (refcount s p)))"

text \<open>
  \<open>countfp\<close>: the inner loop follows the list to its last element and counts the steps, as often as
  there are pages; from the second round on it stays where it is. It reads \<open>free->next\<close> of a null
  pointer when the list is empty. The inner loop may run for ever on a cyclic list.
\<close>

partial_function (option) count_next :: "(ppage \<Rightarrow> 10 word \<Rightarrow> u32) \<Rightarrow> u32 \<Rightarrow> int \<Rightarrow> (u32 \<times> int) result option" where
  "count_next m free cnt =
     (if free = 0 then Some (Inl NullDeref)
      else if m (kpage free) 0 \<noteq> 0 then count_next m (m (kpage free) 0) (cnt + 1)
      else Some (Inr (free, cnt)))"

fun countfp_loop :: "nat \<Rightarrow> (ppage \<Rightarrow> 10 word \<Rightarrow> u32) \<Rightarrow> u32 \<Rightarrow> int \<Rightarrow> int result option" where
  "countfp_loop 0 m free cnt = Some (Inr cnt)"
| "countfp_loop (Suc n) m free cnt =
     (case count_next m free cnt of
        None \<Rightarrow> None
      | Some (Inl e) \<Rightarrow> Some (Inl e)
      | Some (Inr (free1, cnt1)) \<Rightarrow> countfp_loop n m free1 cnt1)"

definition countfp :: "'s kmem_scheme \<Rightarrow> int result option" where
  "countfp s = countfp_loop (unat (page_of PHYSTOP)) (pmem s) (freelist s) 0"

section \<open>The interface of a page allocator\<close>

locale page_allocator =
  fixes rep :: "'s \<Rightarrow> 'p list \<Rightarrow> bool"
    and alloc :: "'s \<Rightarrow> 'p option \<times> 's"
    and release :: "'p \<Rightarrow> 's \<Rightarrow> 's result"
    and valid :: "'p \<Rightarrow> bool"
  assumes rep_alloc: "rep s (p # ps) \<Longrightarrow> \<exists>s'. alloc s = (Some p, s') \<and> rep s' ps"
    and rep_alloc_none: "rep s [] \<Longrightarrow> alloc s = (None, s)"
    and rep_release: "rep s ps \<Longrightarrow> valid p \<Longrightarrow> p \<notin> set ps \<Longrightarrow> \<exists>s'. release p s = Inr s' \<and> rep s' (p # ps)"
    and rep_distinct: "rep s ps \<Longrightarrow> distinct ps"
    and rep_valid: "rep s ps \<Longrightarrow> p \<in> set ps \<Longrightarrow> valid p"
begin

text \<open>\<open>n\<close> allocations, and the release of a list of pages.\<close>

fun allocs :: "nat \<Rightarrow> 's \<Rightarrow> 'p option list \<times> 's" where
  "allocs 0 s = ([], s)"
| "allocs (Suc n) s = (let (p, s1) = alloc s; (ps, s2) = allocs n s1 in (p # ps, s2))"

fun releases :: "'p list \<Rightarrow> 's \<Rightarrow> 's result" where
  "releases [] s = Inr s"
| "releases (p # ps) s = rbind (release p s) (releases ps)"

lemma allocs_pages:
  assumes "rep s (ps @ qs)"
  shows "\<exists>s'. allocs (length ps) s = (map Some ps, s') \<and> rep s' qs"
  using assms
proof (induction ps arbitrary: s)
  case (Cons p ps)
  then obtain s1 where s1: "alloc s = (Some p, s1)" "rep s1 (ps @ qs)"
    using rep_alloc [of s p "ps @ qs"] by auto
  with Cons.IH [OF s1(2)] show ?case by auto
qed simp

lemma releases_pages:
  assumes "rep s qs" and "distinct (ps @ qs)" and "\<forall>p\<in>set ps. valid p"
  shows "\<exists>s'. releases ps s = Inr s' \<and> rep s' (rev ps @ qs)"
  using assms
proof (induction ps arbitrary: s qs)
  case (Cons p ps)
  then obtain s1 where s1: "release p s = Inr s1" "rep s1 (p # qs)"
    using rep_release [of s qs p] by auto
  have "distinct (ps @ p # qs)" "\<forall>p\<in>set ps. valid p" using Cons.prems by auto
  with Cons.IH [OF s1(2)] s1(1) show ?case by simp
qed simp

text \<open>Pages that are allocated and then given back are free again, in the same order after a reversal.\<close>

lemma allocs_releases:
  assumes "rep s (ps @ qs)" and "allocs (length ps) s = (rs, s1)"
  shows "\<exists>s2. releases (rev ps) s1 = Inr s2 \<and> rep s2 (ps @ qs)"
proof -
  have "rep s1 qs" using allocs_pages [OF assms(1)] assms(2) by auto
  moreover have "distinct (rev ps @ qs)" using rep_distinct [OF assms(1)] by simp
  moreover have "\<forall>p\<in>set (rev ps). valid p" using rep_valid [OF assms(1)] by simp
  ultimately show ?thesis using releases_pages [of s1 qs "rev ps"] by simp
qed

end

section \<open>The free list\<close>

fun chain :: "(ppage \<Rightarrow> 10 word \<Rightarrow> u32) \<Rightarrow> u32 \<Rightarrow> u32 list \<Rightarrow> bool" where
  "chain m a [] = (a = 0)"
| "chain m a (v # vs) = (a = v \<and> v \<noteq> 0 \<and> chain m (m (kpage v) 0) vs)"

definition free_pages :: "u32 \<Rightarrow> 's kmem_scheme \<Rightarrow> u32 list \<Rightarrow> bool" where
  "free_pages kend s vs \<longleftrightarrow> chain (pmem s) (freelist s) vs \<and> distinct vs \<and> (\<forall>v\<in>set vs. kfree_ok kend v)"

text \<open>The result of \<open>kalloc\<close> as an option: the null pointer is no page.\<close>

definition kalloc_opt :: "'s kmem_scheme \<Rightarrow> u32 option \<times> 's kmem_scheme" where
  "kalloc_opt s = (let (v, s1) = kalloc s in (if v = 0 then None else Some v, s1))"

lemma mod_4096_low: "(v :: u32) mod 4096 = v AND 0xFFF"
proof -
  have "v mod 4096 = take_bit 12 v" by (simp add: take_bit_eq_mod)
  also have "\<dots> = v AND 0xFFF" by (simp add: take_bit_eq_mask low_bits)
  finally show ?thesis .
qed

lemma kpage_addr:
  assumes "kfree_ok kend v"
  shows "page_addr (kpage v) = V2P v" and "P2V (page_addr (kpage v)) = v"
proof -
  have m: "v mod 4096 = 0" using kfree_okD(3) [OF assms] .
  have "V2P v mod 4096 = 0"
  proof -
    have "unat v mod 4096 = 0" using arg_cong [OF m, of unat] by (simp add: unat_mod)
    moreover have "unat v = unat (V2P v) + 524288 * 4096"
      using V2P_bounds(1) [OF kfree_okD(1) [OF assms]] by simp
    ultimately have "unat (V2P v) mod 4096 = 0" by (simp only: mod_mult_self1)
    then have "unat (V2P v mod 4096) = 0" by (simp add: unat_mod)
    then show ?thesis by (simp only: unat_0_iff)
  qed
  then have "V2P v AND 0xFFF = 0" by (simp add: mod_4096_low)
  moreover have "V2P v = (V2P v AND NOT 0xFFF) OR (V2P v AND 0xFFF)"
    by (rule bit_word_eqI) (auto simp: bit_simps bit_low_bits)
  ultimately have "V2P v AND NOT 0xFFF = V2P v" by simp
  then show 1: "page_addr (kpage v) = V2P v"
    by (simp add: kpage_def PTE_ADDR_page [symmetric] PTE_ADDR_def)
  show "P2V (page_addr (kpage v)) = v" unfolding 1 by simp
qed

lemma kpage_inject:
  assumes "kfree_ok kend v" and "kfree_ok kend w"
  shows "kpage v = kpage w \<longleftrightarrow> v = w"
  using kpage_addr(2) [OF assms(1)] kpage_addr(2) [OF assms(2)] by metis

lemma chain_cong:
  assumes "\<And>v. v \<in> set vs \<Longrightarrow> m' (kpage v) 0 = m (kpage v) 0"
  shows "chain m' a vs = chain m a vs"
  using assms by (induction vs arbitrary: a) auto

lemma free_pages_kalloc:
  assumes "free_pages kend s (v # vs)"
  shows "\<exists>s'. kalloc_opt s = (Some v, s') \<and> free_pages kend s' vs"
  using assms by (auto simp: free_pages_def kalloc_opt_def kalloc_def)

lemma free_pages_kfree:
  assumes "free_pages kend s vs" and "kfree_ok kend v" and "v \<notin> set vs"
  shows "\<exists>s'. kfree kend v s = Inr s' \<and> free_pages kend s' (v # vs)"
proof -
  let ?m = "(pmem s)(kpage v := (\<lambda>_. 0x01010101)(0 := freelist s))"
  have "chain ?m (freelist s) vs = chain (pmem s) (freelist s) vs"
  proof (rule chain_cong)
    fix w assume w: "w \<in> set vs"
    then have "kpage w \<noteq> kpage v"
      using assms kpage_inject [of kend w v] by (auto simp: free_pages_def)
    then show "?m (kpage w) 0 = pmem s (kpage w) 0" by simp
  qed
  with assms kfree_okD(4) [OF assms(2)] show ?thesis
    by (simp add: kfree_def fill_page_def free_pages_def)
qed

interpretation kmem: page_allocator "free_pages kend" kalloc_opt "kfree kend" "kfree_ok kend"
  for kend
proof unfold_locales
  show "kalloc_opt s = (None, s)" if "free_pages kend s []" for s :: "'a kmem_scheme"
    using that by (simp add: free_pages_def kalloc_opt_def kalloc_def)
  show "distinct vs" if "free_pages kend s vs" for s :: "'a kmem_scheme" and vs
    using that by (simp add: free_pages_def)
  show "kfree_ok kend v" if "free_pages kend s vs" "v \<in> set vs" for s :: "'a kmem_scheme" and vs v
    using that by (simp add: free_pages_def)
qed (rule free_pages_kalloc free_pages_kfree; assumption)+

section \<open>Filling the free list\<close>

lemma free_pages_use_lock [simp]: "free_pages kend (s\<lparr>use_lock := b\<rparr>) = free_pages kend s"
  by (simp add: free_pages_def fun_eq_iff)

definition page_run :: "u32 \<Rightarrow> nat \<Rightarrow> u32 list" where
  "page_run p n = map (\<lambda>i. p + of_nat i * 4096) [0..<n]"

lemma page_run_Suc: "page_run p (Suc n) = p # page_run (p + 4096) n"
proof -
  have "page_run p (Suc n) = map (\<lambda>i. p + of_nat i * 4096) (0 # map Suc [0..<n])"
    unfolding page_run_def by (simp only: upt_conv_Cons map_Suc_upt zero_less_Suc)
  then show ?thesis by (simp add: page_run_def algebra_simps)
qed

lemma freerange_from_spec:
  assumes "free_pages kend s vs" and "\<forall>v\<in>set (page_run p n). kfree_ok kend v \<and> v + 4096 \<le> vend"
    and "distinct (page_run p n @ vs)" and "\<not> p + of_nat n * 4096 + 4096 \<le> vend"
  shows "\<exists>s'. freerange_from kend vend p s = Inr s' \<and> free_pages kend s' (rev (page_run p n) @ vs)"
  using assms
proof (induction n arbitrary: p s vs)
  case 0
  then show ?case by (simp add: freerange_from.simps [of kend vend p] page_run_def)
next
  case (Suc n)
  note r = page_run_Suc [of p n]
  have p: "kfree_ok kend p" "p + 4096 \<le> vend" "p \<notin> set vs" using Suc.prems(2,3) by (auto simp: r)
  obtain s1 where s1: "kfree kend p s = Inr s1" "free_pages kend s1 (p # vs)"
    using free_pages_kfree [OF Suc.prems(1) p(1,3)] by blast
  have "\<exists>s'. freerange_from kend vend (p + 4096) s1 = Inr s' \<and>
      free_pages kend s' (rev (page_run (p + 4096) n) @ p # vs)"
    by (rule Suc.IH [OF s1(2)]) (use Suc.prems(2-4) in \<open>auto simp: r algebra_simps\<close>)
  with s1(1) p(2) show ?case by (simp add: r freerange_from.simps [of kend vend p])
qed

section \<open>Counting the free pages\<close>

lemma count_next_chain:
  assumes "chain m v (v # vs)"
  shows "\<exists>w. count_next m v c = Some (Inr (w, c + int (length vs))) \<and> w \<noteq> 0 \<and> m (kpage w) 0 = 0"
  using assms
proof (induction vs arbitrary: v c)
  case Nil
  then show ?case by (simp add: count_next.simps [of m v])
next
  case (Cons x vs)
  then have x: "m (kpage v) 0 = x" "x \<noteq> 0" "chain m x (x # vs)" "v \<noteq> 0" by auto
  from Cons.IH [OF x(3), of "c + 1"] show ?case
    using x by (auto simp: count_next.simps [of m v] algebra_simps)
qed

lemma countfp_loop_last: "w \<noteq> 0 \<Longrightarrow> m (kpage w) 0 = 0 \<Longrightarrow> countfp_loop n m w c = Some (Inr c)"
  by (induction n) (simp_all add: count_next.simps [of m w])

lemma phystop_pages: "unat (page_of PHYSTOP) = Suc 57343"
  by (simp add: page_of_def)

section \<open>Two processors in \<open>kalloc\<close>\<close>

text \<open>
  \<open>kalloc\<close> reads the head of the list under the lock, gives the lock up, moves the head on and
  only then takes the lock again. The steps of one processor are the accesses between which the
  others may run; the lock itself is taken and given up in single steps.
\<close>

datatype kalloc_pc = Entry | Unlocked u32 | Relock u32 | Returned u32

record kalloc_state = kmem +
  kpc :: "nat \<Rightarrow> kalloc_pc"

inductive kalloc_step :: "nat \<Rightarrow> kalloc_state \<Rightarrow> kalloc_state \<Rightarrow> bool" where
  kalloc_empty: "kpc s c = Entry \<Longrightarrow> freelist s = 0 \<Longrightarrow> kalloc_step c s (s\<lparr>kpc := (kpc s)(c := Returned 0)\<rparr>)"
| kalloc_read: "kpc s c = Entry \<Longrightarrow> freelist s = r \<Longrightarrow> r \<noteq> 0 \<Longrightarrow>
    kalloc_step c s (s\<lparr>kpc := (kpc s)(c := Unlocked r)\<rparr>)"
| kalloc_pop: "kpc s c = Unlocked r \<Longrightarrow>
    kalloc_step c s (s\<lparr>freelist := pmem s (kpage r) 0, kpc := (kpc s)(c := Relock r)\<rparr>)"
| kalloc_relock: "kpc s c = Relock r \<Longrightarrow> kalloc_step c s (s\<lparr>kpc := (kpc s)(c := Returned r)\<rparr>)"

inductive kalloc_run :: "kalloc_state \<Rightarrow> kalloc_state \<Rightarrow> bool" where
  kalloc_refl: "kalloc_run s s"
| kalloc_trans: "kalloc_run s s1 \<Longrightarrow> kalloc_step c s1 s2 \<Longrightarrow> kalloc_run s s2"

text \<open>A processor that runs alone gets the result of \<open>kalloc\<close>.\<close>

lemma kalloc_alone:
  assumes "kpc s c = Entry"
  shows "\<exists>s'. kalloc_run s s' \<and> kpc s' c = Returned (fst (kalloc s)) \<and> freelist s' = freelist (snd (kalloc s))"
proof (cases "freelist s = 0")
  case True
  let ?s = "s\<lparr>kpc := (kpc s)(c := Returned 0)\<rparr>"
  have "kalloc_run s ?s"
    by (rule kalloc_trans [OF kalloc_refl kalloc_empty [OF assms True]])
  with True show ?thesis by (intro exI [of _ ?s]) (simp add: kalloc_def)
next
  case False
  define r where "r = freelist s"
  define s1 where "s1 = s\<lparr>kpc := (kpc s)(c := Unlocked r)\<rparr>"
  define s2 where "s2 = s1\<lparr>freelist := pmem s1 (kpage r) 0, kpc := (kpc s1)(c := Relock r)\<rparr>"
  define s3 where "s3 = s2\<lparr>kpc := (kpc s2)(c := Returned r)\<rparr>"
  have "kalloc_step c s s1" unfolding s1_def
    by (rule kalloc_read) (use assms False in \<open>simp_all add: r_def\<close>)
  moreover have "kalloc_step c s1 s2" unfolding s2_def by (rule kalloc_pop) (simp add: s1_def)
  moreover have "kalloc_step c s2 s3" unfolding s3_def by (rule kalloc_relock) (simp add: s2_def)
  ultimately have "kalloc_run s s3" by (blast intro: kalloc_refl kalloc_trans)
  moreover have "kpc s3 c = Returned r" "freelist s3 = pmem s (kpage r) 0"
    by (simp_all add: s3_def s2_def s1_def)
  ultimately show ?thesis using False by (auto simp: kalloc_def r_def)
qed

lemma kalloc_both:
  assumes "kpc s 0 = Entry" and "kpc s 1 = Entry" and "freelist s = v" and "v \<noteq> 0"
  shows "\<exists>s'. kalloc_run s s' \<and> kpc s' 0 = Returned v \<and> kpc s' 1 = Returned v"
proof -
  define s1 where "s1 = s\<lparr>kpc := (kpc s)(0 := Unlocked v)\<rparr>"
  define s2 where "s2 = s1\<lparr>kpc := (kpc s1)(1 := Unlocked v)\<rparr>"
  define s3 where "s3 = s2\<lparr>freelist := pmem s2 (kpage v) 0, kpc := (kpc s2)(0 := Relock v)\<rparr>"
  define s4 where "s4 = s3\<lparr>freelist := pmem s3 (kpage v) 0, kpc := (kpc s3)(1 := Relock v)\<rparr>"
  define s5 where "s5 = s4\<lparr>kpc := (kpc s4)(0 := Returned v)\<rparr>"
  define s6 where "s6 = s5\<lparr>kpc := (kpc s5)(1 := Returned v)\<rparr>"
  have a1: "kalloc_step 0 s s1" unfolding s1_def by (rule kalloc_read) (use assms in simp_all)
  have a2: "kalloc_step 1 s1 s2" unfolding s2_def
    by (rule kalloc_read) (use assms in \<open>simp_all add: s1_def\<close>)
  have a3: "kalloc_step 0 s2 s3" unfolding s3_def by (rule kalloc_pop) (simp add: s2_def s1_def)
  have a4: "kalloc_step 1 s3 s4" unfolding s4_def by (rule kalloc_pop) (simp add: s3_def s2_def)
  have a5: "kalloc_step 0 s4 s5" unfolding s5_def by (rule kalloc_relock) (simp add: s4_def s3_def)
  have a6: "kalloc_step 1 s5 s6" unfolding s6_def by (rule kalloc_relock) (simp add: s5_def s4_def)
  have "kalloc_run s s6"
    by (rule kalloc_trans [OF kalloc_trans [OF kalloc_trans [OF kalloc_trans [OF kalloc_trans
          [OF kalloc_trans [OF kalloc_refl a1] a2] a3] a4] a5] a6])
  moreover have "kpc s6 0 = Returned v" "kpc s6 1 = Returned v" by (simp_all add: s6_def s5_def)
  ultimately show ?thesis by blast
qed

end
