(* ===== verification/Vm.thy ===== *)
theory Vm
  imports Kalloc
begin

text \<open>
  The address spaces of \<open>Project4\<close> (\<open>vm.c\<close>): two-level page tables in physical memory, their
  construction and destruction, the sharing of pages by \<open>sharerouvm\<close> at a fork and the copy on
  write in \<open>cow_handler\<close>. A pointer to a page table entry is a page and an index. The addresses
  \<open>end\<close> and \<open>data\<close> of the kernel image are parameters, \<open>myproc()->pgdir\<close> and the faulting address
  in \<open>cr2\<close> are arguments, and reloading \<open>cr3\<close> has no effect on the model, which has no cache of
  translations.
\<close>

section \<open>Page table entries\<close>

abbreviation "PTE_P \<equiv> (1 :: u32)"
abbreviation "PTE_W \<equiv> (2 :: u32)"
abbreviation "PTE_U \<equiv> (4 :: u32)"
abbreviation "KERNBASE \<equiv> (0x80000000 :: u32)"

definition present :: "u32 \<Rightarrow> bool" where
  "present e \<longleftrightarrow> e AND PTE_P \<noteq> 0"

definition PDX :: "u32 \<Rightarrow> 10 word" where
  "PDX va = ucast (drop_bit 22 va)"

definition PTX :: "u32 \<Rightarrow> 10 word" where
  "PTX va = ucast (drop_bit 12 va)"

type_synonym pte_ptr = "ppage \<times> 10 word"

definition pload :: "'s kmem_scheme \<Rightarrow> pte_ptr \<Rightarrow> u32" where
  "pload s p = pmem s (fst p) (snd p)"

definition pstore :: "pte_ptr \<Rightarrow> u32 \<Rightarrow> 's kmem_scheme \<Rightarrow> 's kmem_scheme" where
  "pstore p w s = s\<lparr>pmem := (pmem s)(fst p := (pmem s (fst p))(snd p := w))\<rparr>"

definition deref_pte :: "pte_ptr option \<Rightarrow> pte_ptr result" where
  "deref_pte p = (case p of None \<Rightarrow> Inl NullDeref | Some q \<Rightarrow> Inr q)"

section \<open>Building page tables\<close>

definition walkpgdir :: "u32 \<Rightarrow> u32 \<Rightarrow> bool \<Rightarrow> 's kmem_scheme \<Rightarrow> pte_ptr option \<times> 's kmem_scheme" where
  "walkpgdir pgdir va alloc s =
     (let pde = pload s (kpage pgdir, PDX va) in
      if present pde then (Some (kpage (P2V (PTE_ADDR pde)), PTX va), s)
      else if \<not> alloc then (None, s)
      else let (pgtab, s1) = kalloc s in
           if pgtab = 0 then (None, s1)
           else (Some (kpage pgtab, PTX va),
                 pstore (kpage pgdir, PDX va) (V2P pgtab OR PTE_P OR PTE_W OR PTE_U) (fill_page pgtab 0 s1)))"

text \<open>
  The loop of \<open>mappages\<close> with \<open>n\<close> pages between \<open>a\<close> and \<open>last\<close>: both are page aligned, so that the
  test \<open>a == last\<close> holds after \<open>n\<close> rounds.
\<close>

fun mappages_loop :: "nat \<Rightarrow> u32 \<Rightarrow> u32 \<Rightarrow> u32 \<Rightarrow> u32 \<Rightarrow> 's kmem_scheme \<Rightarrow> (int \<times> 's kmem_scheme) result" where
  "mappages_loop n pgdir a pa perm s =
     (case walkpgdir pgdir a True s of
        (None, s1) \<Rightarrow> Inr (-1, s1)
      | (Some pte, s1) \<Rightarrow>
          if present (pload s1 pte) then Inl (Panic ''remap'')
          else let s2 = pstore pte (pa OR perm OR PTE_P) s1 in
               case n of 0 \<Rightarrow> Inr (0, s2)
               | Suc m \<Rightarrow> mappages_loop m pgdir (a + 4096) (pa + 4096) perm s2)"

declare mappages_loop.simps [simp del]

definition mappages :: "u32 \<Rightarrow> u32 \<Rightarrow> u32 \<Rightarrow> u32 \<Rightarrow> u32 \<Rightarrow> 's kmem_scheme \<Rightarrow> (int \<times> 's kmem_scheme) result" where
  "mappages pgdir va nbytes pa perm s =
     (let a = PGROUNDDOWN va; last = PGROUNDDOWN (va + nbytes - 1)
      in mappages_loop (unat (page_of last - page_of a)) pgdir a pa perm s)"

section \<open>Removing pages\<close>

text \<open>
  The loop of \<open>deallocuvm\<close> from the address \<open>a\<close> on. When the address wraps around, which sizes up
  to \<open>KERNBASE\<close> rule out, the loop has started over.
\<close>

definition dealloc_page :: "u32 \<Rightarrow> pte_ptr \<Rightarrow> 's kmem_scheme \<Rightarrow> 's kmem_scheme result" where
  "dealloc_page kend pte s =
     (let e = pload s pte; pa = PTE_ADDR e in
      rbind (ensure (pa \<noteq> 0) (Panic ''kfree'')) (\<lambda>_.
      rbind (get_refc e s) (\<lambda>rc.
      rbind (if rc = 1 then kfree kend (P2V pa) s else Inr s) (\<lambda>s1.
      rbind (decr_refc (pload s1 pte) s1) (\<lambda>s2. Inr (pstore pte 0 s2))))))"

function dealloc_loop :: "u32 \<Rightarrow> u32 \<Rightarrow> u32 \<Rightarrow> u32 \<Rightarrow> kmem \<Rightarrow> kmem result" where
  "dealloc_loop kend pgdir oldsz a s =
     (if a < oldsz then
        (case fst (walkpgdir pgdir a False s) of
           None \<Rightarrow>
             (let a1 = push_bit 22 (ucast (PDX a) + 1) in
              if a < a1 then dealloc_loop kend pgdir oldsz a1 s else Inl Hang)
         | Some pte \<Rightarrow>
             rbind (if present (pload s pte) then dealloc_page kend pte s else Inr s) (\<lambda>s1.
               if a < a + 4096 then dealloc_loop kend pgdir oldsz (a + 4096) s1 else Inl Hang))
      else Inr s)"
  by pat_completeness auto
termination
  by (relation "measure (\<lambda>(kend, pgdir, oldsz, a, s). 2 ^ 32 - unat a)")
    (auto simp: word_less_nat_alt intro!: diff_less_mono2 order_less_le_trans [OF unsigned_less])

declare dealloc_loop.simps [simp del]

definition deallocuvm :: "u32 \<Rightarrow> u32 \<Rightarrow> u32 \<Rightarrow> u32 \<Rightarrow> kmem \<Rightarrow> (u32 \<times> kmem) result" where
  "deallocuvm kend pgdir oldsz newsz s =
     (if newsz \<ge> oldsz then Inr (oldsz, s)
      else rbind (dealloc_loop kend pgdir oldsz (PGROUNDUP newsz) s) (\<lambda>s1. Inr (newsz, s1)))"

fun free_tables :: "u32 \<Rightarrow> u32 \<Rightarrow> 10 word list \<Rightarrow> kmem \<Rightarrow> kmem result" where
  "free_tables kend pgdir [] s = Inr s"
| "free_tables kend pgdir (i # is) s =
     rbind (if present (pload s (kpage pgdir, i))
            then kfree kend (P2V (PTE_ADDR (pload s (kpage pgdir, i)))) s else Inr s)
       (free_tables kend pgdir is)"

definition freevm :: "u32 \<Rightarrow> u32 \<Rightarrow> kmem \<Rightarrow> kmem result" where
  "freevm kend pgdir s =
     rbind (ensure (pgdir \<noteq> 0) (Panic ''freevm: no pgdir'')) (\<lambda>_.
     rbind (deallocuvm kend pgdir KERNBASE 0 s) (\<lambda>(_, s1).
     rbind (free_tables kend pgdir (map of_nat [0..<1024]) s1) (\<lambda>s2.
     kfree kend pgdir s2)))"

section \<open>Kernel and user mappings\<close>

text \<open>The table \<open>kmap\<close>: virtual address, physical start and end, permissions.\<close>

definition kmap :: "u32 \<Rightarrow> (u32 \<times> u32 \<times> u32 \<times> u32) list" where
  "kmap data =
     [(KERNBASE, 0, 0x100000, PTE_W),
      (KERNBASE + 0x100000, V2P (KERNBASE + 0x100000), V2P data, 0),
      (data, V2P data, PHYSTOP, PTE_W),
      (0xFE000000, 0xFE000000, 0, PTE_W)]"

fun map_kernel :: "u32 \<Rightarrow> u32 \<Rightarrow> (u32 \<times> u32 \<times> u32 \<times> u32) list \<Rightarrow> kmem \<Rightarrow> (u32 \<times> kmem) result" where
  "map_kernel kend pgdir [] s = Inr (pgdir, s)"
| "map_kernel kend pgdir ((virt, phys_start, phys_end, perm) # ks) s =
     rbind (mappages pgdir virt (phys_end - phys_start) phys_start perm s) (\<lambda>(r, s1).
       if r < 0 then rbind (freevm kend pgdir s1) (\<lambda>s2. Inr (0, s2))
       else map_kernel kend pgdir ks s1)"

definition setupkvm :: "u32 \<Rightarrow> u32 \<Rightarrow> kmem \<Rightarrow> (u32 \<times> kmem) result" where
  "setupkvm kend data s =
     (let (pgdir, s1) = kalloc s in
      if pgdir = 0 then Inr (0, s1)
      else rbind (ensure (\<not> P2V PHYSTOP > 0xFE000000) (Panic ''PHYSTOP too high'')) (\<lambda>_.
           map_kernel kend pgdir (kmap data) (fill_page pgdir 0 s1)))"

text \<open>
  \<open>inituvm\<close>: the program image, padded with zeros, is the page \<open>init\<close>. The result of \<open>kalloc\<close> is not
  checked, nor is that of \<open>mappages\<close>.
\<close>

definition inituvm :: "u32 \<Rightarrow> (10 word \<Rightarrow> u32) \<Rightarrow> u32 \<Rightarrow> kmem \<Rightarrow> kmem result" where
  "inituvm pgdir init sz s =
     rbind (ensure (sz < 4096) (Panic ''inituvm: more than a page'')) (\<lambda>_.
     let (mem, s1) = kalloc s in
     rbind (ensure (mem \<noteq> 0) NullDeref) (\<lambda>_.
     rbind (mappages pgdir 0 4096 (V2P mem) (PTE_W OR PTE_U) (fill_page mem 0 s1)) (\<lambda>(_, s2).
     Inr (s2\<lparr>pmem := (pmem s2)(kpage mem := init)\<rparr>))))"

function alloc_loop :: "u32 \<Rightarrow> u32 \<Rightarrow> u32 \<Rightarrow> u32 \<Rightarrow> u32 \<Rightarrow> kmem \<Rightarrow> (u32 \<times> kmem) result" where
  "alloc_loop kend pgdir oldsz newsz a s =
     (if a < newsz then
        (let (mem, s1) = kalloc s in
         if mem = 0 then rbind (deallocuvm kend pgdir newsz oldsz s1) (\<lambda>(_, s2). Inr (0, s2))
         else
           rbind (mappages pgdir a 4096 (V2P mem) (PTE_W OR PTE_U) (fill_page mem 0 s1)) (\<lambda>(r, s2).
           if r < 0 then
             rbind (deallocuvm kend pgdir newsz oldsz s2) (\<lambda>(_, s3).
             rbind (kfree kend mem s3) (\<lambda>s4. Inr (0, s4)))
           else
             rbind (deref_pte (fst (walkpgdir pgdir a False s2))) (\<lambda>pte.
             rbind (incr_refc (pload s2 pte) s2) (\<lambda>s3.
             if a < a + 4096 then alloc_loop kend pgdir oldsz newsz (a + 4096) s3 else Inl Hang))))
      else Inr (newsz, s))"
  by pat_completeness auto
termination
  by (relation "measure (\<lambda>(kend, pgdir, oldsz, newsz, a, s). 2 ^ 32 - unat a)")
    (auto simp: word_less_nat_alt intro!: diff_less_mono2 order_less_le_trans [OF unsigned_less])

declare alloc_loop.simps [simp del]

definition allocuvm :: "u32 \<Rightarrow> u32 \<Rightarrow> u32 \<Rightarrow> u32 \<Rightarrow> kmem \<Rightarrow> (u32 \<times> kmem) result" where
  "allocuvm kend pgdir oldsz newsz s =
     (if newsz \<ge> KERNBASE then Inr (0, s)
      else if newsz < oldsz then Inr (oldsz, s)
      else alloc_loop kend pgdir oldsz newsz (PGROUNDUP oldsz) s)"

definition clearpteu :: "u32 \<Rightarrow> u32 \<Rightarrow> 's kmem_scheme \<Rightarrow> 's kmem_scheme result" where
  "clearpteu pgdir uva s =
     (case fst (walkpgdir pgdir uva False s) of
        None \<Rightarrow> Inl (Panic ''clearpteu'')
      | Some pte \<Rightarrow> Inr (pstore pte (pload s pte AND NOT PTE_U) s))"

definition uva2ka :: "u32 \<Rightarrow> u32 \<Rightarrow> 's kmem_scheme \<Rightarrow> u32 result" where
  "uva2ka pgdir uva s =
     rbind (deref_pte (fst (walkpgdir pgdir uva False s))) (\<lambda>pte.
       if \<not> present (pload s pte) then Inr 0
       else if pload s pte AND PTE_U = 0 then Inr 0
       else Inr (P2V (PTE_ADDR (pload s pte))))"

section \<open>Copying and sharing an address space\<close>

text \<open>The page of the parent at the address \<open>i\<close>, with the panics of \<open>copyuvm\<close> and \<open>sharerouvm\<close>.\<close>

definition parent_pte :: "u32 \<Rightarrow> u32 \<Rightarrow> 's kmem_scheme \<Rightarrow> pte_ptr result" where
  "parent_pte pgdir i s =
     (case fst (walkpgdir pgdir i False s) of
        None \<Rightarrow> Inl (Panic ''copyuvm: pte should exist'')
      | Some pte \<Rightarrow> if \<not> present (pload s pte) then Inl (Panic ''copyuvm: page not present'') else Inr pte)"

function copy_loop :: "u32 \<Rightarrow> u32 \<Rightarrow> u32 \<Rightarrow> u32 \<Rightarrow> u32 \<Rightarrow> kmem \<Rightarrow> (u32 \<times> kmem) result" where
  "copy_loop kend d pgdir sz i s =
     (if i < sz then
        rbind (parent_pte pgdir i s) (\<lambda>pte.
        let pa = PTE_ADDR (pload s pte); flags = PTE_FLAGS (pload s pte); (mem, s1) = kalloc s in
        if mem = 0 then rbind (freevm kend d s1) (\<lambda>s2. Inr (0, s2))
        else
          rbind (mappages d i 4096 (V2P mem) flags (copy_page mem (P2V pa) s1)) (\<lambda>(r, s2).
          if r < 0 then
            rbind (kfree kend mem s2) (\<lambda>s3. rbind (freevm kend d s3) (\<lambda>s4. Inr (0, s4)))
          else if i < i + 4096 then copy_loop kend d pgdir sz (i + 4096) s2 else Inl Hang))
      else Inr (d, s))"
  by pat_completeness auto
termination
  by (relation "measure (\<lambda>(kend, d, pgdir, sz, i, s). 2 ^ 32 - unat i)")
    (auto simp: word_less_nat_alt intro!: diff_less_mono2 order_less_le_trans [OF unsigned_less])

declare copy_loop.simps [simp del]

definition copyuvm :: "u32 \<Rightarrow> u32 \<Rightarrow> u32 \<Rightarrow> u32 \<Rightarrow> kmem \<Rightarrow> (u32 \<times> kmem) result" where
  "copyuvm kend data pgdir sz s =
     rbind (setupkvm kend data s) (\<lambda>(d, s1).
       if d = 0 then Inr (0, s1) else copy_loop kend d pgdir sz 0 s1)"

text \<open>One round of the loop of \<open>sharerouvm\<close>: the child maps the page of the parent, both read-only.\<close>

definition share_page :: "u32 \<Rightarrow> u32 \<Rightarrow> u32 \<Rightarrow> 's kmem_scheme \<Rightarrow> (int \<times> 's kmem_scheme) result" where
  "share_page d pgdir i s =
     rbind (parent_pte pgdir i s) (\<lambda>pte.
     let flags = PTE_FLAGS (pload s pte) AND NOT PTE_W in
     rbind (mappages d i 4096 (PTE_ADDR (pload s pte)) flags s) (\<lambda>(r, s1).
     if r < 0 then Inr (r, s1)
     else let s2 = pstore pte (pload s1 pte AND NOT PTE_W) s1 in
          rbind (incr_refc (pload s2 pte) s2) (\<lambda>s3. Inr (0, s3))))"

function share_loop :: "u32 \<Rightarrow> u32 \<Rightarrow> u32 \<Rightarrow> u32 \<Rightarrow> u32 \<Rightarrow> kmem \<Rightarrow> (u32 \<times> kmem) result" where
  "share_loop kend d pgdir sz i s =
     (if i < sz then
        rbind (share_page d pgdir i s) (\<lambda>(r, s1).
        if r < 0 then rbind (freevm kend d s1) (\<lambda>s2. Inr (0, s2))
        else if i < i + 4096 then share_loop kend d pgdir sz (i + 4096) s1 else Inl Hang)
      else Inr (d, s))"
  by pat_completeness auto
termination
  by (relation "measure (\<lambda>(kend, d, pgdir, sz, i, s). 2 ^ 32 - unat i)")
    (auto simp: word_less_nat_alt intro!: diff_less_mono2 order_less_le_trans [OF unsigned_less])

declare share_loop.simps [simp del]

definition sharerouvm :: "u32 \<Rightarrow> u32 \<Rightarrow> u32 \<Rightarrow> u32 \<Rightarrow> kmem \<Rightarrow> (u32 \<times> kmem) result" where
  "sharerouvm kend data pgdir sz s =
     rbind (setupkvm kend data s) (\<lambda>(d, s1).
       if d = 0 then Inr (0, s1) else share_loop kend d pgdir sz 0 s1)"

section \<open>The page fault handler\<close>

definition cow_handler_1 :: "u32 \<Rightarrow> u32 \<Rightarrow> pte_ptr \<Rightarrow> u32 \<Rightarrow> 's kmem_scheme \<Rightarrow> 's kmem_scheme result" where
  "cow_handler_1 kend pgdir pte fltaddr s =
     (let pa = PTE_ADDR (pload s pte); flags = PTE_FLAGS (pload s pte) OR PTE_W; (mem, s1) = kalloc s in
      if mem = 0 then Inr s1
      else
        rbind (decr_refc (pload (copy_page mem (P2V pa) s1) pte) (copy_page mem (P2V pa) s1)) (\<lambda>s2.
        rbind (mappages pgdir (fltaddr AND 0xFFFFF000) 4096 (V2P mem) flags (pstore pte 0 s2)) (\<lambda>(r, s3).
        rbind (if r < 0 then kfree kend mem s3 else Inr s3) (\<lambda>s4.
        rbind (deref_pte (fst (walkpgdir pgdir (fltaddr AND 0xFFFFF000) False s4))) (\<lambda>pte1.
        incr_refc (pload s4 pte1) s4)))))"

text \<open>
  The result says whether \<open>killed\<close> was set. The code goes on after that with the null pointer, so a
  fault at an address without a page table reads through it.
\<close>

definition cow_handler :: "u32 \<Rightarrow> u32 \<Rightarrow> u32 \<Rightarrow> 's kmem_scheme \<Rightarrow> (bool \<times> 's kmem_scheme) result" where
  "cow_handler kend pgdir fltaddr s =
     (let p = fst (walkpgdir pgdir fltaddr False s); killed = (p = None) in
      rbind (deref_pte p) (\<lambda>pte.
      rbind (get_refc (pload s pte) s) (\<lambda>refcount.
      if refcount = 0 then Inr (killed, s)
      else if refcount = 1 then Inr (killed, pstore pte (pload s pte OR PTE_W) s)
      else rbind (cow_handler_1 kend pgdir pte fltaddr s) (\<lambda>s1. Inr (killed, s1)))))"

section \<open>Counting pages\<close>

definition countvp :: "u32 \<Rightarrow> u32" where
  "countvp sz = sz div 4096"

definition page_counted :: "'s kmem_scheme \<Rightarrow> u32 \<Rightarrow> u32 \<Rightarrow> bool" where
  "page_counted s pgdir va =
     (let pde = pload s (kpage pgdir, PDX va) in
      present pde \<and> present (pload s (kpage (P2V (PTE_ADDR pde)), PTX va)))"

fun countpp_loop :: "nat \<Rightarrow> u32 \<Rightarrow> u32 \<Rightarrow> 's kmem_scheme \<Rightarrow> int \<Rightarrow> int" where
  "countpp_loop 0 pgdir va s cnt = cnt"
| "countpp_loop (Suc n) pgdir va s cnt =
     countpp_loop n pgdir (va + 4096) s (if page_counted s pgdir va then cnt + 1 else cnt)"

definition countpp :: "u32 \<Rightarrow> 's kmem_scheme \<Rightarrow> int" where
  "countpp pgdir s = countpp_loop (unat (page_of KERNBASE)) pgdir 0 s 0"

fun countptp_loop :: "10 word list \<Rightarrow> u32 \<Rightarrow> 's kmem_scheme \<Rightarrow> int \<Rightarrow> int" where
  "countptp_loop [] pgdir s cnt = cnt"
| "countptp_loop (i # is) pgdir s cnt =
     countptp_loop is pgdir s (if present (pload s (kpage pgdir, i)) then cnt + 1 else cnt)"

definition countptp :: "u32 \<Rightarrow> 's kmem_scheme \<Rightarrow> int" where
  "countptp pgdir s = countptp_loop (map of_nat [0..<1024]) pgdir s 1"

end
