(* ===== verification/Cow.thy ===== *)
theory Cow
  imports Vm
begin

text \<open>
  The copy on write of \<open>Project4\<close>: what the page tables of the processes map, what the page fault
  handler and the sharing of a page do to it, and why no process sees the writes of another.
\<close>

section \<open>Addresses\<close>

lemma bit_round: "bit (va AND 0xFFFFF000 :: u32) n \<longleftrightarrow> bit va n \<and> 12 \<le> n"
proof -
  have m: "(0xFFFFF000 :: u32) = NOT 0xFFF" by simp
  show ?thesis unfolding m bit_and_iff bit_not_iff low_bits_word
    using bit_imp_le_length [of va n] by (auto simp: possible_bit_def)
qed

lemma PDX_round [simp]: "PDX (va AND 0xFFFFF000) = PDX va"
  unfolding PDX_def by (rule bit_word_eqI) (simp only: bit_ucast_iff bit_drop_bit_eq comp_def bit_round, simp)

lemma PTX_round [simp]: "PTX (va AND 0xFFFFF000) = PTX va"
  unfolding PTX_def by (rule bit_word_eqI) (simp only: bit_ucast_iff bit_drop_bit_eq comp_def bit_round, simp)

definition aligned :: "u32 \<Rightarrow> bool" where
  "aligned a \<longleftrightarrow> a AND 0xFFF = 0"

lemma aligned_round: "aligned (va AND 0xFFFFF000)"
proof -
  have m: "(0xFFFFF000 :: u32) = NOT 0xFFF" by simp
  show ?thesis unfolding m aligned_def by (rule bit_word_eqI) (auto simp: bit_simps)
qed

lemma aligned_round_down:
  assumes "aligned a"
  shows "a AND NOT 0xFFF = a"
proof (rule bit_word_eqI)
  fix n assume "n < LENGTH(32)"
  then show "bit (a AND NOT 0xFFF) n = bit a n"
    using arg_cong [OF assms [unfolded aligned_def], of "\<lambda>w. bit w n"]
    by (auto simp: bit_simps bit_low_bits)
qed

lemma aligned_round_up:
  assumes "aligned a"
  shows "(a + 0xFFF) AND NOT 0xFFF = a"
proof -
  have "a + 0xFFF = a OR 0xFFF"
    by (rule disjunctive_add) (use arg_cong [OF assms [unfolded aligned_def]] in \<open>metis bit_and_iff bit_0_eq bot_apply bot_bool_def\<close>)
  moreover have "(a OR 0xFFF) AND NOT 0xFFF = a AND NOT 0xFFF"
    by (rule bit_word_eqI) (auto simp: bit_simps)
  ultimately show ?thesis using aligned_round_down [OF assms] by simp
qed

lemma mappages_one:
  assumes "aligned a"
  shows "mappages d a 4096 pa perm s = mappages_loop 0 d a pa perm s"
proof -
  have "PGROUNDDOWN (a + 4096 - 1) = a" "PGROUNDDOWN a = a"
    using aligned_round_down [OF assms] aligned_round_up [OF assms]
    by (simp_all add: PGROUNDDOWN_def add.commute)
  then show ?thesis unfolding mappages_def Let_def by simp
qed

lemma unat_page_of: "unat (page_of a) = unat a div 4096"
proof -
  have "unat (drop_bit 12 a) = unat a div 4096"
    by (simp add: drop_bit_eq_div unat_div)
  moreover have "unat a < 2 ^ LENGTH(32)" by (rule unsigned_less)
  then have "unat a div 4096 < 2 ^ 20" by simp
  ultimately show ?thesis by (simp add: page_of_def unsigned_ucast_eq take_bit_eq_mod)
qed

lemma kfree_ok_index:
  assumes "kfree_ok kend v"
  shows "kpage v < page_of PHYSTOP"
proof -
  have "unat (V2P v) < 0xE000000" using kfree_okD(1) [OF assms] by (simp add: word_less_nat_alt)
  then have "unat (kpage v) < unat (page_of PHYSTOP)"
    unfolding kpage_def unat_page_of by simp
  then show ?thesis by (simp add: word_less_nat_alt)
qed

lemma page_P2V [simp]: "kpage (P2V (PTE_ADDR e)) = page_of e"
  by (simp add: kpage_def)

text \<open>The entry that maps the page \<open>v\<close> with the flags \<open>f\<close>.\<close>

definition flags_only :: "u32 \<Rightarrow> bool" where
  "flags_only f \<longleftrightarrow> f AND NOT 0xFFF = 0"

lemma flags_only_or: "flags_only f \<Longrightarrow> flags_only g \<Longrightarrow> flags_only (f OR g)"
  by (simp add: flags_only_def bit.conj_disj_distrib2)

lemma flags_only_PTE_FLAGS [simp]: "flags_only (PTE_FLAGS e)"
  unfolding flags_only_def PTE_FLAGS_def by (rule bit_word_eqI) (auto simp: bit_simps)

lemma flags_only_bits [simp]: "flags_only PTE_P" "flags_only PTE_W" "flags_only PTE_U"
  by (simp_all add: flags_only_def)

lemma entry_of_page:
  assumes "kfree_ok kend v" and "flags_only f"
  shows "page_of (V2P v OR f) = kpage v" and "PTE_FLAGS (V2P v OR f) = f"
  using page_of_or_flags [of f "kpage v"] PTE_FLAGS_or [of f "kpage v"] kpage_addr(1) [OF assms(1)]
    assms(2) by (simp_all add: flags_only_def)

lemma present_or [simp]: "present (a OR b) \<longleftrightarrow> present a \<or> present b"
proof -
  have "(a OR b) AND 1 = (a AND 1) OR (b AND 1)" by (simp add: bit.conj_disj_distrib2)
  then show ?thesis by (simp add: present_def or_eq_0_iff)
qed

lemma flags_only_3 [simp]: "flags_only 3" and present_3 [simp]: "present 3"
  by (simp_all add: flags_only_def present_def)

lemma present_P [simp]: "present PTE_P" and present_0 [simp]: "\<not> present 0"
  by (simp_all add: present_def)

section \<open>Translation\<close>

text \<open>
  The present entry in slot \<open>j\<close> of the table \<open>i\<close> of an address space, and the contents of the page
  that a process sees there. The user part of an address space is the tables below 512.
\<close>

definition entry :: "'s kmem_scheme \<Rightarrow> u32 \<Rightarrow> 10 word \<Rightarrow> 10 word \<Rightarrow> u32 option" where
  "entry s d i j = (let pde = pmem s (kpage d) i; e = pmem s (page_of pde) j in
     if present pde \<and> present e then Some e else None)"

definition view :: "'s kmem_scheme \<Rightarrow> u32 \<Rightarrow> 10 word \<Rightarrow> 10 word \<Rightarrow> (10 word \<Rightarrow> u32) option" where
  "view s d i j = map_option (\<lambda>e. pmem s (page_of e)) (entry s d i j)"

text \<open>The pages that hold the directory and the tables of an address space.\<close>

definition tables :: "'s kmem_scheme \<Rightarrow> u32 \<Rightarrow> ppage set" where
  "tables s d = insert (kpage d) {page_of (pmem s (kpage d) i) | i. present (pmem s (kpage d) i)}"

lemma tables_pde: "present (pmem s (kpage d) (PDX va)) \<Longrightarrow> page_of (pmem s (kpage d) (PDX va)) \<in> tables s d"
  by (auto simp: tables_def)

lemma walk_present:
  assumes "present (pmem s (kpage d) (PDX va))"
  shows "walkpgdir d va b s = (Some (page_of (pmem s (kpage d) (PDX va)), PTX va), s)"
  using assms by (simp add: walkpgdir_def pload_def)

section \<open>The page fault handler\<close>

text \<open>What the handler does on a page that is mapped more than once.\<close>

lemma cow_handler_split:
  assumes fp: "free_pages kend s (v # vs)"
    and pde: "present (pmem s (kpage d) (PDX va))" "t = page_of (pmem s (kpage d) (PDX va))"
    and e: "e = pmem s t (PTX va)" "page_of e < page_of PHYSTOP"
    and rc: "sint (refcount s (page_of e)) \<notin> {0, 1}"
    and sep': "kpage d \<notin> kpage ` set (v # vs)" "t \<notin> kpage ` set (v # vs)" "t \<noteq> kpage d"
  shows "\<exists>s'. cow_handler kend d va s = Inr (False, s') \<and> free_pages kend s' vs \<and>
    pmem s' = (pmem s)(kpage v := pmem s (page_of e),
      t := (pmem s t)(PTX va := V2P v OR (PTE_FLAGS e OR PTE_W) OR PTE_P)) \<and>
    refcount s' = ((refcount s)(page_of e := refcount s (page_of e) - 1))
      (kpage v := ((refcount s)(page_of e := refcount s (page_of e) - 1)) (kpage v) + 1)"
proof -
  have sep: "kpage v \<noteq> kpage d" "kpage v \<noteq> t" "t \<noteq> kpage d" using sep' by auto
  have v: "kfree_ok kend v" "v \<noteq> 0" using fp kfree_okD(4) by (auto simp: free_pages_def)
  obtain s1 where s1: "kalloc s = (v, s1)" "free_pages kend s1 vs"
    using fp by (auto simp: free_pages_def kalloc_def)
  have s1': "pmem s1 = pmem s" "refcount s1 = refcount s"
    using s1(1) by (auto simp: kalloc_def split: if_splits)
  let ?a = "va AND 0xFFFFF000"
  define new where "new = V2P v OR (PTE_FLAGS e OR PTE_W) OR PTE_P"
  have pn: "page_of new = kpage v" "present new"
    using entry_of_page(1) [OF v(1), of "(PTE_FLAGS e OR PTE_W) OR PTE_P"]
    by (simp_all add: new_def flags_only_or or.assoc)
  define s2 where "s2 = (copy_page v (P2V (PTE_ADDR e)) s1)
    \<lparr>refcount := (refcount s)(page_of e := refcount s (page_of e) - 1)\<rparr>"
  define s3 where "s3 = pstore (t, PTX va) new (pstore (t, PTX va) 0 s2)"
  define s4 where "s4 = s3\<lparr>refcount := (refcount s3)(kpage v := refcount s3 (kpage v) + 1)\<rparr>"
  have w: "walkpgdir d va False s = (Some (t, PTX va), s)"
    using walk_present [OF pde(1)] pde(2) by simp
  have l: "pload s (t, PTX va) = e" by (simp add: pload_def e)
  have l1: "pload (copy_page v (P2V (PTE_ADDR e)) s1) (t, PTX va) = e"
    using sep by (simp add: pload_def copy_page_def s1' e)
  have d1: "decr_refc e (copy_page v (P2V (PTE_ADDR e)) s1) = Inr s2"
    using e(2) by (simp add: decr_refc_def refc_index_def s2_def copy_page_def s1')
  have pm2: "pmem s2 = (pmem s)(kpage v := pmem s (page_of e))"
    by (simp add: s2_def copy_page_def s1')
  have pde3: "pmem (pstore (t, PTX va) w s2) (kpage d) = pmem s (kpage d)" for w
    using sep by (simp add: pstore_def pm2)
  have m: "mappages d ?a 4096 (V2P v) (PTE_FLAGS e OR PTE_W) (pstore (t, PTX va) 0 s2) = Inr (0, s3)"
    using pde walk_present [of "pstore (t, PTX va) 0 s2" d ?a True] pde3
    by (simp add: mappages_one [OF aligned_round] mappages_loop.simps pload_def pstore_def s3_def new_def)
  have pm3: "pmem s3 = (pmem s)(kpage v := pmem s (page_of e), t := (pmem s t)(PTX va := new))"
    using sep by (simp add: s3_def pstore_def pm2 fun_upd_def fun_eq_iff)
  have w3: "walkpgdir d ?a False s3 = (Some (t, PTX va), s3)"
    using pde walk_present [of s3 d ?a False] pm3 sep by simp
  have i: "incr_refc (pload s3 (t, PTX va)) s3 = Inr s4"
    using kfree_ok_index [OF v(1)]
    by (simp add: incr_refc_def refc_index_def pload_def pm3 pn s4_def)
  have h1: "cow_handler_1 kend d (t, PTX va) va s = Inr s4"
    using v(2) by (simp add: cow_handler_1_def s1(1) l l1 d1 m w3 i deref_pte_def Let_def)
  have h: "cow_handler kend d va s = Inr (False, s4)"
    using rc e(2) by (simp add: cow_handler_def w deref_pte_def l get_refc_def refc_index_def h1)
  have "chain (pmem s4) (freelist s4) vs"
  proof -
    have "freelist s4 = freelist s1" by (simp add: s4_def s3_def s2_def pstore_def copy_page_def)
    moreover have "chain (pmem s4) (freelist s1) vs = chain (pmem s1) (freelist s1) vs"
    proof (rule chain_cong)
      fix x assume "x \<in> set vs"
      then have "kpage x \<noteq> kpage v"
        using fp kpage_inject [of kend x v] by (auto simp: free_pages_def)
      moreover have "kpage x \<noteq> t" using sep'(2) \<open>x \<in> set vs\<close> by auto
      ultimately show "pmem s4 (kpage x) 0 = pmem s1 (kpage x) 0"
        by (simp add: s4_def pm3 s1')
    qed
    ultimately show ?thesis using s1(2) by (simp add: free_pages_def)
  qed
  then have "free_pages kend s4 vs" using s1(2) by (simp add: free_pages_def)
  moreover have "pmem s4 = pmem s3" "refcount s3 = (refcount s)(page_of e := refcount s (page_of e) - 1)"
    by (simp_all add: s4_def s3_def s2_def pstore_def)
  ultimately show ?thesis using h by (auto simp: pm3 new_def s4_def)
qed

section \<open>The invariant of the address spaces\<close>

text \<open>
  The slots that map a page in the address spaces \<open>D\<close>. The invariant: free pages, page tables and
  user pages are different pages, the tables are not shared, and the reference count of a page is
  the number of slots that map it (as an 8-bit number).
\<close>

definition maps :: "'s kmem_scheme \<Rightarrow> u32 set \<Rightarrow> ppage \<Rightarrow> (u32 \<times> 10 word \<times> 10 word) set" where
  "maps s D p = {(d, i, j). d \<in> D \<and> i < 512 \<and> (\<exists>e. entry s d i j = Some e \<and> page_of e = p)}"

definition table_ok :: "'s kmem_scheme \<Rightarrow> u32 \<Rightarrow> bool" where
  "table_ok s d \<longleftrightarrow>
     (\<forall>i. present (pmem s (kpage d) i) \<longrightarrow> page_of (pmem s (kpage d) i) \<noteq> kpage d) \<and>
     (\<forall>i i'. present (pmem s (kpage d) i) \<longrightarrow> present (pmem s (kpage d) i') \<longrightarrow>
        page_of (pmem s (kpage d) i) = page_of (pmem s (kpage d) i') \<longrightarrow> i = i')"

definition vm_inv :: "u32 \<Rightarrow> 's kmem_scheme \<Rightarrow> u32 set \<Rightarrow> u32 list \<Rightarrow> bool" where
  "vm_inv kend s D vs \<longleftrightarrow> finite D \<and> free_pages kend s vs \<and>
     (\<forall>d\<in>D. table_ok s d \<and> tables s d \<inter> kpage ` set vs = {}) \<and>
     (\<forall>d\<in>D. \<forall>d'\<in>D. d \<noteq> d' \<longrightarrow> tables s d \<inter> tables s d' = {}) \<and>
     (\<forall>d\<in>D. \<forall>d'\<in>D. \<forall>i j e. i < 512 \<longrightarrow> entry s d i j = Some e \<longrightarrow>
        page_of e \<notin> tables s d' \<and> page_of e \<notin> kpage ` set vs \<and> page_of e < page_of PHYSTOP) \<and>
     (\<forall>p. refcount s p = of_nat (card (maps s D p)))"

lemma vm_invD:
  assumes "vm_inv kend s D vs"
  shows "finite D" and "free_pages kend s vs"
    and "d \<in> D \<Longrightarrow> table_ok s d" and "d \<in> D \<Longrightarrow> p \<in> tables s d \<Longrightarrow> p \<notin> kpage ` set vs"
    and "d \<in> D \<Longrightarrow> d' \<in> D \<Longrightarrow> p \<in> tables s d \<Longrightarrow> p \<in> tables s d' \<Longrightarrow> d = d'"
    and "d \<in> D \<Longrightarrow> d' \<in> D \<Longrightarrow> i < 512 \<Longrightarrow> entry s d i j = Some e \<Longrightarrow> page_of e \<notin> tables s d'"
    and "d \<in> D \<Longrightarrow> i < 512 \<Longrightarrow> entry s d i j = Some e \<Longrightarrow> page_of e \<notin> kpage ` set vs"
    and "d \<in> D \<Longrightarrow> i < 512 \<Longrightarrow> entry s d i j = Some e \<Longrightarrow> page_of e < page_of PHYSTOP"
    and "refcount s p = of_nat (card (maps s D p))"
  using assms unfolding vm_inv_def by blast+

lemma vm_invI:
  assumes "finite D" and "free_pages kend s vs" and "\<And>d. d \<in> D \<Longrightarrow> table_ok s d"
    and "\<And>d p. d \<in> D \<Longrightarrow> p \<in> tables s d \<Longrightarrow> p \<notin> kpage ` set vs"
    and "\<And>d d' p. d \<in> D \<Longrightarrow> d' \<in> D \<Longrightarrow> p \<in> tables s d \<Longrightarrow> p \<in> tables s d' \<Longrightarrow> d = d'"
    and "\<And>d d' i j e. d \<in> D \<Longrightarrow> d' \<in> D \<Longrightarrow> i < 512 \<Longrightarrow> entry s d i j = Some e \<Longrightarrow>
      page_of e \<notin> tables s d' \<and> page_of e \<notin> kpage ` set vs \<and> page_of e < page_of PHYSTOP"
    and "\<And>p. refcount s p = of_nat (card (maps s D p))"
  shows "vm_inv kend s D vs"
  unfolding vm_inv_def
proof (intro conjI ballI allI impI)
  show "tables s d \<inter> kpage ` set vs = {}" if "d \<in> D" for d using assms(4) [OF that] by blast
  show "tables s d \<inter> tables s d' = {}" if "d \<in> D" "d' \<in> D" "d \<noteq> d'" for d d'
    using assms(5) [OF that(1,2)] that(3) by blast
qed (use assms(6) in \<open>simp_all add: assms(1,2,3,7)\<close>)

lemma finite_maps: "finite D \<Longrightarrow> finite (maps s D p)"
  by (rule finite_subset [of _ "D \<times> UNIV \<times> UNIV"]) (auto simp: maps_def)

lemma entry_present:
  assumes "entry s d i j = Some e"
  shows "present (pmem s (kpage d) i)" and "present e"
    and "pmem s (page_of (pmem s (kpage d) i)) j = e"
  using assms by (auto simp: entry_def Let_def split: if_splits)

text \<open>
  A change of one entry \<open>(d, i, j)\<close> to \<open>e'\<close>, with the page of \<open>e'\<close> either the old one or the first
  free page, which takes the contents of the old one.
\<close>

lemma entry_written:
  assumes inv: "vm_inv kend s D ws" and d: "d \<in> D" and t: "t = page_of (pmem s (kpage d) i)"
    and pde: "present (pmem s (kpage d) i)"
    and pm: "\<And>p. p \<noteq> q \<Longrightarrow> p \<noteq> t \<Longrightarrow> pmem s' p = pmem s p" "pmem s' t = (pmem s t)(j := e')"
    and q: "q \<notin> (\<Union>d\<in>D. tables s d)"
    and d': "d' \<in> D"
  shows "pmem s' (kpage d') = pmem s (kpage d')" and "tables s' d' = tables s d'"
    and "table_ok s' d' = table_ok s d'"
    and "entry s' d' i' j' =
      (if (d', i', j') = (d, i, j) then if present e' then Some e' else None else entry s d' i' j')"
proof -
  have tt: "t \<in> tables s d" using pde by (auto simp: tables_def t)
  have kd: "kpage d' \<in> tables s d'" by (simp add: tables_def)
  have "kpage d' \<noteq> t"
  proof
    assume eq: "kpage d' = t"
    then have "d' = d" using vm_invD(5) [OF inv d' d] kd tt by auto
    with eq vm_invD(3) [OF inv d] pde show False by (auto simp: table_ok_def t)
  qed
  moreover have "kpage d' \<noteq> q" using q d' kd by auto
  ultimately show k: "pmem s' (kpage d') = pmem s (kpage d')" using pm(1) by simp
  show "tables s' d' = tables s d'" and "table_ok s' d' = table_ok s d'"
    by (simp_all add: tables_def table_ok_def k)
  show "entry s' d' i' j' =
      (if (d', i', j') = (d, i, j) then if present e' then Some e' else None else entry s d' i' j')"
  proof (cases "present (pmem s (kpage d') i')")
    case False
    then show ?thesis using pde by (auto simp: entry_def k)
  next
    case True
    let ?t = "page_of (pmem s (kpage d') i')"
    have t': "?t \<in> tables s d'" using True by (auto simp: tables_def)
    then have "?t \<noteq> q" using q d' by auto
    show ?thesis
    proof (cases "?t = t")
      case eq: True
      then have "d' = d" using vm_invD(5) [OF inv d' d] t' tt by auto
      moreover have "i' = i"
        using vm_invD(3) [OF inv d] True pde eq \<open>d' = d\<close> unfolding table_ok_def t by blast
      moreover have "pmem s' (kpage d) = pmem s (kpage d)" using k \<open>d' = d\<close> by simp
      ultimately show ?thesis using pde pm(2) by (simp add: entry_def Let_def t)
    next
      case False
      then have "(d', i') \<noteq> (d, i)" using t by auto
      with False \<open>?t \<noteq> q\<close> True pm(1) show ?thesis by (auto simp: entry_def k)
    qed
  qed
qed

lemma entry_changed:
  assumes "vm_inv kend s D ws" and "d \<in> D" and "t = page_of (pmem s (kpage d) i)"
    and "present (pmem s (kpage d) i)" and "present e'"
    and "\<And>p. p \<noteq> q \<Longrightarrow> p \<noteq> t \<Longrightarrow> pmem s' p = pmem s p" "pmem s' t = (pmem s t)(j := e')"
    and "q \<notin> (\<Union>d\<in>D. tables s d)"
    and "d' \<in> D"
  shows "pmem s' (kpage d') = pmem s (kpage d')" and "tables s' d' = tables s d'"
    and "table_ok s' d' = table_ok s d'"
    and "entry s' d' i' j' = (if (d', i', j') = (d, i, j) then Some e' else entry s d' i' j')"
  using entry_written [OF assms(1-4,6-9)] assms(5) by simp_all

lemma maps_changed:
  assumes "d \<in> D" and "i < 512"
    and "\<And>d' i' j'. d' \<in> D \<Longrightarrow>
      entry s' d' i' j' = (if (d', i', j') = (d, i, j) then Some e' else entry s d' i' j')"
  shows "maps s' D p = (maps s D p - {(d, i, j)}) \<union> (if page_of e' = p then {(d, i, j)} else {})"
  using assms(1,2) by (auto simp: maps_def assms(3) split: if_splits)

lemma page_of_or_W [simp]: "page_of (e OR PTE_W) = page_of e"
proof -
  have "page_addr (page_of e) OR (PTE_FLAGS e OR PTE_W) = e OR PTE_W"
    unfolding PTE_ADDR_page [symmetric] PTE_ADDR_def PTE_FLAGS_def
    by (rule bit_word_eqI) (auto simp: bit_simps bit_low_bits)
  moreover have "flags_only (PTE_FLAGS e OR PTE_W)" by (simp add: flags_only_or)
  then have "page_of (page_addr (page_of e) OR (PTE_FLAGS e OR PTE_W)) = page_of e"
    unfolding flags_only_def by (rule page_of_or_flags)
  ultimately show ?thesis by simp
qed

lemma sint_count: "c < 128 \<Longrightarrow> sint (of_nat c :: 8 word) = int c"
  by (simp add: signed_of_nat signed_take_bit_int_eq_self)

lemma entry_in_maps: "d \<in> D \<Longrightarrow> i < 512 \<Longrightarrow> entry s d i j = Some e \<Longrightarrow> (d, i, j) \<in> maps s D (page_of e)"
  by (auto simp: maps_def)

lemma free_page_unmapped:
  assumes "vm_inv kend s D vs" and "p \<in> kpage ` set vs"
  shows "maps s D p = {}"
  using vm_invD(7) [OF assms(1)] assms(2) unfolding maps_def by blast

text \<open>
  What a process gets from the handler: its invariant, the contents of every page of every process
  as before, and at the faulting address a writable page that no other slot maps.
\<close>

definition resolved :: "u32 \<Rightarrow> 's kmem_scheme \<Rightarrow> 's kmem_scheme \<Rightarrow> u32 set \<Rightarrow> u32 list \<Rightarrow> u32 \<Rightarrow> 10 word \<Rightarrow> 10 word \<Rightarrow> bool" where
  "resolved kend s s' D vs d i j \<longleftrightarrow> vm_inv kend s' D vs \<and>
     (\<forall>d'\<in>D. \<forall>i' j'. i' < 512 \<longrightarrow> view s' d' i' j' = view s d' i' j') \<and>
     (\<exists>e'. entry s' d i j = Some e' \<and> e' AND PTE_W \<noteq> 0 \<and> maps s' D (page_of e') = {(d, i, j)})"

lemma or_W_set: "(a OR PTE_W) AND PTE_W \<noteq> 0"
proof -
  have "bit ((a OR PTE_W) AND PTE_W) 1" by (simp add: bit_simps bit_numeral_rec)
  then show ?thesis by (metis bit_0_eq bot_apply bot_bool_def)
qed

lemma view_changed:
  assumes c: "entry s' d' i' j' = (if (d', i', j') = (d, i, j) then Some e' else entry s d' i' j')"
    and e: "entry s d i j = Some e" and p: "pmem s' (page_of e') = pmem s (page_of e)"
    and x: "\<And>x. entry s d' i' j' = Some x \<Longrightarrow> pmem s' (page_of x) = pmem s (page_of x)"
  shows "view s' d' i' j' = view s d' i' j'"
proof (cases "(d', i', j') = (d, i, j)")
  case True
  then show ?thesis using c e p by (simp add: view_def)
next
  case False
  then show ?thesis unfolding view_def c using x by (cases "entry s d' i' j'") auto
qed

text \<open>A page that is mapped once becomes writable in place.\<close>

lemma cow_handler_once:
  assumes inv: "vm_inv kend s D vs" and d: "d \<in> D" and i: "PDX va < 512"
    and e: "entry s d (PDX va) (PTX va) = Some e" and once: "card (maps s D (page_of e)) = 1"
  shows "\<exists>s'. cow_handler kend d va s = Inr (False, s') \<and> resolved kend s s' D vs d (PDX va) (PTX va)"
proof -
  note pe = entry_present [OF e]
  define t where "t = page_of (pmem s (kpage d) (PDX va))"
  define s' where "s' = pstore (t, PTX va) (e OR PTE_W) s"
  have tt: "t \<in> tables s d" using tables_pde [of s d va] pe(1) unfolding t_def by blast
  have rc: "refcount s (page_of e) = 1" using vm_invD(9) [OF inv, of "page_of e"] once by simp
  have w: "walkpgdir d va False s = (Some (t, PTX va), s)"
    using walk_present [OF pe(1)] by (simp add: t_def)
  have l: "pload s (t, PTX va) = e" using pe(3) by (simp add: pload_def t_def)
  have h: "cow_handler kend d va s = Inr (False, s')"
    using vm_invD(8) [OF inv d i e] rc
    by (simp add: cow_handler_def w deref_pte_def l get_refc_def refc_index_def s'_def)
  have pm: "pmem s' = (pmem s)(t := (pmem s t)(PTX va := e OR PTE_W))"
    by (simp add: s'_def pstore_def)
  have ne: "page_of e \<notin> (\<Union>d\<in>D. tables s d)" using vm_invD(6) [OF inv d _ i e] by blast
  have pres: "present (e OR PTE_W)" using pe(2) by simp
  have ch: "pmem s' (kpage d') = pmem s (kpage d')" "tables s' d' = tables s d'"
    "table_ok s' d' = table_ok s d'"
    "entry s' d' i' j' = (if (d', i', j') = (d, PDX va, PTX va) then Some (e OR PTE_W) else entry s d' i' j')"
    if "d' \<in> D" for d' i' j'
    by (rule entry_changed [OF inv d t_def pe(1) pres _ _ ne that, where s' = s']; simp add: pm)+
  have mp: "maps s' D p = maps s D p" for p
    using maps_changed [OF d i ch(4), where p = p] entry_in_maps [OF d i e] e
    by (auto simp: maps_def)
  have vw: "view s' d' i' j' = view s d' i' j'" if "d' \<in> D" "i' < 512" for d' i' j'
  proof (rule view_changed [OF ch(4) [OF that(1)] e])
    show "pmem s' (page_of x) = pmem s (page_of x)" if "entry s d' i' j' = Some x" for x
      using vm_invD(6) [OF inv \<open>d' \<in> D\<close> d \<open>i' < 512\<close> that] tt by (auto simp: pm)
    show "pmem s' (page_of (e OR PTE_W)) = pmem s (page_of e)"
      using vm_invD(6) [OF inv d d i e] tt by (auto simp: pm)
  qed
  have "vm_inv kend s' D vs"
  proof (rule vm_invI)
    have "chain (pmem s') (freelist s) vs = chain (pmem s) (freelist s) vs"
    proof (rule chain_cong)
      fix x assume "x \<in> set vs"
      then have "kpage x \<noteq> t" using vm_invD(4) [OF inv d tt] by auto
      then show "pmem s' (kpage x) 0 = pmem s (kpage x) 0" by (simp add: pm)
    qed
    then show "free_pages kend s' vs"
      using vm_invD(2) [OF inv] by (simp add: free_pages_def s'_def pstore_def)
    show "refcount s' p = of_nat (card (maps s' D p))" for p
      using vm_invD(9) [OF inv, of p] by (simp add: mp) (simp add: s'_def pstore_def)
    show "page_of x \<notin> tables s' d2 \<and> page_of x \<notin> kpage ` set vs \<and> page_of x < page_of PHYSTOP"
      if a: "d1 \<in> D" "d2 \<in> D" "i1 < 512" "entry s' d1 i1 j1 = Some x" for d1 d2 i1 j1 x
    proof -
      obtain y where "entry s d1 i1 j1 = Some y" "page_of x = page_of y"
        using a(4) ch(4) [OF a(1), of i1 j1] e by (auto split: if_splits)
      with vm_invD(6) [OF inv a(1,2,3)] vm_invD(7,8) [OF inv a(1,3)] show ?thesis
        by (simp add: ch(2) [OF a(2)])
    qed
  qed (use vm_invD(1,3-5) [OF inv] ch in auto)
  moreover have "maps s' D (page_of (e OR PTE_W)) = {(d, PDX va, PTX va)}"
    using once entry_in_maps [OF d i e] by (auto simp: mp card_1_singleton_iff)
  ultimately show ?thesis
    using h vw ch(4) [OF d] or_W_set [of e] unfolding resolved_def by auto
qed

text \<open>A page that is mapped more than once is copied.\<close>

lemma cow_handler_shared:
  assumes inv: "vm_inv kend s D (v # vs)" and d: "d \<in> D" and i: "PDX va < 512"
    and e: "entry s d (PDX va) (PTX va) = Some e"
    and many: "1 < card (maps s D (page_of e))" "card (maps s D (page_of e)) < 128"
  shows "\<exists>s'. cow_handler kend d va s = Inr (False, s') \<and> resolved kend s s' D vs d (PDX va) (PTX va)"
proof -
  note pe = entry_present [OF e]
  let ?slot = "(d, PDX va, PTX va)"
  define t where "t = page_of (pmem s (kpage d) (PDX va))"
  define new where "new = V2P v OR (PTE_FLAGS e OR PTE_W) OR PTE_P"
  have fp: "free_pages kend s (v # vs)" using vm_invD(2) [OF inv] .
  have v: "kfree_ok kend v" using fp by (simp add: free_pages_def)
  have tt: "t \<in> tables s d" using tables_pde [of s d va] pe(1) unfolding t_def by blast
  have kd: "kpage d \<in> tables s d" by (simp add: tables_def)
  have rc: "sint (refcount s (page_of e)) \<notin> {0, 1}"
  proof -
    define c where "c = card (maps s D (page_of e))"
    have "sint (refcount s (page_of e)) = int c"
      using vm_invD(9) [OF inv, of "page_of e"] many(2) by (simp add: sint_count c_def)
    with many(1) show ?thesis by (simp add: c_def [symmetric])
  qed
  have td: "t \<noteq> kpage d" using vm_invD(3) [OF inv d] pe(1) by (auto simp: table_ok_def t_def)
  obtain s' where s': "cow_handler kend d va s = Inr (False, s')" "free_pages kend s' vs"
    "pmem s' = (pmem s)(kpage v := pmem s (page_of e), t := (pmem s t)(PTX va := new))"
    "refcount s' = ((refcount s)(page_of e := refcount s (page_of e) - 1))
      (kpage v := ((refcount s)(page_of e := refcount s (page_of e) - 1)) (kpage v) + 1)"
    using cow_handler_split [OF fp pe(1) t_def pe(3) [folded t_def, symmetric] vm_invD(8) [OF inv d i e] rc
        vm_invD(4) [OF inv d kd] vm_invD(4) [OF inv d tt] td] unfolding new_def by blast
  have pn: "page_of new = kpage v" "present new" "new AND PTE_W \<noteq> 0"
  proof -
    have f: "flags_only (PTE_FLAGS e OR PTE_W OR PTE_P)" by (intro flags_only_or) simp_all
    show "page_of new = kpage v" "present new"
      using entry_of_page(1) [OF v f] by (simp_all only: new_def or.assoc present_or present_P) simp
    have "new = (V2P v OR PTE_FLAGS e OR PTE_P) OR PTE_W"
      by (rule bit_word_eqI) (auto simp: new_def bit_or_iff)
    then show "new AND PTE_W \<noteq> 0" using or_W_set by simp
  qed
  have vT: "kpage v \<notin> (\<Union>d\<in>D. tables s d)" using vm_invD(4) [OF inv] by force
  have vt: "kpage v \<noteq> t" using vT tt d by auto
  have ve: "kpage v \<noteq> page_of x" if "d' \<in> D" "i' < 512" "entry s d' i' j' = Some x" for d' i' j' x
    using vm_invD(7) [OF inv that] by auto
  have ch: "pmem s' (kpage d') = pmem s (kpage d')" "tables s' d' = tables s d'"
    "table_ok s' d' = table_ok s d'"
    "entry s' d' i' j' = (if (d', i', j') = ?slot then Some new else entry s d' i' j')"
    if "d' \<in> D" for d' i' j'
    by (rule entry_changed [OF inv d t_def pe(1) pn(2) _ _ vT that, where s' = s']; simp add: s'(3))+
  have mp: "maps s' D p = (maps s D p - {?slot}) \<union> (if kpage v = p then {?slot} else {})" for p
    using maps_changed [OF d i ch(4), where p = p] by (simp add: pn(1))
  have sl: "?slot \<in> maps s D (page_of e)" using entry_in_maps [OF d i e] .
  have ot: "maps s D p - {?slot} = maps s D p" if "p \<noteq> page_of e" for p
    using that e by (auto simp: maps_def)
  have fin: "finite (maps s D p)" for p using finite_maps vm_invD(1) [OF inv] .
  have vm: "maps s D (kpage v) = {}" using free_page_unmapped [OF inv, of "kpage v"] by simp
  have vw: "view s' d' i' j' = view s d' i' j'" if a: "d' \<in> D" "i' < 512" for d' i' j'
  proof (rule view_changed [OF ch(4) [OF a(1)] e])
    show "pmem s' (page_of x) = pmem s (page_of x)" if "entry s d' i' j' = Some x" for x
      using vm_invD(6) [OF inv a(1) d a(2) that] tt ve [OF a that] by (auto simp: s'(3))
    show "pmem s' (page_of new) = pmem s (page_of e)" using vt by (simp add: s'(3) pn(1))
  qed
  have "vm_inv kend s' D vs"
  proof (rule vm_invI)
    show "refcount s' p = of_nat (card (maps s' D p))" for p
    proof -
      consider "p = page_of e" | "p = kpage v" | "p \<noteq> page_of e" "p \<noteq> kpage v" by blast
      then show ?thesis
      proof cases
        case 1
        have "card (maps s D p) = Suc (card (maps s D p - {?slot}))"
          using sl fin 1 by (metis card.remove)
        then show ?thesis
          using 1 ve [OF d i e] vm_invD(9) [OF inv, of p] by (simp add: s'(4) mp)
      next
        case 2
        then show ?thesis
          using ve [OF d i e] vm vm_invD(9) [OF inv, of p] by (simp add: s'(4) mp)
      next
        case 3
        then show ?thesis using vm_invD(9) [OF inv, of p] ot [OF 3(1)] by (simp add: s'(4) mp)
      qed
    qed
    show "page_of x \<notin> tables s' d2 \<and> page_of x \<notin> kpage ` set vs \<and> page_of x < page_of PHYSTOP"
      if a: "d1 \<in> D" "d2 \<in> D" "i1 < 512" "entry s' d1 i1 j1 = Some x" for d1 d2 i1 j1 x
    proof (cases "(d1, i1, j1) = ?slot")
      case True
      then have "x = new" using a(4) ch(4) [OF a(1), of i1 j1] by simp
      moreover have "kpage v \<notin> kpage ` set vs"
      proof
        assume "kpage v \<in> kpage ` set vs"
        then obtain w where "w \<in> set vs" "kpage w = kpage v" by auto
        with fp kpage_inject [of kend w v] show False by (auto simp: free_pages_def)
      qed
      ultimately show ?thesis
        using vT a(2) kfree_ok_index [OF v] by (simp add: pn(1) ch(2))
    next
      case False
      then have x: "entry s d1 i1 j1 = Some x" using a(4) ch(4) [OF a(1), of i1 j1] by (auto split: if_splits)
      show ?thesis
        using vm_invD(6) [OF inv a(1,2,3) x] vm_invD(7,8) [OF inv a(1,3) x] by (simp add: ch(2) [OF a(2)])
    qed
    show "p \<notin> kpage ` set vs" if "d' \<in> D" "p \<in> tables s' d'" for d' p
      using vm_invD(4) [OF inv that(1), of p] that(2) ch(2) [OF that(1)] by auto
  qed (use vm_invD(1,3,5) [OF inv] ch s'(2) in auto)
  moreover have "maps s' D (page_of new) = {?slot}" by (simp add: mp pn(1) vm)
  ultimately show ?thesis
    using s'(1) vw ch(4) [OF d] pn(3) unfolding resolved_def by auto
qed

end
