(* ===== verification/CowProps.thy ===== *)
theory CowProps
  imports Cow
begin

text \<open>
  The properties of the page allocator and the copy on write of \<open>Project4\<close>, with their instances on
  a small memory: two processes that share one page, and one free page.
\<close>

section \<open>A small memory\<close>

definition small_mem :: "ppage \<Rightarrow> 10 word \<Rightarrow> u32" where
  "small_mem = (\<lambda>_ _. 0)(0x200 := (\<lambda>_. 0)(0 := 0x201007), 0x201 := (\<lambda>_. 0)(0 := 0x204005),
     0x202 := (\<lambda>_. 0)(0 := 0x203007), 0x203 := (\<lambda>_. 0)(0 := 0x204005), 0x204 := (\<lambda>_. 7))"

definition small :: kmem where
  "small = \<lparr>use_lock = True, freelist = 0x80205000, refcount = (\<lambda>_. 0)(0x204 := 2), pmem = small_mem\<rparr>"

abbreviation small_dirs :: "u32 set" where
  "small_dirs \<equiv> {0x80200000, 0x80202000}"

lemma small_pages [simp]:
  "kpage 0x80200000 = 0x200" "kpage 0x80202000 = 0x202" "kpage 0x80205000 = 0x205"
  "page_of 0x201007 = 0x201" "page_of 0x203007 = 0x203" "page_of 0x204005 = 0x204" "page_of 0 = 0"
  by (simp_all add: kpage_def V2P_def page_of_def)

lemma small_present [simp]: "present 0x201007" "present 0x203007" "present 0x204005" "\<not> present 0"
  by (simp_all add: present_def)

lemma small_select [simp]:
  "pmem small = small_mem" "refcount small = (\<lambda>_. 0)(0x204 := 2)" "freelist small = 0x80205000"
  by (simp_all add: small_def)

lemma small_entry:
  "d \<in> small_dirs \<Longrightarrow> entry small d i j = (if i = 0 \<and> j = 0 then Some 0x204005 else None)"
  by (auto simp: entry_def small_mem_def Let_def)

lemma small_tables: "tables small 0x80200000 = {0x200, 0x201}" "tables small 0x80202000 = {0x202, 0x203}"
  by (auto simp: tables_def small_mem_def split: if_splits intro!: exI [of _ "0 :: 10 word"])

lemma small_free: "free_pages 0x80100000 small [0x80205000]"
  by (simp add: free_pages_def small_mem_def kfree_ok_def V2P_def)

lemma small_maps: "maps small small_dirs p =
    (if p = 0x204 then {(0x80200000, 0, 0), (0x80202000, 0, 0)} else {})"
  by (auto simp: maps_def small_entry split: if_splits)

lemma small_inv: "vm_inv 0x80100000 small small_dirs [0x80205000]"
proof (rule vm_invI)
  show "table_ok small d" if "d \<in> small_dirs" for d
    using that by (auto simp: table_ok_def small_mem_def)
  show "refcount small p = of_nat (card (maps small small_dirs p))" for p
    by (simp add: small_maps)
  show "page_of e \<notin> tables small d' \<and> page_of e \<notin> kpage ` set [0x80205000] \<and> page_of e < page_of PHYSTOP"
    if "d \<in> small_dirs" "d' \<in> small_dirs" "i < 512" "entry small d i j = Some e" for d d' i j e
    using that small_tables by (auto simp: small_entry page_of_def split: if_splits)
qed (use small_free small_tables in auto)

section \<open>The page allocator\<close>

text \<open>
  \<open>freerange\<close> over a range of \<open>n\<close> whole pages puts exactly these pages on the free list, none
  twice, with the last page of the range first; the pages that were free stay free.
\<close>

theorem freerange_frees:
  assumes "free_pages kend s vs" and "p = PGROUNDUP vstart"
    and "\<forall>v\<in>set (page_run p n). kfree_ok kend v \<and> v + 4096 \<le> vend"
    and "distinct (page_run p n @ vs)" and "\<not> p + of_nat n * 4096 + 4096 \<le> vend"
  shows "\<exists>s'. freerange kend vstart vend s = Inr s' \<and> free_pages kend s' (rev (page_run p n) @ vs)"
  using freerange_from_spec [OF assms(1,3-5)] by (simp add: freerange_def assms(2))

theorem freerange_frees_witness:
  "\<exists>s'. freerange 0x80100000 0x80300001 0x80303000 (small\<lparr>freelist := 0\<rparr>) = Inr s' \<and>
    free_pages 0x80100000 s' [0x80302000, 0x80301000]"
proof -
  have r: "PGROUNDUP 0x80300001 = 0x80301000" by (simp add: PGROUNDUP_def)
  have "page_run 0x80301000 2 = [0x80301000, 0x80302000]"
    by (simp add: page_run_def upt_conv_Cons)
  with freerange_frees [of "0x80100000" "small\<lparr>freelist := 0\<rparr>" "[]" "0x80301000" "0x80300001" 2 "0x80303000"]
  show ?thesis by (simp add: r free_pages_def kfree_ok_def V2P_def)
qed

text \<open>
  Pages that are allocated one after the other are different, come in the order of the free
  list and are no longer free; when they are given back in the reverse order the list is as before.
\<close>

theorem kalloc_kfree_roundtrip:
  assumes "free_pages kend s (ps @ qs)"
  shows "\<exists>s1 s2. kmem.allocs (length ps) s = (map Some ps, s1) \<and> distinct ps \<and> free_pages kend s1 qs \<and>
    kmem.releases kend (rev ps) s1 = Inr s2 \<and> free_pages kend s2 (ps @ qs)"
proof -
  obtain s1 where s1: "kmem.allocs (length ps) s = (map Some ps, s1)" "free_pages kend s1 qs"
    using kmem.allocs_pages [OF assms] by blast
  moreover have "distinct ps" using kmem.rep_distinct [OF assms] by simp
  ultimately show ?thesis using kmem.allocs_releases [OF assms s1(1)] by blast
qed

theorem kalloc_kfree_roundtrip_witness:
  "\<exists>s1. kmem.allocs 1 small = ([Some 0x80205000], s1) \<and> free_pages 0x80100000 s1 []"
  using kalloc_kfree_roundtrip [of "0x80100000" small "[0x80205000]" "[]"] small_free by auto

text \<open>
  C40: \<open>kalloc\<close> on two processors may return the same page to both: it gives up the lock between
  reading the head of the free list and moving it on. A processor that runs alone gets the page
  that the sequential \<open>kalloc\<close> returns.
\<close>

theorem kalloc_race:
  assumes "kpc s 0 = Entry" and "kpc s 1 = Entry" and "freelist s = v" and "v \<noteq> 0"
  shows "(\<exists>s'. kalloc_run s s' \<and> kpc s' 0 = Returned v \<and> kpc s' 1 = Returned v) \<and>
    (\<exists>s'. kalloc_run s s' \<and> kpc s' 0 = Returned (fst (kalloc s)) \<and> freelist s' = freelist (snd (kalloc s)))"
  using kalloc_both [OF assms] kalloc_alone [OF assms(1)] by blast

definition small_cpus :: kalloc_state where
  "small_cpus = \<lparr>use_lock = True, freelist = 0x80205000, refcount = (\<lambda>_. 0), pmem = small_mem,
     kpc = (\<lambda>_. Entry)\<rparr>"

theorem kalloc_race_witness:
  "\<exists>s'. kalloc_run small_cpus s' \<and> kpc s' 0 = Returned 0x80205000 \<and> kpc s' 1 = Returned 0x80205000"
  using kalloc_race [of small_cpus "0x80205000"] by (simp add: small_cpus_def)

text \<open>
  \<open>countfp\<close> returns one less than the number of free pages, because it counts the links of the
  list, and reads through a null pointer when no page is free.
\<close>

theorem countfp_links:
  assumes "free_pages kend s vs"
  shows "countfp s = Some (if vs = [] then Inl NullDeref else Inr (int (length vs) - 1))"
proof (cases vs)
  case Nil
  then have "freelist s = 0" using assms by (simp add: free_pages_def)
  moreover have "countfp_loop (Suc 57343) (pmem s) 0 0 = Some (Inl NullDeref)"
    by (simp only: countfp_loop.simps count_next.simps [of "pmem s" 0]) simp
  ultimately show ?thesis using Nil by (simp add: countfp_def phystop_pages del: countfp_loop.simps)
next
  case (Cons v ws)
  then have c: "freelist s = v" "chain (pmem s) v (v # ws)" using assms by (auto simp: free_pages_def)
  obtain w where w: "count_next (pmem s) v 0 = Some (Inr (w, int (length ws)))" "w \<noteq> 0"
      "pmem s (kpage w) 0 = 0"
    using count_next_chain [OF c(2), of 0] by auto
  have "countfp_loop (Suc 57343) (pmem s) v 0 = Some (Inr (int (length ws)))"
    using countfp_loop_last [where m = "pmem s" and w = w, OF w(2,3)] by (simp only: countfp_loop.simps w(1)) simp
  with Cons c(1) show ?thesis by (simp add: countfp_def phystop_pages del: countfp_loop.simps)
qed

theorem countfp_links_witness: "countfp small = Some (Inr 0)"
  using countfp_links [OF small_free] by simp

section \<open>Copy on write\<close>

text \<open>
  C37: a write fault on a mapped user page gives the process a writable page that nothing else maps,
  in place when it was the only one to map it and as a copy otherwise; no process sees any change of
  the contents of its pages, and the separation of free pages, tables and user pages and the
  reference counts stay right.
\<close>

theorem cow_handler_isolates:
  assumes "vm_inv kend s D vs" and "d \<in> D" and "PDX va < 512"
    and "entry s d (PDX va) (PTX va) = Some e" and "card (maps s D (page_of e)) < 128"
    and "card (maps s D (page_of e)) = 1 \<or> vs \<noteq> []"
  shows "\<exists>s' ws. cow_handler kend d va s = Inr (False, s') \<and>
    ws = (if card (maps s D (page_of e)) = 1 then vs else tl vs) \<and> vm_inv kend s' D ws \<and>
    (\<forall>d'\<in>D. \<forall>i j. i < 512 \<longrightarrow> view s' d' i j = view s d' i j) \<and>
    (\<exists>e'. entry s' d (PDX va) (PTX va) = Some e' \<and> e' AND PTE_W \<noteq> 0 \<and>
      maps s' D (page_of e') = {(d, PDX va, PTX va)})"
proof (cases "card (maps s D (page_of e)) = 1")
  case True
  with cow_handler_once [OF assms(1-4) True] show ?thesis by (auto simp: resolved_def)
next
  case False
  have "(d, PDX va, PTX va) \<in> maps s D (page_of e)" using entry_in_maps [OF assms(2-4)] .
  then have "card (maps s D (page_of e)) \<noteq> 0"
    using finite_maps [OF vm_invD(1) [OF assms(1)]] by auto
  with False have many: "1 < card (maps s D (page_of e))" by linarith
  obtain v ws where vs: "vs = v # ws" using assms(6) False by (cases vs) auto
  from cow_handler_shared [OF assms(1) [unfolded vs] assms(2-4) many assms(5)] False show ?thesis
    by (auto simp: vs resolved_def)
qed

theorem cow_handler_isolates_witness:
  "\<exists>s' e'. cow_handler 0x80100000 0x80200000 0x10 small = Inr (False, s') \<and>
    view s' 0x80202000 0 0 = Some (\<lambda>_. 7) \<and> entry s' 0x80200000 0 0 = Some e' \<and>
    maps s' small_dirs (page_of e') = {(0x80200000, 0, 0)}"
proof -
  have x: "PDX 0x10 = 0" "PTX 0x10 = 0" by (simp_all add: PDX_def PTX_def)
  have e: "entry small 0x80200000 (PDX 0x10) (PTX 0x10) = Some 0x204005" by (simp add: small_entry x)
  have v: "view small 0x80202000 0 0 = Some (\<lambda>_. 7)"
    by (simp add: view_def small_entry small_mem_def)
  have d: "0x80200000 \<in> small_dirs" by simp
  have i: "PDX 0x10 < 512" unfolding x by simp
  have c: "maps small small_dirs (page_of 0x204005) = {(0x80200000, 0, 0), (0x80202000, 0, 0)}"
    unfolding small_pages small_maps by simp
  have card: "card (maps small small_dirs (page_of 0x204005)) < 128" unfolding c by simp
  note cow_handler_isolates [OF small_inv d i e card disjI2 [OF list.simps(3)]]
  then obtain s' e' where s': "cow_handler 0x80100000 0x80200000 0x10 small = Inr (False, s')"
    "\<forall>d'\<in>small_dirs. \<forall>i j. i < 512 \<longrightarrow> view s' d' i j = view small d' i j"
    "entry s' 0x80200000 0 0 = Some e'" "maps s' small_dirs (page_of e') = {(0x80200000, 0, 0)}"
    unfolding x by blast
  have "view s' 0x80202000 0 0 = view small 0x80202000 0 0" using s'(2) by simp
  with s'(1,3,4) v show ?thesis by auto
qed

text \<open>
  A fault at an address that has no page table does not only mark the process as killed: the
  handler goes on and reads the entry through the null pointer.
\<close>

theorem cow_handler_no_table:
  assumes "\<not> present (pmem s (kpage d) (PDX va))"
  shows "cow_handler kend d va s = Inl NullDeref"
  using assms by (simp add: cow_handler_def walkpgdir_def pload_def deref_pte_def Let_def)

theorem cow_handler_no_table_witness: "cow_handler 0x80100000 0x80200000 0x400000 small = Inl NullDeref"
  by (rule cow_handler_no_table) (simp add: small_mem_def PDX_def)

end
