(* ===== verification/Lwp.thy ===== *)
theory Lwp
  imports Machine
begin

text \<open>
  Processes with several threads: \<open>Project3_LWP\<close> (\<open>proc.h\<close>, \<open>proc.c\<close>, the first part of \<open>exec.c\<close>).
  The table has 64 processes and 256 threads. As in theory \<open>Mlfq\<close> an operation is a critical
  section, run to its return or to \<open>sched\<close>, on a processor \<open>c\<close>; the results of the page allocator
  and of the copies between address spaces are arguments. The lock of the table is part of the
  state, because some paths of the code return while they hold it: \<open>acquire\<close> on a lock that is held
  never ends. \<open>sched\<close> hands the lock to the loop of \<open>scheduler\<close>, which releases it.
\<close>

section \<open>Data\<close>

datatype lchan = LNull | LProc nat | LThread nat | LAddr u32

record thread =
  t_kstack :: "nat option"
  t_ustack :: nat
  t_state :: procstate
  t_process :: "nat option"
  t_tf :: trapframe
  t_context :: kcontext
  t_chan :: lchan
  t_tid :: int
  t_retval :: u32

record usentry =
  us_addr :: u32
  us_check :: bool

record lproc =
  p_sz :: u32
  p_pgdir :: "nat option"
  p_state :: procstate
  p_pid :: int
  p_parent :: "nat option"
  p_killed :: bool
  p_ofile :: "nat \<Rightarrow> nat option"
  p_cwd :: "nat option"
  p_name :: string
  workers :: "nat \<Rightarrow> nat option"
  master :: "nat option"
  ustacks :: "nat \<Rightarrow> usentry"
  mastertop :: u32
  threadtop :: u32

record pttable =
  held :: bool
  pprocs :: "nat \<Rightarrow> lproc"
  threads :: "nat \<Rightarrow> thread"
  next_pid :: int
  next_tid :: int
  init_proc :: "nat option"
  c_thread :: "nat \<Rightarrow> nat option"
  c_proc :: "nat \<Rightarrow> nat option"

definition upd_p :: "nat \<Rightarrow> (lproc \<Rightarrow> lproc) \<Rightarrow> pttable \<Rightarrow> pttable" where
  "upd_p p f s = s\<lparr>pprocs := (pprocs s)(p := f (pprocs s p))\<rparr>"

definition upd_t :: "nat \<Rightarrow> (thread \<Rightarrow> thread) \<Rightarrow> pttable \<Rightarrow> pttable" where
  "upd_t t f s = s\<lparr>threads := (threads s)(t := f (threads s t))\<rparr>"

definition lacquire :: "pttable \<Rightarrow> pttable result" where
  "lacquire s = (if held s then Inl Hang else Inr (s\<lparr>held := True\<rparr>))"

definition lrelease :: "pttable \<Rightarrow> pttable" where
  "lrelease s = s\<lparr>held := False\<rparr>"

definition nonnull :: "'a option \<Rightarrow> 'a result" where
  "nonnull v = (case v of None \<Rightarrow> Inl NullDeref | Some x \<Rightarrow> Inr x)"

definition find_p :: "(lproc \<Rightarrow> bool) \<Rightarrow> pttable \<Rightarrow> nat option" where
  "find_p c s = List.find (\<lambda>p. c (pprocs s p)) [0..<64]"

definition find_t :: "(thread \<Rightarrow> bool) \<Rightarrow> pttable \<Rightarrow> nat option" where
  "find_t c s = List.find (\<lambda>t. c (threads s t)) [0..<256]"

section \<open>Allocation\<close>

definition allocthread :: "nat option \<Rightarrow> pttable \<Rightarrow> (nat option \<times> pttable) result" where
  "allocthread kpage s0 =
     rbind (lacquire s0) (\<lambda>s.
       case find_t (\<lambda>t. t_state t = UNUSED) s of
         None \<Rightarrow> Inr (None, lrelease s)
       | Some t \<Rightarrow>
           let s1 = lrelease ((upd_t t (\<lambda>r. r\<lparr>t_state := EMBRYO, t_tid := next_tid s\<rparr>) s)
                      \<lparr>next_tid := next_tid s + 1\<rparr>)
           in case kpage of
                None \<Rightarrow> Inr (None, upd_t t (\<lambda>r. r\<lparr>t_kstack := None, t_state := UNUSED\<rparr>) s1)
              | Some k \<Rightarrow> Inr (Some t, upd_t t (\<lambda>r. r\<lparr>t_kstack := Some k,
                            t_context := zero_context\<lparr>eip := Forkret\<rparr>\<rparr>) s1))"

text \<open>When \<open>allocthread\<close> fails, the entry of the process stays an embryo.\<close>

definition lwp_allocproc :: "nat option \<Rightarrow> nat \<Rightarrow> pttable \<Rightarrow> (nat option \<times> pttable) result" where
  "lwp_allocproc kpage c s0 =
     rbind (lacquire s0) (\<lambda>s.
       case find_p (\<lambda>p. p_state p = UNUSED) s of
         None \<Rightarrow> Inr (None, lrelease s)
       | Some p \<Rightarrow>
           let s1 = lrelease ((upd_p p (\<lambda>r. r\<lparr>p_state := EMBRYO, p_pid := next_pid s\<rparr>) s)
                      \<lparr>next_pid := next_pid s + 1\<rparr>)
           in rbind (allocthread kpage s1) (\<lambda>(m, s2).
                case m of
                  None \<Rightarrow> Inr (None, upd_p p (\<lambda>r. r\<lparr>master := None\<rparr>) s2)
                | Some t \<Rightarrow>
                    Inr (Some p,
                      upd_p p (\<lambda>r. r\<lparr>workers := (\<lambda>i. if i < 256 then None else workers r i)\<rparr>)
                      (upd_t t (\<lambda>r. r\<lparr>t_tid := 0, t_ustack := 0, t_process := c_proc s2 c\<rparr>)
                      (upd_p p (\<lambda>r. r\<lparr>master := Some t\<rparr>) s2)))))"

definition lwp_userinit :: "nat option \<Rightarrow> nat option \<Rightarrow> nat option \<Rightarrow> nat \<Rightarrow> pttable \<Rightarrow> pttable result" where
  "lwp_userinit kpage newdir root c s =
     rbind (lwp_allocproc kpage c s) (\<lambda>(r, s1).
     rbind (nonnull r) (\<lambda>p.
     rbind (case newdir of None \<Rightarrow> Inl (Panic ''userinit: out of memory?'') | Some d \<Rightarrow> Inr d) (\<lambda>d.
     let s2 = upd_p p (\<lambda>r. r\<lparr>p_pgdir := Some d, p_sz := 4096\<rparr>) (s1\<lparr>init_proc := Some p\<rparr>) in
     rbind (nonnull (master (pprocs s2 p))) (\<lambda>m.
     let s3 = upd_t m (\<lambda>r. r\<lparr>t_tf := zero_tf\<lparr>tf_cs := 27, tf_ds := 35, tf_es := 35, tf_ss := 35,
                 tf_eflags := 512, tf_esp := 4096, tf_eip := 0\<rparr>, t_ustack := 0, t_process := Some p\<rparr>) s2;
         s4 = upd_p p (\<lambda>r. r\<lparr>p_name := ''initcode'', p_cwd := root\<rparr>) s3
     in rbind (lacquire s4) (\<lambda>s5.
        Inr (lrelease (upd_p p (\<lambda>r. r\<lparr>p_state := RUNNABLE\<rparr>)
               (upd_t m (\<lambda>r. r\<lparr>t_state := RUNNABLE\<rparr>) s5))))))))"

text \<open>\<open>growproc\<close>: \<open>newsz\<close> is the result of \<open>allocuvm\<close> or \<open>deallocuvm\<close>, 0 for failure.\<close>

definition lwp_growproc :: "int \<Rightarrow> u32 \<Rightarrow> nat \<Rightarrow> pttable \<Rightarrow> (int \<times> pttable) result" where
  "lwp_growproc n newsz c s0 =
     rbind (nonnull (c_proc s0 c)) (\<lambda>p.
     rbind (lacquire s0) (\<lambda>s.
       if n \<noteq> 0 \<and> newsz = 0 then Inr (-1, s)
       else Inr (0, lrelease (upd_p p (\<lambda>r. r\<lparr>p_sz := (if n \<noteq> 0 then newsz else p_sz r)\<rparr>) s))))"

section \<open>Fork\<close>

text \<open>The cleanup of \<open>fork\<close> after a failed copy: it does not return when it follows a \<open>copyout\<close>.\<close>

definition undo_proc :: "nat \<Rightarrow> pttable \<Rightarrow> pttable result" where
  "undo_proc np s =
     rbind (nonnull (master (pprocs s np))) (\<lambda>m.
       Inr (upd_p np (\<lambda>r. r\<lparr>master := None, p_state := UNUSED\<rparr>)
             (upd_t m (\<lambda>r. r\<lparr>t_state := UNUSED, t_kstack := None, t_process := None\<rparr>) s)))"

definition share_files :: "lproc \<Rightarrow> lproc \<Rightarrow> nat \<Rightarrow> nat option" where
  "share_files c r i = (if i < 16 \<and> p_ofile c i \<noteq> None then p_ofile c i else p_ofile r i)"

text \<open>
  \<open>fork\<close>: \<open>newdir\<close> is the result of \<open>copyuvm\<close>, \<open>stack_ok\<close> and \<open>heap_ok\<close> say whether the two calls
  of \<open>copyout\<close> succeed, of which the first is made only for a worker thread.
\<close>

definition fork_image :: "nat option \<Rightarrow> bool \<Rightarrow> nat \<Rightarrow> nat \<Rightarrow> nat \<Rightarrow> pttable \<Rightarrow> (bool \<times> pttable) result" where
  "fork_image newdir stack_ok cur ct np s =
     (case newdir of
        None \<Rightarrow> rbind (undo_proc np (upd_p np (\<lambda>r. r\<lparr>p_pgdir := None\<rparr>) s)) (\<lambda>s1. Inr (False, s1))
      | Some d \<Rightarrow>
          let cp = pprocs s cur; s1 = upd_p np (\<lambda>r. r\<lparr>p_pgdir := Some d\<rparr>) s in
          if master cp = Some ct then
            let s2 = upd_p np (\<lambda>r. r\<lparr>p_sz := p_sz cp, p_parent := Some cur, mastertop := mastertop cp,
                       threadtop := threadtop cp\<rparr>) s1 in
            rbind (nonnull (master (pprocs s2 np))) (\<lambda>m.
              Inr (True, upd_t m (\<lambda>r. r\<lparr>t_process := Some np, t_tf := t_tf (threads s2 ct)\<rparr>) s2))
          else
            let s2 = upd_p np (\<lambda>r. r\<lparr>mastertop := mastertop cp\<rparr>) s1 in
            rbind (if stack_ok then Inr s2 else undo_proc np s2) (\<lambda>s3.
            let s4 = upd_p np (\<lambda>r. r\<lparr>p_sz := p_sz cp, p_parent := Some cur, threadtop := threadtop cp\<rparr>) s3 in
            rbind (nonnull (master (pprocs s4 np))) (\<lambda>m.
              let tr = t_tf (threads s4 ct);
                  stop = us_addr (ustacks cp (t_ustack (threads s4 ct))) + 8192 in
              Inr (True, upd_t m (\<lambda>r. r\<lparr>t_process := Some np, t_retval := t_retval (threads s4 ct),
                  t_tf := tr\<lparr>tf_esp := tf_esp tr - (stop - mastertop cp)\<rparr>\<rparr>) s4))))"

definition lwp_fork :: "nat option \<Rightarrow> nat option \<Rightarrow> bool \<Rightarrow> bool \<Rightarrow> nat \<Rightarrow> pttable \<Rightarrow> (int \<times> pttable) result" where
  "lwp_fork kpage newdir stack_ok heap_ok c s0 =
     rbind (nonnull (c_proc s0 c)) (\<lambda>cur.
     rbind (nonnull (c_thread s0 c)) (\<lambda>ct.
     rbind (lwp_allocproc kpage c s0) (\<lambda>(r, s).
       case r of
         None \<Rightarrow> Inr (-1, s)
       | Some np \<Rightarrow>
         rbind (fork_image newdir stack_ok cur ct np s) (\<lambda>(ok, s1).
           if \<not> ok then Inr (-1, s1)
           else
             let s2 = upd_p np (\<lambda>r. r\<lparr>ustacks := (\<lambda>i. if i < 256
                        then \<lparr>us_addr = us_addr (ustacks (pprocs s1 cur) i), us_check = False\<rparr>
                        else ustacks r i)\<rparr>) s1 in
             rbind (nonnull (master (pprocs s2 np))) (\<lambda>m.
             let s3 = upd_t m (\<lambda>r. r\<lparr>t_tf := (t_tf r)\<lparr>tf_eax := 0\<rparr>\<rparr>) s2 in
             rbind (if heap_ok then Inr s3 else undo_proc np s3) (\<lambda>s4.
             let cp = pprocs s4 cur;
                 s5 = upd_p np (\<lambda>r. r\<lparr>p_ofile := share_files cp r, p_cwd := p_cwd cp, p_name := p_name cp\<rparr>) s4 in
             rbind (lacquire s5) (\<lambda>s6.
             let s7 = upd_p np (\<lambda>r. r\<lparr>p_state := RUNNABLE\<rparr>) s6 in
             rbind (nonnull (master (pprocs s7 np))) (\<lambda>m.
             Inr (p_pid (pprocs s7 np), lrelease (upd_t m (\<lambda>r. r\<lparr>t_state := RUNNABLE\<rparr>) s7))))))))))"

section \<open>Scheduling\<close>

text \<open>
  \<open>sched\<close> is called with the lock, which the scheduler then releases. The panics about the lock
  nesting and the interrupt flag are those of theory \<open>Spinlock\<close>.
\<close>

definition lwp_sched :: "nat \<Rightarrow> pttable \<Rightarrow> pttable result" where
  "lwp_sched c s =
     rbind (nonnull (c_thread s c)) (\<lambda>t.
     rbind (ensure (held s) (Panic ''sched pttable.lock'')) (\<lambda>_.
     rbind (ensure (t_state (threads s t) \<noteq> RUNNING) (Panic ''sched running'')) (\<lambda>_.
     Inr (lrelease (s\<lparr>c_thread := (c_thread s)(c := None)\<rparr>)))))"

text \<open>
  The loop of \<open>scheduler\<close> from the thread \<open>t\<close> on, up to the switch to the next runnable thread;
  \<open>c->proc\<close> keeps its value when no thread is found.
\<close>

definition lwp_switchuvm_ok :: "nat \<Rightarrow> pttable \<Rightarrow> unit result" where
  "lwp_switchuvm_ok t s =
     rbind (case t_process (threads s t) of None \<Rightarrow> Inl (Panic ''switchuvm: no process'') | Some p \<Rightarrow> Inr p) (\<lambda>p.
     rbind (ensure (t_kstack (threads s t) \<noteq> None) (Panic ''switchuvm: no kstack'')) (\<lambda>_.
     ensure (p_pgdir (pprocs s p) \<noteq> None) (Panic ''switchuvm: no pgdir'')))"

function lwp_scheduler_from :: "nat \<Rightarrow> nat \<Rightarrow> pttable \<Rightarrow> (nat option \<times> pttable) result" where
  "lwp_scheduler_from c t s =
     (if t < 256 then
        if t_state (threads s t) \<noteq> RUNNABLE then lwp_scheduler_from c (t + 1) s
        else rbind (lwp_switchuvm_ok t s) (\<lambda>_.
          Inr (Some t, upd_t t (\<lambda>r. r\<lparr>t_state := RUNNING\<rparr>)
            (s\<lparr>c_thread := (c_thread s)(c := Some t), c_proc := (c_proc s)(c := t_process (threads s t))\<rparr>)))
      else Inr (None, s))"
  by pat_completeness auto
termination by (relation "measure (\<lambda>(c, t, s). 256 - t)") auto

declare lwp_scheduler_from.simps [simp del]

definition lwp_yield :: "nat \<Rightarrow> pttable \<Rightarrow> pttable result" where
  "lwp_yield c s0 =
     rbind (lacquire s0) (\<lambda>s.
     rbind (nonnull (c_thread s c)) (\<lambda>t.
     lwp_sched c (upd_t t (\<lambda>r. r\<lparr>t_state := RUNNABLE\<rparr>) s)))"

text \<open>\<open>sleep\<close> with the table lock held, up to \<open>sched\<close>.\<close>

definition lwp_sleep :: "nat \<Rightarrow> lchan \<Rightarrow> pttable \<Rightarrow> pttable result" where
  "lwp_sleep c ch s =
     (case c_thread s c of
        None \<Rightarrow> Inl (Panic ''sleep'')
      | Some t \<Rightarrow> lwp_sched c (upd_t t (\<lambda>r. r\<lparr>t_chan := ch, t_state := SLEEPING\<rparr>) s))"

definition lwp_wakeup1 :: "lchan \<Rightarrow> pttable \<Rightarrow> pttable" where
  "lwp_wakeup1 ch s = s\<lparr>threads := (\<lambda>t. if t < 256 \<and> t_state (threads s t) = SLEEPING \<and> t_chan (threads s t) = ch
     then (threads s t)\<lparr>t_state := RUNNABLE\<rparr> else threads s t)\<rparr>"

definition lwp_wakeup :: "lchan \<Rightarrow> pttable \<Rightarrow> pttable result" where
  "lwp_wakeup ch s0 = rbind (lacquire s0) (\<lambda>s. Inr (lrelease (lwp_wakeup1 ch s)))"

definition lwp_kill :: "int \<Rightarrow> pttable \<Rightarrow> (int \<times> pttable) result" where
  "lwp_kill pd s0 =
     rbind (lacquire s0) (\<lambda>s.
       case find_p (\<lambda>r. p_pid r = pd) s of
         None \<Rightarrow> Inr (-1, lrelease s)
       | Some p \<Rightarrow>
           let s1 = upd_p p (\<lambda>r. r\<lparr>p_killed := True\<rparr>) s in
           Inr (0, lrelease (s1\<lparr>threads := (\<lambda>t. if t < 256 \<and> t_process (threads s1 t) = Some p \<and>
                 t_state (threads s1 t) = SLEEPING
               then (threads s1 t)\<lparr>t_state := RUNNABLE\<rparr> else threads s1 t)\<rparr>)))"

section \<open>Exit and wait\<close>

definition lchan_of :: "nat option \<Rightarrow> lchan" where
  "lchan_of v = (case v of None \<Rightarrow> LNull | Some p \<Rightarrow> LProc p)"

function lwp_reparent :: "nat \<Rightarrow> nat \<Rightarrow> pttable \<Rightarrow> pttable" where
  "lwp_reparent cur p s =
     (if p < 64
      then lwp_reparent cur (p + 1)
        (if p_parent (pprocs s p) = Some cur
         then let s1 = upd_p p (\<lambda>r. r\<lparr>p_parent := init_proc s\<rparr>) s
              in if p_state (pprocs s1 p) = ZOMBIE then lwp_wakeup1 (lchan_of (init_proc s)) s1 else s1
         else s)
      else s)"
  by pat_completeness auto
termination by (relation "measure (\<lambda>(cur, p, s). 64 - p)") auto

declare lwp_reparent.simps [simp del]

text \<open>The first loop of \<open>exit\<close>: the other threads of the process become zombies.\<close>

definition end_threads :: "nat \<Rightarrow> pttable \<Rightarrow> pttable" where
  "end_threads ct s = s\<lparr>threads := (\<lambda>t. if t < 256 \<and> t_process (threads s t) = t_process (threads s ct) \<and>
       t_tid (threads s t) \<noteq> t_tid (threads s ct)
     then (threads s t)\<lparr>t_state := ZOMBIE\<rparr> else threads s t)\<rparr>"

definition lwp_exit :: "nat \<Rightarrow> pttable \<Rightarrow> pttable result" where
  "lwp_exit c s =
     rbind (nonnull (c_proc s c)) (\<lambda>cur.
     rbind (nonnull (c_thread s c)) (\<lambda>ct.
     rbind (ensure (Some cur \<noteq> init_proc s) (Panic ''init exiting'')) (\<lambda>_.
     let s1 = end_threads ct s;
         s2 = upd_p cur (\<lambda>r. r\<lparr>p_ofile := (\<lambda>i. if i < 16 then None else p_ofile r i), p_cwd := None\<rparr>) s1 in
     rbind (lacquire s2) (\<lambda>s3.
     let s4 = lwp_reparent cur 0 (lwp_wakeup1 (lchan_of (p_parent (pprocs s3 cur))) s3);
         s5 = upd_p cur (\<lambda>r. r\<lparr>p_state := ZOMBIE\<rparr>) s4;
         s6 = upd_t ct (\<lambda>r. r\<lparr>t_state := ZOMBIE\<rparr>) s5
     in lwp_sched c s6))))"

text \<open>
  The body of \<open>wait\<close> for a zombie child: the second loop over \<open>workers\<close> dereferences every entry.
\<close>

fun free_workers :: "nat \<Rightarrow> nat list \<Rightarrow> pttable \<Rightarrow> pttable result" where
  "free_workers p [] s = Inr s"
| "free_workers p (i # is) s =
     rbind (nonnull (workers (pprocs s p) i)) (\<lambda>t.
       free_workers p is (upd_p p (\<lambda>r. r\<lparr>workers := (workers r)(i := None)\<rparr>)
         (upd_t t (\<lambda>r. r\<lparr>t_state := UNUSED\<rparr>) s)))"

definition lwp_reap :: "nat \<Rightarrow> pttable \<Rightarrow> (int \<times> pttable) result" where
  "lwp_reap p s =
     (let pd = p_pid (pprocs s p) in
      rbind (nonnull (master (pprocs s p))) (\<lambda>m.
      let s1 = upd_t m (\<lambda>r. r\<lparr>t_kstack := None, t_process := None, t_state := UNUSED\<rparr>) s in
      rbind (free_workers p [0..<256] s1) (\<lambda>s2.
      Inr (pd, upd_p p (\<lambda>r. r\<lparr>master := None, p_pid := 0, p_parent := None, p_name := [], p_killed := False,
             p_state := UNUSED\<rparr>) s2))))"

definition lwp_wait :: "nat \<Rightarrow> pttable \<Rightarrow> (int option \<times> pttable) result" where
  "lwp_wait c s0 =
     rbind (nonnull (c_proc s0 c)) (\<lambda>cur.
     rbind (lacquire s0) (\<lambda>s.
       case find_p (\<lambda>r. p_parent r = Some cur \<and> p_state r = ZOMBIE) s of
         Some p \<Rightarrow> rbind (lwp_reap p s) (\<lambda>(pd, s1). Inr (Some pd, lrelease s1))
       | None \<Rightarrow>
           if find_p (\<lambda>r. p_parent r = Some cur) s = None \<or> p_killed (pprocs s cur)
           then Inr (Some (-1), lrelease s)
           else rbind (lwp_sleep c (LProc cur) s) (\<lambda>s1. Inr (None, s1))))"

section \<open>Threads\<close>

text \<open>
  \<open>thread_create\<close>: \<open>newtop\<close> is the result of \<open>allocuvm\<close> (0 for failure), \<open>stack_ok\<close> says whether
  \<open>copyout\<close> puts the argument on the new stack. The result is 0 with the new thread id, or -1.
\<close>

definition first_free_stack :: "lproc \<Rightarrow> nat option" where
  "first_free_stack r = List.find (\<lambda>i. \<not> us_check (ustacks r i)) [0..<256]"

definition first_free_worker :: "lproc \<Rightarrow> nat option" where
  "first_free_worker r = List.find (\<lambda>i. workers r i = None) [0..<256]"

definition thread_create ::
  "nat option \<Rightarrow> u32 \<Rightarrow> bool \<Rightarrow> u32 \<Rightarrow> nat \<Rightarrow> pttable \<Rightarrow> (int option \<times> pttable) result" where
  "thread_create kpage newtop stack_ok start_routine c s0 =
     rbind (nonnull (c_proc s0 c)) (\<lambda>cur.
     rbind (nonnull (c_thread s0 c)) (\<lambda>ct.
     rbind (allocthread kpage s0) (\<lambda>(r, s).
       case r of
         None \<Rightarrow> Inr (None, s)
       | Some t \<Rightarrow>
         rbind (lacquire s) (\<lambda>s1.
         let s2 = lrelease (case first_free_stack (pprocs s1 cur) of
               None \<Rightarrow> s1
             | Some i \<Rightarrow> upd_t t (\<lambda>r. r\<lparr>t_ustack := i\<rparr>)
                 (upd_p cur (\<lambda>r. r\<lparr>ustacks := (ustacks r)(i := (ustacks r i)\<lparr>us_check := True\<rparr>)\<rparr>) s1)) in
         if newtop = 0 \<or> \<not> stack_ok then Inr (None, s2)
         else
           rbind (nonnull (master (pprocs s2 cur))) (\<lambda>m.
           let s3 = upd_t t (\<lambda>r. r\<lparr>t_tf := (t_tf (threads s2 m))\<lparr>tf_eip := start_routine, tf_esp := newtop - 8\<rparr>,
                       t_process := t_process (threads s2 ct)\<rparr>) s2;
               s4 = (case first_free_worker (pprocs s3 cur) of None \<Rightarrow> s3
                     | Some i \<Rightarrow> upd_p cur (\<lambda>r. r\<lparr>workers := (workers r)(i := Some t)\<rparr>) s3) in
           rbind (lacquire s4) (\<lambda>s5.
           Inr (Some (t_tid (threads s5 t)), lrelease (upd_t t (\<lambda>r. r\<lparr>t_state := RUNNABLE\<rparr>) s5))))))))"

definition thread_exit :: "u32 \<Rightarrow> nat \<Rightarrow> pttable \<Rightarrow> pttable result" where
  "thread_exit retval c s =
     rbind (nonnull (c_thread s c)) (\<lambda>t.
     rbind (lwp_wakeup (LThread t) (upd_t t (\<lambda>r. r\<lparr>t_retval := retval, t_state := ZOMBIE\<rparr>) s)) (\<lambda>s1.
     rbind (lacquire s1) (lwp_sched c)))"

text \<open>
  \<open>thread_join\<close>: the search for the thread and the wait; when the thread has ended, or when \<open>sleep\<close>
  has returned for any reason, the rest collects it. An unknown id returns -1 with the lock held.
\<close>

fun remove_worker :: "nat \<Rightarrow> int \<Rightarrow> nat list \<Rightarrow> pttable \<Rightarrow> pttable result" where
  "remove_worker p tid [] s = Inr s"
| "remove_worker p tid (i # is) s =
     rbind (nonnull (workers (pprocs s p) i)) (\<lambda>w.
       if t_tid (threads s w) = tid
       then Inr (upd_p p (\<lambda>r. r\<lparr>workers := (workers r)(i := None)\<rparr>) (upd_t w (\<lambda>r. r\<lparr>t_tid := 0\<rparr>) s))
       else remove_worker p tid is s)"

definition collect_thread :: "int \<Rightarrow> nat \<Rightarrow> pttable \<Rightarrow> (u32 \<times> pttable) result" where
  "collect_thread tid t s =
     rbind (nonnull (t_process (threads s t))) (\<lambda>p.
     rbind (remove_worker p tid [0..<256] s) (\<lambda>s1.
     let u = t_ustack (threads s1 t);
         s2 = upd_p p (\<lambda>r. r\<lparr>ustacks := (ustacks r)(u := (ustacks r u)\<lparr>us_check := False\<rparr>)\<rparr>) s1
     in Inr (t_retval (threads s t), lrelease (upd_t t (\<lambda>r. r\<lparr>t_kstack := None, t_ustack := 0, t_tid := 0,
          t_process := None, t_state := UNUSED, t_retval := 0\<rparr>) s2))))"

datatype join_result = NoThread | JoinSleeps | Joined u32

definition thread_join :: "int \<Rightarrow> nat \<Rightarrow> pttable \<Rightarrow> (join_result \<times> pttable) result" where
  "thread_join tid c s0 =
     rbind (lacquire s0) (\<lambda>s.
       case find_t (\<lambda>r. t_tid r = tid) s of
         None \<Rightarrow> Inr (NoThread, s)
       | Some t \<Rightarrow>
           if t_state (threads s t) \<noteq> ZOMBIE
           then rbind (lwp_sleep c (LThread t) s) (\<lambda>s1. Inr (JoinSleeps, s1))
           else rbind (collect_thread tid t s) (\<lambda>(v, s1). Inr (Joined v, s1)))"

section \<open>Exec\<close>

text \<open>
  The first loop of \<open>exec\<close>, which removes all other threads of the process before it looks at the
  new program; a worker that calls \<open>exec\<close> takes the place of the master.
\<close>

definition drop_thread :: "nat \<Rightarrow> pttable \<Rightarrow> pttable" where
  "drop_thread t = upd_t t (\<lambda>r. r\<lparr>t_kstack := None, t_ustack := 0, t_tid := 0, t_process := None,
     t_state := UNUSED, t_retval := 0\<rparr>)"

fun exec_threads :: "nat \<Rightarrow> nat \<Rightarrow> nat list \<Rightarrow> pttable \<Rightarrow> pttable result" where
  "exec_threads cur ct [] s = Inr s"
| "exec_threads cur ct (i # is) s =
     (if workers (pprocs s cur) i = Some ct then
        rbind (nonnull (master (pprocs s cur))) (\<lambda>m.
        exec_threads cur ct is
          (upd_p cur (\<lambda>r. r\<lparr>master := Some ct, workers := (workers r)(i := None)\<rparr>) (drop_thread m s)))
      else
        exec_threads cur ct is
          (upd_p cur (\<lambda>r. r\<lparr>workers := (workers r)(i := None)\<rparr>)
            (case workers (pprocs s cur) i of None \<Rightarrow> s | Some t \<Rightarrow> drop_thread t s)))"

text \<open>The stack slots that \<open>exec\<close> lays out above the program, and its last steps.\<close>

definition exec_commit :: "nat \<Rightarrow> u32 \<Rightarrow> u32 \<Rightarrow> u32 \<Rightarrow> string \<Rightarrow> nat \<Rightarrow> pttable \<Rightarrow> pttable result" where
  "exec_commit newdir sz entry sp pname cur s =
     (let s1 = upd_p cur (\<lambda>r. r\<lparr>p_name := pname, mastertop := sz,
                 ustacks := (\<lambda>i. if i < 256 then \<lparr>us_addr = sz + of_nat i * 8192, us_check = False\<rparr> else ustacks r i),
                 p_pgdir := Some newdir, p_sz := sz + 256 * 8192, threadtop := sz + 256 * 8192\<rparr>) s in
      rbind (nonnull (master (pprocs s1 cur))) (\<lambda>m.
      Inr (upd_t m (\<lambda>r. r\<lparr>t_tf := (t_tf r)\<lparr>tf_eip := entry, tf_esp := sp\<rparr>\<rparr>) s1)))"

end
