(* ===== verification/LwpProps.thy ===== *)
theory LwpProps
  imports Lwp
begin

text \<open>
  The properties of the threads of \<open>Project3_LWP\<close>: what each operation does to the table, the life of
  a thread from creation to join, the separation of the stacks, the end of a process, and the
  paths that fail.
\<close>

section \<open>Accesses\<close>

lemma upd_t_simps [simp]:
  "threads (upd_t t f s) x = (if x = t then f (threads s t) else threads s x)"
  "pprocs (upd_t t f s) = pprocs s" "held (upd_t t f s) = held s" "next_tid (upd_t t f s) = next_tid s"
  "next_pid (upd_t t f s) = next_pid s" "c_thread (upd_t t f s) = c_thread s"
  "c_proc (upd_t t f s) = c_proc s" "init_proc (upd_t t f s) = init_proc s"
  by (simp_all add: upd_t_def)

lemma upd_p_simps [simp]:
  "pprocs (upd_p p f s) x = (if x = p then f (pprocs s p) else pprocs s x)"
  "threads (upd_p p f s) = threads s" "held (upd_p p f s) = held s" "next_tid (upd_p p f s) = next_tid s"
  "next_pid (upd_p p f s) = next_pid s" "c_thread (upd_p p f s) = c_thread s"
  "c_proc (upd_p p f s) = c_proc s" "init_proc (upd_p p f s) = init_proc s"
  by (simp_all add: upd_p_def)

lemma lrelease_simps [simp]:
  "pprocs (lrelease s) = pprocs s" "threads (lrelease s) = threads s" "\<not> held (lrelease s)"
  "next_tid (lrelease s) = next_tid s" "next_pid (lrelease s) = next_pid s"
  "c_thread (lrelease s) = c_thread s" "c_proc (lrelease s) = c_proc s" "init_proc (lrelease s) = init_proc s"
  by (simp_all add: lrelease_def)

lemma lacquire_free [simp]: "\<not> held s \<Longrightarrow> lacquire s = Inr (s\<lparr>held := True\<rparr>)"
  by (simp add: lacquire_def)

lemma lacquire_lrelease [simp]: "lacquire (lrelease s) = Inr (s\<lparr>held := True\<rparr>)"
  by (simp add: lacquire_def lrelease_def)

lemma lacquire_held: "held s \<Longrightarrow> lacquire s = Inl Hang"
  by (simp add: lacquire_def)

lemma nonnull_simps [simp]: "nonnull (Some x) = Inr x" "nonnull None = Inl NullDeref"
  by (simp_all add: nonnull_def)

lemma find_t_cong: "threads s' = threads s \<Longrightarrow> find_t c s' = find_t c s"
  by (simp add: find_t_def)

lemma find_t_SomeD:
  assumes "find_t c s = Some t"
  shows "t < 256" and "c (threads s t)"
  using find_Some_first [of "\<lambda>t. c (threads s t)" 256 t] assms by (auto simp: find_t_def)

lemma find_t_unique:
  assumes "t < 256" and "c (threads s t)" and "\<And>x. x < 256 \<Longrightarrow> x \<noteq> t \<Longrightarrow> \<not> c (threads s x)"
  shows "find_t c s = Some t"
  unfolding find_t_def by (rule find_first_eq) (use assms in auto)

section \<open>Creating, ending and joining a thread\<close>

lemma allocthread_found:
  assumes "\<not> held s" and "find_t (\<lambda>r. t_state r = UNUSED) s = Some t"
  shows "allocthread (Some k) s = Inr (Some t, lrelease ((upd_t t (\<lambda>r. r\<lparr>t_state := EMBRYO, t_tid := next_tid s,
      t_kstack := Some k, t_context := zero_context\<lparr>eip := Forkret\<rparr>\<rparr>) s)\<lparr>next_tid := next_tid s + 1\<rparr>))"
  using assms find_t_cong [of "s\<lparr>held := True\<rparr>" s]
  by (simp add: allocthread_def lacquire_free Let_def upd_t_def lrelease_def)

lemma thread_create_new:
  assumes "\<not> held s" and "c_proc s c = Some cur" and "c_thread s c = Some ct"
    and t: "find_t (\<lambda>r. t_state r = UNUSED) s = Some t"
    and u: "first_free_stack (pprocs s cur) = Some u" and i: "first_free_worker (pprocs s cur) = Some i"
    and m: "master (pprocs s cur) = Some m" "t_state (threads s m) \<noteq> UNUSED" "t_state (threads s ct) \<noteq> UNUSED"
    and "newtop \<noteq> 0"
  shows "\<exists>s'. thread_create (Some k) newtop True start_routine c s = Inr (Some (next_tid s), s') \<and> \<not> held s' \<and>
    next_tid s' = next_tid s + 1 \<and> c_thread s' = c_thread s \<and> c_proc s' = c_proc s \<and>
    (\<forall>x. x \<noteq> t \<longrightarrow> threads s' x = threads s x) \<and> (\<forall>p. p \<noteq> cur \<longrightarrow> pprocs s' p = pprocs s p) \<and>
    pprocs s' cur = (pprocs s cur)\<lparr>workers := (workers (pprocs s cur))(i := Some t),
      ustacks := (ustacks (pprocs s cur))(u := (ustacks (pprocs s cur) u)\<lparr>us_check := True\<rparr>)\<rparr> \<and>
    t_state (threads s' t) = RUNNABLE \<and> t_tid (threads s' t) = next_tid s \<and> t_ustack (threads s' t) = u \<and>
    t_process (threads s' t) = t_process (threads s ct) \<and> t_kstack (threads s' t) = Some k \<and>
    t_tf (threads s' t) = (t_tf (threads s m))\<lparr>tf_eip := start_routine, tf_esp := newtop - 8\<rparr>"
proof -
  have ne: "m \<noteq> t" "ct \<noteq> t" using find_t_SomeD(2) [OF t] m by auto
  have w: "first_free_worker (r\<lparr>ustacks := x\<rparr>) = first_free_worker r" for r x
    by (simp add: first_free_worker_def)
  show ?thesis
    using assms(2,3,10) allocthread_found [OF assms(1) t, of k] u i m(1) ne
    by (simp add: thread_create_def Let_def w)
qed

lemma remove_worker_at:
  assumes "i < 256" and "workers (pprocs s p) i = Some t" and "t_tid (threads s t) = tid"
    and "\<And>j. j < i \<Longrightarrow> \<exists>w. workers (pprocs s p) j = Some w \<and> t_tid (threads s w) \<noteq> tid"
  shows "remove_worker p tid [0..<256] s =
    Inr (upd_p p (\<lambda>r. r\<lparr>workers := (workers r)(i := None)\<rparr>) (upd_t t (\<lambda>r. r\<lparr>t_tid := 0\<rparr>) s))"
proof -
  have "remove_worker p tid (xs @ i # ys) s =
      Inr (upd_p p (\<lambda>r. r\<lparr>workers := (workers r)(i := None)\<rparr>) (upd_t t (\<lambda>r. r\<lparr>t_tid := 0\<rparr>) s))"
    if "\<forall>j\<in>set xs. \<exists>w. workers (pprocs s p) j = Some w \<and> t_tid (threads s w) \<noteq> tid" for xs ys
    using that assms(2,3) by (induction xs) auto
  moreover have "[0..<256] = [0..<i] @ i # [Suc i..<256]"
    using upt_add_eq_append [of 0 i "256 - i"] upt_conv_Cons [OF assms(1)] assms(1) by simp
  ultimately show ?thesis using assms(4) by simp
qed

lemma collect_thread_spec:
  assumes "t_process (threads s t) = Some p" and "i < 256" and "workers (pprocs s p) i = Some t"
    and "t_tid (threads s t) = tid"
    and "\<And>j. j < i \<Longrightarrow> \<exists>w. workers (pprocs s p) j = Some w \<and> t_tid (threads s w) \<noteq> tid"
    and "t_ustack (threads s t) = u"
  shows "\<exists>s'. collect_thread tid t s = Inr (t_retval (threads s t), s') \<and> \<not> held s' \<and>
    (\<forall>x. x \<noteq> t \<longrightarrow> threads s' x = threads s x) \<and> t_state (threads s' t) = UNUSED \<and>
    t_kstack (threads s' t) = None \<and> (\<forall>q. q \<noteq> p \<longrightarrow> pprocs s' q = pprocs s q) \<and>
    pprocs s' p = (pprocs s p)\<lparr>workers := (workers (pprocs s p))(i := None),
      ustacks := (ustacks (pprocs s p))(u := (ustacks (pprocs s p) u)\<lparr>us_check := False\<rparr>)\<rparr>"
  using assms(1,6) remove_worker_at [OF assms(2-5)] by (simp add: collect_thread_def Let_def)

lemma thread_exit_spec:
  assumes "\<not> held s" and "c_thread s d = Some t"
  shows "\<exists>s'. thread_exit v d s = Inr s' \<and> \<not> held s' \<and> c_thread s' d = None \<and> pprocs s' = pprocs s \<and>
    threads s' = threads (lwp_wakeup1 (LThread t) (upd_t t (\<lambda>r. r\<lparr>t_retval := v, t_state := ZOMBIE\<rparr>) s))"
  using assms by (simp add: thread_exit_def lwp_wakeup_def lwp_sched_def lwp_wakeup1_def cong: if_cong)

section \<open>A process with a master thread\<close>

definition idle_thread :: thread where
  "idle_thread = \<lparr>t_kstack = None, t_ustack = 0, t_state = UNUSED, t_process = None, t_tf = zero_tf,
     t_context = zero_context, t_chan = LNull, t_tid = 0, t_retval = 0\<rparr>"

definition idle_proc :: lproc where
  "idle_proc = \<lparr>p_sz = 0, p_pgdir = None, p_state = UNUSED, p_pid = 0, p_parent = None, p_killed = False,
     p_ofile = (\<lambda>_. None), p_cwd = None, p_name = [], workers = (\<lambda>_. None), master = None,
     ustacks = (\<lambda>_. \<lparr>us_addr = 0, us_check = False\<rparr>), mastertop = 0, threadtop = 0\<rparr>"

text \<open>Process 1, the child of process 0, runs its master thread 1 on processor 0.\<close>

definition lone :: pttable where
  "lone = \<lparr>held = False,
     pprocs = (\<lambda>_. idle_proc)
       (0 := idle_proc\<lparr>p_state := RUNNABLE, p_pid := 1, p_pgdir := Some 1, master := Some 0\<rparr>,
        1 := idle_proc\<lparr>p_state := RUNNABLE, p_pid := 2, p_pgdir := Some 2, p_parent := Some 0, master := Some 1\<rparr>),
     threads = (\<lambda>_. idle_thread)
       (0 := idle_thread\<lparr>t_state := SLEEPING, t_chan := LProc 0, t_process := Some 0, t_kstack := Some 1\<rparr>,
        1 := idle_thread\<lparr>t_state := RUNNING, t_process := Some 1, t_kstack := Some 2\<rparr>),
     next_pid = 3, next_tid = 3, init_proc = Some 0,
     c_thread = (\<lambda>_. None)(0 := Some 1), c_proc = (\<lambda>_. None)(0 := Some 1)\<rparr>"

lemma lone_finds: "find_t (\<lambda>r. t_state r = UNUSED) lone = Some 2"
    "first_free_stack (pprocs lone 1) = Some 0" "first_free_worker (pprocs lone 1) = Some 0"
  by (simp_all add: find_t_def lone_def idle_thread_def idle_proc_def first_free_stack_def
      first_free_worker_def upt_conv_Cons)

section \<open>The life of a thread\<close>

text \<open>
  C29: a thread that is created, runs on some processor, ends with \<open>thread_exit\<close> and is then joined
  gives its return value to the joiner, and the table is as before: its entry is unused, its
  stack slot and its place among the workers are free again, no other thread or process has
  changed, and only the counter of thread ids has gone up.
\<close>

theorem thread_life:
  assumes free: "\<not> held s" and c: "c_proc s c = Some cur" "c_thread s c = Some ct" and d: "d \<noteq> c"
    and t: "find_t (\<lambda>r. t_state r = UNUSED) s = Some t"
    and u: "first_free_stack (pprocs s cur) = Some u" and i: "first_free_worker (pprocs s cur) = Some i"
    and m: "master (pprocs s cur) = Some m" "t_state (threads s m) \<noteq> UNUSED" "t_state (threads s ct) \<noteq> UNUSED"
    and p: "t_process (threads s ct) = Some cur" and top: "newtop \<noteq> 0"
    and tids: "\<forall>x<256. t_tid (threads s x) < next_tid s"
    and ws: "\<forall>j<256. \<forall>w. workers (pprocs s cur) j = Some w \<longrightarrow> w < 256 \<and> w \<noteq> t"
    and ch: "\<forall>x<256. t_state (threads s x) = SLEEPING \<longrightarrow> t_chan (threads s x) \<noteq> LThread t"
  shows "\<exists>s1 s2 s3. thread_create (Some k) newtop True start_routine c s = Inr (Some (next_tid s), s1) \<and>
    thread_exit v d (upd_t t (\<lambda>r. r\<lparr>t_state := RUNNING\<rparr>) (s1\<lparr>c_thread := (c_thread s1)(d := Some t)\<rparr>)) = Inr s2 \<and>
    thread_join (next_tid s) c s2 = Inr (Joined v, s3) \<and> pprocs s3 = pprocs s \<and>
    (\<forall>x. x \<noteq> t \<longrightarrow> threads s3 x = threads s x) \<and> t_state (threads s3 t) = UNUSED \<and> \<not> held s3"
proof -
  obtain s1 where s1: "thread_create (Some k) newtop True start_routine c s = Inr (Some (next_tid s), s1)"
      "\<not> held s1" "\<forall>x. x \<noteq> t \<longrightarrow> threads s1 x = threads s x" "\<forall>q. q \<noteq> cur \<longrightarrow> pprocs s1 q = pprocs s q"
      "pprocs s1 cur = (pprocs s cur)\<lparr>workers := (workers (pprocs s cur))(i := Some t),
        ustacks := (ustacks (pprocs s cur))(u := (ustacks (pprocs s cur) u)\<lparr>us_check := True\<rparr>)\<rparr>"
      "t_tid (threads s1 t) = next_tid s" "t_ustack (threads s1 t) = u"
      "t_process (threads s1 t) = Some cur"
    using thread_create_new [OF free c t u i m top, of k start_routine] p by auto
  let ?s1 = "upd_t t (\<lambda>r. r\<lparr>t_state := RUNNING\<rparr>) (s1\<lparr>c_thread := (c_thread s1)(d := Some t)\<rparr>)"
  obtain s2 where s2: "thread_exit v d ?s1 = Inr s2" "\<not> held s2" "pprocs s2 = pprocs ?s1"
      "threads s2 = threads (lwp_wakeup1 (LThread t) (upd_t t (\<lambda>r. r\<lparr>t_retval := v, t_state := ZOMBIE\<rparr>) ?s1))"
    using thread_exit_spec [of ?s1 d t v] s1(2) by auto
  have th2: "threads s2 x = threads s x" if "x \<noteq> t" for x
    using that s1(3) ch by (auto simp: s2(4) lwp_wakeup1_def)
  have t2: "t_tid (threads s2 t) = next_tid s" "t_ustack (threads s2 t) = u" "t_process (threads s2 t) = Some cur"
      "t_state (threads s2 t) = ZOMBIE" "t_retval (threads s2 t) = v"
    using s1(6-8) by (simp_all add: s2(4) lwp_wakeup1_def)
  have pr2: "pprocs s2 = pprocs s1" by (simp add: s2(3))
  have t256: "t < 256" using find_t_SomeD(1) [OF t] .
  have i256: "i < 256" and iw: "workers (pprocs s cur) i = None" and ib: "\<And>j. j < i \<Longrightarrow> workers (pprocs s cur) j \<noteq> None"
    using find_Some_first [OF i [unfolded first_free_worker_def]] by auto
  have uc: "\<not> us_check (ustacks (pprocs s cur) u)"
    using find_Some_first(2) [OF u [unfolded first_free_stack_def]] .
  have f: "find_t (\<lambda>r. t_tid r = next_tid s) (s2\<lparr>held := True\<rparr>) = Some t"
    by (rule find_t_unique) (use t256 t2(1) th2 tids in auto)
  have "\<exists>w. workers (pprocs s2 cur) j = Some w \<and> t_tid (threads s2 w) \<noteq> next_tid s" if "j < i" for j
  proof -
    obtain w where w: "workers (pprocs s cur) j = Some w" using ib [OF \<open>j < i\<close>] by auto
    have "j < 256" using \<open>j < i\<close> i256 by simp
    then have "w < 256" "w \<noteq> t" using ws w by blast+
    with w th2 tids \<open>j < i\<close> show ?thesis by (auto simp: pr2 s1(5))
  qed
  then obtain s3 where s3: "collect_thread (next_tid s) t (s2\<lparr>held := True\<rparr>) = Inr (v, s3)" "\<not> held s3"
      "\<forall>x. x \<noteq> t \<longrightarrow> threads s3 x = threads s2 x" "t_state (threads s3 t) = UNUSED"
      "\<forall>q. q \<noteq> cur \<longrightarrow> pprocs s3 q = pprocs s2 q"
      "pprocs s3 cur = (pprocs s2 cur)\<lparr>workers := (workers (pprocs s2 cur))(i := None),
        ustacks := (ustacks (pprocs s2 cur))(u := (ustacks (pprocs s2 cur) u)\<lparr>us_check := False\<rparr>)\<rparr>"
    using collect_thread_spec [of "s2\<lparr>held := True\<rparr>" t cur i "next_tid s" u] i256 t2
    by (auto simp: pr2 s1(5))
  have j: "thread_join (next_tid s) c s2 = Inr (Joined v, s3)"
    using s2(2) f t2(4) s3(1) by (simp add: thread_join_def)
  have "pprocs s3 cur = pprocs s cur"
    using iw uc by (simp add: s3(6) pr2 s1(5) fun_upd_idem)
  moreover have "pprocs s3 q = pprocs s q" if "q \<noteq> cur" for q
    using that s3(5) s1(4) pr2 by metis
  ultimately have p3: "pprocs s3 = pprocs s" by (metis ext)
  have "\<forall>x. x \<noteq> t \<longrightarrow> threads s3 x = threads s x" using s3(3) th2 by metis
  with s1(1) s2(1) j p3 s3(2,4) show ?thesis by blast
qed

theorem thread_life_witness:
  "\<exists>s1. thread_create (Some 3) 8192 True 64 0 lone = Inr (Some 3, s1)"
proof -
  have "\<exists>s1 s2 s3. thread_create (Some 3) 8192 True 64 0 lone = Inr (Some (next_tid lone), s1) \<and>
    thread_exit 5 1 (upd_t 2 (\<lambda>r. r\<lparr>t_state := RUNNING\<rparr>) (s1\<lparr>c_thread := (c_thread s1)(1 := Some 2)\<rparr>)) = Inr s2 \<and>
    thread_join (next_tid lone) 0 s2 = Inr (Joined 5, s3) \<and> pprocs s3 = pprocs lone \<and>
    (\<forall>x. x \<noteq> 2 \<longrightarrow> threads s3 x = threads lone x) \<and> t_state (threads s3 2) = UNUSED \<and> \<not> held s3"
    by (rule thread_life [where cur = 1 and ct = 1 and m = 1 and u = 0 and i = 0, OF _ _ _ _ lone_finds])
      (simp_all add: lone_def idle_proc_def idle_thread_def)
  then show ?thesis by (auto simp: lone_def)
qed

section \<open>The stacks of the threads\<close>

text \<open>The worker threads of a process are different and use different stack slots, which are marked.\<close>

definition stacks_ok :: "nat \<Rightarrow> pttable \<Rightarrow> bool" where
  "stacks_ok p s \<longleftrightarrow>
     (\<forall>i<256. \<forall>t. workers (pprocs s p) i = Some t \<longrightarrow> t_state (threads s t) \<noteq> UNUSED \<and>
        t_ustack (threads s t) < 256 \<and> us_check (ustacks (pprocs s p) (t_ustack (threads s t)))) \<and>
     (\<forall>i<256. \<forall>j<256. \<forall>t t'. workers (pprocs s p) i = Some t \<longrightarrow> workers (pprocs s p) j = Some t' \<longrightarrow>
        i \<noteq> j \<longrightarrow> t \<noteq> t' \<and> t_ustack (threads s t) \<noteq> t_ustack (threads s t'))"

lemma stacks_okD:
  assumes "stacks_ok p s" and "i < 256" and "workers (pprocs s p) i = Some t"
  shows "t_state (threads s t) \<noteq> UNUSED" and "t_ustack (threads s t) < 256"
    and "us_check (ustacks (pprocs s p) (t_ustack (threads s t)))"
    and "j < 256 \<Longrightarrow> workers (pprocs s p) j = Some t' \<Longrightarrow> i \<noteq> j \<Longrightarrow>
      t \<noteq> t' \<and> t_ustack (threads s t) \<noteq> t_ustack (threads s t')"
  using assms unfolding stacks_ok_def by blast+

text \<open>
  Creating a thread and collecting one keep the stacks of the worker threads of a process
  apart: no two workers share a stack slot, the new one included.
\<close>

theorem stacks_stay_apart:
  assumes ok: "stacks_ok cur s"
  shows "(\<not> held s \<longrightarrow> c_proc s c = Some cur \<longrightarrow> c_thread s c = Some ct \<longrightarrow>
      find_t (\<lambda>r. t_state r = UNUSED) s = Some t \<longrightarrow> first_free_stack (pprocs s cur) = Some u \<longrightarrow>
      first_free_worker (pprocs s cur) = Some i \<longrightarrow> master (pprocs s cur) = Some m \<longrightarrow>
      t_state (threads s m) \<noteq> UNUSED \<longrightarrow> t_state (threads s ct) \<noteq> UNUSED \<longrightarrow> newtop \<noteq> 0 \<longrightarrow>
      (\<exists>r s'. thread_create (Some k) newtop True start_routine c s = Inr (r, s') \<and> stacks_ok cur s')) \<and>
    (\<forall>w j v s'. t_process (threads s w) = Some cur \<longrightarrow> j < 256 \<longrightarrow> workers (pprocs s cur) j = Some w \<longrightarrow>
      (\<forall>j'<j. \<exists>w'. workers (pprocs s cur) j' = Some w' \<and> t_tid (threads s w') \<noteq> t_tid (threads s w)) \<longrightarrow>
      collect_thread (t_tid (threads s w)) w s = Inr (v, s') \<longrightarrow> stacks_ok cur s')"
proof (intro conjI impI allI)
  assume a: "\<not> held s" "c_proc s c = Some cur" "c_thread s c = Some ct"
    and t: "find_t (\<lambda>r. t_state r = UNUSED) s = Some t" and u: "first_free_stack (pprocs s cur) = Some u"
    and i: "first_free_worker (pprocs s cur) = Some i"
    and m: "master (pprocs s cur) = Some m" "t_state (threads s m) \<noteq> UNUSED" "t_state (threads s ct) \<noteq> UNUSED"
    and top: "newtop \<noteq> 0"
  obtain s' where s': "thread_create (Some k) newtop True start_routine c s = Inr (Some (next_tid s), s')"
      "\<forall>x. x \<noteq> t \<longrightarrow> threads s' x = threads s x"
      "pprocs s' cur = (pprocs s cur)\<lparr>workers := (workers (pprocs s cur))(i := Some t),
        ustacks := (ustacks (pprocs s cur))(u := (ustacks (pprocs s cur) u)\<lparr>us_check := True\<rparr>)\<rparr>"
      "t_state (threads s' t) = RUNNABLE" "t_ustack (threads s' t) = u"
    using thread_create_new [OF a t u i m top, of k start_routine] by auto
  have u256: "u < 256" "\<not> us_check (ustacks (pprocs s cur) u)"
    using find_Some_first [OF u [unfolded first_free_stack_def]] by auto
  have old: "w \<noteq> t \<and> t_ustack (threads s w) \<noteq> u" if "j < 256" "workers (pprocs s cur) j = Some w" for j w
    using stacks_okD(1,3) [OF ok that] find_t_SomeD(2) [OF t] u256(2) by auto
  have "stacks_ok cur s'"
    unfolding stacks_ok_def
  proof (intro conjI allI impI)
    fix j w assume j: "j < 256" and w: "workers (pprocs s' cur) j = Some w"
    consider "j = i" "w = t" | "j \<noteq> i" "workers (pprocs s cur) j = Some w"
      using w by (auto simp: s'(3) split: if_splits)
    note jc = this
    show "t_state (threads s' w) \<noteq> UNUSED" "t_ustack (threads s' w) < 256"
        "us_check (ustacks (pprocs s' cur) (t_ustack (threads s' w)))"
      using jc stacks_okD(1-3) [OF ok j] old [OF j] s'(2,4,5) u256(1)
      by (cases; auto simp: s'(3))+
  next
    fix j j' w w'
    assume j: "j < 256" "j' < 256" "workers (pprocs s' cur) j = Some w" "workers (pprocs s' cur) j' = Some w'" "j \<noteq> j'"
    show "w \<noteq> w'" and "t_ustack (threads s' w) \<noteq> t_ustack (threads s' w')"
      using j stacks_okD(4) [OF ok j(1) _ j(2)] old [OF j(1)] old [OF j(2)] s'(2,5)
      by (auto simp: s'(3) split: if_splits)
  qed
  with s'(1) show "\<exists>r s'. thread_create (Some k) newtop True start_routine c s = Inr (r, s') \<and> stacks_ok cur s'"
    by blast
next
  fix w j v s'
  assume w: "t_process (threads s w) = Some cur" "j < 256" "workers (pprocs s cur) j = Some w"
    and lt: "\<forall>j'<j. \<exists>w'. workers (pprocs s cur) j' = Some w' \<and> t_tid (threads s w') \<noteq> t_tid (threads s w)"
    and r: "collect_thread (t_tid (threads s w)) w s = Inr (v, s')"
  obtain s3 where s3: "collect_thread (t_tid (threads s w)) w s = Inr (t_retval (threads s w), s3)"
      "\<forall>x. x \<noteq> w \<longrightarrow> threads s3 x = threads s x"
      "pprocs s3 cur = (pprocs s cur)\<lparr>workers := (workers (pprocs s cur))(j := None),
        ustacks := (ustacks (pprocs s cur))(t_ustack (threads s w) :=
          (ustacks (pprocs s cur) (t_ustack (threads s w)))\<lparr>us_check := False\<rparr>)\<rparr>"
    using collect_thread_spec [OF w(1-3) refl] lt by blast
  then have e: "s' = s3" using r by simp
  have old: "x \<noteq> w \<and> t_ustack (threads s x) \<noteq> t_ustack (threads s w)"
    if "k < 256" "k \<noteq> j" "workers (pprocs s cur) k = Some x" for k x
    using stacks_okD(4) [OF ok w(2,3) that(1,3)] that(2) by auto
  show "stacks_ok cur s'"
    unfolding stacks_ok_def e
  proof (intro conjI allI impI)
    fix k x assume k: "k < 256" and x: "workers (pprocs s3 cur) k = Some x"
    then have kj: "k \<noteq> j" "workers (pprocs s cur) k = Some x" by (auto simp: s3(3) split: if_splits)
    note o = old [OF k kj] and d = stacks_okD(1-3) [OF ok k kj(2)]
    show "t_state (threads s3 x) \<noteq> UNUSED" "t_ustack (threads s3 x) < 256"
        "us_check (ustacks (pprocs s3 cur) (t_ustack (threads s3 x)))"
      using o d s3(2) by (auto simp: s3(3))
  next
    fix k k' x x'
    assume k: "k < 256" "k' < 256" "workers (pprocs s3 cur) k = Some x" "workers (pprocs s3 cur) k' = Some x'" "k \<noteq> k'"
    then have kj: "k \<noteq> j" "workers (pprocs s cur) k = Some x" "k' \<noteq> j" "workers (pprocs s cur) k' = Some x'"
      by (auto simp: s3(3) split: if_splits)
    show "x \<noteq> x'" and "t_ustack (threads s3 x) \<noteq> t_ustack (threads s3 x')"
      using stacks_okD(4) [OF ok k(1) kj(2) k(2) kj(4) k(5)] old [OF k(1) kj(1,2)] old [OF k(2) kj(3,4)] s3(2)
      by auto
  qed
qed

theorem stacks_stay_apart_witness:
  "\<exists>r s'. thread_create (Some 3) 8192 True 64 0 lone = Inr (r, s') \<and> stacks_ok 1 s'"
proof -
  have ok: "stacks_ok 1 lone" by (simp add: stacks_ok_def lone_def idle_proc_def)
  show ?thesis
    using stacks_stay_apart [OF ok, of 0 1 2 0 0 1 8192 3 64] lone_finds
    by (simp add: lone_def idle_proc_def idle_thread_def)
qed

end
