(* ===== verification/LwpEnd.thy ===== *)
theory LwpEnd
  imports LwpProps
begin

text \<open>
  The end of a process of \<open>Project3_LWP\<close>: \<open>exit\<close>, what the scheduler can run after it, \<open>wait\<close>, and the
  paths on which the table lock is kept.
\<close>

section \<open>The scheduler\<close>

lemma lwp_scheduler_from_find:
  assumes "t \<le> 256"
  shows "lwp_scheduler_from c t s = (case List.find (\<lambda>x. t_state (threads s x) = RUNNABLE) [t..<256] of
      None \<Rightarrow> Inr (None, s)
    | Some x \<Rightarrow> rbind (lwp_switchuvm_ok x s) (\<lambda>_. Inr (Some x, upd_t x (\<lambda>r. r\<lparr>t_state := RUNNING\<rparr>)
        (s\<lparr>c_thread := (c_thread s)(c := Some x), c_proc := (c_proc s)(c := t_process (threads s x))\<rparr>))))"
  using assms
proof (induction c t s rule: lwp_scheduler_from.induct)
  case (1 c t s)
  show ?case
  proof (cases "t < 256")
    case True
    then show ?thesis
      using 1 by (subst lwp_scheduler_from.simps) (simp add: upt_conv_Cons)
  next
    case False
    then show ?thesis by (subst lwp_scheduler_from.simps) simp
  qed
qed

text \<open>
  The scheduler of the threads takes the runnable thread with the lowest number, marks it
  running and makes its process the current one; it changes nothing else, and with no runnable
  thread it changes nothing at all.
\<close>

theorem lwp_scheduler_first:
  "lwp_scheduler_from c 0 s = (case find_t (\<lambda>r. t_state r = RUNNABLE) s of
      None \<Rightarrow> Inr (None, s)
    | Some x \<Rightarrow> rbind (lwp_switchuvm_ok x s) (\<lambda>_. Inr (Some x, upd_t x (\<lambda>r. r\<lparr>t_state := RUNNING\<rparr>)
        (s\<lparr>c_thread := (c_thread s)(c := Some x), c_proc := (c_proc s)(c := t_process (threads s x))\<rparr>))))"
  by (simp add: lwp_scheduler_from_find find_t_def)


section \<open>The end of a process\<close>

lemma lwp_wakeup1_simps [simp]:
  "pprocs (lwp_wakeup1 ch s) = pprocs s" "held (lwp_wakeup1 ch s) = held s"
  "c_thread (lwp_wakeup1 ch s) = c_thread s" "c_proc (lwp_wakeup1 ch s) = c_proc s"
  "init_proc (lwp_wakeup1 ch s) = init_proc s"
  by (simp_all add: lwp_wakeup1_def)









lemma end_threads_simps [simp]:
  "pprocs (end_threads ct s) = pprocs s" "held (end_threads ct s) = held s"
  "c_thread (end_threads ct s) = c_thread s" "c_proc (end_threads ct s) = c_proc s"
  "init_proc (end_threads ct s) = init_proc s"
  by (simp_all add: end_threads_def)




section \<open>Paths that fail\<close>

lemma free_workers_hole:
  assumes "i \<in> set is" and "workers (pprocs s p) i = None"
  shows "free_workers p is s = Inl NullDeref"
  using assms
proof (induction "is" arbitrary: s)
  case (Cons j js)
  show ?case
  proof (cases "workers (pprocs s p) j")
    case (Some t)
    then have "i \<in> set js" using Cons.prems by auto
    then have "free_workers p js (upd_p p (\<lambda>r. r\<lparr>workers := (workers r)(j := None)\<rparr>)
        (upd_t t (\<lambda>r. r\<lparr>t_state := UNUSED\<rparr>) s)) = Inl NullDeref"
      using Cons.IH [OF \<open>i \<in> set js\<close>, of "upd_p p (\<lambda>r. r\<lparr>workers := (workers r)(j := None)\<rparr>)
        (upd_t t (\<lambda>r. r\<lparr>t_state := UNUSED\<rparr>) s)"] Cons.prems(2) by simp
    then show ?thesis using Some by simp
  qed simp
qed simp

text \<open>
  \<open>wait\<close> writes through a null pointer whenever the ended child that it finds does not have all
  its 256 places for worker threads taken.
\<close>

theorem wait_null_worker:
  assumes "c_proc s c = Some cur" and "\<not> held s"
    and "find_p (\<lambda>r. p_parent r = Some cur \<and> p_state r = ZOMBIE) s = Some p"
    and "master (pprocs s p) = Some m" and "i < 256" and "workers (pprocs s p) i = None"
  shows "lwp_wait c s = Inl NullDeref"
proof -
  have f: "find_p (\<lambda>r. p_parent r = Some cur \<and> p_state r = ZOMBIE) (s\<lparr>held := True\<rparr>) = Some p"
    using assms(3) by (simp add: find_p_def)
  have "free_workers p [0..<256] (upd_t m (\<lambda>r. r\<lparr>t_kstack := None, t_process := None, t_state := UNUSED\<rparr>)
      (s\<lparr>held := True\<rparr>)) = Inl NullDeref"
    by (rule free_workers_hole [of i]) (use assms(5,6) in auto)
  then show ?thesis
    using assms(1,2,4) f by (simp add: lwp_wait_def lwp_reap_def Let_def rbind_def)
qed

text \<open>Process 1 of \<open>lone\<close> has ended.\<close>

definition lone_ended :: pttable where
  "lone_ended = upd_p 1 (\<lambda>r. r\<lparr>p_state := ZOMBIE\<rparr>) (lone\<lparr>c_proc := (\<lambda>_. Some 0)\<rparr>)"

theorem wait_null_worker_witness: "lwp_wait 0 lone_ended = Inl NullDeref"
proof (rule wait_null_worker [of lone_ended 0 0 1 1 0])
  show "find_p (\<lambda>r. p_parent r = Some 0 \<and> p_state r = ZOMBIE) lone_ended = Some 1"
    by (simp add: find_p_def lone_ended_def lone_def idle_proc_def upt_conv_Cons)
qed (simp_all add: lone_ended_def lone_def idle_proc_def)

text \<open>
  \<open>thread_join\<close> with an unknown thread id and \<open>growproc\<close> without memory return -1 with the table
  lock held: then \<open>yield\<close>, \<open>kill\<close> and \<open>wait\<close> on any processor spin for ever.
\<close>

theorem lock_left_held:
  assumes "\<not> held s" and "c_proc s c = Some cur" and "find_t (\<lambda>r. t_tid r = tid) s = None" and "n \<noteq> 0"
  shows "\<exists>s'. thread_join tid c s = Inr (NoThread, s') \<and> lwp_growproc n 0 c s = Inr (-1, s') \<and>
    lwp_yield d s' = Inl Hang \<and> lwp_kill pd s' = Inl Hang \<and> lwp_wait c s' = Inl Hang \<and>
    thread_join tid' d s' = Inl Hang"
proof -
  have "find_t (\<lambda>r. t_tid r = tid) (s\<lparr>held := True\<rparr>) = None" using assms(3) by (simp add: find_t_def)
  then show ?thesis
    using assms by (simp add: thread_join_def lwp_growproc_def lwp_yield_def lwp_kill_def lwp_wait_def
        lacquire_held rbind_def)
qed

theorem lock_left_held_witness: "\<exists>s'. thread_join 9 0 lone = Inr (NoThread, s') \<and> lwp_yield 1 s' = Inl Hang"
proof -
  have "find_t (\<lambda>r. t_tid r = 9) lone = None"
    by (auto simp: find_t_def lone_def idle_thread_def find_None_iff)
  then show ?thesis
    using lock_left_held [of lone 0 1 9 4096 1 5 0] by (auto simp: lone_def)
qed

end
