(* ===== verification/Bcache.thy ===== *)
theory Bcache
  imports Prelude
begin

text \<open>
  The buffer cache (\<open>bio.c\<close>) over the disk in memory of \<open>memide.c\<close>. The doubly linked list of the
  buffers is the list of their indices, from \<open>head.next\<close> to \<open>head.prev\<close>. The spin lock of the cache
  makes each operation on the list atomic; a buffer whose sleep lock another process holds makes
  \<open>bget\<close> wait. The state also records every write to the disk in order, so that the disk after a
  power failure is the disk after some prefix of them.
\<close>

section \<open>Blocks of bytes\<close>

text \<open>A block is a function from the index of a byte; the indices from 512 on have no meaning.\<close>

type_synonym block = "nat \<Rightarrow> 8 word"

definition get32 :: "block \<Rightarrow> nat \<Rightarrow> u32" where
  "get32 d i = ucast (d (4 * i)) OR push_bit 8 (ucast (d (4 * i + 1))) OR
     push_bit 16 (ucast (d (4 * i + 2))) OR push_bit 24 (ucast (d (4 * i + 3)))"

definition put32 :: "block \<Rightarrow> nat \<Rightarrow> u32 \<Rightarrow> block" where
  "put32 d i w = d(4 * i := ucast w, 4 * i + 1 := ucast (drop_bit 8 w),
     4 * i + 2 := ucast (drop_bit 16 w), 4 * i + 3 := ucast (drop_bit 24 w))"

lemma get32_put32 [simp]: "get32 (put32 d i w) j = (if i = j then w else get32 d j)"
proof (cases "i = j")
  case True
  have "get32 (put32 d i w) i = w"
  proof (rule bit_word_eqI)
    fix n assume n: "n < LENGTH(32)"
    consider "n < 8" | "8 \<le> n" "n < 16" | "16 \<le> n" "n < 24" | "24 \<le> n" "n < 32" using n by force
    then show "bit (get32 (put32 d i w) i) n = bit w n"
      by cases (auto simp: get32_def put32_def bit_simps)
  qed
  then show ?thesis using True by simp
next
  case False
  then have "4 * j + b \<noteq> 4 * i + a" if "a < 4" "b < 4" for a b using that by arith
  from this [of 0] this [of 1] this [of 2] this [of 3] this [of 0 0]
  have "put32 d i w (4 * j + b) = d (4 * j + b)" if "b < 4" for b
    using that by (fastforce simp: put32_def)
  from this [of 0] this [of 1] this [of 2] this [of 3] show ?thesis using False by (simp add: get32_def)
qed

section \<open>Buffers\<close>

record buf =
  b_valid :: bool
  b_dirty :: bool
  b_dev :: nat
  b_blockno :: nat
  b_locked :: bool
  b_pid :: int
  b_refcnt :: nat
  b_data :: block

record bst =
  bufs :: "nat \<Rightarrow> buf"
  lru :: "nat list"
  disk :: "nat \<Rightarrow> block"
  disksize :: nat
  written :: "(nat \<times> block) list"

definition upd_b :: "nat \<Rightarrow> (buf \<Rightarrow> buf) \<Rightarrow> 'a bst_scheme \<Rightarrow> 'a bst_scheme" where
  "upd_b i f s = s\<lparr>bufs := (bufs s)(i := f (bufs s i))\<rparr>"

definition binit :: "'a bst_scheme \<Rightarrow> 'a bst_scheme" where
  "binit s = fold (\<lambda>b s. upd_b b (\<lambda>r. r\<lparr>b_locked := False, b_pid := 0\<rparr>) (s\<lparr>lru := b # lru s\<rparr>)) [0..<30]
     (s\<lparr>lru := []\<rparr>)"

definition holding_buf :: "int \<Rightarrow> nat \<Rightarrow> 'a bst_scheme \<Rightarrow> bool" where
  "holding_buf me i s \<longleftrightarrow> b_locked (bufs s i) \<and> b_pid (bufs s i) = me"

definition acquire_buf :: "int \<Rightarrow> nat \<Rightarrow> 'a bst_scheme \<Rightarrow> (nat \<times> 'a bst_scheme) result" where
  "acquire_buf me i s =
     (if b_locked (bufs s i) then Inl Blocked
      else Inr (i, upd_b i (\<lambda>r. r\<lparr>b_locked := True, b_pid := me\<rparr>) s))"

definition bget :: "int \<Rightarrow> nat \<Rightarrow> nat \<Rightarrow> 'a bst_scheme \<Rightarrow> (nat \<times> 'a bst_scheme) result" where
  "bget me dev blockno s =
     (case List.find (\<lambda>i. b_dev (bufs s i) = dev \<and> b_blockno (bufs s i) = blockno) (lru s) of
        Some i \<Rightarrow> acquire_buf me i (upd_b i (\<lambda>r. r\<lparr>b_refcnt := b_refcnt r + 1\<rparr>) s)
      | None \<Rightarrow>
          (case List.find (\<lambda>i. b_refcnt (bufs s i) = 0 \<and> \<not> b_dirty (bufs s i)) (rev (lru s)) of
             Some i \<Rightarrow> acquire_buf me i (upd_b i (\<lambda>r. r\<lparr>b_dev := dev, b_blockno := blockno,
                         b_valid := False, b_dirty := False, b_refcnt := 1\<rparr>) s)
           | None \<Rightarrow> Inl (Panic ''bget: no buffers'')))"

definition iderw :: "int \<Rightarrow> nat \<Rightarrow> 'a bst_scheme \<Rightarrow> 'a bst_scheme result" where
  "iderw me i s =
     rbind (ensure (holding_buf me i s) (Panic ''iderw: buf not locked'')) (\<lambda>_.
     rbind (ensure (\<not> (b_valid (bufs s i) \<and> \<not> b_dirty (bufs s i))) (Panic ''iderw: nothing to do'')) (\<lambda>_.
     rbind (ensure (b_dev (bufs s i) = 1) (Panic ''iderw: request not for disk 1'')) (\<lambda>_.
     rbind (ensure (b_blockno (bufs s i) < disksize s) (Panic ''iderw: block out of range'')) (\<lambda>_.
     let p = b_blockno (bufs s i) in
     Inr (if b_dirty (bufs s i)
       then upd_b i (\<lambda>r. r\<lparr>b_dirty := False, b_valid := True\<rparr>)
         (s\<lparr>disk := (disk s)(p := b_data (bufs s i)), written := written s @ [(p, b_data (bufs s i))]\<rparr>)
       else upd_b i (\<lambda>r. r\<lparr>b_data := disk s p, b_valid := True\<rparr>) s)))))"

definition bread :: "int \<Rightarrow> nat \<Rightarrow> nat \<Rightarrow> 'a bst_scheme \<Rightarrow> (nat \<times> 'a bst_scheme) result" where
  "bread me dev blockno s =
     rbind (bget me dev blockno s) (\<lambda>(b, s1).
       if \<not> b_valid (bufs s1 b) then rbind (iderw me b s1) (\<lambda>s2. Inr (b, s2)) else Inr (b, s1))"

definition bwrite :: "int \<Rightarrow> nat \<Rightarrow> 'a bst_scheme \<Rightarrow> 'a bst_scheme result" where
  "bwrite me b s =
     rbind (ensure (holding_buf me b s) (Panic ''bwrite'')) (\<lambda>_.
     iderw me b (upd_b b (\<lambda>r. r\<lparr>b_dirty := True\<rparr>) s))"

definition brelse :: "int \<Rightarrow> nat \<Rightarrow> 'a bst_scheme \<Rightarrow> 'a bst_scheme result" where
  "brelse me b s =
     rbind (ensure (holding_buf me b s) (Panic ''brelse'')) (\<lambda>_.
     let s1 = upd_b b (\<lambda>r. r\<lparr>b_locked := False, b_pid := 0, b_refcnt := b_refcnt r - 1\<rparr>) s in
     Inr (if b_refcnt (bufs s1 b) = 0 then s1\<lparr>lru := b # remove1 b (lru s1)\<rparr> else s1))"

section \<open>What a process sees of the disk\<close>

text \<open>The contents of a block: those of its buffer, or those of the disk.\<close>

definition cview :: "'a bst_scheme \<Rightarrow> nat \<Rightarrow> block" where
  "cview s b = (case List.find (\<lambda>i. b_valid (bufs s i) \<and> b_blockno (bufs s i) = b) [0..<30] of
     None \<Rightarrow> disk s b | Some i \<Rightarrow> b_data (bufs s i))"

definition dirty_set :: "'a bst_scheme \<Rightarrow> nat set" where
  "dirty_set s = {b. \<exists>i<30. b_dirty (bufs s i) \<and> b_blockno (bufs s i) = b}"

text \<open>
  The state of the cache while one process \<open>me\<close> works on it: it holds the buffers \<open>H\<close> and has
  changed the contents of the buffers \<open>X\<close> without writing them.
\<close>

definition buf_at :: "int \<Rightarrow> nat set \<Rightarrow> nat set \<Rightarrow> 'a bst_scheme \<Rightarrow> nat \<Rightarrow> bool" where
  "buf_at me X H s i \<longleftrightarrow>
     (b_valid (bufs s i) \<longleftrightarrow> b_dev (bufs s i) = 1) \<and> (b_valid (bufs s i) \<longrightarrow> b_blockno (bufs s i) < disksize s) \<and>
     (b_dirty (bufs s i) \<longrightarrow> b_valid (bufs s i)) \<and>
     (i \<notin> X \<longrightarrow> b_valid (bufs s i) \<longrightarrow> \<not> b_dirty (bufs s i) \<longrightarrow>
        b_data (bufs s i) = disk s (b_blockno (bufs s i))) \<and>
     (i \<in> H \<longrightarrow> b_locked (bufs s i) \<and> b_pid (bufs s i) = me \<and> b_refcnt (bufs s i) = 1 \<and> b_valid (bufs s i)) \<and>
     (i \<notin> H \<longrightarrow> \<not> b_locked (bufs s i) \<and> b_refcnt (bufs s i) = 0)"

definition uniq_bufs :: "'a bst_scheme \<Rightarrow> bool" where
  "uniq_bufs s \<longleftrightarrow> (\<forall>i<30. \<forall>j<30. b_dev (bufs s i) = 1 \<longrightarrow> b_dev (bufs s j) = 1 \<longrightarrow>
     b_blockno (bufs s i) = b_blockno (bufs s j) \<longrightarrow> i = j)"

definition bc_at :: "int \<Rightarrow> nat set \<Rightarrow> nat set \<Rightarrow> 'a bst_scheme \<Rightarrow> bool" where
  "bc_at me X H s \<longleftrightarrow> distinct (lru s) \<and> set (lru s) = {..<30} \<and> X \<subseteq> H \<and> H \<subseteq> {..<30} \<and>
     uniq_bufs s \<and> (\<forall>i<30. buf_at me X H s i)"

lemma bc_atD:
  assumes "bc_at me X H s"
  shows "distinct (lru s)" and "set (lru s) = {..<30}" and "X \<subseteq> H" and "H \<subseteq> {..<30}"
    and "i < 30 \<Longrightarrow> buf_at me X H s i" and "uniq_bufs s"
    and "i \<in> H \<Longrightarrow> i < 30" and "i \<in> X \<Longrightarrow> i \<in> H"
  using assms by (auto simp: bc_at_def)

lemma buf_atD:
  assumes "buf_at me X H s i"
  shows "b_valid (bufs s i) \<longleftrightarrow> b_dev (bufs s i) = 1" and "b_valid (bufs s i) \<Longrightarrow> b_blockno (bufs s i) < disksize s"
    and "b_dirty (bufs s i) \<Longrightarrow> b_valid (bufs s i)"
    and "i \<notin> X \<Longrightarrow> b_valid (bufs s i) \<Longrightarrow> \<not> b_dirty (bufs s i) \<Longrightarrow>
      b_data (bufs s i) = disk s (b_blockno (bufs s i))"
    and "i \<in> H \<Longrightarrow> b_locked (bufs s i) \<and> b_pid (bufs s i) = me \<and> b_refcnt (bufs s i) = 1 \<and> b_valid (bufs s i)"
    and "i \<notin> H \<Longrightarrow> \<not> b_locked (bufs s i) \<and> b_refcnt (bufs s i) = 0"
  using assms by (auto simp: buf_at_def)

lemma uniq_bufsD:
  assumes "bc_at me X H s" and "i < 30" and "j < 30" and "b_valid (bufs s i)" and "b_valid (bufs s j)"
    and "b_blockno (bufs s i) = b_blockno (bufs s j)"
  shows "i = j"
  using assms(2-) bc_atD(6) [OF assms(1)] buf_atD(1) [OF bc_atD(5) [OF assms(1)]]
  unfolding uniq_bufs_def by blast

lemma cview_buffer:
  assumes "bc_at me X H s" and "i < 30" and "b_valid (bufs s i)" and "b_blockno (bufs s i) = b"
  shows "cview s b = b_data (bufs s i)"
proof -
  let ?P = "\<lambda>j. b_valid (bufs s j) \<and> b_blockno (bufs s j) = b"
  have "\<not> ?P j" if "j < i" for j
    using uniq_bufsD [OF assms(1), of j i] that assms(2-4) by auto
  then have "List.find ?P [0..<30] = Some i"
    by (intro find_first_eq) (use assms in auto)
  then show ?thesis by (simp add: cview_def)
qed

lemma cview_disk:
  assumes "\<And>i. i < 30 \<Longrightarrow> b_valid (bufs s i) \<Longrightarrow> b_blockno (bufs s i) \<noteq> b"
  shows "cview s b = disk s b"
proof -
  have "List.find (\<lambda>i. b_valid (bufs s i) \<and> b_blockno (bufs s i) = b) [0..<30] = None"
    using assms by (auto simp: find_None_all)
  then show ?thesis by (simp add: cview_def)
qed

lemma cview_clean:
  assumes "bc_at me {} H s" and "b \<notin> dirty_set s"
  shows "cview s b = disk s b"
proof (cases "\<exists>i<30. b_valid (bufs s i) \<and> b_blockno (bufs s i) = b")
  case True
  then obtain i where i: "i < 30" "b_valid (bufs s i)" "b_blockno (bufs s i) = b" by blast
  then have "\<not> b_dirty (bufs s i)" using assms(2) by (auto simp: dirty_set_def)
  then show ?thesis
    using cview_buffer [OF assms(1) i] buf_atD(4) [OF bc_atD(5) [OF assms(1) i(1)]] i by simp
next
  case False
  then show ?thesis by (intro cview_disk) auto
qed

lemma cview_cong:
  assumes "\<And>i. i < 30 \<Longrightarrow> b_valid (bufs s' i) = b_valid (bufs s i)"
    and "\<And>i. i < 30 \<Longrightarrow> b_blockno (bufs s' i) = b_blockno (bufs s i)"
    and "\<And>i. i < 30 \<Longrightarrow> b_data (bufs s' i) = b_data (bufs s i)" and "disk s' = disk s"
  shows "cview s' = cview s"
proof
  fix b
  have "List.find (\<lambda>i. b_valid (bufs s' i) \<and> b_blockno (bufs s' i) = b) [0..<30] =
      List.find (\<lambda>i. b_valid (bufs s i) \<and> b_blockno (bufs s i) = b) [0..<30]"
    by (rule find_cong) (use assms in auto)
  then show "cview s' b = cview s b"
    using assms(3,4) find_Some_first(1) [of "\<lambda>i. b_valid (bufs s i) \<and> b_blockno (bufs s i) = b" 30]
    by (auto simp: cview_def split: option.splits)
qed

end
