(* ===== verification/BcacheOps.thy ===== *)
theory BcacheOps
  imports Bcache
begin

text \<open>
  What each operation of the buffer cache does to the view of the disk, for a process that works on
  the cache alone: \<open>bread\<close> gives the contents of the block and changes no view, \<open>bwrite\<close> makes the
  disk equal to the buffer, \<open>brelse\<close> only gives the buffer back.
\<close>

lemma upd_b_simps [simp]:
  "bufs (upd_b i f s) j = (if j = i then f (bufs s i) else bufs s j)"
  "lru (upd_b i f s) = lru s" "disk (upd_b i f s) = disk s" "disksize (upd_b i f s) = disksize s"
  "written (upd_b i f s) = written s"
  by (simp_all add: upd_b_def)

lemma upd_b_upd_b [simp]: "upd_b i f (upd_b i g s) = upd_b i (\<lambda>r. f (g r)) s"
  by (simp add: upd_b_def)

lemma upd_b_bufs: "upd_b i f s = s\<lparr>bufs := (bufs s)(i := f (bufs s i))\<rparr>"
  by (simp add: upd_b_def)

section \<open>Reading\<close>

lemma find_cached:
  assumes "bc_at me X H s" and "i < 30" and "b_dev (bufs s i) = 1" and "b_blockno (bufs s i) = b"
  shows "List.find (\<lambda>j. b_dev (bufs s j) = 1 \<and> b_blockno (bufs s j) = b) (lru s) = Some i"
proof -
  let ?P = "\<lambda>j. b_dev (bufs s j) = 1 \<and> b_blockno (bufs s j) = b"
  have "i \<in> set (lru s)" using bc_atD(2) [OF assms(1)] assms(2) by auto
  then have "List.find ?P (lru s) \<noteq> None" using assms(3,4) by (auto simp: find_None_iff)
  then obtain j where j: "List.find ?P (lru s) = Some j" by auto
  then have "j \<in> set (lru s)" "?P j" using find_SomeD [OF j] by simp_all
  then have "j = i"
    using bc_atD(2,6) [OF assms(1)] assms(2-4) unfolding uniq_bufs_def by auto
  then show ?thesis using j by simp
qed

lemma bread_hit:
  assumes "bc_at me X H s" and "i < 30" and "i \<notin> H" and "b_valid (bufs s i)" and "b_blockno (bufs s i) = b"
  shows "bread me 1 b s = Inr (i, upd_b i (\<lambda>r. r\<lparr>b_refcnt := b_refcnt r + 1, b_locked := True, b_pid := me\<rparr>) s)"
proof -
  note ba = bc_atD(5) [OF assms(1,2)]
  show ?thesis
    using find_cached [OF assms(1,2) buf_atD(1) [OF ba, THEN iffD1, OF assms(4)] assms(5)] buf_atD(6) [OF ba assms(3)] assms(4)
    by (simp add: bread_def bget_def acquire_buf_def)
qed

lemma uniq_bufs_cong:
  assumes "uniq_bufs s" and "\<And>i. b_dev (bufs s' i) = b_dev (bufs s i)"
    and "\<And>i. b_blockno (bufs s' i) = b_blockno (bufs s i)"
  shows "uniq_bufs s'"
  using assms unfolding uniq_bufs_def by simp

text \<open>The buffer that a missing block gets, and the state after it.\<close>

definition bread_result :: "int \<Rightarrow> nat set \<Rightarrow> nat set \<Rightarrow> nat \<Rightarrow> 'a bst_scheme \<Rightarrow> nat \<Rightarrow> 'a bst_scheme \<Rightarrow> bool" where
  "bread_result me X H b s i s' \<longleftrightarrow> i < 30 \<and> i \<notin> H \<and> bc_at me X (insert i H) s' \<and>
     b_dev (bufs s' i) = 1 \<and> b_blockno (bufs s' i) = b \<and> b_data (bufs s' i) = cview s b \<and> cview s' = cview s \<and>
     (\<forall>j. j \<noteq> i \<longrightarrow> bufs s' j = bufs s j) \<and> b_dirty (bufs s' i) = (b \<in> dirty_set s) \<and>
     dirty_set s' = dirty_set s \<and> s' = s\<lparr>bufs := bufs s'\<rparr>"

lemma bread_resultD:
  assumes "bread_result me X H b s i s'"
  shows "i < 30" and "i \<notin> H" and "bc_at me X (insert i H) s'" and "b_blockno (bufs s' i) = b"
    and "b_data (bufs s' i) = cview s b" and "cview s' = cview s" and "j \<noteq> i \<Longrightarrow> bufs s' j = bufs s j"
    and "dirty_set s' = dirty_set s" and "s' = s\<lparr>bufs := bufs s'\<rparr>" and "b_dev (bufs s' i) = 1"
    and "b_dirty (bufs s' i) = (b \<in> dirty_set s)"
  using assms unfolding bread_result_def by blast+

lemma bread_resultI:
  assumes "s' = upd_b i f s" and "i < 30" and "i \<notin> H" and "bc_at me X (insert i H) s'"
    and "b_dev (bufs s' i) = 1" and "b_blockno (bufs s' i) = b" and "b_data (bufs s' i) = cview s b"
    and "cview s' = cview s" and "b_dirty (bufs s' i) = (b \<in> dirty_set s)" and "dirty_set s' = dirty_set s"
  shows "bread_result me X H b s i s'"
proof -
  have "s' = s\<lparr>bufs := bufs s'\<rparr>" unfolding assms(1) by (simp add: upd_b_def)
  moreover have "\<forall>j. j \<noteq> i \<longrightarrow> bufs s' j = bufs s j" unfolding assms(1) by simp
  ultimately show ?thesis unfolding bread_result_def using assms(2-) by blast
qed

lemma dirty_set_buffer:
  assumes s: "bc_at me X H s" and i: "i < 30" "b_valid (bufs s i)" "b_blockno (bufs s i) = b"
  shows "b_dirty (bufs s i) \<longleftrightarrow> b \<in> dirty_set s"
proof
  assume "b \<in> dirty_set s"
  then obtain j where j: "j < 30" "b_dirty (bufs s j)" "b_blockno (bufs s j) = b" by (auto simp: dirty_set_def)
  then have "b_valid (bufs s j)" using buf_atD(3) [OF bc_atD(5) [OF s j(1)]] by blast
  then have "j = i" using uniq_bufsD [OF s j(1) i(1)] i j by simp
  then show "b_dirty (bufs s i)" using j by simp
qed (use i in \<open>auto simp: dirty_set_def\<close>)

lemma bread_hit_result:
  assumes s: "bc_at me X H s" and i: "i < 30" "i \<notin> H" "b_valid (bufs s i)" "b_blockno (bufs s i) = b"
  shows "\<exists>s'. bread me 1 b s = Inr (i, s') \<and> bread_result me X H b s i s'"
proof -
  let ?s = "upd_b i (\<lambda>r. r\<lparr>b_refcnt := b_refcnt r + 1, b_locked := True, b_pid := me\<rparr>) s"
  have "buf_at me X (insert i H) ?s j" if "j < 30" for j
    using bc_atD(5) [OF s that] i(2,3) by (auto simp: buf_at_def)
  moreover have "uniq_bufs ?s" by (rule uniq_bufs_cong [OF bc_atD(6) [OF s]]) simp_all
  ultimately have at: "bc_at me X (insert i H) ?s"
    using bc_atD(1-4) [OF s] i(1) by (auto simp: bc_at_def)
  have vw: "cview ?s = cview s" by (rule cview_cong) simp_all
  have dt: "b_dirty (bufs s i) = (b \<in> dirty_set s)"
    by (rule dirty_set_buffer [OF s i(1,3,4)])
  have ds: "dirty_set ?s = dirty_set s" by (auto simp: dirty_set_def)
  have dv: "b_dev (bufs s i) = 1" using buf_atD(1) [OF bc_atD(5) [OF s i(1)]] i(3) by blast
  have "bread_result me X H b s i ?s"
    by (rule bread_resultI [OF refl i(1,2) at _ _ _ vw _ ds])
      (simp_all add: dt dv i(4) cview_buffer [OF s i(1,3,4)])
  then show ?thesis using bread_hit [OF s i] by blast
qed

text \<open>A block that has no buffer gets the least recently used one that is free and clean.\<close>

lemma find_recycled:
  assumes "bc_at me X H s" and "k < 30" and "k \<notin> H" and "\<not> b_dirty (bufs s k)"
  obtains i where "List.find (\<lambda>i. b_refcnt (bufs s i) = 0 \<and> \<not> b_dirty (bufs s i)) (rev (lru s)) = Some i"
    and "i < 30" and "i \<notin> H" and "\<not> b_dirty (bufs s i)"
proof -
  let ?P = "\<lambda>i. b_refcnt (bufs s i) = 0 \<and> \<not> b_dirty (bufs s i)"
  have "k \<in> set (rev (lru s))" "?P k"
    using bc_atD(2) [OF assms(1)] buf_atD(6) [OF bc_atD(5) [OF assms(1,2)] assms(3)] assms(2,4) by auto
  then have "List.find ?P (rev (lru s)) \<noteq> None" by (auto simp: find_None_iff)
  then obtain i where i: "List.find ?P (rev (lru s)) = Some i" by auto
  then have "i \<in> set (rev (lru s))" "?P i" using find_SomeD [OF i] by simp_all
  moreover from this have "i < 30" using bc_atD(2) [OF assms(1)] by auto
  moreover from calculation have "i \<notin> H" using buf_atD(5) [OF bc_atD(5) [OF assms(1)]] by fastforce
  ultimately show ?thesis using that i by blast
qed

lemma bread_miss_result:
  assumes s: "bc_at me X H s" and b: "b < disksize s"
    and none: "\<And>j. j < 30 \<Longrightarrow> b_valid (bufs s j) \<Longrightarrow> b_blockno (bufs s j) \<noteq> b"
    and k: "k < 30" "k \<notin> H" "\<not> b_dirty (bufs s k)"
  shows "\<exists>i s'. bread me 1 b s = Inr (i, s') \<and> bread_result me X H b s i s'"
proof -
  obtain i where f: "List.find (\<lambda>i. b_refcnt (bufs s i) = 0 \<and> \<not> b_dirty (bufs s i)) (rev (lru s)) = Some i"
    and i: "i < 30" "i \<notin> H" "\<not> b_dirty (bufs s i)"
    by (rule find_recycled [OF s k])
  note bi = bc_atD(5) [OF s i(1)]
  let ?s = "upd_b i (\<lambda>r. r\<lparr>b_dev := 1, b_blockno := b, b_dirty := False, b_refcnt := 1,
      b_locked := True, b_pid := me, b_data := disk s b, b_valid := True\<rparr>) s"
  have "List.find (\<lambda>j. b_dev (bufs s j) = 1 \<and> b_blockno (bufs s j) = b) (lru s) = None"
    using none buf_atD(1) [OF bc_atD(5) [OF s]] bc_atD(2) [OF s] by (auto simp: find_None_iff)
  then have r: "bread me 1 b s = Inr (i, ?s)"
    using f buf_atD(6) [OF bi i(2)] b
    by (simp add: bread_def bget_def acquire_buf_def iderw_def holding_buf_def Let_def upd_b_def)
  have "buf_at me X (insert i H) ?s j" if "j < 30" for j
    using bc_atD(5) [OF s that] b bc_atD(3) [OF s] i(2) by (auto simp: buf_at_def)
  moreover have "uniq_bufs ?s"
    using bc_atD(6) [OF s] none buf_atD(1) [OF bc_atD(5) [OF s]] by (auto simp: uniq_bufs_def)
  ultimately have at: "bc_at me X (insert i H) ?s"
    using bc_atD(1-4) [OF s] i(1) by (auto simp: bc_at_def)
  have nb: "cview s b = disk s b" by (rule cview_disk [OF none])
  have "cview ?s c = cview s c" for c
  proof (cases "c = b")
    case True
    then show ?thesis using nb cview_buffer [OF at i(1), of b] by simp
  next
    case c: False
    show ?thesis
    proof (cases "\<exists>j<30. j \<noteq> i \<and> b_valid (bufs s j) \<and> b_blockno (bufs s j) = c")
      case True
      then obtain j where "j < 30" "j \<noteq> i" "b_valid (bufs s j)" "b_blockno (bufs s j) = c" by blast
      then show ?thesis using cview_buffer [OF s, of j c] cview_buffer [OF at, of j c] by simp
    next
      case False
      then have "cview ?s c = disk s c" using c by (subst cview_disk) (auto split: if_splits)
      moreover have "cview s c = disk s c"
      proof (cases "b_valid (bufs s i) \<and> b_blockno (bufs s i) = c")
        case True
        then show ?thesis
          using cview_buffer [OF s i(1), of c] buf_atD(4) [OF bi] bc_atD(3) [OF s] i(2,3) by auto
      next
        case False
        show ?thesis
          by (rule cview_disk) (use False \<open>\<not> (\<exists>j<30. j \<noteq> i \<and> b_valid (bufs s j) \<and> b_blockno (bufs s j) = c)\<close> in blast)
      qed
      ultimately show ?thesis by simp
    qed
  qed
  then have vw: "cview ?s = cview s" by blast
  have ds: "dirty_set ?s = dirty_set s" using i(1,3) by (auto simp: dirty_set_def)
  have nd: "b \<notin> dirty_set s" using none buf_atD(3) [OF bc_atD(5) [OF s]] by (auto simp: dirty_set_def)
  have "bread_result me X H b s i ?s"
    by (rule bread_resultI [OF refl i(1,2) at _ _ _ vw _ ds]) (simp_all add: nb nd)
  then show ?thesis using r by blast
qed

text \<open>\<open>bread\<close> gives the contents of the block, if it is cached or a buffer is free.\<close>

lemma bread_ok:
  assumes s: "bc_at me X H s" and b: "b < disksize s"
    and held: "\<And>i. i \<in> H \<Longrightarrow> b_blockno (bufs s i) \<noteq> b"
    and room: "b \<in> dirty_set s \<or> (\<exists>k<30. k \<notin> H \<and> \<not> b_dirty (bufs s k))"
  shows "\<exists>i s'. bread me 1 b s = Inr (i, s') \<and> bread_result me X H b s i s'"
proof (cases "\<exists>j<30. b_valid (bufs s j) \<and> b_blockno (bufs s j) = b")
  case True
  then obtain j where j: "j < 30" "b_valid (bufs s j)" "b_blockno (bufs s j) = b" by blast
  then have "j \<notin> H" using held by blast
  then show ?thesis using bread_hit_result [OF s j(1) _ j(2,3)] by blast
next
  case False
  then have none: "\<And>j. j < 30 \<Longrightarrow> b_valid (bufs s j) \<Longrightarrow> b_blockno (bufs s j) \<noteq> b" by blast
  then have "b \<notin> dirty_set s" using buf_atD(3) [OF bc_atD(5) [OF s]] by (auto simp: dirty_set_def)
  then obtain k where "k < 30" "k \<notin> H" "\<not> b_dirty (bufs s k)" using room by blast
  then show ?thesis using bread_miss_result [OF s b none] by blast
qed

section \<open>Writing and releasing\<close>

lemma bc_atI:
  assumes "bc_at me X H s" and "set (lru s') = set (lru s)" and "distinct (lru s')" and "X' \<subseteq> H'" and "H' \<subseteq> H"
    and "\<And>i. b_dev (bufs s' i) = b_dev (bufs s i)" and "\<And>i. b_blockno (bufs s' i) = b_blockno (bufs s i)"
    and "\<And>i. i < 30 \<Longrightarrow> buf_at me X' H' s' i"
  shows "bc_at me X' H' s'"
  using assms(2-5,8) bc_atD(2,4) [OF assms(1)] uniq_bufs_cong [OF bc_atD(6) [OF assms(1)] assms(6,7)]
  unfolding bc_at_def by blast

lemma dirty_set_upd:
  assumes s: "bc_at me X H s" and "i < 30" and "b_valid (bufs s i)" and "b_blockno (f (bufs s i)) = b_blockno (bufs s i)"
  shows "dirty_set (upd_b i f s) = (if b_dirty (f (bufs s i)) then insert (b_blockno (bufs s i)) (dirty_set s)
    else dirty_set s - {b_blockno (bufs s i)})"
proof -
  have "b_dirty (bufs s j) \<Longrightarrow> j < 30 \<Longrightarrow> b_blockno (bufs s j) = b_blockno (bufs s i) \<Longrightarrow> j = i" for j
    using uniq_bufsD [OF s _ assms(2) _ assms(3)] buf_atD(3) [OF bc_atD(5) [OF s]] by blast
  then have A: "dirty_set s - {b_blockno (bufs s i)} = {b. \<exists>j<30. j \<noteq> i \<and> b_dirty (bufs s j) \<and> b_blockno (bufs s j) = b}"
    by (auto simp: dirty_set_def)
  have "dirty_set (upd_b i f s) = {b. \<exists>j<30. j \<noteq> i \<and> b_dirty (bufs s j) \<and> b_blockno (bufs s j) = b} \<union>
      (if b_dirty (f (bufs s i)) then {b_blockno (bufs s i)} else {})"
    using assms(2,4) by (auto simp: dirty_set_def split: if_splits)
  then show ?thesis unfolding A [symmetric] by auto
qed

lemma dirty_set_cong: "bufs s' = bufs s \<Longrightarrow> dirty_set s' = dirty_set s"
  by (simp add: dirty_set_def)

text \<open>The holder of a buffer changes its contents.\<close>

lemma cview_upd:
  assumes s: "bc_at me X H s" and s': "bc_at me X' H' s'" and i: "i < 30" "b_valid (bufs s i)"
    and "bufs s' = (bufs s)(i := r)" and "b_valid r" and "b_blockno r = b_blockno (bufs s i)"
    and "\<And>c. c \<noteq> b_blockno r \<Longrightarrow> disk s' c = disk s c"
  shows "cview s' = (cview s)(b_blockno r := b_data r)"
proof
  fix c
  show "cview s' c = ((cview s)(b_blockno r := b_data r)) c"
  proof (cases "c = b_blockno r")
    case True
    then show ?thesis using cview_buffer [OF s' i(1), of c] assms(5,6) by simp
  next
    case c: False
    show ?thesis
    proof (cases "\<exists>j<30. b_valid (bufs s j) \<and> b_blockno (bufs s j) = c")
      case True
      then obtain j where j: "j < 30" "b_valid (bufs s j)" "b_blockno (bufs s j) = c" by blast
      then have "j \<noteq> i" using c assms(7) by auto
      then show ?thesis using c cview_buffer [OF s j] cview_buffer [OF s' j(1), of c] j assms(5) by simp
    next
      case False
      then have "cview s c = disk s c" by (intro cview_disk) auto
      moreover have "cview s' c = disk s' c" using False c assms(5,7) by (intro cview_disk) (auto split: if_splits)
      ultimately show ?thesis using c assms(8) by simp
    qed
  qed
qed

lemma modify_ok:
  fixes d :: block
  assumes s: "bc_at me X H s" and i: "i \<in> H"
  defines "s' \<equiv> upd_b i (\<lambda>r. r\<lparr>b_data := d\<rparr>) s"
  shows "bc_at me (insert i X) H s'" and "cview s' = (cview s)(b_blockno (bufs s i) := d)"
    and "dirty_set s' = dirty_set s"
proof -
  have i30: "i < 30" and v: "b_valid (bufs s i)"
    using bc_atD(7) [OF s i] buf_atD(5) [OF bc_atD(5) [OF s]] i by auto
  show at: "bc_at me (insert i X) H s'"
  proof (rule bc_atI [OF s])
    show "buf_at me (insert i X) H s' j" if "j < 30" for j
      using bc_atD(5) [OF s that] by (auto simp: buf_at_def s'_def)
  qed (use bc_atD(1,3) [OF s] i in \<open>auto simp: s'_def\<close>)
  show "cview s' = (cview s)(b_blockno (bufs s i) := d)"
    using cview_upd [OF s at i30 v, of "(bufs s i)\<lparr>b_data := d\<rparr>"] v by (simp add: s'_def upd_b_def)
  show "dirty_set s' = dirty_set s" by (auto simp: dirty_set_def s'_def)
qed

lemma heldD:
  assumes "bc_at me X H s" and "i \<in> H"
  shows "i < 30" and "b_valid (bufs s i)" and "holding_buf me i s" and "b_refcnt (bufs s i) = 1"
    and "b_dev (bufs s i) = 1" and "b_blockno (bufs s i) < disksize s"
  using bc_atD(7) [OF assms] buf_atD(5) [OF bc_atD(5) [OF assms(1)] assms(2)] buf_atD(1,2) [OF bc_atD(5) [OF assms(1)]]
    assms(2) by (auto simp: holding_buf_def)

text \<open>\<open>bwrite\<close> writes the buffer to the disk, which is then recorded.\<close>

lemma bwrite_ok:
  assumes s: "bc_at me X H s" and i: "i \<in> H" and b: "b_blockno (bufs s i) = b" and d: "b_data (bufs s i) = d"
  shows "\<exists>s'. bwrite me i s = Inr s' \<and> bc_at me (X - {i}) H s' \<and> cview s' = (cview s)(b := d) \<and>
    dirty_set s' = dirty_set s - {b} \<and> bufs s' = (bufs s)(i := (bufs s i)\<lparr>b_dirty := False, b_valid := True\<rparr>) \<and>
    s' = s\<lparr>bufs := bufs s', disk := (disk s)(b := d), written := written s @ [(b, d)]\<rparr>"
proof -
  note h = heldD [OF s i]
  define s' where "s' = upd_b i (\<lambda>r. r\<lparr>b_dirty := False, b_valid := True\<rparr>)
    (s\<lparr>disk := (disk s)(b := d), written := written s @ [(b, d)]\<rparr>)"
  have r: "bwrite me i s = Inr s'"
    using h b d by (simp add: bwrite_def iderw_def holding_buf_def Let_def s'_def upd_b_def)
  have at: "bc_at me (X - {i}) H s'"
  proof (rule bc_atI [OF s])
    fix j :: nat assume j: "j < 30"
    show "buf_at me (X - {i}) H s' j"
    proof (cases "j = i")
      case True
      then show ?thesis using bc_atD(5) [OF s j] b d h(2) by (auto simp: buf_at_def s'_def)
    next
      case False
      then have "b_valid (bufs s j) \<Longrightarrow> b_blockno (bufs s j) \<noteq> b" using uniq_bufsD [OF s j h(1)] h(2) b by auto
      then show ?thesis using False bc_atD(5) [OF s j] by (auto simp: buf_at_def s'_def)
    qed
  qed (use bc_atD(1,3) [OF s] in \<open>auto simp: s'_def\<close>)
  have v: "cview s' = (cview s)(b := d)"
    using cview_upd [OF s at h(1,2), of "(bufs s i)\<lparr>b_dirty := False, b_valid := True\<rparr>"] h(2) b d by (simp add: s'_def upd_b_def)
  have "dirty_set s' = dirty_set (upd_b i (\<lambda>r. r\<lparr>b_dirty := False, b_valid := True\<rparr>) s)"
    by (rule dirty_set_cong) (simp add: s'_def upd_b_def)
  then have dt: "dirty_set s' = dirty_set s - {b}"
    using dirty_set_upd [OF s h(1,2), of "\<lambda>r. r\<lparr>b_dirty := False, b_valid := True\<rparr>"] b by simp
  have "bufs s' = (bufs s)(i := (bufs s i)\<lparr>b_dirty := False, b_valid := True\<rparr>)" by (simp add: s'_def upd_b_def)
  moreover have "s' = s\<lparr>bufs := bufs s', disk := (disk s)(b := d), written := written s @ [(b, d)]\<rparr>"
    by (simp add: s'_def upd_b_def)
  ultimately show ?thesis using r at v dt by blast
qed

text \<open>\<open>brelse\<close> gives the buffer back and puts it in front.\<close>

lemma brelse_ok:
  assumes s: "bc_at me X H s" and i: "i \<in> H" "i \<notin> X"
  shows "\<exists>s'. brelse me i s = Inr s' \<and> bc_at me X (H - {i}) s' \<and> cview s' = cview s \<and>
    dirty_set s' = dirty_set s \<and> (\<forall>j. j \<noteq> i \<longrightarrow> bufs s' j = bufs s j) \<and> lru s' = i # remove1 i (lru s) \<and>
    s' = s\<lparr>bufs := bufs s', lru := lru s'\<rparr>"
proof -
  note h = heldD [OF s i(1)]
  define s' where "s' = (upd_b i (\<lambda>r. r\<lparr>b_locked := False, b_pid := 0, b_refcnt := b_refcnt r - 1\<rparr>) s)
    \<lparr>lru := i # remove1 i (lru s)\<rparr>"
  have r: "brelse me i s = Inr s'" using h by (simp add: brelse_def holding_buf_def Let_def s'_def)
  have l: "i \<in> set (lru s)" using h(1) bc_atD(2) [OF s] by simp
  have at: "bc_at me X (H - {i}) s'"
  proof (rule bc_atI [OF s])
    show "buf_at me X (H - {i}) s' j" if "j < 30" for j
      using bc_atD(5) [OF s that] h(4) by (auto simp: buf_at_def s'_def)
  qed (use bc_atD(1,3) [OF s] l i in \<open>auto simp: s'_def\<close>)
  have "cview s' = cview s" by (rule cview_cong) (simp_all add: s'_def)
  moreover have "dirty_set s' = dirty_set s" by (auto simp: dirty_set_def s'_def)
  moreover have "s' = s\<lparr>bufs := bufs s', lru := lru s'\<rparr>" by (simp add: s'_def upd_b_def)
  moreover have "\<forall>j. j \<noteq> i \<longrightarrow> bufs s' j = bufs s j" "lru s' = i # remove1 i (lru s)" by (simp_all add: s'_def)
  ultimately show ?thesis using r at by blast
qed

text \<open>Marking a held buffer dirty keeps it in the cache.\<close>

lemma mark_ok:
  assumes s: "bc_at me X H s" and i: "i \<in> H"
  defines "s' \<equiv> upd_b i (\<lambda>r. r\<lparr>b_dirty := True\<rparr>) s"
  shows "bc_at me (X - {i}) H s'" and "cview s' = cview s"
    and "dirty_set s' = insert (b_blockno (bufs s i)) (dirty_set s)"
proof -
  note h = heldD [OF s i]
  show "bc_at me (X - {i}) H s'"
  proof (rule bc_atI [OF s])
    show "buf_at me (X - {i}) H s' j" if "j < 30" for j
      using bc_atD(5) [OF s that] h(2) by (auto simp: buf_at_def s'_def)
  qed (use bc_atD(1,3) [OF s] in \<open>auto simp: s'_def\<close>)
  show "cview s' = cview s" by (rule cview_cong) (simp_all add: s'_def)
  show "dirty_set s' = insert (b_blockno (bufs s i)) (dirty_set s)"
    using dirty_set_upd [OF s h(1,2), of "\<lambda>r. r\<lparr>b_dirty := True\<rparr>"] by (simp add: s'_def)
qed

section \<open>Room in the cache\<close>

lemma finite_dirty_set [simp]: "finite (dirty_set s)"
proof -
  have "dirty_set s \<subseteq> (\<lambda>i. b_blockno (bufs s i)) ` {..<30}" by (auto simp: dirty_set_def)
  then show ?thesis by (rule finite_subset) simp
qed

lemma clean_buffer:
  assumes s: "bc_at me X H s" and "card (dirty_set s) + card H < 30"
  shows "\<exists>k<30. k \<notin> H \<and> \<not> b_dirty (bufs s k)"
proof (rule ccontr)
  assume "\<not> ?thesis"
  then have sub: "{..<30} - H \<subseteq> {i. i < 30 \<and> b_dirty (bufs s i)}" by auto
  have inj: "inj_on (\<lambda>i. b_blockno (bufs s i)) {i. i < 30 \<and> b_dirty (bufs s i)}"
    using uniq_bufsD [OF s] buf_atD(3) [OF bc_atD(5) [OF s]] by (auto simp: inj_on_def)
  have "(\<lambda>i. b_blockno (bufs s i)) ` {i. i < 30 \<and> b_dirty (bufs s i)} = dirty_set s" by (auto simp: dirty_set_def)
  then have "card {i. i < 30 \<and> b_dirty (bufs s i)} = card (dirty_set s)" using card_image [OF inj] by simp
  moreover have "card ({..<30} - H) = 30 - card H"
    using bc_atD(4) [OF s] by (simp add: card_Diff_subset finite_subset)
  ultimately show False using card_mono [OF _ sub] assms(2) by simp
qed

end
