(* ===== verification/Log.thy ===== *)
theory Log
  imports BcacheOps
begin

text \<open>
  The write-ahead log (\<open>log.c\<close>). The state of the log extends that of the buffer cache. The operations
  are those of the process \<open>me\<close>; \<open>begin_op\<close> waits (\<open>Blocked\<close>) while a commit runs or the log may be too
  full. The log proper starts one block after its header, which holds the number of the logged blocks
  and their home addresses.
\<close>

record logst = bst +
  l_start :: nat
  l_size :: nat
  outstanding :: int
  committing :: bool
  l_dev :: nat
  lh_n :: int
  lh_block :: "nat \<Rightarrow> nat"

fun run_list :: "(nat \<Rightarrow> 's \<Rightarrow> 's result) \<Rightarrow> nat list \<Rightarrow> 's \<Rightarrow> 's result" where
  "run_list f [] s = Inr s"
| "run_list f (x # xs) s = rbind (f x s) (run_list f xs)"

text \<open>One turn of the loop of \<open>install_trans\<close>, and the loop.\<close>

definition install_step :: "int \<Rightarrow> nat \<Rightarrow> logst \<Rightarrow> logst result" where
  "install_step me tail s =
     rbind (bread me (l_dev s) (l_start s + tail + 1) s) (\<lambda>(lbuf, s1).
     rbind (bread me (l_dev s1) (lh_block s1 tail) s1) (\<lambda>(dbuf, s2).
     rbind (bwrite me dbuf (upd_b dbuf (\<lambda>r. r\<lparr>b_data := b_data (bufs s2 lbuf)\<rparr>) s2)) (\<lambda>s3.
     rbind (brelse me lbuf s3) (brelse me dbuf))))"

definition install_trans :: "int \<Rightarrow> logst \<Rightarrow> logst result" where
  "install_trans me s = run_list (install_step me) [0..<nat (lh_n s)] s"

text \<open>The header has room for 30 addresses: more would be written behind the array.\<close>

definition read_head :: "int \<Rightarrow> logst \<Rightarrow> logst result" where
  "read_head me s =
     rbind (bread me (l_dev s) (l_start s) s) (\<lambda>(buf, s1).
     let lh = b_data (bufs s1 buf); n = sint (get32 lh 0) in
     rbind (ensure (n \<le> 30) OutOfBounds) (\<lambda>_.
     brelse me buf (s1\<lparr>lh_n := n,
       lh_block := (\<lambda>i. if int i < n then unat (get32 lh (i + 1)) else lh_block s1 i)\<rparr>)))"

definition put_head :: "int \<Rightarrow> (nat \<Rightarrow> nat) \<Rightarrow> block \<Rightarrow> block" where
  "put_head n blk d = fold (\<lambda>i d. put32 d (i + 1) (of_nat (blk i))) [0..<nat n] (put32 d 0 (of_int n))"

definition write_head :: "int \<Rightarrow> logst \<Rightarrow> logst result" where
  "write_head me s =
     rbind (bread me (l_dev s) (l_start s) s) (\<lambda>(buf, s1).
     rbind (bwrite me buf (upd_b buf (\<lambda>r. r\<lparr>b_data := put_head (lh_n s1) (lh_block s1) (b_data r)\<rparr>) s1))
       (brelse me buf))"

definition recover_from_log :: "int \<Rightarrow> logst \<Rightarrow> logst result" where
  "recover_from_log me s =
     rbind (read_head me s) (\<lambda>s1.
     rbind (install_trans me s1) (\<lambda>s2.
     write_head me (s2\<lparr>lh_n := 0\<rparr>)))"

text \<open>\<open>logstart\<close> and \<open>nlog\<close> come from the super block, which \<open>readsb\<close> reads.\<close>

definition initlog :: "int \<Rightarrow> nat \<Rightarrow> nat \<Rightarrow> nat \<Rightarrow> logst \<Rightarrow> logst result" where
  "initlog me dev logstart nlog s =
     recover_from_log me (s\<lparr>l_start := logstart, l_size := nlog, l_dev := dev\<rparr>)"

definition begin_op :: "logst \<Rightarrow> logst result" where
  "begin_op s =
     (if committing s then Inl Blocked
      else if lh_n s + (outstanding s + 1) * 10 > 30 then Inl Blocked
      else Inr (s\<lparr>outstanding := outstanding s + 1\<rparr>))"

definition write_log_step :: "int \<Rightarrow> nat \<Rightarrow> logst \<Rightarrow> logst result" where
  "write_log_step me tail s =
     rbind (bread me (l_dev s) (l_start s + tail + 1) s) (\<lambda>(to, s1).
     rbind (bread me (l_dev s1) (lh_block s1 tail) s1) (\<lambda>(fr, s2).
     rbind (bwrite me to (upd_b to (\<lambda>r. r\<lparr>b_data := b_data (bufs s2 fr)\<rparr>) s2)) (\<lambda>s3.
     rbind (brelse me fr s3) (brelse me to))))"

definition write_log :: "int \<Rightarrow> logst \<Rightarrow> logst result" where
  "write_log me s = run_list (write_log_step me) [0..<nat (lh_n s)] s"

definition commit :: "int \<Rightarrow> logst \<Rightarrow> logst result" where
  "commit me s =
     (if lh_n s > 0 then
        rbind (write_log me s) (\<lambda>s1.
        rbind (write_head me s1) (\<lambda>s2.
        rbind (install_trans me s2) (\<lambda>s3.
        write_head me (s3\<lparr>lh_n := 0\<rparr>))))
      else Inr s)"

definition end_op :: "int \<Rightarrow> logst \<Rightarrow> logst result" where
  "end_op me s =
     (let s1 = s\<lparr>outstanding := outstanding s - 1\<rparr> in
      rbind (ensure (\<not> committing s1) (Panic ''log.committing'')) (\<lambda>_.
      if outstanding s1 = 0 then
        rbind (commit me (s1\<lparr>committing := True\<rparr>)) (\<lambda>s2. Inr (s2\<lparr>committing := False\<rparr>))
      else Inr s1))"

definition log_write :: "nat \<Rightarrow> logst \<Rightarrow> logst result" where
  "log_write b s =
     rbind (ensure (\<not> (lh_n s \<ge> 30 \<or> lh_n s \<ge> int (l_size s) - 1)) (Panic ''too big a transaction'')) (\<lambda>_.
     rbind (ensure (\<not> outstanding s < 1) (Panic ''log_write outside of trans'')) (\<lambda>_.
     let i = (case List.find (\<lambda>i. lh_block s i = b_blockno (bufs s b)) [0..<nat (lh_n s)] of
                None \<Rightarrow> nat (lh_n s) | Some i \<Rightarrow> i);
         s1 = s\<lparr>lh_block := (lh_block s)(i := b_blockno (bufs s b))\<rparr>;
         s2 = (if int i = lh_n s1 then s1\<lparr>lh_n := lh_n s1 + 1\<rparr> else s1)
     in Inr (upd_b b (\<lambda>r. r\<lparr>b_dirty := True\<rparr>) s2)))"

section \<open>Sequences of writes\<close>

definition apply_writes :: "(nat \<times> block) list \<Rightarrow> (nat \<Rightarrow> block) \<Rightarrow> nat \<Rightarrow> block" where
  "apply_writes ws m = fold (\<lambda>(b, d) m. m(b := d)) ws m"

lemma apply_writes_simps [simp]:
  "apply_writes [] m = m" "apply_writes ((b, d) # ws) m = apply_writes ws (m(b := d))"
  "apply_writes (us @ ws) m = apply_writes ws (apply_writes us m)"
  by (simp_all add: apply_writes_def)

lemma apply_writes_other: "b \<notin> fst ` set ws \<Longrightarrow> apply_writes ws m b = m b"
  by (induction ws arbitrary: m) auto

lemma apply_writes_nth:
  assumes "distinct (map fst ws)" and "k < length ws"
  shows "apply_writes ws m (fst (ws ! k)) = snd (ws ! k)"
  using assms
proof (induction ws arbitrary: k m)
  case (Cons w ws)
  then show ?case
    by (cases w; cases k) (auto simp: apply_writes_other)
qed simp

text \<open>A run of a process that holds no buffer before or after it, and its writes.\<close>

definition wrote :: "int \<Rightarrow> (nat \<times> block) list \<Rightarrow> 'a bst_scheme \<Rightarrow> 'a bst_scheme \<Rightarrow> bool" where
  "wrote me ws s s' \<longleftrightarrow> bc_at me {} {} s' \<and> cview s' = apply_writes ws (cview s) \<and>
     dirty_set s' = dirty_set s - fst ` set ws \<and>
     s' = s\<lparr>bufs := bufs s', lru := lru s', disk := apply_writes ws (disk s), written := written s @ ws\<rparr>"

lemma wroteD:
  assumes "wrote me ws s s'"
  shows "bc_at me {} {} s'" and "cview s' = apply_writes ws (cview s)" and "dirty_set s' = dirty_set s - fst ` set ws"
    and "s' = s\<lparr>bufs := bufs s', lru := lru s', disk := apply_writes ws (disk s), written := written s @ ws\<rparr>"
    and "disk s' = apply_writes ws (disk s)" and "written s' = written s @ ws" and "disksize s' = disksize s"
  using assms unfolding wrote_def
  by blast (use assms in \<open>auto simp: wrote_def dest: arg_cong [of s' _ disk] arg_cong [of s' _ written] arg_cong [of s' _ disksize]\<close>)

end
