(* ===== verification/LogSteps.thy ===== *)
theory LogSteps
  imports Log
begin

text \<open>
  The steps of the log: copying a block through the cache and writing the header, each as one
  recorded write to the disk, and their loops.
\<close>

lemma run_list_append: "run_list f (xs @ ys) s = rbind (run_list f xs s) (run_list f ys)"
proof (induction xs arbitrary: s)
  case (Cons x xs)
  then have "run_list f (xs @ ys) = (\<lambda>s. rbind (run_list f xs s) (run_list f ys))" by blast
  then show ?case by (simp add: rbind_assoc)
qed simp

lemma wrote_trans:
  assumes "wrote me us s s1" and "wrote me ws s1 s2"
  shows "wrote me (us @ ws) s s2"
proof -
  note a = wroteD [OF assms(1)] and b = wroteD [OF assms(2)]
  have "s2 = s\<lparr>bufs := bufs s2, lru := lru s2, disk := apply_writes (us @ ws) (disk s), written := written s @ us @ ws\<rparr>"
    by (subst b(4), subst a(4)) (simp add: a(5,6))
  then show ?thesis using a(3) b(1,2,3) a(2) unfolding wrote_def by (auto simp: Un_commute)
qed

lemma wrote_refl: "bc_at me {} {} s \<Longrightarrow> wrote me [] s s"
  by (simp add: wrote_def)

lemma wrote_log:
  assumes "wrote me ws s s'"
  shows "l_dev s' = l_dev s" and "l_start s' = l_start s" and "l_size s' = l_size s" and "lh_n s' = lh_n s"
    and "lh_block s' = lh_block s" and "outstanding s' = outstanding s" and "committing s' = committing s"
  using arg_cong [OF wroteD(4) [OF assms], of l_dev] arg_cong [OF wroteD(4) [OF assms], of l_start]
    arg_cong [OF wroteD(4) [OF assms], of l_size] arg_cong [OF wroteD(4) [OF assms], of lh_n]
    arg_cong [OF wroteD(4) [OF assms], of lh_block] arg_cong [OF wroteD(4) [OF assms], of outstanding]
    arg_cong [OF wroteD(4) [OF assms], of committing] by simp_all

section \<open>Holding two buffers\<close>

lemma two_breads:
  assumes s: "bc_at me {} {} s" and ab: "a < disksize s" "b < disksize s" "a \<noteq> b"
    and room: "card (dirty_set s) < 30" "b \<in> dirty_set s \<or> card (dirty_set s) < 29"
  obtains i s1 j s2 where "bread me 1 a s = Inr (i, s1)" and "bread me 1 b s1 = Inr (j, s2)" and "i \<noteq> j"
    and "s1 = s\<lparr>bufs := bufs s1\<rparr>" and "s2 = s\<lparr>bufs := bufs s2\<rparr>" and "bc_at me {} {i, j} s2"
    and "b_blockno (bufs s2 i) = a" and "b_data (bufs s2 i) = cview s a"
    and "b_blockno (bufs s2 j) = b" and "b_data (bufs s2 j) = cview s b"
    and "cview s2 = cview s" and "dirty_set s2 = dirty_set s"
proof -
  obtain i s1 where r1: "bread me 1 a s = Inr (i, s1)" and "bread_result me {} {} a s i s1"
    using bread_ok [OF s ab(1)] clean_buffer [OF s] room(1) by fastforce
  note p = bread_resultD [OF this(2)]
  have dsz: "disksize s1 = disksize s" using arg_cong [OF p(9), of disksize] by simp
  have at1: "bc_at me {} {i} s1" using p(3) by simp
  have "b \<in> dirty_set s1 \<or> (\<exists>k<30. k \<notin> {i} \<and> \<not> b_dirty (bufs s1 k))"
    using clean_buffer [OF at1] room(2) p(8) by fastforce
  then obtain j s2 where r2: "bread me 1 b s1 = Inr (j, s2)" and "bread_result me {} {i} b s1 j s2"
    using bread_ok [OF at1, of b] dsz ab p(4) by auto
  note q = bread_resultD [OF this(2)]
  have "s2 = s\<lparr>bufs := bufs s2\<rparr>" by (subst q(9), subst p(9)) simp
  moreover have "bufs s2 i = bufs s1 i" "i \<noteq> j" using q(2,7) by auto
  moreover have "bc_at me {} {i, j} s2" using q(3) by (simp add: insert_commute)
  ultimately show ?thesis
    using that [OF r1 r2 _ p(9)] p(4,5,6,8) q(4,5,6,8) by simp
qed

text \<open>The end of a step: \<open>w\<close> gets the contents \<open>d\<close>, is written, and both buffers are released.\<close>

lemma write_and_release:
  assumes s: "bc_at me {} {w, x} s2" and "w \<noteq> x" and s2: "s2 = s\<lparr>bufs := bufs s2\<rparr>"
    and c: "cview s2 = cview s" "dirty_set s2 = dirty_set s" and b: "b_blockno (bufs s2 w) = b"
  shows "\<exists>s3 s4 s5. bwrite me w (upd_b w (\<lambda>r. r\<lparr>b_data := d\<rparr>) s2) = Inr s3 \<and>
    brelse me x s3 = Inr s4 \<and> brelse me w s4 = Inr s5 \<and> wrote me [(b, d)] s s5"
proof -
  let ?m = "upd_b w (\<lambda>r. r\<lparr>b_data := d\<rparr>) s2"
  note m = modify_ok [OF s, of w d]
  have at: "bc_at me {w} {w, x} ?m" using m(1) by simp
  obtain s3 where s3: "bwrite me w ?m = Inr s3" "bc_at me ({w} - {w}) {w, x} s3" "cview s3 = (cview ?m)(b := d)"
      "dirty_set s3 = dirty_set ?m - {b}" "s3 = ?m\<lparr>bufs := bufs s3, disk := (disk ?m)(b := d), written := written ?m @ [(b, d)]\<rparr>"
    using bwrite_ok [OF at, of w b d] b by auto
  have at3: "bc_at me {} {w, x} s3" using s3(2) by simp
  obtain s4 where s4: "brelse me x s3 = Inr s4" "bc_at me {} ({w, x} - {x}) s4" "cview s4 = cview s3"
      "dirty_set s4 = dirty_set s3" "s4 = s3\<lparr>bufs := bufs s4, lru := lru s4\<rparr>"
    using brelse_ok [OF at3, of x] by blast
  have at4: "bc_at me {} {w} s4" using s4(2) assms(2) by (simp add: insert_Diff_if)
  obtain s5 where s5: "brelse me w s4 = Inr s5" "bc_at me {} ({w} - {w}) s5" "cview s5 = cview s4"
      "dirty_set s5 = dirty_set s4" "s5 = s4\<lparr>bufs := bufs s5, lru := lru s5\<rparr>"
    using brelse_ok [OF at4, of w] by blast
  have "s5 = s\<lparr>bufs := bufs s5, lru := lru s5, disk := (disk s)(b := d), written := written s @ [(b, d)]\<rparr>"
  proof -
    have "disk ?m = disk s" "written ?m = written s"
      using arg_cong [OF s2, of disk] arg_cong [OF s2, of written] by simp_all
    then show ?thesis
      by (subst s5(5), subst s4(5), subst s3(5), subst s2) (simp add: upd_b_def)
  qed
  then have "wrote me [(b, d)] s s5"
    using s5(2,3,4) s4(3,4) s3(3,4) m(2,3) c b unfolding wrote_def by simp
  then show ?thesis using s3(1) s4(1) s5(1) by blast
qed

section \<open>The steps\<close>

lemma install_step_ok:
  assumes s: "bc_at me {} {} s" and dev: "l_dev s = 1"
    and ab: "l_start s + t + 1 < disksize s" "lh_block s t < disksize s" "lh_block s t \<noteq> l_start s + t + 1"
    and room: "card (dirty_set s) < 30" "lh_block s t \<in> dirty_set s \<or> card (dirty_set s) < 29"
  shows "\<exists>s'. install_step me t s = Inr s' \<and> wrote me [(lh_block s t, cview s (l_start s + t + 1))] s s'"
proof -
  obtain i s1 j s2 where r: "bread me 1 (l_start s + t + 1) s = Inr (i, s1)" "bread me 1 (lh_block s t) s1 = Inr (j, s2)"
    and ij: "i \<noteq> j" and e: "s1 = s\<lparr>bufs := bufs s1\<rparr>" "s2 = s\<lparr>bufs := bufs s2\<rparr>" and at: "bc_at me {} {i, j} s2"
    and b: "b_data (bufs s2 i) = cview s (l_start s + t + 1)" "b_blockno (bufs s2 j) = lh_block s t"
    and c: "cview s2 = cview s" "dirty_set s2 = dirty_set s"
    using two_breads [OF s ab(1,2) ab(3)[symmetric] room] by metis
  have l: "l_dev s1 = 1" "lh_block s1 = lh_block s"
    using arg_cong [OF e(1), of l_dev] arg_cong [OF e(1), of lh_block] dev by simp_all
  have at': "bc_at me {} {j, i} s2" using at by (simp add: insert_commute)
  obtain s3 s4 s5 where "bwrite me j (upd_b j (\<lambda>r. r\<lparr>b_data := cview s (l_start s + t + 1)\<rparr>) s2) = Inr s3"
      "brelse me i s3 = Inr s4" "brelse me j s4 = Inr s5" "wrote me [(lh_block s t, cview s (l_start s + t + 1))] s s5"
    using write_and_release [OF at' ij[symmetric] e(2) c b(2), of "cview s (l_start s + t + 1)"] by blast
  then show ?thesis using r l dev b(1) by (simp add: install_step_def)
qed

lemma write_log_step_ok:
  assumes s: "bc_at me {} {} s" and dev: "l_dev s = 1"
    and ab: "l_start s + t + 1 < disksize s" "lh_block s t < disksize s" "lh_block s t \<noteq> l_start s + t + 1"
    and room: "card (dirty_set s) < 30" "lh_block s t \<in> dirty_set s \<or> card (dirty_set s) < 29"
  shows "\<exists>s'. write_log_step me t s = Inr s' \<and> wrote me [(l_start s + t + 1, cview s (lh_block s t))] s s'"
proof -
  obtain i s1 j s2 where r: "bread me 1 (l_start s + t + 1) s = Inr (i, s1)" "bread me 1 (lh_block s t) s1 = Inr (j, s2)"
    and ij: "i \<noteq> j" and e: "s1 = s\<lparr>bufs := bufs s1\<rparr>" "s2 = s\<lparr>bufs := bufs s2\<rparr>" and at: "bc_at me {} {i, j} s2"
    and b: "b_blockno (bufs s2 i) = l_start s + t + 1" "b_data (bufs s2 j) = cview s (lh_block s t)"
    and c: "cview s2 = cview s" "dirty_set s2 = dirty_set s"
    using two_breads [OF s ab(1,2) ab(3)[symmetric] room] by metis
  have l: "l_dev s1 = 1" "lh_block s1 = lh_block s"
    using arg_cong [OF e(1), of l_dev] arg_cong [OF e(1), of lh_block] dev by simp_all
  obtain s3 s4 s5 where "bwrite me i (upd_b i (\<lambda>r. r\<lparr>b_data := cview s (lh_block s t)\<rparr>) s2) = Inr s3"
      "brelse me j s3 = Inr s4" "brelse me i s4 = Inr s5" "wrote me [(l_start s + t + 1, cview s (lh_block s t))] s s5"
    using write_and_release [OF at ij e(2) c b(1), of "cview s (lh_block s t)"] by blast
  then show ?thesis using r l dev b(2) by (simp add: write_log_step_def)
qed

lemma one_bread:
  assumes s: "bc_at me {} {} s" and "a < disksize s" and "card (dirty_set s) < 30"
  obtains i s1 where "bread me 1 a s = Inr (i, s1)" and "s1 = s\<lparr>bufs := bufs s1\<rparr>" and "bc_at me {} {i} s1"
    and "b_blockno (bufs s1 i) = a" and "b_data (bufs s1 i) = cview s a" and "cview s1 = cview s"
    and "dirty_set s1 = dirty_set s"
proof -
  obtain i s1 where r1: "bread me 1 a s = Inr (i, s1)" and "bread_result me {} {} a s i s1"
    using bread_ok [OF s assms(2)] clean_buffer [OF s] assms(3) by fastforce
  note p = bread_resultD [OF this(2)]
  have "bc_at me {} {i} s1" using p(3) by simp
  then show ?thesis using that [OF r1 p(9) _ p(4,5,6,8)] by blast
qed

lemma write_head_ok:
  assumes s: "bc_at me {} {} s" and dev: "l_dev s = 1" and a: "l_start s < disksize s" and room: "card (dirty_set s) < 30"
  shows "\<exists>s'. write_head me s = Inr s' \<and>
    wrote me [(l_start s, put_head (lh_n s) (lh_block s) (cview s (l_start s)))] s s'"
proof -
  obtain i s1 where r: "bread me 1 (l_start s) s = Inr (i, s1)" and e: "s1 = s\<lparr>bufs := bufs s1\<rparr>"
    and at: "bc_at me {} {i} s1" and b: "b_blockno (bufs s1 i) = l_start s" "b_data (bufs s1 i) = cview s (l_start s)"
    and c: "cview s1 = cview s" "dirty_set s1 = dirty_set s"
    using one_bread [OF s a room] by metis
  let ?d = "put_head (lh_n s) (lh_block s) (cview s (l_start s))"
  have l: "lh_n s1 = lh_n s" "lh_block s1 = lh_block s"
    using arg_cong [OF e, of lh_n] arg_cong [OF e, of lh_block] by simp_all
  let ?m = "upd_b i (\<lambda>r. r\<lparr>b_data := ?d\<rparr>) s1"
  have m: "upd_b i (\<lambda>r. r\<lparr>b_data := put_head (lh_n s1) (lh_block s1) (b_data r)\<rparr>) s1 = ?m"
    using l b(2) by (simp add: upd_b_def)
  note mo = modify_ok [OF at, of i ?d]
  have at2: "bc_at me {i} {i} ?m" using mo(1) by simp
  obtain s3 where s3: "bwrite me i ?m = Inr s3" "bc_at me ({i} - {i}) {i} s3" "cview s3 = (cview ?m)(l_start s := ?d)"
      "dirty_set s3 = dirty_set ?m - {l_start s}"
      "s3 = ?m\<lparr>bufs := bufs s3, disk := (disk ?m)(l_start s := ?d), written := written ?m @ [(l_start s, ?d)]\<rparr>"
    using bwrite_ok [OF at2, of i "l_start s" ?d] b(1) by auto
  have at3: "bc_at me {} {i} s3" using s3(2) by simp
  obtain s4 where s4: "brelse me i s3 = Inr s4" "bc_at me {} ({i} - {i}) s4" "cview s4 = cview s3"
      "dirty_set s4 = dirty_set s3" "s4 = s3\<lparr>bufs := bufs s4, lru := lru s4\<rparr>"
    using brelse_ok [OF at3, of i] by blast
  have "s4 = s\<lparr>bufs := bufs s4, lru := lru s4, disk := (disk s)(l_start s := ?d), written := written s @ [(l_start s, ?d)]\<rparr>"
  proof -
    have "disk ?m = disk s" "written ?m = written s"
      using arg_cong [OF e, of disk] arg_cong [OF e, of written] by simp_all
    then show ?thesis by (subst s4(5), subst s3(5), subst e) (simp add: upd_b_def)
  qed
  then have "wrote me [(l_start s, ?d)] s s4"
    using s4(2,3,4) s3(3,4) mo(2,3) c b(1) unfolding wrote_def by simp
  then show ?thesis using r dev m s3(1) s4(1) by (simp add: write_head_def)
qed

end
