(* ===== verification/LogCommit.thy ===== *)
theory LogCommit
  imports LogSteps
begin

text \<open>
  The writes of a commit and of a recovery, in order: the log blocks, the header, the home blocks,
  the empty header.
\<close>

section \<open>The header\<close>

lemma get32_words:
  "get32 (fold (\<lambda>i d. put32 d (i + 1) (w i)) [0..<m] d) j = (if 0 < j \<and> j \<le> m then w (j - 1) else get32 d j)"
  by (induction m) auto

lemma put_head_n: "get32 (put_head n blk d) 0 = of_int n"
  unfolding put_head_def get32_words by simp

lemma put_head_block: "t < nat n \<Longrightarrow> get32 (put_head n blk d) (t + 1) = of_nat (blk t)"
  unfolding put_head_def get32_words by simp

lemma sint_of_small: "0 \<le> n \<Longrightarrow> n < 2 ^ 31 \<Longrightarrow> sint (of_int n :: u32) = n"
  by (simp add: signed_of_int signed_take_bit_int_eq_self)

lemma unat_of_small: "n < 2 ^ 31 \<Longrightarrow> unat (of_nat n :: u32) = n"
  by (simp add: unsigned_of_nat take_bit_nat_eq_self)

section \<open>The log and its area\<close>

definition log_area :: "logst \<Rightarrow> nat set" where
  "log_area s = {l_start s ..< l_start s + l_size s}"

definition log_ok :: "int \<Rightarrow> logst \<Rightarrow> bool" where
  "log_ok me s \<longleftrightarrow> bc_at me {} {} s \<and> l_dev s = 1 \<and> l_start s + l_size s \<le> disksize s \<and> disksize s < 2 ^ 31 \<and>
     0 \<le> lh_n s \<and> nat (lh_n s) < l_size s \<and> lh_n s \<le> 29 \<and>
     distinct (map (lh_block s) [0..<nat (lh_n s)]) \<and> dirty_set s = lh_block s ` {..<nat (lh_n s)} \<and>
     (\<forall>t<nat (lh_n s). lh_block s t < disksize s \<and> lh_block s t \<notin> log_area s)"

lemma log_okD:
  assumes "log_ok me s"
  shows "bc_at me {} {} s" and "l_dev s = 1" and "l_start s + l_size s \<le> disksize s" and "disksize s < 2 ^ 31"
    and "0 \<le> lh_n s" and "nat (lh_n s) < l_size s" and "lh_n s \<le> 29"
    and "distinct (map (lh_block s) [0..<nat (lh_n s)])" and "dirty_set s = lh_block s ` {..<nat (lh_n s)}"
    and "t < nat (lh_n s) \<Longrightarrow> lh_block s t < disksize s" and "t < nat (lh_n s) \<Longrightarrow> lh_block s t \<notin> log_area s"
  using assms unfolding log_ok_def by blast+

lemma card_logged:
  assumes "log_ok me s"
  shows "card (dirty_set s) < 30"
proof -
  have "card (dirty_set s) \<le> nat (lh_n s)"
    unfolding log_okD(9) [OF assms] using card_image_le [of "{..<nat (lh_n s)}" "lh_block s"] by simp
  then show ?thesis using log_okD(7) [OF assms] by simp
qed

section \<open>The loops\<close>

definition log_writes :: "logst \<Rightarrow> (nat \<times> block) list" where
  "log_writes s = map (\<lambda>t. (l_start s + t + 1, cview s (lh_block s t))) [0..<nat (lh_n s)]"

definition home_writes :: "logst \<Rightarrow> (nat \<times> block) list" where
  "home_writes s = map (\<lambda>t. (lh_block s t, cview s (l_start s + t + 1))) [0..<nat (lh_n s)]"

lemma write_log_ok:
  assumes s: "log_ok me s"
  shows "\<exists>s'. write_log me s = Inr s' \<and> wrote me (log_writes s) s s'"
proof -
  let ?w = "\<lambda>k. map (\<lambda>t. (l_start s + t + 1, cview s (lh_block s t))) [0..<k]"
  have "k \<le> nat (lh_n s) \<Longrightarrow> \<exists>s'. run_list (write_log_step me) [0..<k] s = Inr s' \<and> wrote me (?w k) s s'" for k
  proof (induction k)
    case 0
    then show ?case using wrote_refl log_okD(1) [OF s] by simp
  next
    case (Suc k)
    then obtain s1 where r: "run_list (write_log_step me) [0..<k] s = Inr s1" and w: "wrote me (?w k) s s1" by auto
    have k: "k < nat (lh_n s)" using Suc.prems by simp
    note l = wrote_log [OF w] and d = wroteD [OF w]
    have area: "fst ` set (?w k) \<subseteq> log_area s" using k log_okD(6) [OF s] by (auto simp: log_area_def)
    have "lh_block s k \<in> dirty_set s" using log_okD(9) [OF s] k by auto
    then have dk: "lh_block s k \<in> dirty_set s1" using d(3) area log_okD(11) [OF s k] by auto
    have "card (dirty_set s1) \<le> card (dirty_set s)" unfolding d(3) by (rule card_mono) auto
    then have room: "card (dirty_set s1) < 30" using card_logged [OF s] by simp
    have v: "cview s1 (lh_block s k) = cview s (lh_block s k)"
      unfolding d(2) by (rule apply_writes_other) (use area log_okD(11) [OF s k] in blast)
    have "\<exists>s'. write_log_step me k s1 = Inr s' \<and> wrote me [(l_start s1 + k + 1, cview s1 (lh_block s1 k))] s1 s'"
      by (rule write_log_step_ok [OF d(1)])
        (use l dk room log_okD(2,3,6) [OF s] log_okD(10,11) [OF s k] k d(7) in \<open>auto simp: log_area_def\<close>)
    then obtain s2 where "write_log_step me k s1 = Inr s2" "wrote me [(l_start s + k + 1, cview s (lh_block s k))] s1 s2"
      using l v by auto
    then show ?case using r wrote_trans [OF w] by (auto simp: run_list_append)
  qed
  then show ?thesis by (simp add: write_log_def log_writes_def)
qed

text \<open>Installing needs the home blocks in the cache or room for two buffers.\<close>

lemma install_trans_ok:
  assumes s: "bc_at me {} {} s" and dev: "l_dev s = 1" and area: "l_start s + nat (lh_n s) < disksize s"
    and n: "nat (lh_n s) < l_size s"
    and home: "\<And>t. t < nat (lh_n s) \<Longrightarrow> lh_block s t < disksize s \<and> lh_block s t \<notin> log_area s"
    and room: "card (dirty_set s) < 30"
      "distinct (map (lh_block s) [0..<nat (lh_n s)]) \<and> lh_block s ` {..<nat (lh_n s)} \<subseteq> dirty_set s \<or> card (dirty_set s) < 29"
  shows "\<exists>s'. install_trans me s = Inr s' \<and> wrote me (home_writes s) s s'"
proof -
  let ?w = "\<lambda>k. map (\<lambda>t. (lh_block s t, cview s (l_start s + t + 1))) [0..<k]"
  have "k \<le> nat (lh_n s) \<Longrightarrow> \<exists>s'. run_list (install_step me) [0..<k] s = Inr s' \<and> wrote me (?w k) s s'" for k
  proof (induction k)
    case 0
    then show ?case using wrote_refl s by simp
  next
    case (Suc k)
    then obtain s1 where r: "run_list (install_step me) [0..<k] s = Inr s1" and w: "wrote me (?w k) s s1" by auto
    have k: "k < nat (lh_n s)" using Suc.prems by simp
    note l = wrote_log [OF w] and d = wroteD [OF w]
    have in_area: "l_start s + k + 1 \<in> log_area s" using k n by (simp add: log_area_def)
    have out: "l_start s + k + 1 \<notin> fst ` set (?w k)" using home k in_area by force
    have le: "card (dirty_set s1) \<le> card (dirty_set s)" unfolding d(3) by (rule card_mono) auto
    have dk: "lh_block s k \<in> dirty_set s1 \<or> card (dirty_set s1) < 29"
    proof (cases "card (dirty_set s) < 29")
      case False
      then have i: "inj_on (lh_block s) {0..<nat (lh_n s)}" and "lh_block s k \<in> dirty_set s"
        using room(2) k by (auto simp: distinct_map)
      moreover have "lh_block s k \<notin> lh_block s ` {..<k}" using inj_onD [OF i, of k] k by force
      ultimately have "lh_block s k \<in> dirty_set s" "lh_block s k \<notin> lh_block s ` {..<k}" by blast+
      then show ?thesis unfolding d(3) by (auto simp: lessThan_def)
    qed (use le in simp)
    have v: "cview s1 (l_start s + k + 1) = cview s (l_start s + k + 1)"
      unfolding d(2) using out by (rule apply_writes_other)
    have "lh_block s k \<noteq> l_start s + k + 1" using in_area home [OF k] by metis
    then have "\<exists>s'. install_step me k s1 = Inr s' \<and> wrote me [(lh_block s1 k, cview s1 (l_start s1 + k + 1))] s1 s'"
      by (intro install_step_ok [OF d(1)]) (use l dk le room(1) dev area home [OF k] k d(7) in auto)
    then obtain s2 where "install_step me k s1 = Inr s2" "wrote me [(lh_block s k, cview s (l_start s + k + 1))] s1 s2"
      using l v by auto
    then show ?case using r wrote_trans [OF w] by (auto simp: run_list_append)
  qed
  then show ?thesis by (simp add: install_trans_def home_writes_def)
qed

section \<open>Commit\<close>

text \<open>The number of logged blocks is a field that neither the cache nor the view looks at.\<close>

lemma head_fields [simp]:
  "dirty_set (s\<lparr>lh_n := n\<rparr>) = dirty_set s"
  "bc_at me X H (s\<lparr>lh_n := n\<rparr>) = bc_at me X H s"
  by (simp_all add: dirty_set_def bc_at_def buf_at_def uniq_bufs_def)

lemma head_view [simp]: "cview (s\<lparr>lh_n := n\<rparr>) = cview s"
  by (rule cview_cong) simp_all

lemma wrote_head:
  assumes "wrote me ws s s'"
  shows "wrote me ws (s\<lparr>lh_n := n\<rparr>) (s'\<lparr>lh_n := n\<rparr>)"
proof -
  note d = wroteD [OF assms]
  have "s'\<lparr>lh_n := n\<rparr> = (s\<lparr>lh_n := n\<rparr>)\<lparr>bufs := bufs (s'\<lparr>lh_n := n\<rparr>), lru := lru (s'\<lparr>lh_n := n\<rparr>),
      disk := apply_writes ws (disk (s\<lparr>lh_n := n\<rparr>)), written := written (s\<lparr>lh_n := n\<rparr>) @ ws\<rparr>"
    by (subst (1) d(4)) simp
  moreover have "bc_at me {} {} (s'\<lparr>lh_n := n\<rparr>)" "cview (s'\<lparr>lh_n := n\<rparr>) = apply_writes ws (cview (s\<lparr>lh_n := n\<rparr>))"
      "dirty_set (s'\<lparr>lh_n := n\<rparr>) = dirty_set (s\<lparr>lh_n := n\<rparr>) - fst ` set ws"
    using d(1-3) by simp_all
  ultimately show ?thesis unfolding wrote_def by blast
qed

text \<open>The writes of a commit, in order.\<close>

definition install_writes :: "logst \<Rightarrow> (nat \<times> block) list" where
  "install_writes s = map (\<lambda>t. (lh_block s t, cview s (lh_block s t))) [0..<nat (lh_n s)]"

definition head_block :: "logst \<Rightarrow> block" where
  "head_block s = put_head (lh_n s) (lh_block s) (cview s (l_start s))"

definition commit_writes :: "logst \<Rightarrow> (nat \<times> block) list" where
  "commit_writes s = log_writes s @ (l_start s, head_block s) # install_writes s @
     [(l_start s, put_head 0 (lh_block s) (head_block s))]"

lemma start_in_area: "log_ok me s \<Longrightarrow> l_start s \<in> log_area s"
  using log_okD(6) by (force simp: log_area_def)

lemma log_writes_area: "log_ok me s \<Longrightarrow> fst ` set (log_writes s) \<subseteq> log_area s - {l_start s}"
  using log_okD(6) by (fastforce simp: log_writes_def log_area_def)

lemma install_writes_home: "log_ok me s \<Longrightarrow> fst ` set (install_writes s) \<inter> log_area s = {}"
  using log_okD(11) by (fastforce simp: install_writes_def)

lemma log_writes_at:
  assumes "t < nat (lh_n s)"
  shows "apply_writes (log_writes s) m (l_start s + t + 1) = cview s (lh_block s t)"
  using apply_writes_nth [of "log_writes s" t m] assms
  by (simp add: log_writes_def distinct_map inj_on_def o_def)

lemma commit_ok:
  assumes s: "log_ok me s" and pos: "0 < lh_n s"
  shows "\<exists>s'. commit me s = Inr s' \<and> wrote me (commit_writes s) (s\<lparr>lh_n := 0\<rparr>) s'"
proof -
  obtain s1 where c1: "write_log me s = Inr s1" and w1: "wrote me (log_writes s) s s1"
    using write_log_ok [OF s] by blast
  note l1 = wrote_log [OF w1] and d1 = wroteD [OF w1]
  have dirty1: "dirty_set s1 = dirty_set s"
    using d1(3) log_writes_area [OF s] log_okD(9,11) [OF s] by auto
  have v1: "cview s1 (l_start s) = cview s (l_start s)"
    unfolding d1(2) by (rule apply_writes_other) (use log_writes_area [OF s] in blast)
  have st: "l_start s < disksize s" using log_okD(3,6) [OF s] by simp
  obtain s2 where c2: "write_head me s1 = Inr s2" and w2: "wrote me [(l_start s, head_block s)] s1 s2"
    using write_head_ok [OF d1(1)] log_okD(2) [OF s] l1 st d1(7) dirty1 card_logged [OF s] v1
    by (auto simp: head_block_def)
  have w12: "wrote me (log_writes s @ [(l_start s, head_block s)]) s s2" by (rule wrote_trans [OF w1 w2])
  note l2 = wrote_log [OF w12] and d2 = wroteD [OF w12]
  have "l_start s \<notin> dirty_set s" using start_in_area [OF s] log_okD(9,11) [OF s] by force
  then have dirty2: "dirty_set s2 = dirty_set s" using wroteD(3) [OF w2] dirty1 by simp
  have home2: "home_writes s2 = install_writes s"
  proof -
    have "cview s2 (l_start s + t + 1) = cview s (lh_block s t)" if "t < nat (lh_n s)" for t
      unfolding d2(2) using log_writes_at [OF that] by simp
    then show ?thesis by (simp add: home_writes_def install_writes_def l2)
  qed
  have "\<exists>s'. install_trans me s2 = Inr s' \<and> wrote me (home_writes s2) s2 s'"
    by (rule install_trans_ok [OF d2(1)])
      (use l2 d2(7) dirty2 log_okD [OF s] card_logged [OF s] in \<open>auto simp: log_area_def lessThan_def\<close>)
  then obtain s3 where c3: "install_trans me s2 = Inr s3" and w3: "wrote me (install_writes s) s2 s3"
    using home2 by auto
  have w13: "wrote me ((log_writes s @ [(l_start s, head_block s)]) @ install_writes s) s s3"
    by (rule wrote_trans [OF w12 w3])
  note l3 = wrote_log [OF w13] and d3 = wroteD [OF w13]
  have v3: "cview s3 (l_start s) = head_block s"
    unfolding d3(2) apply_writes_simps
    using install_writes_home [OF s] start_in_area [OF s] by (subst apply_writes_other) auto
  have "card (dirty_set s3) \<le> card (dirty_set s)" unfolding d3(3) by (rule card_mono) auto
  then obtain s4 where c4: "write_head me (s3\<lparr>lh_n := 0\<rparr>) = Inr s4"
      and w4: "wrote me [(l_start s, put_head 0 (lh_block s) (head_block s))] (s3\<lparr>lh_n := 0\<rparr>) s4"
    using write_head_ok [of me "s3\<lparr>lh_n := 0\<rparr>"] d3(1,7) l3 st log_okD(2) [OF s] card_logged [OF s] v3 by auto
  have "wrote me (commit_writes s) (s\<lparr>lh_n := 0\<rparr>) s4"
    using wrote_trans [OF wrote_head [OF w13] w4] by (simp add: commit_writes_def)
  then show ?thesis using c1 c2 c3 c4 pos by (auto simp: commit_def)
qed

end
