(* ===== verification/LogRecover.thy ===== *)
theory LogRecover
  imports LogCommit
begin

text \<open>
  Booting from a disk: the cache is initialised and \<open>initlog\<close> recovers. What recovery writes is a
  function of the disk.
\<close>

lemma block_fields [simp]:
  "dirty_set (s\<lparr>lh_block := f\<rparr>) = dirty_set s" "bc_at me X H (s\<lparr>lh_block := f\<rparr>) = bc_at me X H s"
  "cview (s\<lparr>lh_block := f\<rparr>) = cview s"
  by (simp_all add: dirty_set_def bc_at_def buf_at_def uniq_bufs_def) (rule cview_cong, simp_all)

definition head_n :: "nat \<Rightarrow> (nat \<Rightarrow> block) \<Rightarrow> int" where
  "head_n start d = sint (get32 (d start) 0)"

definition head_addr :: "nat \<Rightarrow> (nat \<Rightarrow> block) \<Rightarrow> nat \<Rightarrow> nat" where
  "head_addr start d t = unat (get32 (d start) (t + 1))"

definition logged_writes :: "nat \<Rightarrow> (nat \<Rightarrow> block) \<Rightarrow> (nat \<times> block) list" where
  "logged_writes start d = map (\<lambda>t. (head_addr start d t, d (start + t + 1))) [0..<nat (head_n start d)]"

definition recovery_writes :: "nat \<Rightarrow> (nat \<Rightarrow> block) \<Rightarrow> (nat \<times> block) list" where
  "recovery_writes start d = logged_writes start d @ [(start, put32 (d start) 0 0)]"

text \<open>A disk with a log of \<open>nlog\<close> blocks whose header names blocks outside of it.\<close>

definition disk_ok :: "nat \<Rightarrow> nat \<Rightarrow> nat \<Rightarrow> (nat \<Rightarrow> block) \<Rightarrow> bool" where
  "disk_ok start nlog dsz d \<longleftrightarrow> start + nlog \<le> dsz \<and> dsz < 2 ^ 31 \<and> head_n start d \<le> 29 \<and>
     nat (head_n start d) < nlog \<and>
     (\<forall>t<nat (head_n start d). head_addr start d t < dsz \<and> head_addr start d t \<notin> {start..<start + nlog})"

lemma disk_okD:
  assumes "disk_ok start nlog dsz d"
  shows "start + nlog \<le> dsz" and "dsz < 2 ^ 31" and "head_n start d \<le> 29" and "nat (head_n start d) < nlog"
    and "t < nat (head_n start d) \<Longrightarrow> head_addr start d t < dsz"
    and "t < nat (head_n start d) \<Longrightarrow> head_addr start d t \<notin> {start..<start + nlog}"
  using assms unfolding disk_ok_def by blast+

lemma logged_writes_home:
  "disk_ok start nlog dsz d \<Longrightarrow> fst ` set (logged_writes start d) \<inter> {start..<start + nlog} = {}"
  using disk_okD(6) by (fastforce simp: logged_writes_def)

lemma put_head_0: "put_head 0 blk d = put32 d 0 0"
  by (simp add: put_head_def)

section \<open>Recovery\<close>

lemma read_head_ok:
  assumes s: "bc_at me {} {} s" and cl: "dirty_set s = {}" and dev: "l_dev s = 1"
    and ok: "disk_ok (l_start s) (l_size s) (disksize s) (disk s)"
  shows "\<exists>f s'. read_head me s = Inr s' \<and> wrote me [] (s\<lparr>lh_n := head_n (l_start s) (disk s), lh_block := f\<rparr>) s' \<and>
    (\<forall>t<nat (head_n (l_start s) (disk s)). f t = head_addr (l_start s) (disk s) t)"
proof -
  have a: "l_start s < disksize s" using disk_okD(1,4) [OF ok] by simp
  obtain i s1 where r: "bread me 1 (l_start s) s = Inr (i, s1)" and e: "s1 = s\<lparr>bufs := bufs s1\<rparr>"
    and at: "bc_at me {} {i} s1" and b: "b_blockno (bufs s1 i) = l_start s" "b_data (bufs s1 i) = cview s (l_start s)"
    and c: "cview s1 = cview s" "dirty_set s1 = dirty_set s"
    using one_bread [OF s a] cl by auto
  have v: "cview s (l_start s) = disk s (l_start s)" by (rule cview_clean [OF s]) (simp add: cl)
  let ?n = "head_n (l_start s) (disk s)"
  let ?f = "\<lambda>i. if int i < ?n then head_addr (l_start s) (disk s) i else lh_block s1 i"
  let ?s1 = "s1\<lparr>lh_n := ?n, lh_block := ?f\<rparr>"
  have "bc_at me {} {i} ?s1" using at by simp
  then obtain s2 where s2: "brelse me i ?s1 = Inr s2" "bc_at me {} ({i} - {i}) s2" "cview s2 = cview ?s1"
      "dirty_set s2 = dirty_set ?s1" "s2 = ?s1\<lparr>bufs := bufs s2, lru := lru s2\<rparr>"
    using brelse_ok [of me "{}" "{i}" ?s1 i] by blast
  let ?s = "s\<lparr>lh_n := ?n, lh_block := ?f\<rparr>"
  have "s2 = ?s\<lparr>bufs := bufs s2, lru := lru s2, disk := apply_writes [] (disk ?s), written := written ?s @ []\<rparr>"
    by (subst s2(5), subst (1) e) simp
  moreover have "bc_at me {} {} s2" "cview s2 = apply_writes [] (cview ?s)" "dirty_set s2 = dirty_set ?s - fst ` set []"
    using s2(2,3,4) c by simp_all
  ultimately have "wrote me [] ?s s2" unfolding wrote_def by blast
  moreover have "read_head me s = Inr s2"
    using r dev s2(1) disk_okD(3) [OF ok]
    by (simp add: read_head_def Let_def b(2) v head_n_def [symmetric] head_addr_def cong: if_cong)
  moreover have "\<forall>t<nat ?n. ?f t = head_addr (l_start s) (disk s) t" by auto
  ultimately show ?thesis by blast
qed

lemma recover_ok:
  assumes s: "bc_at me {} {} s" and cl: "dirty_set s = {}" and dev: "l_dev s = 1"
    and ok: "disk_ok (l_start s) (l_size s) (disksize s) (disk s)"
  shows "\<exists>f s'. recover_from_log me s = Inr s' \<and>
    wrote me (recovery_writes (l_start s) (disk s)) (s\<lparr>lh_block := f, lh_n := 0\<rparr>) s'"
proof -
  let ?n = "head_n (l_start s) (disk s)"
  obtain f s1 where r1: "read_head me s = Inr s1" and w1: "wrote me [] (s\<lparr>lh_n := ?n, lh_block := f\<rparr>) s1"
    and f: "\<And>t. t < nat ?n \<Longrightarrow> f t = head_addr (l_start s) (disk s) t"
    using read_head_ok [OF assms] by blast
  note l1 = wrote_log [OF w1] and d1 = wroteD [OF w1]
  have v: "cview s b = disk s b" for b by (rule cview_clean [OF s]) (simp add: cl)
  have home: "home_writes s1 = logged_writes (l_start s) (disk s)"
    using f by (simp add: home_writes_def logged_writes_def l1 d1(2) v)
  have "\<exists>s'. install_trans me s1 = Inr s' \<and> wrote me (home_writes s1) s1 s'"
    by (rule install_trans_ok [OF d1(1)])
      (use l1 dev d1(3,7) disk_okD [OF ok] f cl in \<open>auto simp: log_area_def\<close>)
  then obtain s2 where r2: "install_trans me s1 = Inr s2" and w2: "wrote me (logged_writes (l_start s) (disk s)) s1 s2"
    using home by auto
  have w12: "wrote me (logged_writes (l_start s) (disk s)) (s\<lparr>lh_n := ?n, lh_block := f\<rparr>) s2"
    using wrote_trans [OF w1 w2] by simp
  note l2 = wrote_log [OF w12] and d2 = wroteD [OF w12]
  have st: "l_start s < disksize s" "l_start s \<in> {l_start s..<l_start s + l_size s}" using disk_okD(1,4) [OF ok] by auto
  have v2: "cview s2 (l_start s) = disk s (l_start s)"
    unfolding d2(2) using logged_writes_home [OF ok] st(2) v by (subst apply_writes_other) auto
  obtain s3 where r3: "write_head me (s2\<lparr>lh_n := 0\<rparr>) = Inr s3"
      and w3: "wrote me [(l_start s, put32 (disk s (l_start s)) 0 0)] (s2\<lparr>lh_n := 0\<rparr>) s3"
    using write_head_ok [of me "s2\<lparr>lh_n := 0\<rparr>"] d2(1,3,7) l2 dev st cl v2 by (auto simp: put_head_0)
  have "wrote me (recovery_writes (l_start s) (disk s)) (s\<lparr>lh_block := f, lh_n := 0\<rparr>) s3"
    using wrote_trans [OF wrote_head [OF w12, of 0] w3] by (simp add: recovery_writes_def)
  then show ?thesis using r1 r2 r3 by (auto simp: recover_from_log_def)
qed

section \<open>Boot\<close>

text \<open>Memory is zero and the disk has some contents; then \<open>main\<close> calls \<open>binit\<close>, and the first process \<open>initlog\<close>.\<close>

definition power_on :: "nat \<Rightarrow> (nat \<Rightarrow> block) \<Rightarrow> logst" where
  "power_on dsz d = \<lparr>bufs = (\<lambda>_. \<lparr>b_valid = False, b_dirty = False, b_dev = 0, b_blockno = 0, b_locked = False,
     b_pid = 0, b_refcnt = 0, b_data = (\<lambda>_. 0)\<rparr>), lru = [], disk = d, disksize = dsz, written = [],
     l_start = 0, l_size = 0, outstanding = 0, committing = False, l_dev = 0, lh_n = 0, lh_block = (\<lambda>_. 0)\<rparr>"

definition boot_log :: "int \<Rightarrow> nat \<Rightarrow> nat \<Rightarrow> nat \<Rightarrow> (nat \<Rightarrow> block) \<Rightarrow> logst result" where
  "boot_log me start nlog dsz d = initlog me 1 start nlog (binit (power_on dsz d))"

lemma binit_fold:
  "fold (\<lambda>b s. upd_b b (\<lambda>r. r\<lparr>b_locked := False, b_pid := 0\<rparr>) (s\<lparr>lru := b # lru s\<rparr>)) bs s =
    s\<lparr>lru := rev bs @ lru s, bufs := (\<lambda>i. if i \<in> set bs then (bufs s i)\<lparr>b_locked := False, b_pid := 0\<rparr> else bufs s i)\<rparr>"
  by (induction bs arbitrary: s) (auto simp: upd_b_def fun_eq_iff)

lemma binit_power_on: "binit (power_on dsz d) = (power_on dsz d)\<lparr>lru := rev [0..<30]\<rparr>"
  unfolding binit_def binit_fold by (simp add: power_on_def fun_eq_iff)

lemma boot_log_ok:
  assumes ok: "disk_ok start nlog dsz d"
  shows "\<exists>s. boot_log me start nlog dsz d = Inr s \<and> log_ok me s \<and> lh_n s = 0 \<and> outstanding s = 0 \<and> \<not> committing s \<and>
    l_start s = start \<and> l_size s = nlog \<and> disksize s = dsz \<and> written s = recovery_writes start d \<and>
    disk s = apply_writes (recovery_writes start d) d"
proof -
  let ?s = "(power_on dsz d)\<lparr>lru := rev [0..<30], l_start := start, l_size := nlog, l_dev := 1\<rparr>"
  have at: "bc_at me {} {} ?s" by (auto simp: bc_at_def buf_at_def uniq_bufs_def power_on_def)
  have cl: "dirty_set ?s = {}" by (simp add: dirty_set_def power_on_def)
  have e: "l_start ?s = start" "l_size ?s = nlog" "disksize ?s = dsz" "disk ?s = d" "l_dev ?s = 1"
    "outstanding ?s = 0" "\<not> committing ?s" "written ?s = []"
    by (simp_all add: power_on_def)
  obtain f s' where r: "recover_from_log me ?s = Inr s'" and w: "wrote me (recovery_writes start d) (?s\<lparr>lh_block := f, lh_n := 0\<rparr>) s'"
    using recover_ok [OF at cl] e ok by auto
  note l = wrote_log [OF w] and dd = wroteD [OF w]
  have "log_ok me s'"
    unfolding log_ok_def using dd l e disk_okD [OF ok] cl by simp
  moreover have "boot_log me start nlog dsz d = Inr s'"
    using r by (simp add: boot_log_def initlog_def binit_power_on)
  ultimately show ?thesis using l dd e by simp
qed

end
