(* ===== verification/LogCrash.thy ===== *)
theory LogCrash
  imports LogRecover
begin

text \<open>What recovery makes of the disk after a crash at any point of a commit or of a recovery.\<close>

lemma apply_writes_mem:
  assumes "b \<in> fst ` set ws"
  shows "apply_writes ws m b = apply_writes ws m' b"
  using assms
proof (induction ws arbitrary: m m')
  case (Cons w ws)
  obtain c d where w: "w = (c, d)" by (cases w)
  show ?case
  proof (cases "b \<in> fst ` set ws")
    case True
    then show ?thesis using Cons.IH [OF True] by (simp add: w)
  next
    case False
    then show ?thesis using Cons.prems by (simp add: w apply_writes_other)
  qed
qed simp

lemma apply_writes_again: "apply_writes ws (apply_writes (take k ws) m) b = apply_writes ws m b"
proof (cases "b \<in> fst ` set ws")
  case True
  then show ?thesis by (rule apply_writes_mem)
next
  case False
  then have "b \<notin> fst ` set (take k ws)" using set_take_subset [of k ws] by blast
  then show ?thesis using False by (simp add: apply_writes_other)
qed

lemma empty_log:
  assumes "head_n start d = 0"
  shows "logged_writes start d = []" and "recovery_writes start d = [(start, put32 (d start) 0 0)]"
  using assms by (simp_all add: logged_writes_def recovery_writes_def)

lemma disk_ok_empty:
  "head_n start d = 0 \<Longrightarrow> start + nlog \<le> dsz \<Longrightarrow> dsz < 2 ^ 31 \<Longrightarrow> 0 < nlog \<Longrightarrow> disk_ok start nlog dsz d"
  by (simp add: disk_ok_def)

lemma head_n_0: "head_n start (m(start := put32 h 0 0)) = 0"
  by (simp add: head_n_def)

section \<open>A crash in a commit\<close>

lemma install_writes_apply:
  assumes s: "log_ok me s" and m: "\<And>b. b \<notin> lh_block s ` {..<nat (lh_n s)} \<Longrightarrow> b \<notin> log_area s \<Longrightarrow> m b = disk s b"
    and b: "b \<notin> log_area s"
  shows "apply_writes (install_writes s) m b = cview s b"
proof (cases "b \<in> lh_block s ` {..<nat (lh_n s)}")
  case True
  then obtain t where t: "t < nat (lh_n s)" "b = lh_block s t" by auto
  then show ?thesis
    using apply_writes_nth [of "install_writes s" t m] log_okD(8) [OF s] by (simp add: install_writes_def o_def)
next
  case False
  then have "b \<notin> fst ` set (install_writes s)" by (auto simp: install_writes_def)
  moreover have "cview s b = disk s b"
    using cview_clean [OF log_okD(1) [OF s]] log_okD(9) [OF s] False by blast
  ultimately show ?thesis using m [OF False b] by (simp add: apply_writes_other)
qed

text \<open>After the header is written the log on the disk is the commit.\<close>

lemma committed_log:
  fixes j :: nat
  assumes s: "log_ok me s" and pos: "0 < lh_n s"
  defines "d \<equiv> apply_writes (log_writes s @ (l_start s, head_block s) # take j (install_writes s)) (disk s)"
  shows "head_n (l_start s) d = lh_n s" and "logged_writes (l_start s) d = install_writes s"
    and "t < nat (lh_n s) \<Longrightarrow> head_addr (l_start s) d t = lh_block s t"
    and "b \<notin> lh_block s ` {..<nat (lh_n s)} \<Longrightarrow> b \<notin> log_area s \<Longrightarrow> d b = disk s b"
proof -
  have home: "fst ` set (take j (install_writes s)) \<subseteq> fst ` set (install_writes s)"
    by (intro image_mono set_take_subset)
  have area: "l_start s + t + 1 \<in> log_area s" if "t < nat (lh_n s)" for t
    using that log_okD(6) [OF s] by (auto simp: log_area_def)
  have st: "l_start s \<notin> fst ` set (take j (install_writes s))"
    using home install_writes_home [OF s] start_in_area [OF s] by blast
  have ds: "d (l_start s) = head_block s" using st by (simp add: d_def apply_writes_other)
  show n: "head_n (l_start s) d = lh_n s"
    using log_okD(5,7) [OF s] sint_of_small [of "lh_n s"] by (simp add: head_n_def ds head_block_def put_head_n)
  show a: "head_addr (l_start s) d t = lh_block s t" if t: "t < nat (lh_n s)" for t
  proof -
    have "lh_block s t < 2 ^ 31" using log_okD(4) [OF s] log_okD(10) [OF s t] by simp
    then show ?thesis
      using put_head_block [OF t, of "lh_block s"] unat_of_small by (simp add: head_addr_def ds head_block_def)
  qed
  have v: "d (l_start s + t + 1) = cview s (lh_block s t)" if t: "t < nat (lh_n s)" for t
  proof -
    have "l_start s + t + 1 \<notin> fst ` set (take j (install_writes s))"
      using home install_writes_home [OF s] area [OF t] by blast
    then show ?thesis using log_writes_at [OF t, of "disk s"] by (simp add: d_def apply_writes_other)
  qed
  show "logged_writes (l_start s) d = install_writes s"
    using a v by (simp add: logged_writes_def install_writes_def n)
  show "d b = disk s b" if "b \<notin> lh_block s ` {..<nat (lh_n s)}" "b \<notin> log_area s"
  proof -
    have "b \<notin> fst ` set (log_writes s @ (l_start s, head_block s) # take j (install_writes s))"
      using that home log_writes_area [OF s] start_in_area [OF s] by (auto simp: install_writes_def dest!: subsetD [OF home])
    then show ?thesis unfolding d_def by (rule apply_writes_other)
  qed
qed

lemma crash_commit:
  fixes k :: nat
  assumes s: "log_ok me s" and pos: "0 < lh_n s" and empty: "head_n (l_start s) (disk s) = 0"
  defines "d \<equiv> apply_writes (take k (commit_writes s)) (disk s)"
  shows "disk_ok (l_start s) (l_size s) (disksize s) d"
    and "b \<notin> log_area s \<Longrightarrow> apply_writes (recovery_writes (l_start s) d) d b =
      (if k \<le> nat (lh_n s) then disk s b else cview s b)"
proof -
  let ?n = "nat (lh_n s)"
  have lens: "length (log_writes s) = ?n" "length (install_writes s) = ?n"
    by (simp_all add: log_writes_def install_writes_def)
  have geo: "l_start s + l_size s \<le> disksize s" "disksize s < 2 ^ 31" "0 < l_size s"
    using log_okD(3,4,6) [OF s] by auto
  have nb: "b \<noteq> l_start s" if "b \<notin> log_area s" for b using that start_in_area [OF s] by blast
  consider "k \<le> ?n" | j where "k = Suc (?n + j)" "j \<le> ?n" | "k > Suc (?n + ?n)"
  proof (cases "k \<le> ?n \<or> k > Suc (?n + ?n)")
    case False
    then have "k = Suc (?n + (k - Suc ?n))" "k - Suc ?n \<le> ?n" by auto
    then show ?thesis using that(2) by blast
  qed (use that in blast)
  then have "disk_ok (l_start s) (l_size s) (disksize s) d \<and> (\<forall>b. b \<notin> log_area s \<longrightarrow>
      apply_writes (recovery_writes (l_start s) d) d b = (if k \<le> ?n then disk s b else cview s b))"
  proof cases
    case 1
    then have d: "d = apply_writes (take k (log_writes s)) (disk s)" by (simp add: d_def commit_writes_def lens)
    have sub: "fst ` set (take k (log_writes s)) \<subseteq> log_area s - {l_start s}"
      using log_writes_area [OF s] set_take_subset [of k "log_writes s"] by blast
    have "d (l_start s) = disk s (l_start s)" unfolding d by (rule apply_writes_other) (use sub in blast)
    then have h: "head_n (l_start s) d = 0" using empty by (simp add: head_n_def)
    have "d b = disk s b" if "b \<notin> log_area s" for b
      unfolding d by (rule apply_writes_other) (use sub that in blast)
    then have "apply_writes (recovery_writes (l_start s) d) d b = disk s b" if "b \<notin> log_area s" for b
      using nb [OF that] that by (simp add: empty_log [OF h])
    then show ?thesis using disk_ok_empty [OF h geo] 1 by simp
  next
    case (2 j)
    then have d: "d = apply_writes (log_writes s @ (l_start s, head_block s) # take j (install_writes s)) (disk s)"
      by (simp add: d_def commit_writes_def lens)
    note c = committed_log [where j = j, OF s pos, folded d]
    have "apply_writes (recovery_writes (l_start s) d) d b = cview s b" if "b \<notin> log_area s" for b
      using install_writes_apply [OF s c(4) that] nb [OF that] by (simp add: recovery_writes_def c(2))
    moreover have "disk_ok (l_start s) (l_size s) (disksize s) d"
      using geo log_okD(6,7,10,11) [OF s] c(1,3) by (simp add: disk_ok_def log_area_def)
    ultimately show ?thesis using 2 by simp
  next
    case 3
    then have "take k (commit_writes s) = commit_writes s" by (simp add: commit_writes_def lens)
    then have d: "d = (apply_writes (log_writes s @ (l_start s, head_block s) # take ?n (install_writes s)) (disk s))
        (l_start s := put32 (head_block s) 0 0)"
      by (simp add: d_def commit_writes_def put_head_0 lens)
    have h: "head_n (l_start s) d = 0" unfolding d by (rule head_n_0)
    have "d b = cview s b" if "b \<notin> log_area s" for b
    proof -
      let ?m = "apply_writes (log_writes s @ [(l_start s, head_block s)]) (disk s)"
      have "d b = apply_writes (install_writes s) ?m b" using nb [OF that] by (simp add: d lens)
      also have "\<dots> = cview s b"
      proof (rule install_writes_apply [OF s _ that])
        show "?m c = disk s c" if "c \<notin> lh_block s ` {..<nat (lh_n s)}" "c \<notin> log_area s" for c
          using committed_log(4) [where j = 0, OF s pos that] by simp
      qed
      finally show ?thesis .
    qed
    then have "apply_writes (recovery_writes (l_start s) d) d b = cview s b" if "b \<notin> log_area s" for b
      using nb [OF that] that by (simp add: empty_log [OF h])
    then show ?thesis using disk_ok_empty [OF h geo] 3 by simp
  qed
  then show "disk_ok (l_start s) (l_size s) (disksize s) d"
    and "b \<notin> log_area s \<Longrightarrow> apply_writes (recovery_writes (l_start s) d) d b =
      (if k \<le> nat (lh_n s) then disk s b else cview s b)" by blast+
qed

section \<open>A crash in a recovery\<close>

text \<open>Recovering from the disk that a crashed recovery leaves gives what the first would have given.\<close>

lemma crash_recovery:
  fixes k :: nat
  assumes ok: "disk_ok start nlog dsz d"
  defines "d' \<equiv> apply_writes (take k (recovery_writes start d)) d"
  shows "disk_ok start nlog dsz d'"
    and "b \<notin> {start..<start + nlog} \<Longrightarrow>
      apply_writes (recovery_writes start d') d' b = apply_writes (recovery_writes start d) d b"
proof -
  let ?n = "nat (head_n start d)"
  have len: "length (logged_writes start d) = ?n" by (simp add: logged_writes_def)
  have st: "start \<in> {start..<start + nlog}" using disk_okD(4) [OF ok] by simp
  have home: "fst ` set (take k (logged_writes start d)) \<inter> {start..<start + nlog} = {}"
    using logged_writes_home [OF ok] set_take_subset [of k "logged_writes start d"] by blast
  have "disk_ok start nlog dsz d' \<and> (b \<notin> {start..<start + nlog} \<longrightarrow>
      apply_writes (recovery_writes start d') d' b = apply_writes (recovery_writes start d) d b)"
  proof (cases "k \<le> ?n")
    case True
    then have d': "d' = apply_writes (take k (logged_writes start d)) d"
      by (simp add: d'_def recovery_writes_def len)
    have area: "d' c = d c" if "c \<in> {start..<start + nlog}" for c
      unfolding d' by (rule apply_writes_other) (use home that in blast)
    have h: "head_n start d' = head_n start d" "head_addr start d' = head_addr start d"
      unfolding head_n_def head_addr_def area [OF st] by (rule refl)+
    have "d' (start + t + 1) = d (start + t + 1)" if "t < ?n" for t
      by (rule area) (use that disk_okD(4) [OF ok] in auto)
    then have "logged_writes start d' = logged_writes start d" by (simp add: logged_writes_def h)
    moreover have "disk_ok start nlog dsz d'" using ok by (simp add: disk_ok_def h)
    ultimately show ?thesis
      using apply_writes_again [of "logged_writes start d" k d] st by (auto simp: recovery_writes_def d')
  next
    case False
    then have d': "d' = (apply_writes (logged_writes start d) d)(start := put32 (d start) 0 0)"
      by (simp add: d'_def recovery_writes_def len)
    have h: "head_n start d' = 0" unfolding d' by (rule head_n_0)
    have "disk_ok start nlog dsz d'" using disk_okD [OF ok] by (intro disk_ok_empty [OF h]) auto
    moreover have "apply_writes (recovery_writes start d') d' b = d' b" if "b \<noteq> start"
      using that by (simp add: empty_log [OF h])
    moreover have "d' b = apply_writes (recovery_writes start d) d b" if "b \<noteq> start"
      using that by (simp add: recovery_writes_def d')
    ultimately show ?thesis using st by auto
  qed
  then show "disk_ok start nlog dsz d'"
    and "b \<notin> {start..<start + nlog} \<Longrightarrow>
      apply_writes (recovery_writes start d') d' b = apply_writes (recovery_writes start d) d b" by blast+
qed

end
