(* ===== verification/LogTx.thy ===== *)
theory LogTx
  imports LogCrash
begin

text \<open>
  What the file system relies on: inside a transaction a process that holds the buffers \<open>H\<close> reads a
  block, changes it under the log and releases it. \<open>tx me H k s\<close> is the state between two such calls
  with room for \<open>k\<close> further \<open>log_write\<close>s, and \<open>runs\<close> what a sequence of them does: what the process
  sees of the disk, nothing else of the log's state, and the buffers that stay held.
\<close>

section \<open>Changing a block\<close>

text \<open>
  The use of \<open>log_write\<close> that its comment gives and that \<open>bzero\<close>, \<open>balloc\<close>, \<open>bfree\<close>, \<open>iupdate\<close> and
  \<open>writei\<close> follow: read the block, change it, \<open>log_write\<close>, release.
\<close>

definition log_update :: "int \<Rightarrow> nat \<Rightarrow> nat \<Rightarrow> (block \<Rightarrow> block) \<Rightarrow> logst \<Rightarrow> logst result" where
  "log_update me dev b f s =
     rbind (bread me dev b s) (\<lambda>(bp, s1).
     rbind (log_write bp (upd_b bp (\<lambda>r. r\<lparr>b_data := f (b_data r)\<rparr>) s1)) (brelse me bp))"

definition bzero :: "int \<Rightarrow> nat \<Rightarrow> nat \<Rightarrow> logst \<Rightarrow> logst result" where
  "bzero me dev bno = log_update me dev bno (\<lambda>_ _. 0)"

definition log_slot :: "nat \<Rightarrow> (nat \<Rightarrow> nat) \<Rightarrow> nat \<Rightarrow> nat" where
  "log_slot n blk b = (case List.find (\<lambda>i. blk i = b) [0..<n] of None \<Rightarrow> n | Some i \<Rightarrow> i)"

lemma log_slot_absorbs:
  fixes b :: nat
  assumes "distinct (map blk [0..<n])"
  defines "i \<equiv> log_slot n blk b"
  defines "m \<equiv> if i = n then n + 1 else n"
  shows "distinct (map (blk(i := b)) [0..<m])" and "(blk(i := b)) ` {..<m} = insert b (blk ` {..<n})"
    and "i \<le> n" and "i = n \<longleftrightarrow> b \<notin> blk ` {..<n}" and "i \<noteq> n \<Longrightarrow> blk(i := b) = blk"
proof -
  have inj: "inj_on blk {0..<n}" using assms(1) by (simp add: distinct_map)
  have "(i = n \<longleftrightarrow> b \<notin> blk ` {..<n}) \<and> i \<le> n \<and> (i \<noteq> n \<longrightarrow> blk i = b)"
  proof (cases "List.find (\<lambda>i. blk i = b) [0..<n]")
    case None
    then have "b \<notin> blk ` {..<n}" by (auto simp: find_None_all)
    then show ?thesis using None by (simp add: i_def log_slot_def)
  next
    case (Some k)
    then have "i = k" "k < n" "blk k = b" using find_Some_first [OF Some] by (simp_all add: i_def log_slot_def)
    then show ?thesis by auto
  qed
  then show in_n: "i = n \<longleftrightarrow> b \<notin> blk ` {..<n}" and le: "i \<le> n" and hit: "i \<noteq> n \<Longrightarrow> blk(i := b) = blk"
    by auto
  show "distinct (map (blk(i := b)) [0..<m])"
  proof (cases "i = n")
    case True
    then have "inj_on (blk(n := b)) {0..<Suc n}"
      using inj in_n by (auto simp: inj_on_def atLeast0LessThan)
    then show ?thesis using True by (simp add: m_def distinct_map del: upt_Suc)
  next
    case False
    then show ?thesis using assms(1) hit by (simp add: m_def)
  qed
  show "(blk(i := b)) ` {..<m} = insert b (blk ` {..<n})"
  proof (cases "i = n")
    case True
    then show ?thesis by (auto simp: m_def lessThan_Suc)
  next
    case False
    then have "b \<in> blk ` {..<n}" using in_n by simp
    then show ?thesis using False hit by (simp add: m_def insert_absorb)
  qed
qed

lemma log_write_eq:
  assumes "0 \<le> lh_n s" and "lh_n s < 30" and "lh_n s < int (l_size s) - 1" and "1 \<le> outstanding s"
    and "b_blockno (bufs s x) = b"
  defines "i \<equiv> log_slot (nat (lh_n s)) (lh_block s) b"
  shows "log_write x s = Inr (upd_b x (\<lambda>r. r\<lparr>b_dirty := True\<rparr>)
    (s\<lparr>lh_block := (lh_block s)(i := b), lh_n := (if i = nat (lh_n s) then lh_n s + 1 else lh_n s)\<rparr>))"
  using assms by (simp add: log_write_def log_slot_def Let_def)

section \<open>The state in a transaction\<close>

definition log_at :: "int \<Rightarrow> nat set \<Rightarrow> logst \<Rightarrow> bool" where
  "log_at me H s \<longleftrightarrow> bc_at me {} H s \<and> l_dev s = 1 \<and> l_start s + l_size s \<le> disksize s \<and> disksize s < 2 ^ 31 \<and>
     0 \<le> lh_n s \<and> nat (lh_n s) < l_size s \<and> lh_n s \<le> 29 \<and>
     distinct (map (lh_block s) [0..<nat (lh_n s)]) \<and> dirty_set s = lh_block s ` {..<nat (lh_n s)} \<and>
     (\<forall>t<nat (lh_n s). lh_block s t < disksize s \<and> lh_block s t \<notin> log_area s)"

definition tx :: "int \<Rightarrow> nat set \<Rightarrow> nat \<Rightarrow> logst \<Rightarrow> bool" where
  "tx me H k s \<longleftrightarrow> log_at me H s \<and> 1 \<le> outstanding s \<and> lh_n s + int k \<le> 29 \<and> lh_n s + int k < int (l_size s)"

text \<open>A state of the log up to the buffers and the addresses that the transaction has logged.\<close>

definition same_log :: "logst \<Rightarrow> logst \<Rightarrow> bool" where
  "same_log s s' \<longleftrightarrow> s' = s\<lparr>bufs := bufs s', lru := lru s', lh_n := lh_n s', lh_block := lh_block s'\<rparr>"

definition runs :: "int \<Rightarrow> nat set \<Rightarrow> nat \<Rightarrow> (nat \<Rightarrow> block) \<Rightarrow> logst \<Rightarrow> logst \<Rightarrow> bool" where
  "runs me H k V s s' \<longleftrightarrow> tx me H k s' \<and> cview s' = V \<and> same_log s s' \<and> (\<forall>i\<in>H. bufs s' i = bufs s i)"

lemma log_ok_at: "log_ok me s \<longleftrightarrow> log_at me {} s"
  by (simp add: log_ok_def log_at_def)

lemma log_atD:
  assumes "log_at me H s"
  shows "bc_at me {} H s" and "l_dev s = 1" and "l_start s + l_size s \<le> disksize s" and "disksize s < 2 ^ 31"
    and "0 \<le> lh_n s" and "nat (lh_n s) < l_size s" and "lh_n s \<le> 29"
    and "distinct (map (lh_block s) [0..<nat (lh_n s)])" and "dirty_set s = lh_block s ` {..<nat (lh_n s)}"
    and "t < nat (lh_n s) \<Longrightarrow> lh_block s t < disksize s" and "t < nat (lh_n s) \<Longrightarrow> lh_block s t \<notin> log_area s"
  using assms unfolding log_at_def by blast+

lemma same_log_refl [simp]: "same_log s s"
  by (simp add: same_log_def)

lemma same_logI: "s' = s\<lparr>bufs := b, lru := l, lh_n := n, lh_block := a\<rparr> \<Longrightarrow> same_log s s'"
  by (simp add: same_log_def)

lemma same_log_iff: "same_log s s' \<longleftrightarrow> (\<exists>b l n a. s' = s\<lparr>bufs := b, lru := l, lh_n := n, lh_block := a\<rparr>)"
proof
  assume "same_log s s'"
  then show "\<exists>b l n a. s' = s\<lparr>bufs := b, lru := l, lh_n := n, lh_block := a\<rparr>" unfolding same_log_def by blast
qed (auto simp: same_log_def)

lemma same_log_trans:
  assumes "same_log s s1" and "same_log s1 s2"
  shows "same_log s s2"
proof -
  obtain b l n a where 1: "s1 = s\<lparr>bufs := b, lru := l, lh_n := n, lh_block := a\<rparr>"
    using assms(1) unfolding same_log_iff by blast
  obtain b' l' n' a' where 2: "s2 = s1\<lparr>bufs := b', lru := l', lh_n := n', lh_block := a'\<rparr>"
    using assms(2) unfolding same_log_iff by blast
  have "s2 = s\<lparr>bufs := b', lru := l', lh_n := n', lh_block := a'\<rparr>" unfolding 2 1 by simp
  then show ?thesis unfolding same_log_iff by blast
qed

lemma same_logD:
  assumes "same_log s s'"
  shows "l_start s' = l_start s" and "l_size s' = l_size s" and "l_dev s' = l_dev s" and "disksize s' = disksize s"
    and "outstanding s' = outstanding s" and "committing s' = committing s" and "disk s' = disk s"
    and "written s' = written s" and "log_area s' = log_area s"
proof -
  note e = assms [unfolded same_log_def]
  show "l_start s' = l_start s" "l_size s' = l_size s" "l_dev s' = l_dev s" "disksize s' = disksize s"
      "outstanding s' = outstanding s" "committing s' = committing s" "disk s' = disk s" "written s' = written s"
    using arg_cong [OF e, of l_start] arg_cong [OF e, of l_size] arg_cong [OF e, of l_dev] arg_cong [OF e, of disksize]
      arg_cong [OF e, of outstanding] arg_cong [OF e, of committing] arg_cong [OF e, of disk] arg_cong [OF e, of written]
    by simp_all
  then show "log_area s' = log_area s" by (simp add: log_area_def)
qed

lemma txD:
  assumes "tx me H k s"
  shows "log_at me H s" and "1 \<le> outstanding s" and "lh_n s + int k \<le> 29" and "lh_n s + int k < int (l_size s)"
    and "bc_at me {} H s"
  using assms log_atD(1) unfolding tx_def by blast+

lemma tx_mono: "tx me H k s \<Longrightarrow> j \<le> k \<Longrightarrow> tx me H j s"
  by (auto simp: tx_def)

lemma runsD:
  assumes "runs me H k V s s'"
  shows "tx me H k s'" and "cview s' = V" and "same_log s s'" and "i \<in> H \<Longrightarrow> bufs s' i = bufs s i"
    and "disksize s' = disksize s" and "log_area s' = log_area s"
  using assms same_logD unfolding runs_def by blast+

lemma runs_refl: "tx me H k s \<Longrightarrow> runs me H k (cview s) s s"
  by (simp add: runs_def)

lemma runs_trans:
  assumes "runs me H j V s s1" and "runs me H k W s1 s2"
  shows "runs me H k W s s2"
  using assms same_log_trans unfolding runs_def by metis

lemma runs_mono: "runs me H k V s s' \<Longrightarrow> j \<le> k \<Longrightarrow> runs me H j V s s'"
  using tx_mono unfolding runs_def by blast

text \<open>A held buffer shows what the process sees of its block.\<close>

lemma tx_held:
  assumes "tx me H k s" and "i \<in> H"
  shows "b_data (bufs s i) = cview s (b_blockno (bufs s i))"
  using cview_buffer [OF txD(5) [OF assms(1)]] heldD(1,2) [OF txD(5) [OF assms(1)] assms(2)] by simp

lemma tx_cards:
  assumes "tx me H k s"
  shows "card (dirty_set s) + k \<le> 29"
proof -
  note a = log_atD [OF txD(1) [OF assms]]
  have "card (dirty_set s) \<le> nat (lh_n s)"
    unfolding a(9) using card_image_le [of "{..<nat (lh_n s)}" "lh_block s"] by simp
  then show ?thesis using txD(3) [OF assms] a(5) by simp
qed

lemma log_at_bufs:
  assumes "log_at me H s" and "s' = s\<lparr>bufs := bufs s', lru := lru s'\<rparr>" and "bc_at me {} H' s'" and "dirty_set s' = dirty_set s"
  shows "log_at me H' s'"
proof -
  note e = assms(2)
  have "l_dev s' = l_dev s" "l_start s' = l_start s" "l_size s' = l_size s" "disksize s' = disksize s"
      "lh_n s' = lh_n s" "lh_block s' = lh_block s"
    using arg_cong [OF e, of l_dev] arg_cong [OF e, of l_start] arg_cong [OF e, of l_size] arg_cong [OF e, of disksize]
      arg_cong [OF e, of lh_n] arg_cong [OF e, of lh_block] by simp_all
  then show ?thesis using log_atD [OF assms(1)] assms(3,4) unfolding log_at_def log_area_def by simp
qed

lemma tx_bufs:
  assumes "tx me H k s" and "s' = s\<lparr>bufs := bufs s', lru := lru s'\<rparr>" and "bc_at me {} H' s'" and "dirty_set s' = dirty_set s"
  shows "tx me H' k s'" and "same_log s s'"
proof -
  note e = assms(2)
  have "outstanding s' = outstanding s" "lh_n s' = lh_n s" "l_size s' = l_size s" "lh_block s' = lh_block s"
    using arg_cong [OF e, of outstanding] arg_cong [OF e, of lh_n] arg_cong [OF e, of l_size] arg_cong [OF e, of lh_block]
    by simp_all
  then show "tx me H' k s'" using txD [OF assms(1)] log_at_bufs [OF txD(1) [OF assms(1)] assms(2-4)]
    unfolding tx_def by simp
  show "same_log s s'" using e \<open>lh_n s' = lh_n s\<close> \<open>lh_block s' = lh_block s\<close> by (simp add: same_log_def)
qed

section \<open>Reading, changing and releasing a buffer\<close>

text \<open>What one call of \<open>bread\<close>, of \<open>log_write\<close> on a changed buffer, and of \<open>brelse\<close> does.\<close>

definition taken :: "int \<Rightarrow> nat set \<Rightarrow> nat \<Rightarrow> nat \<Rightarrow> logst \<Rightarrow> nat \<Rightarrow> logst \<Rightarrow> bool" where
  "taken me H k b s i s1 \<longleftrightarrow> tx me (insert i H) k s1 \<and> i \<notin> H \<and> b_blockno (bufs s1 i) = b \<and>
     b_data (bufs s1 i) = cview s b \<and> cview s1 = cview s \<and> same_log s s1 \<and> (\<forall>j. j \<noteq> i \<longrightarrow> bufs s1 j = bufs s j) \<and>
     dirty_set s1 = dirty_set s"

definition changed :: "int \<Rightarrow> nat set \<Rightarrow> nat \<Rightarrow> nat \<Rightarrow> nat \<Rightarrow> block \<Rightarrow> logst \<Rightarrow> logst \<Rightarrow> bool" where
  "changed me H k i b d s s1 \<longleftrightarrow> tx me H k s1 \<and> cview s1 = (cview s)(b := d) \<and> same_log s s1 \<and>
     (\<forall>j. j \<noteq> i \<longrightarrow> bufs s1 j = bufs s j) \<and> b_blockno (bufs s1 i) = b \<and> dirty_set s1 = insert b (dirty_set s)"

definition dropped :: "int \<Rightarrow> nat set \<Rightarrow> nat \<Rightarrow> nat \<Rightarrow> logst \<Rightarrow> logst \<Rightarrow> bool" where
  "dropped me H k i s s1 \<longleftrightarrow> tx me (H - {i}) k s1 \<and> cview s1 = cview s \<and> same_log s s1 \<and>
     (\<forall>j. j \<noteq> i \<longrightarrow> bufs s1 j = bufs s j) \<and> dirty_set s1 = dirty_set s"

lemma takenD:
  assumes "taken me H k b s i s1"
  shows "tx me (insert i H) k s1" and "i \<notin> H" and "b_blockno (bufs s1 i) = b" and "b_data (bufs s1 i) = cview s b"
    and "cview s1 = cview s" and "same_log s s1" and "j \<noteq> i \<Longrightarrow> bufs s1 j = bufs s j" and "dirty_set s1 = dirty_set s"
  using assms unfolding taken_def by blast+

lemma changedD:
  assumes "changed me H k i b d s s1"
  shows "tx me H k s1" and "cview s1 = (cview s)(b := d)" and "same_log s s1" and "j \<noteq> i \<Longrightarrow> bufs s1 j = bufs s j"
    and "b_blockno (bufs s1 i) = b" and "dirty_set s1 = insert b (dirty_set s)"
  using assms unfolding changed_def by blast+

lemma droppedD:
  assumes "dropped me H k i s s1"
  shows "tx me (H - {i}) k s1" and "cview s1 = cview s" and "same_log s s1" and "j \<noteq> i \<Longrightarrow> bufs s1 j = bufs s j"
    and "dirty_set s1 = dirty_set s"
  using assms unfolding dropped_def by blast+

lemma tx_bread:
  assumes t: "tx me H k s" and b: "b < disksize s" and held: "\<And>i. i \<in> H \<Longrightarrow> b_blockno (bufs s i) \<noteq> b" and H: "card H \<le> k"
  shows "\<exists>i s1. bread me 1 b s = Inr (i, s1) \<and> taken me H k b s i s1"
proof -
  note at = txD(5) [OF t]
  have "\<exists>k<30. k \<notin> H \<and> \<not> b_dirty (bufs s k)"
    by (rule clean_buffer [OF at]) (use tx_cards [OF t] H in simp)
  then obtain i s1 where r: "bread me 1 b s = Inr (i, s1)" "bread_result me {} H b s i s1"
    using bread_ok [OF at b held] by blast
  note p = bread_resultD [OF r(2)]
  have "s1 = s\<lparr>bufs := bufs s1, lru := lru s1\<rparr>"
    using arg_cong [OF p(9), of lru] by (subst p(9)) simp
  then have "taken me H k b s i s1" using tx_bufs [OF t _ p(3,8)] p(2,4,5,6,7,8) unfolding taken_def by blast
  then show ?thesis using r(1) by blast
qed

lemma tx_brelse:
  assumes t: "tx me H k s" and i: "i \<in> H"
  shows "\<exists>s1. brelse me i s = Inr s1 \<and> dropped me H k i s s1"
proof -
  obtain s1 where r: "brelse me i s = Inr s1" "bc_at me {} (H - {i}) s1" "cview s1 = cview s"
      "dirty_set s1 = dirty_set s" "\<And>j. j \<noteq> i \<Longrightarrow> bufs s1 j = bufs s j" "s1 = s\<lparr>bufs := bufs s1, lru := lru s1\<rparr>"
    using brelse_ok [OF txD(5) [OF t] i] by blast
  have "dropped me H k i s s1" using tx_bufs [OF t r(6,2,4)] r(3,4,5) unfolding dropped_def by blast
  then show ?thesis using r(1) by blast
qed

text \<open>A change of a held buffer with its \<open>log_write\<close>.\<close>

lemma tx_log_write:
  assumes t: "tx me H (Suc k) s" and i: "i \<in> H" and b: "b_blockno (bufs s i) = b" "b \<notin> log_area s"
  shows "\<exists>s1. log_write i (upd_b i (\<lambda>r. r\<lparr>b_data := f (b_data r)\<rparr>) s) = Inr s1 \<and> changed me H k i b (f (cview s b)) s s1"
proof -
  note o = log_atD [OF txD(1) [OF t]] and at = txD(5) [OF t]
  have bd: "b < disksize s" using heldD(6) [OF at i] b(1) by simp
  let ?d = "f (cview s b)"
  let ?m = "upd_b i (\<lambda>r. r\<lparr>b_data := ?d\<rparr>) s"
  have m: "upd_b i (\<lambda>r. r\<lparr>b_data := f (b_data r)\<rparr>) s = ?m"
    using tx_held [OF t i] b(1) by (simp add: upd_b_def)
  note mo = modify_ok [OF at i, of ?d]
  have atm: "bc_at me {i} H ?m" using mo(1) by simp
  define sl where "sl = log_slot (nat (lh_n s)) (lh_block s) b"
  define n' where "n' = (if sl = nat (lh_n s) then lh_n s + 1 else lh_n s)"
  let ?h = "?m\<lparr>lh_block := (lh_block s)(sl := b), lh_n := n'\<rparr>"
  let ?w = "upd_b i (\<lambda>r. r\<lparr>b_dirty := True\<rparr>) ?h"
  have fm: "lh_n ?m = lh_n s" "lh_block ?m = lh_block s" "l_size ?m = l_size s" "outstanding ?m = outstanding s"
    by (simp_all add: upd_b_def)
  have lw: "log_write i ?m = Inr ?w"
    using log_write_eq [of ?m i b] o(5) txD(2-4) [OF t] b(1) by (simp add: fm sl_def n'_def)
  have ath: "bc_at me {i} H ?h" using atm by simp
  note mk = mark_ok [OF ath i]
  have w: "?w = s\<lparr>bufs := bufs ?w, lru := lru ?w, lh_n := n', lh_block := (lh_block s)(sl := b)\<rparr>"
    by (simp add: upd_b_def)
  note sa = log_slot_absorbs [OF o(8), of b, folded sl_def]
  have nn: "nat n' = (if sl = nat (lh_n s) then nat (lh_n s) + 1 else nat (lh_n s))" "0 \<le> n'" "n' \<le> lh_n s + 1"
    using o(5) by (auto simp: n'_def)
  have v: "cview ?w = (cview s)(b := ?d)" using mk(2) mo(2) b(1) by simp
  have dt: "dirty_set ?w = insert b (dirty_set s)" using mk(3) mo(3) b(1) by simp
  have f: "l_dev ?w = l_dev s" "l_start ?w = l_start s" "l_size ?w = l_size s" "disksize ?w = disksize s"
      "outstanding ?w = outstanding s" "lh_n ?w = n'" "lh_block ?w = (lh_block s)(sl := b)"
    by (simp_all add: upd_b_def)
  have blocks: "lh_block ?w ` {..<nat (lh_n ?w)} = insert b (lh_block s ` {..<nat (lh_n s)})"
    using sa(2) by (simp only: f nn(1))
  have "log_at me H ?w"
  proof -
    have "lh_block ?w t < disksize s \<and> lh_block ?w t \<notin> log_area s" if "t < nat (lh_n ?w)" for t
    proof -
      have "lh_block ?w t \<in> insert b (lh_block s ` {..<nat (lh_n s)})" using that unfolding blocks [symmetric] by blast
      then show ?thesis using b(2) bd o(10,11) by auto
    qed
    moreover have "distinct (map (lh_block ?w) [0..<nat (lh_n ?w)])" using sa(1) by (simp only: f nn(1))
    moreover have "dirty_set ?w = lh_block ?w ` {..<nat (lh_n ?w)}" using dt o(9) blocks by simp
    moreover have "nat n' < l_size s" "n' \<le> 29" using nn(2,3) txD(3,4) [OF t] by (simp_all add: nat_less_iff)
    moreover have "bc_at me {} H ?w" using mk(1) by simp
    ultimately show ?thesis using o(2,3,4) nn(2) unfolding log_at_def log_area_def f by blast
  qed
  then have "tx me H k ?w" using txD(2-4) [OF t] nn(3) by (simp add: tx_def f)
  moreover have "same_log s ?w" by (rule same_logI [OF w])
  moreover have "bufs ?w j = bufs s j" if "j \<noteq> i" for j using that by (simp add: upd_b_def)
  moreover have "b_blockno (bufs ?w i) = b" using b(1) by (simp add: upd_b_def)
  ultimately have "changed me H k i b ?d s ?w" using v dt unfolding changed_def by blast
  then show ?thesis using lw m by metis
qed

text \<open>The release of a buffer that was only read, and the change of a buffer with its release.\<close>

lemma taken_brelse:
  assumes "taken me H k b s i s1"
  shows "\<exists>s2. brelse me i s1 = Inr s2 \<and> runs me H k (cview s) s s2"
proof -
  note r2 = takenD [OF assms]
  obtain s2 where l: "brelse me i s1 = Inr s2" "dropped me (insert i H) k i s1 s2" using tx_brelse [OF r2(1) insertI1] by blast
  note l2 = droppedD [OF l(2)]
  have "\<forall>j\<in>H. bufs s2 j = bufs s j" using l2(4) r2(7,2) by metis
  moreover have "same_log s s2" using r2(6) l2(3) same_log_trans by blast
  moreover have "insert i H - {i} = H" using r2(2) by blast
  ultimately show ?thesis using l(1) l2(1,2) r2(5) by (auto simp: runs_def)
qed

lemma taken_written:
  assumes t: "taken me H (Suc k) b s i s1" and b: "b \<notin> log_area s"
  shows "\<exists>s2 s3. log_write i (upd_b i (\<lambda>r. r\<lparr>b_data := f (b_data r)\<rparr>) s1) = Inr s2 \<and> brelse me i s2 = Inr s3 \<and>
    runs me H k ((cview s)(b := f (cview s b))) s s3 \<and> dirty_set s3 = insert b (dirty_set s)"
proof -
  note r2 = takenD [OF t]
  have "b \<notin> log_area s1" using b same_logD(9) [OF r2(6)] by simp
  then obtain s2 where w: "log_write i (upd_b i (\<lambda>r. r\<lparr>b_data := f (b_data r)\<rparr>) s1) = Inr s2"
      "changed me (insert i H) k i b (f (cview s1 b)) s1 s2"
    using tx_log_write [OF r2(1) insertI1 r2(3)] by blast
  note w2 = changedD [OF w(2)]
  obtain s3 where l: "brelse me i s2 = Inr s3" "dropped me (insert i H) k i s2 s3" using tx_brelse [OF w2(1) insertI1] by blast
  note l2 = droppedD [OF l(2)]
  have "\<forall>j\<in>H. bufs s3 j = bufs s j" using l2(4) w2(4) r2(7,2) by metis
  moreover have "same_log s s3" using r2(6) w2(3) l2(3) same_log_trans by blast
  moreover have "insert i H - {i} = H" using r2(2) by blast
  ultimately have "runs me H k ((cview s)(b := f (cview s b))) s s3" using l2(1,2) w2(2) r2(5) by (simp add: runs_def)
  then show ?thesis using w(1) l(1) l2(5) w2(6) r2(8) by blast
qed

text \<open>The whole change of a block that is not held.\<close>

lemma tx_update:
  assumes t: "tx me H (Suc k) s" and b: "b < disksize s" "b \<notin> log_area s"
    and held: "\<And>i. i \<in> H \<Longrightarrow> b_blockno (bufs s i) \<noteq> b" and H: "card H \<le> Suc k"
  shows "\<exists>s1. log_update me 1 b f s = Inr s1 \<and> runs me H k ((cview s)(b := f (cview s b))) s s1 \<and>
    dirty_set s1 = insert b (dirty_set s)"
proof -
  obtain i s1 where r: "bread me 1 b s = Inr (i, s1)" "taken me H (Suc k) b s i s1" using tx_bread [OF t b(1) held H] by blast
  obtain s2 s3 where "log_write i (upd_b i (\<lambda>r. r\<lparr>b_data := f (b_data r)\<rparr>) s1) = Inr s2" "brelse me i s2 = Inr s3"
      "runs me H k ((cview s)(b := f (cview s b))) s s3" "dirty_set s3 = insert b (dirty_set s)"
    using taken_written [OF r(2) b(2)] by blast
  then show ?thesis using r(1) by (auto simp: log_update_def)
qed

end
