(* ===== verification/LogProps.thy ===== *)
theory LogProps
  imports LogTx
begin

text \<open>
  Changes of blocks under the log, and the properties of the file system's transactions: they are
  atomic under crashes, recovery can itself crash, and the room that \<open>begin_op\<close> reserves is one block
  short.
\<close>

lemma log_update_ok:
  assumes s: "log_ok me s" and out: "1 \<le> outstanding s" and b: "b < disksize s" "b \<notin> log_area s"
    and room: "lh_n s < int (l_size s) - 1" "lh_n s < 29"
  shows "\<exists>s'. log_update me 1 b f s = Inr s' \<and> log_ok me s' \<and> cview s' = (cview s)(b := f (cview s b)) \<and>
    dirty_set s' = insert b (dirty_set s) \<and>
    s' = s\<lparr>bufs := bufs s', lru := lru s', lh_n := lh_n s', lh_block := lh_block s'\<rparr>"
proof -
  have t: "tx me {} (Suc 0) s" using s out room by (simp add: tx_def log_ok_at)
  obtain s' where u: "log_update me 1 b f s = Inr s'" "runs me {} 0 ((cview s)(b := f (cview s b))) s s'"
      "dirty_set s' = insert b (dirty_set s)"
    using tx_update [OF t b, of f] by auto
  note r = runsD [OF u(2)]
  show ?thesis using u r(2,3) txD(1) [OF r(1)] unfolding log_ok_at same_log_def by blast
qed

section \<open>File system operations\<close>

text \<open>An operation between \<open>begin_op\<close> and \<open>end_op\<close> that replaces the contents of blocks, in order.\<close>

fun log_updates :: "int \<Rightarrow> (nat \<times> block) list \<Rightarrow> logst \<Rightarrow> logst result" where
  "log_updates me [] s = Inr s"
| "log_updates me ((b, d) # us) s = rbind (log_update me 1 b (\<lambda>_. d) s) (log_updates me us)"

definition fs_op :: "int \<Rightarrow> (nat \<times> block) list \<Rightarrow> logst \<Rightarrow> logst result" where
  "fs_op me us s = rbind (begin_op s) (\<lambda>s1. rbind (log_updates me us s1) (end_op me))"

lemma lh_n_card: "log_ok me s \<Longrightarrow> lh_n s = int (card (dirty_set s))"
  using log_okD(5,8,9) [of me s] by (simp add: distinct_map card_image atLeast0LessThan)

lemma log_updates_ok:
  assumes "log_ok me s" and "1 \<le> outstanding s" and "\<And>b d. (b, d) \<in> set us \<Longrightarrow> b < disksize s \<and> b \<notin> log_area s"
    and "card (dirty_set s \<union> fst ` set us) < min (l_size s) 30"
    and "us \<noteq> [] \<Longrightarrow> card (dirty_set s \<union> fst ` set (butlast us)) < min (l_size s) 30 - 1"
  shows "\<exists>s'. log_updates me us s = Inr s' \<and> log_ok me s' \<and> cview s' = apply_writes us (cview s) \<and>
    dirty_set s' = dirty_set s \<union> fst ` set us \<and>
    s' = s\<lparr>bufs := bufs s', lru := lru s', lh_n := lh_n s', lh_block := lh_block s'\<rparr>"
  using assms
proof (induction us arbitrary: s)
  case (Cons u us)
  obtain b d where u: "u = (b, d)" by (cases u)
  have "card (dirty_set s) \<le> card (dirty_set s \<union> fst ` set (butlast (u # us)))" by (rule card_mono) auto
  then have room: "lh_n s < int (l_size s) - 1" "lh_n s < 29"
    using Cons.prems(5) lh_n_card [OF Cons.prems(1)] by auto
  obtain s1 where r1: "log_update me 1 b (\<lambda>_. d) s = Inr s1" and ok1: "log_ok me s1" and v1: "cview s1 = (cview s)(b := d)"
    and dt1: "dirty_set s1 = insert b (dirty_set s)"
    and e1: "s1 = s\<lparr>bufs := bufs s1, lru := lru s1, lh_n := lh_n s1, lh_block := lh_block s1\<rparr>"
    using log_update_ok [OF Cons.prems(1,2) _ _ room, of b "\<lambda>_. d"] Cons.prems(3) [of b d] by (auto simp: u)
  have l: "outstanding s1 = outstanding s" "disksize s1 = disksize s" "log_area s1 = log_area s" "l_size s1 = l_size s"
    using arg_cong [OF e1, of outstanding] arg_cong [OF e1, of disksize] arg_cong [OF e1, of log_area]
      arg_cong [OF e1, of l_size] by (simp_all add: log_area_def)
  have "card (dirty_set s1 \<union> fst ` set (butlast us)) < min (l_size s1) 30 - 1" if "us \<noteq> []"
    using Cons.prems(5) that by (simp add: u dt1 l)
  then obtain s2 where r2: "log_updates me us s1 = Inr s2" "log_ok me s2" "cview s2 = apply_writes us (cview s1)"
      "dirty_set s2 = dirty_set s1 \<union> fst ` set us"
      "s2 = s1\<lparr>bufs := bufs s2, lru := lru s2, lh_n := lh_n s2, lh_block := lh_block s2\<rparr>"
    using Cons.IH [OF ok1] Cons.prems(2,3,4) by (auto simp: u l dt1)
  have "s2 = s\<lparr>bufs := bufs s2, lru := lru s2, lh_n := lh_n s2, lh_block := lh_block s2\<rparr>"
    by (subst r2(5), subst (1) e1) simp
  then show ?case using r1 r2(1-4) v1 dt1 by (auto simp: u)
qed (auto simp: log_ok_def)

lemma outstanding_fields [simp]:
  "cview (s\<lparr>outstanding := x\<rparr>) = cview s" "dirty_set (s\<lparr>outstanding := x\<rparr>) = dirty_set s"
  "log_ok me (s\<lparr>outstanding := x\<rparr>) = log_ok me s" "log_area (s\<lparr>outstanding := x\<rparr>) = log_area s"
  "cview (s\<lparr>committing := y\<rparr>) = cview s" "dirty_set (s\<lparr>committing := y\<rparr>) = dirty_set s"
  "log_ok me (s\<lparr>committing := y\<rparr>) = log_ok me s" "log_area (s\<lparr>committing := y\<rparr>) = log_area s"
  by (simp_all add: dirty_set_def log_ok_def bc_at_def buf_at_def uniq_bufs_def log_area_def)
    (rule cview_cong; simp)+

text \<open>The disk after a failure of power when \<open>k\<close> of the writes between two states have been made.\<close>

definition crash_disk :: "nat \<Rightarrow> logst \<Rightarrow> logst \<Rightarrow> nat \<Rightarrow> block" where
  "crash_disk k s s' = apply_writes (take k (drop (length (written s)) (written s'))) (disk s)"

lemma commit_writes_view:
  assumes "log_ok me s" and "b \<notin> log_area s"
  shows "apply_writes (commit_writes s) (cview s) b = cview s b"
proof -
  have st: "b \<noteq> l_start s" using assms start_in_area by blast
  have "b \<notin> fst ` set (log_writes s)" using log_writes_area [OF assms(1)] assms(2) by blast
  then have m: "apply_writes (log_writes s) (cview s) b = cview s b" by (rule apply_writes_other)
  have "apply_writes (install_writes s) ((apply_writes (log_writes s) (cview s))(l_start s := head_block s)) b = cview s b"
  proof (cases "b \<in> fst ` set (install_writes s)")
    case True
    then have "apply_writes (install_writes s) ((apply_writes (log_writes s) (cview s))(l_start s := head_block s)) b =
        apply_writes (install_writes s) (disk s) b" by (rule apply_writes_mem)
    then show ?thesis using install_writes_apply [OF assms(1) refl assms(2)] by simp
  next
    case False
    then show ?thesis using m st by (simp add: apply_writes_other)
  qed
  then show ?thesis using st by (simp add: commit_writes_def)
qed

lemma log_ok_commit:
  assumes s: "log_ok me s" and w: "wrote me (commit_writes s) (s\<lparr>lh_n := 0\<rparr>) s'"
  shows "log_ok me s'" and "head_n (l_start s) (disk s') = 0"
proof -
  note l = wrote_log [OF w] and d = wroteD [OF w]
  have "dirty_set s = fst ` set (install_writes s)"
    using log_okD(9) [OF s] by (simp add: install_writes_def image_image atLeast0LessThan)
  then have "dirty_set s \<subseteq> fst ` set (commit_writes s)" by (auto simp: commit_writes_def)
  then have "dirty_set s' = {}" using d(3) by auto
  then show "log_ok me s'" using l d log_okD(2,3,4,6) [OF s] by (simp add: log_ok_def)
  show "head_n (l_start s) (disk s') = 0" using d(5) by (simp add: commit_writes_def put_head_0 head_n_0)
qed

text \<open>Committing the dirty blocks of \<open>s\<close>, in which \<open>lh_n\<close> of them are logged, and crashing in it.\<close>

lemma commit_atomic:
  assumes s: "log_ok me s" and empty: "head_n (l_start s) (disk s) = 0"
  shows "\<exists>s'. commit me s = Inr s' \<and> log_ok me s' \<and> lh_n s' = 0 \<and> outstanding s' = outstanding s \<and>
    log_area s' = log_area s \<and> head_n (l_start s) (disk s') = 0 \<and> (\<forall>b. b \<notin> log_area s \<longrightarrow> cview s' b = cview s b) \<and>
    length (written s) \<le> length (written s') \<and>
    (\<forall>k me'. \<exists>r. boot_log me' (l_start s) (l_size s) (disksize s) (crash_disk k s s') = Inr r \<and>
      (\<forall>b. b \<notin> log_area s \<longrightarrow> disk r b = (if k \<le> nat (lh_n s) then disk s b else cview s b)))"
proof (cases "0 < lh_n s")
  case True
  obtain s' where c: "commit me s = Inr s'" and w: "wrote me (commit_writes s) (s\<lparr>lh_n := 0\<rparr>) s'"
    using commit_ok [OF s True] by blast
  note l = wrote_log [OF w] and d = wroteD [OF w]
  have "\<exists>r. boot_log me' (l_start s) (l_size s) (disksize s) (crash_disk k s s') = Inr r \<and>
      (\<forall>b. b \<notin> log_area s \<longrightarrow> disk r b = (if k \<le> nat (lh_n s) then disk s b else cview s b))" for k me'
  proof -
    have cd: "crash_disk k s s' = apply_writes (take k (commit_writes s)) (disk s)" using d(6) by (simp add: crash_disk_def)
    show ?thesis
      unfolding cd using boot_log_ok [OF crash_commit(1) [OF s True empty]] crash_commit(2) [OF s True empty] by metis
  qed
  then show ?thesis
    using c log_ok_commit [OF s w] l d commit_writes_view [OF s] by (auto simp: log_area_def)
next
  case False
  then have n: "lh_n s = 0" using log_okD(5) [OF s] by simp
  then have dt: "dirty_set s = {}" using log_okD(9) [OF s] by simp
  have v: "cview s b = disk s b" for b by (rule cview_clean [OF log_okD(1) [OF s]]) (simp add: dt)
  have ok: "disk_ok (l_start s) (l_size s) (disksize s) (disk s)"
    by (rule disk_ok_empty [OF empty]) (use log_okD(3,4,6) [OF s] in auto)
  have cd: "crash_disk k s s = disk s" for k by (simp add: crash_disk_def)
  have "b \<noteq> l_start s" if "b \<notin> log_area s" for b using that start_in_area [OF s] by blast
  then have "\<exists>r. boot_log me' (l_start s) (l_size s) (disksize s) (crash_disk k s s) = Inr r \<and>
      (\<forall>b. b \<notin> log_area s \<longrightarrow> disk r b = (if k \<le> nat (lh_n s) then disk s b else cview s b))" for k me'
    using boot_log_ok [OF ok, of me'] by (auto simp: cd empty_log [OF empty] v)
  then show ?thesis using False s n empty by (simp add: commit_def)
qed

section \<open>Properties\<close>

text \<open>
  C2: a file system operation between \<open>begin_op\<close> and \<open>end_op\<close> that changes fewer distinct blocks than
  the log holds is atomic: it returns with all its changes visible and on the disk and the log empty,
  and when power fails after any number of its disk writes, booting from that disk gives either every
  block as before the operation or every block as after it, and the latter as soon as the header is
  written.
\<close>

theorem fs_op_atomic:
  assumes s: "log_ok me s" and idle: "lh_n s = 0" "outstanding s = 0" "\<not> committing s"
    and empty: "head_n (l_start s) (disk s) = 0"
    and us: "\<forall>(b, d) \<in> set us. b < disksize s \<and> b \<notin> log_area s"
    and room: "card (fst ` set us) < min (l_size s) 30 - 1"
  shows "\<exists>s'. fs_op me us s = Inr s' \<and> log_ok me s' \<and> lh_n s' = 0 \<and> outstanding s' = 0 \<and> \<not> committing s' \<and>
    head_n (l_start s) (disk s') = 0 \<and>
    (\<forall>b. b \<notin> log_area s \<longrightarrow> cview s' b = apply_writes us (disk s) b \<and> disk s' b = apply_writes us (disk s) b) \<and>
    (\<forall>k me'. \<exists>r. boot_log me' (l_start s) (l_size s) (disksize s) (crash_disk k s s') = Inr r \<and>
      (\<forall>b. b \<notin> log_area s \<longrightarrow>
        disk r b = (if k \<le> card (fst ` set us) then disk s b else apply_writes us (disk s) b)))"
proof -
  have dt: "dirty_set s = {}" using log_okD(9) [OF s] idle(1) by simp
  have v: "cview s = disk s" using cview_clean [OF log_okD(1) [OF s]] dt by auto
  let ?s1 = "s\<lparr>outstanding := 1\<rparr>"
  have b: "begin_op s = Inr ?s1" using idle by (simp add: begin_op_def)
  have le: "card (fst ` set (butlast us)) \<le> card (fst ` set us)" by (intro card_mono image_mono) (auto dest: in_set_butlastD)
  have "\<exists>s'. log_updates me us ?s1 = Inr s' \<and> log_ok me s' \<and> cview s' = apply_writes us (cview ?s1) \<and>
      dirty_set s' = dirty_set ?s1 \<union> fst ` set us \<and>
      s' = ?s1\<lparr>bufs := bufs s', lru := lru s', lh_n := lh_n s', lh_block := lh_block s'\<rparr>"
  proof (rule log_updates_ok)
    show "b < disksize ?s1 \<and> b \<notin> log_area ?s1" if "(b, d) \<in> set us" for b d using us that by auto
    show "card (dirty_set ?s1 \<union> fst ` set us) < min (l_size ?s1) 30" using room by (auto simp: dt)
    show "card (dirty_set ?s1 \<union> fst ` set (butlast us)) < min (l_size ?s1) 30 - 1" using room le by (simp add: dt)
  qed (use s in simp_all)
  then obtain s2 where r2: "log_updates me us ?s1 = Inr s2" and ok2: "log_ok me s2"
    and v2: "cview s2 = apply_writes us (disk s)" and dt2: "dirty_set s2 = fst ` set us"
    and e2: "s2 = ?s1\<lparr>bufs := bufs s2, lru := lru s2, lh_n := lh_n s2, lh_block := lh_block s2\<rparr>"
    by (metis outstanding_fields(1,2) v dt Un_empty_left)
  have f: "outstanding s2 = 1" "committing s2 = committing s" "disk s2 = disk s" "written s2 = written s"
      "l_start s2 = l_start s" "l_size s2 = l_size s" "disksize s2 = disksize s"
    using arg_cong [OF e2, of outstanding] arg_cong [OF e2, of committing] arg_cong [OF e2, of disk]
      arg_cong [OF e2, of written] arg_cong [OF e2, of l_start] arg_cong [OF e2, of l_size]
      arg_cong [OF e2, of disksize] by simp_all
  have n: "nat (lh_n s2) = card (fst ` set us)" using lh_n_card [OF ok2] dt2 by simp
  let ?s3 = "s2\<lparr>outstanding := 0, committing := True\<rparr>"
  have g: "l_start ?s3 = l_start s" "l_size ?s3 = l_size s" "disksize ?s3 = disksize s" "disk ?s3 = disk s"
      "lh_n ?s3 = lh_n s2" "cview ?s3 = cview s2" "log_area ?s3 = log_area s" "outstanding ?s3 = 0"
    using f by (simp_all add: log_area_def)
  have "log_ok me ?s3" "head_n (l_start ?s3) (disk ?s3) = 0" using ok2 empty f by simp_all
  from commit_atomic [OF this, unfolded g n]
  obtain s4 where c: "commit me ?s3 = Inr s4" "log_ok me s4" "lh_n s4 = 0" "outstanding s4 = 0"
      "head_n (l_start s) (disk s4) = 0" "\<And>b. b \<notin> log_area s \<Longrightarrow> cview s4 b = cview s2 b"
    and crash: "\<And>k me'. \<exists>r. boot_log me' (l_start s) (l_size s) (disksize s) (crash_disk k ?s3 s4) = Inr r \<and>
      (\<forall>b. b \<notin> log_area s \<longrightarrow> disk r b = (if k \<le> card (fst ` set us) then disk s b else cview s2 b))"
    by blast
  let ?s' = "s4\<lparr>committing := False\<rparr>"
  have "end_op me s2 = Inr ?s'" using c(1) f(1,2) idle(3) by (simp add: end_op_def Let_def)
  then have r: "fs_op me us s = Inr ?s'" using b r2 by (simp add: fs_op_def)
  have dt4: "dirty_set s4 = {}" using log_okD(9) [OF c(2)] c(3) by simp
  have d4: "disk s4 b = cview s4 b" for b
    by (rule cview_clean [OF log_okD(1) [OF c(2)], symmetric]) (simp add: dt4)
  have "crash_disk k s ?s' = crash_disk k ?s3 s4" for k using f by (simp add: crash_disk_def)
  then have crash': "\<exists>r. boot_log me' (l_start s) (l_size s) (disksize s) (crash_disk k s ?s') = Inr r \<and>
      (\<forall>b. b \<notin> log_area s \<longrightarrow>
        disk r b = (if k \<le> card (fst ` set us) then disk s b else apply_writes us (disk s) b))" for k me'
    using crash [of me' k] unfolding v2 by (simp only:)
  show ?thesis
    by (intro exI [of _ ?s'] conjI allI impI crash' r) (simp_all add: c d4 v2)
qed

text \<open>A disk of zeros with a log of 30 blocks from block 2 on.\<close>

definition zero_disk :: "nat \<Rightarrow> block" where
  "zero_disk = (\<lambda>_ _. 0)"

lemma zero_disk_log: "head_n 2 zero_disk = 0"
  by (simp add: head_n_def zero_disk_def get32_def)

lemma zero_disk_ok: "disk_ok 2 30 1000 zero_disk"
  by (rule disk_ok_empty [OF zero_disk_log]) simp_all

theorem fs_op_atomic_witness:
  "\<exists>s s' r. boot_log 0 2 30 1000 zero_disk = Inr s \<and> fs_op 0 [(500, \<lambda>_. 7)] s = Inr s' \<and> disk s' 500 = (\<lambda>_. 7) \<and>
    boot_log 0 2 30 1000 (crash_disk 1 s s') = Inr r \<and> disk r 500 = (\<lambda>_. 0)"
proof -
  obtain s where s: "boot_log 0 2 30 1000 zero_disk = Inr s" "log_ok 0 s" "lh_n s = 0" "outstanding s = 0"
      "\<not> committing s" "l_start s = 2" "l_size s = 30" "disksize s = 1000"
      "disk s = zero_disk(2 := put32 (zero_disk 2) 0 0)"
    using boot_log_ok [OF zero_disk_ok, of 0] by (auto simp: empty_log [OF zero_disk_log])
  have h: "head_n (l_start s) (disk s) = 0" by (simp add: s head_n_0)
  have us: "\<forall>(b, d) \<in> set [(500, \<lambda>_. 7)]. b < disksize s \<and> b \<notin> log_area s" by (simp add: s log_area_def)
  have room: "card (fst ` set [(500 :: nat, \<lambda>_ :: nat. 7 :: 8 word)]) < min (l_size s) 30 - 1" by (simp add: s)
  obtain s' where s': "fs_op 0 [(500, \<lambda>_. 7)] s = Inr s'"
      "\<forall>b. b \<notin> log_area s \<longrightarrow> cview s' b = apply_writes [(500, \<lambda>_. 7)] (disk s) b \<and>
        disk s' b = apply_writes [(500, \<lambda>_. 7)] (disk s) b"
      "\<forall>k me'. \<exists>r. boot_log me' (l_start s) (l_size s) (disksize s) (crash_disk k s s') = Inr r \<and>
        (\<forall>b. b \<notin> log_area s \<longrightarrow> disk r b = (if k \<le> card (fst ` set [(500 :: nat, \<lambda>_ :: nat. 7 :: 8 word)]) then disk s b
          else apply_writes [(500, \<lambda>_. 7)] (disk s) b))"
    using fs_op_atomic [OF s(2-5) h us room] by blast
  have a: "500 \<notin> log_area s" by (simp add: s log_area_def)
  obtain r where "boot_log 0 2 30 1000 (crash_disk 1 s s') = Inr r" "disk r 500 = disk s 500"
    using s'(3) a by (force simp: s)
  moreover have "disk s' 500 = (\<lambda>_. 7)" using s'(2) a by simp
  moreover have "disk s 500 = (\<lambda>_. 0)" by (simp add: s(9) zero_disk_def)
  ultimately show ?thesis using s(1) s'(1) by auto
qed

text \<open>The disks that any number of boots, each stopped by a failure of power, can make of \<open>d\<close>.\<close>

inductive crashed :: "int \<Rightarrow> nat \<Rightarrow> nat \<Rightarrow> nat \<Rightarrow> (nat \<Rightarrow> block) \<Rightarrow> (nat \<Rightarrow> block) \<Rightarrow> bool"
  for me start nlog dsz d where
  crashed_start: "crashed me start nlog dsz d d"
| crashed_again: "crashed me start nlog dsz d d' \<Longrightarrow> boot_log me start nlog dsz d' = Inr s \<Longrightarrow>
    crashed me start nlog dsz d (apply_writes (take k (written s)) d')"

lemma crashed_recovers:
  assumes "crashed me start nlog dsz d d'" and "disk_ok start nlog dsz d"
  shows "disk_ok start nlog dsz d' \<and> (\<forall>b. b \<notin> {start..<start + nlog} \<longrightarrow>
    apply_writes (recovery_writes start d') d' b = apply_writes (recovery_writes start d) d b)"
  using assms
proof (induction rule: crashed.induct)
  case (crashed_again d' s k)
  then have ok: "disk_ok start nlog dsz d'" by blast
  have "written s = recovery_writes start d'"
    using boot_log_ok [OF ok, of me] crashed_again.hyps(2) by auto
  then show ?case using crash_recovery [where k = k, OF ok] crashed_again by auto
qed simp

text \<open>
  C13: recovery from the log can itself be interrupted, any number of times and after any of its
  writes: the boot that is not interrupted leaves outside of the log what the first would have left.
\<close>

theorem recovery_restartable:
  assumes "disk_ok start nlog dsz d" and "crashed me start nlog dsz d d'"
  shows "\<exists>s s'. boot_log me start nlog dsz d = Inr s \<and> boot_log me start nlog dsz d' = Inr s' \<and>
    lh_n s' = 0 \<and> (\<forall>b. b \<notin> {start..<start + nlog} \<longrightarrow> disk s' b = disk s b)"
  using boot_log_ok [OF assms(1), of me] boot_log_ok [of start nlog dsz d' me] crashed_recovers [OF assms(2,1)] by auto

text \<open>A disk whose log holds the committed block 500.\<close>

definition logged_disk :: "nat \<Rightarrow> block" where
  "logged_disk = (\<lambda>_ _. 0)(2 := put_head 1 (\<lambda>_. 500) (\<lambda>_. 0), 3 := (\<lambda>_. 9))"

lemma logged_disk_ok: "disk_ok 2 30 1000 logged_disk" "head_n 2 logged_disk = 1" "head_addr 2 logged_disk 0 = 500"
proof -
  show h: "head_n 2 logged_disk = 1" by (simp add: head_n_def logged_disk_def put_head_n)
  show a: "head_addr 2 logged_disk 0 = 500"
    using put_head_block [of 0 1 "\<lambda>_. 500" "\<lambda>_. 0"] by (simp add: head_addr_def logged_disk_def)
  show "disk_ok 2 30 1000 logged_disk" using h a by (simp add: disk_ok_def)
qed

theorem recovery_restartable_witness:
  "\<exists>s s'. boot_log 0 2 30 1000 logged_disk = Inr s \<and>
    boot_log 0 2 30 1000 (apply_writes (take 1 (written s)) logged_disk) = Inr s' \<and> disk s' 500 = (\<lambda>_. 9)"
proof -
  obtain s where s: "boot_log 0 2 30 1000 logged_disk = Inr s" "disk s = apply_writes (recovery_writes 2 logged_disk) logged_disk"
    using boot_log_ok [OF logged_disk_ok(1), of 0] by blast
  have "logged_writes 2 logged_disk = [(500, \<lambda>_. 9)]"
    using logged_disk_ok(2,3) by (simp add: logged_writes_def) (simp add: logged_disk_def)
  then have "disk s 500 = (\<lambda>_. 9)" by (simp add: s(2) recovery_writes_def)
  then show ?thesis
    using recovery_restartable [OF logged_disk_ok(1) crashed_again [OF crashed_start s(1), of 1]] s(1) by auto
qed

text \<open>
  \<open>begin_op\<close> reserves ten blocks for each operation out of 30, but \<open>log_write\<close> has room for 29: three
  operations that run together and change ten different blocks each are all admitted, and the last
  change panics.
\<close>

theorem log_reservation_short:
  assumes s: "log_ok me s" and idle: "lh_n s = 0" "outstanding s = 0" "\<not> committing s" and size: "l_size s = 30"
    and us: "length us = 30" "distinct (map fst us)" "\<forall>(b, d) \<in> set us. b < disksize s \<and> b \<notin> log_area s"
  shows "\<exists>s1 s2 s3 s4. begin_op s = Inr s1 \<and> begin_op s1 = Inr s2 \<and> begin_op s2 = Inr s3 \<and>
    log_updates me (take 29 us) s3 = Inr s4 \<and> log_updates me us s3 = Inl (Panic ''too big a transaction'')"
proof -
  let ?s3 = "s\<lparr>outstanding := 3\<rparr>"
  have dt: "dirty_set s = {}" using log_okD(9) [OF s] idle(1) by simp
  have card: "card (fst ` set (take k us)) = k" if "k \<le> 30" for k
  proof -
    have "distinct (map fst (take k us))" using us(2) by (metis distinct_take take_map)
    then show ?thesis using distinct_card [of "map fst (take k us)"] us(1) that by simp
  qed
  have bl: "butlast (take 29 us) = take 28 us" using us(1) by (simp add: butlast_take)
  have "\<exists>s'. log_updates me (take 29 us) ?s3 = Inr s' \<and> log_ok me s' \<and> cview s' = apply_writes (take 29 us) (cview ?s3) \<and>
      dirty_set s' = dirty_set ?s3 \<union> fst ` set (take 29 us) \<and>
      s' = ?s3\<lparr>bufs := bufs s', lru := lru s', lh_n := lh_n s', lh_block := lh_block s'\<rparr>"
  proof (rule log_updates_ok)
    show "b < disksize ?s3 \<and> b \<notin> log_area ?s3" if "(b, d) \<in> set (take 29 us)" for b d
      using us(3) in_set_takeD [OF that] by auto
  qed (use s in \<open>simp_all add: dt card bl size\<close>)
  then obtain s4 where r4: "log_updates me (take 29 us) ?s3 = Inr s4" and ok4: "log_ok me s4"
    and d4: "dirty_set s4 = fst ` set (take 29 us)"
    and e4: "s4 = ?s3\<lparr>bufs := bufs s4, lru := lru s4, lh_n := lh_n s4, lh_block := lh_block s4\<rparr>"
    by (metis outstanding_fields(2) dt Un_empty_left)
  have f: "l_size s4 = 30" "disksize s4 = disksize s"
    using arg_cong [OF e4, of l_size] arg_cong [OF e4, of disksize] size by simp_all
  have n: "lh_n s4 = 29" using lh_n_card [OF ok4] d4 card [of 29] by simp
  obtain b d where u: "us ! 29 = (b, d)" by (cases "us ! 29")
  then have "(b, d) \<in> set us" using us(1) nth_mem [of 29 us] by simp
  then have b: "b < disksize s4" using us(3) f(2) by auto
  obtain i s5 where r5: "bread me 1 b s4 = Inr (i, s5)" and e5: "s5 = s4\<lparr>bufs := bufs s5\<rparr>"
    using one_bread [OF log_okD(1) [OF ok4] b card_logged [OF ok4]] by metis
  have "lh_n s5 = 29" "l_size s5 = 30"
    using arg_cong [OF e5, of lh_n] arg_cong [OF e5, of l_size] n f by simp_all
  then have "log_update me 1 b (\<lambda>_. d) s4 = Inl (Panic ''too big a transaction'')"
    using r5 by (simp add: log_update_def log_write_def upd_b_def)
  moreover have "log_updates me (xs @ [(b, d)]) s' = rbind (log_updates me xs s') (log_update me 1 b (\<lambda>_. d))" for xs s'
  proof (induction xs arbitrary: s')
    case (Cons x xs)
    then show ?case by (cases x) (simp add: rbind_assoc fun_eq_iff [symmetric] cong: rbind_cong)
  next
    case Nil
    then show ?case by (cases "log_update me 1 b (\<lambda>_. d) s'") simp_all
  qed
  moreover have "us = take 29 us @ [(b, d)]"
    using u us(1) take_Suc_conv_app_nth [of 29 us] by simp
  ultimately have "log_updates me us ?s3 = Inl (Panic ''too big a transaction'')" using r4 by (metis rbind_Inr)
  then show ?thesis using r4 idle by (intro exI [of _ "s\<lparr>outstanding := 1\<rparr>"] exI [of _ "s\<lparr>outstanding := 2\<rparr>"]
      exI [of _ ?s3] exI [of _ s4]) (simp add: begin_op_def)
qed

theorem log_reservation_short_witness:
  "\<exists>s s3. boot_log 0 2 30 1000 zero_disk = Inr s \<and>
    log_updates 0 (map (\<lambda>b. (b, \<lambda>_. 1)) [500..<530]) s3 = Inl (Panic ''too big a transaction'')"
proof -
  obtain s where s: "boot_log 0 2 30 1000 zero_disk = Inr s" "log_ok 0 s" "lh_n s = 0" "outstanding s = 0"
      "\<not> committing s" "l_start s = 2" "l_size s = 30" "disksize s = 1000"
    using boot_log_ok [OF zero_disk_ok, of 0] by auto
  have "\<forall>(b, d) \<in> set (map (\<lambda>b. (b, (\<lambda>_. 1) :: block)) [500..<530]). b < disksize s \<and> b \<notin> log_area s"
    by (auto simp: s log_area_def)
  then show ?thesis
    using log_reservation_short [OF s(2-5,7), of "map (\<lambda>b. (b, \<lambda>_. 1)) [500..<530]"] s(1)
    by (auto simp: o_def)
qed

end
