(* ===== verification/Ring.thy ===== *)
theory Ring
  imports Prelude
begin

text \<open>
  Ring buffers indexed by counters that wrap at \<open>2 ^ 32\<close>, as pipes and the console have them: when the
  size divides \<open>2 ^ 32\<close> the cell of a counter does not depend on the wrap.
\<close>

definition cell :: "nat \<Rightarrow> u32 \<Rightarrow> nat" where
  "cell N c = unat c mod N"

lemma cell_add:
  assumes "N dvd 2 ^ 32"
  shows "cell N (c + of_nat k) = (cell N c + k) mod N"
proof -
  have "unat (c + of_nat k) = (unat c + k) mod 2 ^ 32"
    by (simp add: unat_word_ariths unsigned_of_nat take_bit_eq_mod mod_simps)
  then have "unat (c + of_nat k) mod N = (unat c + k) mod N"
    using mod_mod_cancel [OF assms, of "unat c + k"] by simp
  then show ?thesis by (simp add: cell_def mod_simps)
qed

lemma mod_cancel_small:
  fixes j k s :: nat
  assumes "(s + j) mod N = (s + k) mod N" and "j < N" and "k < N"
  shows "j = k"
proof -
  have "j = k" if "(s + j) mod N = (s + k) mod N" "j \<le> k" "k < N" for j k
  proof -
    have "N dvd (s + k) - (s + j)" using that(1,2) mod_eq_dvd_iff_nat [of "s + j" "s + k" N] by simp
    then have "N dvd k - j" by simp
    then show "j = k" using that(2,3) by (auto dest: dvd_imp_le)
  qed
  from this [of j k] this [of k j] show ?thesis using assms by (cases "j \<le> k") simp_all
qed

lemma cell_distinct:
  assumes "N dvd 2 ^ 32" and "j < N" and "k < N" and "j \<noteq> k"
  shows "cell N (c + of_nat j) \<noteq> cell N (c + of_nat k)"
  using mod_cancel_small [of "cell N c" j N k] assms by (auto simp: cell_add)

text \<open>The \<open>n\<close> bytes from counter \<open>c\<close> on.\<close>

definition stretch :: "nat \<Rightarrow> (nat \<Rightarrow> 'a) \<Rightarrow> u32 \<Rightarrow> nat \<Rightarrow> 'a list" where
  "stretch N b c n = map (\<lambda>k. b (cell N (c + of_nat k))) [0..<n]"

lemma length_stretch [simp]: "length (stretch N b c n) = n"
  by (simp add: stretch_def)

lemma stretch_0 [simp]: "stretch N b c 0 = []"
  by (simp add: stretch_def)

lemma stretch_add: "stretch N b c (m + n) = stretch N b c m @ stretch N b (c + of_nat m) n"
proof -
  have "[0..<m + n] = [0..<m] @ map (\<lambda>k. m + k) [0..<n]"
    using map_add_upt [of m n] upt_add_eq_append [of 0 m n] by (simp add: add.commute)
  then show ?thesis by (simp add: stretch_def o_def add.assoc)
qed

lemma stretch_Suc: "stretch N b c (Suc n) = stretch N b c n @ [b (cell N (c + of_nat n))]"
  by (simp add: stretch_def)

lemma stretch_Cons: "stretch N b c (Suc n) = b (cell N c) # stretch N b (c + 1) n"
  using stretch_add [of N b c 1 n] by (simp add: stretch_def)

lemma stretch_upd:
  assumes "N dvd 2 ^ 32" and "n \<le> m" and "m < N"
  shows "stretch N (b(cell N (c + of_nat m) := v)) c n = stretch N b c n"
  using cell_distinct [OF assms(1)] assms(2,3) by (auto simp: stretch_def)

end
