(* ===== verification/Pipe.thy ===== *)
theory Pipe
  imports Ring
begin

text \<open>
  Pipes (\<open>pipe.c\<close>). A call of \<open>pipewrite\<close> or \<open>piperead\<close> is modelled up to its return or its next call of
  \<open>sleep\<close>, under the lock of the pipe. The counters of the bytes read and written are 32-bit words that
  wrap; because 512 divides \<open>2 ^ 32\<close> the place of a byte in the ring does not depend on the wrap.
\<close>

record pipe =
  p_data :: "nat \<Rightarrow> 8 word"
  nread :: u32
  nwrite :: u32
  readopen :: bool
  writeopen :: bool

text \<open>
  How a call ends: it returns, it fails with -1, or it goes to sleep. A write also gives the bytes that
  it has not written, and whether it has woken the readers; a read gives the bytes.
\<close>

datatype outcome = Returns | Fails | Sleeps

definition slot :: "u32 \<Rightarrow> nat" where
  "slot c = unat (c mod 512)"

definition empty_pipe :: pipe where
  "empty_pipe = \<lparr>p_data = (\<lambda>_. 0), nread = 0, nwrite = 0, readopen = True, writeopen = True\<rparr>"

text \<open>The initialisation in \<open>pipealloc\<close>, of a page with any contents.\<close>

definition init_pipe :: "pipe \<Rightarrow> pipe" where
  "init_pipe p = p\<lparr>readopen := True, writeopen := True, nwrite := 0, nread := 0\<rparr>"

fun pipewrite :: "bool \<Rightarrow> 8 word list \<Rightarrow> pipe \<Rightarrow> outcome \<times> bool \<times> 8 word list \<times> pipe" where
  "pipewrite killed [] p = (Returns, True, [], p)"
| "pipewrite killed (b # bs) p =
     (if nwrite p = nread p + 512
      then if \<not> readopen p \<or> killed then (Fails, False, b # bs, p) else (Sleeps, True, b # bs, p)
      else pipewrite killed bs (p\<lparr>p_data := (p_data p)(slot (nwrite p) := b), nwrite := nwrite p + 1\<rparr>))"

fun read_bytes :: "nat \<Rightarrow> pipe \<Rightarrow> 8 word list \<times> pipe" where
  "read_bytes 0 p = ([], p)"
| "read_bytes (Suc n) p =
     (if nread p = nwrite p then ([], p)
      else (case read_bytes n (p\<lparr>nread := nread p + 1\<rparr>) of
              (bs, q) \<Rightarrow> (p_data p (slot (nread p)) # bs, q)))"

definition piperead :: "bool \<Rightarrow> nat \<Rightarrow> pipe \<Rightarrow> outcome \<times> bool \<times> 8 word list \<times> pipe" where
  "piperead killed n p =
     (if nread p = nwrite p \<and> writeopen p
      then if killed then (Fails, False, [], p) else (Sleeps, False, [], p)
      else (case read_bytes n p of (bs, q) \<Rightarrow> (Returns, True, bs, q)))"

text \<open>\<open>pipeclose\<close>: the flag says whether both ends are closed and the page of the pipe is freed.\<close>

definition pipeclose :: "bool \<Rightarrow> pipe \<Rightarrow> bool \<times> pipe" where
  "pipeclose writable p =
     (let q = (if writable then p\<lparr>writeopen := False\<rparr> else p\<lparr>readopen := False\<rparr>) in
      (\<not> readopen q \<and> \<not> writeopen q, q))"

section \<open>The bytes in the pipe\<close>

definition in_pipe :: "pipe \<Rightarrow> nat" where
  "in_pipe p = unat (nwrite p - nread p)"

definition contents :: "pipe \<Rightarrow> 8 word list" where
  "contents p = map (\<lambda>k. p_data p (slot (nread p + of_nat k))) [0..<in_pipe p]"

definition pipe_ok :: "pipe \<Rightarrow> bool" where
  "pipe_ok p \<longleftrightarrow> in_pipe p \<le> 512"

lemma length_contents [simp]: "length (contents p) = in_pipe p"
  by (simp add: contents_def)

lemma slot_cell: "slot c = cell 512 c"
  by (simp add: slot_def cell_def unat_mod)

text \<open>Different bytes in the pipe have different places.\<close>

lemma slot_distinct:
  assumes "j < 512" and "k < 512" and "j \<noteq> k"
  shows "slot (c + of_nat j) \<noteq> slot (c + of_nat k)"
  unfolding slot_cell by (rule cell_distinct [OF _ assms]) simp

lemma full_iff:
  assumes "pipe_ok p"
  shows "nwrite p = nread p + 512 \<longleftrightarrow> in_pipe p = 512"
proof -
  have "in_pipe p = 512 \<longleftrightarrow> nwrite p - nread p = 512"
    by (simp add: in_pipe_def word_unat_eq_iff)
  then show ?thesis by (auto simp: algebra_simps)
qed

lemma empty_iff: "nread p = nwrite p \<longleftrightarrow> in_pipe p = 0"
  by (auto simp: in_pipe_def unat_eq_0)

section \<open>Writing and reading\<close>

lemma contents_write:
  fixes b :: "8 word"
  assumes ok: "pipe_ok p" and room: "nwrite p \<noteq> nread p + 512"
  defines "q \<equiv> p\<lparr>p_data := (p_data p)(slot (nwrite p) := b), nwrite := nwrite p + 1\<rparr>"
  shows "contents q = contents p @ [b]" and "pipe_ok q"
proof -
  have lt: "in_pipe p < 512" using ok room full_iff [OF ok] by (simp add: pipe_ok_def)
  have n: "in_pipe q = Suc (in_pipe p)"
  proof -
    have "nwrite q - nread q = (nwrite p - nread p) + 1" by (simp add: q_def algebra_simps)
    moreover have "unat (nwrite p - nread p) + unat (1 :: u32) < 2 ^ LENGTH(32)"
      using lt by (simp add: in_pipe_def)
    ultimately show ?thesis
      using unat_add_lem [THEN iffD1, of "nwrite p - nread p" "1 :: u32"] by (simp add: in_pipe_def)
  qed
  have w: "nwrite p = nread p + of_nat (in_pipe p)" by (simp add: in_pipe_def)
  have "p_data q (slot (nread p + of_nat k)) = p_data p (slot (nread p + of_nat k))" if "k < in_pipe p" for k
    using slot_distinct [of k "in_pipe p" "nread p"] that lt w by (simp add: q_def)
  moreover have "p_data q (slot (nread p + of_nat (in_pipe p))) = b" using w by (simp add: q_def)
  ultimately show "contents q = contents p @ [b]" by (simp add: contents_def n) (simp add: q_def)
  show "pipe_ok q" using lt n by (simp add: pipe_ok_def)
qed

lemma contents_read:
  assumes ok: "pipe_ok p" and ne: "nread p \<noteq> nwrite p"
  defines "q \<equiv> p\<lparr>nread := nread p + 1\<rparr>"
  shows "contents p = p_data p (slot (nread p)) # contents q" and "pipe_ok q"
proof -
  have pos: "0 < in_pipe p" using ne empty_iff by auto
  have n: "in_pipe p = Suc (in_pipe q)"
  proof -
    have "nwrite q - nread q = (nwrite p - nread p) - 1" by (simp add: q_def algebra_simps)
    moreover have "nwrite p - nread p \<noteq> 0" using pos by (auto simp: in_pipe_def)
    ultimately show ?thesis using pos unat_minus_one [of "nwrite p - nread p"] by (simp add: in_pipe_def)
  qed
  have "contents p = p_data p (slot (nread p)) # map (\<lambda>k. p_data p (slot (nread p + of_nat (Suc k)))) [0..<in_pipe q]"
    unfolding contents_def n by (subst upt_conv_Cons) (simp_all add: map_Suc_upt [symmetric] o_def del: upt_Suc map_Suc_upt)
  then show "contents p = p_data p (slot (nread p)) # contents q"
    by (simp add: contents_def q_def algebra_simps)
  show "pipe_ok q" using ok n by (simp add: pipe_ok_def)
qed

text \<open>A write puts the bytes that it takes behind those in the pipe; it sleeps or fails only on a full pipe.\<close>

lemma pipewrite_spec:
  assumes "pipe_ok p" and "pipewrite killed bs p = (out, woke, rest, q)"
  shows "\<exists>done. bs = done @ rest \<and> contents q = contents p @ done" and "pipe_ok q"
    and "readopen q = readopen p" and "writeopen q = writeopen p" and "nread q = nread p"
    and "out = Returns \<Longrightarrow> rest = [] \<and> woke" and "out = Sleeps \<Longrightarrow> woke \<and> in_pipe q = 512 \<and> readopen p \<and> rest \<noteq> []"
    and "out = Fails \<Longrightarrow> in_pipe q = 512 \<and> (\<not> readopen p \<or> killed)"
proof -
  have "(\<exists>done. bs = done @ rest \<and> contents q = contents p @ done) \<and> pipe_ok q \<and>
    readopen q = readopen p \<and> writeopen q = writeopen p \<and> nread q = nread p \<and>
    (out = Returns \<longrightarrow> rest = [] \<and> woke) \<and> (out = Sleeps \<longrightarrow> woke \<and> in_pipe q = 512 \<and> readopen p \<and> rest \<noteq> []) \<and>
    (out = Fails \<longrightarrow> in_pipe q = 512 \<and> (\<not> readopen p \<or> killed))"
    using assms
  proof (induction killed bs p rule: pipewrite.induct)
    case (2 killed b bs p)
    show ?case
    proof (cases "nwrite p = nread p + 512")
      case True
      then show ?thesis using 2(2,3) full_iff [OF 2(2)] by (auto split: if_splits)
    next
      case False
      let ?p = "p\<lparr>p_data := (p_data p)(slot (nwrite p) := b), nwrite := nwrite p + 1\<rparr>"
      note c = contents_write [OF 2(2) False, of b]
      have r: "pipewrite killed bs ?p = (out, woke, rest, q)" using 2(3) False by simp
      obtain ds where "bs = ds @ rest" "contents q = contents ?p @ ds" using 2(1) [OF False c(2) r] by blast
      then have "b # bs = (b # ds) @ rest \<and> contents q = contents p @ (b # ds)" using c(1) by simp
      then have "\<exists>ds. b # bs = ds @ rest \<and> contents q = contents p @ ds" by blast
      then show ?thesis using 2(1) [OF False c(2) r] by simp
    qed
  qed auto
  then show "\<exists>done. bs = done @ rest \<and> contents q = contents p @ done" and "pipe_ok q"
    and "readopen q = readopen p" and "writeopen q = writeopen p" and "nread q = nread p"
    and "out = Returns \<Longrightarrow> rest = [] \<and> woke" and "out = Sleeps \<Longrightarrow> woke \<and> in_pipe q = 512 \<and> readopen p \<and> rest \<noteq> []"
    and "out = Fails \<Longrightarrow> in_pipe q = 512 \<and> (\<not> readopen p \<or> killed)" by blast+
qed

lemma read_bytes_spec:
  assumes "pipe_ok p" and "read_bytes n p = (bs, q)"
  shows "contents p = bs @ contents q \<and> pipe_ok q \<and> readopen q = readopen p \<and> writeopen q = writeopen p \<and>
    length bs = min n (in_pipe p)"
  using assms
proof (induction n p arbitrary: bs q rule: read_bytes.induct)
  case (1 p)
  then show ?case by simp
next
  case (2 n p)
  show ?case
  proof (cases "nread p = nwrite p")
    case True
    then show ?thesis using 2(2,3) empty_iff [of p] by auto
  next
    case False
    obtain cs r where r: "read_bytes n (p\<lparr>nread := nread p + 1\<rparr>) = (cs, r)" by fastforce
    note c = contents_read [OF 2(2) False]
    note ih = 2(1) [OF False c(2) r]
    have "in_pipe p = Suc (in_pipe (p\<lparr>nread := nread p + 1\<rparr>))" using arg_cong [OF c(1), of length] by simp
    moreover have "bs = p_data p (slot (nread p)) # cs" "q = r" using 2(3) False r by simp_all
    ultimately show ?thesis using ih c(1) by simp
  qed
qed

end
