(* ===== verification/PipeProps.thy ===== *)
theory PipeProps
  imports Pipe
begin

text \<open>
  The contract of a byte queue, which the pipe provides, and a system of one writing and one reading
  process that sleep and wake each other.
\<close>

section \<open>Queues of bytes\<close>

datatype 'b event = Put "'b list" | Get nat

text \<open>A sequence of calls: what was taken from the writers, what the readers got, and the last state.\<close>

fun run_events :: "('b list \<Rightarrow> 's \<Rightarrow> 'b list \<times> 's) \<Rightarrow> (nat \<Rightarrow> 's \<Rightarrow> 'b list \<times> 's) \<Rightarrow> 'b event list \<Rightarrow> 's \<Rightarrow>
    'b list \<times> 'b list \<times> 's" where
  "run_events put get [] s = ([], [], s)"
| "run_events put get (Put bs # es) s =
     (case put bs s of (rest, s1) \<Rightarrow>
        (case run_events put get es s1 of (took, got, s2) \<Rightarrow>
           (List.take (length bs - length rest) bs @ took, got, s2)))"
| "run_events put get (Get n # es) s =
     (case get n s of (bs, s1) \<Rightarrow>
        (case run_events put get es s1 of (took, got, s2) \<Rightarrow> (took, bs @ got, s2)))"

locale fifo =
  fixes view :: "'s \<Rightarrow> 'b list" and okay :: "'s \<Rightarrow> bool"
    and put :: "'b list \<Rightarrow> 's \<Rightarrow> 'b list \<times> 's" and get :: "nat \<Rightarrow> 's \<Rightarrow> 'b list \<times> 's"
  assumes put_law: "okay s \<Longrightarrow> put bs s = (rest, s') \<Longrightarrow> okay s' \<and> (\<exists>d. bs = d @ rest \<and> view s' = view s @ d)"
    and get_law: "okay s \<Longrightarrow> get n s = (bs, s') \<Longrightarrow> okay s' \<and> view s = bs @ view s'"
begin

lemma history:
  assumes "okay s" and "run_events put get es s = (took, got, s')"
  shows "okay s' \<and> view s @ took = got @ view s'"
  using assms
proof (induction es arbitrary: s took got s')
  case (Cons e es)
  show ?case
  proof (cases e)
    case (Put bs)
    obtain rest s1 where p: "put bs s = (rest, s1)" by fastforce
    obtain t g where r: "run_events put get es s1 = (t, g, s')" "took = List.take (length bs - length rest) bs @ t" "got = g"
      using Cons.prems(2) p Put by (auto split: prod.splits)
    obtain d where d: "okay s1" "bs = d @ rest" "view s1 = view s @ d" using put_law [OF Cons.prems(1) p] by blast
    then show ?thesis using Cons.IH [OF d(1) r(1)] r(2,3) by simp
  next
    case (Get n)
    obtain bs s1 where p: "get n s = (bs, s1)" by fastforce
    obtain t g where r: "run_events put get es s1 = (t, g, s')" "took = t" "got = bs @ g"
      using Cons.prems(2) p Get by (auto split: prod.splits)
    have "okay s1" "view s = bs @ view s1" using get_law [OF Cons.prems(1) p] by blast+
    then show ?thesis using Cons.IH [OF _ r(1)] r(2,3) by simp
  qed
qed auto

end

definition pipe_put :: "bool \<Rightarrow> 8 word list \<Rightarrow> pipe \<Rightarrow> 8 word list \<times> pipe" where
  "pipe_put killed bs p = (case pipewrite killed bs p of (_, _, rest, q) \<Rightarrow> (rest, q))"

definition pipe_get :: "bool \<Rightarrow> nat \<Rightarrow> pipe \<Rightarrow> 8 word list \<times> pipe" where
  "pipe_get killed n p = (case piperead killed n p of (_, _, bs, q) \<Rightarrow> (bs, q))"

interpretation pipe_queue: fifo contents pipe_ok "pipe_put killed" "pipe_get killed'" for killed killed'
proof
  fix s bs rest s' assume ok: "pipe_ok s" and "pipe_put killed bs s = (rest, s')"
  then obtain out woke where "pipewrite killed bs s = (out, woke, rest, s')"
    by (auto simp: pipe_put_def split: prod.splits)
  then show "pipe_ok s' \<and> (\<exists>d. bs = d @ rest \<and> contents s' = contents s @ d)"
    using pipewrite_spec(1,2) [OF ok] by blast
next
  fix s n bs s' assume ok: "pipe_ok s" and "pipe_get killed' n s = (bs, s')"
  then show "pipe_ok s' \<and> contents s = bs @ contents s'"
    using read_bytes_spec [OF ok] by (auto simp: pipe_get_def piperead_def split: prod.splits if_splits)
qed

section \<open>A writer and a reader\<close>

text \<open>A process is outside the call, or runs it with this argument, or sleeps in it.\<close>

datatype 'a caller = Idle | Runs 'a | Asleep 'a

record pipesys =
  the_pipe :: pipe
  writer :: "8 word list caller"
  reader :: "nat caller"
  sent :: "8 word list"
  received :: "8 word list"

fun woken :: "'a caller \<Rightarrow> 'a caller" where
  "woken (Asleep a) = Runs a"
| "woken c = c"


text \<open>
  The steps: a call on an open end, its run up to the return or the next \<open>sleep\<close> with the wake-ups that
  it makes, and the closing of an end by a process that is outside its call. No process is killed.
\<close>

inductive pipe_step :: "pipesys \<Rightarrow> pipesys \<Rightarrow> bool" where
  write_call: "writer s = Idle \<Longrightarrow> writeopen (the_pipe s) \<Longrightarrow> pipe_step s (s\<lparr>writer := Runs bs\<rparr>)"
| write_run: "writer s = Runs bs \<Longrightarrow> pipewrite False bs (the_pipe s) = (out, woke, rest, q) \<Longrightarrow>
    pipe_step s (s\<lparr>the_pipe := q, writer := (if out = Sleeps then Asleep rest else Idle),
      reader := (if woke then woken (reader s) else reader s),
      sent := sent s @ take (length bs - length rest) bs\<rparr>)"
| read_call: "reader s = Idle \<Longrightarrow> readopen (the_pipe s) \<Longrightarrow> pipe_step s (s\<lparr>reader := Runs n\<rparr>)"
| read_run: "reader s = Runs n \<Longrightarrow> piperead False n (the_pipe s) = (out, woke, bs, q) \<Longrightarrow>
    pipe_step s (s\<lparr>the_pipe := q, reader := (if out = Sleeps then Asleep n else Idle),
      writer := (if woke then woken (writer s) else writer s), received := received s @ bs\<rparr>)"
| close_writer: "writer s = Idle \<Longrightarrow> writeopen (the_pipe s) \<Longrightarrow>
    pipe_step s (s\<lparr>the_pipe := snd (pipeclose True (the_pipe s)), reader := woken (reader s)\<rparr>)"
| close_reader: "reader s = Idle \<Longrightarrow> readopen (the_pipe s) \<Longrightarrow>
    pipe_step s (s\<lparr>the_pipe := snd (pipeclose False (the_pipe s)), writer := woken (writer s)\<rparr>)"


inductive_cases pipe_stepE: "pipe_step s s'"


lemma woken_not_asleep: "woken c \<noteq> Asleep a"
  by (cases c) auto

lemma woken_Idle [simp]: "woken c = Idle \<longleftrightarrow> c = Idle"
  by (cases c) auto

lemma woken_Asleep [simp]: "woken c = Asleep a \<longleftrightarrow> False"
  by (simp add: woken_not_asleep)




section \<open>Properties\<close>

text \<open>
  C24: a pipe is a first-in first-out queue of at most 512 bytes for any sequence of reads and writes
  and any wrap of its counters: what the reads got and what is left in the pipe is what was in it
  before and what the writes have taken, in order.
\<close>

theorem pipe_is_fifo:
  assumes "pipe_ok p" and "run_events (pipe_put killed) (pipe_get killed') es p = (took, got, q)"
  shows "contents p @ took = got @ contents q \<and> length (contents q) \<le> 512"
  using pipe_queue.history [OF assms] by (simp add: pipe_ok_def)

lemma read_bytes_numeral:
  "read_bytes (numeral k) p = (if nread p = nwrite p then ([], p)
     else (case read_bytes (pred_numeral k) (p\<lparr>nread := nread p + 1\<rparr>) of (bs, q) \<Rightarrow> (p_data p (slot (nread p)) # bs, q)))"
  by (simp add: numeral_eq_Suc)

theorem pipe_is_fifo_witness:
  "\<exists>q. run_events (pipe_put False) (pipe_get False) [Put [1, 2], Get (Suc 0), Put [3], Get 5]
      (empty_pipe\<lparr>nread := -1, nwrite := -1\<rparr>) = ([1, 2, 3], [1, 2, 3], q) \<and> contents q = []"
proof -
  let ?p = "empty_pipe\<lparr>nread := -1, nwrite := -1\<rparr>"
  obtain q where r: "run_events (pipe_put False) (pipe_get False) [Put [1, 2], Get (Suc 0), Put [3], Get 5] ?p =
      ([1, 2, 3], [1, 2, 3], q)"
    by (simp add: pipe_put_def pipe_get_def piperead_def empty_pipe_def slot_def read_bytes_numeral)
  have "pipe_ok ?p" "contents ?p = []" by (simp_all add: pipe_ok_def in_pipe_def contents_def)
  then show ?thesis using pipe_is_fifo [OF _ r] r by auto
qed



text \<open>
  The exception that the steps leave out: a writer that is killed while it fills the pipe fails without
  waking the reader.
\<close>

lemma pipe_killed_writer: "pipe_ok p \<Longrightarrow> in_pipe p = 512 \<Longrightarrow> pipewrite True (b # bs) p = (Fails, False, b # bs, p)"
  using full_iff by simp

end
