(* ===== verification/Grep.thy ===== *)
theory Grep
  imports Prelude
begin

text \<open>
  The user program \<open>grep.c\<close> with \<open>strchr\<close> of \<open>ulib.c\<close>. A string of C is the list of its characters
  before the NUL; the buffer of \<open>grep\<close> is the list of the bytes that are in use. The calls of \<open>read\<close>
  return what an argument says: a list of numbers of bytes, one for each call, cut to the room in the
  buffer and to what is left of the input.
\<close>

section \<open>The matcher\<close>

function matchhere :: "string \<Rightarrow> string \<Rightarrow> bool" and matchstar :: "char \<Rightarrow> string \<Rightarrow> string \<Rightarrow> bool" where
  "matchhere re text =
     (case re of
        [] \<Rightarrow> True
      | r # re1 \<Rightarrow>
          if re1 \<noteq> [] \<and> hd re1 = CHR ''*'' then matchstar r (tl re1) text
          else if r = CHR ''$'' \<and> re1 = [] then text = []
          else if text \<noteq> [] \<and> (r = CHR ''.'' \<or> r = hd text) then matchhere re1 (tl text)
          else False)"
| "matchstar c re text =
     (if matchhere re text then True
      else if text \<noteq> [] \<and> (hd text = c \<or> c = CHR ''.'') then matchstar c re (tl text)
      else False)"
  by pat_completeness auto
termination
  by (relation "measure (\<lambda>x. case x of Inl (re, text) \<Rightarrow> 2 * (length re + length text)
      | Inr (c, re, text) \<Rightarrow> 2 * (length re + length text) + 1)") (auto simp: neq_Nil_conv)

declare matchhere.simps [simp del] matchstar.simps [simp del]

fun match_from :: "string \<Rightarrow> string \<Rightarrow> bool" where
  "match_from re text =
     (if matchhere re text then True else (case text of [] \<Rightarrow> False | _ # text1 \<Rightarrow> match_from re text1))"

declare match_from.simps [simp del]

definition match :: "string \<Rightarrow> string \<Rightarrow> bool" where
  "match re text =
     (if re \<noteq> [] \<and> hd re = CHR ''^'' then matchhere (tl re) text else match_from re text)"

section \<open>Lines\<close>

fun strchr :: "string \<Rightarrow> char \<Rightarrow> nat option" where
  "strchr [] c = None"
| "strchr (x # s) c = (if x = CHR 0x00 then None else if x = c then Some 0 else map_option Suc (strchr s c))"

lemma strchr_Some:
  "strchr s c = Some i \<Longrightarrow> i < length s \<and> s ! i = c \<and> c \<notin> set (take i s)"
  by (induction s arbitrary: i) (auto split: if_splits)

text \<open>The inner loop of \<open>grep\<close>: the lines that are written, and the rest of the buffer.\<close>

function grep_lines :: "string \<Rightarrow> string \<Rightarrow> string \<times> string" where
  "grep_lines pattern p =
     (case strchr p (CHR 0x0A) of
        None \<Rightarrow> ([], p)
      | Some i \<Rightarrow>
          (case grep_lines pattern (drop (i + 1) p) of
             (out, rest) \<Rightarrow> ((if match pattern (take i p) then take (i + 1) p else []) @ out, rest)))"
  by pat_completeness auto
termination by (relation "measure (\<lambda>(pattern, p). length p)") (auto dest: strchr_Some)

declare grep_lines.simps [simp del]

text \<open>
  The outer loop: \<open>m\<close> bytes are left in the buffer of 1024. When the buffer has no complete line all
  of it is thrown away.
\<close>

fun grep :: "string \<Rightarrow> nat list \<Rightarrow> string \<Rightarrow> string \<Rightarrow> string" where
  "grep pattern [] buf input = []"
| "grep pattern (n # ns) buf input =
     (let k = min n (1024 - length buf - 1); chunk = take k input in
      if chunk = [] then []
      else
        let b = buf @ chunk in
        (case grep_lines pattern b of
           (out, p) \<Rightarrow> out @ grep pattern ns (if length p = length b then [] else p) (drop k input)))"

section \<open>Patterns and their languages\<close>

text \<open>A piece of a pattern is a character, or any for \<open>.\<close>, once or any number of times.\<close>

datatype piece = Once "char option" | Many "char option"

definition sym :: "char \<Rightarrow> char option" where
  "sym c = (if c = CHR ''.'' then None else Some c)"

definition sym_set :: "char option \<Rightarrow> char set" where
  "sym_set v = (case v of None \<Rightarrow> UNIV | Some c \<Rightarrow> {c})"

fun pieces :: "string \<Rightarrow> piece list \<times> bool" where
  "pieces [] = ([], False)"
| "pieces [c] = (if c = CHR ''$'' then ([], True) else ([Once (sym c)], False))"
| "pieces (c # d # re) =
     (if d = CHR ''*'' then (case pieces re of (ps, e) \<Rightarrow> (Many (sym c) # ps, e))
      else (case pieces (d # re) of (ps, e) \<Rightarrow> (Once (sym c) # ps, e)))"

fun piece_lang :: "piece \<Rightarrow> string set" where
  "piece_lang (Once v) = {[c] | c. c \<in> sym_set v}"
| "piece_lang (Many v) = {u. set u \<subseteq> sym_set v}"

fun pieces_lang :: "piece list \<Rightarrow> string set" where
  "pieces_lang [] = {[]}"
| "pieces_lang (p # ps) = {u @ v | u v. u \<in> piece_lang p \<and> v \<in> pieces_lang ps}"

text \<open>A text starts with a word of the language, up to its end when the pattern ends with \<open>$\<close>.\<close>

definition starts_with :: "piece list \<times> bool \<Rightarrow> string \<Rightarrow> bool" where
  "starts_with pe t \<longleftrightarrow> (\<exists>u v. t = u @ v \<and> u \<in> pieces_lang (fst pe) \<and> (snd pe \<longrightarrow> v = []))"

lemma starts_with_Nil: "starts_with ([], e) t \<longleftrightarrow> (e \<longrightarrow> t = [])"
  by (simp add: starts_with_def)

lemma starts_with_Cons:
  "starts_with (p # ps, e) t \<longleftrightarrow> (\<exists>u t1. t = u @ t1 \<and> u \<in> piece_lang p \<and> starts_with (ps, e) t1)"
proof
  assume "starts_with (p # ps, e) t"
  then obtain x v where "t = x @ v" "x \<in> pieces_lang (p # ps)" and v: "e \<longrightarrow> v = []"
    by (auto simp: starts_with_def)
  then obtain u w where "t = u @ w @ v" "u \<in> piece_lang p" "w \<in> pieces_lang ps" by auto
  with v show "\<exists>u t1. t = u @ t1 \<and> u \<in> piece_lang p \<and> starts_with (ps, e) t1"
    by (intro exI [of _ u] exI [of _ "w @ v"]) (auto simp: starts_with_def)
next
  assume "\<exists>u t1. t = u @ t1 \<and> u \<in> piece_lang p \<and> starts_with (ps, e) t1"
  then obtain u w v where "t = u @ w @ v" "u \<in> piece_lang p" "w \<in> pieces_lang ps" "e \<longrightarrow> v = []"
    by (auto simp: starts_with_def)
  then have "t = (u @ w) @ v" "u @ w \<in> pieces_lang (p # ps)" "e \<longrightarrow> v = []" by auto
  then show "starts_with (p # ps, e) t" unfolding starts_with_def by (metis fst_conv snd_conv)
qed

lemma starts_with_Once:
  "starts_with (Once v # ps, e) t \<longleftrightarrow> (t \<noteq> [] \<and> hd t \<in> sym_set v \<and> starts_with (ps, e) (tl t))"
proof -
  have "(\<exists>u t1. t = u @ t1 \<and> (\<exists>c. u = [c] \<and> c \<in> sym_set v) \<and> starts_with (ps, e) t1) \<longleftrightarrow>
      (\<exists>c t1. t = c # t1 \<and> c \<in> sym_set v \<and> starts_with (ps, e) t1)"
    by (metis append_Cons append_Nil)
  then show ?thesis by (cases t) (auto simp: starts_with_Cons)
qed

lemma starts_with_Many:
  "starts_with (Many v # ps, e) t \<longleftrightarrow>
     starts_with (ps, e) t \<or> (t \<noteq> [] \<and> hd t \<in> sym_set v \<and> starts_with (Many v # ps, e) (tl t))"
proof (cases t)
  case Nil
  then show ?thesis by (auto simp: starts_with_Cons)
next
  case (Cons x xs)
  have "(\<exists>u t1. x # xs = u @ t1 \<and> set u \<subseteq> sym_set v \<and> starts_with (ps, e) t1) \<longleftrightarrow>
      starts_with (ps, e) (x # xs) \<or>
      x \<in> sym_set v \<and> (\<exists>u t1. xs = u @ t1 \<and> set u \<subseteq> sym_set v \<and> starts_with (ps, e) t1)"
    (is "?l \<longleftrightarrow> ?r")
  proof
    assume ?l
    then obtain u t1 where u: "x # xs = u @ t1" "set u \<subseteq> sym_set v" "starts_with (ps, e) t1" by blast
    show ?r
    proof (cases u)
      case Nil
      then show ?thesis using u by simp
    next
      case (Cons y ys)
      then have "y = x" "xs = ys @ t1" using u(1) by simp_all
      then show ?thesis using u(2,3) Cons by auto
    qed
  next
    assume ?r
    then show ?l
    proof
      assume "starts_with (ps, e) (x # xs)"
      then show ?l by (intro exI [of _ "[]"] exI [of _ "x # xs"]) simp
    next
      assume "x \<in> sym_set v \<and> (\<exists>u t1. xs = u @ t1 \<and> set u \<subseteq> sym_set v \<and> starts_with (ps, e) t1)"
      then obtain u t1 where "xs = u @ t1" "set (x # u) \<subseteq> sym_set v" "starts_with (ps, e) t1" by auto
      then show ?l by (intro exI [of _ "x # u"] exI [of _ t1]) simp
    qed
  qed
  then show ?thesis by (simp add: Cons starts_with_Cons)
qed

lemma sym_set_sym: "x \<in> sym_set (sym c) \<longleftrightarrow> c = CHR ''.'' \<or> c = x"
  by (auto simp: sym_set_def sym_def)

lemma matchhere_starts:
  "matchhere re t \<longleftrightarrow> starts_with (pieces re) t"
  "matchstar c re t \<longleftrightarrow> starts_with (Many (sym c) # fst (pieces re), snd (pieces re)) t"
proof (induction re t and c re t rule: matchhere_matchstar.induct)
  case (1 re t)
  show ?case
  proof (cases re)
    case Nil
    then show ?thesis by (simp add: matchhere.simps starts_with_Nil)
  next
    case (Cons r re1)
    show ?thesis
    proof (cases re1)
      case Nil
      then show ?thesis
        using 1 Cons
        by (subst matchhere.simps) (auto simp: starts_with_Nil starts_with_Once sym_set_sym matchhere.simps)
    next
      case (Cons d re2)
      then show ?thesis
        using 1 \<open>re = r # re1\<close>
        by (subst matchhere.simps) (auto simp: starts_with_Once sym_set_sym split: prod.splits)
    qed
  qed
next
  case (2 c re t)
  then show ?case
    by (subst matchstar.simps, subst starts_with_Many) (auto simp: sym_set_sym)
qed

lemma match_from_iff: "match_from re t \<longleftrightarrow> (\<exists>p u. t = p @ u \<and> matchhere re u)"
proof (induction re t rule: match_from.induct)
  case (1 re t)
  show ?case
  proof (cases t)
    case Nil
    then show ?thesis by (subst match_from.simps) simp
  next
    case (Cons x xs)
    have "(\<exists>p u. x # xs = p @ u \<and> matchhere re u) \<longleftrightarrow> matchhere re (x # xs) \<or> (\<exists>p u. xs = p @ u \<and> matchhere re u)"
      by (auto simp: Cons_eq_append_conv)
    then show ?thesis using 1 Cons by (subst match_from.simps) simp
  qed
qed

section \<open>The lines of the input\<close>

lemma shorter_tl_dropWhile:
  assumes "s \<noteq> []"
  shows "length (tl (dropWhile P s)) < length s"
proof -
  have "length (dropWhile P s) \<le> length s" and "0 < length s" using assms length_dropWhile_le by auto
  then show ?thesis unfolding length_tl by arith
qed

function complete_lines :: "string \<Rightarrow> string list" where
  "complete_lines s =
     (if CHR 0x0A \<in> set s then takeWhile (\<lambda>c. c \<noteq> CHR 0x0A) s # complete_lines (tl (dropWhile (\<lambda>c. c \<noteq> CHR 0x0A) s))
      else [])"
  by pat_completeness auto
termination
proof (relation "measure length")
  fix s :: string assume "CHR 0x0A \<in> set s"
  then have "s \<noteq> []" by auto
  then show "(tl (dropWhile (\<lambda>c. c \<noteq> CHR 0x0A) s), s) \<in> measure length"
    using shorter_tl_dropWhile by (simp del: length_tl)
qed simp

declare complete_lines.simps [simp del]

definition matching_lines :: "string \<Rightarrow> string \<Rightarrow> string" where
  "matching_lines pattern s = concat (map (\<lambda>l. l @ [CHR 0x0A]) (filter (match pattern) (complete_lines s)))"

lemma complete_lines_none: "CHR 0x0A \<notin> set s \<Longrightarrow> complete_lines s = []"
  by (subst complete_lines.simps) simp

lemma complete_lines_line:
  assumes "CHR 0x0A \<notin> set l"
  shows "complete_lines (l @ CHR 0x0A # s) = l # complete_lines s"
proof -
  have "takeWhile (\<lambda>c. c \<noteq> CHR 0x0A) (l @ CHR 0x0A # s) = l"
      "dropWhile (\<lambda>c. c \<noteq> CHR 0x0A) (l @ CHR 0x0A # s) = CHR 0x0A # s"
    using assms by (induction l) auto
  then show ?thesis by (subst complete_lines.simps) simp
qed

lemma strchr_newline:
  assumes "CHR 0x00 \<notin> set s"
  shows "strchr s (CHR 0x0A) = None \<longleftrightarrow> CHR 0x0A \<notin> set s"
  using assms by (induction s) auto

lemma grep_lines_spec:
  assumes "CHR 0x00 \<notin> set b"
  shows "\<exists>rest. grep_lines pattern b = (matching_lines pattern b, rest) \<and> CHR 0x0A \<notin> set rest \<and>
    (\<exists>pre. b = pre @ rest \<and> (CHR 0x0A \<in> set b \<longrightarrow> pre \<noteq> [])) \<and>
    (\<forall>more. complete_lines (b @ more) = complete_lines b @ complete_lines (rest @ more))"
  using assms
proof (induction pattern b rule: grep_lines.induct)
  case (1 pattern b)
  show ?case
  proof (cases "strchr b (CHR 0x0A)")
    case None
    then have "CHR 0x0A \<notin> set b" using strchr_newline 1(2) by blast
    then show ?thesis
      using None by (subst grep_lines.simps) (simp add: matching_lines_def complete_lines_none)
  next
    case (Some i)
    then have i: "i < length b" "b ! i = CHR 0x0A" "CHR 0x0A \<notin> set (take i b)" using strchr_Some by blast+
    then have b: "b = take i b @ CHR 0x0A # drop (i + 1) b" using id_take_nth_drop [of i b] by simp
    have "CHR 0x00 \<notin> set (drop (i + 1) b)" using 1(2) in_set_dropD by metis
    then obtain rest pre where r: "grep_lines pattern (drop (i + 1) b) = (matching_lines pattern (drop (i + 1) b), rest)"
        "CHR 0x0A \<notin> set rest" "drop (i + 1) b = pre @ rest"
        "\<And>more. complete_lines (drop (i + 1) b @ more) = complete_lines (drop (i + 1) b) @ complete_lines (rest @ more)"
      using 1(1) [OF Some] by blast
    have cl: "complete_lines b = take i b # complete_lines (drop (i + 1) b)"
      using complete_lines_line [OF i(3), of "drop (i + 1) b"] b by simp
    have "take (i + 1) b = take i b @ [CHR 0x0A]" using i(1,2) by (simp add: take_Suc_conv_app_nth)
    then have g: "grep_lines pattern b = (matching_lines pattern b, rest)"
      using Some r(1) cl by (subst grep_lines.simps) (simp add: matching_lines_def)
    have "complete_lines (b @ more) = complete_lines b @ complete_lines (rest @ more)" for more
    proof -
      have "b @ more = take i b @ CHR 0x0A # drop (i + 1) b @ more"
        using arg_cong [OF b, of "\<lambda>x. x @ more"] by (simp only: append_assoc append_Cons)
      then have "complete_lines (b @ more) = take i b # complete_lines (drop (i + 1) b @ more)"
        by (simp only: complete_lines_line [OF i(3)])
      then show ?thesis using cl r(4) by simp
    qed
    moreover have "b = (take i b @ CHR 0x0A # pre) @ rest" using b r(3) by simp
    ultimately show ?thesis using g r(2) by (intro exI [of _ rest]) blast
  qed
qed

lemma grep_from:
  assumes "CHR 0x00 \<notin> set (buf @ input)" and "CHR 0x0A \<notin> set buf" and "length buf < 1023"
    and "\<And>l. l \<in> set (complete_lines (buf @ input)) \<Longrightarrow> length l < 1023"
    and "\<And>n. n \<in> set ns \<Longrightarrow> 1023 \<le> n" and "length input < length ns"
  shows "grep pattern ns buf input = matching_lines pattern (buf @ input)"
  using assms
proof (induction pattern ns buf input rule: grep.induct)
  case (2 pattern n ns buf input)
  let ?k = "min n (1024 - length buf - 1)"
  let ?b = "buf @ take ?k input"
  have k: "?k = 1023 - length buf" "0 < ?k" using 2(4) 2(6) [of n] by simp_all
  show ?case
  proof (cases "input = []")
    case True
    then show ?thesis using 2(3) by (simp add: matching_lines_def complete_lines_none)
  next
    case False
    then have ch: "take ?k input \<noteq> []" using k(2) by (cases input) auto
    have nul: "CHR 0x00 \<notin> set ?b" using 2(2) by (auto dest: in_set_takeD)
    obtain rest pre where g: "grep_lines pattern ?b = (matching_lines pattern ?b, rest)" "CHR 0x0A \<notin> set rest"
        "?b = pre @ rest" "CHR 0x0A \<in> set ?b \<longrightarrow> pre \<noteq> []"
        "\<And>more. complete_lines (?b @ more) = complete_lines ?b @ complete_lines (rest @ more)"
      using grep_lines_spec [OF nul, of pattern] by blast
    define buf' where "buf' = (if length rest = length ?b then [] else rest)"
    have eq: "grep pattern (n # ns) buf input = matching_lines pattern ?b @ grep pattern ns buf' (drop ?k input)"
    proof -
      have "1024 - length buf - 1 = 1023 - length buf" by simp
      then show ?thesis using ch g(1) unfolding grep.simps Let_def buf'_def by (simp only: if_False prod.case)
    qed
    have whole: "?b @ drop ?k input = buf @ input" by simp
    have lb: "length ?b \<le> 1023" using k(1) 2(4) by simp
    have all: "matching_lines pattern (buf @ input) = matching_lines pattern ?b @ matching_lines pattern (rest @ drop ?k input)"
      using g(5) [of "drop ?k input"] unfolding whole by (simp add: matching_lines_def)
    have lines: "complete_lines (buf' @ drop ?k input) = complete_lines (rest @ drop ?k input)"
    proof (cases "length rest = length ?b")
      case True
      then have rb: "rest = ?b" "pre = []" using g(3) by (metis append_eq_append_conv append_Nil)+
      have "CHR 0x0A \<notin> set (drop ?k input)"
      proof
        assume nl: "CHR 0x0A \<in> set (drop ?k input)"
        then have "length ?b = 1023" using k(1) 2(4) by (cases "?k \<le> length input") auto
        obtain d e where d: "drop ?k input = d @ CHR 0x0A # e" "CHR 0x0A \<notin> set d"
          using split_list_first [OF nl] by blast
        have "buf @ input = (?b @ d) @ CHR 0x0A # e" using whole unfolding d(1) by (metis append_assoc)
        moreover have "CHR 0x0A \<notin> set (?b @ d)" using g(2) rb(1) d(2) by auto
        ultimately have "complete_lines (buf @ input) = (?b @ d) # complete_lines e"
          using complete_lines_line by metis
        then have "?b @ d \<in> set (complete_lines (buf @ input))" by simp
        then show False using 2(5) \<open>length ?b = 1023\<close> by fastforce
      qed
      then have "CHR 0x0A \<notin> set (buf' @ drop ?k input)" "CHR 0x0A \<notin> set (rest @ drop ?k input)"
        using g(2) by (auto simp: buf'_def)
      from this [THEN complete_lines_none] show ?thesis by (rule trans [OF _ sym])
    qed (simp add: buf'_def)
    have "grep pattern ns buf' (drop ?k input) = matching_lines pattern (buf' @ drop ?k input)"
    proof (rule 2(1) [OF refl refl ch refl g(1) [symmetric], folded buf'_def])
      show "CHR 0x00 \<notin> set (buf' @ drop ?k input)"
      proof -
        have "CHR 0x00 \<notin> set rest" using nul g(3) by (metis Un_iff set_append)
        then show ?thesis using 2(2) by (auto simp: buf'_def dest: in_set_dropD)
      qed
      show "CHR 0x0A \<notin> set buf'" using g(2) by (simp add: buf'_def)
      have "length ?b = length pre + length rest" using arg_cong [OF g(3), of length] by (simp only: length_append)
      then have "length rest = length ?b \<or> length rest < length ?b" by linarith
      then show "length buf' < 1023" using lb unfolding buf'_def by (elim disjE) simp_all
      show "length l < 1023" if "l \<in> set (complete_lines (buf' @ drop ?k input))" for l
        using that 2(5) g(5) [of "drop ?k input"] unfolding whole lines by simp
      show "1023 \<le> n'" if "n' \<in> set ns" for n' using 2(6) that by simp
      show "length (drop ?k input) < length ns" using 2(7) k(2) False by (cases input) auto
    qed
    then show ?thesis using eq all lines by (simp add: matching_lines_def)
  qed
qed simp

section \<open>Properties\<close>

text \<open>
  C25: \<open>match\<close> accepts a text exactly when, from its start for a pattern with \<open>^\<close> and from some position
  otherwise, it has a word of the language of the pattern, up to the end of the text when the pattern
  ends with \<open>$\<close>.
\<close>

theorem match_language:
  "match re t \<longleftrightarrow> (if re \<noteq> [] \<and> hd re = CHR ''^'' then starts_with (pieces (tl re)) t
     else \<exists>p u. t = p @ u \<and> starts_with (pieces re) u)"
  by (simp add: match_def match_from_iff matchhere_starts)

text \<open>
  \<open>grep\<close> on a file, whose reads fill the buffer, writes exactly the complete lines that match, in
  order, when no line is longer than the buffer and there is no NUL in the file.
\<close>

theorem grep_prints_matches:
  assumes "CHR 0x00 \<notin> set input" and "\<forall>l \<in> set (complete_lines input). length l < 1023"
    and "\<forall>n \<in> set ns. 1023 \<le> n" and "length input < length ns"
  shows "grep pattern ns [] input = matching_lines pattern input"
  using grep_from [of "[]" input ns pattern] assms by simp

theorem grep_prints_matches_witness:
  "grep ''b*c'' (replicate 9 2000) [] (''abc'' @ CHR 0x0A # ''d'' @ [CHR 0x0A]) = ''abc'' @ [CHR 0x0A]"
proof -
  let ?i = "''abc'' @ CHR 0x0A # ''d'' @ [CHR 0x0A]"
  have l: "complete_lines ?i = [''abc'', ''d'']"
    using complete_lines_line [of "''abc''" "''d'' @ [CHR 0x0A]"] complete_lines_line [of "''d''" "[]"]
    by (simp add: complete_lines_none)
  have m: "match ''b*c'' ''abc''" "\<not> match ''b*c'' ''d''"
    by (simp_all add: match_def match_from.simps matchhere.simps matchstar.simps)
  have "grep ''b*c'' (replicate 9 2000) [] ?i = matching_lines ''b*c'' ?i"
    by (rule grep_prints_matches) (use l in simp_all)
  then show ?thesis using m unfolding matching_lines_def l by simp
qed

text \<open>A line that comes in two reads with no other line end in the buffer loses its first part.\<close>

lemma grep_loses_start:
  "grep ''^a'' [1, 2, 1] [] (''ab'' @ [CHR 0x0A]) = []" "match ''^a'' ''ab''"
  by (simp_all add: grep_lines.simps match_def match_from.simps matchhere.simps matchstar.simps)

end
