(* ===== verification/Cstring.thy ===== *)
theory Cstring
  imports Prelude
begin

text \<open>
  The string functions of the kernel (\<open>string.c\<close>) and those of the user library that differ
  (\<open>ulib.c\<close>), on a memory of bytes addressed by 32-bit words. Pointer arithmetic wraps. A loop that
  searches for a NUL byte gets as fuel the largest count its \<open>int\<close> can hold.
\<close>

type_synonym mem = "u32 \<Rightarrow> 8 word"

section \<open>string.c\<close>

text \<open>The string instructions \<open>rep stosb\<close> and \<open>rep stosl\<close> behind \<open>stosb\<close> and \<open>stosl\<close>.\<close>

fun stosb :: "u32 \<Rightarrow> u32 \<Rightarrow> nat \<Rightarrow> mem \<Rightarrow> mem" where
  "stosb a data 0 m = m"
| "stosb a data (Suc n) m = stosb (a + 1) data n (m(a := ucast data))"

fun stosl :: "u32 \<Rightarrow> u32 \<Rightarrow> nat \<Rightarrow> mem \<Rightarrow> mem" where
  "stosl a data 0 m = m"
| "stosl a data (Suc n) m = stosl (a + 4) data n
     (m(a := ucast data, a + 1 := ucast (drop_bit 8 data), a + 2 := ucast (drop_bit 16 data),
        a + 3 := ucast (drop_bit 24 data)))"

definition memset :: "u32 \<Rightarrow> u32 \<Rightarrow> u32 \<Rightarrow> mem \<Rightarrow> mem" where
  "memset dst c n m =
     (if sint dst mod 4 = 0 \<and> n mod 4 = 0
      then let c1 = c AND 0xFF in
        stosl dst (push_bit 24 c1 OR push_bit 16 c1 OR push_bit 8 c1 OR c1) (unat (n div 4)) m
      else stosb dst c (unat n) m)"

fun memcmp_loop :: "nat \<Rightarrow> u32 \<Rightarrow> u32 \<Rightarrow> mem \<Rightarrow> int" where
  "memcmp_loop 0 s1 s2 m = 0"
| "memcmp_loop (Suc n) s1 s2 m =
     (if m s1 \<noteq> m s2 then uint (m s1) - uint (m s2) else memcmp_loop n (s1 + 1) (s2 + 1) m)"

definition memcmp :: "u32 \<Rightarrow> u32 \<Rightarrow> u32 \<Rightarrow> mem \<Rightarrow> int" where
  "memcmp v1 v2 n m = memcmp_loop (unat n) v1 v2 m"

fun copy_up :: "nat \<Rightarrow> u32 \<Rightarrow> u32 \<Rightarrow> mem \<Rightarrow> mem" where
  "copy_up 0 d s m = m"
| "copy_up (Suc n) d s m = copy_up n (d + 1) (s + 1) (m(d := m s))"

fun copy_down :: "nat \<Rightarrow> u32 \<Rightarrow> u32 \<Rightarrow> mem \<Rightarrow> mem" where
  "copy_down 0 d s m = m"
| "copy_down (Suc n) d s m = copy_down n (d - 1) (s - 1) (m(d - 1 := m (s - 1)))"

definition memmove :: "u32 \<Rightarrow> u32 \<Rightarrow> u32 \<Rightarrow> mem \<Rightarrow> mem" where
  "memmove d s n m =
     (if s < d \<and> s + n > d then copy_down (unat n) (d + n) (s + n) m else copy_up (unat n) d s m)"

definition memcpy :: "u32 \<Rightarrow> u32 \<Rightarrow> u32 \<Rightarrow> mem \<Rightarrow> mem" where
  "memcpy d s n m = memmove d s n m"

fun strncmp_loop :: "nat \<Rightarrow> u32 \<Rightarrow> u32 \<Rightarrow> mem \<Rightarrow> int" where
  "strncmp_loop 0 p q m = 0"
| "strncmp_loop (Suc n) p q m =
     (if m p \<noteq> 0 \<and> m p = m q then strncmp_loop n (p + 1) (q + 1) m else uint (m p) - uint (m q))"

definition strncmp :: "u32 \<Rightarrow> u32 \<Rightarrow> u32 \<Rightarrow> mem \<Rightarrow> int" where
  "strncmp p q n m = strncmp_loop (unat n) p q m"

fun zero_rest :: "nat \<Rightarrow> u32 \<Rightarrow> mem \<Rightarrow> mem" where
  "zero_rest 0 s m = m"
| "zero_rest (Suc n) s m = zero_rest n (s + 1) (m(s := 0))"

fun strncpy_loop :: "nat \<Rightarrow> u32 \<Rightarrow> u32 \<Rightarrow> mem \<Rightarrow> mem" where
  "strncpy_loop 0 s t m = m"
| "strncpy_loop (Suc n) s t m =
     (if m t \<noteq> 0 then strncpy_loop n (s + 1) (t + 1) (m(s := m t)) else zero_rest n (s + 1) (m(s := m t)))"

definition strncpy :: "u32 \<Rightarrow> u32 \<Rightarrow> int \<Rightarrow> mem \<Rightarrow> mem" where
  "strncpy s t n m = strncpy_loop (nat n) s t m"

fun safestrcpy_loop :: "nat \<Rightarrow> u32 \<Rightarrow> u32 \<Rightarrow> mem \<Rightarrow> mem" where
  "safestrcpy_loop 0 s t m = m(s := 0)"
| "safestrcpy_loop (Suc n) s t m =
     (if m t \<noteq> 0 then safestrcpy_loop n (s + 1) (t + 1) (m(s := m t)) else (m(s := m t))(s + 1 := 0))"

definition safestrcpy :: "u32 \<Rightarrow> u32 \<Rightarrow> int \<Rightarrow> mem \<Rightarrow> mem" where
  "safestrcpy s t n m = (if n \<le> 0 then m else safestrcpy_loop (nat (n - 1)) s t m)"

fun strlen_loop :: "nat \<Rightarrow> u32 \<Rightarrow> mem \<Rightarrow> nat option" where
  "strlen_loop 0 s m = None"
| "strlen_loop (Suc fuel) s m = (if m s = 0 then Some 0 else map_option Suc (strlen_loop fuel (s + 1) m))"

definition strlen :: "u32 \<Rightarrow> mem \<Rightarrow> nat option" where
  "strlen s m = strlen_loop (2 ^ 31) s m"

section \<open>ulib.c\<close>

fun strcpy_loop :: "nat \<Rightarrow> u32 \<Rightarrow> u32 \<Rightarrow> mem \<Rightarrow> mem option" where
  "strcpy_loop 0 s t m = None"
| "strcpy_loop (Suc fuel) s t m =
     (if m t \<noteq> 0 then strcpy_loop fuel (s + 1) (t + 1) (m(s := m t)) else Some (m(s := m t)))"

fun strcmp_loop :: "nat \<Rightarrow> u32 \<Rightarrow> u32 \<Rightarrow> mem \<Rightarrow> int option" where
  "strcmp_loop 0 p q m = None"
| "strcmp_loop (Suc fuel) p q m =
     (if m p \<noteq> 0 \<and> m p = m q then strcmp_loop fuel (p + 1) (q + 1) m else Some (uint (m p) - uint (m q)))"

definition memset_user :: "u32 \<Rightarrow> u32 \<Rightarrow> u32 \<Rightarrow> mem \<Rightarrow> mem" where
  "memset_user dst c n m = stosb dst c (unat n) m"

definition memmove_user :: "u32 \<Rightarrow> u32 \<Rightarrow> int \<Rightarrow> mem \<Rightarrow> mem" where
  "memmove_user vdst vsrc n m = copy_up (nat n) vdst vsrc m"

section \<open>Ranges of addresses\<close>

lemma addr_add_inject:
  fixes a :: u32
  assumes "unat a + n \<le> 2 ^ 32" and "i < n" and "j < n"
  shows "a + of_nat i = a + of_nat j \<longleftrightarrow> i = j"
proof -
  have "i < 2 ^ 32" "j < 2 ^ 32" using assms by auto
  then show ?thesis by (auto simp: of_nat_inverse dest: arg_cong [of _ _ unat] simp: unsigned_of_nat take_bit_nat_eq_self)
qed

lemma unat_add_small:
  fixes a :: u32
  assumes "unat a + i < 2 ^ 32"
  shows "unat (a + of_nat i) = unat a + i"
  using assms by (simp add: unat_word_ariths unsigned_of_nat take_bit_nat_eq_self)

lemma stosb_spec:
  assumes "n \<le> 2 ^ 32"
  shows "stosb a c n m b = (if \<exists>i<n. b = a + of_nat i then ucast c else m b)"
  using assms
proof (induction n arbitrary: a m)
  case (Suc n)
  have "(\<exists>i<Suc n. b = a + of_nat i) \<longleftrightarrow> b = a \<or> (\<exists>i<n. b = (a + 1) + of_nat i)"
    by (auto simp: less_Suc_eq_0_disj algebra_simps)
  then show ?case using Suc by (auto split: if_splits)
qed simp

lemma byte_mask: "(c :: u32) AND 0xFF = take_bit 8 c"
proof -
  have "(0xFF :: u32) = mask 8" by (simp add: mask_eq_exp_minus_1)
  then show ?thesis by (simp add: take_bit_eq_mask)
qed

lemma spread_bytes:
  fixes c :: u32
  defines "w \<equiv> push_bit 24 (c AND 0xFF) OR push_bit 16 (c AND 0xFF) OR push_bit 8 (c AND 0xFF) OR (c AND 0xFF)"
  shows "(ucast w :: 8 word) = ucast c" and "(ucast (drop_bit 8 w) :: 8 word) = ucast c"
    and "(ucast (drop_bit 16 w) :: 8 word) = ucast c" and "(ucast (drop_bit 24 w) :: 8 word) = ucast c"
  unfolding w_def byte_mask by (rule bit_word_eqI, auto simp: bit_simps)+

lemma stosl_stosb:
  assumes "(ucast w :: 8 word) = ucast c" and "(ucast (drop_bit 8 w) :: 8 word) = ucast c"
    and "(ucast (drop_bit 16 w) :: 8 word) = ucast c" and "(ucast (drop_bit 24 w) :: 8 word) = ucast c"
  shows "stosl a w n m = stosb a c (4 * n) m"
proof (induction n arbitrary: a m)
  case (Suc n)
  have e: "4 * Suc n = Suc (Suc (Suc (Suc (4 * n))))" by simp
  have a: "a + 1 + 1 = a + 2" "a + 2 + 1 = a + 3" "a + 3 + 1 = a + 4" by simp_all
  show ?case unfolding e stosl.simps stosb.simps a assms by (rule Suc)
qed simp

section \<open>Copying\<close>

lemma copy_up_spec:
  assumes "unat d + n \<le> 2 ^ 32" and "unat s + n \<le> 2 ^ 32" and "d \<le> s \<or> unat s + n \<le> unat d"
  shows "copy_up n d s m b = (if \<exists>i<n. b = d + of_nat i then m (s + (b - d)) else m b)"
  using assms
proof (induction n arbitrary: d s m)
  case (Suc n)
  show ?case
  proof (cases n)
    case 0
    then show ?thesis by auto
  next
    case (Suc k)
    then have lt: "unat d + 1 < 2 ^ 32" "unat s + 1 < 2 ^ 32" using Suc.prems by auto
    have u: "unat (d + 1) = unat d + 1" "unat (s + 1) = unat s + 1"
      using unat_add_small [of d 1] unat_add_small [of s 1] lt by simp_all
    have ih: "copy_up n (d + 1) (s + 1) m' b = (if \<exists>i<n. b = d + 1 + of_nat i then m' (s + 1 + (b - (d + 1))) else m' b)" for m'
      by (rule Suc.IH) (use Suc.prems u in \<open>auto simp: word_le_nat_alt\<close>)
    have ex: "(\<exists>i<Suc n. b = d + of_nat i) \<longleftrightarrow> b = d \<or> (\<exists>i<n. b = d + 1 + of_nat i)"
      by (auto simp: less_Suc_eq_0_disj algebra_simps)
    have nd: "b \<noteq> d" if "i < n" "b = d + 1 + of_nat i" for i
      using addr_add_inject [of d "Suc n" "Suc i" 0] that Suc.prems(1) by (auto simp: algebra_simps)
    have src: "s + (b - d) \<noteq> d" if "i < n" "b = d + 1 + of_nat i" for i
    proof
      assume "s + (b - d) = d"
      then have "s + of_nat (Suc i) = d" using that(2) by (simp add: algebra_simps)
      moreover have "unat (s + of_nat (Suc i)) = unat s + Suc i" by (rule unat_add_small) (use Suc.prems(2) that(1) in simp)
      ultimately show False using Suc.prems(3) that(1) by (auto simp: word_le_nat_alt)
    qed
    have step: "copy_up (Suc n) d s m b = copy_up n (d + 1) (s + 1) (m(d := m s)) b" by simp
    have shift: "s + 1 + (b - (d + 1)) = s + (b - d)" by simp
    show ?thesis unfolding step ih ex shift using nd src by auto
  qed
qed simp

lemma copy_down_spec:
  assumes "unat d + n \<le> 2 ^ 32" and "unat s + n \<le> 2 ^ 32" and "s < d"
  shows "copy_down n (d + of_nat n) (s + of_nat n) m b = (if \<exists>i<n. b = d + of_nat i then m (s + (b - d)) else m b)"
  using assms(1,2)
proof (induction n arbitrary: m)
  case (Suc n)
  let ?m = "m(d + of_nat n := m (s + of_nat n))"
  have step: "copy_down (Suc n) (d + of_nat (Suc n)) (s + of_nat (Suc n)) m = copy_down n (d + of_nat n) (s + of_nat n) ?m"
    by (simp add: algebra_simps)
  have ih: "copy_down n (d + of_nat n) (s + of_nat n) ?m b = (if \<exists>i<n. b = d + of_nat i then ?m (s + (b - d)) else ?m b)"
    by (rule Suc.IH) (use Suc.prems in auto)
  have ex: "(\<exists>i<Suc n. b = d + of_nat i) \<longleftrightarrow> b = d + of_nat n \<or> (\<exists>i<n. b = d + of_nat i)"
    by (auto simp: less_Suc_eq)
  have nd: "b \<noteq> d + of_nat n" if "i < n" "b = d + of_nat i" for i
    using addr_add_inject [of d "Suc n" i n] that Suc.prems(1) by auto
  have src: "s + (b - d) \<noteq> d + of_nat n" if "i < n" "b = d + of_nat i" for i
  proof
    assume "s + (b - d) = d + of_nat n"
    then have "s + of_nat i = d + of_nat n" using that(2) by (simp add: algebra_simps)
    moreover have "unat (s + of_nat i) = unat s + i" by (rule unat_add_small) (use Suc.prems(2) that(1) in simp)
    moreover have "unat (d + of_nat n) = unat d + n" by (rule unat_add_small) (use Suc.prems(1) in simp)
    ultimately show False using assms(3) that(1) by (auto simp: word_less_nat_alt)
  qed
  show ?case unfolding step using nd src by (auto simp: ih ex)
qed simp

section \<open>Bounded copies of strings\<close>

text \<open>What \<open>safestrcpy\<close> writes: the bytes of the source before its NUL, at most \<open>n\<close> of them, and a NUL.\<close>

lemma safestrcpy_loop_spec:
  assumes "unat s + n < 2 ^ 32" and "\<And>i j. i \<le> n \<Longrightarrow> j \<le> n \<Longrightarrow> s + of_nat i \<noteq> t + of_nat j"
  shows "\<exists>k\<le>n. (\<forall>i<k. safestrcpy_loop n s t m (s + of_nat i) = m (t + of_nat i) \<and> m (t + of_nat i) \<noteq> 0) \<and>
    safestrcpy_loop n s t m (s + of_nat k) = 0 \<and> (k < n \<longrightarrow> m (t + of_nat k) = 0) \<and>
    (\<forall>b. (\<forall>i\<le>n. b \<noteq> s + of_nat i) \<longrightarrow> safestrcpy_loop n s t m b = m b)"
  using assms
proof (induction n arbitrary: s t m)
  case 0
  then show ?case by simp
next
  case (Suc n)
  have d0: "s \<noteq> t + of_nat j" if "j \<le> Suc n" for j using Suc.prems(2) [of 0 j] that by simp
  have s1: "s + 1 + of_nat i \<noteq> s" if "i \<le> n" for i
    using addr_add_inject [of s "Suc (Suc n)" "Suc i" 0] that Suc.prems(1) by (simp add: algebra_simps)
  show ?case
  proof (cases "m t = 0")
    case True
    then show ?thesis
      using d0 s1 [of 0] by (intro exI [of _ 0]) (auto simp: dest: spec [of _ 0] spec [of _ 1])
  next
    case False
    let ?m = "m(s := m t)"
    have u: "unat (s + 1) = unat s + 1" using unat_add_small [of s 1] Suc.prems(1) by simp
    have "\<exists>k\<le>n. (\<forall>i<k. safestrcpy_loop n (s + 1) (t + 1) ?m (s + 1 + of_nat i) = ?m (t + 1 + of_nat i) \<and> ?m (t + 1 + of_nat i) \<noteq> 0) \<and>
        safestrcpy_loop n (s + 1) (t + 1) ?m (s + 1 + of_nat k) = 0 \<and> (k < n \<longrightarrow> ?m (t + 1 + of_nat k) = 0) \<and>
        (\<forall>b. (\<forall>i\<le>n. b \<noteq> s + 1 + of_nat i) \<longrightarrow> safestrcpy_loop n (s + 1) (t + 1) ?m b = ?m b)"
    proof (rule Suc.IH)
      show "s + 1 + of_nat i \<noteq> t + 1 + of_nat j" if "i \<le> n" "j \<le> n" for i j
        using Suc.prems(2) [of "Suc i" "Suc j"] that by (simp add: algebra_simps)
    qed (use Suc.prems(1) u in simp)
    then obtain k where k: "k \<le> n"
        "\<And>i. i < k \<Longrightarrow> safestrcpy_loop n (s + 1) (t + 1) ?m (s + 1 + of_nat i) = ?m (t + 1 + of_nat i) \<and> ?m (t + 1 + of_nat i) \<noteq> 0"
        "safestrcpy_loop n (s + 1) (t + 1) ?m (s + 1 + of_nat k) = 0" "k < n \<Longrightarrow> ?m (t + 1 + of_nat k) = 0"
        "\<And>b. \<forall>i\<le>n. b \<noteq> s + 1 + of_nat i \<Longrightarrow> safestrcpy_loop n (s + 1) (t + 1) ?m b = ?m b" by blast
    have mt: "?m (t + 1 + of_nat i) = m (t + of_nat (Suc i))" if "i \<le> n" for i
      using d0 [of "Suc i"] that by (simp add: algebra_simps)
    have at: "safestrcpy_loop (Suc n) s t m = safestrcpy_loop n (s + 1) (t + 1) ?m" using False by simp
    have first: "safestrcpy_loop (Suc n) s t m s = m t"
      unfolding at using k(5) [of s] s1 by (metis fun_upd_same)
    have "safestrcpy_loop (Suc n) s t m (s + of_nat i) = m (t + of_nat i) \<and> m (t + of_nat i) \<noteq> 0" if "i < Suc k" for i
    proof (cases i)
      case 0
      then show ?thesis using first False by simp
    next
      case (Suc j)
      then show ?thesis using k(2) [of j] mt [of j] that k(1) unfolding at by (simp add: algebra_simps)
    qed
    moreover have "safestrcpy_loop (Suc n) s t m (s + of_nat (Suc k)) = 0"
      unfolding at using k(3) by (simp add: algebra_simps)
    moreover have "m (t + of_nat (Suc k)) = 0" if "Suc k < Suc n" using k(4) mt [of k] k(1) that by simp
    moreover have "safestrcpy_loop (Suc n) s t m b = m b" if b: "\<forall>i\<le>Suc n. b \<noteq> s + of_nat i" for b
    proof -
      have "b \<noteq> s + 1 + of_nat i" if "i \<le> n" for i
        using b [rule_format, of "Suc i"] that by (simp add: algebra_simps)
      then show ?thesis unfolding at using k(5) [of b] b [rule_format, of 0] by simp
    qed
    ultimately show ?thesis using k(1) by (intro exI [of _ "Suc k"]) blast
  qed
qed

end
