(* ===== verification/CstringProps.thy ===== *)
theory CstringProps
  imports Cstring
begin

text \<open>
  What the string functions promise: \<open>memset\<close> fills a range whichever instruction it takes,
  \<open>memmove\<close> copies ranges that overlap, \<open>safestrcpy\<close> writes a string with its NUL inside the
  bound. The \<open>memmove\<close> of the user library is none of that: its lemma says for which ranges it
  copies.
\<close>

section \<open>Filling\<close>

lemma in_range:
  fixes a b :: u32
  assumes "n \<le> 2 ^ 32"
  shows "(\<exists>i<n. b = a + of_nat i) \<longleftrightarrow> unat (b - a) < n"
proof
  assume "\<exists>i<n. b = a + of_nat i"
  then show "unat (b - a) < n"
    using assms by (auto simp: unsigned_of_nat take_bit_nat_eq_self)
next
  assume "unat (b - a) < n"
  then show "\<exists>i<n. b = a + of_nat i" by (intro exI [of _ "unat (b - a)"]) simp
qed

lemma unat_le_max [simp]: "unat (n :: u32) \<le> 2 ^ 32"
  using unsigned_less [of n, where 'a = nat] by simp

lemma memset_user_spec: "memset_user dst c n m b = (if unat (b - dst) < unat n then ucast c else m b)"
  unfolding memset_user_def by (simp only: stosb_spec unat_le_max in_range)

lemma unat_numeral4: "unat (4 :: u32) = 4"
  by simp

lemma memset_is_stosb: "memset dst c n m = memset_user dst c n m"
proof (cases "sint dst mod 4 = 0 \<and> n mod 4 = 0")
  case True
  have "4 * unat (n div 4) = unat n"
  proof -
    have "unat n mod 4 = 0" using True by (metis unat_0 unat_mod_distrib unat_numeral4)
    then show ?thesis by (auto simp: unat_div_distrib)
  qed
  then show ?thesis
    unfolding memset_def memset_user_def Let_def if_P [OF True] stosl_stosb [OF spread_bytes] by simp
next
  case False
  then show ?thesis by (auto simp: memset_def memset_user_def)
qed

text \<open>\<open>memset\<close> of the kernel, which stores words when address and length are multiples of four,
  and \<open>memset\<close> of the user library, which stores bytes, are the same function: every byte at a
  distance below \<open>n\<close> from \<open>dst\<close> becomes the low byte of \<open>c\<close> and no other byte changes, also when the
  range wraps around the end of the address space.\<close>

theorem memset_fills:
  "memset dst c n m = memset_user dst c n m \<and>
   memset dst c n m b = (if unat (b - dst) < unat n then ucast c else m b)"
  by (simp add: memset_is_stosb memset_user_spec)

section \<open>Copying\<close>

lemma sum_above:
  fixes s n d :: u32
  assumes "unat s + unat n < 2 ^ 32"
  shows "s + n > d \<longleftrightarrow> unat d < unat s + unat n"
  using unat_add_small [of s "unat n"] assms by (simp add: word_less_nat_alt)

lemma memmove_spec:
  assumes "unat d + unat n \<le> 2 ^ 32" and "unat s + unat n < 2 ^ 32"
  shows "memmove d s n m b = (if unat (b - d) < unat n then m (s + (b - d)) else m b)"
proof (cases "s < d \<and> s + n > d")
  case True
  then have "memmove d s n m = copy_down (unat n) (d + of_nat (unat n)) (s + of_nat (unat n)) m"
    by (simp add: memmove_def)
  then show ?thesis
    using copy_down_spec [OF assms(1), of s m b] assms True by (simp add: in_range)
next
  case False
  then have "d \<le> s \<or> unat s + unat n \<le> unat d"
    using sum_above [OF assms(2)] by (metis not_le not_less)
  then show ?thesis
    using copy_up_spec [OF assms(1), of s m b] assms False
    unfolding memmove_def if_not_P [OF False] by (simp add: in_range)
qed

text \<open>\<open>memmove\<close> copies correctly however the two ranges overlap: afterwards every byte of the
  destination is the byte that the source range held before the call, and no other byte changes.
  The destination has to lie inside the address space and the source has to end below its last byte
  (the test \<open>s + n > d\<close> wraps otherwise).\<close>

theorem memmove_overlap:
  assumes "unat d + unat n \<le> 2 ^ 32" and "unat s + unat n < 2 ^ 32"
  shows "(\<forall>i<unat n. memmove d s n m (d + of_nat i) = m (s + of_nat i)) \<and>
    (\<forall>b. unat (b - d) \<ge> unat n \<longrightarrow> memmove d s n m b = m b)"
proof -
  have "memmove d s n m (d + of_nat i) = m (s + of_nat i)" if "i < unat n" for i
  proof -
    have "i < 2 ^ 32" using that unat_le_max [of n] by simp
    then have "unat (d + of_nat i - d) = i" by (simp add: unsigned_of_nat take_bit_nat_eq_self)
    then show ?thesis using memmove_spec [OF assms] that by simp
  qed
  then show ?thesis using memmove_spec [OF assms] by simp
qed

text \<open>Two bytes up by one, over themselves.\<close>

theorem memmove_overlap_witness:
  "memmove 11 10 2 (\<lambda>a. ucast a) 11 = 10 \<and> memmove 11 10 2 (\<lambda>a. ucast a) 12 = 11"
proof -
  have "\<forall>i<unat (2::u32). memmove 11 10 2 (\<lambda>a. ucast a) (11 + of_nat i) = (\<lambda>a :: u32. ucast a :: 8 word) (10 + of_nat i)"
    by (rule conjunct1 [OF memmove_overlap]) simp_all
  from this [rule_format, of 0] this [rule_format, of 1] show ?thesis by simp
qed

text \<open>The user library copies upwards whatever the ranges: right when the destination is not inside
  the source, and the first byte over and over when it is one above.\<close>

lemma memmove_user_disjoint:
  assumes "unat d + nat n \<le> 2 ^ 32" and "unat s + nat n \<le> 2 ^ 32" and "d \<le> s \<or> unat s + nat n \<le> unat d"
  shows "memmove_user d s n m b = (if unat (b - d) < nat n then m (s + (b - d)) else m b)"
  using copy_up_spec [OF assms] assms(1) by (simp add: memmove_user_def in_range)

lemma memmove_user_smears: "memmove_user 11 10 2 m 12 = m 10"
  by (simp add: memmove_user_def numeral_2_eq_2)

section \<open>Bounded strings\<close>

text \<open>\<open>safestrcpy\<close> with room for \<open>n > 0\<close> bytes leaves a string of some length \<open>k < n\<close> in the
  destination: the first \<open>k\<close> bytes are those of the source, none of them NUL, then comes a NUL; the
  string is cut only when the source is longer than \<open>n - 1\<close> bytes; nothing outside the \<open>n\<close> bytes of
  the destination changes. The destination lies in the address space and apart from the source.\<close>

theorem safestrcpy_terminates:
  assumes "0 < n" and "unat s + nat n \<le> 2 ^ 32"
    and "\<And>i j. i < nat n \<Longrightarrow> j < nat n \<Longrightarrow> s + of_nat i \<noteq> t + of_nat j"
  shows "\<exists>k<nat n. (\<forall>i<k. safestrcpy s t n m (s + of_nat i) = m (t + of_nat i) \<and> m (t + of_nat i) \<noteq> 0) \<and>
    safestrcpy s t n m (s + of_nat k) = 0 \<and> (k + 1 < nat n \<longrightarrow> m (t + of_nat k) = 0) \<and>
    (\<forall>b. (\<forall>i<nat n. b \<noteq> s + of_nat i) \<longrightarrow> safestrcpy s t n m b = m b)"
proof -
  define l where "l = nat (n - 1)"
  have n: "nat n = Suc l" using assms(1) by (simp add: l_def)
  have at: "safestrcpy s t n m = safestrcpy_loop l s t m" using assms(1) by (simp add: safestrcpy_def l_def)
  have "unat s + l < 2 ^ 32" using assms(2) n by simp
  moreover have "s + of_nat i \<noteq> t + of_nat j" if "i \<le> l" "j \<le> l" for i j using assms(3) that n by simp
  ultimately show ?thesis
    unfolding at n less_Suc_eq_le Suc_eq_plus1 [symmetric] Suc_le_eq by (rule safestrcpy_loop_spec)
qed

theorem safestrcpy_terminates_witness:
  "\<exists>k<2. safestrcpy 100 10 2 (\<lambda>a. 65) (100 + of_nat k) = 0"
proof -
  have "\<exists>k<nat 2. (\<forall>i<k. safestrcpy 100 10 2 (\<lambda>a. 65) (100 + of_nat i) = 65 \<and> (65 :: 8 word) \<noteq> 0) \<and>
    safestrcpy 100 10 2 (\<lambda>a. 65) (100 + of_nat k) = 0 \<and> (k + 1 < nat 2 \<longrightarrow> (65 :: 8 word) = 0) \<and>
    (\<forall>b. (\<forall>i<nat 2. b \<noteq> 100 + of_nat i) \<longrightarrow> safestrcpy 100 10 2 (\<lambda>a. 65) b = 65)"
    by (rule safestrcpy_terminates [where m = "\<lambda>a. 65"]) (auto simp: less_2_cases_iff)
  then show ?thesis by auto
qed

end
