(* ===== verification/FsBlock.thy ===== *)
theory FsBlock
  imports LogTx
begin

text \<open>
  The lowest layer of the file system (\<open>fs.c\<close>): the super block and the allocation of disk blocks in
  the bitmap. The functions run on the log and the buffer cache of the theories below; the super block
  \<open>sb\<close>, which is read once, is an argument.
\<close>

section \<open>Definitions\<close>

record superblock =
  sb_size :: nat
  sb_nblocks :: nat
  sb_ninodes :: nat
  sb_nlog :: nat
  sb_logstart :: nat
  sb_inodestart :: nat
  sb_bmapstart :: nat

definition sb_of :: "block \<Rightarrow> superblock" where
  "sb_of d = \<lparr>sb_size = unat (get32 d 0), sb_nblocks = unat (get32 d 1), sb_ninodes = unat (get32 d 2),
     sb_nlog = unat (get32 d 3), sb_logstart = unat (get32 d 4), sb_inodestart = unat (get32 d 5),
     sb_bmapstart = unat (get32 d 6)\<rparr>"

definition readsb :: "int \<Rightarrow> nat \<Rightarrow> logst \<Rightarrow> (superblock \<times> logst) result" where
  "readsb me dev s =
     rbind (bread me dev 1 s) (\<lambda>(bp, s1).
     rbind (brelse me bp s1) (\<lambda>s2. Inr (sb_of (b_data (bufs s1 bp)), s2)))"

definition BBLOCK :: "nat \<Rightarrow> superblock \<Rightarrow> nat" where
  "BBLOCK b sb = b div 4096 + sb_bmapstart sb"

definition bit_mask :: "nat \<Rightarrow> 8 word" where
  "bit_mask bi = push_bit (bi mod 8) 1"

definition bit_used :: "block \<Rightarrow> nat \<Rightarrow> bool" where
  "bit_used d bi \<longleftrightarrow> d (bi div 8) AND bit_mask bi \<noteq> 0"

definition set_used :: "nat \<Rightarrow> block \<Rightarrow> block" where
  "set_used bi d = d(bi div 8 := d (bi div 8) OR bit_mask bi)"

definition clear_used :: "nat \<Rightarrow> block \<Rightarrow> block" where
  "clear_used bi d = d(bi div 8 := d (bi div 8) AND NOT (bit_mask bi))"

function balloc_from :: "int \<Rightarrow> superblock \<Rightarrow> nat \<Rightarrow> nat \<Rightarrow> logst \<Rightarrow> (nat \<times> logst) result" where
  "balloc_from me sb dev b s =
     (if b < sb_size sb then
        rbind (bread me dev (BBLOCK b sb) s) (\<lambda>(bp, s1).
        case List.find (\<lambda>bi. \<not> bit_used (b_data (bufs s1 bp)) bi) [0..<min 4096 (sb_size sb - b)] of
          Some bi \<Rightarrow>
            rbind (log_write bp (upd_b bp (\<lambda>r. r\<lparr>b_data := set_used bi (b_data r)\<rparr>) s1)) (\<lambda>s2.
            rbind (brelse me bp s2) (\<lambda>s3.
            rbind (bzero me dev (b + bi) s3) (\<lambda>s4. Inr (b + bi, s4))))
        | None \<Rightarrow> rbind (brelse me bp s1) (balloc_from me sb dev (b + 4096)))
      else Inl (Panic ''balloc: out of blocks''))"
  by pat_completeness auto
termination by (relation "measure (\<lambda>(me, sb, dev, b, s). sb_size sb - b)") auto

declare balloc_from.simps [simp del]

definition balloc :: "int \<Rightarrow> superblock \<Rightarrow> nat \<Rightarrow> logst \<Rightarrow> (nat \<times> logst) result" where
  "balloc me sb dev s = balloc_from me sb dev 0 s"

definition bfree :: "int \<Rightarrow> superblock \<Rightarrow> nat \<Rightarrow> nat \<Rightarrow> logst \<Rightarrow> logst result" where
  "bfree me sb dev b s =
     rbind (bread me dev (BBLOCK b sb) s) (\<lambda>(bp, s1).
     let bi = b mod 4096 in
     rbind (ensure (bit_used (b_data (bufs s1 bp)) bi) (Panic ''freeing free block'')) (\<lambda>_.
     rbind (log_write bp (upd_b bp (\<lambda>r. r\<lparr>b_data := clear_used bi (b_data r)\<rparr>) s1)) (brelse me bp)))"

section \<open>Bits\<close>

lemma bit_bit_mask: "bit (bit_mask bi) n \<longleftrightarrow> n = bi mod 8"
  unfolding bit_mask_def by (auto simp: bit_simps)

lemma bit_used_bit: "bit_used d bi \<longleftrightarrow> bit (d (bi div 8)) (bi mod 8)"
proof
  assume "bit_used d bi"
  then obtain n where "bit (d (bi div 8) AND bit_mask bi) n" unfolding bit_used_def by (metis bit_eqI bit_0_eq bot_apply bot_bool_def)
  then show "bit (d (bi div 8)) (bi mod 8)" by (auto simp: bit_and_iff bit_bit_mask)
next
  assume "bit (d (bi div 8)) (bi mod 8)"
  then have "bit (d (bi div 8) AND bit_mask bi) (bi mod 8)" by (simp add: bit_and_iff bit_bit_mask)
  then show "bit_used d bi" unfolding bit_used_def by (metis bit_0_eq bot_apply bot_bool_def)
qed

lemma same_bit: "bi div 8 = bj div 8 \<Longrightarrow> bi mod 8 = bj mod 8 \<Longrightarrow> bi = (bj :: nat)"
  by (metis div_mult_mod_eq)

lemma set_used_bit [simp]: "bit_used (set_used bi d) bj \<longleftrightarrow> bj = bi \<or> bit_used d bj"
  using same_bit [of bj bi] by (auto simp: bit_used_bit set_used_def bit_or_iff bit_bit_mask)

lemma clear_used_bit [simp]: "bit_used (clear_used bi d) bj \<longleftrightarrow> bj \<noteq> bi \<and> bit_used d bj"
  using same_bit [of bj bi] by (auto simp: bit_used_bit clear_used_def bit_and_iff bit_not_iff bit_bit_mask)

section \<open>The layout of the disk\<close>

definition bmap_end :: "superblock \<Rightarrow> nat" where
  "bmap_end sb = sb_bmapstart sb + sb_size sb div 4096 + 1"

definition layout :: "superblock \<Rightarrow> logst \<Rightarrow> bool" where
  "layout sb s \<longleftrightarrow> sb_size sb \<le> disksize s \<and> 2 \<le> l_start s \<and> l_start s + l_size s \<le> sb_inodestart sb \<and>
     sb_inodestart sb + sb_ninodes sb div 8 < sb_bmapstart sb \<and> bmap_end sb \<le> sb_size sb"

definition used :: "superblock \<Rightarrow> (nat \<Rightarrow> block) \<Rightarrow> nat \<Rightarrow> bool" where
  "used sb V b \<longleftrightarrow> bit_used (V (BBLOCK b sb)) (b mod 4096)"

lemma layout_same: "same_log s s' \<Longrightarrow> layout sb s' = layout sb s"
  using same_logD(1,2,4) [of s s'] by (simp add: layout_def)

lemma layout_runs: "runs me H k V s s' \<Longrightarrow> layout sb s' = layout sb s"
  using layout_same runsD(3) by blast

lemma BBLOCK_between:
  assumes "b < sb_size sb"
  shows "sb_bmapstart sb \<le> BBLOCK b sb" and "BBLOCK b sb < bmap_end sb"
  using div_le_mono [of b "sb_size sb" 4096] assms by (auto simp: BBLOCK_def bmap_end_def)

lemma layoutD:
  assumes "layout sb s"
  shows "sb_size sb \<le> disksize s" and "bmap_end sb \<le> sb_size sb"
    and "sb_bmapstart sb \<le> b \<Longrightarrow> b \<notin> log_area s" and "sb_inodestart sb \<le> b \<Longrightarrow> b \<notin> log_area s"
    and "sb_inodestart sb + sb_ninodes sb div 8 < sb_bmapstart sb" and "sb_bmapstart sb < bmap_end sb"
  using assms by (auto simp: layout_def log_area_def bmap_end_def)

lemma BBLOCK_ok:
  assumes "layout sb s" and "b < sb_size sb"
  shows "BBLOCK b sb < disksize s" and "BBLOCK b sb \<notin> log_area s" and "bmap_end sb \<le> c \<Longrightarrow> BBLOCK b sb \<noteq> c"
  using BBLOCK_between [OF assms(2)] layoutD(1,2) [OF assms(1)] layoutD(3) [OF assms(1), of "BBLOCK b sb"] by auto

text \<open>The bitmap after a change of one bit.\<close>

definition mark_used :: "superblock \<Rightarrow> nat \<Rightarrow> (nat \<Rightarrow> block) \<Rightarrow> nat \<Rightarrow> block" where
  "mark_used sb b V = V(BBLOCK b sb := set_used (b mod 4096) (V (BBLOCK b sb)))"

definition mark_free :: "superblock \<Rightarrow> nat \<Rightarrow> (nat \<Rightarrow> block) \<Rightarrow> nat \<Rightarrow> block" where
  "mark_free sb b V = V(BBLOCK b sb := clear_used (b mod 4096) (V (BBLOCK b sb)))"

lemma same_block_bit: "BBLOCK b sb = BBLOCK c sb \<Longrightarrow> b mod 4096 = c mod 4096 \<Longrightarrow> b = c"
  unfolding BBLOCK_def by (metis add_right_cancel div_mult_mod_eq)

lemma used_mark_used [simp]: "used sb (mark_used sb b V) c \<longleftrightarrow> c = b \<or> used sb V c"
  using same_block_bit [of c sb b] by (auto simp: used_def mark_used_def)

lemma used_mark_free [simp]: "used sb (mark_free sb b V) c \<longleftrightarrow> c \<noteq> b \<and> used sb V c"
  using same_block_bit [of c sb b] by (auto simp: used_def mark_free_def)

lemma mark_other: "c \<noteq> BBLOCK b sb \<Longrightarrow> mark_used sb b V c = V c" "c \<noteq> BBLOCK b sb \<Longrightarrow> mark_free sb b V c = V c"
  by (simp_all add: mark_used_def mark_free_def)

lemma used_data_block: "bmap_end sb \<le> c \<Longrightarrow> b < sb_size sb \<Longrightarrow> used sb (V(c := d)) b = used sb V b"
  using BBLOCK_between(2) [of b sb] by (auto simp: used_def)

section \<open>Freeing and allocating\<close>

text \<open>The buffers that the process holds are of data blocks, none of them the block in question.\<close>

definition holds_data :: "superblock \<Rightarrow> nat set \<Rightarrow> logst \<Rightarrow> bool" where
  "holds_data sb H s \<longleftrightarrow> (\<forall>i\<in>H. bmap_end sb \<le> b_blockno (bufs s i))"

lemma holds_dataD:
  assumes "holds_data sb H s" and "i \<in> H" and "b < sb_size sb"
  shows "b_blockno (bufs s i) \<noteq> BBLOCK b sb"
  using assms(1,2) BBLOCK_between(2) [OF assms(3)] unfolding holds_data_def by fastforce

lemma holds_data_runs: "holds_data sb H s \<Longrightarrow> runs me H k V s s' \<Longrightarrow> holds_data sb H s'"
  unfolding holds_data_def runs_def by simp

lemma bfree_ok:
  assumes t: "tx me H (Suc k) s" and l: "layout sb s" and h: "holds_data sb H s" and H: "card H \<le> Suc k"
    and b: "b < sb_size sb"
  shows "used sb (cview s) b \<Longrightarrow> \<exists>s'. bfree me sb 1 b s = Inr s' \<and> runs me H k (mark_free sb b (cview s)) s s'"
    and "\<not> used sb (cview s) b \<Longrightarrow> bfree me sb 1 b s = Inl (Panic ''freeing free block'')"
proof -
  let ?bb = "BBLOCK b sb"
  note bb = BBLOCK_ok [OF l b]
  have nh: "b_blockno (bufs s i) \<noteq> ?bb" if "i \<in> H" for i using holds_dataD [OF h that b] .
  obtain i s1 where r: "bread me 1 ?bb s = Inr (i, s1)" "b_data (bufs s1 i) = cview s ?bb"
    using tx_bread [OF t bb(1) nh H] takenD(4) by blast
  show "bfree me sb 1 b s = Inl (Panic ''freeing free block'')" if "\<not> used sb (cview s) b"
    using that r by (simp add: bfree_def used_def)
  show "\<exists>s'. bfree me sb 1 b s = Inr s' \<and> runs me H k (mark_free sb b (cview s)) s s'" if u: "used sb (cview s) b"
  proof -
    obtain s' where s': "log_update me 1 ?bb (clear_used (b mod 4096)) s = Inr s'"
        "runs me H k ((cview s)(?bb := clear_used (b mod 4096) (cview s ?bb))) s s'"
      using tx_update [OF t bb(1,2) nh H] by blast
    have "bfree me sb 1 b s = log_update me 1 ?bb (clear_used (b mod 4096)) s"
      using u r by (simp add: bfree_def log_update_def used_def Let_def)
    then show ?thesis using s' by (simp add: mark_free_def)
  qed
qed

text \<open>The blocks that \<open>balloc\<close> finds in the block of the bitmap that starts with block \<open>start\<close>.\<close>

lemma find_free_bit:
  assumes "start mod 4096 = 0" and "start < sb_size sb"
  shows "List.find (\<lambda>bi. \<not> bit_used (V (BBLOCK start sb)) bi) [0..<min 4096 (sb_size sb - start)] =
    List.find (\<lambda>bi. \<not> used sb V (start + bi)) [0..<min 4096 (sb_size sb - start)]"
proof (rule find_cong [OF refl])
  fix bi assume "bi \<in> set [0..<min 4096 (sb_size sb - start)]"
  then have bi: "bi < 4096" by simp
  have "(start + bi) div 4096 = start div 4096" "(start + bi) mod 4096 = bi" using assms(1) bi by (auto elim!: dvdE simp: mod_eq_0_iff_dvd)
  then show "(\<not> bit_used (V (BBLOCK start sb)) bi) = (\<not> used sb V (start + bi))" by (simp add: used_def BBLOCK_def)
qed

lemma balloc_from_ok:
  assumes "tx me H (Suc (Suc k)) s" and "layout sb s" and "holds_data sb H s" and "card H \<le> Suc k"
    and "start mod 4096 = 0" and "start \<le> b" and "b < sb_size sb" and "bmap_end sb \<le> b" and "\<not> used sb (cview s) b"
    and "\<And>c. start \<le> c \<Longrightarrow> c < b \<Longrightarrow> used sb (cview s) c" and "\<And>i. i \<in> H \<Longrightarrow> b_blockno (bufs s i) \<noteq> b"
  shows "\<exists>s'. balloc_from me sb 1 start s = Inr (b, s') \<and> runs me H k ((mark_used sb b (cview s))(b := \<lambda>_. 0)) s s'"
  using assms
proof (induction me sb "1 :: nat" start s rule: balloc_from.induct)
  case (1 me sb start s)
  note t = "1.prems"(1) and l = "1.prems"(2) and h = "1.prems"(3) and H = "1.prems"(4)
  have start: "start < sb_size sb" using "1.prems"(6,7) by simp
  let ?bb = "BBLOCK start sb"
  note bb = BBLOCK_ok [OF l start]
  have nh: "b_blockno (bufs s i) \<noteq> ?bb" if "i \<in> H" for i using holds_dataD [OF h that start] .
  obtain i s1 where r: "bread me 1 ?bb s = Inr (i, s1)" "taken me H (Suc (Suc k)) ?bb s i s1"
    using tx_bread [OF t bb(1) nh] H by auto
  note r2 = takenD [OF r(2)]
  note fb = find_free_bit [OF "1.prems"(5) start, of "cview s", folded r2(4)]
  show ?case
  proof (cases "b < start + 4096")
    case True
    then have "List.find (\<lambda>bi. \<not> used sb (cview s) (start + bi)) [0..<min 4096 (sb_size sb - start)] = Some (b - start)"
      using "1.prems"(6,7,9,10) by (intro find_first_eq) auto
    moreover have eq: "?bb = BBLOCK b sb" "b - start = b mod 4096"
    proof -
      obtain q where q: "start = 4096 * q" using "1.prems"(5) by (auto simp: mod_eq_0_iff_dvd elim: dvdE)
      then have "b div 4096 = q" using True "1.prems"(6) by (intro div_nat_eqI) simp_all
      then show "?bb = BBLOCK b sb" "b - start = b mod 4096" using q "1.prems"(6) by (simp_all add: BBLOCK_def modulo_nat_def mult.commute)
    qed
    moreover have sum: "start + b mod 4096 = b" using eq(2) "1.prems"(6) by simp
    moreover obtain s2 s3 where w: "log_write i (upd_b i (\<lambda>r. r\<lparr>b_data := set_used (b mod 4096) (b_data r)\<rparr>) s1) = Inr s2"
        "brelse me i s2 = Inr s3" "runs me H (Suc k) (mark_used sb b (cview s)) s s3"
      using taken_written [OF r(2) bb(2), of "set_used (b mod 4096)"] by (auto simp: mark_used_def eq)
    moreover have "\<exists>s4. bzero me 1 b s3 = Inr s4 \<and> runs me H k ((mark_used sb b (cview s))(b := \<lambda>_. 0)) s3 s4"
    proof -
      have n: "b < disksize s3" "b \<notin> log_area s3" "\<And>j. j \<in> H \<Longrightarrow> b_blockno (bufs s3 j) \<noteq> b"
        using runsD(4,5,6) [OF w(3)] layoutD(1) [OF l] layoutD(3) [OF l, of b] "1.prems"(7,8,11)
        by (auto simp: bmap_end_def)
      then show ?thesis
        using tx_update [OF runsD(1) [OF w(3)] n H, of "\<lambda>_ _. 0"]
        unfolding bzero_def runsD(2) [OF w(3)] by blast
    qed
    ultimately show ?thesis
      using r(1) start fb sum runs_trans [OF w(3)] by (subst balloc_from.simps) auto
  next
    case False
    have nf: "List.find (\<lambda>bi. \<not> bit_used (b_data (bufs s1 i)) bi) [0..<min 4096 (sb_size sb - start)] = None"
      unfolding fb using False "1.prems"(10) by (auto simp: find_None_all)
    moreover obtain s2 where d: "brelse me i s1 = Inr s2" "runs me H (Suc (Suc k)) (cview s) s s2"
      using taken_brelse [OF r(2)] by blast
    moreover have "\<exists>s'. balloc_from me sb 1 (start + 4096) s2 = Inr (b, s') \<and>
        runs me H k ((mark_used sb b (cview s2))(b := \<lambda>_. 0)) s2 s'"
    proof (rule "1.hyps" [OF start r(1) refl nf d(1) runsD(1) [OF d(2)]])
      show "layout sb s2" using layout_runs [OF d(2)] l by simp
      show "holds_data sb H s2" using holds_data_runs [OF h d(2)] .
      show "(start + 4096) mod 4096 = 0" using "1.prems"(5) by simp
      show "used sb (cview s2) c" if "start + 4096 \<le> c" "c < b" for c
        using that "1.prems"(10) runsD(2) [OF d(2)] by simp
      show "b_blockno (bufs s2 i) \<noteq> b" if "i \<in> H" for i using that "1.prems"(11) runsD(4) [OF d(2)] by simp
    qed (use "1.prems"(4,7,8,9) False runsD(2) [OF d(2)] in simp_all)
    ultimately show ?thesis
      using r(1) start nf runsD(2) [OF d(2)] runs_trans [OF d(2)] by (subst balloc_from.simps) auto
  qed
qed

end
