(* ===== verification/FsInode.thy ===== *)
theory FsInode
  imports FsBlock
begin

text \<open>
  Inodes (\<open>fs.c\<close>, \<open>file.h\<close>): their form on the disk, the cache of inodes in memory, and the reading and
  writing of their content. An inode pointer is an index into the cache; where C code can pass or
  return a null pointer it is an option. The state of the file system holds that of the log. A sleep
  lock that is held makes the call wait.
\<close>

section \<open>Data\<close>

record dinode =
  d_type :: "16 word"
  d_major :: "16 word"
  d_minor :: "16 word"
  d_nlink :: "16 word"
  d_size :: u32
  d_addrs :: "nat \<Rightarrow> u32"

record inode = dinode +
  i_dev :: nat
  i_inum :: nat
  i_ref :: int
  i_locked :: bool
  i_pid :: int
  i_valid :: bool

text \<open>
  The device switch gives for a major number what the driver's \<open>read\<close> answers to a number of bytes,
  and its \<open>write\<close> to the bytes; an empty entry has no function.
\<close>

record fsst =
  lg :: logst
  fs_sb :: superblock
  icache :: "nat \<Rightarrow> inode"
  dev_read :: "nat \<Rightarrow> (nat \<Rightarrow> int \<times> 8 word list) option"
  dev_write :: "nat \<Rightarrow> (8 word list \<Rightarrow> int) option"

definition T_DIR :: "16 word" where "T_DIR = 1"
definition T_FILE :: "16 word" where "T_FILE = 2"
definition T_DEV :: "16 word" where "T_DEV = 3"

definition upd_i :: "nat \<Rightarrow> (inode \<Rightarrow> inode) \<Rightarrow> fsst \<Rightarrow> fsst" where
  "upd_i ip f s = s\<lparr>icache := (icache s)(ip := f (icache s ip))\<rparr>"

definition on_log :: "(logst \<Rightarrow> logst result) \<Rightarrow> fsst \<Rightarrow> fsst result" where
  "on_log f s = rbind (f (lg s)) (\<lambda>l. Inr (s\<lparr>lg := l\<rparr>))"

definition from_log :: "(logst \<Rightarrow> ('x \<times> logst) result) \<Rightarrow> fsst \<Rightarrow> ('x \<times> fsst) result" where
  "from_log f s = rbind (f (lg s)) (\<lambda>(x, l). Inr (x, s\<lparr>lg := l\<rparr>))"

text \<open>The bytes of a held buffer, and their change.\<close>

definition bdata :: "fsst \<Rightarrow> nat \<Rightarrow> block" where
  "bdata s bp = b_data (bufs (lg s) bp)"

definition set_bdata :: "nat \<Rightarrow> (block \<Rightarrow> block) \<Rightarrow> fsst \<Rightarrow> fsst" where
  "set_bdata bp f s = s\<lparr>lg := upd_b bp (\<lambda>r. r\<lparr>b_data := f (b_data r)\<rparr>) (lg s)\<rparr>"

section \<open>Inodes on the disk\<close>

definition get16 :: "block \<Rightarrow> nat \<Rightarrow> 16 word" where
  "get16 d i = ucast (d (2 * i)) OR push_bit 8 (ucast (d (2 * i + 1)))"

definition put16 :: "nat \<Rightarrow> 16 word \<Rightarrow> block \<Rightarrow> block" where
  "put16 i w d = d(2 * i := ucast w, 2 * i + 1 := ucast (drop_bit 8 w))"

definition IBLOCK :: "nat \<Rightarrow> superblock \<Rightarrow> nat" where
  "IBLOCK i sb = i div 8 + sb_inodestart sb"

text \<open>The inode in slot \<open>k\<close> of a block of eight, 64 bytes each.\<close>

definition get_dinode :: "nat \<Rightarrow> block \<Rightarrow> dinode" where
  "get_dinode k d = \<lparr>d_type = get16 d (32 * k), d_major = get16 d (32 * k + 1), d_minor = get16 d (32 * k + 2),
     d_nlink = get16 d (32 * k + 3), d_size = get32 d (16 * k + 2), d_addrs = (\<lambda>j. get32 d (16 * k + 3 + j))\<rparr>"

definition put_dinode :: "nat \<Rightarrow> 'a dinode_scheme \<Rightarrow> block \<Rightarrow> block" where
  "put_dinode k di d =
     fold (\<lambda>j d. put32 d (16 * k + 3 + j) (d_addrs di j)) [0..<13]
       (put32 (put16 (32 * k + 3) (d_nlink di) (put16 (32 * k + 2) (d_minor di)
         (put16 (32 * k + 1) (d_major di) (put16 (32 * k) (d_type di) d)))) (16 * k + 2) (d_size di))"

definition zero_dinode :: dinode where
  "zero_dinode = \<lparr>d_type = 0, d_major = 0, d_minor = 0, d_nlink = 0, d_size = 0, d_addrs = (\<lambda>_. 0)\<rparr>"

section \<open>The cache of inodes\<close>

definition iinit :: "int \<Rightarrow> nat \<Rightarrow> fsst \<Rightarrow> fsst result" where
  "iinit me dev s =
     (let s1 = fold (\<lambda>i. upd_i i (\<lambda>r. r\<lparr>i_locked := False, i_pid := 0\<rparr>)) [0..<50] s in
      rbind (from_log (readsb me dev) s1) (\<lambda>(b, s2). Inr (s2\<lparr>fs_sb := b\<rparr>)))"

definition iget :: "nat \<Rightarrow> nat \<Rightarrow> fsst \<Rightarrow> (nat \<times> fsst) result" where
  "iget dev inum s =
     (case List.find (\<lambda>i. i_ref (icache s i) > 0 \<and> i_dev (icache s i) = dev \<and> i_inum (icache s i) = inum) [0..<50] of
        Some i \<Rightarrow> Inr (i, upd_i i (\<lambda>r. r\<lparr>i_ref := i_ref r + 1\<rparr>) s)
      | None \<Rightarrow>
          (case List.find (\<lambda>i. i_ref (icache s i) = 0) [0..<50] of
             Some i \<Rightarrow> Inr (i, upd_i i (\<lambda>r. r\<lparr>i_dev := dev, i_inum := inum, i_ref := 1, i_valid := False\<rparr>) s)
           | None \<Rightarrow> Inl (Panic ''iget: no inodes'')))"

text \<open>\<open>ialloc\<close> tries the inode numbers in order.\<close>

fun ialloc_list :: "int \<Rightarrow> nat \<Rightarrow> 16 word \<Rightarrow> nat list \<Rightarrow> fsst \<Rightarrow> (nat \<times> fsst) result" where
  "ialloc_list me dev ty [] s = Inl (Panic ''ialloc: no inodes'')"
| "ialloc_list me dev ty (inum # inums) s =
     rbind (from_log (bread me dev (IBLOCK inum (fs_sb s))) s) (\<lambda>(bp, s1).
     if d_type (get_dinode (inum mod 8) (bdata s1 bp)) = 0 then
       rbind (on_log (log_write bp) (set_bdata bp (put_dinode (inum mod 8) (zero_dinode\<lparr>d_type := ty\<rparr>)) s1)) (\<lambda>s2.
       rbind (on_log (brelse me bp) s2) (iget dev inum))
     else rbind (on_log (brelse me bp) s1) (ialloc_list me dev ty inums))"

definition ialloc :: "int \<Rightarrow> nat \<Rightarrow> 16 word \<Rightarrow> fsst \<Rightarrow> (nat \<times> fsst) result" where
  "ialloc me dev ty s = ialloc_list me dev ty [1..<sb_ninodes (fs_sb s)] s"

definition iupdate :: "int \<Rightarrow> nat \<Rightarrow> fsst \<Rightarrow> fsst result" where
  "iupdate me ip s =
     rbind (from_log (bread me (i_dev (icache s ip)) (IBLOCK (i_inum (icache s ip)) (fs_sb s))) s) (\<lambda>(bp, s1).
     rbind (on_log (log_write bp)
         (set_bdata bp (put_dinode (i_inum (icache s ip) mod 8) (icache s ip)) s1))
       (on_log (brelse me bp)))"

definition idup :: "nat \<Rightarrow> fsst \<Rightarrow> nat \<times> fsst" where
  "idup ip s = (ip, upd_i ip (\<lambda>r. r\<lparr>i_ref := i_ref r + 1\<rparr>) s)"

definition lock_inode :: "int \<Rightarrow> nat \<Rightarrow> fsst \<Rightarrow> fsst result" where
  "lock_inode me ip s =
     (if i_locked (icache s ip) then Inl Blocked else Inr (upd_i ip (\<lambda>r. r\<lparr>i_locked := True, i_pid := me\<rparr>) s))"

definition unlock_inode :: "nat \<Rightarrow> fsst \<Rightarrow> fsst" where
  "unlock_inode ip s = upd_i ip (\<lambda>r. r\<lparr>i_locked := False, i_pid := 0\<rparr>) s"

definition load_dinode :: "dinode \<Rightarrow> inode \<Rightarrow> inode" where
  "load_dinode di r = r\<lparr>d_type := d_type di, d_major := d_major di, d_minor := d_minor di, d_nlink := d_nlink di,
     d_size := d_size di, d_addrs := d_addrs di\<rparr>"

definition ilock :: "int \<Rightarrow> nat option \<Rightarrow> fsst \<Rightarrow> fsst result" where
  "ilock me p s =
     (case p of
        None \<Rightarrow> Inl (Panic ''ilock'')
      | Some ip \<Rightarrow>
          rbind (ensure (\<not> i_ref (icache s ip) < 1) (Panic ''ilock'')) (\<lambda>_.
          rbind (lock_inode me ip s) (\<lambda>s1.
          if \<not> i_valid (icache s1 ip) then
            rbind (from_log (bread me (i_dev (icache s1 ip)) (IBLOCK (i_inum (icache s1 ip)) (fs_sb s1))) s1) (\<lambda>(bp, s2).
            rbind (on_log (brelse me bp)
                (upd_i ip (load_dinode (get_dinode (i_inum (icache s2 ip) mod 8) (bdata s2 bp))) s2)) (\<lambda>s3.
            let s4 = upd_i ip (\<lambda>r. r\<lparr>i_valid := True\<rparr>) s3 in
            rbind (ensure (\<not> d_type (icache s4 ip) = 0) (Panic ''ilock: no type'')) (\<lambda>_. Inr s4)))
          else Inr s1)))"

definition iunlock :: "int \<Rightarrow> nat option \<Rightarrow> fsst \<Rightarrow> fsst result" where
  "iunlock me p s =
     (case p of
        None \<Rightarrow> Inl (Panic ''iunlock'')
      | Some ip \<Rightarrow>
          rbind (ensure (i_locked (icache s ip) \<and> i_pid (icache s ip) = me \<and> \<not> i_ref (icache s ip) < 1) (Panic ''iunlock''))
            (\<lambda>_. Inr (unlock_inode ip s)))"

section \<open>The blocks of an inode\<close>

definition set_addr :: "nat \<Rightarrow> nat \<Rightarrow> u32 \<Rightarrow> fsst \<Rightarrow> fsst" where
  "set_addr ip j a s = upd_i ip (\<lambda>r. r\<lparr>d_addrs := (d_addrs r)(j := a)\<rparr>) s"

text \<open>The address in slot \<open>j\<close> of the inode, with a new block when it is 0.\<close>

definition bmap_slot :: "int \<Rightarrow> nat \<Rightarrow> nat \<Rightarrow> fsst \<Rightarrow> (u32 \<times> fsst) result" where
  "bmap_slot me ip j s =
     (let a = d_addrs (icache s ip) j in
      if a = 0 then rbind (from_log (balloc me (fs_sb s) (i_dev (icache s ip))) s) (\<lambda>(b, s1).
        Inr (of_nat b, set_addr ip j (of_nat b) s1))
      else Inr (a, s))"

text \<open>The address in entry \<open>i\<close> of the indirect block at \<open>addr\<close>, likewise.\<close>

definition bmap_entry :: "int \<Rightarrow> nat \<Rightarrow> nat \<Rightarrow> u32 \<Rightarrow> fsst \<Rightarrow> (u32 \<times> fsst) result" where
  "bmap_entry me ip i addr s =
     rbind (from_log (bread me (i_dev (icache s ip)) (unat addr)) s) (\<lambda>(bp, s1).
     let a = get32 (bdata s1 bp) i in
     if a = 0 then
       rbind (from_log (balloc me (fs_sb s1) (i_dev (icache s1 ip))) s1) (\<lambda>(b, s2).
       rbind (on_log (log_write bp) (set_bdata bp (\<lambda>d. put32 d i (of_nat b)) s2)) (\<lambda>s3.
       rbind (on_log (brelse me bp) s3) (\<lambda>s4. Inr (of_nat b, s4))))
     else rbind (on_log (brelse me bp) s1) (\<lambda>s2. Inr (a, s2)))"

definition bmap :: "int \<Rightarrow> nat \<Rightarrow> nat \<Rightarrow> fsst \<Rightarrow> (u32 \<times> fsst) result" where
  "bmap me ip bn s =
     (if bn < 12 then bmap_slot me ip bn s
      else if bn - 12 < 128 then rbind (bmap_slot me ip 12 s) (\<lambda>(addr, s1). bmap_entry me ip (bn - 12) addr s1)
      else Inl (Panic ''bmap: out of range''))"

fun run_fs :: "(nat \<Rightarrow> fsst \<Rightarrow> fsst result) \<Rightarrow> nat list \<Rightarrow> fsst \<Rightarrow> fsst result" where
  "run_fs f [] s = Inr s"
| "run_fs f (x # xs) s = rbind (f x s) (run_fs f xs)"

definition free_block :: "int \<Rightarrow> nat \<Rightarrow> u32 \<Rightarrow> fsst \<Rightarrow> fsst result" where
  "free_block me ip a s = on_log (bfree me (fs_sb s) (i_dev (icache s ip)) (unat a)) s"

definition free_direct :: "int \<Rightarrow> nat \<Rightarrow> nat \<Rightarrow> fsst \<Rightarrow> fsst result" where
  "free_direct me ip i s =
     (if d_addrs (icache s ip) i \<noteq> 0
      then rbind (free_block me ip (d_addrs (icache s ip) i) s) (\<lambda>s1. Inr (set_addr ip i 0 s1)) else Inr s)"

definition free_indirect :: "int \<Rightarrow> nat \<Rightarrow> nat \<Rightarrow> nat \<Rightarrow> fsst \<Rightarrow> fsst result" where
  "free_indirect me ip bp j s =
     (if get32 (bdata s bp) j \<noteq> 0 then free_block me ip (get32 (bdata s bp) j) s else Inr s)"

definition itrunc :: "int \<Rightarrow> nat \<Rightarrow> fsst \<Rightarrow> fsst result" where
  "itrunc me ip s =
     rbind (run_fs (free_direct me ip) [0..<12] s) (\<lambda>s1.
     rbind (if d_addrs (icache s1 ip) 12 \<noteq> 0 then
              rbind (from_log (bread me (i_dev (icache s1 ip)) (unat (d_addrs (icache s1 ip) 12))) s1) (\<lambda>(bp, s2).
              rbind (run_fs (free_indirect me ip bp) [0..<128] s2) (\<lambda>s3.
              rbind (on_log (brelse me bp) s3) (\<lambda>s4.
              rbind (free_block me ip (d_addrs (icache s4 ip) 12) s4) (\<lambda>s5. Inr (set_addr ip 12 0 s5)))))
            else Inr s1) (\<lambda>s6.
     iupdate me ip (upd_i ip (\<lambda>r. r\<lparr>d_size := 0\<rparr>) s6)))"

definition iput :: "int \<Rightarrow> nat \<Rightarrow> fsst \<Rightarrow> fsst result" where
  "iput me ip s =
     rbind (lock_inode me ip s) (\<lambda>s1.
     rbind (if i_valid (icache s1 ip) \<and> d_nlink (icache s1 ip) = 0 \<and> i_ref (icache s1 ip) = 1 then
              rbind (itrunc me ip s1) (\<lambda>s2.
              rbind (iupdate me ip (upd_i ip (\<lambda>r. r\<lparr>d_type := 0\<rparr>) s2)) (\<lambda>s3.
              Inr (upd_i ip (\<lambda>r. r\<lparr>i_valid := False\<rparr>) s3)))
            else Inr s1) (\<lambda>s4.
     Inr (upd_i ip (\<lambda>r. r\<lparr>i_ref := i_ref r - 1\<rparr>) (unlock_inode ip s4))))"

definition iunlockput :: "int \<Rightarrow> nat \<Rightarrow> fsst \<Rightarrow> fsst result" where
  "iunlockput me ip s = rbind (iunlock me (Some ip) s) (iput me ip)"

section \<open>The content of an inode\<close>

record stat =
  st_type :: "16 word"
  st_dev :: nat
  st_ino :: nat
  st_nlink :: "16 word"
  st_size :: u32

definition stati :: "nat \<Rightarrow> fsst \<Rightarrow> stat" where
  "stati ip s = \<lparr>st_type = d_type (icache s ip), st_dev = i_dev (icache s ip), st_ino = i_inum (icache s ip),
     st_nlink = d_nlink (icache s ip), st_size = d_size (icache s ip)\<rparr>"

definition bytes_of :: "block \<Rightarrow> nat \<Rightarrow> nat \<Rightarrow> 8 word list" where
  "bytes_of d off m = map (\<lambda>i. d (off + i)) [0..<m]"

definition put_bytes :: "nat \<Rightarrow> 8 word list \<Rightarrow> block \<Rightarrow> block" where
  "put_bytes off xs d = (\<lambda>i. if off \<le> i \<and> i < off + length xs then xs ! (i - off) else d i)"

text \<open>The loops: \<open>n\<close> bytes are left to read from \<open>off\<close> on, or the bytes \<open>src\<close> to write.\<close>

function readi_loop :: "int \<Rightarrow> nat \<Rightarrow> nat \<Rightarrow> nat \<Rightarrow> fsst \<Rightarrow> (8 word list \<times> fsst) result" where
  "readi_loop me ip off n s =
     (if n = 0 then Inr ([], s)
      else rbind (bmap me ip (off div 512) s) (\<lambda>(a, s1).
        rbind (from_log (bread me (i_dev (icache s ip)) (unat a)) s1) (\<lambda>(bp, s2).
        let m = min n (512 - off mod 512); xs = bytes_of (bdata s2 bp) (off mod 512) m in
        rbind (on_log (brelse me bp) s2) (\<lambda>s3.
        rbind (readi_loop me ip (off + m) (n - m) s3) (\<lambda>(ys, s4). Inr (xs @ ys, s4))))))"
  by pat_completeness auto
termination
proof (relation "measure (\<lambda>(me, ip, off, n, s). n)")
qed (auto simp: min_def)

function writei_loop :: "int \<Rightarrow> nat \<Rightarrow> nat \<Rightarrow> 8 word list \<Rightarrow> fsst \<Rightarrow> fsst result" where
  "writei_loop me ip off src s =
     (if src = [] then Inr s
      else rbind (bmap me ip (off div 512) s) (\<lambda>(a, s1).
        rbind (from_log (bread me (i_dev (icache s ip)) (unat a)) s1) (\<lambda>(bp, s2).
        let m = min (length src) (512 - off mod 512) in
        rbind (on_log (log_write bp) (set_bdata bp (put_bytes (off mod 512) (take m src)) s2)) (\<lambda>s3.
        rbind (on_log (brelse me bp) s3) (writei_loop me ip (off + m) (drop m src))))))"
  by pat_completeness auto
termination
proof (relation "measure (\<lambda>(me, ip, off, src, s). length src)")
qed (auto simp: min_def)

declare readi_loop.simps [simp del] writei_loop.simps [simp del]

definition device :: "inode \<Rightarrow> (nat \<Rightarrow> 'x option) \<Rightarrow> 'x option" where
  "device r sw = (if sint (d_major r) < 0 \<or> sint (d_major r) \<ge> 10 then None else sw (nat (sint (d_major r))))"

definition readi :: "int \<Rightarrow> nat \<Rightarrow> u32 \<Rightarrow> u32 \<Rightarrow> fsst \<Rightarrow> (int \<times> 8 word list \<times> fsst) result" where
  "readi me ip off n s =
     (let r = icache s ip in
      if d_type r = T_DEV then
        (case device r (dev_read s) of None \<Rightarrow> Inr (-1, [], s) | Some f \<Rightarrow> (case f (unat n) of (k, xs) \<Rightarrow> Inr (k, xs, s)))
      else if off > d_size r \<or> off + n < off then Inr (-1, [], s)
      else
        let n1 = (if off + n > d_size r then d_size r - off else n) in
        rbind (readi_loop me ip (unat off) (unat n1) s) (\<lambda>(xs, s1). Inr (sint n1, xs, s1)))"

definition writei :: "int \<Rightarrow> nat \<Rightarrow> u32 \<Rightarrow> 8 word list \<Rightarrow> fsst \<Rightarrow> (int \<times> fsst) result" where
  "writei me ip off src s =
     (let r = icache s ip; n = of_nat (length src) in
      if d_type r = T_DEV then
        (case device r (dev_write s) of None \<Rightarrow> Inr (-1, s) | Some f \<Rightarrow> Inr (f src, s))
      else if off > d_size r \<or> off + n < off then Inr (-1, s)
      else if off + n > 71680 then Inr (-1, s)
      else
        rbind (writei_loop me ip (unat off) src s) (\<lambda>s1.
        let off1 = off + n in
        if n > 0 \<and> off1 > d_size (icache s1 ip) then
          rbind (iupdate me ip (upd_i ip (\<lambda>r. r\<lparr>d_size := off1\<rparr>) s1)) (\<lambda>s2. Inr (sint n, s2))
        else Inr (sint n, s1)))"

end
