(* ===== verification/Refcount.thy ===== *)
theory Refcount
  imports Prelude "HOL-Library.Multiset"
begin

text \<open>
  The contract of a table whose entries count the pointers to them, which the table of inodes and the
  table of open files share: \<open>get\<close> gives a pointer to an entry, \<open>dup\<close> copies one, \<open>put\<close> gives one
  back, and each changes the count of its entry by one and no other.
\<close>

datatype ('k, 'p) ref_event = Take_ref 'k | Copy_ref nat | Give_ref 'p nat

text \<open>The events of all users of the table; only pointers that are out are copied or given back.\<close>

fun run_refs :: "('k \<Rightarrow> 's \<Rightarrow> (nat \<times> 's) result) \<Rightarrow> (nat \<Rightarrow> 's \<Rightarrow> 's result) \<Rightarrow> ('p \<Rightarrow> nat \<Rightarrow> 's \<Rightarrow> 's result) \<Rightarrow>
    ('k, 'p) ref_event list \<Rightarrow> nat multiset \<Rightarrow> 's \<Rightarrow> (nat multiset \<times> 's) result" where
  "run_refs get dup put [] M s = Inr (M, s)"
| "run_refs get dup put (Take_ref k # es) M s =
     rbind (get k s) (\<lambda>(i, s1). run_refs get dup put es (add_mset i M) s1)"
| "run_refs get dup put (Copy_ref i # es) M s =
     (if i \<in># M then rbind (dup i s) (run_refs get dup put es (add_mset i M)) else Inl NullDeref)"
| "run_refs get dup put (Give_ref p i # es) M s =
     (if i \<in># M then rbind (put p i s) (run_refs get dup put es (M - {#i#})) else Inl NullDeref)"

locale refcount =
  fixes cnt :: "'s \<Rightarrow> nat \<Rightarrow> int"
    and ok :: "'s \<Rightarrow> bool"
    and get :: "'k \<Rightarrow> 's \<Rightarrow> (nat \<times> 's) result"
    and dup :: "nat \<Rightarrow> 's \<Rightarrow> 's result"
    and put :: "'p \<Rightarrow> nat \<Rightarrow> 's \<Rightarrow> 's result"
  assumes get_cnt: "ok s \<Longrightarrow> get k s = Inr (i, s') \<Longrightarrow> ok s' \<and> cnt s' = (cnt s)(i := cnt s i + 1)"
    and dup_cnt: "ok s \<Longrightarrow> 0 < cnt s i \<Longrightarrow> dup i s = Inr s' \<Longrightarrow> ok s' \<and> cnt s' = (cnt s)(i := cnt s i + 1)"
    and put_cnt: "ok s \<Longrightarrow> 0 < cnt s i \<Longrightarrow> put p i s = Inr s' \<Longrightarrow> ok s' \<and> cnt s' = (cnt s)(i := cnt s i - 1)"
begin

definition exact :: "nat multiset \<Rightarrow> 's \<Rightarrow> bool" where
  "exact M s \<longleftrightarrow> ok s \<and> (\<forall>i. cnt s i = int (count M i))"

lemma exactI: "ok s \<Longrightarrow> (\<And>i. cnt s i = int (count M i)) \<Longrightarrow> exact M s"
  by (simp add: exact_def)

lemma exactD:
  assumes "exact M s"
  shows "ok s" and "cnt s i = int (count M i)" and "i \<in># M \<Longrightarrow> 0 < cnt s i"
  using assms by (auto simp: exact_def)

lemma exact_get: "exact M s \<Longrightarrow> get k s = Inr (i, s') \<Longrightarrow> exact (add_mset i M) s'"
  using get_cnt [of s k i s'] exactD [of M s] by (auto intro: exactI)

lemma exact_dup: "exact M s \<Longrightarrow> i \<in># M \<Longrightarrow> dup i s = Inr s' \<Longrightarrow> exact (add_mset i M) s'"
  using dup_cnt [of s i s'] exactD [of M s] by (auto intro: exactI)

lemma exact_put:
  assumes "exact M s" and "i \<in># M" and "put p i s = Inr s'"
  shows "exact (M - {#i#}) s'"
proof (rule exactI)
  have d: "ok s' \<and> cnt s' = (cnt s)(i := cnt s i - 1)"
    using put_cnt [OF exactD(1) [OF assms(1)] exactD(3) [OF assms(1,2)] assms(3)] .
  then show "ok s'" by blast
  have "0 < count M i" using assms(2) by simp
  then show "cnt s' j = int (count (M - {#i#}) j)" for j
    using d exactD(2) [OF assms(1)] by auto
qed

lemma run_exact:
  assumes "exact M s" and "run_refs get dup put es M s = Inr (M', s')"
  shows "exact M' s'"
  using assms
proof (induction es arbitrary: M s)
  case (Cons e es)
  show ?case
  proof (cases e)
    case (Take_ref k)
    then obtain i s1 where "get k s = Inr (i, s1)" "run_refs get dup put es (add_mset i M) s1 = Inr (M', s')"
      using Cons.prems(2) by (auto simp: rbind_eq_Inr)
    then show ?thesis using Cons.IH exact_get Cons.prems(1) by blast
  next
    case (Copy_ref i)
    then obtain s1 where "i \<in># M" "dup i s = Inr s1" "run_refs get dup put es (add_mset i M) s1 = Inr (M', s')"
      using Cons.prems(2) by (auto simp: rbind_eq_Inr split: if_splits)
    then show ?thesis using Cons.IH exact_dup Cons.prems(1) by blast
  next
    case (Give_ref p i)
    then obtain s1 where "i \<in># M" "put p i s = Inr s1" "run_refs get dup put es (M - {#i#}) s1 = Inr (M', s')"
      using Cons.prems(2) by (auto simp: rbind_eq_Inr split: if_splits)
    then show ?thesis using Cons.IH exact_put Cons.prems(1) by blast
  qed
qed simp

text \<open>An entry with a pointer out is never free.\<close>

lemma live: "exact M s \<Longrightarrow> i \<in># M \<longleftrightarrow> 0 < cnt s i"
  using exactD [of M s] by (auto simp: count_greater_zero_iff [symmetric] simp del: count_greater_zero_iff)

end

end
