(* ===== verification/FsCache.thy ===== *)
theory FsCache
  imports FsInode Refcount
begin

text \<open>
  The cache of inodes as a table that counts pointers: \<open>iget\<close>, \<open>idup\<close> and \<open>iput\<close> keep the count of each
  entry at the number of the pointers that are out, also when \<open>iput\<close> frees the inode on the disk, and
  no inode has two entries in use.
\<close>

definition inode_count :: "fsst \<Rightarrow> nat \<Rightarrow> int" where
  "inode_count s i = (if i < 50 then i_ref (icache s i) else 0)"

definition icache_ok :: "fsst \<Rightarrow> bool" where
  "icache_ok s \<longleftrightarrow> (\<forall>i<50. 0 \<le> i_ref (icache s i)) \<and>
     (\<forall>i<50. \<forall>j<50. 0 < i_ref (icache s i) \<longrightarrow> 0 < i_ref (icache s j) \<longrightarrow> i_dev (icache s i) = i_dev (icache s j) \<longrightarrow>
        i_inum (icache s i) = i_inum (icache s j) \<longrightarrow> i = j)"

lemma icache_okD:
  assumes "icache_ok s"
  shows "i < 50 \<Longrightarrow> 0 \<le> i_ref (icache s i)"
    and "i < 50 \<Longrightarrow> j < 50 \<Longrightarrow> 0 < i_ref (icache s i) \<Longrightarrow> 0 < i_ref (icache s j) \<Longrightarrow>
      i_dev (icache s i) = i_dev (icache s j) \<Longrightarrow> i_inum (icache s i) = i_inum (icache s j) \<Longrightarrow> i = j"
  using assms unfolding icache_ok_def by blast+

text \<open>Steps that leave counts and identities of all entries alone.\<close>

definition same_refs :: "fsst \<Rightarrow> fsst \<Rightarrow> bool" where
  "same_refs s s' \<longleftrightarrow> (\<forall>j. i_ref (icache s' j) = i_ref (icache s j) \<and> i_dev (icache s' j) = i_dev (icache s j) \<and>
     i_inum (icache s' j) = i_inum (icache s j))"

named_theorems refs_intros \<open>steps that keep the counts of the inodes\<close>

lemma same_refs_refl [simp, refs_intros]: "same_refs s s"
  by (simp add: same_refs_def)

lemma same_refs_trans: "same_refs s s1 \<Longrightarrow> same_refs s1 s2 \<Longrightarrow> same_refs s s2"
  by (simp add: same_refs_def)

lemma upd_i_refs:
  assumes "i_ref (f (icache s ip)) = i_ref (icache s ip)" and "i_dev (f (icache s ip)) = i_dev (icache s ip)"
    and "i_inum (f (icache s ip)) = i_inum (icache s ip)"
  shows "same_refs s (upd_i ip f s)"
  using assms by (simp add: same_refs_def upd_i_def)

lemma on_log_refs [refs_intros]: "on_log f s = Inr s' \<Longrightarrow> same_refs s s'"
  by (auto simp: on_log_def rbind_eq_Inr same_refs_def)

lemma from_log_refs [refs_intros]: "from_log f s = Inr (x, s') \<Longrightarrow> same_refs s s'"
  by (auto simp: from_log_def rbind_eq_Inr same_refs_def)

lemma set_bdata_refs [simp]: "same_refs (set_bdata b f s) s' = same_refs s s'"
  by (simp add: same_refs_def set_bdata_def)

lemma iupdate_refs [refs_intros]: "iupdate me ip s = Inr s' \<Longrightarrow> same_refs s s'"
proof -
  assume "iupdate me ip s = Inr s'"
  then obtain s1 s2 where "same_refs s s1" "same_refs s1 s2" "same_refs s2 s'"
    by (auto simp: iupdate_def rbind_eq_Inr dest!: on_log_refs from_log_refs)
  then show ?thesis by (blast intro: same_refs_trans)
qed

lemma set_addr_refs: "same_refs s (set_addr ip j a s)"
  unfolding set_addr_def by (rule upd_i_refs) simp_all

lemma free_block_refs: "free_block me ip a s = Inr s' \<Longrightarrow> same_refs s s'"
  unfolding free_block_def by (rule on_log_refs)

lemma free_direct_refs: "free_direct me ip i s = Inr s' \<Longrightarrow> same_refs s s'"
  unfolding free_direct_def
  by (auto simp: rbind_eq_Inr split: if_splits intro: same_refs_trans [OF free_block_refs set_addr_refs])

lemma free_indirect_refs: "free_indirect me ip bp j s = Inr s' \<Longrightarrow> same_refs s s'"
  unfolding free_indirect_def by (auto split: if_splits dest: free_block_refs)

lemma run_fs_refs:
  assumes "\<And>x s s'. f x s = Inr s' \<Longrightarrow> same_refs s s'"
  shows "run_fs f xs s = Inr s' \<Longrightarrow> same_refs s s'"
proof (induction xs arbitrary: s)
  case (Cons x xs)
  then obtain s1 where "f x s = Inr s1" "run_fs f xs s1 = Inr s'" by (auto simp: rbind_eq_Inr)
  then show ?case using Cons.IH assms same_refs_trans by blast
qed simp

lemma itrunc_refs:
  assumes "itrunc me ip s = Inr s'"
  shows "same_refs s s'"
proof -
  obtain s1 s6 where 1: "run_fs (free_direct me ip) [0..<12] s = Inr s1"
      and 6: "(if d_addrs (icache s1 ip) 12 \<noteq> 0 then
              rbind (from_log (bread me (i_dev (icache s1 ip)) (unat (d_addrs (icache s1 ip) 12))) s1) (\<lambda>(bp, s2).
              rbind (run_fs (free_indirect me ip bp) [0..<128] s2) (\<lambda>s3.
              rbind (on_log (brelse me bp) s3) (\<lambda>s4.
              rbind (free_block me ip (d_addrs (icache s4 ip) 12) s4) (\<lambda>s5. Inr (set_addr ip 12 0 s5)))))
            else Inr s1) = Inr s6"
      and 7: "iupdate me ip (upd_i ip (\<lambda>r. r\<lparr>d_size := 0\<rparr>) s6) = Inr s'"
    using assms unfolding itrunc_def rbind_eq_Inr by blast
  have "same_refs s s1" by (rule run_fs_refs [OF free_direct_refs 1])
  moreover have "same_refs s1 s6"
  proof (cases "d_addrs (icache s1 ip) 12 \<noteq> 0")
    case True
    then obtain bp s2 s3 s4 s5 where r: "from_log (bread me (i_dev (icache s1 ip)) (unat (d_addrs (icache s1 ip) 12))) s1 = Inr (bp, s2)"
        "run_fs (free_indirect me ip bp) [0..<128] s2 = Inr s3" "on_log (brelse me bp) s3 = Inr s4"
        "free_block me ip (d_addrs (icache s4 ip) 12) s4 = Inr s5" "s6 = set_addr ip 12 0 s5"
      using 6 by (auto simp: rbind_eq_Inr)
    have "same_refs s1 s2" "same_refs s3 s4" "same_refs s4 s5" "same_refs s5 s6"
      using from_log_refs [OF r(1)] on_log_refs [OF r(3)] free_block_refs [OF r(4)] set_addr_refs r(5) by simp_all
    moreover have "same_refs s2 s3" by (rule run_fs_refs [OF free_indirect_refs r(2)])
    ultimately show ?thesis by (blast intro: same_refs_trans)
  next
    case False
    then show ?thesis using 6 by simp
  qed
  moreover have "same_refs s6 s'"
    using same_refs_trans [OF _ iupdate_refs [OF 7]] upd_i_refs [of "\<lambda>r. r\<lparr>d_size := 0\<rparr>" s6 ip] by simp
  ultimately show ?thesis using same_refs_trans by blast
qed

section \<open>iget, idup and iput\<close>

lemma iput_refs:
  assumes "iput me ip s = Inr s'"
  shows "icache s' j = icache s' j \<and> i_ref (icache s' j) = (if j = ip then i_ref (icache s j) - 1 else i_ref (icache s j)) \<and>
    i_dev (icache s' j) = i_dev (icache s j) \<and> i_inum (icache s' j) = i_inum (icache s j)"
proof -
  obtain s1 s4 where 1: "lock_inode me ip s = Inr s1"
      and 4: "(if i_valid (icache s1 ip) \<and> d_nlink (icache s1 ip) = 0 \<and> i_ref (icache s1 ip) = 1 then
              rbind (itrunc me ip s1) (\<lambda>s2.
              rbind (iupdate me ip (upd_i ip (\<lambda>r. r\<lparr>d_type := 0\<rparr>) s2)) (\<lambda>s3.
              Inr (upd_i ip (\<lambda>r. r\<lparr>i_valid := False\<rparr>) s3)))
            else Inr s1) = Inr s4"
      and s': "s' = upd_i ip (\<lambda>r. r\<lparr>i_ref := i_ref r - 1\<rparr>) (unlock_inode ip s4)"
    using assms unfolding iput_def rbind_eq_Inr by auto
  have "same_refs s s1"
    using 1 upd_i_refs [of "\<lambda>r. r\<lparr>i_locked := True, i_pid := me\<rparr>" s ip] by (auto simp: lock_inode_def split: if_splits)
  moreover have "same_refs s1 s4"
  proof (cases "i_valid (icache s1 ip) \<and> d_nlink (icache s1 ip) = 0 \<and> i_ref (icache s1 ip) = 1")
    case True
    then obtain s2 s3 where r: "itrunc me ip s1 = Inr s2" "iupdate me ip (upd_i ip (\<lambda>r. r\<lparr>d_type := 0\<rparr>) s2) = Inr s3"
        "s4 = upd_i ip (\<lambda>r. r\<lparr>i_valid := False\<rparr>) s3"
      using 4 by (auto simp: rbind_eq_Inr)
    have "same_refs s1 s2" "same_refs (upd_i ip (\<lambda>r. r\<lparr>d_type := 0\<rparr>) s2) s3" using itrunc_refs [OF r(1)] iupdate_refs [OF r(2)] .
    moreover have "same_refs s2 (upd_i ip (\<lambda>r. r\<lparr>d_type := 0\<rparr>) s2)" by (rule upd_i_refs) simp_all
    moreover have "same_refs s3 s4" unfolding r(3) by (rule upd_i_refs) simp_all
    ultimately show ?thesis by (blast intro: same_refs_trans)
  next
    case False
    then show ?thesis using 4 by (auto split: if_splits)
  qed
  ultimately have "same_refs s s4" by (rule same_refs_trans)
  then show ?thesis unfolding s' by (simp add: same_refs_def upd_i_def unlock_inode_def)
qed

lemma iget_refs:
  assumes ok: "icache_ok s" and r: "iget dev inum s = Inr (i, s')"
  shows "i < 50" and "i_ref (icache s' j) = (if j = i then i_ref (icache s j) + 1 else i_ref (icache s j))" and "icache_ok s'"
    and "i_dev (icache s' i) = dev" and "i_inum (icache s' i) = inum" and "lg s' = lg s"
proof -
  let ?hit = "\<lambda>i. i_ref (icache s i) > 0 \<and> i_dev (icache s i) = dev \<and> i_inum (icache s i) = inum"
  let ?p = "i < 50 \<and> (\<forall>j. i_ref (icache s' j) = (if j = i then i_ref (icache s j) + 1 else i_ref (icache s j))) \<and> icache_ok s' \<and>
    i_dev (icache s' i) = dev \<and> i_inum (icache s' i) = inum \<and> lg s' = lg s"
  have ?p
  proof (cases "List.find ?hit [0..<50]")
    case (Some k)
    then have k: "k < 50" "?hit k" using find_Some_first(1) [OF Some] find_SomeD [OF Some] by auto
    have i: "i = k" "s' = upd_i k (\<lambda>r. r\<lparr>i_ref := i_ref r + 1\<rparr>) s" using r Some by (auto simp: iget_def)
    then have c: "icache s' = (icache s)(k := (icache s k)\<lparr>i_ref := i_ref (icache s k) + 1\<rparr>)" by (simp add: upd_i_def)
    have "icache_ok s'"
      unfolding icache_ok_def c using icache_okD [OF ok] k by (auto split: if_splits)
    then show ?thesis using k i c by (auto simp: upd_i_def)
  next
    case None
    then have fresh: "\<not> ?hit j" if "j < 50" for j using that by (auto simp: find_None_all)
    then obtain k where k: "List.find (\<lambda>i. i_ref (icache s i) = 0) [0..<50] = Some k" "i = k"
        "s' = upd_i k (\<lambda>r. r\<lparr>i_dev := dev, i_inum := inum, i_ref := 1, i_valid := False\<rparr>) s"
      using r None by (auto simp: iget_def split: option.splits)
    then have k50: "k < 50" "i_ref (icache s k) = 0" using find_SomeD [OF k(1)] by auto
    have c: "icache s' = (icache s)(k := (icache s k)\<lparr>i_dev := dev, i_inum := inum, i_ref := 1, i_valid := False\<rparr>)"
      using k(3) by (simp add: upd_i_def)
    have "icache_ok s'"
      unfolding icache_ok_def c using icache_okD [OF ok] fresh k50 by (auto split: if_splits)
    then show ?thesis using k k50 c by (auto simp: upd_i_def)
  qed
  then show "i < 50" "i_ref (icache s' j) = (if j = i then i_ref (icache s j) + 1 else i_ref (icache s j))" "icache_ok s'"
      "i_dev (icache s' i) = dev" "i_inum (icache s' i) = inum" "lg s' = lg s" by blast+
qed

definition iget_key :: "nat \<times> nat \<Rightarrow> fsst \<Rightarrow> (nat \<times> fsst) result" where
  "iget_key k s = iget (fst k) (snd k) s"

definition idup_ref :: "nat \<Rightarrow> fsst \<Rightarrow> fsst result" where
  "idup_ref ip s = Inr (snd (idup ip s))"

interpretation inode_table: refcount inode_count icache_ok iget_key idup_ref iput
proof
  fix s k i s' assume ok: "icache_ok s" and "iget_key k s = Inr (i, s')"
  note r = iget_refs [OF ok this(2) [unfolded iget_key_def]]
  then show "icache_ok s' \<and> inode_count s' = (inode_count s)(i := inode_count s i + 1)"
    by (auto simp: inode_count_def fun_eq_iff)
next
  fix s i s' assume ok: "icache_ok s" and pos: "0 < inode_count s i" and "idup_ref i s = Inr s'"
  then have i: "i < 50" "0 < i_ref (icache s i)" and c: "icache s' = (icache s)(i := (icache s i)\<lparr>i_ref := i_ref (icache s i) + 1\<rparr>)"
    by (auto simp: inode_count_def idup_ref_def idup_def upd_i_def split: if_splits)
  have "icache_ok s'" unfolding icache_ok_def c using icache_okD [OF ok] i by (auto split: if_splits)
  then show "icache_ok s' \<and> inode_count s' = (inode_count s)(i := inode_count s i + 1)"
    using i by (auto simp: inode_count_def c fun_eq_iff)
next
  fix s me i s' assume ok: "icache_ok s" and pos: "0 < inode_count s i" and r: "iput me i s = Inr s'"
  then have i: "i < 50" "0 < i_ref (icache s i)" by (auto simp: inode_count_def split: if_splits)
  note d = iput_refs [OF r]
  have "icache_ok s'" unfolding icache_ok_def using icache_okD [OF ok] i d by (simp split: if_splits) (metis le_less)
  then show "icache_ok s' \<and> inode_count s' = (inode_count s)(i := inode_count s i - 1)"
    using i d by (auto simp: inode_count_def fun_eq_iff)
qed

end
