(* ===== verification/FsDir.thy ===== *)
theory FsDir
  imports FsInode
begin

text \<open>
  Directories and path names (\<open>fs.c\<close>). A name is read through a pointer, so it is a function from the
  index of a byte; \<open>namecmp\<close> looks at 14 bytes at most. A path is the list of its bytes before the NUL.
\<close>

type_synonym name = "nat \<Rightarrow> 8 word"

section \<open>Directories\<close>

fun strncmp_name :: "nat \<Rightarrow> name \<Rightarrow> name \<Rightarrow> int" where
  "strncmp_name 0 p q = 0"
| "strncmp_name (Suc n) p q =
     (if p 0 \<noteq> 0 \<and> p 0 = q 0 then strncmp_name n (\<lambda>i. p (Suc i)) (\<lambda>i. q (Suc i)) else uint (p 0) - uint (q 0))"

definition namecmp :: "name \<Rightarrow> name \<Rightarrow> int" where
  "namecmp s t = strncmp_name 14 s t"

text \<open>A directory entry: 16 bytes.\<close>

record dirent =
  de_inum :: "16 word"
  de_name :: name

definition dirent_of :: "8 word list \<Rightarrow> dirent" where
  "dirent_of xs = \<lparr>de_inum = ucast (xs ! 0) OR push_bit 8 (ucast (xs ! 1)), de_name = (\<lambda>i. xs ! (2 + i))\<rparr>"

definition dirent_bytes :: "dirent \<Rightarrow> 8 word list" where
  "dirent_bytes de = [ucast (de_inum de), ucast (drop_bit 8 (de_inum de))] @ map (de_name de) [0..<14]"

text \<open>The loop of \<open>dirlookup\<close> and that of \<open>dirlink\<close>, at the offsets below \<open>dp->size\<close>.\<close>

fun dirlookup_loop :: "int \<Rightarrow> nat \<Rightarrow> name \<Rightarrow> u32 list \<Rightarrow> fsst \<Rightarrow> ((nat \<times> u32) option \<times> fsst) result" where
  "dirlookup_loop me dp nm [] s = Inr (None, s)"
| "dirlookup_loop me dp nm (off # offs) s =
     rbind (readi me dp off 16 s) (\<lambda>(k, xs, s1).
     rbind (ensure (k = 16) (Panic ''dirlookup read'')) (\<lambda>_.
     let de = dirent_of xs in
     if de_inum de = 0 then dirlookup_loop me dp nm offs s1
     else if namecmp nm (de_name de) = 0 then
       rbind (iget (i_dev (icache s1 dp)) (unat (de_inum de)) s1) (\<lambda>(ip, s2). Inr (Some (ip, off), s2))
     else dirlookup_loop me dp nm offs s1))"

definition dir_offsets :: "u32 \<Rightarrow> u32 list" where
  "dir_offsets sz = map (\<lambda>k. of_nat (16 * k)) [0..<(unat sz + 15) div 16]"

definition dirlookup :: "int \<Rightarrow> nat \<Rightarrow> name \<Rightarrow> fsst \<Rightarrow> ((nat \<times> u32) option \<times> fsst) result" where
  "dirlookup me dp nm s =
     rbind (ensure (d_type (icache s dp) = T_DIR) (Panic ''dirlookup not DIR'')) (\<lambda>_.
     dirlookup_loop me dp nm (dir_offsets (d_size (icache s dp))) s)"

fun empty_dirent :: "int \<Rightarrow> nat \<Rightarrow> u32 list \<Rightarrow> u32 \<Rightarrow> fsst \<Rightarrow> (u32 \<times> fsst) result" where
  "empty_dirent me dp [] end_off s = Inr (end_off, s)"
| "empty_dirent me dp (off # offs) end_off s =
     rbind (readi me dp off 16 s) (\<lambda>(k, xs, s1).
     rbind (ensure (k = 16) (Panic ''dirlink read'')) (\<lambda>_.
     if de_inum (dirent_of xs) = 0 then Inr (off, s1) else empty_dirent me dp offs end_off s1))"

text \<open>\<open>strncpy\<close> into the name of the entry: the bytes up to the NUL, then NULs.\<close>

fun strncpy_name :: "nat \<Rightarrow> name \<Rightarrow> 8 word list" where
  "strncpy_name 0 t = []"
| "strncpy_name (Suc n) t = (if t 0 \<noteq> 0 then t 0 # strncpy_name n (\<lambda>i. t (Suc i)) else replicate (Suc n) 0)"

definition dirlink :: "int \<Rightarrow> nat \<Rightarrow> name \<Rightarrow> nat \<Rightarrow> fsst \<Rightarrow> (int \<times> fsst) result" where
  "dirlink me dp nm inum s =
     rbind (dirlookup me dp nm s) (\<lambda>(found, s1).
     case found of
       Some (ip, _) \<Rightarrow> rbind (iput me ip s1) (\<lambda>s2. Inr (-1, s2))
     | None \<Rightarrow>
         let offs = dir_offsets (d_size (icache s1 dp)) in
         rbind (empty_dirent me dp offs (16 * of_nat (length offs)) s1) (\<lambda>(off, s2).
         let de = \<lparr>de_inum = of_nat inum, de_name = (\<lambda>i. strncpy_name 14 nm ! i)\<rparr> in
         rbind (writei me dp off (dirent_bytes de) s2) (\<lambda>(k, s3).
         rbind (ensure (k = 16) (Panic ''dirlink'')) (\<lambda>_. Inr (0, s3)))))"

section \<open>Paths\<close>

definition slash :: "8 word" where "slash = 0x2F"

definition skip_slashes :: "8 word list \<Rightarrow> 8 word list" where
  "skip_slashes path = dropWhile (\<lambda>c. c = slash) path"

text \<open>
  \<open>skipelem\<close> copies the next element into \<open>nm\<close>: of 14 bytes or more the first 14, without a NUL, and
  otherwise the element with a NUL after it.
\<close>

definition copy_name :: "8 word list \<Rightarrow> name \<Rightarrow> name" where
  "copy_name xs nm = (\<lambda>i. if i < length xs then xs ! i else nm i)"

definition skipelem :: "8 word list \<Rightarrow> name \<Rightarrow> (8 word list \<times> name) option" where
  "skipelem path nm =
     (let p = skip_slashes path in
      if p = [] then None
      else
        let e = takeWhile (\<lambda>c. c \<noteq> slash) p; p1 = dropWhile (\<lambda>c. c \<noteq> slash) p in
        Some (skip_slashes p1, if length e \<ge> 14 then copy_name (take 14 e) nm else (copy_name e nm)(length e := 0)))"

lemma skipelem_shorter:
  assumes "skipelem path nm = Some (rest, nm')"
  shows "length rest < length path"
proof -
  let ?p = "skip_slashes path" and ?q = "dropWhile (\<lambda>c. c \<noteq> slash) (skip_slashes path)"
  have ne: "?p \<noteq> []" and rest: "rest = skip_slashes ?q" using assms by (auto simp: skipelem_def Let_def split: if_splits)
  then have "hd ?p \<noteq> slash" unfolding skip_slashes_def by (metis (mono_tags, lifting) hd_dropWhile)
  then have "?q = dropWhile (\<lambda>c. c \<noteq> slash) (tl ?p)" using ne by (cases ?p) auto
  then have "length ?q \<le> length (tl ?p)" using length_dropWhile_le by metis
  also have "length (tl ?p) < length ?p" using ne by simp
  also have "length ?p \<le> length path" unfolding skip_slashes_def by (rule length_dropWhile_le)
  finally show ?thesis unfolding rest skip_slashes_def using length_dropWhile_le le_less_trans by metis
qed

text \<open>The loop of \<open>namex\<close> at the inode \<open>ip\<close>, and the name it has copied last.\<close>

function namex_loop :: "int \<Rightarrow> bool \<Rightarrow> nat \<Rightarrow> 8 word list \<Rightarrow> name \<Rightarrow> fsst \<Rightarrow> (nat option \<times> name \<times> fsst) result" where
  "namex_loop me parent ip path nm s =
     (case skipelem path nm of
        None \<Rightarrow> if parent then rbind (iput me ip s) (\<lambda>s1. Inr (None, nm, s1)) else Inr (Some ip, nm, s)
      | Some (path1, nm1) \<Rightarrow>
          rbind (ilock me (Some ip) s) (\<lambda>s1.
          if d_type (icache s1 ip) \<noteq> T_DIR then rbind (iunlockput me ip s1) (\<lambda>s2. Inr (None, nm1, s2))
          else if parent \<and> path1 = [] then rbind (iunlock me (Some ip) s1) (\<lambda>s2. Inr (Some ip, nm1, s2))
          else rbind (dirlookup me ip nm1 s1) (\<lambda>(found, s2).
            case found of
              None \<Rightarrow> rbind (iunlockput me ip s2) (\<lambda>s3. Inr (None, nm1, s3))
            | Some (next_ip, _) \<Rightarrow> rbind (iunlockput me ip s2) (namex_loop me parent next_ip path1 nm1))))"
  by pat_completeness auto
termination
  by (relation "measure (\<lambda>(me, parent, ip, path, nm, s). length path)") (auto dest: skipelem_shorter)

declare namex_loop.simps [simp del]

text \<open>\<open>cwd\<close> is the current directory of the process.\<close>

definition namex :: "int \<Rightarrow> nat option \<Rightarrow> 8 word list \<Rightarrow> bool \<Rightarrow> name \<Rightarrow> fsst \<Rightarrow> (nat option \<times> name \<times> fsst) result" where
  "namex me cwd path parent nm s =
     (if path \<noteq> [] \<and> hd path = slash
      then rbind (iget 1 1 s) (\<lambda>(ip, s1). namex_loop me parent ip path nm s1)
      else case cwd of None \<Rightarrow> Inl NullDeref
        | Some c \<Rightarrow> (case idup c s of (ip, s1) \<Rightarrow> namex_loop me parent ip path nm s1))"

definition namei :: "int \<Rightarrow> nat option \<Rightarrow> 8 word list \<Rightarrow> name \<Rightarrow> fsst \<Rightarrow> (nat option \<times> fsst) result" where
  "namei me cwd path junk s = rbind (namex me cwd path False junk s) (\<lambda>(ip, _, s1). Inr (ip, s1))"

definition nameiparent :: "int \<Rightarrow> nat option \<Rightarrow> 8 word list \<Rightarrow> name \<Rightarrow> fsst \<Rightarrow> (nat option \<times> name \<times> fsst) result" where
  "nameiparent me cwd path nm s = namex me cwd path True nm s"

end
