(* ===== verification/FsSys.thy ===== *)
theory FsSys
  imports FsDir
begin

text \<open>
  The work of the system calls on paths (\<open>sysfile.c\<close>), on the file system alone: \<open>create\<close>,
  \<open>isdirempty\<close>, and what \<open>link\<close>, \<open>unlink\<close>, \<open>open\<close>, \<open>mkdir\<close> and \<open>mknod\<close> do with their arguments, from
  \<open>begin_op\<close> to \<open>end_op\<close>. \<open>me\<close> is the process, \<open>cwd\<close> its directory, \<open>junk\<close> what the buffer of a name
  on the kernel stack holds before.
\<close>

definition with_result :: "'x \<Rightarrow> fsst result \<Rightarrow> ('x \<times> fsst) result" where
  "with_result x m = rbind m (\<lambda>s. Inr (x, s))"

definition end_with :: "'x \<Rightarrow> int \<Rightarrow> fsst \<Rightarrow> ('x \<times> fsst) result" where
  "end_with x me s = with_result x (on_log (end_op me) s)"

definition put_and_end :: "'x \<Rightarrow> int \<Rightarrow> nat \<Rightarrow> fsst \<Rightarrow> ('x \<times> fsst) result" where
  "put_and_end x me ip s = rbind (iunlockput me ip s) (end_with x me)"

section \<open>create\<close>

definition dot :: name where "dot = (\<lambda>i. if i = 0 then 0x2E else 0)"

definition dotdot :: name where "dotdot = (\<lambda>i. if i < 2 then 0x2E else 0)"

definition set_link :: "nat \<Rightarrow> 16 word \<Rightarrow> fsst \<Rightarrow> fsst" where
  "set_link ip n = upd_i ip (\<lambda>r. r\<lparr>d_nlink := n\<rparr>)"

text \<open>The entries of a new directory.\<close>

definition create_dots :: "int \<Rightarrow> nat \<Rightarrow> nat \<Rightarrow> fsst \<Rightarrow> fsst result" where
  "create_dots me ip dp s =
     rbind (iupdate me dp (set_link dp (d_nlink (icache s dp) + 1) s)) (\<lambda>s1.
     rbind (dirlink me ip dot (i_inum (icache s1 ip)) s1) (\<lambda>(k, s2).
     rbind (ensure (\<not> k < 0) (Panic ''create dots'')) (\<lambda>_.
     rbind (dirlink me ip dotdot (i_inum (icache s2 dp)) s2) (\<lambda>(k, s3).
     rbind (ensure (\<not> k < 0) (Panic ''create dots'')) (\<lambda>_. Inr s3)))))"

definition create :: "int \<Rightarrow> nat option \<Rightarrow> name \<Rightarrow> 8 word list \<Rightarrow> 16 word \<Rightarrow> 16 word \<Rightarrow> 16 word \<Rightarrow> fsst \<Rightarrow>
    (nat option \<times> fsst) result" where
  "create me cwd junk path ty major minor s =
     rbind (nameiparent me cwd path junk s) (\<lambda>(q, nm, s1).
     case q of
       None \<Rightarrow> Inr (None, s1)
     | Some dp \<Rightarrow>
         rbind (ilock me (Some dp) s1) (\<lambda>s2.
         rbind (dirlookup me dp nm s2) (\<lambda>(found, s3).
         case found of
           Some (ip, _) \<Rightarrow>
             rbind (iunlockput me dp s3) (\<lambda>s4.
             rbind (ilock me (Some ip) s4) (\<lambda>s5.
             if ty = T_FILE \<and> d_type (icache s5 ip) = T_FILE then Inr (Some ip, s5)
             else with_result None (iunlockput me ip s5)))
         | None \<Rightarrow>
             rbind (ialloc me (i_dev (icache s3 dp)) ty s3) (\<lambda>(ip, s4).
             rbind (ilock me (Some ip) s4) (\<lambda>s5.
             rbind (iupdate me ip (upd_i ip (\<lambda>r. r\<lparr>d_major := major, d_minor := minor, d_nlink := 1\<rparr>) s5)) (\<lambda>s6.
             rbind (if ty = T_DIR then create_dots me ip dp s6 else Inr s6) (\<lambda>s7.
             rbind (dirlink me dp nm (i_inum (icache s7 ip)) s7) (\<lambda>(k, s8).
             rbind (ensure (\<not> k < 0) (Panic ''create: dirlink'')) (\<lambda>_.
             with_result (Some ip) (iunlockput me dp s8))))))))))"

section \<open>open, mkdir and mknod\<close>

definition O_RDONLY :: u32 where "O_RDONLY = 0"
definition O_WRONLY :: u32 where "O_WRONLY = 1"
definition O_RDWR :: u32 where "O_RDWR = 2"
definition O_CREATE :: u32 where "O_CREATE = 0x200"

text \<open>The inode that \<open>open\<close> gets, locked and in a transaction, or none and the transaction is over.\<close>

definition open_inode :: "int \<Rightarrow> nat option \<Rightarrow> name \<Rightarrow> 8 word list \<Rightarrow> u32 \<Rightarrow> fsst \<Rightarrow> (nat option \<times> fsst) result" where
  "open_inode me cwd junk path omode s =
     rbind (on_log begin_op s) (\<lambda>s0.
     if omode AND O_CREATE \<noteq> 0 then
       rbind (create me cwd junk path T_FILE 0 0 s0) (\<lambda>(q, s1).
       case q of None \<Rightarrow> end_with None me s1 | Some ip \<Rightarrow> Inr (Some ip, s1))
     else
       rbind (namei me cwd path junk s0) (\<lambda>(q, s1).
       case q of
         None \<Rightarrow> end_with None me s1
       | Some ip \<Rightarrow>
           rbind (ilock me (Some ip) s1) (\<lambda>s2.
           if d_type (icache s2 ip) = T_DIR \<and> omode \<noteq> O_RDONLY then put_and_end None me ip s2
           else Inr (Some ip, s2))))"

text \<open>\<open>mkdir\<close> and \<open>mknod\<close> after \<open>begin_op\<close>.\<close>

definition make_node :: "int \<Rightarrow> nat option \<Rightarrow> name \<Rightarrow> 8 word list \<Rightarrow> 16 word \<Rightarrow> 16 word \<Rightarrow> 16 word \<Rightarrow> fsst \<Rightarrow>
    (int \<times> fsst) result" where
  "make_node me cwd junk path ty major minor s =
     rbind (create me cwd junk path ty major minor s) (\<lambda>(q, s1).
     case q of None \<Rightarrow> end_with (-1) me s1 | Some ip \<Rightarrow> put_and_end 0 me ip s1)"

section \<open>link\<close>

definition link_bad :: "int \<Rightarrow> nat \<Rightarrow> fsst \<Rightarrow> (int \<times> fsst) result" where
  "link_bad me ip s =
     rbind (ilock me (Some ip) s) (\<lambda>s1.
     rbind (iupdate me ip (set_link ip (d_nlink (icache s1 ip) - 1) s1)) (put_and_end (-1) me ip))"

definition link_at :: "int \<Rightarrow> nat \<Rightarrow> nat \<Rightarrow> name \<Rightarrow> fsst \<Rightarrow> (int \<times> fsst) result" where
  "link_at me ip dp nm s =
     rbind (ilock me (Some dp) s) (\<lambda>s1.
     if i_dev (icache s1 dp) \<noteq> i_dev (icache s1 ip) then rbind (iunlockput me dp s1) (link_bad me ip)
     else rbind (dirlink me dp nm (i_inum (icache s1 ip)) s1) (\<lambda>(k, s2).
       if k < 0 then rbind (iunlockput me dp s2) (link_bad me ip)
       else rbind (iunlockput me dp s2) (\<lambda>s3. rbind (iput me ip s3) (end_with 0 me))))"

definition link_paths :: "int \<Rightarrow> nat option \<Rightarrow> name \<Rightarrow> 8 word list \<Rightarrow> 8 word list \<Rightarrow> fsst \<Rightarrow> (int \<times> fsst) result" where
  "link_paths me cwd junk old new s =
     rbind (on_log begin_op s) (\<lambda>s0.
     rbind (namei me cwd old junk s0) (\<lambda>(q, s1).
     case q of
       None \<Rightarrow> end_with (-1) me s1
     | Some ip \<Rightarrow>
         rbind (ilock me (Some ip) s1) (\<lambda>s2.
         if d_type (icache s2 ip) = T_DIR then put_and_end (-1) me ip s2
         else
           rbind (iupdate me ip (set_link ip (d_nlink (icache s2 ip) + 1) s2)) (\<lambda>s3.
           rbind (iunlock me (Some ip) s3) (\<lambda>s4.
           rbind (nameiparent me cwd new junk s4) (\<lambda>(q, nm, s5).
           case q of None \<Rightarrow> link_bad me ip s5 | Some dp \<Rightarrow> link_at me ip dp nm s5))))))"

section \<open>unlink\<close>

fun isdirempty_loop :: "int \<Rightarrow> nat \<Rightarrow> u32 list \<Rightarrow> fsst \<Rightarrow> (bool \<times> fsst) result" where
  "isdirempty_loop me dp [] s = Inr (True, s)"
| "isdirempty_loop me dp (off # offs) s =
     rbind (readi me dp off 16 s) (\<lambda>(k, xs, s1).
     rbind (ensure (k = 16) (Panic ''isdirempty: readi'')) (\<lambda>_.
     if de_inum (dirent_of xs) \<noteq> 0 then Inr (False, s1) else isdirempty_loop me dp offs s1))"

definition isdirempty :: "int \<Rightarrow> nat \<Rightarrow> fsst \<Rightarrow> (bool \<times> fsst) result" where
  "isdirempty me dp s = isdirempty_loop me dp (drop 2 (dir_offsets (d_size (icache s dp)))) s"

text \<open>The entry at \<open>off\<close> of \<open>dp\<close> is cleared, then the inode loses a link.\<close>

definition remove_entry :: "int \<Rightarrow> nat \<Rightarrow> nat \<Rightarrow> u32 \<Rightarrow> fsst \<Rightarrow> (int \<times> fsst) result" where
  "remove_entry me dp ip off s =
     rbind (writei me dp off (replicate 16 0) s) (\<lambda>(k, s1).
     rbind (ensure (k = 16) (Panic ''unlink: writei'')) (\<lambda>_.
     rbind (if d_type (icache s1 ip) = T_DIR then iupdate me dp (set_link dp (d_nlink (icache s1 dp) - 1) s1) else Inr s1) (\<lambda>s2.
     rbind (iunlockput me dp s2) (\<lambda>s3.
     rbind (iupdate me ip (set_link ip (d_nlink (icache s3 ip) - 1) s3)) (put_and_end 0 me ip)))))"

definition unlink_name :: "int \<Rightarrow> nat \<Rightarrow> name \<Rightarrow> fsst \<Rightarrow> (int \<times> fsst) result" where
  "unlink_name me dp nm s =
     (if namecmp nm dot = 0 \<or> namecmp nm dotdot = 0 then put_and_end (-1) me dp s
      else rbind (dirlookup me dp nm s) (\<lambda>(found, s1).
        case found of
          None \<Rightarrow> put_and_end (-1) me dp s1
        | Some (ip, off) \<Rightarrow>
            rbind (ilock me (Some ip) s1) (\<lambda>s2.
            rbind (ensure (\<not> sint (d_nlink (icache s2 ip)) < 1) (Panic ''unlink: nlink < 1'')) (\<lambda>_.
            rbind (if d_type (icache s2 ip) = T_DIR then isdirempty me ip s2 else Inr (True, s2)) (\<lambda>(empty, s3).
            if \<not> empty then rbind (iunlockput me ip s3) (put_and_end (-1) me dp)
            else remove_entry me dp ip off s3)))))"

definition unlink_path :: "int \<Rightarrow> nat option \<Rightarrow> name \<Rightarrow> 8 word list \<Rightarrow> fsst \<Rightarrow> (int \<times> fsst) result" where
  "unlink_path me cwd junk path s =
     rbind (on_log begin_op s) (\<lambda>s0.
     rbind (nameiparent me cwd path junk s0) (\<lambda>(q, nm, s1).
     case q of
       None \<Rightarrow> end_with (-1) me s1
     | Some dp \<Rightarrow> rbind (ilock me (Some dp) s1) (unlink_name me dp nm)))"

section \<open>chdir\<close>

text \<open>The directory that \<open>chdir\<close> changes to, after \<open>begin_op\<close>, in place of \<open>cwd\<close>.\<close>

definition change_dir :: "int \<Rightarrow> nat option \<Rightarrow> name \<Rightarrow> 8 word list \<Rightarrow> fsst \<Rightarrow> (nat option \<times> fsst) result" where
  "change_dir me cwd junk path s =
     rbind (namei me cwd path junk s) (\<lambda>(q, s1).
     case q of
       None \<Rightarrow> end_with None me s1
     | Some ip \<Rightarrow>
         rbind (ilock me (Some ip) s1) (\<lambda>s2.
         if d_type (icache s2 ip) \<noteq> T_DIR then put_and_end None me ip s2
         else
           rbind (iunlock me (Some ip) s2) (\<lambda>s3.
           case cwd of None \<Rightarrow> Inl NullDeref | Some c \<Rightarrow> rbind (iput me c s3) (end_with (Some ip) me))))"

end
