(* ===== verification/FsRefs.thy ===== *)
theory FsRefs
  imports FsCache FsSys
begin

text \<open>
  Every operation of the file system gives back the pointers to inodes that it takes, on all its
  branches: the rules say which pointers are out after it.
\<close>

abbreviation held :: "nat multiset \<Rightarrow> fsst \<Rightarrow> bool" where
  "held M s \<equiv> inode_table.exact M s"

lemma same_held: "same_refs s s' \<Longrightarrow> held M s \<Longrightarrow> held M s'"
proof -
  assume "same_refs s s'"
  then have "inode_count s' = inode_count s" "icache_ok s' = icache_ok s"
    by (simp_all add: same_refs_def icache_ok_def inode_count_def fun_eq_iff)
  then show "held M s \<Longrightarrow> held M s'" by (simp add: inode_table.exact_def)
qed

lemma upd_held:
  assumes "\<And>r. i_ref (f r) = i_ref r" and "\<And>r. i_dev (f r) = i_dev r" and "\<And>r. i_inum (f r) = i_inum r"
  shows "held M (upd_i ip f s) \<longleftrightarrow> held M s"
proof -
  have "same_refs s (upd_i ip f s)" "same_refs (upd_i ip f s) s"
    using assms by (simp_all add: same_refs_def upd_i_def)
  then show ?thesis using same_held by blast
qed

lemma set_bdata_held [simp]: "held M (set_bdata b f s) \<longleftrightarrow> held M s"
proof -
  have "same_refs s (set_bdata b f s)" "same_refs (set_bdata b f s) s" by (simp_all add: same_refs_def set_bdata_def)
  then show ?thesis using same_held by blast
qed

lemma set_addr_held [simp]: "held M (set_addr ip j a s) \<longleftrightarrow> held M s"
  unfolding set_addr_def by (rule upd_held) simp_all

lemma set_link_held [simp]: "held M (set_link ip n s) \<longleftrightarrow> held M s"
  unfolding set_link_def by (rule upd_held) simp_all

lemma unlock_held [simp]: "held M (unlock_inode ip s) \<longleftrightarrow> held M s"
  unfolding unlock_inode_def by (rule upd_held) simp_all

lemma set_held [simp]:
  "held M (upd_i ip (\<lambda>r. r\<lparr>d_size := v\<rparr>) s) \<longleftrightarrow> held M s"
  "held M (upd_i ip (\<lambda>r. r\<lparr>i_valid := b\<rparr>) s) \<longleftrightarrow> held M s"
  "held M (upd_i ip (\<lambda>r. r\<lparr>d_major := x, d_minor := y, d_nlink := z\<rparr>) s) \<longleftrightarrow> held M s"
  "held M (upd_i ip (load_dinode d) s) \<longleftrightarrow> held M s"
  "held M (upd_i ip (\<lambda>r. r\<lparr>i_locked := b, i_pid := p\<rparr>) s) \<longleftrightarrow> held M s"
  by (rule upd_held; simp add: load_dinode_def)+

named_theorems held_rules \<open>the pointers that are out after an operation\<close>

lemma on_log_held [held_rules]: "held M s \<Longrightarrow> (\<And>s'. held M s' \<Longrightarrow> Q s') \<Longrightarrow> gives (on_log f s) Q"
  by (meson givesI on_log_refs same_held)

lemma from_log_held [held_rules]: "held M s \<Longrightarrow> (\<And>x s'. held M s' \<Longrightarrow> Q (x, s')) \<Longrightarrow> gives (from_log f s) Q"
  by (rule givesI) (metis from_log_refs same_held surj_pair)

lemma iupdate_held [held_rules]: "held M s \<Longrightarrow> (\<And>s'. held M s' \<Longrightarrow> Q s') \<Longrightarrow> gives (iupdate me ip s) Q"
  by (meson givesI iupdate_refs same_held)

lemma iput_held [held_rules]:
  "held M s \<Longrightarrow> ip \<in># M \<Longrightarrow> (\<And>s'. held (M - {#ip#}) s' \<Longrightarrow> Q s') \<Longrightarrow> gives (iput me ip s) Q"
  by (meson givesI inode_table.exact_put)

lemma iget_held [held_rules]:
  "held M s \<Longrightarrow> (\<And>i s'. held (add_mset i M) s' \<Longrightarrow> Q (i, s')) \<Longrightarrow> gives (iget dev inum s) Q"
  by (rule givesI) (metis inode_table.exact_get iget_key_def fst_conv snd_conv surj_pair)

lemma ilock_held [held_rules]: "held M s \<Longrightarrow> (\<And>s'. held M s' \<Longrightarrow> Q s') \<Longrightarrow> gives (ilock me p s) Q"
  unfolding ilock_def lock_inode_def Let_def
  by (simp only: prod.case Let_def | rule gives_rules held_rules | assumption | simp)+

lemma iunlock_held [held_rules]: "held M s \<Longrightarrow> (\<And>s'. held M s' \<Longrightarrow> Q s') \<Longrightarrow> gives (iunlock me p s) Q"
  unfolding iunlock_def by (rule gives_rules | simp)+

lemma iunlockput_held [held_rules]:
  "held M s \<Longrightarrow> ip \<in># M \<Longrightarrow> (\<And>s'. held (M - {#ip#}) s' \<Longrightarrow> Q s') \<Longrightarrow> gives (iunlockput me ip s) Q"
  unfolding iunlockput_def by (rule gives_rules held_rules | assumption)+

lemma idup_held:
  assumes "held M s" and "i \<in># M" and "idup i s = (j, s')"
  shows "held (add_mset j M) s'"
proof -
  have "idup_ref i s = Inr s'" "j = i" using assms(3) by (auto simp: idup_ref_def idup_def)
  then show ?thesis using inode_table.exact_dup [OF assms(1,2)] by blast
qed

lemma ialloc_held [held_rules]:
  assumes "held M s" and "\<And>i s'. held (add_mset i M) s' \<Longrightarrow> Q (i, s')"
  shows "gives (ialloc me dev ty s) Q"
proof -
  have "gives (ialloc_list me dev ty inums s) Q" if "held M s" for inums s
    using that
  proof (induction inums arbitrary: s)
    case (Cons inum inums)
    show ?case
      by (subst ialloc_list.simps)
        (simp only: prod.case Let_def | rule gives_rules held_rules Cons assms(2) | assumption | simp)+
  qed (simp add: gives_Inl)
  then show ?thesis using assms(1) by (simp add: ialloc_def)
qed

section \<open>The content of a file\<close>

lemma bmap_slot_held [held_rules]:
  "held M s \<Longrightarrow> (\<And>x s'. held M s' \<Longrightarrow> Q (x, s')) \<Longrightarrow> gives (bmap_slot me ip j s) Q"
  unfolding bmap_slot_def Let_def
  by (simp only: prod.case Let_def | rule gives_rules held_rules | assumption | simp)+

lemma bmap_entry_held [held_rules]:
  "held M s \<Longrightarrow> (\<And>x s'. held M s' \<Longrightarrow> Q (x, s')) \<Longrightarrow> gives (bmap_entry me ip i a s) Q"
  unfolding bmap_entry_def Let_def
  by (simp only: prod.case Let_def | rule gives_rules held_rules | assumption | simp)+

lemma bmap_held [held_rules]:
  "held M s \<Longrightarrow> (\<And>x s'. held M s' \<Longrightarrow> Q (x, s')) \<Longrightarrow> gives (bmap me ip bn s) Q"
  unfolding bmap_def
  by (simp only: prod.case Let_def | rule gives_rules held_rules | assumption | simp)+

lemma readi_loop_held [held_rules]:
  "held M s \<Longrightarrow> (\<And>x s'. held M s' \<Longrightarrow> Q (x, s')) \<Longrightarrow> gives (readi_loop me ip off n s) Q"
proof (induction n arbitrary: off s Q rule: less_induct)
  case (less n)
  show ?case
    by (subst readi_loop.simps)
      (simp only: prod.case Let_def | rule gives_rules held_rules less.IH less.prems | assumption | simp)+
qed

lemma readi_held [held_rules]:
  "held M s \<Longrightarrow> (\<And>k xs s'. held M s' \<Longrightarrow> Q (k, xs, s')) \<Longrightarrow> gives (readi me ip off n s) Q"
  unfolding readi_def Let_def
  by (simp only: prod.case Let_def | rule gives_rules held_rules | assumption | simp)+

lemma writei_loop_held [held_rules]:
  "held M s \<Longrightarrow> (\<And>s'. held M s' \<Longrightarrow> Q s') \<Longrightarrow> gives (writei_loop me ip off src s) Q"
proof (induction src arbitrary: off s Q rule: length_induct)
  case (1 src)
  then have IH: "length (drop m src) < length src \<Longrightarrow> held M t \<Longrightarrow> (\<And>s'. held M s' \<Longrightarrow> R s') \<Longrightarrow>
      gives (writei_loop me ip o1 (drop m src) t) R" for m o1 t R by blast
  show ?case
    by (subst writei_loop.simps)
      (simp only: prod.case Let_def | rule gives_rules held_rules IH 1(2,3) | assumption | simp)+
qed

lemma writei_held [held_rules]:
  "held M s \<Longrightarrow> (\<And>k s'. held M s' \<Longrightarrow> Q (k, s')) \<Longrightarrow> gives (writei me ip off src s) Q"
  unfolding writei_def Let_def
  by (simp only: prod.case Let_def | rule gives_rules held_rules | assumption | simp)+

section \<open>Directories and paths\<close>

lemma dirlookup_loop_held [held_rules]:
  "held M s \<Longrightarrow> (\<And>s'. held M s' \<Longrightarrow> Q (None, s')) \<Longrightarrow>
    (\<And>i off s'. held (add_mset i M) s' \<Longrightarrow> Q (Some (i, off), s')) \<Longrightarrow> gives (dirlookup_loop me dp nm offs s) Q"
proof (induction offs arbitrary: s)
  case Nil
  then show ?case by (simp add: gives_Inr)
next
  case (Cons off offs)
  show ?case
    by (subst dirlookup_loop.simps)
      (simp only: prod.case Let_def | rule gives_rules held_rules Cons.IH Cons.prems | assumption)+
qed

lemma dirlookup_held [held_rules]:
  "held M s \<Longrightarrow> (\<And>s'. held M s' \<Longrightarrow> Q (None, s')) \<Longrightarrow>
    (\<And>i off s'. held (add_mset i M) s' \<Longrightarrow> Q (Some (i, off), s')) \<Longrightarrow> gives (dirlookup me dp nm s) Q"
  unfolding dirlookup_def by (rule gives_rules held_rules | assumption | simp)+

lemma empty_dirent_held [held_rules]:
  "held M s \<Longrightarrow> (\<And>x s'. held M s' \<Longrightarrow> Q (x, s')) \<Longrightarrow> gives (empty_dirent me dp offs e s) Q"
proof (induction offs arbitrary: s)
  case Nil
  then show ?case by (simp add: gives_Inr)
next
  case (Cons off offs)
  show ?case
    by (subst empty_dirent.simps)
      (simp only: prod.case Let_def | rule gives_rules held_rules Cons.IH Cons.prems | assumption)+
qed

lemma dirlink_held [held_rules]:
  "held M s \<Longrightarrow> (\<And>k s'. held M s' \<Longrightarrow> Q (k, s')) \<Longrightarrow> gives (dirlink me dp nm inum s) Q"
  unfolding dirlink_def
  by (simp only: prod.case Let_def option.case | rule gives_rules held_rules | assumption | simp)+

lemma namex_loop_held [held_rules]:
  "held (add_mset ip M) s \<Longrightarrow> (\<And>nm s'. held M s' \<Longrightarrow> Q (None, nm, s')) \<Longrightarrow>
    (\<And>i nm s'. held (add_mset i M) s' \<Longrightarrow> Q (Some i, nm, s')) \<Longrightarrow> gives (namex_loop me parent ip path nm s) Q"
proof (induction path arbitrary: ip nm s rule: length_induct)
  case (1 path)
  then have IH: "skipelem path nm = Some y \<Longrightarrow> y = (path1, nm1) \<Longrightarrow> held (add_mset i M) t \<Longrightarrow>
      gives (namex_loop me parent i path1 nm1 t) Q" for y path1 i t nm1
    using skipelem_shorter by blast
  show ?case
    by (subst namex_loop.simps)
      (simp only: prod.case option.case Let_def | rule gives_rules held_rules IH 1(2,3,4) | assumption | simp)+
qed

lemma namex_held [held_rules]:
  assumes s: "held M s" and cwd: "\<And>d. cwd = Some d \<Longrightarrow> d \<in># M"
    and Q: "\<And>nm s'. held M s' \<Longrightarrow> Q (None, nm, s')" "\<And>i nm s'. held (add_mset i M) s' \<Longrightarrow> Q (Some i, nm, s')"
  shows "gives (namex me cwd path parent nm s) Q"
  unfolding namex_def
  by (simp only: prod.case | rule gives_rules held_rules s Q idup_held [OF s] cwd | assumption)+

section \<open>The calls on paths\<close>

lemma in_add_later: "x \<in># M \<Longrightarrow> x \<in># add_mset a M"
  by simp

lemma with_result_held [gives_rules]: "gives m (\<lambda>s'. Q (x, s')) \<Longrightarrow> gives (with_result x m) Q"
  unfolding with_result_def by (erule gives_bind [OF gives_mono]) (rule gives_Inr)

lemma end_with_held [held_rules]:
  assumes "held M s" and "\<And>s'. held M s' \<Longrightarrow> Q (x, s')"
  shows "gives (end_with x me s) Q"
  unfolding end_with_def
  by (simp only: prod.case option.case | rule gives_rules held_rules assms | assumption | simp)+

lemma put_and_end_held [held_rules]:
  assumes "held (add_mset ip M) s" and "\<And>s'. held M s' \<Longrightarrow> Q (x, s')"
  shows "gives (put_and_end x me ip s) Q"
  unfolding put_and_end_def
  by (simp only: prod.case option.case | rule gives_rules held_rules assms | assumption | simp)+

lemma create_dots_held [held_rules]:
  assumes "held M s" and "\<And>s'. held M s' \<Longrightarrow> Q s'"
  shows "gives (create_dots me ip dp s) Q"
  unfolding create_dots_def
  by (simp only: prod.case option.case | rule gives_rules held_rules assms | assumption | simp)+

lemma namei_held [held_rules]:
  assumes "held M s" and "\<And>d. cwd = Some d \<Longrightarrow> d \<in># M" and "\<And>s'. held M s' \<Longrightarrow> Q (None, s')" and "\<And>i s'. held (add_mset i M) s' \<Longrightarrow> Q (Some i, s')"
  shows "gives (namei me cwd path junk s) Q"
  unfolding namei_def
  by (simp only: prod.case option.case | rule gives_rules held_rules assms | assumption | simp)+

lemma nameiparent_held [held_rules]:
  assumes "held M s" and "\<And>d. cwd = Some d \<Longrightarrow> d \<in># M" and "\<And>nm s'. held M s' \<Longrightarrow> Q (None, nm, s')"
    and "\<And>i nm s'. held (add_mset i M) s' \<Longrightarrow> Q (Some i, nm, s')"
  shows "gives (nameiparent me cwd path junk s) Q"
  unfolding nameiparent_def
  by (simp only: prod.case option.case | rule gives_rules held_rules assms | assumption | simp)+

lemma create_held [held_rules]:
  assumes "held M s" and "\<And>d. cwd = Some d \<Longrightarrow> d \<in># M" and "\<And>s'. held M s' \<Longrightarrow> Q (None, s')" and "\<And>i s'. held (add_mset i M) s' \<Longrightarrow> Q (Some i, s')"
  shows "gives (create me cwd junk path ty major minor s) Q"
  unfolding create_def
  by (simp only: prod.case option.case | rule gives_rules held_rules assms | assumption | simp)+

lemma open_inode_held [held_rules]:
  assumes "held M s" and "\<And>d. cwd = Some d \<Longrightarrow> d \<in># M" and "\<And>s'. held M s' \<Longrightarrow> Q (None, s')" and "\<And>i s'. held (add_mset i M) s' \<Longrightarrow> Q (Some i, s')"
  shows "gives (open_inode me cwd junk path omode s) Q"
  unfolding open_inode_def
  by (simp only: prod.case option.case | rule gives_rules held_rules assms | assumption | simp)+

lemma make_node_held [held_rules]:
  assumes "held M s" and "\<And>d. cwd = Some d \<Longrightarrow> d \<in># M" and "\<And>k s'. held M s' \<Longrightarrow> Q (k, s')"
  shows "gives (make_node me cwd junk path ty major minor s) Q"
  unfolding make_node_def
  by (simp only: prod.case option.case | rule gives_rules held_rules assms | assumption | simp)+

lemma link_bad_held [held_rules]:
  assumes "held (add_mset ip M) s" and "\<And>k s'. held M s' \<Longrightarrow> Q (k, s')"
  shows "gives (link_bad me ip s) Q"
  unfolding link_bad_def
  by (simp only: prod.case option.case | rule gives_rules held_rules assms | assumption | simp)+

lemma link_at_held [held_rules]:
  assumes "held (add_mset dp (add_mset ip M)) s" and "\<And>k s'. held M s' \<Longrightarrow> Q (k, s')"
  shows "gives (link_at me ip dp nm s) Q"
  unfolding link_at_def
  by (simp only: prod.case option.case | rule gives_rules held_rules assms | assumption | simp)+

lemma link_paths_held [held_rules]:
  assumes "held M s" and "\<And>d. cwd = Some d \<Longrightarrow> d \<in># M" and "\<And>k s'. held M s' \<Longrightarrow> Q (k, s')"
  shows "gives (link_paths me cwd junk old new s) Q"
  unfolding link_paths_def
  by (simp only: prod.case option.case | rule gives_rules held_rules assms assms(2) [THEN in_add_later] | assumption | simp)+

lemma isdirempty_held [held_rules]:
  assumes "held M s" and "\<And>k s'. held M s' \<Longrightarrow> Q (k, s')"
  shows "gives (isdirempty me dp s) Q"
proof -
  have "gives (isdirempty_loop me dp offs s) Q" if "held M s" for offs s
    using that
  proof (induction offs arbitrary: s)
    case Nil
    then show ?case using assms(2) by (simp add: gives_Inr)
  next
    case (Cons off offs)
    show ?case
      by (subst isdirempty_loop.simps)
        (simp only: prod.case Let_def | rule gives_rules held_rules Cons assms(2) | assumption)+
  qed
  then show ?thesis using assms(1) by (simp add: isdirempty_def)
qed

lemma remove_entry_held [held_rules]:
  assumes "held (add_mset ip (add_mset dp M)) s" and "\<And>k s'. held M s' \<Longrightarrow> Q (k, s')"
  shows "gives (remove_entry me dp ip off s) Q"
  unfolding remove_entry_def
  by (simp only: prod.case option.case | rule gives_rules held_rules assms | assumption | simp)+

lemma unlink_name_held [held_rules]:
  assumes "held (add_mset dp M) s" and "\<And>k s'. held M s' \<Longrightarrow> Q (k, s')"
  shows "gives (unlink_name me dp nm s) Q"
  unfolding unlink_name_def
  by (simp only: prod.case option.case | rule gives_rules held_rules assms | assumption | simp)+

lemma unlink_path_held [held_rules]:
  assumes "held M s" and "\<And>d. cwd = Some d \<Longrightarrow> d \<in># M" and "\<And>k s'. held M s' \<Longrightarrow> Q (k, s')"
  shows "gives (unlink_path me cwd junk path s) Q"
  unfolding unlink_path_def
  by (simp only: prod.case option.case | rule gives_rules held_rules assms | assumption | simp)+

text \<open>A change of directory gives back the pointer to the old one.\<close>

lemma change_dir_held [held_rules]:
  assumes "held M s" and "\<And>d. cwd = Some d \<Longrightarrow> d \<in># M" and "\<And>s'. held M s' \<Longrightarrow> Q (None, s')"
    and "\<And>d i s'. cwd = Some d \<Longrightarrow> held (add_mset i M - {#d#}) s' \<Longrightarrow> Q (Some i, s')"
  shows "gives (change_dir me cwd junk path s) Q"
  unfolding change_dir_def
  by (simp only: prod.case option.case | rule gives_rules held_rules assms assms(2) [THEN in_add_later] | assumption | simp)+

end
