(* ===== verification/Syscall.thy ===== *)
theory Syscall
  imports Prelude
begin

text \<open>
  How a system call gets its arguments (\<open>syscall.c\<close>): they are on the user stack, and an address in
  them is used only when the memory at it belongs to the process.
\<close>

record uproc =
  u_sz :: u32
  u_esp :: u32
  u_mem :: "u32 \<Rightarrow> 8 word"
  u_pid :: int
  u_killed :: bool
  u_ofile :: "nat \<Rightarrow> nat option"
  u_cwd :: "nat option"

definition load32 :: "(u32 \<Rightarrow> 8 word) \<Rightarrow> u32 \<Rightarrow> u32" where
  "load32 m a = ucast (m a) OR push_bit 8 (ucast (m (a + 1))) OR push_bit 16 (ucast (m (a + 2))) OR
     push_bit 24 (ucast (m (a + 3)))"

definition fetchint :: "u32 \<Rightarrow> uproc \<Rightarrow> u32 option" where
  "fetchint addr u = (if addr \<ge> u_sz u \<or> addr + 4 > u_sz u then None else Some (load32 (u_mem u) addr))"

lemma uint_succ: "s < (ep :: u32) \<Longrightarrow> uint (s + 1) = uint s + 1"
  using uint_lt2p [of ep] by (simp add: word_less_def uint_word_ariths)

text \<open>The string that a call reads through the pointer, without its NUL.\<close>

function fetchstr_loop :: "(u32 \<Rightarrow> 8 word) \<Rightarrow> u32 \<Rightarrow> u32 \<Rightarrow> 8 word list option" where
  "fetchstr_loop m ep s =
     (if s < ep then (if m s = 0 then Some [] else map_option (Cons (m s)) (fetchstr_loop m ep (s + 1))) else None)"
  by pat_completeness auto
termination
  by (relation "measure (\<lambda>(m, ep, s). nat (uint ep - uint s))") (auto simp: uint_succ word_less_def)

declare fetchstr_loop.simps [simp del]

definition fetchstr :: "u32 \<Rightarrow> uproc \<Rightarrow> (u32 \<times> 8 word list) option" where
  "fetchstr addr u = (if addr \<ge> u_sz u then None else map_option (Pair addr) (fetchstr_loop (u_mem u) (u_sz u) addr))"

definition argint :: "nat \<Rightarrow> uproc \<Rightarrow> u32 option" where
  "argint n u = fetchint (u_esp u + 4 + 4 * of_nat n) u"

text \<open>The size is an \<open>int\<close> of the source, whose sum with the unsigned address wraps.\<close>

definition argptr :: "nat \<Rightarrow> int \<Rightarrow> uproc \<Rightarrow> u32 option" where
  "argptr n sz u =
     (case argint n u of None \<Rightarrow> None
      | Some i \<Rightarrow> if sz < 0 \<or> i \<ge> u_sz u \<or> i + word_of_int sz > u_sz u then None else Some i)"

definition argstr :: "nat \<Rightarrow> uproc \<Rightarrow> (u32 \<times> 8 word list) option" where
  "argstr n u = (case argint n u of None \<Rightarrow> None | Some addr \<Rightarrow> fetchstr addr u)"

section \<open>The addresses that pass the checks\<close>

text \<open>The user part of an address space ends at \<open>KERNBASE\<close>.\<close>

definition user_size :: "uproc \<Rightarrow> bool" where
  "user_size u \<longleftrightarrow> u_sz u \<le> 0x80000000"

lemma uint_add_user:
  assumes "user_size u" and "i < u_sz u" and "0 \<le> k" and "k < 2 ^ 31"
  shows "uint (i + word_of_int k) = uint i + k"
proof -
  have "uint i < 2 ^ 31" using assms(1,2) by (simp add: user_size_def word_le_def word_less_def)
  then have "uint i + k < 2 ^ 32" using assms(4) by simp
  then show ?thesis using assms(3) uint_ge_0 [of i] by (simp add: uint_word_ariths uint_word_of_int mod_simps)
qed

lemma fetchint_iff:
  assumes "user_size u"
  shows "fetchint a u = Some w \<longleftrightarrow> uint a + 4 \<le> uint (u_sz u) \<and> w = load32 (u_mem u) a"
proof -
  have "uint (a + 4) = uint a + 4" if "a < u_sz u"
    using uint_add_user [OF assms that, of 4] by simp
  then show ?thesis by (auto simp: fetchint_def word_less_def word_le_def not_le)
qed

lemma fetchstr_loop_Some:
  "fetchstr_loop m ep s = Some xs \<Longrightarrow> uint s + int (length xs) < uint ep \<and>
     (\<forall>i<length xs. xs ! i = m (s + of_nat i) \<and> xs ! i \<noteq> 0) \<and> m (s + of_nat (length xs)) = 0"
proof (induction m ep s arbitrary: xs rule: fetchstr_loop.induct)
  case (1 m ep s)
  then have lt: "s < ep" by (simp add: fetchstr_loop.simps split: if_splits)
  show ?case
  proof (cases "m s = 0")
    case True
    then show ?thesis using 1(2) lt by (simp add: fetchstr_loop.simps word_less_def)
  next
    case False
    then obtain ys where ys: "fetchstr_loop m ep (s + 1) = Some ys" "xs = m s # ys"
      using 1(2) lt by (auto simp: fetchstr_loop.simps [of m ep s])
    note IH = 1(1) [OF lt False ys(1)]
    have "xs ! i = m (s + of_nat i) \<and> xs ! i \<noteq> 0" if "i < length xs" for i
      using that IH ys(2) False by (cases i) (auto simp: algebra_simps)
    moreover have "uint s + int (length xs) < uint ep \<and> m (s + of_nat (length xs)) = 0"
      using IH ys(2) uint_succ [OF lt] by (simp add: algebra_simps)
    ultimately show ?thesis by blast
  qed
qed

lemma fetchstr_loop_None:
  "fetchstr_loop m ep s = None \<longleftrightarrow> (\<forall>a. s \<le> a \<longrightarrow> a < ep \<longrightarrow> m a \<noteq> 0)"
proof (induction m ep s rule: fetchstr_loop.induct)
  case (1 m ep s)
  show ?case
  proof (cases "s < ep \<and> m s \<noteq> 0")
    case True
    have le: "s \<le> a \<longleftrightarrow> a = s \<or> s + 1 \<le> a" for a
      using uint_succ [of s ep] True by (auto simp: word_le_def word_uint_eq_iff)
    have "fetchstr_loop m ep s = None \<longleftrightarrow> fetchstr_loop m ep (s + 1) = None"
      using True by (simp add: fetchstr_loop.simps [of m ep s])
    also have "\<dots> \<longleftrightarrow> (\<forall>a. s + 1 \<le> a \<longrightarrow> a < ep \<longrightarrow> m a \<noteq> 0)" using 1 True by blast
    also have "\<dots> \<longleftrightarrow> (\<forall>a. s \<le> a \<longrightarrow> a < ep \<longrightarrow> m a \<noteq> 0)" using True by (auto simp: le)
    finally show ?thesis .
  next
    case False
    then show ?thesis by (auto simp: fetchstr_loop.simps [of m ep s])
  qed
qed

text \<open>
  C23: an argument is accepted exactly when it is safe. The kernel takes a pointer to a block exactly
  when all its bytes are in the memory of the process, wherever the unsigned sum would wrap; it takes a
  string exactly when there is a NUL before the end of the memory, and then reads the bytes up to it.
\<close>

theorem args_in_bounds:
  assumes "user_size u" and "k < 2 ^ 31" and "argint n u = Some a"
  shows "(argptr n k u = Some b \<longleftrightarrow> b = a \<and> 0 \<le> k \<and> uint a < uint (u_sz u) \<and> uint a + k \<le> uint (u_sz u)) \<and>
    (case argstr n u of
       Some (c, xs) \<Rightarrow> c = a \<and> uint a + int (length xs) < uint (u_sz u) \<and>
         (\<forall>i<length xs. xs ! i = u_mem u (a + of_nat i) \<and> xs ! i \<noteq> 0) \<and> u_mem u (a + of_nat (length xs)) = 0
     | None \<Rightarrow> \<forall>c. a \<le> c \<and> c < u_sz u \<longrightarrow> u_mem u c \<noteq> 0)"
proof
  have "uint a < uint (u_sz u) \<Longrightarrow> 0 \<le> k \<Longrightarrow> uint (a + word_of_int k) = uint a + k"
    using uint_add_user [OF assms(1) _ _ assms(2), of a] by (simp add: word_less_def)
  then show "argptr n k u = Some b \<longleftrightarrow> b = a \<and> 0 \<le> k \<and> uint a < uint (u_sz u) \<and> uint a + k \<le> uint (u_sz u)"
    by (cases "uint a < uint (u_sz u) \<and> 0 \<le> k") (auto simp: argptr_def assms(3) word_less_def word_le_def not_le not_less)
next
  let ?r = "fetchstr_loop (u_mem u) (u_sz u) a"
  have r: "argstr n u = map_option (Pair a) ?r"
    by (simp add: argstr_def assms(3) fetchstr_def) (auto simp: fetchstr_loop.simps [of "u_mem u" "u_sz u" a])
  show "case argstr n u of
       Some (c, xs) \<Rightarrow> c = a \<and> uint a + int (length xs) < uint (u_sz u) \<and>
         (\<forall>i<length xs. xs ! i = u_mem u (a + of_nat i) \<and> xs ! i \<noteq> 0) \<and> u_mem u (a + of_nat (length xs)) = 0
     | None \<Rightarrow> \<forall>c. a \<le> c \<and> c < u_sz u \<longrightarrow> u_mem u c \<noteq> 0"
  proof (cases ?r)
    case None
    then have "\<forall>c. a \<le> c \<and> c < u_sz u \<longrightarrow> u_mem u c \<noteq> 0" using fetchstr_loop_None by blast
    then show ?thesis by (simp add: r None)
  next
    case (Some xs)
    then show ?thesis using fetchstr_loop_Some [OF Some] by (auto simp: r)
  qed
qed

text \<open>A process of 64 bytes, whose first argument points to its last 8 bytes.\<close>

definition small_proc :: uproc where
  "small_proc = \<lparr>u_sz = 64, u_esp = 16, u_mem = (\<lambda>_. 0)(20 := 56, 56 := 97, 57 := 98), u_pid = 1, u_killed = False,
     u_ofile = (\<lambda>_. None), u_cwd = Some 0\<rparr>"

theorem args_in_bounds_witness:
  "argptr 0 8 small_proc = Some 56 \<and> argptr 0 9 small_proc \<noteq> Some 56 \<and> argptr 0 (- 1) small_proc \<noteq> Some 56 \<and>
   argstr 0 small_proc = Some (56, [97, 98]) \<and> uint (56 :: u32) + 2 < uint (u_sz small_proc)"
proof -
  have u: "user_size small_proc" by (simp add: user_size_def small_proc_def)
  have a: "argint 0 small_proc = Some 56"
    by (simp add: argint_def fetchint_def load32_def small_proc_def)
  have s: "argstr 0 small_proc = Some (56, [97, 98])"
    unfolding argstr_def a by (simp add: fetchstr_def small_proc_def fetchstr_loop.simps)
  show ?thesis
    using args_in_bounds [OF u _ a, of 8 56] args_in_bounds [OF u _ a, of 9 56] args_in_bounds [OF u _ a, of "- 1" 56] s
    by (simp add: small_proc_def)
qed

end
