(* ===== verification/File.thy ===== *)
theory File
  imports FsSys Pipe Syscall
begin

text \<open>
  Open files (\<open>file.c\<close>, \<open>pipealloc\<close> of \<open>pipe.c\<close>) and the file descriptors of the processes
  (\<open>sysfile.c\<close>): the table of open files counts the descriptors that point to each file, and a file
  holds a pointer to an inode or one end of a pipe.
\<close>

datatype ftype = FD_NONE | FD_PIPE | FD_INODE

record file_obj =
  f_type :: ftype
  f_ref :: int
  f_readable :: bool
  f_writable :: bool
  f_pipe :: nat
  f_ip :: nat
  f_off :: u32

text \<open>
  The system: the file system, the table of files, the pages that hold pipes, the free pages in the
  order of \<open>kalloc\<close>, and the slots of the process table.
\<close>

record sysst =
  fs :: fsst
  ftable :: "nat \<Rightarrow> file_obj"
  pipes :: "nat \<Rightarrow> pipe option"
  freepages :: "nat list"
  uprocs :: "nat \<Rightarrow> uproc"

definition pid :: "nat \<Rightarrow> sysst \<Rightarrow> int" where
  "pid p s = u_pid (uprocs s p)"

definition on_fs :: "(fsst \<Rightarrow> fsst result) \<Rightarrow> sysst \<Rightarrow> sysst result" where
  "on_fs f s = rbind (f (fs s)) (\<lambda>x. Inr (s\<lparr>fs := x\<rparr>))"

definition from_fs :: "(fsst \<Rightarrow> ('x \<times> fsst) result) \<Rightarrow> sysst \<Rightarrow> ('x \<times> sysst) result" where
  "from_fs f s = rbind (f (fs s)) (\<lambda>(x, y). Inr (x, s\<lparr>fs := y\<rparr>))"

definition upd_f :: "nat \<Rightarrow> (file_obj \<Rightarrow> file_obj) \<Rightarrow> sysst \<Rightarrow> sysst" where
  "upd_f k f s = s\<lparr>ftable := (ftable s)(k := f (ftable s k))\<rparr>"

definition upd_u :: "nat \<Rightarrow> (uproc \<Rightarrow> uproc) \<Rightarrow> sysst \<Rightarrow> sysst" where
  "upd_u p f s = s\<lparr>uprocs := (uprocs s)(p := f (uprocs s p))\<rparr>"

section \<open>The table of files\<close>

definition filealloc :: "sysst \<Rightarrow> nat option \<times> sysst" where
  "filealloc s =
     (case List.find (\<lambda>k. f_ref (ftable s k) = 0) [0..<100] of
        Some k \<Rightarrow> (Some k, upd_f k (\<lambda>f. f\<lparr>f_ref := 1\<rparr>) s)
      | None \<Rightarrow> (None, s))"

definition filedup :: "nat \<Rightarrow> sysst \<Rightarrow> sysst result" where
  "filedup k s =
     rbind (ensure (\<not> f_ref (ftable s k) < 1) (Panic ''filedup'')) (\<lambda>_. Inr (upd_f k (\<lambda>f. f\<lparr>f_ref := f_ref f + 1\<rparr>) s))"

text \<open>\<open>pipeclose\<close> on the page \<open>a\<close>, which goes back to the free pages when both ends are closed.\<close>

definition close_pipe :: "nat \<Rightarrow> bool \<Rightarrow> sysst \<Rightarrow> sysst result" where
  "close_pipe a writable s =
     (case pipes s a of
        None \<Rightarrow> Inl Dangling
      | Some q \<Rightarrow>
          (case pipeclose writable q of (freed, q1) \<Rightarrow>
             if freed then Inr (s\<lparr>pipes := (pipes s)(a := None), freepages := a # freepages s\<rparr>)
             else Inr (s\<lparr>pipes := (pipes s)(a := Some q1)\<rparr>)))"

definition put_inode :: "int \<Rightarrow> nat \<Rightarrow> fsst \<Rightarrow> fsst result" where
  "put_inode me ip s = rbind (on_log begin_op s) (\<lambda>s1. rbind (iput me ip s1) (on_log (end_op me)))"

definition fileclose :: "nat \<Rightarrow> nat \<Rightarrow> sysst \<Rightarrow> sysst result" where
  "fileclose p k s =
     rbind (ensure (\<not> f_ref (ftable s k) < 1) (Panic ''fileclose'')) (\<lambda>_.
     let s1 = upd_f k (\<lambda>f. f\<lparr>f_ref := f_ref f - 1\<rparr>) s in
     if f_ref (ftable s1 k) > 0 then Inr s1
     else
       let ff = ftable s1 k; s2 = upd_f k (\<lambda>f. f\<lparr>f_ref := 0, f_type := FD_NONE\<rparr>) s1 in
       case f_type ff of
         FD_PIPE \<Rightarrow> close_pipe (f_pipe ff) (f_writable ff) s2
       | FD_INODE \<Rightarrow> on_fs (put_inode (pid p s) (f_ip ff)) s2
       | FD_NONE \<Rightarrow> Inr s2)"

definition filestat :: "nat \<Rightarrow> nat \<Rightarrow> sysst \<Rightarrow> (stat option \<times> sysst) result" where
  "filestat p k s =
     (let ip = f_ip (ftable s k) in
      if f_type (ftable s k) = FD_INODE then
        rbind (on_fs (ilock (pid p s) (Some ip)) s) (\<lambda>s1.
        let st = stati ip (fs s1) in
        rbind (on_fs (iunlock (pid p s) (Some ip)) s1) (\<lambda>s2. Inr (Some st, s2)))
      else Inr (None, s))"

text \<open>
  A read gives the value that it returns, or none when it sleeps in a pipe, with the bytes read. A
  write gives the bytes that it has not written yet when it sleeps in a pipe.
\<close>

definition pipe_result :: "nat \<Rightarrow> int \<Rightarrow> outcome \<Rightarrow> 8 word list \<Rightarrow> pipe \<Rightarrow> sysst \<Rightarrow> (int option \<times> 8 word list \<times> sysst) result" where
  "pipe_result a n out bs q s =
     (let s1 = s\<lparr>pipes := (pipes s)(a := Some q)\<rparr> in
      case out of Sleeps \<Rightarrow> Inr (None, bs, s1) | Fails \<Rightarrow> Inr (Some (-1), bs, s1) | Returns \<Rightarrow> Inr (Some n, bs, s1))"

definition read_inode :: "int \<Rightarrow> nat \<Rightarrow> u32 \<Rightarrow> int \<Rightarrow> fsst \<Rightarrow> ((int \<times> 8 word list) \<times> fsst) result" where
  "read_inode me ip off n s =
     rbind (ilock me (Some ip) s) (\<lambda>s1.
     rbind (readi me ip off (word_of_int n) s1) (\<lambda>(r, xs, s2).
     rbind (iunlock me (Some ip) s2) (\<lambda>s3. Inr ((r, xs), s3))))"

definition fileread :: "nat \<Rightarrow> nat \<Rightarrow> int \<Rightarrow> sysst \<Rightarrow> (int option \<times> 8 word list \<times> sysst) result" where
  "fileread p k n s =
     (let f = ftable s k in
      if \<not> f_readable f then Inr (Some (-1), [], s)
      else case f_type f of
        FD_PIPE \<Rightarrow>
          (case pipes s (f_pipe f) of
             None \<Rightarrow> Inl Dangling
           | Some q \<Rightarrow>
               (case piperead (u_killed (uprocs s p)) (nat n) q of
                  (out, _, bs, q1) \<Rightarrow> pipe_result (f_pipe f) (int (length bs)) out bs q1 s))
      | FD_INODE \<Rightarrow>
          rbind (from_fs (read_inode (pid p s) (f_ip f) (f_off f) n) s) (\<lambda>((r, xs), s1).
          Inr (Some r, xs, if r > 0 then upd_f k (\<lambda>f. f\<lparr>f_off := f_off f + word_of_int r\<rparr>) s1 else s1))
      | FD_NONE \<Rightarrow> Inl (Panic ''fileread''))"

text \<open>One round of the loop of \<open>filewrite\<close>: a transaction that writes \<open>bs\<close> at \<open>off\<close>.\<close>

definition write_inode :: "int \<Rightarrow> nat \<Rightarrow> u32 \<Rightarrow> 8 word list \<Rightarrow> fsst \<Rightarrow> (int \<times> fsst) result" where
  "write_inode me ip off bs s =
     rbind (on_log begin_op s) (\<lambda>s1.
     rbind (ilock me (Some ip) s1) (\<lambda>s2.
     rbind (writei me ip off bs s2) (\<lambda>(r, s3).
     rbind (iunlock me (Some ip) s3) (\<lambda>s4.
     rbind (on_log (end_op me) s4) (\<lambda>s5. Inr (r, s5))))))"

text \<open>The loop says whether all bytes are written.\<close>

function filewrite_loop :: "nat \<Rightarrow> nat \<Rightarrow> 8 word list \<Rightarrow> sysst \<Rightarrow> (bool \<times> sysst) result" where
  "filewrite_loop p k bs s =
     (if bs = [] then Inr (True, s)
      else let n1 = min (length bs) 1536 in
        rbind (from_fs (write_inode (pid p s) (f_ip (ftable s k)) (f_off (ftable s k)) (take n1 bs)) s) (\<lambda>(r, s1).
        let s2 = (if r > 0 then upd_f k (\<lambda>f. f\<lparr>f_off := f_off f + word_of_int r\<rparr>) s1 else s1) in
        if r < 0 then Inr (False, s2)
        else rbind (ensure (r = int n1) (Panic ''short filewrite'')) (\<lambda>_. filewrite_loop p k (drop n1 bs) s2)))"
  by pat_completeness auto
termination
  by (relation "measure (\<lambda>(p, k, bs, s). length bs)") (auto simp: min_def)

declare filewrite_loop.simps [simp del]

definition filewrite :: "nat \<Rightarrow> nat \<Rightarrow> 8 word list \<Rightarrow> sysst \<Rightarrow> (int option \<times> 8 word list \<times> sysst) result" where
  "filewrite p k bs s =
     (let f = ftable s k in
      if \<not> f_writable f then Inr (Some (-1), [], s)
      else case f_type f of
        FD_PIPE \<Rightarrow>
          (case pipes s (f_pipe f) of
             None \<Rightarrow> Inl Dangling
           | Some q \<Rightarrow>
               (case pipewrite (u_killed (uprocs s p)) bs q of
                  (out, _, rest, q1) \<Rightarrow> pipe_result (f_pipe f) (int (length bs)) out rest q1 s))
      | FD_INODE \<Rightarrow>
          rbind (filewrite_loop p k bs s) (\<lambda>(done, s1). Inr (Some (if done then int (length bs) else -1), [], s1))
      | FD_NONE \<Rightarrow> Inl (Panic ''filewrite''))"

section \<open>pipealloc\<close>

text \<open>A page that \<open>kalloc\<close> gives is filled with ones by the \<open>kfree\<close> before.\<close>

definition junk_page :: pipe where
  "junk_page = \<lparr>p_data = (\<lambda>_. 1), nread = 0x01010101, nwrite = 0x01010101, readopen = True, writeopen = True\<rparr>"

text \<open>No page is allocated when a \<open>goto bad\<close> is reached.\<close>

definition pipealloc :: "nat \<Rightarrow> sysst \<Rightarrow> ((nat \<times> nat) option \<times> sysst) result" where
  "pipealloc p s =
     (case filealloc s of
        (None, s1) \<Rightarrow> Inr (None, s1)
      | (Some f0, s1) \<Rightarrow>
          (case filealloc s1 of
             (None, s2) \<Rightarrow> rbind (fileclose p f0 s2) (\<lambda>s3. Inr (None, s3))
           | (Some f1, s2) \<Rightarrow>
               (case freepages s2 of
                  [] \<Rightarrow> rbind (fileclose p f0 s2) (\<lambda>s3. rbind (fileclose p f1 s3) (\<lambda>s4. Inr (None, s4)))
                | a # as \<Rightarrow>
                    let s3 = s2\<lparr>freepages := as, pipes := (pipes s2)(a := Some (init_pipe junk_page))\<rparr>;
                        s4 = upd_f f0 (\<lambda>f. f\<lparr>f_type := FD_PIPE, f_readable := True, f_writable := False, f_pipe := a\<rparr>) s3;
                        s5 = upd_f f1 (\<lambda>f. f\<lparr>f_type := FD_PIPE, f_readable := False, f_writable := True, f_pipe := a\<rparr>) s4
                    in Inr (Some (f0, f1), s5))))"

section \<open>Descriptors\<close>

definition argfd :: "nat \<Rightarrow> nat \<Rightarrow> sysst \<Rightarrow> (nat \<times> nat) option" where
  "argfd n p s =
     (case argint n (uprocs s p) of
        None \<Rightarrow> None
      | Some w \<Rightarrow> (if sint w < 0 \<or> sint w \<ge> 16 then None
                   else map_option (Pair (nat (sint w))) (u_ofile (uprocs s p) (nat (sint w)))))"

definition set_fd :: "nat \<Rightarrow> nat \<Rightarrow> nat option \<Rightarrow> sysst \<Rightarrow> sysst" where
  "set_fd p fd v = upd_u p (\<lambda>u. u\<lparr>u_ofile := (u_ofile u)(fd := v)\<rparr>)"

definition fdalloc :: "nat \<Rightarrow> nat \<Rightarrow> sysst \<Rightarrow> nat option \<times> sysst" where
  "fdalloc p k s =
     (case List.find (\<lambda>fd. u_ofile (uprocs s p) fd = None) [0..<16] of
        Some fd \<Rightarrow> (Some fd, set_fd p fd (Some k) s)
      | None \<Rightarrow> (None, s))"

end
