(* ===== verification/Sysfile.thy ===== *)
theory Sysfile
  imports File
begin

text \<open>
  The system calls on files and paths (\<open>sysfile.c\<close>) of the process in slot \<open>p\<close>, and what \<open>fork\<close> and
  \<open>exit\<close> (\<open>proc.c\<close>) do with open files. A call gives the value that it returns, or none when it sleeps
  in a pipe.
\<close>

section \<open>The memory of the process\<close>

definition store_bytes :: "u32 \<Rightarrow> 8 word list \<Rightarrow> (u32 \<Rightarrow> 8 word) \<Rightarrow> u32 \<Rightarrow> 8 word" where
  "store_bytes a xs m = (\<lambda>x. if unat (x - a) < length xs then xs ! unat (x - a) else m x)"

definition le16 :: "16 word \<Rightarrow> 8 word list" where
  "le16 w = [ucast w, ucast (drop_bit 8 w)]"

definition le32 :: "u32 \<Rightarrow> 8 word list" where
  "le32 w = [ucast w, ucast (drop_bit 8 w), ucast (drop_bit 16 w), ucast (drop_bit 24 w)]"

definition store_user :: "nat \<Rightarrow> u32 \<Rightarrow> 8 word list \<Rightarrow> sysst \<Rightarrow> sysst" where
  "store_user p a xs = upd_u p (\<lambda>u. u\<lparr>u_mem := store_bytes a xs (u_mem u)\<rparr>)"

definition load_user :: "nat \<Rightarrow> u32 \<Rightarrow> nat \<Rightarrow> sysst \<Rightarrow> 8 word list" where
  "load_user p a n s = map (\<lambda>i. u_mem (uprocs s p) (a + of_nat i)) [0..<n]"

text \<open>The fields of \<open>struct stat\<close>, at their offsets; the padding keeps its bytes.\<close>

definition store_stat :: "nat \<Rightarrow> u32 \<Rightarrow> stat \<Rightarrow> sysst \<Rightarrow> sysst" where
  "store_stat p a st s =
     store_user p (a + 16) (le32 (st_size st)) (store_user p (a + 12) (le16 (st_nlink st))
       (store_user p (a + 8) (le32 (of_nat (st_ino st))) (store_user p (a + 4) (le32 (of_nat (st_dev st)))
         (store_user p a (le16 (st_type st)) s))))"

section \<open>Calls on descriptors\<close>

definition sys_dup :: "nat \<Rightarrow> sysst \<Rightarrow> (int option \<times> sysst) result" where
  "sys_dup p s =
     (case argfd 0 p s of
        None \<Rightarrow> Inr (Some (-1), s)
      | Some (_, k) \<Rightarrow>
          (case fdalloc p k s of
             (None, s1) \<Rightarrow> Inr (Some (-1), s1)
           | (Some fd, s1) \<Rightarrow> rbind (filedup k s1) (\<lambda>s2. Inr (Some (int fd), s2))))"

definition sys_read :: "nat \<Rightarrow> sysst \<Rightarrow> (int option \<times> sysst) result" where
  "sys_read p s =
     (case (argfd 0 p s, argint 2 (uprocs s p)) of
        (Some (_, k), Some n) \<Rightarrow>
          (case argptr 1 (sint n) (uprocs s p) of
             None \<Rightarrow> Inr (Some (-1), s)
           | Some a \<Rightarrow> rbind (fileread p k (sint n) s) (\<lambda>(r, bs, s1). Inr (r, store_user p a bs s1)))
      | _ \<Rightarrow> Inr (Some (-1), s))"

definition sys_write :: "nat \<Rightarrow> sysst \<Rightarrow> (int option \<times> sysst) result" where
  "sys_write p s =
     (case (argfd 0 p s, argint 2 (uprocs s p)) of
        (Some (_, k), Some n) \<Rightarrow>
          (case argptr 1 (sint n) (uprocs s p) of
             None \<Rightarrow> Inr (Some (-1), s)
           | Some a \<Rightarrow> rbind (filewrite p k (load_user p a (nat (sint n)) s) s) (\<lambda>(r, _, s1). Inr (r, s1)))
      | _ \<Rightarrow> Inr (Some (-1), s))"

definition sys_close :: "nat \<Rightarrow> sysst \<Rightarrow> (int option \<times> sysst) result" where
  "sys_close p s =
     (case argfd 0 p s of
        None \<Rightarrow> Inr (Some (-1), s)
      | Some (fd, k) \<Rightarrow> rbind (fileclose p k (set_fd p fd None s)) (\<lambda>s1. Inr (Some 0, s1)))"

definition sys_fstat :: "nat \<Rightarrow> sysst \<Rightarrow> (int option \<times> sysst) result" where
  "sys_fstat p s =
     (case (argfd 0 p s, argptr 1 20 (uprocs s p)) of
        (Some (_, k), Some a) \<Rightarrow>
          rbind (filestat p k s) (\<lambda>(st, s1).
          case st of None \<Rightarrow> Inr (Some (-1), s1) | Some st \<Rightarrow> Inr (Some 0, store_stat p a st s1))
      | _ \<Rightarrow> Inr (Some (-1), s))"

text \<open>After the two closes of a failure, the result is -1.\<close>

definition sys_pipe :: "nat \<Rightarrow> sysst \<Rightarrow> (int option \<times> sysst) result" where
  "sys_pipe p s =
     (case argptr 0 8 (uprocs s p) of
        None \<Rightarrow> Inr (Some (-1), s)
      | Some a \<Rightarrow>
          rbind (pipealloc p s) (\<lambda>(q, s1).
          case q of
            None \<Rightarrow> Inr (Some (-1), s1)
          | Some (rfile, wfile) \<Rightarrow>
              let close_both = (\<lambda>t. rbind (fileclose p rfile t) (\<lambda>t1. rbind (fileclose p wfile t1) (\<lambda>t2. Inr (Some (-1), t2)))) in
              (case fdalloc p rfile s1 of
                 (None, s2) \<Rightarrow> close_both s2
               | (Some fd0, s2) \<Rightarrow>
                   (case fdalloc p wfile s2 of
                      (None, s3) \<Rightarrow> close_both (set_fd p fd0 None s3)
                    | (Some fd1, s3) \<Rightarrow>
                        Inr (Some 0, store_user p (a + 4) (le32 (of_nat fd1)) (store_user p a (le32 (of_nat fd0)) s3))))))"

section \<open>Calls on paths\<close>

definition fs_call :: "(fsst \<Rightarrow> (int \<times> fsst) result) \<Rightarrow> sysst \<Rightarrow> (int option \<times> sysst) result" where
  "fs_call f s = rbind (from_fs f s) (\<lambda>(r, s1). Inr (Some r, s1))"

definition sys_link :: "name \<Rightarrow> nat \<Rightarrow> sysst \<Rightarrow> (int option \<times> sysst) result" where
  "sys_link junk p s =
     (case (argstr 0 (uprocs s p), argstr 1 (uprocs s p)) of
        (Some (_, old), Some (_, new)) \<Rightarrow> fs_call (link_paths (pid p s) (u_cwd (uprocs s p)) junk old new) s
      | _ \<Rightarrow> Inr (Some (-1), s))"

definition sys_unlink :: "name \<Rightarrow> nat \<Rightarrow> sysst \<Rightarrow> (int option \<times> sysst) result" where
  "sys_unlink junk p s =
     (case argstr 0 (uprocs s p) of
        Some (_, path) \<Rightarrow> fs_call (unlink_path (pid p s) (u_cwd (uprocs s p)) junk path) s
      | None \<Rightarrow> Inr (Some (-1), s))"

text \<open>
  \<open>open\<close> with the inode \<open>ip\<close>, locked and in a transaction: without a free file or descriptor everything
  is given back.
\<close>

definition no_file :: "nat \<Rightarrow> nat \<Rightarrow> sysst \<Rightarrow> (int option \<times> sysst) result" where
  "no_file p ip s = fs_call (put_and_end (-1) (pid p s) ip) s"

definition open_file :: "nat \<Rightarrow> nat \<Rightarrow> u32 \<Rightarrow> sysst \<Rightarrow> (int option \<times> sysst) result" where
  "open_file p ip omode s =
     (case filealloc s of
        (None, s1) \<Rightarrow> no_file p ip s1
      | (Some k, s1) \<Rightarrow>
          (case fdalloc p k s1 of
             (None, s2) \<Rightarrow> rbind (fileclose p k s2) (no_file p ip)
           | (Some fd, s2) \<Rightarrow>
               rbind (on_fs (iunlock (pid p s) (Some ip)) s2) (\<lambda>s3.
               rbind (on_fs (on_log (end_op (pid p s))) s3) (\<lambda>s4.
               Inr (Some (int fd), upd_f k (\<lambda>f. f\<lparr>f_type := FD_INODE, f_ip := ip, f_off := 0,
                 f_readable := (omode AND O_WRONLY = 0),
                 f_writable := (omode AND O_WRONLY \<noteq> 0 \<or> omode AND O_RDWR \<noteq> 0)\<rparr>) s4)))))"

definition sys_open :: "name \<Rightarrow> nat \<Rightarrow> sysst \<Rightarrow> (int option \<times> sysst) result" where
  "sys_open junk p s =
     (case (argstr 0 (uprocs s p), argint 1 (uprocs s p)) of
        (Some (_, path), Some omode) \<Rightarrow>
          rbind (from_fs (open_inode (pid p s) (u_cwd (uprocs s p)) junk path omode) s) (\<lambda>(q, s1).
          case q of None \<Rightarrow> Inr (Some (-1), s1) | Some ip \<Rightarrow> open_file p ip omode s1)
      | _ \<Rightarrow> Inr (Some (-1), s))"

definition sys_mkdir :: "name \<Rightarrow> nat \<Rightarrow> sysst \<Rightarrow> (int option \<times> sysst) result" where
  "sys_mkdir junk p s =
     rbind (on_fs (on_log begin_op) s) (\<lambda>s1.
     case argstr 0 (uprocs s p) of
       None \<Rightarrow> fs_call (end_with (-1) (pid p s)) s1
     | Some (_, path) \<Rightarrow> fs_call (make_node (pid p s) (u_cwd (uprocs s p)) junk path T_DIR 0 0) s1)"

text \<open>The numbers of the device are passed on as \<open>short\<close>.\<close>

definition sys_mknod :: "name \<Rightarrow> nat \<Rightarrow> sysst \<Rightarrow> (int option \<times> sysst) result" where
  "sys_mknod junk p s =
     rbind (on_fs (on_log begin_op) s) (\<lambda>s1.
     case (argstr 0 (uprocs s p), argint 1 (uprocs s p), argint 2 (uprocs s p)) of
       (Some (_, path), Some major, Some minor) \<Rightarrow>
         fs_call (make_node (pid p s) (u_cwd (uprocs s p)) junk path T_DEV (ucast major) (ucast minor)) s1
     | _ \<Rightarrow> fs_call (end_with (-1) (pid p s)) s1)"

definition sys_chdir :: "name \<Rightarrow> nat \<Rightarrow> sysst \<Rightarrow> (int option \<times> sysst) result" where
  "sys_chdir junk p s =
     rbind (on_fs (on_log begin_op) s) (\<lambda>s1.
     case argstr 0 (uprocs s p) of
       None \<Rightarrow> fs_call (end_with (-1) (pid p s)) s1
     | Some (_, path) \<Rightarrow>
         rbind (from_fs (change_dir (pid p s) (u_cwd (uprocs s p)) junk path) s1) (\<lambda>(q, s2).
         case q of None \<Rightarrow> Inr (Some (-1), s2)
         | Some ip \<Rightarrow> Inr (Some 0, upd_u p (\<lambda>u. u\<lparr>u_cwd := Some ip\<rparr>) s2)))"

text \<open>The arguments of \<open>exec\<close>: the path, and at most 31 strings before the null pointer.\<close>

function fetch_argv :: "nat \<Rightarrow> u32 \<Rightarrow> uproc \<Rightarrow> (u32 \<times> 8 word list) list option" where
  "fetch_argv i uargv u =
     (if i \<ge> 32 then None
      else case fetchint (uargv + 4 * of_nat i) u of
        None \<Rightarrow> None
      | Some uarg \<Rightarrow>
          if uarg = 0 then Some []
          else case fetchstr uarg u of
            None \<Rightarrow> None
          | Some a \<Rightarrow> map_option (Cons a) (fetch_argv (i + 1) uargv u))"
  by pat_completeness auto
termination by (relation "measure (\<lambda>(i, uargv, u). 32 - i)") auto

declare fetch_argv.simps [simp del]

definition exec_args :: "uproc \<Rightarrow> ((u32 \<times> 8 word list) \<times> (u32 \<times> 8 word list) list) option" where
  "exec_args u =
     (case (argstr 0 u, argint 1 u) of
        (Some path, Some uargv) \<Rightarrow> map_option (Pair path) (fetch_argv 0 uargv u)
      | _ \<Rightarrow> None)"

section \<open>fork and exit\<close>

text \<open>The open files and the directory of the child, whose slot is empty.\<close>

fun fork_fds :: "nat \<Rightarrow> nat \<Rightarrow> nat list \<Rightarrow> sysst \<Rightarrow> sysst result" where
  "fork_fds p c [] s = Inr s"
| "fork_fds p c (fd # fds) s =
     (case u_ofile (uprocs s p) fd of
        None \<Rightarrow> fork_fds p c fds s
      | Some k \<Rightarrow> rbind (filedup k s) (\<lambda>s1. fork_fds p c fds (set_fd c fd (Some k) s1)))"

definition fork_files :: "nat \<Rightarrow> nat \<Rightarrow> sysst \<Rightarrow> sysst result" where
  "fork_files p c s =
     rbind (fork_fds p c [0..<16] s) (\<lambda>s1.
     case u_cwd (uprocs s1 p) of
       None \<Rightarrow> Inl NullDeref
     | Some d \<Rightarrow> (case idup d (fs s1) of (ip, x) \<Rightarrow> Inr (upd_u c (\<lambda>u. u\<lparr>u_cwd := Some ip\<rparr>) (s1\<lparr>fs := x\<rparr>))))"

fun exit_fds :: "nat \<Rightarrow> nat list \<Rightarrow> sysst \<Rightarrow> sysst result" where
  "exit_fds p [] s = Inr s"
| "exit_fds p (fd # fds) s =
     (case u_ofile (uprocs s p) fd of
        None \<Rightarrow> exit_fds p fds s
      | Some k \<Rightarrow> rbind (fileclose p k s) (\<lambda>s1. exit_fds p fds (set_fd p fd None s1)))"

definition exit_files :: "nat \<Rightarrow> sysst \<Rightarrow> sysst result" where
  "exit_files p s =
     rbind (exit_fds p [0..<16] s) (\<lambda>s1.
     case u_cwd (uprocs s1 p) of
       None \<Rightarrow> Inl NullDeref
     | Some d \<Rightarrow>
         rbind (on_fs (put_inode (pid p s) d) s1) (\<lambda>s2. Inr (upd_u p (\<lambda>u. u\<lparr>u_cwd := None\<rparr>) s2)))"

end
