(* ===== verification/FileRefs.thy ===== *)
theory FileRefs
  imports FsRefs Sysfile
begin

text \<open>
  Open files as a table that counts pointers: the descriptors of all processes hold the files, and the
  open files and the current directories hold the inodes. Every system call keeps both counts exact,
  and no file has a pipe whose page has been freed.
\<close>

section \<open>What holds what\<close>

definition opt_ref :: "nat option \<Rightarrow> nat multiset" where
  "opt_ref x = (case x of None \<Rightarrow> {#} | Some k \<Rightarrow> {#k#})"

definition fds_of :: "uproc \<Rightarrow> nat multiset" where
  "fds_of u = (\<Sum>fd<16. opt_ref (u_ofile u fd))"

definition open_fds :: "sysst \<Rightarrow> nat multiset" where
  "open_fds s = (\<Sum>p<64. fds_of (uprocs s p))"

definition cwds :: "sysst \<Rightarrow> nat multiset" where
  "cwds s = (\<Sum>p<64. opt_ref (u_cwd (uprocs s p)))"

definition file_inode :: "file_obj \<Rightarrow> nat multiset" where
  "file_inode f = (if f_ref f > 0 \<and> f_type f = FD_INODE then {#f_ip f#} else {#})"

definition file_inodes :: "sysst \<Rightarrow> nat multiset" where
  "file_inodes s = (\<Sum>k<100. file_inode (ftable s k))"

lemma opt_ref_simps [simp]: "opt_ref None = {#}" "opt_ref (Some k) = {#k#}"
  by (simp_all add: opt_ref_def)

lemma sum_update:
  fixes h :: "'a \<Rightarrow> nat multiset"
  assumes "k < (n :: nat)"
  shows "(\<Sum>j<n. h ((g(k := v)) j)) + h (g k) = (\<Sum>j<n. h (g j)) + h v"
proof -
  have "(\<Sum>j\<in>{..<n} - {k}. h ((g(k := v)) j)) = (\<Sum>j\<in>{..<n} - {k}. h (g j))" by (rule sum.cong) auto
  then show ?thesis using assms by (simp add: sum.remove [of "{..<n}" k])
qed

text \<open>An end of a pipe: which page it is in, and whether it is the writing one.\<close>

definition pipe_end :: "sysst \<Rightarrow> nat \<Rightarrow> nat \<Rightarrow> bool \<Rightarrow> bool" where
  "pipe_end s k a w \<longleftrightarrow> k < 100 \<and> f_ref (ftable s k) > 0 \<and> f_type (ftable s k) = FD_PIPE \<and>
     f_pipe (ftable s k) = a \<and> f_writable (ftable s k) = w"

definition end_open :: "bool \<Rightarrow> pipe \<Rightarrow> bool" where
  "end_open w q = (if w then writeopen q else readopen q)"

text \<open>
  Every open file with a pipe finds its page and its end open there, no two have the same end, free
  files have no type, and free pages hold no pipe.
\<close>

definition pipes_ok :: "sysst \<Rightarrow> bool" where
  "pipes_ok s \<longleftrightarrow>
     (\<forall>k a w. pipe_end s k a w \<longrightarrow> (\<exists>q. pipes s a = Some q \<and> end_open w q)) \<and>
     (\<forall>j k a w. pipe_end s j a w \<longrightarrow> pipe_end s k a w \<longrightarrow> j = k) \<and>
     (\<forall>k<100. f_ref (ftable s k) = 0 \<longrightarrow> f_type (ftable s k) = FD_NONE) \<and>
     distinct (freepages s) \<and> (\<forall>a\<in>set (freepages s). pipes s a = None)"

lemma pipes_okI:
  assumes "\<And>k a w. pipe_end s k a w \<Longrightarrow> \<exists>q. pipes s a = Some q \<and> end_open w q"
    and "\<And>j k a w. pipe_end s j a w \<Longrightarrow> pipe_end s k a w \<Longrightarrow> j = k"
    and "\<And>k. k < 100 \<Longrightarrow> f_ref (ftable s k) = 0 \<Longrightarrow> f_type (ftable s k) = FD_NONE"
    and "distinct (freepages s)" and "\<And>a. a \<in> set (freepages s) \<Longrightarrow> pipes s a = None"
  shows "pipes_ok s"
  using assms unfolding pipes_ok_def by blast

lemma pipes_okD:
  assumes "pipes_ok s"
  shows "pipe_end s k a w \<Longrightarrow> \<exists>q. pipes s a = Some q \<and> end_open w q"
    and "pipe_end s j a w \<Longrightarrow> pipe_end s k a w \<Longrightarrow> j = k"
    and "k < 100 \<Longrightarrow> f_ref (ftable s k) = 0 \<Longrightarrow> f_type (ftable s k) = FD_NONE"
    and "distinct (freepages s)" and "a \<in> set (freepages s) \<Longrightarrow> pipes s a = None"
  using assms unfolding pipes_ok_def by blast+

definition file_count :: "sysst \<Rightarrow> nat \<Rightarrow> int" where
  "file_count s k = (if k < 100 then f_ref (ftable s k) else 0)"

text \<open>\<open>C\<close>: the pointers to inodes that are not in an open file.\<close>

definition files_ok :: "nat multiset \<Rightarrow> sysst \<Rightarrow> bool" where
  "files_ok C s \<longleftrightarrow> (\<forall>k<100. 0 \<le> f_ref (ftable s k)) \<and> pipes_ok s \<and> held (file_inodes s + C) (fs s)"

lemma files_okD:
  assumes "files_ok C s"
  shows "k < 100 \<Longrightarrow> 0 \<le> f_ref (ftable s k)" and "pipes_ok s" and "held (file_inodes s + C) (fs s)"
  using assms by (simp_all add: files_ok_def)

section \<open>Steps that keep the table\<close>

text \<open>The files, the pipes and the free pages are the same, with other offsets in the files and other bytes in the pipes.\<close>

definition same_file :: "file_obj \<Rightarrow> file_obj \<Rightarrow> bool" where
  "same_file f g \<longleftrightarrow> f_ref g = f_ref f \<and> f_type g = f_type f \<and> f_pipe g = f_pipe f \<and> f_writable g = f_writable f \<and> f_ip g = f_ip f"

definition same_ends :: "pipe option \<Rightarrow> pipe option \<Rightarrow> bool" where
  "same_ends p q \<longleftrightarrow> map_option (\<lambda>p. (readopen p, writeopen p)) p = map_option (\<lambda>p. (readopen p, writeopen p)) q"

definition same_files :: "sysst \<Rightarrow> sysst \<Rightarrow> bool" where
  "same_files s s' \<longleftrightarrow> (\<forall>k. same_file (ftable s k) (ftable s' k)) \<and> (\<forall>a. same_ends (pipes s a) (pipes s' a)) \<and>
     freepages s' = freepages s"

lemma same_endsD:
  assumes "same_ends p q"
  shows "(\<exists>x. q = Some x \<and> end_open w x) \<longleftrightarrow> (\<exists>x. p = Some x \<and> end_open w x)" and "q = None \<longleftrightarrow> p = None"
  using assms by (cases p; cases q; auto simp: same_ends_def end_open_def)+

lemma same_filesD:
  assumes "same_files s s'"
  shows "pipe_end s' k a w \<longleftrightarrow> pipe_end s k a w" and "file_inodes s' = file_inodes s" and "file_count s' = file_count s"
    and "pipes_ok s' \<longleftrightarrow> pipes_ok s" and "freepages s' = freepages s"
proof -
  have f: "f_ref (ftable s' k) = f_ref (ftable s k)" "f_type (ftable s' k) = f_type (ftable s k)"
      "f_pipe (ftable s' k) = f_pipe (ftable s k)" "f_writable (ftable s' k) = f_writable (ftable s k)"
      "f_ip (ftable s' k) = f_ip (ftable s k)" for k
    using assms by (simp_all add: same_files_def same_file_def)
  show e: "pipe_end s' k a w \<longleftrightarrow> pipe_end s k a w" for k a w by (simp add: pipe_end_def f)
  show "file_inodes s' = file_inodes s" unfolding file_inodes_def file_inode_def f ..
  show "file_count s' = file_count s" by (simp add: file_count_def f fun_eq_iff)
  show fr: "freepages s' = freepages s" using assms by (simp add: same_files_def)
  have "same_ends (pipes s a) (pipes s' a)" for a using assms by (simp add: same_files_def)
  note same_endsD [OF this]
  then show "pipes_ok s' \<longleftrightarrow> pipes_ok s" unfolding pipes_ok_def e f fr by simp
qed

lemma same_files_ok:
  assumes "same_files s s'" and "held (file_inodes s + C) (fs s')"
  shows "files_ok D s \<Longrightarrow> files_ok C s'"
  using same_filesD [OF assms(1)] assms by (auto simp: files_ok_def same_files_def same_file_def)

section \<open>The files as a counted table\<close>

definition get_file :: "unit \<Rightarrow> sysst \<Rightarrow> (nat \<times> sysst) result" where
  "get_file u s = (case filealloc s of (Some k, s1) \<Rightarrow> Inr (k, s1) | (None, s1) \<Rightarrow> Inl (Panic ''no file''))"

lemma upd_f_sel [simp]:
  "fs (upd_f k f s) = fs s" "pipes (upd_f k f s) = pipes s" "freepages (upd_f k f s) = freepages s"
  "uprocs (upd_f k f s) = uprocs s" "ftable (upd_f k f s) = (ftable s)(k := f (ftable s k))"
  by (simp_all add: upd_f_def)

lemma file_inodes_upd:
  assumes "k < 100"
  shows "file_inodes (upd_f k f s) + file_inode (ftable s k) = file_inodes s + file_inode (f (ftable s k))"
  using sum_update [OF assms, of file_inode "ftable s"] by (simp add: file_inodes_def)

lemma filealloc_ok:
  assumes ok: "files_ok C s" and r: "filealloc s = (Some k, s')"
  shows "files_ok C s'" and "file_count s' = (file_count s)(k := file_count s k + 1)" and "k < 100"
    and "f_type (ftable s' k) = FD_NONE" and "f_ref (ftable s' k) = 1" and "s' = upd_f k (\<lambda>f. f\<lparr>f_ref := 1\<rparr>) s"
proof -
  have k: "k < 100" "f_ref (ftable s k) = 0" "s' = upd_f k (\<lambda>f. f\<lparr>f_ref := 1\<rparr>) s"
    using r find_SomeD [of "\<lambda>k. f_ref (ftable s k) = 0" "[0..<100]" k]
    by (auto simp: filealloc_def split: option.splits)
  note P = files_okD(2) [OF ok]
  have sel: "pipes s' = pipes s" "freepages s' = freepages s" "ftable s' = (ftable s)(k := (ftable s k)\<lparr>f_ref := 1\<rparr>)"
    by (simp_all add: k(3))
  have t: "f_type (ftable s k) = FD_NONE" using pipes_okD(3) [OF P k(1,2)] .
  have e: "pipe_end s' j a w \<longleftrightarrow> pipe_end s j a w" for j a w
    using k(2) t by (auto simp: pipe_end_def k(3))
  have "pipes_ok s'"
    by (rule pipes_okI) (use pipes_okD [OF P] sel in \<open>auto simp: e split: if_splits\<close>)
  moreover have "file_inodes s' = file_inodes s"
    using file_inodes_upd [OF k(1), of "\<lambda>f. f\<lparr>f_ref := 1\<rparr>" s] t by (simp add: k(3) file_inode_def)
  ultimately show "files_ok C s'" using ok k by (auto simp: files_ok_def)
  show "file_count s' = (file_count s)(k := file_count s k + 1)" using k by (auto simp: file_count_def fun_eq_iff)
  show "k < 100" "f_type (ftable s' k) = FD_NONE" "f_ref (ftable s' k) = 1" "s' = upd_f k (\<lambda>f. f\<lparr>f_ref := 1\<rparr>) s"
    using k t by simp_all
qed

text \<open>Another count for a file that stays in use.\<close>

lemma upd_ref_ok:
  assumes ok: "files_ok C s" and k: "k < 100" "0 < f_ref (ftable s k)" "0 < n"
  shows "files_ok C (upd_f k (\<lambda>f. f\<lparr>f_ref := n\<rparr>) s)"
proof -
  let ?s = "upd_f k (\<lambda>f. f\<lparr>f_ref := n\<rparr>) s"
  note P = files_okD(2) [OF ok]
  have e: "pipe_end ?s j a w \<longleftrightarrow> pipe_end s j a w" for j a w using k by (auto simp: pipe_end_def)
  have "pipes_ok ?s"
    by (rule pipes_okI) (use pipes_okD [OF P] k(3) in \<open>auto simp: e split: if_splits\<close>)
  moreover have "file_inodes ?s = file_inodes s"
    using file_inodes_upd [OF k(1), of "\<lambda>f. f\<lparr>f_ref := n\<rparr>" s] k(2,3)
    by (simp add: file_inode_def split: if_splits)
  ultimately show ?thesis using ok k by (auto simp: files_ok_def)
qed

lemma close_pipe_ok:
  assumes P: "pipes_ok s" and k: "pipe_end s k a w" and r: "close_pipe a w s2 = Inr s'"
    and e: "\<And>j b v. pipe_end s2 j b v \<longleftrightarrow> pipe_end s j b v \<and> j \<noteq> k"
    and s2: "pipes s2 = pipes s" "freepages s2 = freepages s"
    and free: "\<And>j. j < 100 \<Longrightarrow> f_ref (ftable s2 j) = 0 \<Longrightarrow> f_type (ftable s2 j) = FD_NONE"
  shows "pipes_ok s'" and "ftable s' = ftable s2" and "fs s' = fs s2"
proof -
  obtain q where q: "pipes s a = Some q" "end_open w q" using pipes_okD(1) [OF P k] by blast
  obtain freed q1 where c: "pipeclose w q = (freed, q1)" by force
  have other: "\<not> freed \<and> end_open v q1" if "pipe_end s j a v" "j \<noteq> k" for j v
  proof -
    have "v \<noteq> w" using pipes_okD(2) [OF P _ k] that by blast
    then have "v = (\<not> w)" by blast
    moreover have "end_open v q" using pipes_okD(1) [OF P that(1)] q by auto
    ultimately show ?thesis using c by (auto simp: pipeclose_def end_open_def Let_def split: if_splits)
  qed
  have s': "s' = (if freed then s2\<lparr>pipes := (pipes s2)(a := None), freepages := a # freepages s2\<rparr>
      else s2\<lparr>pipes := (pipes s2)(a := Some q1)\<rparr>)"
    using r q c s2 by (auto simp: close_pipe_def split: if_splits)
  show ft: "ftable s' = ftable s2" and "fs s' = fs s2" by (simp_all add: s')
  have e': "pipe_end s' j b v \<longleftrightarrow> pipe_end s j b v \<and> j \<noteq> k" for j b v using e by (simp add: pipe_end_def ft)
  show "pipes_ok s'"
  proof (rule pipes_okI)
    fix j b v assume "pipe_end s' j b v"
    then have j: "pipe_end s j b v" "j \<noteq> k" using e' by blast+
    show "\<exists>q. pipes s' b = Some q \<and> end_open v q"
      using pipes_okD(1) [OF P j(1)] other j by (cases "b = a") (auto simp: s' s2)
  next
    show "distinct (freepages s')" using pipes_okD(4,5) [OF P] q by (auto simp: s' s2)
    show "pipes s' b = None" if "b \<in> set (freepages s')" for b
      using that pipes_okD(5) [OF P] q by (auto simp: s' s2 split: if_splits)
  qed (use pipes_okD(2) [OF P] free in \<open>auto simp: e' ft\<close>)
qed

lemma put_inode_held [held_rules]:
  assumes "held M s" and "ip \<in># M" and "\<And>s'. held (M - {#ip#}) s' \<Longrightarrow> Q s'"
  shows "gives (put_inode me ip s) Q"
  unfolding put_inode_def by (rule gives_rules held_rules assms | assumption)+

lemma fileclose_uprocs: "fileclose p k s = Inr s' \<Longrightarrow> uprocs s' = uprocs s"
  by (auto simp: fileclose_def rbind_eq_Inr Let_def close_pipe_def on_fs_def split: if_splits ftype.splits option.splits prod.splits)

lemma fileclose_ok:
  assumes ok: "files_ok C s" and n: "0 < file_count s k" and r: "fileclose p k s = Inr s'"
  shows "files_ok C s' \<and> file_count s' = (file_count s)(k := file_count s k - 1)"
proof -
  have k: "k < 100" "0 < f_ref (ftable s k)" using n by (auto simp: file_count_def split: if_splits)
  note P = files_okD(2) [OF ok]
  show ?thesis
  proof (cases "f_ref (ftable s k) = 1")
    case False
    then have "s' = upd_f k (\<lambda>f. f\<lparr>f_ref := f_ref (ftable s k) - 1\<rparr>) s"
      using r k by (auto simp: fileclose_def rbind_eq_Inr upd_f_def Let_def split: if_splits)
    then show ?thesis using upd_ref_ok [OF ok k, of "f_ref (ftable s k) - 1"] False k
      by (auto simp: file_count_def fun_eq_iff)
  next
    case True
    let ?f = "ftable s k"
    define s2 where "s2 = upd_f k (\<lambda>f. f\<lparr>f_ref := 0, f_type := FD_NONE\<rparr>) s"
    have r2: "(case f_type ?f of FD_PIPE \<Rightarrow> close_pipe (f_pipe ?f) (f_writable ?f) s2
        | FD_INODE \<Rightarrow> on_fs (put_inode (pid p s) (f_ip ?f)) s2 | FD_NONE \<Rightarrow> Inr s2) = Inr s'"
      using r True by (simp add: fileclose_def rbind_eq_Inr upd_f_def Let_def s2_def cong: ftype.case_cong)
    have e: "pipe_end s2 j b v \<longleftrightarrow> pipe_end s j b v \<and> j \<noteq> k" for j b v by (auto simp: pipe_end_def s2_def)
    have sel: "pipes s2 = pipes s" "freepages s2 = freepages s" "fs s2 = fs s" by (simp_all add: s2_def)
    have free: "f_ref (ftable s2 j) = 0 \<Longrightarrow> f_type (ftable s2 j) = FD_NONE" if "j < 100" for j
      using pipes_okD(3) [OF P that] by (cases "j = k") (simp_all add: s2_def)
    have P2: "pipes_ok s2"
      by (rule pipes_okI) (use pipes_okD [OF P] free in \<open>auto simp: e sel\<close>)
    have i2: "file_inodes s2 + file_inode ?f = file_inodes s"
      using file_inodes_upd [OF k(1), of "\<lambda>f. f\<lparr>f_ref := 0, f_type := FD_NONE\<rparr>" s] by (simp add: s2_def file_inode_def)
    have c2: "file_count s2 = (file_count s)(k := file_count s k - 1)" "\<forall>j<100. 0 \<le> f_ref (ftable s2 j)"
      using True k files_okD(1) [OF ok] by (auto simp: s2_def file_count_def fun_eq_iff)
    have H: "held (file_inodes s2 + file_inode ?f + C) (fs s2)" using files_okD(3) [OF ok] by (simp add: i2 sel)
    have "files_ok C s' \<and> ftable s' = ftable s2"
    proof (cases "f_type ?f")
      case FD_NONE
      then show ?thesis using r2 P2 H c2 by (auto simp: files_ok_def file_inode_def)
    next
      case FD_PIPE
      then have K: "pipe_end s k (f_pipe ?f) (f_writable ?f)" and r3: "close_pipe (f_pipe ?f) (f_writable ?f) s2 = Inr s'"
        using k r2 by (simp_all add: pipe_end_def)
      note close_pipe_ok [OF P K r3 e sel(1,2) free]
      then show ?thesis using H c2 FD_PIPE by (auto simp: files_ok_def file_inodes_def file_inode_def)
    next
      case FD_INODE
      then obtain x where x: "put_inode (pid p s) (f_ip ?f) (fs s2) = Inr x" "s' = s2\<lparr>fs := x\<rparr>"
        using r2 by (auto simp: on_fs_def rbind_eq_Inr)
      have "held (add_mset (f_ip ?f) (file_inodes s2 + C)) (fs s2)" using H FD_INODE k by (simp add: file_inode_def)
      then have "gives (put_inode (pid p s) (f_ip ?f) (fs s2)) (held (file_inodes s2 + C))"
        by (rule put_inode_held) simp_all
      then have "held (file_inodes s2 + C) x" using x(1) by (rule givesD)
      moreover have "same_files s2 s'" by (simp add: x(2) same_files_def same_file_def same_ends_def)
      ultimately show ?thesis using same_filesD [of s2 s'] P2 c2 x(2) by (auto simp: files_ok_def)
    qed
    moreover have "ftable s' = ftable s2 \<Longrightarrow> file_count s' = file_count s2" by (simp add: file_count_def fun_eq_iff)
    ultimately show ?thesis using c2(1) by simp
  qed
qed

lemma filedup_ok:
  assumes ok: "files_ok C s" and n: "0 < file_count s k" and r: "filedup k s = Inr s'"
  shows "files_ok C s' \<and> file_count s' = (file_count s)(k := file_count s k + 1)"
proof -
  have k: "k < 100" "0 < f_ref (ftable s k)" using n by (auto simp: file_count_def split: if_splits)
  moreover have "s' = upd_f k (\<lambda>f. f\<lparr>f_ref := f_ref (ftable s k) + 1\<rparr>) s"
    using r by (auto simp: filedup_def rbind_eq_Inr upd_f_def)
  ultimately show ?thesis using upd_ref_ok [OF ok k, of "f_ref (ftable s k) + 1"]
    by (auto simp: file_count_def fun_eq_iff)
qed

interpretation file_table: refcount file_count "files_ok C" get_file filedup fileclose for C
proof
  show "files_ok C s' \<and> file_count s' = (file_count s)(i := file_count s i + 1)"
    if "files_ok C s" "get_file k s = Inr (i, s')" for s k i s'
    using filealloc_ok [OF that(1), of i s'] that(2) by (auto simp: get_file_def split: prod.splits option.splits)
qed (use filedup_ok fileclose_ok in blast)+

end
