(* ===== verification/SysRefs.thy ===== *)
theory SysRefs
  imports FileRefs
begin

text \<open>Every system call, \<open>fork\<close> and \<open>exit\<close> keep the counts of files and inodes exact.\<close>

abbreviation files :: "nat multiset \<Rightarrow> nat multiset \<Rightarrow> sysst \<Rightarrow> bool" where
  "files M C s \<equiv> file_table.exact C M s"

definition sys_ok :: "sysst \<Rightarrow> bool" where
  "sys_ok s \<longleftrightarrow> files (open_fds s) (cwds s) s"

lemma filesD:
  assumes "files M C s"
  shows "files_ok C s" and "k \<in># M \<Longrightarrow> 0 < file_count s k" and "held (file_inodes s + C) (fs s)"
  using file_table.exactD [OF assms] files_okD(3) by blast+

lemma files_same:
  assumes "same_files s s'" and "held (file_inodes s + D) (fs s')"
  shows "files M C s \<Longrightarrow> files M D s'"
  using same_files_ok [OF assms, of C] same_filesD(3) [OF assms(1)] by (simp add: file_table.exact_def)

lemma same_fs [simp]: "same_files s (s\<lparr>fs := x\<rparr>)" and same_upd_u [simp]: "same_files s (upd_u p f s)"
  by (simp_all add: same_files_def same_file_def same_ends_def upd_u_def)

lemma upd_u_sel [simp]:
  "fs (upd_u p f s) = fs s" "ftable (upd_u p f s) = ftable s" "uprocs (upd_u p f s) = (uprocs s)(p := f (uprocs s p))"
  by (simp_all add: upd_u_def)

lemma files_upd_u [simp]: "files M C (upd_u p f s) \<longleftrightarrow> files M C s"
proof -
  have "file_count (upd_u p f s) = file_count s" "file_inodes (upd_u p f s) = file_inodes s" "pipes_ok (upd_u p f s) = pipes_ok s"
    using same_filesD [OF same_upd_u] by blast+
  then show ?thesis by (simp add: file_table.exact_def files_ok_def)
qed

named_theorems files_rules \<open>the pointers to files and inodes that are out after an operation\<close>

text \<open>An operation on the file system, with the pointers \<open>C\<close> before and \<open>D\<close> after it.\<close>

lemma on_fs_files:
  assumes "files M C s" and "\<And>N. held (N + C) (fs s) \<Longrightarrow> gives (f (fs s)) (held (N + D))"
    and "\<And>x. files M D (s\<lparr>fs := x\<rparr>) \<Longrightarrow> Q (s\<lparr>fs := x\<rparr>)"
  shows "gives (on_fs f s) Q"
proof (rule givesI)
  fix s' assume "on_fs f s = Inr s'"
  then obtain x where x: "f (fs s) = Inr x" "s' = s\<lparr>fs := x\<rparr>" by (auto simp: on_fs_def rbind_eq_Inr)
  have "held (file_inodes s + D) x" using givesD [OF assms(2) x(1)] filesD(3) [OF assms(1)] by blast
  then show "Q s'" using assms(3) files_same [OF same_fs _ assms(1), of D x] x(2) by simp
qed

lemma from_fs_files:
  assumes "files M C s" and "\<And>N. held (N + C) (fs s) \<Longrightarrow> gives (f (fs s)) (\<lambda>(r, x). held (N + D r) x)"
    and "\<And>r x. files M (D r) (s\<lparr>fs := x\<rparr>) \<Longrightarrow> Q (r, s\<lparr>fs := x\<rparr>)"
  shows "gives (from_fs f s) Q"
proof (rule givesI)
  fix y assume "from_fs f s = Inr y"
  then obtain r x where x: "f (fs s) = Inr (r, x)" "y = (r, s\<lparr>fs := x\<rparr>)" by (auto simp: from_fs_def rbind_eq_Inr)
  have "held (file_inodes s + D r) x" using givesD [OF assms(2) x(1)] filesD(3) [OF assms(1)] by auto
  then show "Q y" using assms(3) files_same [OF same_fs _ assms(1), of "D r" x] x(2) by simp
qed

lemma filedup_files [files_rules]:
  assumes "files M C s" and "k \<in># M" and "\<And>s'. files (add_mset k M) C s' \<Longrightarrow> uprocs s' = uprocs s \<Longrightarrow> Q s'"
  shows "gives (filedup k s) Q"
proof (rule givesI)
  fix s' assume r: "filedup k s = Inr s'"
  then have "uprocs s' = uprocs s" by (auto simp: filedup_def rbind_eq_Inr)
  then show "Q s'" using assms(3) file_table.exact_dup [OF assms(1,2) r] by blast
qed

lemma fileclose_files [files_rules]:
  assumes "files M C s" and "k \<in># M" and "\<And>s'. files (M - {#k#}) C s' \<Longrightarrow> uprocs s' = uprocs s \<Longrightarrow> Q s'"
  shows "gives (fileclose p k s) Q"
  using file_table.exact_put [OF assms(1,2)] fileclose_uprocs assms(3) by (auto intro!: givesI)

lemma filealloc_files:
  assumes "files M C s" and "filealloc s = (Some k, s')"
  shows "files (add_mset k M) C s'"
  using file_table.exact_get [OF assms(1), of "()" k s'] assms(2) by (simp add: get_file_def)

section \<open>Reading and writing\<close>

lemma pipe_bytes_files:
  assumes s: "files M C s" and a: "pipes s a = Some q" and q: "readopen q1 = readopen q" "writeopen q1 = writeopen q"
  shows "files M C (s\<lparr>pipes := (pipes s)(a := Some q1)\<rparr>)"
proof -
  have "same_files s (s\<lparr>pipes := (pipes s)(a := Some q1)\<rparr>)"
    using a q by (auto simp: same_files_def same_file_def same_ends_def)
  then show ?thesis using files_same [OF _ _ s] filesD(3) [OF s] by simp
qed

lemma pipe_result_files:
  assumes "files M C s" and "pipes s a = Some q" and "readopen q1 = readopen q" and "writeopen q1 = writeopen q"
    and "\<And>r s'. files M C s' \<Longrightarrow> uprocs s' = uprocs s \<Longrightarrow> Q (r, bs, s')"
  shows "gives (pipe_result a n out bs q1 s) Q"
  using pipe_bytes_files [OF assms(1-4)] assms(5)
  by (cases out) (simp_all add: pipe_result_def Let_def gives_Inr)

lemma pipewrite_open:
  assumes "pipewrite killed bs p = (out, w, rest, q)"
  shows "readopen q = readopen p" and "writeopen q = writeopen p"
  using assms by (induction bs arbitrary: p) (auto split: if_splits)

lemma read_bytes_open: "read_bytes n p = (bs, q) \<Longrightarrow> readopen q = readopen p \<and> writeopen q = writeopen p"
  by (induction n arbitrary: p bs) (auto split: if_splits prod.splits)

lemma piperead_open:
  assumes "piperead killed n p = (out, w, bs, q)"
  shows "readopen q = readopen p" and "writeopen q = writeopen p"
  using assms read_bytes_open by (auto simp: piperead_def split: if_splits prod.splits)

lemma set_off_files [simp]: "files M C (upd_f k (\<lambda>f. f\<lparr>f_off := v f\<rparr>) s) \<longleftrightarrow> files M C s"
proof -
  have s: "same_files s (upd_f k (\<lambda>f. f\<lparr>f_off := v f\<rparr>) s)"
    by (simp add: same_files_def same_file_def same_ends_def)
  show ?thesis using same_filesD [OF s] s
    by (auto simp: file_table.exact_def files_ok_def same_files_def same_file_def)
qed

lemma read_inode_held [held_rules]:
  assumes "held M s" and "\<And>k s'. held M s' \<Longrightarrow> Q (k, s')"
  shows "gives (read_inode me ip off n s) Q"
  unfolding read_inode_def by (simp only: prod.case | rule gives_rules held_rules assms | assumption)+

lemma write_inode_held [held_rules]:
  assumes "held M s" and "\<And>k s'. held M s' \<Longrightarrow> Q (k, s')"
  shows "gives (write_inode me ip off bs s) Q"
  unfolding write_inode_def by (simp only: prod.case | rule gives_rules held_rules assms | assumption)+

lemma fileread_files [files_rules]:
  assumes s: "files M C s" and Q: "\<And>r bs s'. files M C s' \<Longrightarrow> uprocs s' = uprocs s \<Longrightarrow> Q (r, bs, s')"
  shows "gives (fileread p k n s) Q"
proof -
  have "gives (from_fs (read_inode me ip off n) s) (\<lambda>(x, s'). files M C s' \<and> uprocs s' = uprocs s)" for me ip off
    by (rule from_fs_files [where D = "\<lambda>_. C", OF s]) (rule held_rules, assumption, simp_all)
  note g = gives_mono [OF this]
  show ?thesis
    unfolding fileread_def Let_def
    by (cases "f_type (ftable s k)")
      (auto intro!: gives_rules pipe_result_files [OF s] g Q s simp: piperead_open split: prod.splits)
qed

lemma filewrite_loop_files:
  assumes "files M C s"
  shows "gives (filewrite_loop p k bs s) (\<lambda>(d, s'). files M C s' \<and> uprocs s' = uprocs s)"
  using assms
proof (induction bs arbitrary: s rule: length_induct)
  case (1 bs)
  let ?n = "min (length bs) 1536"
  have "gives (filewrite_loop p k (drop ?n bs) t) (\<lambda>(d, s'). files M C s' \<and> uprocs s' = uprocs s)"
    if "bs \<noteq> []" "files M C t" "uprocs t = uprocs s" for t
    using 1(1) [rule_format, of "drop ?n bs" t] that by simp
  then have "gives (if r < 0 then Inr (False, t) else
      rbind (ensure (r = int ?n) (Panic ''short filewrite'')) (\<lambda>_. filewrite_loop p k (drop ?n bs) t))
      (\<lambda>(d, s'). files M C s' \<and> uprocs s' = uprocs s)"
    if "bs \<noteq> []" "files M C t" "uprocs t = uprocs s" for r t
    using that by (intro gives_rules) simp_all
  note step = this
  show ?case
    unfolding filewrite_loop.simps [of p k bs s] Let_def
  proof (intro gives_if gives_bind gives_Inr)
    assume ne: "bs \<noteq> []"
    show "gives (from_fs (write_inode (pid p s) (f_ip (ftable s k)) (f_off (ftable s k)) (take ?n bs)) s)
      (\<lambda>x. gives (case x of (r, s1) \<Rightarrow>
         if r < 0 then Inr (False, if 0 < r then upd_f k (\<lambda>f. f\<lparr>f_off := f_off f + word_of_int r\<rparr>) s1 else s1)
         else rbind (ensure (r = int ?n) (Panic ''short filewrite'')) (\<lambda>_. filewrite_loop p k (drop ?n bs)
           (if 0 < r then upd_f k (\<lambda>f. f\<lparr>f_off := f_off f + word_of_int r\<rparr>) s1 else s1)))
       (\<lambda>(d, s'). files M C s' \<and> uprocs s' = uprocs s))"
    proof (rule from_fs_files [where D = "\<lambda>_. C", OF 1(2)])
      show "gives (write_inode me ip off xs (fs s)) (\<lambda>(r, x). held (N + C) x)" if "held (N + C) (fs s)" for N me ip off xs
        using that by (rule write_inode_held) simp
    qed (simp only: prod.case, rule step [OF ne], simp_all)
  qed (use 1(2) in simp_all)
qed

lemma filewrite_files [files_rules]:
  assumes s: "files M C s" and Q: "\<And>r bs s'. files M C s' \<Longrightarrow> uprocs s' = uprocs s \<Longrightarrow> Q (r, bs, s')"
  shows "gives (filewrite p k bs s) Q"
  unfolding filewrite_def Let_def
  by (cases "f_type (ftable s k)")
    (auto intro!: gives_rules pipe_result_files [OF s] gives_mono [OF filewrite_loop_files [OF s]] Q s
      simp: pipewrite_open split: prod.splits)

lemma filestat_files [files_rules]:
  assumes s: "files M C s" and Q: "\<And>st s'. files M C s' \<Longrightarrow> uprocs s' = uprocs s \<Longrightarrow> Q (st, s')"
  shows "gives (filestat p k s) Q"
proof -
  have l: "gives (on_fs (ilock me ip) t) R" "gives (on_fs (iunlock me ip) t) R"
    if "files M C t" "\<And>x. files M C (t\<lparr>fs := x\<rparr>) \<Longrightarrow> R (t\<lparr>fs := x\<rparr>)" for me ip t R
    by (rule on_fs_files [where D = C, OF that(1)]; (rule held_rules, assumption, assumption | rule that(2), assumption))+
  show ?thesis
    unfolding filestat_def Let_def
    by (auto intro!: gives_rules l Q s)
qed

section \<open>pipealloc\<close>

lemma filealloc_sel:
  assumes "filealloc s = (k, s')"
  shows "fs s' = fs s" and "pipes s' = pipes s" and "freepages s' = freepages s" and "uprocs s' = uprocs s"
    and "k = None \<Longrightarrow> s' = s"
  using assms by (auto simp: filealloc_def split: option.splits)

text \<open>The two new files become the ends of a pipe in a page that no file uses.\<close>

lemma new_pipe_ok:
  assumes ok: "files_ok C s" and a: "freepages s = a # as" and jk: "j < 100" "k < 100" "j \<noteq> k"
    and new: "f_type (ftable s j) = FD_NONE" "f_type (ftable s k) = FD_NONE" "f_ref (ftable s j) = 1" "f_ref (ftable s k) = 1"
    and s': "s' = upd_f k (\<lambda>f. f\<lparr>f_type := FD_PIPE, f_readable := False, f_writable := True, f_pipe := a\<rparr>)
      (upd_f j (\<lambda>f. f\<lparr>f_type := FD_PIPE, f_readable := True, f_writable := False, f_pipe := a\<rparr>)
        (s\<lparr>freepages := as, pipes := (pipes s)(a := Some (init_pipe junk_page))\<rparr>))"
  shows "files_ok C s'" and "file_count s' = file_count s" and "uprocs s' = uprocs s"
proof -
  note P = files_okD(2) [OF ok]
  have fresh: "pipes s a = None" using pipes_okD(5) [OF P] a by simp
  then have old: "\<not> pipe_end s i a w" for i w using pipes_okD(1) [OF P] by fastforce
  have e: "pipe_end s' i b w \<longleftrightarrow> (i = j \<and> b = a \<and> \<not> w) \<or> (i = k \<and> b = a \<and> w) \<or> (i \<noteq> j \<and> i \<noteq> k \<and> pipe_end s i b w)" for i b w
    using jk new by (auto simp: pipe_end_def s')
  have sel: "freepages s' = as" "pipes s' = (pipes s)(a := Some (init_pipe junk_page))" by (simp_all add: s')
  have "pipes_ok s'"
  proof (rule pipes_okI)
    show "\<exists>q. pipes s' b = Some q \<and> end_open w q" if "pipe_end s' i b w" for i b w
    proof (cases "b = a")
      case True
      then show ?thesis by (simp add: sel end_open_def init_pipe_def)
    next
      case False
      then have "pipe_end s i b w" using that by (auto simp: e)
      then show ?thesis using pipes_okD(1) [OF P] False by (simp add: sel)
    qed
    show "i1 = i2" if "pipe_end s' i1 b w" "pipe_end s' i2 b w" for i1 i2 b w
      using that pipes_okD(2) [OF P] old by (auto simp: e)
    show "f_type (ftable s' i) = FD_NONE" if "i < 100" "f_ref (ftable s' i) = 0" for i
      using that pipes_okD(3) [OF P] jk new by (auto simp: s' split: if_splits)
  qed (use pipes_okD(4,5) [OF P] a in \<open>auto simp: sel\<close>)
  moreover have "file_inodes s' = file_inodes s"
    unfolding file_inodes_def using new by (intro sum.cong) (auto simp: file_inode_def s')
  moreover have r: "f_ref (ftable s' i) = f_ref (ftable s i)" for i by (simp add: s')
  ultimately show "files_ok C s'" using ok by (simp add: files_ok_def) (simp add: s')
  show "file_count s' = file_count s" by (simp add: file_count_def r fun_eq_iff)
  show "uprocs s' = uprocs s" by (simp add: s')
qed

lemma pipealloc_files [files_rules]:
  assumes s: "files M C s" and none: "\<And>s'. files M C s' \<Longrightarrow> uprocs s' = uprocs s \<Longrightarrow> Q (None, s')"
    and some: "\<And>j k s'. files (add_mset k (add_mset j M)) C s' \<Longrightarrow> uprocs s' = uprocs s \<Longrightarrow> Q (Some (j, k), s')"
  shows "gives (pipealloc p s) Q"
proof -
  obtain x s1 where 1: "filealloc s = (x, s1)" by force
  note u1 = filealloc_sel(4) [OF 1]
  show ?thesis
  proof (cases x)
    case None
    then show ?thesis using 1 filealloc_sel(5) [OF 1] none [OF s] by (simp add: pipealloc_def gives_Inr)
  next
    case (Some j)
    then have f1: "files (add_mset j M) C s1" using filealloc_files [OF s] 1 by simp
    note d1 = filealloc_ok [OF filesD(1) [OF s] 1 [unfolded Some]]
    obtain y s2 where 2: "filealloc s1 = (y, s2)" by force
    note u2 = filealloc_sel(4) [OF 2]
    show ?thesis
    proof (cases y)
      case None
      then have "gives (rbind (fileclose p j s2) (\<lambda>s3. Inr (None, s3))) Q"
        using f1 filealloc_sel(5) [OF 2] u1
        by (auto intro!: gives_bind gives_Inr fileclose_files [where M = "add_mset j M" and C = C] none)
      then show ?thesis using 1 2 Some None by (simp add: pipealloc_def)
    next
      case (Some k)
      then have f2: "files (add_mset k (add_mset j M)) C s2" using filealloc_files [OF f1] 2 by simp
      note d2 = filealloc_ok [OF filesD(1) [OF f1] 2 [unfolded Some]]
      show ?thesis
      proof (cases "freepages s2")
        case Nil
        have "gives (rbind (fileclose p j s2) (\<lambda>s3. rbind (fileclose p k s3) (\<lambda>s4. Inr (None, s4)))) Q"
          by (rule gives_bind fileclose_files f2 gives_Inr none | assumption | simp add: u1 u2)+
        then show ?thesis using 1 2 \<open>x = Some j\<close> Some Nil by (simp add: pipealloc_def)
      next
        case (Cons a as)
        have jk: "j \<noteq> k" using d2(6) d1(5) find_SomeD [of "\<lambda>k. f_ref (ftable s1 k) = 0" "[0..<100]" k] 2 Some
          by (auto simp: filealloc_def split: option.splits)
        have new: "f_type (ftable s2 j) = FD_NONE" "f_type (ftable s2 k) = FD_NONE"
            "f_ref (ftable s2 j) = 1" "f_ref (ftable s2 k) = 1"
          using d1(4,5) d2(4,5) d2(6) jk by simp_all
        note n = new_pipe_ok [OF filesD(1) [OF f2] Cons d1(3) d2(3) jk new refl]
        show ?thesis
          using 1 2 \<open>x = Some j\<close> Some Cons n f2 u1 u2 some
          by (simp add: pipealloc_def Let_def gives_Inr file_table.exact_def)
      qed
    qed
  qed
qed

section \<open>Descriptors\<close>

lemma open_fds_set:
  assumes "p < 64" and "fd < 16"
  shows "open_fds (set_fd p fd v s) + opt_ref (u_ofile (uprocs s p) fd) = open_fds s + opt_ref v"
proof -
  let ?u = "uprocs s p"
  have 1: "fds_of (?u\<lparr>u_ofile := (u_ofile ?u)(fd := v)\<rparr>) + opt_ref (u_ofile ?u fd) = fds_of ?u + opt_ref v"
    using sum_update [OF assms(2), of opt_ref "u_ofile ?u" v] by (simp add: fds_of_def)
  have "open_fds (set_fd p fd v s) + fds_of ?u = open_fds s + fds_of (?u\<lparr>u_ofile := (u_ofile ?u)(fd := v)\<rparr>)"
    using sum_update [OF assms(1), of fds_of "uprocs s"] by (simp add: open_fds_def set_fd_def)
  then have "open_fds (set_fd p fd v s) + fds_of ?u + opt_ref (u_ofile ?u fd) = open_fds s + (fds_of ?u + opt_ref v)"
    by (simp add: 1 add.assoc)
  then show ?thesis by (simp add: add.assoc add.commute [of "fds_of ?u"] add.left_commute [of "fds_of ?u"])
qed

lemma cwds_set:
  assumes "p < 64"
  shows "cwds (upd_u p (\<lambda>u. u\<lparr>u_cwd := v\<rparr>) s) + opt_ref (u_cwd (uprocs s p)) = cwds s + opt_ref v"
  using sum_update [OF assms, of "\<lambda>u. opt_ref (u_cwd u)" "uprocs s"] by (simp add: cwds_def)

lemma set_fd_sel [simp]:
  "cwds (set_fd p fd v s) = cwds s" "files M C (set_fd p fd v s) \<longleftrightarrow> files M C s"
  unfolding cwds_def by (auto simp: set_fd_def intro!: sum.cong)

lemma same_uprocs: "uprocs s' = uprocs s \<Longrightarrow> open_fds s' = open_fds s \<and> cwds s' = cwds s"
  by (simp add: open_fds_def cwds_def)

lemma fdalloc_Some:
  assumes "fdalloc p k s = (Some fd, s')" and "p < 64"
  shows "fd < 16" and "s' = set_fd p fd (Some k) s" and "open_fds s' = add_mset k (open_fds s)" and "cwds s' = cwds s"
    and "u_ofile (uprocs s p) fd = None" and "files M C s' \<longleftrightarrow> files M C s"
proof -
  show fd: "fd < 16" "s' = set_fd p fd (Some k) s" "u_ofile (uprocs s p) fd = None"
    using assms(1) find_SomeD [of "\<lambda>fd. u_ofile (uprocs s p) fd = None" "[0..<16]" fd]
    by (auto simp: fdalloc_def split: option.splits)
  then show "open_fds s' = add_mset k (open_fds s)" "cwds s' = cwds s" "files M C s' \<longleftrightarrow> files M C s"
    using open_fds_set [OF assms(2) fd(1), of "Some k" s] by simp_all
qed

lemma fdalloc_None: "fdalloc p k s = (None, s') \<Longrightarrow> s' = s"
  by (auto simp: fdalloc_def split: option.splits)

lemma fd_in:
  assumes "p < 64" and "fd < 16" and "u_ofile (uprocs s p) fd = Some k"
  shows "k \<in># open_fds s"
proof -
  have "open_fds s = add_mset k (open_fds (set_fd p fd None s))"
    using open_fds_set [OF assms(1,2), of None s] assms(3) by simp
  then show ?thesis by simp
qed

end
