(* ===== verification/SysCalls.thy ===== *)
theory SysCalls
  imports SysRefs
begin

text \<open>
  The system calls one by one, then the system as steps: the calls of all processes, changes of user
  memory, \<open>fork\<close>, \<open>exit\<close> and the start of the first process.
\<close>

section \<open>The invariant\<close>

lemma sys_okI: "files M C s \<Longrightarrow> open_fds s = M \<Longrightarrow> cwds s = C \<Longrightarrow> sys_ok s"
  by (simp add: sys_ok_def)

lemma sys_okD: "sys_ok s \<Longrightarrow> files (open_fds s) (cwds s) s"
  by (simp add: sys_ok_def)

lemma sys_ok_same:
  assumes "files (open_fds s) (cwds s) s'" and "uprocs s' = uprocs s"
  shows "sys_ok s'"
  using assms(1) by (rule sys_okI) (simp_all add: open_fds_def cwds_def assms(2))

lemma upd_mem_ok [simp]:
  assumes "\<And>u. u_ofile (g u) = u_ofile u" and "\<And>u. u_cwd (g u) = u_cwd u"
  shows "sys_ok (upd_u p g s) \<longleftrightarrow> sys_ok s"
proof -
  have "open_fds (upd_u p g s) = open_fds s" "cwds (upd_u p g s) = cwds s"
    unfolding open_fds_def cwds_def fds_of_def using assms by (auto intro!: sum.cong)
  then show ?thesis by (simp add: sys_ok_def)
qed

lemma store_user_ok [simp]: "sys_ok (store_user p a xs s) \<longleftrightarrow> sys_ok s"
  by (simp add: store_user_def)

lemma store_stat_ok [simp]: "sys_ok (store_stat p a st s) \<longleftrightarrow> sys_ok s"
  by (simp add: store_stat_def)

lemmas user_okI = iffD2 [OF store_user_ok] iffD2 [OF store_stat_ok]

lemma argfd_Some: "argfd n p s = Some (fd, k) \<Longrightarrow> fd < 16 \<and> u_ofile (uprocs s p) fd = Some k"
  by (auto simp: argfd_def split: option.splits if_splits)

definition keeps_ok :: "(int option \<times> sysst) result \<Rightarrow> bool" where
  "keeps_ok m \<longleftrightarrow> gives m (\<lambda>(r, s). sys_ok s)"

lemma keeps_okI: "gives m (\<lambda>(r, s). sys_ok s) \<Longrightarrow> keeps_ok m"
  by (simp add: keeps_ok_def)

lemma keeps_Inr [simp]: "keeps_ok (Inr (r, s)) \<longleftrightarrow> sys_ok s"
  by (simp add: keeps_ok_def gives_def)

lemma keeps_okD: "keeps_ok m \<Longrightarrow> m = Inr (r, s) \<Longrightarrow> sys_ok s"
  unfolding keeps_ok_def by (auto dest: givesD)

section \<open>Calls on descriptors\<close>

lemma sys_dup_ok:
  assumes "sys_ok s" and "p < 64"
  shows "keeps_ok (sys_dup p s)"
proof (cases "argfd 0 p s")
  case None
  then show ?thesis using assms(1) by (simp add: sys_dup_def)
next
  case (Some x)
  obtain fd0 k where x: "x = (fd0, k)" by force
  then have k: "k \<in># open_fds s" using Some argfd_Some fd_in [OF assms(2)] by blast
  obtain y s1 where y: "fdalloc p k s = (y, s1)" by force
  show ?thesis
  proof (cases y)
    case None
    then show ?thesis using Some x y assms(1) fdalloc_None [of p k s s1] by (simp add: sys_dup_def)
  next
    case fd: (Some fd)
    note d = fdalloc_Some [OF y [unfolded fd] assms(2)]
    have "files (open_fds s) (cwds s) s1" using d(6) sys_okD [OF assms(1)] by blast
    then have "gives (filedup k s1) sys_ok"
      by (rule filedup_files [OF _ k]) (rule sys_ok_same [of s1], simp_all add: d(3,4))
    then show ?thesis using Some x y fd
      by (auto simp: sys_dup_def intro!: keeps_okI gives_bind gives_Inr elim: gives_mono)
  qed
qed

lemma sys_close_ok:
  assumes "sys_ok s" and "p < 64"
  shows "keeps_ok (sys_close p s)"
proof (cases "argfd 0 p s")
  case None
  then show ?thesis using assms(1) by (simp add: sys_close_def)
next
  case (Some x)
  obtain fd k where x: "x = (fd, k)" by force
  then have fd: "fd < 16" "u_ofile (uprocs s p) fd = Some k" using Some argfd_Some by blast+
  let ?s = "set_fd p fd None s"
  have o: "open_fds s = add_mset k (open_fds ?s)" using open_fds_set [OF assms(2) fd(1), of None s] fd(2) by simp
  have "files (open_fds s) (cwds s) ?s" using sys_okD [OF assms(1)] by simp
  then have "gives (fileclose p k ?s) sys_ok"
    by (rule fileclose_files) (simp add: o, rule sys_ok_same [of ?s], simp_all add: o)
  then show ?thesis using Some x
    by (auto simp: sys_close_def intro!: keeps_okI gives_bind gives_Inr elim: gives_mono)
qed

lemma sys_read_ok:
  assumes "sys_ok s"
  shows "keeps_ok (sys_read p s)"
  unfolding sys_read_def
  by (auto split: option.splits prod.splits intro!: keeps_okI gives_bind gives_Inr fileread_files [OF sys_okD [OF assms]]
      user_okI sys_ok_same [of s] simp: assms)

lemma sys_write_ok:
  assumes "sys_ok s"
  shows "keeps_ok (sys_write p s)"
  unfolding sys_write_def
  by (auto split: option.splits prod.splits intro!: keeps_okI gives_bind gives_Inr filewrite_files [OF sys_okD [OF assms]]
      user_okI sys_ok_same [of s] simp: assms)

lemma sys_fstat_ok:
  assumes "sys_ok s"
  shows "keeps_ok (sys_fstat p s)"
  unfolding sys_fstat_def
  by (auto split: option.splits prod.splits intro!: keeps_okI gives_bind gives_Inr filestat_files [OF sys_okD [OF assms]]
      gives_option user_okI sys_ok_same [of s] simp: assms)

lemma keeps_bind: "gives m (\<lambda>x. keeps_ok (f x)) \<Longrightarrow> keeps_ok (rbind m f)"
  unfolding keeps_ok_def by (rule gives_bind)

lemma sys_pipe_ok:
  assumes "sys_ok s" and p: "p < 64"
  shows "keeps_ok (sys_pipe p s)"
proof -
  note s = sys_okD [OF assms(1)]
  have close: "keeps_ok (rbind (fileclose p j t) (\<lambda>t1. rbind (fileclose p k t1) (\<lambda>t2. Inr (Some (-1), t2))))"
    if t: "files (add_mset k (add_mset j (open_fds s))) (cwds s) t" "open_fds t = open_fds s" "cwds t = cwds s" for j k t
  proof -
    have "sys_ok t2" if "files (open_fds s) (cwds s) t2" "uprocs t2 = uprocs t1" "uprocs t1 = uprocs t" for t1 t2
      using sys_ok_same [of t t2] that t by simp
    note ok = this
    show ?thesis
      by (rule keeps_bind fileclose_files t(1) | assumption | simp)+ (rule ok, simp_all)
  qed
  have "keeps_ok (case fdalloc p j s1 of
      (None, s2) \<Rightarrow> rbind (fileclose p j s2) (\<lambda>t1. rbind (fileclose p k t1) (\<lambda>t2. Inr (Some (-1), t2)))
    | (Some fd0, s2) \<Rightarrow>
       (case fdalloc p k s2 of
          (None, s3) \<Rightarrow> rbind (fileclose p j (set_fd p fd0 None s3)) (\<lambda>t1. rbind (fileclose p k t1) (\<lambda>t2. Inr (Some (-1), t2)))
        | (Some fd1, s3) \<Rightarrow>
            Inr (Some 0, store_user p (a + 4) (le32 (of_nat fd1)) (store_user p a (le32 (of_nat fd0)) s3))))"
    if f1: "files (add_mset k (add_mset j (open_fds s))) (cwds s) s1" and u1: "uprocs s1 = uprocs s" for j k s1 a
  proof -
    have o1: "open_fds s1 = open_fds s" "cwds s1 = cwds s" using same_uprocs [OF u1] by simp_all
    obtain x s2 where 2: "fdalloc p j s1 = (x, s2)" by force
    show ?thesis
    proof (cases x)
      case None
      then show ?thesis using 2 fdalloc_None [of p j s1 s2] close [OF f1] o1 by simp
    next
      case (Some fd0)
      note d2 = fdalloc_Some [OF 2 [unfolded Some] p]
      obtain y s3 where 3: "fdalloc p k s2 = (y, s3)" by force
      show ?thesis
      proof (cases y)
        case None
        then have s3: "s3 = s2" using 3 fdalloc_None by simp
        have "u_ofile (uprocs s2 p) fd0 = Some j" by (simp add: d2(2) set_fd_def)
        then have "open_fds (set_fd p fd0 None s2) = open_fds s"
          using open_fds_set [OF p d2(1), of None s2] d2(3) o1 by simp
        then show ?thesis using 2 3 Some None s3 close [of k j "set_fd p fd0 None s2"] f1 d2(4,6) o1 by simp
      next
        case fd1: (Some fd1)
        note d3 = fdalloc_Some [OF 3 [unfolded fd1] p]
        have "files (add_mset k (add_mset j (open_fds s))) (cwds s) s3" using f1 d2(6) d3(6) by blast
        then have "sys_ok s3" by (rule sys_okI) (simp_all add: d2(3,4) d3(3,4) o1)
        then show ?thesis using 2 3 Some fd1 by simp
      qed
    qed
  qed
  then show ?thesis
    unfolding sys_pipe_def Let_def
    by (auto split: option.splits intro!: keeps_bind pipealloc_files [OF s] simp: assms(1) sys_ok_same)
qed

section \<open>Calls on paths\<close>

lemma cwd_in:
  assumes "p < 64" and "u_cwd (uprocs s p) = Some d"
  shows "d \<in># N + cwds s"
proof -
  have "cwds s = add_mset d (cwds (upd_u p (\<lambda>u. u\<lparr>u_cwd := None\<rparr>) s))"
    using cwds_set [OF assms(1), of None s] assms(2) by simp
  then show ?thesis by simp
qed

lemma fs_call_ok:
  assumes "sys_ok s" and "\<And>N. held (N + cwds s) (fs s) \<Longrightarrow> gives (f (fs s)) (\<lambda>(r, x). held (N + cwds s) x)"
  shows "keeps_ok (fs_call f s)"
  unfolding fs_call_def
  by (rule keeps_bind, rule from_fs_files [where D = "\<lambda>_. cwds s", OF sys_okD [OF assms(1)]], rule assms(2), assumption)
    (simp add: sys_ok_same)

lemma on_fs_ok:
  assumes "sys_ok s" and "\<And>N. held (N + cwds s) (fs s) \<Longrightarrow> gives (f (fs s)) (held (N + cwds s))"
    and "\<And>x. sys_ok (s\<lparr>fs := x\<rparr>) \<Longrightarrow> keeps_ok (g (s\<lparr>fs := x\<rparr>))"
  shows "keeps_ok (rbind (on_fs f s) g)"
  by (rule keeps_bind, rule on_fs_files [where D = "cwds s", OF sys_okD [OF assms(1)]], rule assms(2), assumption)
    (simp add: assms(3) sys_ok_same)

lemma cwds_fs [simp]: "cwds (s\<lparr>fs := x\<rparr>) = cwds s"
  by (simp add: cwds_def)

lemma sys_link_ok:
  assumes "sys_ok s" and "p < 64"
  shows "keeps_ok (sys_link junk p s)"
  unfolding sys_link_def
  by (auto split: option.splits intro!: fs_call_ok link_paths_held cwd_in [OF assms(2)] simp: assms(1))

lemma sys_unlink_ok:
  assumes "sys_ok s" and "p < 64"
  shows "keeps_ok (sys_unlink junk p s)"
  unfolding sys_unlink_def
  by (auto split: option.splits intro!: fs_call_ok unlink_path_held cwd_in [OF assms(2)] simp: assms(1))

lemma set_inode_files:
  assumes s: "files M (add_mset ip C) s" and k: "k < 100" "f_type (ftable s k) = FD_NONE" "0 < f_ref (ftable s k)"
    and f: "\<And>r. f_ref (f r) = f_ref r" "\<And>r. f_type (f r) = FD_INODE" "\<And>r. f_ip (f r) = ip"
  shows "files M C (upd_f k f s)"
proof -
  let ?s = "upd_f k f s"
  note P = files_okD(2) [OF filesD(1) [OF s]]
  have e: "pipe_end ?s j a w \<longleftrightarrow> pipe_end s j a w" for j a w using k f by (auto simp: pipe_end_def)
  have "pipes_ok ?s"
    by (rule pipes_okI) (use pipes_okD [OF P] k f in \<open>auto simp: e split: if_splits\<close>)
  moreover have "file_inodes ?s = add_mset ip (file_inodes s)"
    using file_inodes_upd [OF k(1), of f s] k f by (simp add: file_inode_def)
  ultimately have "files_ok C ?s" using filesD(1,3) [OF s] f by (simp add: files_ok_def)
  moreover have "file_count ?s = file_count s" using f by (simp add: file_count_def fun_eq_iff)
  ultimately show ?thesis using file_table.exactD [OF s] by (simp add: file_table.exact_def)
qed

lemma no_file_ok:
  assumes "files (open_fds t) (add_mset ip (cwds t)) t"
  shows "keeps_ok (no_file p ip t)"
  unfolding no_file_def fs_call_def
proof (rule keeps_bind, rule from_fs_files [where D = "\<lambda>_. cwds t", OF assms])
  fix N assume "held (N + add_mset ip (cwds t)) (fs t)"
  then have "held (add_mset ip (N + cwds t)) (fs t)" by simp
  then show "gives (put_and_end (- 1) (pid p t) ip (fs t)) (\<lambda>(r, x). held (N + cwds t) x)"
    by (rule put_and_end_held) simp
qed (simp add: sys_ok_same)

lemma open_file_ok:
  assumes s: "files (open_fds s) (add_mset ip (cwds s)) s" and p: "p < 64"
  shows "keeps_ok (open_file p ip omode s)"
proof -
  obtain x s1 where 1: "filealloc s = (x, s1)" by force
  note u1 = filealloc_sel(4) [OF 1]
  show ?thesis
  proof (cases x)
    case None
    then show ?thesis using 1 no_file_ok [OF s] filealloc_sel(5) [OF 1] by (simp add: open_file_def)
  next
    case (Some k)
    have f1: "files (add_mset k (open_fds s)) (add_mset ip (cwds s)) s1" using filealloc_files [OF s] 1 Some by simp
    note d1 = filealloc_ok [OF filesD(1) [OF s] 1 [unfolded Some]]
    have o1: "open_fds s1 = open_fds s" "cwds s1 = cwds s" using same_uprocs [OF u1] by simp_all
    obtain y s2 where 2: "fdalloc p k s1 = (y, s2)" by force
    show ?thesis
    proof (cases y)
      case None
      then have s2: "s2 = s1" using 2 fdalloc_None by simp
      have "gives (fileclose p k s1) (\<lambda>t. keeps_ok (no_file p ip t))"
      proof (rule fileclose_files [OF f1])
        fix t assume "files (add_mset k (open_fds s) - {#k#}) (add_mset ip (cwds s)) t" "uprocs t = uprocs s1"
        then show "keeps_ok (no_file p ip t)" using no_file_ok [of ip t p] same_uprocs [of t s1] o1 by simp
      qed simp
      then show ?thesis using 1 2 Some None s2 by (simp add: open_file_def keeps_bind)
    next
      case fd: (Some fd)
      note d2 = fdalloc_Some [OF 2 [unfolded fd] p]
      let ?g = "\<lambda>f. f\<lparr>f_type := FD_INODE, f_ip := ip, f_off := 0, f_readable := (omode AND O_WRONLY = 0),
        f_writable := (omode AND O_WRONLY \<noteq> 0 \<or> omode AND O_RDWR \<noteq> 0)\<rparr>"
      have f2: "files (open_fds s2) (add_mset ip (cwds s2)) s2" using f1 d2(3,4,6) o1 by simp
      have k: "f_type (ftable s2 k) = FD_NONE" "0 < f_ref (ftable s2 k)"
        using d1(4,5) by (simp_all add: d2(2) set_fd_def)
      have "sys_ok (upd_f k ?g t)" if "files (open_fds s2) (add_mset ip (cwds s2)) t" "ftable t = ftable s2" "uprocs t = uprocs s2" for t
      proof (rule sys_ok_same [of s2])
        show "files (open_fds s2) (cwds s2) (upd_f k ?g t)"
          by (rule set_inode_files [OF that(1) d1(3)]) (simp_all add: that(2) k)
      qed (simp add: that(3))
      note ok = this
      have "keeps_ok (rbind (on_fs (iunlock me (Some ip)) s2) (\<lambda>s3.
          rbind (on_fs (on_log (end_op me)) s3) (\<lambda>s4. Inr (Some (int fd), upd_f k ?g s4))))" for me
      proof (rule keeps_bind, rule on_fs_files [where D = "add_mset ip (cwds s2)", OF f2])
        fix x assume f3: "files (open_fds s2) (add_mset ip (cwds s2)) (s2\<lparr>fs := x\<rparr>)"
        show "keeps_ok (rbind (on_fs (on_log (end_op me)) (s2\<lparr>fs := x\<rparr>)) (\<lambda>s4. Inr (Some (int fd), upd_f k ?g s4)))"
        proof (rule keeps_bind, rule on_fs_files [where D = "add_mset ip (cwds s2)", OF f3])
          fix y assume "files (open_fds s2) (add_mset ip (cwds s2)) (s2\<lparr>fs := x\<rparr>\<lparr>fs := y\<rparr>)"
          then show "keeps_ok (Inr (Some (int fd), upd_f k ?g (s2\<lparr>fs := x\<rparr>\<lparr>fs := y\<rparr>)))"
            unfolding keeps_Inr by (rule ok) simp_all
        qed (rule on_log_held)
      qed (rule iunlock_held)
      then show ?thesis using 1 2 Some fd by (simp add: open_file_def)
    qed
  qed
qed

lemma sys_open_ok:
  assumes s: "sys_ok s" and p: "p < 64"
  shows "keeps_ok (sys_open junk p s)"
proof -
  have "keeps_ok (rbind (from_fs (open_inode me (u_cwd (uprocs s p)) junk path omode) s) (\<lambda>(q, s1).
      case q of None \<Rightarrow> Inr (Some (-1), s1) | Some ip \<Rightarrow> open_file p ip omode s1))" for me path omode
  proof (rule keeps_bind, rule from_fs_files [where D = "\<lambda>q. opt_ref q + cwds s", OF sys_okD [OF s]])
    fix N assume "held (N + cwds s) (fs s)"
    then show "gives (open_inode me (u_cwd (uprocs s p)) junk path omode (fs s)) (\<lambda>(q, x). held (N + (opt_ref q + cwds s)) x)"
      by (rule open_inode_held) (simp_all add: cwd_in [OF p, of s _ "{#}", simplified])
  next
    fix q x assume "files (open_fds s) (opt_ref q + cwds s) (s\<lparr>fs := x\<rparr>)"
    then show "keeps_ok (case (q, s\<lparr>fs := x\<rparr>) of (q, s1) \<Rightarrow>
        (case q of None \<Rightarrow> Inr (Some (-1), s1) | Some ip \<Rightarrow> open_file p ip omode s1))"
      using open_file_ok [OF _ p, where s = "s\<lparr>fs := x\<rparr>"] same_uprocs [of "s\<lparr>fs := x\<rparr>" s]
      by (cases q) (simp_all add: sys_ok_same)
  qed
  then show ?thesis using s by (auto simp: sys_open_def split: option.splits)
qed

lemma cwd_in_fs: "p < 64 \<Longrightarrow> u_cwd (uprocs s p) = Some d \<Longrightarrow> d \<in># N + cwds (s\<lparr>fs := x\<rparr>)"
  using cwd_in by simp

lemma begin_held: "held M s \<Longrightarrow> gives (on_log begin_op s) (held M)"
  by (rule on_log_held)

lemma end_call_ok: "sys_ok s \<Longrightarrow> keeps_ok (fs_call (end_with v me) s)"
  by (rule fs_call_ok) (auto intro: end_with_held)

lemma make_call_ok:
  assumes "sys_ok s" and "\<And>d. cwd = Some d \<Longrightarrow> d \<in># cwds s"
  shows "keeps_ok (fs_call (make_node me cwd junk path ty major minor) s)"
  by (rule fs_call_ok [OF assms(1)], rule make_node_held) (auto dest: assms(2))

lemma sys_mkdir_ok:
  assumes "sys_ok s" and "p < 64"
  shows "keeps_ok (sys_mkdir junk p s)"
  unfolding sys_mkdir_def
  by (rule on_fs_ok [OF assms(1) begin_held])
    (auto split: option.splits intro!: end_call_ok make_call_ok cwd_in_fs [OF assms(2), of s _ "{#}", simplified])

lemma sys_mknod_ok:
  assumes "sys_ok s" and "p < 64"
  shows "keeps_ok (sys_mknod junk p s)"
  unfolding sys_mknod_def
  by (rule on_fs_ok [OF assms(1) begin_held])
    (auto split: option.splits intro!: end_call_ok make_call_ok cwd_in_fs [OF assms(2), of s _ "{#}", simplified])

lemma sys_chdir_ok:
  assumes s: "sys_ok s" and p: "p < 64"
  shows "keeps_ok (sys_chdir junk p s)"
proof -
  let ?cwd = "u_cwd (uprocs s p)"
  define R where "R = cwds s - opt_ref ?cwd"
  have sub: "cwds s = opt_ref ?cwd + R"
    using cwd_in [OF p, of s _ "{#}"] by (cases ?cwd) (simp_all add: R_def)
  have "keeps_ok (rbind (from_fs (change_dir me ?cwd junk path) t) (\<lambda>(q, s2).
      case q of None \<Rightarrow> Inr (Some (-1), s2) | Some ip \<Rightarrow> Inr (Some 0, upd_u p (\<lambda>u. u\<lparr>u_cwd := Some ip\<rparr>) s2)))"
    if t: "sys_ok t" and u: "uprocs t = uprocs s" for t me path
  proof (rule keeps_bind, rule from_fs_files [where D = "\<lambda>q. case q of None \<Rightarrow> cwds s | Some i \<Rightarrow> add_mset i R"])
    show "files (open_fds t) (cwds s) t" using sys_okD [OF t] same_uprocs [OF u] by simp
    fix N assume "held (N + cwds s) (fs t)"
    then show "gives (change_dir me ?cwd junk path (fs t)) (\<lambda>(q, x). held (N + (case q of None \<Rightarrow> cwds s | Some i \<Rightarrow> add_mset i R)) x)"
      by (rule change_dir_held) (simp_all add: sub)
  next
    fix q x assume f: "files (open_fds t) (case q of None \<Rightarrow> cwds s | Some i \<Rightarrow> add_mset i R) (t\<lparr>fs := x\<rparr>)"
    show "keeps_ok (case (q, t\<lparr>fs := x\<rparr>) of (q, s2) \<Rightarrow>
        (case q of None \<Rightarrow> Inr (Some (-1), s2) | Some ip \<Rightarrow> Inr (Some 0, upd_u p (\<lambda>u. u\<lparr>u_cwd := Some ip\<rparr>) s2)))"
    proof (cases q)
      case None
      then show ?thesis using f same_uprocs [OF u] by (simp add: sys_ok_same [of t])
    next
      case (Some ip)
      let ?t = "upd_u p (\<lambda>u. u\<lparr>u_cwd := Some ip\<rparr>) (t\<lparr>fs := x\<rparr>)"
      have "open_fds ?t = open_fds t" by (simp add: open_fds_def fds_of_def cong: if_cong) (auto intro!: sum.cong)
      moreover have "cwds ?t = add_mset ip R"
        using cwds_set [OF p, of "Some ip" "t\<lparr>fs := x\<rparr>"] same_uprocs [OF u] u sub by simp
      moreover have "files (open_fds t) (add_mset ip R) ?t" using f Some by simp
      ultimately show ?thesis using Some by (simp add: sys_okI)
    qed
  qed
  note ch = this
  show ?thesis
    unfolding sys_chdir_def
    by (rule on_fs_ok [OF s begin_held]) (auto split: option.splits intro!: end_call_ok ch)
qed

section \<open>fork and exit\<close>

lemma open_fds_cwd [simp]: "open_fds (upd_u p (\<lambda>u. u\<lparr>u_cwd := v\<rparr>) s) = open_fds s"
  unfolding open_fds_def fds_of_def by (auto intro!: sum.cong)

lemma open_fds_fs [simp]: "open_fds (s\<lparr>fs := x\<rparr>) = open_fds s"
  by (simp add: open_fds_def)

lemma fork_fds_ok:
  assumes "sys_ok s" and pc: "p < 64" "c < 64" "c \<noteq> p" and "distinct fds" and "set fds \<subseteq> {..<16}"
    and "\<forall>fd\<in>set fds. u_ofile (uprocs s c) fd = None"
  shows "gives (fork_fds p c fds s) (\<lambda>s'. sys_ok s' \<and> (\<forall>q. u_cwd (uprocs s' q) = u_cwd (uprocs s q)))"
  using assms(1,5-)
proof (induction fds arbitrary: s)
  case Nil
  then show ?case by (simp add: gives_Inr)
next
  case (Cons fd fds)
  show ?case
  proof (cases "u_ofile (uprocs s p) fd")
    case None
    then show ?thesis using Cons by simp
  next
    case (Some k)
    then have k: "k \<in># open_fds s" using fd_in [OF pc(1)] Cons.prems(3) by auto
    let ?Q = "\<lambda>s'. sys_ok s' \<and> (\<forall>q. u_cwd (uprocs s' q) = u_cwd (uprocs s q))"
    have "gives (fork_fds p c fds (set_fd c fd (Some k) t)) ?Q"
      if t: "files (add_mset k (open_fds s)) (cwds s) t" and u: "uprocs t = uprocs s" for t
    proof -
      have "open_fds (set_fd c fd (Some k) t) = add_mset k (open_fds s)"
        using open_fds_set [OF pc(2), of fd "Some k" t] same_uprocs [OF u] u Cons.prems(3,4) by simp
      then have "sys_ok (set_fd c fd (Some k) t)" using t same_uprocs [OF u] by (simp add: sys_okI)
      moreover have "\<forall>fd'\<in>set fds. u_ofile (uprocs (set_fd c fd (Some k) t) c) fd' = None"
        using Cons.prems(2,4) u by (auto simp: set_fd_def)
      ultimately have "gives (fork_fds p c fds (set_fd c fd (Some k) t))
          (\<lambda>s'. sys_ok s' \<and> (\<forall>q. u_cwd (uprocs s' q) = u_cwd (uprocs (set_fd c fd (Some k) t) q)))"
        using Cons.IH Cons.prems(2,3) by simp
      then show ?thesis using u by (auto simp: set_fd_def elim!: gives_mono split: if_splits)
    qed
    then show ?thesis using Some
      by (simp add: gives_bind filedup_files [OF sys_okD [OF Cons.prems(1)] k])
  qed
qed

lemma fork_files_ok:
  assumes "sys_ok s" and pc: "p < 64" "c < 64" "c \<noteq> p"
    and c: "\<forall>fd<16. u_ofile (uprocs s c) fd = None" "u_cwd (uprocs s c) = None"
  shows "gives (fork_files p c s) sys_ok"
  unfolding fork_files_def
proof (rule gives_bind, rule gives_mono, rule fork_fds_ok [OF assms(1) pc])
  fix s1 assume a: "sys_ok s1 \<and> (\<forall>q. u_cwd (uprocs s1 q) = u_cwd (uprocs s q))"
  show "gives (case u_cwd (uprocs s1 p) of None \<Rightarrow> Inl NullDeref
    | Some d \<Rightarrow> (case idup d (fs s1) of (ip, x) \<Rightarrow> Inr (upd_u c (\<lambda>u. u\<lparr>u_cwd := Some ip\<rparr>) (s1\<lparr>fs := x\<rparr>)))) sys_ok"
  proof (cases "u_cwd (uprocs s1 p)")
    case (Some d)
    obtain x where x: "idup d (fs s1) = (d, x)" by (simp add: idup_def)
    note s1 = sys_okD [OF a [THEN conjunct1]]
    have "d \<in># file_inodes s1 + cwds s1" by (rule cwd_in [OF pc(1) Some])
    then have "held (file_inodes s1 + add_mset d (cwds s1)) x" using idup_held [OF filesD(3) [OF s1] _ x] by simp
    then have f: "files (open_fds s1) (add_mset d (cwds s1)) (s1\<lparr>fs := x\<rparr>)"
      using files_same [OF same_fs _ s1, of "add_mset d (cwds s1)" x] by simp
    have "cwds (upd_u c (\<lambda>u. u\<lparr>u_cwd := Some d\<rparr>) (s1\<lparr>fs := x\<rparr>)) = add_mset d (cwds s1)"
      using cwds_set [OF pc(2), of "Some d" "s1\<lparr>fs := x\<rparr>"] a c(2) by simp
    then show ?thesis using f Some x by (simp add: gives_Inr sys_okI)
  qed (simp add: gives_Inl)
qed (use c in auto)

lemma exit_fds_ok:
  assumes "sys_ok s" and p: "p < 64" and "set fds \<subseteq> {..<16}"
  shows "gives (exit_fds p fds s) (\<lambda>s'. sys_ok s' \<and> (\<forall>q. u_cwd (uprocs s' q) = u_cwd (uprocs s q)))"
  using assms(1,3)
proof (induction fds arbitrary: s)
  case Nil
  then show ?case by (simp add: gives_Inr)
next
  case (Cons fd fds)
  show ?case
  proof (cases "u_ofile (uprocs s p) fd")
    case None
    then show ?thesis using Cons by simp
  next
    case (Some k)
    then have k: "k \<in># open_fds s" using fd_in [OF p] Cons.prems(2) by auto
    let ?Q = "\<lambda>s'. sys_ok s' \<and> (\<forall>q. u_cwd (uprocs s' q) = u_cwd (uprocs s q))"
    have "gives (exit_fds p fds (set_fd p fd None t)) ?Q"
      if t: "files (open_fds s - {#k#}) (cwds s) t" and u: "uprocs t = uprocs s" for t
    proof -
      have "open_fds s = add_mset k (open_fds (set_fd p fd None t))"
        using open_fds_set [OF p, of fd None t] same_uprocs [OF u] u Cons.prems(2) Some by simp
      then have "sys_ok (set_fd p fd None t)" using t same_uprocs [OF u] by (simp add: sys_okI)
      then have "gives (exit_fds p fds (set_fd p fd None t))
          (\<lambda>s'. sys_ok s' \<and> (\<forall>q. u_cwd (uprocs s' q) = u_cwd (uprocs (set_fd p fd None t) q)))"
        using Cons.IH Cons.prems(2) by simp
      then show ?thesis using u by (auto simp: set_fd_def elim!: gives_mono split: if_splits)
    qed
    then show ?thesis using Some
      by (simp add: gives_bind fileclose_files [OF sys_okD [OF Cons.prems(1)] k])
  qed
qed

lemma exit_files_ok:
  assumes "sys_ok s" and p: "p < 64"
  shows "gives (exit_files p s) sys_ok"
  unfolding exit_files_def
proof (rule gives_bind, rule gives_mono, rule exit_fds_ok [OF assms])
  fix s1 assume a: "sys_ok s1 \<and> (\<forall>q. u_cwd (uprocs s1 q) = u_cwd (uprocs s q))"
  note s1 = sys_okD [OF a [THEN conjunct1]]
  show "gives (case u_cwd (uprocs s1 p) of None \<Rightarrow> Inl NullDeref
    | Some d \<Rightarrow> rbind (on_fs (put_inode (pid p s) d) s1) (\<lambda>s2. Inr (upd_u p (\<lambda>u. u\<lparr>u_cwd := None\<rparr>) s2))) sys_ok"
  proof (cases "u_cwd (uprocs s1 p)")
    case (Some d)
    define R where "R = cwds s1 - {#d#}"
    have sub: "cwds s1 = add_mset d R" using cwd_in [OF p Some, of "{#}"] by (simp add: R_def)
    have "gives (rbind (on_fs (put_inode me d) s1) (\<lambda>s2. Inr (upd_u p (\<lambda>u. u\<lparr>u_cwd := None\<rparr>) s2))) sys_ok" for me
    proof (rule gives_bind, rule on_fs_files [where D = R, OF s1])
      show "gives (put_inode me d (fs s1)) (held (N + R))" if "held (N + cwds s1) (fs s1)" for N
        using that by (rule put_inode_held) (simp_all add: sub)
      fix x assume f: "files (open_fds s1) R (s1\<lparr>fs := x\<rparr>)"
      have "cwds (upd_u p (\<lambda>u. u\<lparr>u_cwd := None\<rparr>) (s1\<lparr>fs := x\<rparr>)) = R"
        using cwds_set [OF p, of None "s1\<lparr>fs := x\<rparr>"] Some sub by simp
      then show "gives (Inr (upd_u p (\<lambda>u. u\<lparr>u_cwd := None\<rparr>) (s1\<lparr>fs := x\<rparr>))) sys_ok"
        using f by (intro gives_Inr) (simp add: sys_okI)
    qed
    then show ?thesis using Some by simp
  qed (simp add: gives_Inl)
qed auto

end
