(* ===== verification/FsFile.thy ===== *)
theory FsFile
  imports FsInode
begin

text \<open>
  The content of a file as the process sees it: the addresses of its blocks, direct and through the
  indirect block, its bytes, and how an allocation, a write and an update of the inode change them.
\<close>

section \<open>Addresses of a file\<close>

text \<open>Slot \<open>j < 140\<close> is the address of block \<open>j\<close> of the file, slot 140 that of its indirect block.\<close>

definition slot_addr :: "(nat \<Rightarrow> block) \<Rightarrow> (nat \<Rightarrow> u32) \<Rightarrow> nat \<Rightarrow> u32" where
  "slot_addr V A j = (if j < 12 then A j else if j = 140 then A 12 else if A 12 = 0 then 0 else get32 (V (unat (A 12))) (j - 12))"

definition data_block :: "superblock \<Rightarrow> (nat \<Rightarrow> block) \<Rightarrow> nat \<Rightarrow> bool" where
  "data_block sb V b \<longleftrightarrow> bmap_end sb \<le> b \<and> b < sb_size sb \<and> used sb V b"

definition free_blocks :: "superblock \<Rightarrow> (nat \<Rightarrow> block) \<Rightarrow> nat set" where
  "free_blocks sb V = {b. b < sb_size sb \<and> \<not> used sb V b}"

definition wf_file :: "superblock \<Rightarrow> (nat \<Rightarrow> block) \<Rightarrow> (nat \<Rightarrow> u32) \<Rightarrow> bool" where
  "wf_file sb V A \<longleftrightarrow> (\<forall>j<141. slot_addr V A j \<noteq> 0 \<longrightarrow> data_block sb V (unat (slot_addr V A j))) \<and>
     (\<forall>i<141. \<forall>j<141. slot_addr V A i \<noteq> 0 \<longrightarrow> slot_addr V A i = slot_addr V A j \<longrightarrow> i = j)"

definition fbyte :: "(nat \<Rightarrow> block) \<Rightarrow> (nat \<Rightarrow> u32) \<Rightarrow> nat \<Rightarrow> 8 word" where
  "fbyte V A i = (if slot_addr V A (i div 512) = 0 then 0 else V (unat (slot_addr V A (i div 512))) (i mod 512))"

text \<open>The bitmap counts its own blocks and those before it as used.\<close>

definition meta_used :: "superblock \<Rightarrow> (nat \<Rightarrow> block) \<Rightarrow> bool" where
  "meta_used sb V \<longleftrightarrow> (\<forall>b < bmap_end sb. used sb V b)"

lemma finite_free [simp]: "finite (free_blocks sb V)"
  by (simp add: free_blocks_def)

lemma wf_fileD:
  assumes "wf_file sb V A"
  shows "j < 141 \<Longrightarrow> slot_addr V A j \<noteq> 0 \<Longrightarrow> data_block sb V (unat (slot_addr V A j))"
    and "i < 141 \<Longrightarrow> j < 141 \<Longrightarrow> slot_addr V A i \<noteq> 0 \<Longrightarrow> slot_addr V A i = slot_addr V A j \<Longrightarrow> i = j"
  using assms unfolding wf_file_def by blast+

lemma slot_ind: "slot_addr V A 140 = A 12" "j < 12 \<Longrightarrow> slot_addr V A j = A j"
    "12 \<le> j \<Longrightarrow> j < 140 \<Longrightarrow> slot_addr V A j = (if A 12 = 0 then 0 else get32 (V (unat (A 12))) (j - 12))"
  by (simp_all add: slot_addr_def)

text \<open>A new block, marked in the bitmap and full of zeros.\<close>

definition fresh_view :: "superblock \<Rightarrow> nat \<Rightarrow> (nat \<Rightarrow> block) \<Rightarrow> nat \<Rightarrow> block" where
  "fresh_view sb b V = (mark_used sb b V)(b := \<lambda>_. 0)"

lemma fresh_view_used:
  assumes "bmap_end sb \<le> b" and "c < sb_size sb"
  shows "used sb (fresh_view sb b V) c \<longleftrightarrow> c = b \<or> used sb V c"
  using used_data_block [OF assms] by (simp add: fresh_view_def)

lemma fresh_view_other:
  assumes "b < sb_size sb" and "bmap_end sb \<le> c" and "c \<noteq> b"
  shows "fresh_view sb b V c = V c"
  using assms(2,3) BBLOCK_between(2) [OF assms(1)] by (simp add: fresh_view_def mark_other)

lemma fresh_view_new [simp]: "fresh_view sb b V b = (\<lambda>_. 0)"
  by (simp add: fresh_view_def)

lemma get32_zero [simp]: "get32 (\<lambda>_. 0) i = 0"
  by (simp add: get32_def)

text \<open>
  Two views of the disk with the addresses of a file such that the second has the same bytes of the
  file, and has the same in every block that was in use and is not the indirect block.
\<close>

definition grown :: "superblock \<Rightarrow> (nat \<Rightarrow> block) \<Rightarrow> (nat \<Rightarrow> u32) \<Rightarrow> (nat \<Rightarrow> block) \<Rightarrow> (nat \<Rightarrow> u32) \<Rightarrow> bool" where
  "grown sb V A V' A' \<longleftrightarrow> wf_file sb V' A' \<and> meta_used sb V' \<and> (\<forall>i<71680. fbyte V' A' i = fbyte V A i) \<and>
     (\<forall>j<141. slot_addr V A j \<noteq> 0 \<longrightarrow> slot_addr V' A' j = slot_addr V A j) \<and>
     (\<forall>b < sb_size sb. used sb V b \<longrightarrow> used sb V' b) \<and>
     (\<forall>b. data_block sb V b \<longrightarrow> A 12 = 0 \<or> b \<noteq> unat (A 12) \<longrightarrow> V' b = V b) \<and>
     (\<forall>b < sb_bmapstart sb. V' b = V b) \<and>
     (\<forall>j<141. slot_addr V A j = 0 \<longrightarrow> slot_addr V' A' j \<noteq> 0 \<longrightarrow> \<not> used sb V (unat (slot_addr V' A' j)))"

lemma slots_fbyte:
  assumes "\<And>j. j < 140 \<Longrightarrow> slot_addr V A j \<noteq> 0 \<Longrightarrow> slot_addr V' A' j = slot_addr V A j \<and>
      V' (unat (slot_addr V A j)) = V (unat (slot_addr V A j))"
    and "\<And>j. j < 140 \<Longrightarrow> slot_addr V A j = 0 \<Longrightarrow> slot_addr V' A' j \<noteq> 0 \<Longrightarrow> V' (unat (slot_addr V' A' j)) = (\<lambda>_. 0)"
    and "i < 71680"
  shows "fbyte V' A' i = fbyte V A i"
proof -
  have "i div 512 < 140" using assms(3) by simp
  then show ?thesis using assms(1,2) [of "i div 512"] by (auto simp: fbyte_def)
qed

lemma grownD:
  assumes "grown sb V A V' A'"
  shows "wf_file sb V' A'" and "meta_used sb V'" and "i < 71680 \<Longrightarrow> fbyte V' A' i = fbyte V A i"
    and "j < 141 \<Longrightarrow> slot_addr V A j \<noteq> 0 \<Longrightarrow> slot_addr V' A' j = slot_addr V A j"
    and "b < sb_size sb \<Longrightarrow> used sb V b \<Longrightarrow> used sb V' b"
    and "data_block sb V b \<Longrightarrow> A 12 = 0 \<or> b \<noteq> unat (A 12) \<Longrightarrow> V' b = V b"
    and "b < sb_bmapstart sb \<Longrightarrow> V' b = V b"
    and "j < 141 \<Longrightarrow> slot_addr V A j = 0 \<Longrightarrow> slot_addr V' A' j \<noteq> 0 \<Longrightarrow> \<not> used sb V (unat (slot_addr V' A' j))"
  using assms unfolding grown_def by blast+

lemma grown_refl: "wf_file sb V A \<Longrightarrow> meta_used sb V \<Longrightarrow> grown sb V A V A"
  by (simp add: grown_def)

lemma grown_trans:
  assumes 1: "grown sb V A V1 A1" and 2: "grown sb V1 A1 V2 A2"
  shows "grown sb V A V2 A2"
proof -
  have "V2 b = V b" if b: "data_block sb V b" "A 12 = 0 \<or> b \<noteq> unat (A 12)" for b
  proof -
    have "data_block sb V1 b" using b(1) grownD(5) [OF 1] by (auto simp: data_block_def)
    moreover have "A1 12 = 0 \<or> b \<noteq> unat (A1 12)"
      using b grownD(4,8) [OF 1, of 140] by (cases "A 12 = 0") (auto simp: slot_ind data_block_def)
    ultimately show ?thesis using grownD(6) [OF 2] grownD(6) [OF 1 b] by simp
  qed
  moreover have "fbyte V2 A2 i = fbyte V A i" if "i < 71680" for i using grownD(3) [OF 2 that] grownD(3) [OF 1 that] by simp
  moreover have "slot_addr V2 A2 j = slot_addr V A j" if "j < 141" "slot_addr V A j \<noteq> 0" for j
    using grownD(4) [OF 1 that] grownD(4) [OF 2 that(1)] that(2) by simp
  moreover have us: "used sb V2 b" if "b < sb_size sb" "used sb V b" for b using grownD(5) [OF 2 that(1)] grownD(5) [OF 1 that] by simp
  moreover have "V2 b = V b" if "b < sb_bmapstart sb" for b using grownD(7) [OF 2 that] grownD(7) [OF 1 that] by simp
  moreover have "\<not> used sb V (unat (slot_addr V2 A2 j))" if j: "j < 141" "slot_addr V A j = 0" "slot_addr V2 A2 j \<noteq> 0" for j
  proof (cases "slot_addr V1 A1 j = 0")
    case True
    have "unat (slot_addr V2 A2 j) < sb_size sb"
      using wf_fileD(1) [OF grownD(1) [OF 2] j(1,3)] by (simp add: data_block_def)
    then show ?thesis using grownD(8) [OF 2 j(1) True j(3)] grownD(5) [OF 1] by blast
  next
    case False
    then show ?thesis using grownD(8) [OF 1 j(1,2) False] grownD(4) [OF 2 j(1) False] by simp
  qed
  ultimately show ?thesis using grownD(1,2) [OF 2] unfolding grown_def by blast
qed

text \<open>A new block for the slot \<open>j\<close> that is the only slot to change.\<close>

lemma grown_new_slot:
  assumes wf: "wf_file sb V A" and m: "meta_used sb V" and b: "b < sb_size sb" "\<not> used sb V b" "sb_size sb < 2 ^ 32"
    and j: "j < 141" "slot_addr V A j = 0" and slot: "\<And>i. i < 141 \<Longrightarrow> slot_addr V' A' i = (if i = j then of_nat b else slot_addr V A i)"
    and us: "\<And>c. c < sb_size sb \<Longrightarrow> used sb V' c \<longleftrightarrow> c = b \<or> used sb V c"
    and zero: "j < 140 \<Longrightarrow> V' b = (\<lambda>_. 0)"
    and other: "\<And>c. data_block sb V c \<Longrightarrow> A 12 = 0 \<or> c \<noteq> unat (A 12) \<Longrightarrow> V' c = V c"
    and low: "\<And>c. c < sb_bmapstart sb \<Longrightarrow> V' c = V c"
  shows "grown sb V A V' A'"
proof -
  have bm: "bmap_end sb \<le> b" using m b(2) unfolding meta_used_def by (metis not_le)
  have ub: "unat (of_nat b :: u32) = b" using b(1,3) by (simp add: unsigned_of_nat take_bit_nat_eq_self)
  have b0: "(of_nat b :: u32) \<noteq> 0" using bm ub by (auto simp: bmap_end_def)
  have old: "unat (slot_addr V A i) \<noteq> b" if "i < 141" "slot_addr V A i \<noteq> 0" for i
    using wf_fileD(1) [OF wf that] b(2) by (auto simp: data_block_def)
  have w: "wf_file sb V' A'"
    unfolding wf_file_def
  proof (intro conjI allI impI)
    fix i assume i: "i < 141" "slot_addr V' A' i \<noteq> 0"
    show "data_block sb V' (unat (slot_addr V' A' i))"
    proof (cases "i = j")
      case True
      then show ?thesis using slot [OF i(1)] ub bm b(1) us by (simp add: data_block_def)
    next
      case False
      then have "data_block sb V (unat (slot_addr V A i))" using slot i wf_fileD(1) [OF wf] by simp
      then show ?thesis using False slot [OF i(1)] us by (simp add: data_block_def)
    qed
  next
    fix i l assume i: "i < 141" and l: "l < 141" and ne: "slot_addr V' A' i \<noteq> 0" and eq: "slot_addr V' A' i = slot_addr V' A' l"
    then show "i = l"
      using slot [OF i] slot [OF l] wf_fileD(2) [OF wf i l] old [OF i] old [OF l] ub b0 by (auto split: if_splits)
  qed
  have fb: "fbyte V' A' i = fbyte V A i" if "i < 71680" for i
  proof (rule slots_fbyte [OF _ _ that])
    fix l :: nat assume l: "l < 140" "slot_addr V A l \<noteq> 0"
    have "A 12 = 0 \<or> unat (slot_addr V A l) \<noteq> unat (A 12)"
      using wf_fileD(2) [OF wf _ _ l(2), of 140] l(1) by (auto simp: slot_ind dest: word_unat_eq_iff [THEN iffD2])
    then show "slot_addr V' A' l = slot_addr V A l \<and> V' (unat (slot_addr V A l)) = V (unat (slot_addr V A l))"
      using slot [of l] l j other [OF wf_fileD(1) [OF wf _ l(2)]] by auto
  next
    fix l :: nat assume l: "l < 140" "slot_addr V A l = 0" "slot_addr V' A' l \<noteq> 0"
    have sl: "slot_addr V' A' l = (if l = j then of_nat b else slot_addr V A l)" by (rule slot) (use l(1) in simp)
    then have lj: "l = j" using l(2,3) by (metis (full_types))
    then have "slot_addr V' A' l = of_nat b" using sl by simp
    then show "V' (unat (slot_addr V' A' l)) = (\<lambda>_. 0)" using zero l(1) unfolding lj by (simp only: ub)
  qed
  have "meta_used sb V'" unfolding meta_used_def
  proof (intro allI impI)
    fix c assume c: "c < bmap_end sb"
    then have "c < sb_size sb" using bm b(1) by simp
    then show "used sb V' c" using us m c unfolding meta_used_def by blast
  qed
  moreover have "slot_addr V' A' i = slot_addr V A i" if "i < 141" "slot_addr V A i \<noteq> 0" for i
    using slot [OF that(1)] that(2) j(2) by auto
  moreover have "used sb V' c" if "c < sb_size sb" "used sb V c" for c using us that by blast
  moreover have "\<not> used sb V (unat (slot_addr V' A' i))" if "i < 141" "slot_addr V A i = 0" "slot_addr V' A' i \<noteq> 0" for i
  proof -
    have "i = j" using slot [OF that(1)] that(2,3) by (metis (full_types))
    then show ?thesis using slot [OF that(1)] ub b(2) by simp
  qed
  ultimately show ?thesis using w fb other low unfolding grown_def by blast
qed

lemma free_unat:
  assumes "b < sb_size sb" and "sb_size sb < 2 ^ 32"
  shows "unat (of_nat b :: u32) = b"
  using assms by (simp add: unsigned_of_nat take_bit_nat_eq_self)

lemma grown_direct:
  assumes wf: "wf_file sb V A" and m: "meta_used sb V" and b: "b < sb_size sb" "\<not> used sb V b" "sb_size sb < 2 ^ 32"
    and j: "j \<le> 12" "A j = 0"
  shows "grown sb V A (fresh_view sb b V) (A(j := of_nat b))"
proof -
  have bm: "bmap_end sb \<le> b" using m b(2) unfolding meta_used_def by (metis not_le)
  have keep: "fresh_view sb b V c = V c" if "data_block sb V c" for c
    by (rule fresh_view_other [OF b(1)]) (use that b(2) in \<open>auto simp: data_block_def\<close>)
  have ind: "fresh_view sb b V (unat (A 12)) = V (unat (A 12))" if "A 12 \<noteq> 0"
    using keep wf_fileD(1) [OF wf, of 140] that by (simp add: slot_ind)
  let ?A = "A(j := of_nat b)"
  let ?J = "if j = 12 then 140 else j"
  have slot: "slot_addr (fresh_view sb b V) ?A i = (if i = ?J then of_nat b else slot_addr V A i)" if "i < 141" for i
    unfolding slot_addr_def using j ind free_unat [OF b(1,3)] by auto
  show ?thesis
  proof (rule grown_new_slot [OF wf m b _ _ slot])
    show "?J < 141" "slot_addr V A ?J = 0" using j by (auto simp: slot_addr_def)
    show "used sb (fresh_view sb b V) c \<longleftrightarrow> c = b \<or> used sb V c" if "c < sb_size sb" for c
      using fresh_view_used [OF bm that] .
    show "fresh_view sb b V c = V c" if "c < sb_bmapstart sb" for c
      using that BBLOCK_between(1) [OF b(1)] bm by (simp add: fresh_view_def mark_other bmap_end_def)
  qed (simp_all add: keep)
qed

lemma grown_indirect:
  assumes wf: "wf_file sb V A" and m: "meta_used sb V" and b: "b < sb_size sb" "\<not> used sb V b" "sb_size sb < 2 ^ 32"
    and j: "12 \<le> j" "j < 140" "A 12 \<noteq> 0" "slot_addr V A j = 0"
  defines "c \<equiv> unat (A 12)"
  shows "grown sb V A ((fresh_view sb b V)(c := put32 (V c) (j - 12) (of_nat b))) A"
proof -
  have bm: "bmap_end sb \<le> b" using m b(2) unfolding meta_used_def by (metis not_le)
  have c: "data_block sb V c" using wf_fileD(1) [OF wf, of 140] j(3) by (simp add: slot_ind c_def)
  then have cb: "c \<noteq> b" "bmap_end sb \<le> c" using b(2) by (auto simp: data_block_def)
  have keep: "fresh_view sb b V x = V x" if "data_block sb V x" for x
    by (rule fresh_view_other [OF b(1)]) (use that b(2) in \<open>auto simp: data_block_def\<close>)
  let ?V = "(fresh_view sb b V)(c := put32 (V c) (j - 12) (of_nat b))"
  have slot: "slot_addr ?V A i = (if i = j then of_nat b else slot_addr V A i)" if "i < 141" for i
    unfolding slot_addr_def using j by (auto simp: c_def)
  show ?thesis
  proof (rule grown_new_slot [OF wf m b _ j(4) slot])
    show "used sb ?V x \<longleftrightarrow> x = b \<or> used sb V x" if "x < sb_size sb" for x
      using used_data_block [OF cb(2) that] fresh_view_used [OF bm that] by simp
    show "?V x = V x" if "x < sb_bmapstart sb" for x
      using that BBLOCK_between(1) [OF b(1)] bm cb(2) by (simp add: fresh_view_def mark_other bmap_end_def)
    show "?V x = V x" if "data_block sb V x" "A 12 = 0 \<or> x \<noteq> unat (A 12)" for x
      using keep [OF that(1)] that(2) j(3) by (simp add: c_def)
  qed (use j(1,2) cb(1) in auto)
qed

section \<open>The state of the file system at a file\<close>

lemma from_log_Inr: "f (lg s) = Inr (x, l) \<Longrightarrow> from_log f s = Inr (x, s\<lparr>lg := l\<rparr>)"
  by (simp add: from_log_def)

lemma on_log_Inr: "f (lg s) = Inr l \<Longrightarrow> on_log f s = Inr (s\<lparr>lg := l\<rparr>)"
  by (simp add: on_log_def)

text \<open>Inside a transaction with room for \<open>k\<close> blocks in the log and \<open>n\<close> free blocks on the disk.\<close>

definition fs_at :: "int \<Rightarrow> nat \<Rightarrow> nat \<Rightarrow> nat \<Rightarrow> fsst \<Rightarrow> bool" where
  "fs_at me ip k n s \<longleftrightarrow> tx me {} k (lg s) \<and> layout (fs_sb s) (lg s) \<and> i_dev (icache s ip) = 1 \<and>
     wf_file (fs_sb s) (cview (lg s)) (d_addrs (icache s ip)) \<and> meta_used (fs_sb s) (cview (lg s)) \<and>
     n \<le> card (free_blocks (fs_sb s) (cview (lg s)))"

text \<open>The parts of the state that the operations on the content of \<open>ip\<close> change.\<close>

definition same_but :: "nat \<Rightarrow> fsst \<Rightarrow> fsst \<Rightarrow> bool" where
  "same_but ip s s' \<longleftrightarrow> same_log (lg s) (lg s') \<and>
     s' = s\<lparr>lg := lg s', icache := (icache s)(ip := (icache s ip)\<lparr>d_addrs := d_addrs (icache s' ip)\<rparr>)\<rparr>"

definition file_view :: "nat \<Rightarrow> fsst \<Rightarrow> nat \<Rightarrow> 8 word" where
  "file_view ip s = fbyte (cview (lg s)) (d_addrs (icache s ip))"

lemma fs_atD:
  assumes "fs_at me ip k n s"
  shows "tx me {} k (lg s)" and "layout (fs_sb s) (lg s)" and "i_dev (icache s ip) = 1"
    and "wf_file (fs_sb s) (cview (lg s)) (d_addrs (icache s ip))" and "meta_used (fs_sb s) (cview (lg s))"
    and "n \<le> card (free_blocks (fs_sb s) (cview (lg s)))" and "sb_size (fs_sb s) < 2 ^ 32"
proof -
  show "tx me {} k (lg s)" "layout (fs_sb s) (lg s)" "i_dev (icache s ip) = 1"
      "wf_file (fs_sb s) (cview (lg s)) (d_addrs (icache s ip))" "meta_used (fs_sb s) (cview (lg s))"
      "n \<le> card (free_blocks (fs_sb s) (cview (lg s)))"
    using assms unfolding fs_at_def by blast+
  then show "sb_size (fs_sb s) < 2 ^ 32"
    using layoutD(1) log_atD(4) [OF txD(1)] by fastforce
qed

lemma same_butD:
  assumes "same_but ip s s'"
  shows "same_log (lg s) (lg s')" and "fs_sb s' = fs_sb s" and "j \<noteq> ip \<Longrightarrow> icache s' j = icache s j"
    and "icache s' ip = (icache s ip)\<lparr>d_addrs := d_addrs (icache s' ip)\<rparr>" and "dev_read s' = dev_read s" and "dev_write s' = dev_write s"
proof -
  note e = conjunct2 [OF assms [unfolded same_but_def]]
  show "same_log (lg s) (lg s')" using assms unfolding same_but_def by blast
  show "fs_sb s' = fs_sb s" "dev_read s' = dev_read s" "dev_write s' = dev_write s"
    using arg_cong [OF e, of fs_sb] arg_cong [OF e, of dev_read] arg_cong [OF e, of dev_write] by simp_all
  have "icache s' = (icache s)(ip := (icache s ip)\<lparr>d_addrs := d_addrs (icache s' ip)\<rparr>)"
    using arg_cong [OF e, of icache] by simp
  then show "j \<noteq> ip \<Longrightarrow> icache s' j = icache s j"
      "icache s' ip = (icache s ip)\<lparr>d_addrs := d_addrs (icache s' ip)\<rparr>"
    by (metis fun_upd_other, metis fun_upd_same)
qed

lemma same_butI:
  assumes "same_log (lg s) l" and "s' = s\<lparr>lg := l, icache := (icache s)(ip := (icache s ip)\<lparr>d_addrs := a\<rparr>)\<rparr>"
  shows "same_but ip s s'"
  using assms by (simp add: same_but_def)

lemma same_but_refl [simp]: "same_but ip s s"
  by (rule same_butI [of s "lg s" s ip "d_addrs (icache s ip)"]) simp_all

lemma same_but_log: "same_log (lg s) l \<Longrightarrow> same_but ip s (s\<lparr>lg := l\<rparr>)"
  by (rule same_butI [of s l _ ip "d_addrs (icache s ip)"]) simp_all

lemma same_but_trans:
  assumes 1: "same_but ip s s1" and 2: "same_but ip s1 s2"
  shows "same_but ip s s2"
proof (rule same_butI)
  show "same_log (lg s) (lg s2)" using same_butD(1) [OF 1] same_butD(1) [OF 2] same_log_trans by blast
  let ?a = "d_addrs (icache s2 ip)"
  have e1: "s1 = s\<lparr>lg := lg s1, icache := (icache s)(ip := (icache s ip)\<lparr>d_addrs := d_addrs (icache s1 ip)\<rparr>)\<rparr>"
    using 1 unfolding same_but_def by blast
  have "s2 = s1\<lparr>lg := lg s2, icache := (icache s1)(ip := (icache s1 ip)\<lparr>d_addrs := ?a\<rparr>)\<rparr>"
    using 2 unfolding same_but_def by blast
  also have "\<dots> = s\<lparr>lg := lg s2, icache := (icache s)(ip := (icache s ip)\<lparr>d_addrs := ?a\<rparr>)\<rparr>"
    by (subst (1 2 3) e1) simp
  finally show "s2 = s\<lparr>lg := lg s2, icache := (icache s)(ip := (icache s ip)\<lparr>d_addrs := ?a\<rparr>)\<rparr>" .
qed

end
