(* ===== verification/FsMap.thy ===== *)
theory FsMap
  imports FsFile
begin

text \<open>
  The functions of \<open>fs.c\<close> that find the block of a byte of a file: \<open>balloc\<close> gives the first free block,
  \<open>bmap\<close> an address in the file, with new blocks of zeros where there were none.
\<close>

section \<open>Allocation\<close>

lemma free_fresh_view:
  assumes "bmap_end sb \<le> b"
  shows "free_blocks sb (fresh_view sb b V) = free_blocks sb V - {b}"
  using fresh_view_used [OF assms] by (auto simp: free_blocks_def)

lemma balloc_ok:
  assumes t: "tx me H (Suc (Suc k)) s" and l: "layout sb s" and m: "meta_used sb (cview s)"
    and H: "\<And>i. i \<in> H \<Longrightarrow> data_block sb (cview s) (b_blockno (bufs s i))" "card H \<le> Suc k"
    and f: "free_blocks sb (cview s) \<noteq> {}"
  shows "\<exists>b s'. balloc me sb 1 s = Inr (b, s') \<and> b < sb_size sb \<and> \<not> used sb (cview s) b \<and> bmap_end sb \<le> b \<and>
    (\<forall>c<b. used sb (cview s) c) \<and> runs me H k (fresh_view sb b (cview s)) s s'"
proof -
  define b where "b = Min (free_blocks sb (cview s))"
  have "b \<in> free_blocks sb (cview s)" unfolding b_def using f by (rule Min_in [OF finite_free])
  then have b: "b < sb_size sb" "\<not> used sb (cview s) b" by (auto simp: free_blocks_def)
  have first: "used sb (cview s) c" if "c < b" for c
  proof (rule ccontr)
    assume "\<not> used sb (cview s) c"
    then have "c \<in> free_blocks sb (cview s)" using that b(1) by (simp add: free_blocks_def)
    then have "b \<le> c" unfolding b_def by (rule Min_le [OF finite_free])
    then show False using that by simp
  qed
  have bm: "bmap_end sb \<le> b" using m b(2) unfolding meta_used_def by (metis not_le)
  have "holds_data sb H s" using H(1) by (auto simp: holds_data_def data_block_def)
  moreover have "b_blockno (bufs s i) \<noteq> b" if "i \<in> H" for i using H(1) [OF that] b(2) by (auto simp: data_block_def)
  ultimately obtain s' where "balloc_from me sb 1 0 s = Inr (b, s')" "runs me H k (fresh_view sb b (cview s)) s s'"
    using balloc_from_ok [where start = 0, OF t l _ H(2) _ _ b(1) bm b(2)] first unfolding fresh_view_def by auto
  then show ?thesis using b first bm unfolding balloc_def by blast
qed

section \<open>The state after a part of an operation\<close>

definition extends :: "int \<Rightarrow> nat \<Rightarrow> nat \<Rightarrow> nat \<Rightarrow> fsst \<Rightarrow> fsst \<Rightarrow> bool" where
  "extends me ip k n s s' \<longleftrightarrow> fs_at me ip k n s' \<and> same_but ip s s' \<and>
     grown (fs_sb s) (cview (lg s)) (d_addrs (icache s ip)) (cview (lg s')) (d_addrs (icache s' ip))"

lemma extendsD:
  assumes "extends me ip k n s s'"
  shows "fs_at me ip k n s'" and "same_but ip s s'" and "fs_sb s' = fs_sb s" and "same_log (lg s) (lg s')"
    and "grown (fs_sb s) (cview (lg s)) (d_addrs (icache s ip)) (cview (lg s')) (d_addrs (icache s' ip))"
  using assms same_butD(1,2) unfolding extends_def by blast+

lemma fs_at_mono: "fs_at me ip k n s \<Longrightarrow> j \<le> k \<Longrightarrow> m \<le> n \<Longrightarrow> fs_at me ip j m s"
  using tx_mono unfolding fs_at_def by auto

lemma extends_refl:
  assumes "fs_at me ip k n s" and "j \<le> k" and "m \<le> n"
  shows "extends me ip j m s s"
  using fs_at_mono [OF assms] grown_refl fs_atD(4,5) [OF assms(1)] by (simp add: extends_def)

text \<open>The state when the log has run to \<open>l\<close> and the addresses of the inode are \<open>a\<close>.\<close>

lemma extendsI:
  assumes s: "fs_at me ip k' n' s" and r: "runs me {} k V (lg s) l" and g: "grown (fs_sb s) (cview (lg s)) (d_addrs (icache s ip)) V a"
    and n: "n \<le> card (free_blocks (fs_sb s) V)"
    and s': "s' = s\<lparr>lg := l, icache := (icache s)(ip := (icache s ip)\<lparr>d_addrs := a\<rparr>)\<rparr>"
  shows "extends me ip k n s s'"
proof -
  have "same_but ip s s'" using same_butI [OF runsD(3) [OF r] s'] .
  moreover have "fs_at me ip k n s'"
    unfolding fs_at_def using fs_atD(2,3) [OF s] grownD(1,2) [OF g] runsD(1,2) [OF r] layout_runs [OF r] n by (simp add: s')
  ultimately show ?thesis using g runsD(2) [OF r] by (simp add: extends_def s')
qed

lemma card_less:
  assumes "Suc n \<le> card (free_blocks sb V)" and "b < sb_size sb" and "\<not> used sb V b" and "bmap_end sb \<le> b"
    and "free_blocks sb W = free_blocks sb (fresh_view sb b V)"
  shows "n \<le> card (free_blocks sb W)"
proof -
  have "b \<in> free_blocks sb V" using assms(2,3) by (simp add: free_blocks_def)
  then show ?thesis using assms(1) unfolding assms(5) free_fresh_view [OF assms(4)] by simp
qed

lemma bmap_slot_ok:
  assumes s: "fs_at me ip (Suc (Suc k)) (Suc n) s" and j: "j \<le> 12"
  shows "\<exists>a s'. bmap_slot me ip j s = Inr (a, s') \<and> extends me ip k n s s' \<and> d_addrs (icache s' ip) j = a \<and> a \<noteq> 0"
proof (cases "d_addrs (icache s ip) j = 0")
  case False
  then show ?thesis using extends_refl [OF s] by (auto simp: bmap_slot_def)
next
  case True
  note f = fs_atD [OF s]
  let ?V = "cview (lg s)"
  have "free_blocks (fs_sb s) ?V \<noteq> {}" using f(6) by auto
  then obtain b l where b: "balloc me (fs_sb s) 1 (lg s) = Inr (b, l)" "b < sb_size (fs_sb s)" "\<not> used (fs_sb s) ?V b"
      "bmap_end (fs_sb s) \<le> b" and r: "runs me {} k (fresh_view (fs_sb s) b ?V) (lg s) l"
    using balloc_ok [OF f(1,2,5)] by auto
  let ?s = "set_addr ip j (of_nat b) (s\<lparr>lg := l\<rparr>)"
  have ub: "unat (of_nat b :: u32) = b" using free_unat [OF b(2) f(7)] .
  have "extends me ip k n s ?s"
    by (rule extendsI [OF s r grown_direct [OF f(4,5) b(2,3) f(7) j True] card_less [OF f(6) b(2-4) refl]])
      (simp add: set_addr_def upd_i_def)
  moreover have "bmap_slot me ip j s = Inr (of_nat b, ?s)"
    using True b(1) f(3) by (simp add: bmap_slot_def from_log_def)
  moreover have "(of_nat b :: u32) \<noteq> 0" using ub b(4) by (auto simp: bmap_end_def)
  ultimately show ?thesis by (auto simp: set_addr_def upd_i_def)
qed

section \<open>The entries of the indirect block\<close>

lemma extendsI_log:
  assumes s: "fs_at me ip k' n' s" and r: "runs me {} k V (lg s) l" and g: "grown (fs_sb s) (cview (lg s)) (d_addrs (icache s ip)) V (d_addrs (icache s ip))"
    and n: "n \<le> card (free_blocks (fs_sb s) V)"
  shows "extends me ip k n s (s\<lparr>lg := l\<rparr>)"
  by (rule extendsI [OF s r g n]) simp

lemma entry_new:
  assumes s: "fs_at me ip (Suc (Suc (Suc k))) (Suc n) s" and j: "12 \<le> j" "j < 140" and a: "d_addrs (icache s ip) 12 \<noteq> 0"
    and z: "slot_addr (cview (lg s)) (d_addrs (icache s ip)) j = 0"
    and t: "bread me 1 (unat (d_addrs (icache s ip) 12)) (lg s) = Inr (i, l)"
      "taken me {} (Suc (Suc (Suc k))) (unat (d_addrs (icache s ip) 12)) (lg s) i l"
  shows "\<exists>b l1 l2 l3. balloc me (fs_sb s) 1 l = Inr (b, l1) \<and>
    log_write i (upd_b i (\<lambda>r. r\<lparr>b_data := put32 (b_data r) (j - 12) (of_nat b)\<rparr>) l1) = Inr l2 \<and> brelse me i l2 = Inr l3 \<and>
    extends me ip k n s (s\<lparr>lg := l3\<rparr>) \<and> slot_addr (cview l3) (d_addrs (icache s ip)) j = of_nat b \<and> (of_nat b :: u32) \<noteq> 0"
proof -
  note f = fs_atD [OF s] and t2 = takenD [OF t(2)]
  let ?V = "cview (lg s)" and ?sb = "fs_sb s" and ?A = "d_addrs (icache s ip)"
  let ?c = "unat (?A 12)"
  have c: "data_block ?sb ?V ?c" using wf_fileD(1) [OF f(4), of 140] a by (simp add: slot_ind)
  have ti: "tx me {i} (Suc (Suc (Suc k))) l" using t2(1) by simp
  have lay: "layout ?sb l" using layout_same [OF t2(6)] f(2) by simp
  have "free_blocks ?sb ?V \<noteq> {}" using f(6) by auto
  then obtain b l1 where b: "balloc me ?sb 1 l = Inr (b, l1)" "b < sb_size ?sb" "\<not> used ?sb ?V b" "bmap_end ?sb \<le> b"
      and r: "runs me {i} (Suc k) (fresh_view ?sb b ?V) l l1"
    using balloc_ok [OF ti lay] f(5) c t2(3,5) by auto
  note r1 = runsD [OF r]
  have cb: "c \<noteq> b" if "c = ?c" for c using that c b(3) by (auto simp: data_block_def)
  have "b_blockno (bufs l1 i) = ?c" using r1(4) t2(3) by simp
  moreover have "?c \<notin> log_area l1"
    using r1(6) same_logD(9) [OF t2(6)] layoutD(3) [OF f(2), of ?c] c by (simp add: data_block_def bmap_end_def)
  ultimately obtain l2 where w: "log_write i (upd_b i (\<lambda>r. r\<lparr>b_data := put32 (b_data r) (j - 12) (of_nat b)\<rparr>) l1) = Inr l2"
      "changed me {i} k i ?c (put32 (cview l1 ?c) (j - 12) (of_nat b)) l1 l2"
    using tx_log_write [OF r1(1), of i ?c "\<lambda>d. put32 d (j - 12) (of_nat b)"] by auto
  note w2 = changedD [OF w(2)]
  obtain l3 where d: "brelse me i l2 = Inr l3" "dropped me {i} k i l2 l3" using tx_brelse [OF w2(1)] by blast
  note d2 = droppedD [OF d(2)]
  let ?W = "(fresh_view ?sb b ?V)(?c := put32 (?V ?c) (j - 12) (of_nat b))"
  have v: "cview l3 = ?W"
    using d2(2) w2(2) r1(2) fresh_view_other [OF b(2), of ?c] cb c by (simp add: data_block_def)
  have "same_log (lg s) l3" using t2(6) r1(3) w2(3) d2(3) same_log_trans by blast
  then have run: "runs me {} k ?W (lg s) l3" using d2(1) v by (simp add: runs_def)
  note g = grown_indirect [OF f(4,5) b(2,3) f(7) j a z]
  have "free_blocks ?sb ?W = free_blocks ?sb (fresh_view ?sb b ?V)"
    using used_data_block [of ?sb ?c] c by (auto simp: free_blocks_def data_block_def)
  then have "extends me ip k n s (s\<lparr>lg := l3\<rparr>)"
    by (rule extendsI_log [OF s run g card_less [OF f(6) b(2-4)]])
  moreover have "slot_addr (cview l3) ?A j = of_nat b" using v j a by (simp add: slot_addr_def)
  moreover have "(of_nat b :: u32) \<noteq> 0" using free_unat [OF b(2) f(7)] b(4) by (auto simp: bmap_end_def)
  ultimately show ?thesis using b(1) w(1) d(1) by blast
qed

lemma bmap_entry_ok:
  assumes s: "fs_at me ip (Suc (Suc (Suc k))) (Suc n) s" and j: "12 \<le> j" "j < 140" and a: "d_addrs (icache s ip) 12 \<noteq> 0"
  shows "\<exists>x s'. bmap_entry me ip (j - 12) (d_addrs (icache s ip) 12) s = Inr (x, s') \<and> extends me ip k n s s' \<and>
    slot_addr (cview (lg s')) (d_addrs (icache s' ip)) j = x \<and> x \<noteq> 0"
proof -
  note f = fs_atD [OF s]
  let ?V = "cview (lg s)" and ?sb = "fs_sb s" and ?A = "d_addrs (icache s ip)"
  let ?c = "unat (?A 12)"
  have c: "data_block ?sb ?V ?c" using wf_fileD(1) [OF f(4), of 140] a by (simp add: slot_ind)
  then have "?c < disksize (lg s)" using layoutD(1) [OF f(2)] by (simp add: data_block_def)
  then obtain i l where t: "bread me 1 ?c (lg s) = Inr (i, l)" "taken me {} (Suc (Suc (Suc k))) ?c (lg s) i l"
    using tx_bread [OF f(1), of ?c] by auto
  note t2 = takenD [OF t(2)]
  have g: "get32 (b_data (bufs l i)) (j - 12) = slot_addr ?V ?A j" using t2(4) j a by (simp add: slot_addr_def)
  show ?thesis
  proof (cases "slot_addr ?V ?A j = 0")
    case True
    obtain b l1 l2 l3 where "balloc me ?sb 1 l = Inr (b, l1)"
        "log_write i (upd_b i (\<lambda>r. r\<lparr>b_data := put32 (b_data r) (j - 12) (of_nat b)\<rparr>) l1) = Inr l2" "brelse me i l2 = Inr l3"
        and x: "extends me ip k n s (s\<lparr>lg := l3\<rparr>)" "slot_addr (cview l3) ?A j = of_nat b" "(of_nat b :: u32) \<noteq> 0"
      using entry_new [OF s j a True t] by blast
    then have "bmap_entry me ip (j - 12) (?A 12) s = Inr (of_nat b, s\<lparr>lg := l3\<rparr>)"
      using t(1) f(3) g True by (simp add: bmap_entry_def from_log_def on_log_def bdata_def set_bdata_def Let_def)
    then show ?thesis using x by simp
  next
    case False
    obtain l1 where d: "brelse me i l = Inr l1" "runs me {} (Suc (Suc (Suc k))) ?V (lg s) l1" using taken_brelse [OF t(2)] by blast
    have "extends me ip k n s (s\<lparr>lg := l1\<rparr>)"
      by (rule extendsI_log [OF s runs_mono [OF d(2)] grown_refl [OF f(4,5)]]) (use f(6) in simp_all)
    moreover have "bmap_entry me ip (j - 12) (?A 12) s = Inr (slot_addr ?V ?A j, s\<lparr>lg := l1\<rparr>)"
      using t(1) f(3) g False d(1) by (simp add: bmap_entry_def from_log_def on_log_def bdata_def Let_def)
    ultimately show ?thesis using False runsD(2) [OF d(2)] by simp
  qed
qed

lemma extends_trans:
  assumes 1: "extends me ip k n s s1" and 2: "extends me ip k' n' s1 s2"
  shows "extends me ip k' n' s s2"
proof -
  have "same_but ip s s2" using same_but_trans extendsD(2) [OF 1] extendsD(2) [OF 2] by blast
  then show ?thesis
    using grown_trans [OF extendsD(5) [OF 1] extendsD(5) [OF 2, unfolded extendsD(3) [OF 1]]] extendsD(1) [OF 2]
    unfolding extends_def by blast
qed

lemma bmap_ok:
  assumes s: "fs_at me ip (k + 5) (n + 2) s" and bn: "bn < 140"
  shows "\<exists>x s'. bmap me ip bn s = Inr (x, s') \<and> extends me ip k n s s' \<and>
    slot_addr (cview (lg s')) (d_addrs (icache s' ip)) bn = x \<and> x \<noteq> 0"
proof (cases "bn < 12")
  case True
  have "fs_at me ip (Suc (Suc k)) (Suc n) s" by (rule fs_at_mono [OF s]) simp_all
  then show ?thesis using bmap_slot_ok [of me ip k n s bn] True by (auto simp: bmap_def slot_ind)
next
  case False
  have "fs_at me ip (Suc (Suc (k + 3))) (Suc (n + 1)) s" by (rule fs_at_mono [OF s]) simp_all
  then obtain a s1 where a: "bmap_slot me ip 12 s = Inr (a, s1)" "extends me ip (k + 3) (n + 1) s s1" "d_addrs (icache s1 ip) 12 = a"
      "a \<noteq> 0"
    using bmap_slot_ok [of me ip "k + 3" "n + 1" s 12] by auto
  have "fs_at me ip (Suc (Suc (Suc k))) (Suc n) s1" by (rule fs_at_mono [OF extendsD(1) [OF a(2)]]) simp_all
  then obtain x s2 where x: "bmap_entry me ip (bn - 12) a s1 = Inr (x, s2)" "extends me ip k n s1 s2"
      "slot_addr (cview (lg s2)) (d_addrs (icache s2 ip)) bn = x" "x \<noteq> 0"
    using bmap_entry_ok [of me ip k n s1 bn] False bn a(3,4) by auto
  have "extends me ip k n s s2" by (rule extends_trans [OF a(2) x(2)])
  moreover have "bmap me ip bn s = Inr (x, s2)" using False bn a(1) x(1) by (simp add: bmap_def)
  ultimately show ?thesis using x(3,4) by blast
qed

end
