(* ===== verification/FsRw.thy ===== *)
theory FsRw
  imports FsMap
begin

text \<open>
  Reading and writing the content of a file: \<open>readi\<close> gives a slice of it, \<open>writei\<close> replaces one, with
  new blocks where the file grows, and no block of another file changes.
\<close>

section \<open>One block\<close>

definition file_blocks :: "(nat \<Rightarrow> block) \<Rightarrow> (nat \<Rightarrow> u32) \<Rightarrow> nat set" where
  "file_blocks V A = {unat (slot_addr V A j) | j. j < 141 \<and> slot_addr V A j \<noteq> 0}"

lemma slot_addr_write:
  assumes "wf_file sb V A" and "bn < 140" and "slot_addr V A bn \<noteq> 0"
  shows "slot_addr (V(unat (slot_addr V A bn) := d)) A j = slot_addr V A j"
proof -
  have "A 12 \<noteq> 0 \<Longrightarrow> unat (A 12) \<noteq> unat (slot_addr V A bn)"
    using wf_fileD(2) [OF assms(1) _ _ assms(3), of 140] assms(2)
    by (auto simp: slot_ind dest: word_unat_eq_iff [THEN iffD2])
  then show ?thesis by (auto simp: slot_addr_def)
qed

lemma put_bytes_at:
  assumes "off + length xs \<le> 512" and "i < 512"
  shows "put_bytes off xs d i = (if off \<le> i \<and> i < off + length xs then xs ! (i - off) else d i)"
  by (simp add: put_bytes_def)

lemma block_write:
  assumes wf: "wf_file sb V A" and m: "meta_used sb V" and bn: "bn < 140" "slot_addr V A bn \<noteq> 0" and xs: "off mod 512 + length xs \<le> 512"
    and off: "off div 512 = bn"
  defines "V' \<equiv> V(unat (slot_addr V A bn) := put_bytes (off mod 512) xs (V (unat (slot_addr V A bn))))"
  shows "wf_file sb V' A" and "meta_used sb V'" and "free_blocks sb V' = free_blocks sb V" and "slot_addr V' A = slot_addr V A"
    and "i < 71680 \<Longrightarrow> fbyte V' A i = (if off \<le> i \<and> i < off + length xs then xs ! (i - off) else fbyte V A i)"
proof -
  let ?a = "unat (slot_addr V A bn)"
  have a: "data_block sb V ?a" using wf_fileD(1) [OF wf] bn by simp
  then have ab: "bmap_end sb \<le> ?a" "bmap_end sb \<le> sb_size sb" by (auto simp: data_block_def)
  have us: "used sb V' b = used sb V b" if "b < sb_size sb" for b
    unfolding V'_def by (rule used_data_block [OF ab(1) that])
  show sl: "slot_addr V' A = slot_addr V A" unfolding V'_def using slot_addr_write [OF wf bn] by blast
  have v: "V' b = (if b = ?a then put_bytes (off mod 512) xs (V ?a) else V b)" for b by (simp add: V'_def)
  show "wf_file sb V' A" using wf us unfolding wf_file_def sl data_block_def by blast
  show "meta_used sb V'" using m us ab(2) by (auto simp: meta_used_def)
  show "free_blocks sb V' = free_blocks sb V" using us by (auto simp: free_blocks_def)
  show "fbyte V' A i = (if off \<le> i \<and> i < off + length xs then xs ! (i - off) else fbyte V A i)" if i: "i < 71680"
  proof (cases "i div 512 = bn")
    case True
    have "i = 512 * bn + i mod 512" "off = 512 * bn + off mod 512"
      using True off mult_div_mod_eq [of 512 i] mult_div_mod_eq [of 512 off] by simp_all
    then have "off \<le> i \<longleftrightarrow> off mod 512 \<le> i mod 512" "i < off + length xs \<longleftrightarrow> i mod 512 < off mod 512 + length xs"
        "i - off = i mod 512 - off mod 512" by linarith+
    then show ?thesis using True bn(2) unfolding fbyte_def sl by (simp add: v put_bytes_def)
  next
    case False
    have "i div 512 < 141" using i by simp
    then have "slot_addr V A (i div 512) \<noteq> 0 \<Longrightarrow> unat (slot_addr V A (i div 512)) \<noteq> ?a"
      using wf_fileD(2) [OF wf, of "i div 512" bn] bn False by (auto dest: word_unat_eq_iff [THEN iffD2])
    moreover have "\<not> (off \<le> i \<and> i < off + length xs)"
    proof
      assume o: "off \<le> i \<and> i < off + length xs"
      have "off = 512 * bn + off mod 512" using off mult_div_mod_eq [of 512 off] by simp
      then have "512 * bn \<le> i" "i < 512 * bn + 512" using o xs by linarith+
      then have "i div 512 = bn" by (intro div_nat_eqI) simp_all
      then show False using False by simp
    qed
    ultimately show ?thesis unfolding fbyte_def sl by (auto simp: v)
  qed
qed

section \<open>What a write does\<close>

definition outside :: "nat \<Rightarrow> fsst \<Rightarrow> fsst \<Rightarrow> bool" where
  "outside ip s s' \<longleftrightarrow>
     (let sb = fs_sb s; V = cview (lg s); V' = cview (lg s'); A = d_addrs (icache s ip); A' = d_addrs (icache s' ip) in
      (\<forall>b. data_block sb V b \<longrightarrow> b \<notin> file_blocks V A \<longrightarrow> V' b = V b \<and> b \<notin> file_blocks V' A') \<and>
      (\<forall>b < sb_bmapstart sb. b \<noteq> IBLOCK (i_inum (icache s ip)) sb \<longrightarrow> V' b = V b) \<and>
      (\<forall>b < sb_size sb. used sb V b \<longrightarrow> used sb V' b))"

definition has_blocks :: "nat \<Rightarrow> nat \<Rightarrow> nat \<Rightarrow> fsst \<Rightarrow> bool" where
  "has_blocks ip lo hi s \<longleftrightarrow> (\<forall>j<140. lo < 512 * (j + 1) \<longrightarrow> 512 * j < hi \<longrightarrow> slot_addr (cview (lg s)) (d_addrs (icache s ip)) j \<noteq> 0)"

definition keeps_blocks :: "nat \<Rightarrow> fsst \<Rightarrow> fsst \<Rightarrow> bool" where
  "keeps_blocks ip s s' \<longleftrightarrow> (\<forall>j<140. slot_addr (cview (lg s)) (d_addrs (icache s ip)) j \<noteq> 0 \<longrightarrow>
     slot_addr (cview (lg s')) (d_addrs (icache s' ip)) j \<noteq> 0)"

definition rewrote :: "nat \<Rightarrow> nat \<Rightarrow> 8 word list \<Rightarrow> fsst \<Rightarrow> fsst \<Rightarrow> bool" where
  "rewrote ip off src s s' \<longleftrightarrow> same_but ip s s' \<and> outside ip s s' \<and> keeps_blocks ip s s' \<and>
     (src \<noteq> [] \<longrightarrow> has_blocks ip off (off + length src) s') \<and>
     (\<forall>i<71680. file_view ip s' i = (if off \<le> i \<and> i < off + length src then src ! (i - off) else file_view ip s i))"

lemma rewroteD:
  assumes "rewrote ip off src s s'"
  shows "same_but ip s s'" and "outside ip s s'" and "keeps_blocks ip s s'" and "src \<noteq> [] \<Longrightarrow> has_blocks ip off (off + length src) s'"
    and "i < 71680 \<Longrightarrow> file_view ip s' i = (if off \<le> i \<and> i < off + length src then src ! (i - off) else file_view ip s i)"
  using assms unfolding rewrote_def by blast+

lemma outsideD:
  assumes "outside ip s s'"
  shows "data_block (fs_sb s) (cview (lg s)) b \<Longrightarrow> b \<notin> file_blocks (cview (lg s)) (d_addrs (icache s ip)) \<Longrightarrow>
      cview (lg s') b = cview (lg s) b \<and> b \<notin> file_blocks (cview (lg s')) (d_addrs (icache s' ip))"
    and "b < sb_bmapstart (fs_sb s) \<Longrightarrow> b \<noteq> IBLOCK (i_inum (icache s ip)) (fs_sb s) \<Longrightarrow> cview (lg s') b = cview (lg s) b"
    and "b < sb_size (fs_sb s) \<Longrightarrow> used (fs_sb s) (cview (lg s)) b \<Longrightarrow> used (fs_sb s) (cview (lg s')) b"
  using assms unfolding outside_def Let_def by blast+

lemma outside_refl: "outside ip s s"
  by (simp add: outside_def)

lemma outside_trans:
  assumes 1: "outside ip s s1" and same: "same_but ip s s1" and 2: "outside ip s1 s2"
  shows "outside ip s s2"
proof -
  have sb: "fs_sb s1 = fs_sb s" and inum: "i_inum (icache s1 ip) = i_inum (icache s ip)"
    using same_butD(2) [OF same] arg_cong [OF same_butD(4) [OF same], of i_inum] by simp_all
  have d: "data_block (fs_sb s1) (cview (lg s1)) b" if "data_block (fs_sb s) (cview (lg s)) b" for b
    using that outsideD(3) [OF 1] sb by (auto simp: data_block_def)
  show ?thesis
    unfolding outside_def Let_def
    using outsideD(1) [OF 1] outsideD(1) [OF 2 d] outsideD(2,3) [OF 1] outsideD(2,3) [OF 2, unfolded sb inum] by simp
qed

lemma grown_outside:
  assumes "extends me ip k n s s'"
  shows "outside ip s s'" and "keeps_blocks ip s s'"
proof -
  note g = extendsD(5) [OF assms]
  let ?V = "cview (lg s)" and ?V' = "cview (lg s')" and ?A = "d_addrs (icache s ip)" and ?A' = "d_addrs (icache s' ip)"
  have "?V' b = ?V b \<and> b \<notin> file_blocks ?V' ?A'" if b: "data_block (fs_sb s) ?V b" "b \<notin> file_blocks ?V ?A" for b
  proof -
    have "?A 12 \<noteq> 0 \<Longrightarrow> unat (?A 12) \<in> file_blocks ?V ?A"
      unfolding file_blocks_def by (rule CollectI, rule exI [of _ 140]) (simp add: slot_ind)
    then have "?A 12 = 0 \<or> b \<noteq> unat (?A 12)" using b(2) by blast
    moreover have "b \<noteq> unat (slot_addr ?V' ?A' j)" if j: "j < 141" "slot_addr ?V' ?A' j \<noteq> 0" for j
    proof (cases "slot_addr ?V ?A j = 0")
      case True
      then show ?thesis using grownD(8) [OF g j(1) True j(2)] b(1) by (auto simp: data_block_def)
    next
      case False
      then show ?thesis using grownD(4) [OF g j(1) False] b(2) j(1) by (auto simp: file_blocks_def)
    qed
    ultimately show ?thesis using grownD(6) [OF g b(1)] by (auto simp: file_blocks_def)
  qed
  then show "outside ip s s'" using grownD(5,7) [OF g] by (simp add: outside_def Let_def)
  show "keeps_blocks ip s s'" using grownD(4) [OF g] unfolding keeps_blocks_def by simp
qed

section \<open>The loop of writei\<close>

lemma block_bounds:
  fixes off :: nat
  shows "512 * (off div 512) \<le> off" and "off < 512 * (off div 512 + 1)"
proof -
  obtain q r where "off = 512 * q + r" "r < 512" by (metis mod_less_divisor mult_div_mod_eq zero_less_numeral)
  moreover from this have "off div 512 = q" by simp
  ultimately show "512 * (off div 512) \<le> off" "off < 512 * (off div 512 + 1)" by simp_all
qed

lemma in_block:
  fixes off i :: nat
  assumes "off mod 512 + i < 512"
  shows "(off + i) div 512 = off div 512" and "(off + i) mod 512 = off mod 512 + i"
proof -
  obtain q r where "off = 512 * q + r" "r < 512" by (metis mod_less_divisor mult_div_mod_eq zero_less_numeral)
  moreover from this have "off div 512 = q" "off mod 512 = r" by simp_all
  moreover from this assms have "r + i < 512" by simp
  ultimately show "(off + i) div 512 = off div 512" "(off + i) mod 512 = off mod 512 + i"
    using div_mult_self4 [of 512 q "r + i"] mod_mult_self4 [of 512 q "r + i"] by (simp_all add: add.assoc)
qed

lemma same_block:
  fixes off len j :: nat
  assumes "off mod 512 + len \<le> 512" and "off < 512 * (j + 1)" and "512 * j < off + len"
  shows "j = off div 512"
proof -
  obtain q r where "off = 512 * q + r" "r < 512" by (metis mod_less_divisor mult_div_mod_eq zero_less_numeral)
  moreover from this have "off div 512 = q" "off mod 512 = r" by simp_all
  ultimately show ?thesis using assms by simp
qed

text \<open>How many blocks a transfer of \<open>n\<close> bytes at \<open>off\<close> touches.\<close>

definition nblk :: "nat \<Rightarrow> nat \<Rightarrow> nat" where
  "nblk off n = (if n = 0 then 0 else (off mod 512 + n + 511) div 512)"

lemma nblk_step:
  fixes off n :: nat
  assumes "n \<noteq> 0"
  defines "m \<equiv> min n (512 - off mod 512)"
  shows "nblk off n = Suc (nblk (off + m) (n - m))"
proof (cases "n \<le> 512 - off mod 512")
  case True
  then have "off mod 512 + n + 511 = 512 + (off mod 512 + n - 1)" "off mod 512 + n - 1 < 512" using assms(1) by auto
  then have "(off mod 512 + n + 511) div 512 = 1" by simp
  then show ?thesis using True assms(1) by (simp add: nblk_def m_def)
next
  case False
  have lt: "off mod 512 < 512" by simp
  then have m: "m = 512 - off mod 512" using False by (simp add: m_def)
  have "off + m = 512 * (off div 512) + 512" using m lt mult_div_mod_eq [of 512 off] by linarith
  then have z: "(off + m) mod 512 = 0" by simp
  have "off mod 512 + n + 511 = 512 + (n - m + 511)" using m False lt by linarith
  then have "(off mod 512 + n + 511) div 512 = Suc ((n - m + 511) div 512)" by simp
  moreover have "n - m \<noteq> 0" using False m by simp
  ultimately show ?thesis using assms(1) z by (simp add: nblk_def)
qed

text \<open>One turn: \<open>bmap\<close>, \<open>bread\<close>, the change, \<open>log_write\<close>, \<open>brelse\<close>.\<close>

lemma write_turn:
  assumes s: "fs_at me ip (k + 6) (n + 2) s" and off: "off < 71680" and xs: "off mod 512 + length xs \<le> 512" "xs \<noteq> []"
  shows "\<exists>a s1 bp l1 l2 l3. bmap me ip (off div 512) s = Inr (a, s1) \<and> bread me (i_dev (icache s ip)) (unat a) (lg s1) = Inr (bp, l1) \<and>
    log_write bp (upd_b bp (\<lambda>r. r\<lparr>b_data := put_bytes (off mod 512) xs (b_data r)\<rparr>) l1) = Inr l2 \<and> brelse me bp l2 = Inr l3 \<and>
    fs_at me ip k n (s1\<lparr>lg := l3\<rparr>) \<and> rewrote ip off xs s (s1\<lparr>lg := l3\<rparr>)"
proof -
  have bn: "off div 512 < 140" using off by simp
  have "fs_at me ip ((k + 1) + 5) (n + 2) s" by (rule fs_at_mono [OF s]) simp_all
  then obtain a s1 where b: "bmap me ip (off div 512) s = Inr (a, s1)" and e: "extends me ip (k + 1) n s s1"
      and a: "slot_addr (cview (lg s1)) (d_addrs (icache s1 ip)) (off div 512) = a" "a \<noteq> 0"
    using bmap_ok [OF _ bn] by blast
  note f = fs_atD [OF extendsD(1) [OF e]] and x = extendsD [OF e]
  let ?V = "cview (lg s1)" and ?sb = "fs_sb s1" and ?A = "d_addrs (icache s1 ip)"
  have ab: "data_block ?sb ?V (unat a)" using wf_fileD(1) [OF f(4), of "off div 512"] a bn by simp
  then have "unat a < disksize (lg s1)" using layoutD(1) [OF f(2)] by (simp add: data_block_def)
  then obtain bp l1 where r: "bread me 1 (unat a) (lg s1) = Inr (bp, l1)" "taken me {} (Suc k) (unat a) (lg s1) bp l1"
    using tx_bread [OF f(1), of "unat a"] by auto
  have "unat a \<notin> log_area (lg s1)" using layoutD(3) [OF f(2), of "unat a"] ab by (simp add: data_block_def bmap_end_def)
  then obtain l2 l3 where w: "log_write bp (upd_b bp (\<lambda>r. r\<lparr>b_data := put_bytes (off mod 512) xs (b_data r)\<rparr>) l1) = Inr l2"
      "brelse me bp l2 = Inr l3"
      and run: "runs me {} k (?V(unat a := put_bytes (off mod 512) xs (?V (unat a)))) (lg s1) l3"
    using taken_written [OF r(2), of "put_bytes (off mod 512) xs"] by auto
  have a2: "slot_addr ?V ?A (off div 512) \<noteq> 0" using a by simp
  note bw = block_write [OF f(4,5) bn a2 xs(1) refl, unfolded a(1)]
  let ?s = "s1\<lparr>lg := l3\<rparr>"
  have cv: "cview l3 = ?V(unat a := put_bytes (off mod 512) xs (?V (unat a)))" using runsD(2) [OF run] .
  have at: "fs_at me ip k n ?s"
    using f(2,3,6) bw(1,2,3) runsD(1) [OF run] layout_runs [OF run] by (simp add: fs_at_def cv)
  have sl: "slot_addr (cview l3) ?A = slot_addr ?V ?A" using bw(4) by (simp only: cv)
  have inblk: "unat a \<in> file_blocks ?V ?A" using a bn unfolding file_blocks_def by force
  have "outside ip s1 ?s"
  proof -
    have fb: "file_blocks (cview l3) ?A = file_blocks ?V ?A" by (simp only: file_blocks_def sl)
    have other: "cview l3 b = ?V b" if "b \<noteq> unat a" for b using that by (simp add: cv)
    have "used ?sb (cview l3) b = used ?sb ?V b" if "b < sb_size ?sb" for b
      using used_data_block [OF _ that, of "unat a"] ab by (simp add: data_block_def cv)
    moreover have "cview l3 b = ?V b" if "b < sb_bmapstart ?sb" for b
      using that ab by (intro other) (auto simp: data_block_def bmap_end_def)
    moreover have "cview l3 b = ?V b \<and> b \<notin> file_blocks (cview l3) ?A" if "b \<notin> file_blocks ?V ?A" for b
      using that inblk fb other by metis
    ultimately show ?thesis unfolding outside_def Let_def by simp
  qed
  then have "outside ip s ?s" using outside_trans [OF grown_outside(1) [OF e] x(2)] by blast
  moreover have "same_but ip s ?s" using same_but_trans [OF x(2) same_but_log] runsD(3) [OF run] by blast
  moreover have "keeps_blocks ip s ?s" using grown_outside(2) [OF e] by (simp add: keeps_blocks_def sl)
  moreover have "has_blocks ip off (off + length xs) ?s"
  proof -
    have "j = off div 512" if "off < 512 * (j + 1)" "512 * j < off + length xs" for j
      using same_block [OF xs(1) that] .
    then show ?thesis using a2 by (auto simp: has_blocks_def sl)
  qed
  moreover have "file_view ip ?s i = (if off \<le> i \<and> i < off + length xs then xs ! (i - off) else file_view ip s i)" if "i < 71680" for i
    using bw(5) [OF that] grownD(3) [OF x(5) that] by (simp add: file_view_def cv)
  ultimately have "rewrote ip off xs s ?s" unfolding rewrote_def by blast
  then show ?thesis using b r(1) w at fs_atD(3) [OF s] by auto
qed

lemma rewrote_Nil: "rewrote ip off [] s s"
  by (auto simp: rewrote_def outside_refl keeps_blocks_def)

lemma rewrote_append:
  assumes 1: "rewrote ip off xs s s1" and 2: "rewrote ip (off + length xs) ys s1 s2" and xs: "xs \<noteq> []"
  shows "rewrote ip off (xs @ ys) s s2"
proof -
  note a = rewroteD [OF 1] and b = rewroteD [OF 2]
  have "outside ip s s2" by (rule outside_trans [OF a(2,1) b(2)])
  moreover have "same_but ip s s2" using same_but_trans [OF a(1) b(1)] .
  moreover have "keeps_blocks ip s s2" using a(3) b(3) unfolding keeps_blocks_def by blast
  moreover have "has_blocks ip off (off + length (xs @ ys)) s2"
    unfolding has_blocks_def
  proof (intro allI impI)
    fix j :: nat assume j: "j < 140" "off < 512 * (j + 1)" "512 * j < off + length (xs @ ys)"
    show "slot_addr (cview (lg s2)) (d_addrs (icache s2 ip)) j \<noteq> 0"
    proof (cases "512 * j < off + length xs")
      case True
      then have "slot_addr (cview (lg s1)) (d_addrs (icache s1 ip)) j \<noteq> 0"
        using a(4) [OF xs] j(1,2) unfolding has_blocks_def by blast
      then show ?thesis using b(3) j(1) unfolding keeps_blocks_def by blast
    next
      case False
      then have "ys \<noteq> []" "off + length xs < 512 * (j + 1)" "512 * j < off + length xs + length ys" using j(3) by auto
      then show ?thesis using b(4) j(1) unfolding has_blocks_def by blast
    qed
  qed
  moreover have "file_view ip s2 i = (if off \<le> i \<and> i < off + length (xs @ ys) then (xs @ ys) ! (i - off) else file_view ip s i)"
    if "i < 71680" for i
    using b(5) [OF that] a(5) [OF that] by (auto simp: nth_append)
  ultimately show ?thesis unfolding rewrote_def by blast
qed

lemma writei_loop_ok:
  assumes "fs_at me ip (k + 6 * nblk off (length src)) (n + 2 * nblk off (length src)) s" and "off + length src \<le> 71680"
  shows "\<exists>s'. writei_loop me ip off src s = Inr s' \<and> fs_at me ip k n s' \<and> rewrote ip off src s s'"
  using assms
proof (induction me ip off src s rule: writei_loop.induct)
  case (1 me ip off src s)
  show ?case
  proof (cases "src = []")
    case True
    then show ?thesis using "1.prems"(1) rewrote_Nil by (subst writei_loop.simps) (simp add: nblk_def)
  next
    case False
    define m where "m = min (length src) (512 - off mod 512)"
    have lm: "length (take m src) = m" "m \<noteq> 0" "off mod 512 + m \<le> 512" "m \<le> length src"
      using False by (auto simp: m_def)
    define q where "q = nblk (off + m) (length src - m)"
    have nb: "nblk off (length src) = Suc q" using nblk_step [of "length src" off] False by (simp add: q_def m_def)
    have "fs_at me ip ((k + 6 * q) + 6) ((n + 2 * q) + 2) s" by (rule fs_at_mono [OF "1.prems"(1)]) (simp_all add: nb)
    then obtain a s1 bp l1 l2 l3 where b: "bmap me ip (off div 512) s = Inr (a, s1)"
        and r: "bread me (i_dev (icache s ip)) (unat a) (lg s1) = Inr (bp, l1)"
        and w: "log_write bp (upd_b bp (\<lambda>r. r\<lparr>b_data := put_bytes (off mod 512) (take m src) (b_data r)\<rparr>) l1) = Inr l2" "brelse me bp l2 = Inr l3"
        and at: "fs_at me ip (k + 6 * q) (n + 2 * q) (s1\<lparr>lg := l3\<rparr>)" and rw: "rewrote ip off (take m src) s (s1\<lparr>lg := l3\<rparr>)"
      using write_turn [of me ip "k + 6 * q" "n + 2 * q" s off "take m src"] lm False "1.prems"(2) by auto
    let ?s = "s1\<lparr>lg := l3\<rparr>"
    have "\<exists>s'. writei_loop me ip (off + m) (drop m src) ?s = Inr s' \<and> fs_at me ip k n s' \<and> rewrote ip (off + m) (drop m src) ?s s'"
    proof (rule "1.IH" [OF False b refl _ refl m_def])
      show "from_log (bread me (i_dev (icache s ip)) (unat a)) s1 = Inr (bp, s1\<lparr>lg := l1\<rparr>)" using r by (simp add: from_log_def)
      show "on_log (log_write bp) (set_bdata bp (put_bytes (off mod 512) (take m src)) (s1\<lparr>lg := l1\<rparr>)) = Inr (s1\<lparr>lg := l2\<rparr>)"
        using w(1) by (simp add: on_log_def set_bdata_def)
      show "on_log (brelse me bp) (s1\<lparr>lg := l2\<rparr>) = Inr ?s" using w(2) by (simp add: on_log_def)
    qed (use at "1.prems"(2) lm(4) in \<open>simp_all add: q_def\<close>)
    then obtain s' where s': "writei_loop me ip (off + m) (drop m src) ?s = Inr s'" "fs_at me ip k n s'"
        "rewrote ip (off + m) (drop m src) ?s s'" by blast
    have "writei_loop me ip off src s = Inr s'"
      using b r w s'(1) False
      by (subst writei_loop.simps) (simp add: from_log_def on_log_def set_bdata_def Let_def m_def [symmetric])
    moreover have "rewrote ip off src s s'"
      using rewrote_append [OF rw, of "drop m src" s'] s'(3) lm False by auto
    ultimately show ?thesis using s'(2) by blast
  qed
qed

section \<open>Reading\<close>

text \<open>A run that changes nothing that the process sees.\<close>

definition calm :: "int \<Rightarrow> nat \<Rightarrow> fsst \<Rightarrow> fsst \<Rightarrow> bool" where
  "calm me k s s' \<longleftrightarrow> s' = s\<lparr>lg := lg s'\<rparr> \<and> runs me {} k (cview (lg s)) (lg s) (lg s')"

lemma calmI: "runs me {} k (cview (lg s)) (lg s) l \<Longrightarrow> calm me k s (s\<lparr>lg := l\<rparr>)"
  by (simp add: calm_def)

lemma calmD:
  assumes "calm me k s s'"
  shows "runs me {} k (cview (lg s)) (lg s) (lg s')" and "cview (lg s') = cview (lg s)" and "icache s' = icache s"
    and "fs_sb s' = fs_sb s" and "dev_read s' = dev_read s" and "dev_write s' = dev_write s"
proof -
  have e: "s' = s\<lparr>lg := lg s'\<rparr>" and r: "runs me {} k (cview (lg s)) (lg s) (lg s')" using assms unfolding calm_def by blast+
  show "runs me {} k (cview (lg s)) (lg s) (lg s')" "cview (lg s') = cview (lg s)" using r runsD(2) by blast+
  show "icache s' = icache s" "fs_sb s' = fs_sb s" "dev_read s' = dev_read s" "dev_write s' = dev_write s"
    using arg_cong [OF e, of icache] arg_cong [OF e, of fs_sb] arg_cong [OF e, of dev_read] arg_cong [OF e, of dev_write]
    by simp_all
qed

lemma calm_refl: "fs_at me ip k n s \<Longrightarrow> calm me k s s"
  using runs_refl [OF fs_atD(1)] by (simp add: calm_def)

lemma calm_trans:
  assumes 1: "calm me k s s1" and 2: "calm me k s1 s2"
  shows "calm me k s s2"
proof -
  have "s1 = s\<lparr>lg := lg s1\<rparr>" "s2 = s1\<lparr>lg := lg s2\<rparr>" using 1 2 unfolding calm_def by blast+
  then have "s2 = s\<lparr>lg := lg s2\<rparr>" by (metis fsst.update_convs(1) fsst.surjective)
  then show ?thesis using runs_trans [OF calmD(1) [OF 1] calmD(1) [OF 2]] calmD(2) [OF 1] unfolding calm_def by simp
qed

lemma calm_fs_at:
  assumes "calm me k s s'" and "fs_at me ip k n s"
  shows "fs_at me ip k n s'" and "file_view ip s' = file_view ip s" and "has_blocks ip lo hi s' = has_blocks ip lo hi s"
  using calmD [OF assms(1)] fs_atD [OF assms(2)] runsD(1) [OF calmD(1) [OF assms(1)]] layout_runs [OF calmD(1) [OF assms(1)]]
  by (simp_all add: fs_at_def file_view_def has_blocks_def)

lemma bmap_hit:
  assumes s: "fs_at me ip k n s" and bn: "bn < 140" "slot_addr (cview (lg s)) (d_addrs (icache s ip)) bn \<noteq> 0"
  shows "\<exists>s'. bmap me ip bn s = Inr (slot_addr (cview (lg s)) (d_addrs (icache s ip)) bn, s') \<and> calm me k s s'"
proof (cases "bn < 12")
  case True
  then show ?thesis using bn calm_refl [OF s] by (auto simp: bmap_def bmap_slot_def slot_ind)
next
  case False
  note f = fs_atD [OF s]
  let ?V = "cview (lg s)" and ?A = "d_addrs (icache s ip)"
  have a: "?A 12 \<noteq> 0" using bn False by (auto simp: slot_ind)
  then have "data_block (fs_sb s) ?V (unat (?A 12))" using wf_fileD(1) [OF f(4), of 140] by (simp add: slot_ind)
  then have "unat (?A 12) < disksize (lg s)" using layoutD(1) [OF f(2)] by (simp add: data_block_def)
  then obtain i l where t: "bread me 1 (unat (?A 12)) (lg s) = Inr (i, l)" "taken me {} k (unat (?A 12)) (lg s) i l"
    using tx_bread [OF f(1), of "unat (?A 12)"] by auto
  obtain l1 where d: "brelse me i l = Inr l1" "runs me {} k ?V (lg s) l1" using taken_brelse [OF t(2)] by blast
  have "bmap me ip bn s = Inr (slot_addr ?V ?A bn, s\<lparr>lg := l1\<rparr>)"
    using False a bn t(1) d(1) f(3) takenD(4) [OF t(2)]
    by (simp add: bmap_def bmap_slot_def bmap_entry_def from_log_def on_log_def bdata_def Let_def slot_ind)
  then show ?thesis using calmI [OF d(2)] by blast
qed

lemma read_turn:
  assumes s: "fs_at me ip k n s" and off: "off < 71680" and hb: "has_blocks ip off (off + m) s" and m: "off mod 512 + m \<le> 512" "m \<noteq> 0"
  shows "\<exists>a s1 bp l1 l2. bmap me ip (off div 512) s = Inr (a, s1) \<and> bread me (i_dev (icache s ip)) (unat a) (lg s1) = Inr (bp, l1) \<and>
    brelse me bp l1 = Inr l2 \<and> bytes_of (b_data (bufs l1 bp)) (off mod 512) m = map (file_view ip s) [off..<off + m] \<and>
    calm me k s (s1\<lparr>lg := l2\<rparr>)"
proof -
  let ?V = "cview (lg s)" and ?A = "d_addrs (icache s ip)" and ?bn = "off div 512"
  note block_bounds [of off]
  then have bn: "?bn < 140" "slot_addr ?V ?A ?bn \<noteq> 0" using off m(2) hb unfolding has_blocks_def by auto
  obtain s1 where b: "bmap me ip ?bn s = Inr (slot_addr ?V ?A ?bn, s1)" "calm me k s s1" using bmap_hit [OF s bn] by blast
  note c = calmD [OF b(2)] and f = fs_atD [OF calm_fs_at(1) [OF b(2) s]]
  let ?a = "unat (slot_addr ?V ?A ?bn)"
  have "?a < disksize (lg s1)"
    using wf_fileD(1) [OF fs_atD(4) [OF s] _ bn(2)] bn(1) layoutD(1) [OF f(2)] c(4) by (simp add: data_block_def)
  then obtain bp l1 where t: "bread me 1 ?a (lg s1) = Inr (bp, l1)" "taken me {} k ?a (lg s1) bp l1"
    using tx_bread [OF f(1), of ?a] by auto
  obtain l2 where d: "brelse me bp l1 = Inr l2" "runs me {} k (cview (lg s1)) (lg s1) l2" using taken_brelse [OF t(2)] by blast
  have "b_data (bufs l1 bp) (off mod 512 + i) = file_view ip s (off + i)" if "i < m" for i
  proof -
    have "off mod 512 + i < 512" using that m(1) by simp
    note in_block [OF this]
    then show ?thesis using bn(2) takenD(4) [OF t(2)] c(2) by (simp add: file_view_def fbyte_def)
  qed
  then have "bytes_of (b_data (bufs l1 bp)) (off mod 512) m = map (file_view ip s) [off..<off + m]"
    by (auto simp: bytes_of_def intro!: nth_equalityI)
  moreover have "calm me k s (s1\<lparr>lg := l2\<rparr>)" using calm_trans [OF b(2) calmI [OF d(2)]] .
  ultimately show ?thesis using b(1) t(1) d(1) fs_atD(3) [OF s] by auto
qed

lemma readi_loop_ok:
  assumes "fs_at me ip k q s" and "off + n \<le> 71680" and "has_blocks ip off (off + n) s"
  shows "\<exists>s'. readi_loop me ip off n s = Inr (map (file_view ip s) [off..<off + n], s') \<and> calm me k s s'"
  using assms
proof (induction me ip off n s rule: readi_loop.induct)
  case (1 me ip off n s)
  show ?case
  proof (cases "n = 0")
    case True
    then show ?thesis using calm_refl [OF "1.prems"(1)] by (subst readi_loop.simps) simp
  next
    case False
    define m where "m = min n (512 - off mod 512)"
    have m: "off mod 512 + m \<le> 512" "m \<noteq> 0" "m \<le> n" using False by (auto simp: m_def)
    have hb: "has_blocks ip off (off + m) s" using "1.prems"(3) m(3) unfolding has_blocks_def by simp
    have "off < 71680" using "1.prems"(2) False by simp
    then obtain a s1 bp l1 l2 where b: "bmap me ip (off div 512) s = Inr (a, s1)"
        and r: "bread me (i_dev (icache s ip)) (unat a) (lg s1) = Inr (bp, l1)" and d: "brelse me bp l1 = Inr l2"
        and xs: "bytes_of (b_data (bufs l1 bp)) (off mod 512) m = map (file_view ip s) [off..<off + m]"
        and c: "calm me k s (s1\<lparr>lg := l2\<rparr>)"
      using read_turn [OF "1.prems"(1) _ hb m(1,2)] by blast
    let ?s = "s1\<lparr>lg := l2\<rparr>"
    note cf = calm_fs_at [OF c "1.prems"(1)]
    have "\<exists>s'. readi_loop me ip (off + m) (n - m) ?s = Inr (map (file_view ip ?s) [off + m..<off + m + (n - m)], s') \<and> calm me k ?s s'"
    proof (rule "1.IH" [OF False b refl _ refl m_def refl])
      show "from_log (bread me (i_dev (icache s ip)) (unat a)) s1 = Inr (bp, s1\<lparr>lg := l1\<rparr>)" using r by (simp add: from_log_def)
      show "on_log (brelse me bp) (s1\<lparr>lg := l1\<rparr>) = Inr ?s" using d by (simp add: on_log_def)
      show "has_blocks ip (off + m) (off + m + (n - m)) ?s"
        unfolding cf(3) using "1.prems"(3) m(3) unfolding has_blocks_def by simp
    qed (use cf(1) "1.prems"(2) m(3) in simp_all)
    then obtain s' where s': "readi_loop me ip (off + m) (n - m) ?s = Inr (map (file_view ip s) [off + m..<off + n], s')" "calm me k ?s s'"
      using m(3) cf(2) by auto
    have "map (file_view ip s) [off..<off + m] @ map (file_view ip s) [off + m..<off + n] = map (file_view ip s) [off..<off + n]"
      using upt_add_eq_append [of off "off + m" "n - m"] m(3) by (simp flip: map_append)
    then have "readi_loop me ip off n s = Inr (map (file_view ip s) [off..<off + n], s')"
      using b r d s'(1) xs False
      by (subst readi_loop.simps) (simp add: from_log_def on_log_def bdata_def Let_def m_def [symmetric])
    then show ?thesis using calm_trans [OF c s'(2)] by blast
  qed
qed

end
