(* ===== verification/FsContent.thy ===== *)
theory FsContent
  imports FsRw
begin

text \<open>
  Inodes on the disk, and \<open>readi\<close> and \<open>writei\<close> as functions of the content of a file.
\<close>

section \<open>The form of an inode on the disk\<close>

lemma get32_fold_put32:
  "get32 (fold (\<lambda>j d. put32 d (b + j) (f j)) [0..<n] d) i = (if b \<le> i \<and> i < b + n then f (i - b) else get32 d i)"
  by (induction n) auto

lemma put32_other: "i div 4 \<noteq> j \<Longrightarrow> put32 d j w i = d i"
  by (auto simp: put32_def)

lemma fold_put32_other:
  "\<not> (b \<le> i div 4 \<and> i div 4 < b + n) \<Longrightarrow> fold (\<lambda>j d. put32 d (b + j) (f j)) [0..<n] d i = d i"
  by (induction n) (auto simp: put32_other)

lemma put16_other: "i div 2 \<noteq> j \<Longrightarrow> put16 j w d i = d i"
  by (auto simp: put16_def)

lemma get32_put16:
  assumes "i div 2 \<noteq> j"
  shows "get32 (put16 i w d) j = get32 d j"
proof -
  have "i \<noteq> 2 * j" "i \<noteq> 2 * j + 1" using assms by auto
  moreover have "4 * j div 2 = 2 * j" "(4 * j + 1) div 2 = 2 * j" "(4 * j + 2) div 2 = 2 * j + 1" "(4 * j + 3) div 2 = 2 * j + 1"
    by simp_all
  ultimately show ?thesis by (simp add: get32_def put16_other)
qed

lemma get16_put16 [simp]: "get16 (put16 i w d) j = (if i = j then w else get16 d j)"
proof (cases "i = j")
  case True
  have "get16 (put16 i w d) i = w"
    by (rule bit_word_eqI) (auto simp: get16_def put16_def bit_simps)
  then show ?thesis using True by simp
next
  case False
  then show ?thesis by (simp add: get16_def put16_other)
qed

lemma get16_cong: "d (2 * i) = d' (2 * i) \<Longrightarrow> d (2 * i + 1) = d' (2 * i + 1) \<Longrightarrow> get16 d i = get16 d' i"
  by (simp add: get16_def)

lemma word_of_half: "2 * i div 4 = i div 2" "(2 * i + 1) div 4 = i div 2" "Suc (2 * i) div 4 = i div (2 :: nat)"
  using div_mult2_eq [of "2 * i" 2 2] div_mult2_eq [of "2 * i + 1" 2 2] by simp_all

lemma get16_put32: "i div 2 \<noteq> j \<Longrightarrow> get16 (put32 d j w) i = get16 d i"
  by (rule get16_cong; rule put32_other) (simp_all add: word_of_half)

lemma get16_fold_put32:
  "i div 2 < b \<Longrightarrow> get16 (fold (\<lambda>j d. put32 d (b + j) (f j)) [0..<n] d) i = get16 d i"
  by (rule get16_cong; rule fold_put32_other) (simp_all add: word_of_half)

lemma slot_halves: "32 * k div 2 = 16 * k" "(32 * k + 1) div 2 = 16 * k" "(32 * k + 2) div 2 = 16 * k + 1"
    "(32 * k + 3) div 2 = 16 * k + (1 :: nat)"
  by simp_all

lemma get_put_dinode:
  shows "d_type (get_dinode k (put_dinode k di d)) = d_type di" and "d_major (get_dinode k (put_dinode k di d)) = d_major di"
    and "d_minor (get_dinode k (put_dinode k di d)) = d_minor di" and "d_nlink (get_dinode k (put_dinode k di d)) = d_nlink di"
    and "d_size (get_dinode k (put_dinode k di d)) = d_size di"
    and "j < 13 \<Longrightarrow> d_addrs (get_dinode k (put_dinode k di d)) j = d_addrs di j"
  unfolding get_dinode_def put_dinode_def dinode.simps get32_fold_put32
  by (simp_all add: get16_fold_put32 get16_put32 get32_put16 slot_halves)

section \<open>iupdate\<close>

lemma low_block:
  assumes "c < sb_bmapstart sb"
  shows "b < sb_size sb \<Longrightarrow> used sb (V(c := d)) b = used sb V b" and "wf_file sb V A \<Longrightarrow> slot_addr (V(c := d)) A = slot_addr V A"
    and "wf_file sb V A \<Longrightarrow> i < 71680 \<Longrightarrow> fbyte (V(c := d)) A i = fbyte V A i"
proof -
  show "b < sb_size sb \<Longrightarrow> used sb (V(c := d)) b = used sb V b"
    using BBLOCK_between(1) [of b sb] assms by (auto simp: used_def)
  have ne: "unat (slot_addr V A j) \<noteq> c" if "wf_file sb V A" "j < 141" "slot_addr V A j \<noteq> 0" for j
    using wf_fileD(1) [OF that] assms by (auto simp: data_block_def bmap_end_def)
  show sl: "slot_addr (V(c := d)) A = slot_addr V A" if "wf_file sb V A"
    using ne [OF that, of 140] by (auto simp: slot_addr_def fun_eq_iff)
  show "fbyte (V(c := d)) A i = fbyte V A i" if "wf_file sb V A" "i < 71680"
  proof -
    have "i div 512 < 141" using that(2) by simp
    then show ?thesis unfolding fbyte_def sl [OF that(1)] using ne [OF that(1)] by auto
  qed
qed

text \<open>A step that changes only the block of the inode, and parts of the inode other than its addresses.\<close>

definition inode_written :: "int \<Rightarrow> nat \<Rightarrow> nat \<Rightarrow> nat \<Rightarrow> fsst \<Rightarrow> fsst \<Rightarrow> bool" where
  "inode_written me ip k n s s' \<longleftrightarrow> fs_at me ip k n s' \<and> s' = s\<lparr>lg := lg s'\<rparr> \<and> same_log (lg s) (lg s') \<and>
     (\<exists>d. cview (lg s') = (cview (lg s))(IBLOCK (i_inum (icache s ip)) (fs_sb s) := put_dinode (i_inum (icache s ip) mod 8) (icache s ip) d))"

lemma iupdate_ok:
  assumes s: "fs_at me ip (Suc k) n s" and i: "i_inum (icache s ip) < sb_ninodes (fs_sb s)"
  shows "\<exists>l. iupdate me ip s = Inr (s\<lparr>lg := l\<rparr>) \<and>
    runs me {} k ((cview (lg s))(IBLOCK (i_inum (icache s ip)) (fs_sb s) := put_dinode (i_inum (icache s ip) mod 8) (icache s ip)
      (cview (lg s) (IBLOCK (i_inum (icache s ip)) (fs_sb s))))) (lg s) l"
proof -
  note f = fs_atD [OF s]
  let ?b = "IBLOCK (i_inum (icache s ip)) (fs_sb s)" and ?g = "put_dinode (i_inum (icache s ip) mod 8) (icache s ip)"
  have "i_inum (icache s ip) div 8 \<le> sb_ninodes (fs_sb s) div 8" using i by (simp add: div_le_mono)
  then have b: "sb_inodestart (fs_sb s) \<le> ?b" "?b < sb_bmapstart (fs_sb s)"
    using layoutD(5) [OF f(2)] by (simp_all add: IBLOCK_def)
  have bl: "?b \<notin> log_area (lg s)" using layoutD(4) [OF f(2) b(1)] .
  have "?b < disksize (lg s)" using b(2) layoutD(1,2,6) [OF f(2)] by simp
  then obtain bp l1 where t: "bread me 1 ?b (lg s) = Inr (bp, l1)" "taken me {} (Suc k) ?b (lg s) bp l1"
    using tx_bread [OF f(1), of ?b] by auto
  obtain l2 l3 where w: "log_write bp (upd_b bp (\<lambda>r. r\<lparr>b_data := ?g (b_data r)\<rparr>) l1) = Inr l2" "brelse me bp l2 = Inr l3"
      "runs me {} k ((cview (lg s))(?b := ?g (cview (lg s) ?b))) (lg s) l3"
    using taken_written [OF t(2) bl, of ?g] by blast
  have "iupdate me ip s = Inr (s\<lparr>lg := l3\<rparr>)"
    using t(1) w(1,2) f(3) by (simp add: iupdate_def from_log_def on_log_def set_bdata_def)
  then show ?thesis using w(3) by blast
qed

lemma fs_at_low:
  assumes s: "fs_at me ip k' n s" and b: "b < sb_bmapstart (fs_sb s)" and r: "runs me {} k ((cview (lg s))(b := d)) (lg s) l"
  shows "fs_at me ip k n (s\<lparr>lg := l\<rparr>)" and "i < 71680 \<Longrightarrow> file_view ip (s\<lparr>lg := l\<rparr>) i = file_view ip s i"
    and "has_blocks ip lo hi (s\<lparr>lg := l\<rparr>) = has_blocks ip lo hi s"
proof -
  note f = fs_atD [OF s] and lo = low_block [OF b] and v = runsD(2) [OF r]
  let ?V = "cview (lg s)" and ?sb = "fs_sb s" and ?A = "d_addrs (icache s ip)"
  have us: "used ?sb (?V(b := d)) c = used ?sb ?V c" if "c < sb_size ?sb" for c by (rule lo(1) [OF that])
  have sl: "slot_addr (?V(b := d)) ?A = slot_addr ?V ?A" by (rule lo(2) [OF f(4)])
  have "wf_file ?sb (?V(b := d)) ?A" using f(4) us unfolding wf_file_def sl data_block_def by blast
  moreover have "meta_used ?sb (?V(b := d))" using f(5) us layoutD(2) [OF f(2)] unfolding meta_used_def by simp
  moreover have "free_blocks ?sb (?V(b := d)) = free_blocks ?sb ?V" using us by (auto simp: free_blocks_def)
  ultimately show "fs_at me ip k n (s\<lparr>lg := l\<rparr>)"
    using f(2,3,6) runsD(1) [OF r] layout_runs [OF r] by (simp add: fs_at_def v)
  show "file_view ip (s\<lparr>lg := l\<rparr>) i = file_view ip s i" if "i < 71680"
    using lo(3) [OF f(4) that] by (simp add: file_view_def v)
  show "has_blocks ip lo hi (s\<lparr>lg := l\<rparr>) = has_blocks ip lo hi s" using sl by (simp add: has_blocks_def v)
qed

section \<open>The content of a file\<close>

definition content :: "nat \<Rightarrow> fsst \<Rightarrow> 8 word list" where
  "content ip s = map (file_view ip s) [0..<unat (d_size (icache s ip))]"

text \<open>A file, not a device, that is locked inside a transaction and has all the blocks of its size.\<close>

definition file_ok :: "int \<Rightarrow> nat \<Rightarrow> nat \<Rightarrow> nat \<Rightarrow> fsst \<Rightarrow> bool" where
  "file_ok me ip k n s \<longleftrightarrow> fs_at me ip k n s \<and> unat (d_size (icache s ip)) \<le> 71680 \<and>
     has_blocks ip 0 (unat (d_size (icache s ip))) s \<and> d_type (icache s ip) \<noteq> T_DEV \<and>
     i_inum (icache s ip) < sb_ninodes (fs_sb s)"

lemma file_okD:
  assumes "file_ok me ip k n s"
  shows "fs_at me ip k n s" and "unat (d_size (icache s ip)) \<le> 71680" and "has_blocks ip 0 (unat (d_size (icache s ip))) s"
    and "d_type (icache s ip) \<noteq> T_DEV" and "i_inum (icache s ip) < sb_ninodes (fs_sb s)"
  using assms unfolding file_ok_def by blast+

lemma length_content [simp]: "length (content ip s) = unat (d_size (icache s ip))"
  by (simp add: content_def)

lemma unat_add_le:
  fixes a b :: u32
  assumes "unat a + unat b < 2 ^ 32"
  shows "unat (a + b) = unat a + unat b" and "\<not> a + b < a"
proof -
  show u: "unat (a + b) = unat a + unat b" using assms by (simp add: unat_word_ariths)
  show "\<not> a + b < a" unfolding word_less_nat_alt u by simp
qed

lemma sint_small:
  fixes w :: u32
  assumes "unat w < 2 ^ 31"
  shows "sint w = int (unat w)"
proof -
  have u: "uint w = int (unat w)" by simp
  have "0 \<le> uint w" by simp
  then have "- (2 ^ 31) \<le> uint w" by (rule order_trans [rotated]) simp
  moreover have "uint w < 2 ^ 31" using assms unfolding u by (metis of_nat_less_iff of_nat_numeral of_nat_power)
  ultimately show ?thesis by (simp add: sint_uint signed_take_bit_int_eq_self)
qed

lemma has_blocks_mono: "has_blocks ip lo hi s \<Longrightarrow> lo \<le> lo' \<Longrightarrow> hi' \<le> hi \<Longrightarrow> has_blocks ip lo' hi' s"
  unfolding has_blocks_def by auto

lemma readi_ok:
  assumes s: "file_ok me ip k q s" and off: "unat off \<le> unat (d_size (icache s ip))" and n: "unat off + unat n < 2 ^ 32"
  shows "\<exists>s'. readi me ip off n s = Inr (int (length (take (unat n) (drop (unat off) (content ip s)))), take (unat n) (drop (unat off) (content ip s)), s') \<and>
    calm me k s s'"
proof -
  note f = file_okD [OF s] and un = unat_add_le [OF n]
  let ?r = "icache s ip"
  define n1 where "n1 = (if off + n > d_size ?r then d_size ?r - off else n)"
  have le: "off \<le> d_size ?r" using off by (simp add: word_le_nat_alt)
  have n1: "unat n1 = min (unat n) (unat (d_size ?r) - unat off)"
    using off le un(1) by (auto simp: n1_def word_less_nat_alt unat_sub)
  then have room: "unat off + unat n1 \<le> unat (d_size ?r)" using off by simp
  obtain s' where s': "readi_loop me ip (unat off) (unat n1) s = Inr (map (file_view ip s) [unat off..<unat off + unat n1], s')" "calm me k s s'"
    using readi_loop_ok [OF f(1) _ has_blocks_mono [OF f(3) le0 room]] room f(2) by auto
  have "take (unat n) (drop (unat off) (content ip s)) = map (file_view ip s) [unat off..<unat off + unat n1]"
    using off by (simp add: content_def n1 drop_map take_map drop_upt take_upt min_def)
  moreover have "sint n1 = int (unat n1)" by (rule sint_small) (use room f(2) in simp)
  ultimately show ?thesis
    using s' f(4) le un(2) by (auto simp: readi_def Let_def n1_def [symmetric] not_le not_less)
qed

text \<open>The inode on the disk agrees with the one in memory.\<close>

definition on_disk :: "nat \<Rightarrow> fsst \<Rightarrow> bool" where
  "on_disk ip s \<longleftrightarrow>
     (let r = icache s ip; di = get_dinode (i_inum r mod 8) (cview (lg s) (IBLOCK (i_inum r) (fs_sb s))) in
      d_type di = d_type r \<and> d_major di = d_major r \<and> d_minor di = d_minor r \<and> d_nlink di = d_nlink r \<and>
      d_size di = d_size r \<and> (\<forall>j<13. d_addrs di j = d_addrs r j))"

definition set_size :: "nat \<Rightarrow> u32 \<Rightarrow> fsst \<Rightarrow> fsst" where
  "set_size ip w s = upd_i ip (\<lambda>r. r\<lparr>d_size := w\<rparr>) s"

lemma set_size_simps [simp]:
  "fs_at me ip k n (set_size ip w s) = fs_at me ip k n s" "file_view ip (set_size ip w s) = file_view ip s"
  "has_blocks ip lo hi (set_size ip w s) = has_blocks ip lo hi s" "lg (set_size ip w s) = lg s" "fs_sb (set_size ip w s) = fs_sb s"
  "icache (set_size ip w s) ip = (icache s ip)\<lparr>d_size := w\<rparr>"
  by (simp_all add: set_size_def upd_i_def fs_at_def file_view_def has_blocks_def)

text \<open>The end of \<open>writei\<close>, when the file has grown.\<close>

lemma grow_ok:
  assumes s: "fs_at me ip (Suc k) n s" and i: "i_inum (icache s ip) < sb_ninodes (fs_sb s)" and w: "unat w \<le> 71680"
    and hb: "has_blocks ip 0 (unat w) s" and dev: "d_type (icache s ip) \<noteq> T_DEV"
  shows "\<exists>s'. iupdate me ip (set_size ip w s) = Inr s' \<and> file_ok me ip k n s' \<and> on_disk ip s' \<and> d_size (icache s' ip) = w \<and>
    (\<forall>i<71680. file_view ip s' i = file_view ip s i) \<and> outside ip s s'"
proof -
  let ?s = "set_size ip w s"
  have s2: "fs_at me ip (Suc k) n ?s" using s by simp
  have i2: "i_inum (icache ?s ip) < sb_ninodes (fs_sb ?s)" using i by simp
  let ?b = "IBLOCK (i_inum (icache ?s ip)) (fs_sb ?s)"
  obtain l where u: "iupdate me ip ?s = Inr (?s\<lparr>lg := l\<rparr>)"
      and r: "runs me {} k ((cview (lg ?s))(?b := put_dinode (i_inum (icache ?s ip) mod 8) (icache ?s ip) (cview (lg ?s) ?b))) (lg ?s) l"
    using iupdate_ok [OF s2 i2] by blast
  have "i_inum (icache s ip) div 8 \<le> sb_ninodes (fs_sb s) div 8" using i by (simp add: div_le_mono)
  then have b: "?b < sb_bmapstart (fs_sb ?s)" using layoutD(5) [OF fs_atD(2) [OF s]] by (simp add: IBLOCK_def)
  note lo = fs_at_low [OF s2 b r] and v = runsD(2) [OF r] and lb = low_block [OF b]
  have "file_ok me ip k n (?s\<lparr>lg := l\<rparr>)" using lo(1,3) hb w dev i by (simp add: file_ok_def)
  moreover have "on_disk ip (?s\<lparr>lg := l\<rparr>)" unfolding on_disk_def Let_def by (simp add: v get_put_dinode)
  moreover have "outside ip s (?s\<lparr>lg := l\<rparr>)"
  proof -
    have sl: "slot_addr (cview l) (d_addrs (icache s ip)) = slot_addr (cview (lg s)) (d_addrs (icache s ip))"
      using lb(2) fs_atD(4) [OF s] by (simp add: v)
    have "file_blocks (cview l) (d_addrs (icache s ip)) = file_blocks (cview (lg s)) (d_addrs (icache s ip))"
      by (simp only: file_blocks_def sl)
    moreover have "cview l c = cview (lg s) c" if "c \<noteq> IBLOCK (i_inum (icache s ip)) (fs_sb s)" for c using that by (simp add: v)
    moreover have "c \<noteq> IBLOCK (i_inum (icache s ip)) (fs_sb s)" if "data_block (fs_sb s) V c" for V c
      using that b by (auto simp: data_block_def bmap_end_def)
    moreover have "used (fs_sb s) (cview l) c = used (fs_sb s) (cview (lg s)) c" if "c < sb_size (fs_sb s)" for c
      using lb(1) that by (simp add: v)
    ultimately show ?thesis unfolding outside_def Let_def by (simp add: set_size_def upd_i_def)
  qed
  ultimately show ?thesis using u lo(2) by auto
qed

lemma writei_ok:
  assumes s: "file_ok me ip (k + 6 * nblk (unat off) (length src) + 1) (n + 2 * nblk (unat off) (length src)) s"
    and off: "unat off \<le> unat (d_size (icache s ip))" and src: "unat off + length src \<le> 71680"
  shows "\<exists>s'. writei me ip off src s = Inr (int (length src), s') \<and> file_ok me ip k n s' \<and> outside ip s s' \<and>
    content ip s' = take (unat off) (content ip s) @ src @ drop (unat off + length src) (content ip s) \<and>
    (unat (d_size (icache s ip)) < unat off + length src \<longrightarrow> on_disk ip s')"
proof -
  note f = file_okD [OF s]
  let ?w = "off + of_nat (length src) :: u32" and ?sz = "unat (d_size (icache s ip))"
  have un: "unat (of_nat (length src) :: u32) = length src" using src by (simp add: unsigned_of_nat take_bit_nat_eq_self)
  have w: "unat ?w = unat off + length src" "\<not> ?w < off" using unat_add_le [of off "of_nat (length src)"] src un by auto
  have len: "sint (of_nat (length src) :: u32) = int (length src)" using sint_small [of "of_nat (length src)"] un src by simp
  have "fs_at me ip ((k + 1) + 6 * nblk (unat off) (length src)) (n + 2 * nblk (unat off) (length src)) s"
    by (rule fs_at_mono [OF f(1)]) simp_all
  then obtain s1 where l: "writei_loop me ip (unat off) src s = Inr s1" and at: "fs_at me ip (k + 1) n s1" and rw: "rewrote ip (unat off) src s s1"
    using writei_loop_ok [of me ip "k + 1" "unat off" src n s] src by blast
  note a = rewroteD [OF rw]
  have e: "icache s1 ip = (icache s ip)\<lparr>d_addrs := d_addrs (icache s1 ip)\<rparr>" using same_butD(4) [OF a(1)] .
  have sz1: "d_size (icache s1 ip) = d_size (icache s ip)" "d_type (icache s1 ip) = d_type (icache s ip)" "i_inum (icache s1 ip) = i_inum (icache s ip)"
    using arg_cong [OF e, of d_size] arg_cong [OF e, of d_type] arg_cong [OF e, of i_inum] by simp_all
  have old: "has_blocks ip 0 ?sz s1" using f(3) a(3) unfolding has_blocks_def keeps_blocks_def by blast
  have wr: "writei me ip off src s = (if ?sz < unat off + length src
      then rbind (iupdate me ip (set_size ip ?w s1)) (\<lambda>s2. Inr (int (length src), s2)) else Inr (int (length src), s1))"
  proof -
    have "off + of_nat (length src) > d_size (icache s1 ip) \<longleftrightarrow> ?sz < unat off + length src"
      unfolding word_less_nat_alt w(1) sz1 ..
    moreover have "\<not> 71680 < ?w" "\<not> d_size (icache s ip) < off" using src off unfolding word_less_nat_alt w(1) by simp_all
    moreover have "(0 :: u32) < of_nat (length src) \<longleftrightarrow> 0 < length src" unfolding word_less_nat_alt un by simp
    ultimately show ?thesis
      using f(4) w(2) l len off by (auto simp: writei_def Let_def set_size_def)
  qed
  have ct: "map (file_view ip s1) [0..<max ?sz (unat off + length src)] =
      take (unat off) (content ip s) @ src @ drop (unat off + length src) (content ip s)" (is "?l = ?r")
  proof (rule nth_equalityI)
    show "length ?l = length ?r" using off by auto
    fix i assume "i < length ?l"
    then have i: "i < 71680" "i < max ?sz (unat off + length src)" using src f(2) by auto
    show "?l ! i = ?r ! i" using a(5) [OF i(1)] i(2) off by (auto simp: nth_append content_def)
  qed
  show ?thesis
  proof (cases "?sz < unat off + length src")
    case False
    have "file_ok me ip k n s1"
      using fs_at_mono [OF at, of k n] old f(2,4,5) sz1 same_butD(2) [OF a(1)] by (simp add: file_ok_def)
    moreover have "content ip s1 = map (file_view ip s1) [0..<max ?sz (unat off + length src)]" using False by (simp add: content_def sz1 max_def)
    ultimately show ?thesis using wr False a(2) ct by simp
  next
    case True
    then have ne: "src \<noteq> []" using off by auto
    have hb: "has_blocks ip 0 (unat ?w) s1"
      unfolding has_blocks_def w(1)
    proof (intro allI impI)
      fix j :: nat assume j: "j < 140" "0 < 512 * (j + 1)" "512 * j < unat off + length src"
      show "slot_addr (cview (lg s1)) (d_addrs (icache s1 ip)) j \<noteq> 0"
      proof (cases "512 * j < ?sz")
        case True
        then show ?thesis using old j(1) unfolding has_blocks_def by simp
      next
        case False
        then show ?thesis using a(4) [OF ne] j off unfolding has_blocks_def by simp
      qed
    qed
    have "fs_at me ip (Suc k) n s1" using at by simp
    then obtain s' where s': "iupdate me ip (set_size ip ?w s1) = Inr s'" "file_ok me ip k n s'" "on_disk ip s'"
        "d_size (icache s' ip) = ?w" "\<forall>i<71680. file_view ip s' i = file_view ip s1 i" "outside ip s1 s'"
      using grow_ok [of me ip k n s1 ?w] f(4,5) sz1 same_butD(2) [OF a(1)] src w(1) hb by auto
    have "content ip s' = map (file_view ip s1) [0..<max ?sz (unat off + length src)]"
      using s'(5) src True by (auto simp: content_def s'(4) w(1) max_def)
    then show ?thesis using wr True s' ct outside_trans [OF a(2,1) s'(6)] by simp
  qed
qed

end
