(* ===== verification/FsProps.thy ===== *)
theory FsProps
  imports FsContent FsCache LogProps
begin

text \<open>
  The promises of the file system to its callers, inside a transaction: allocation, reading and writing
  of a file, and the refusals of a write that does not fit. The witnesses run on a small disk.
\<close>

section \<open>A small disk\<close>

definition small_sb :: superblock where
  "small_sb = \<lparr>sb_size = 100, sb_nblocks = 65, sb_ninodes = 8, sb_nlog = 30, sb_logstart = 2, sb_inodestart = 32,
     sb_bmapstart = 34\<rparr>"

definition small_disk :: "nat \<Rightarrow> block" where
  "small_disk = (\<lambda>b i. if b = 34 then if i < 4 then 0xFF else if i = 4 then 0x07 else 0 else 0)"

definition empty_inode :: inode where
  "empty_inode = \<lparr>d_type = T_FILE, d_major = 0, d_minor = 0, d_nlink = 1, d_size = 0, d_addrs = (\<lambda>_. 0), i_dev = 1, i_inum = 1,
     i_ref = 1, i_locked = True, i_pid = 0, i_valid = True\<rparr>"

definition small_fs :: "logst \<Rightarrow> fsst" where
  "small_fs l = \<lparr>lg = l, fs_sb = small_sb, icache = (\<lambda>_. empty_inode), dev_read = (\<lambda>_. None), dev_write = (\<lambda>_. None)\<rparr>"

lemma small_disk_log: "head_n 2 small_disk = 0"
  by (simp add: head_n_def small_disk_def get32_def)

lemma small_disk_ok: "disk_ok 2 30 1000 small_disk"
  by (rule disk_ok_empty [OF small_disk_log]) simp_all

lemma small_used:
  assumes "b < 100" and "V 34 = small_disk 34"
  shows "used small_sb V b \<longleftrightarrow> b < 35"
proof -
  have e: "BBLOCK b small_sb = 34" using assms(1) by (simp add: BBLOCK_def small_sb_def)
  have m: "b mod 4096 = b" using assms(1) by simp
  have full: "bit (0xFF :: int) n \<longleftrightarrow> n < 8" "bit (7 :: int) n \<longleftrightarrow> n < 3" for n
  proof -
    have m: "(0xFF :: int) = mask 8" "(7 :: int) = mask 3" by (simp_all add: mask_eq_exp_minus_1)
    show "bit (0xFF :: int) n \<longleftrightarrow> n < 8" "bit (7 :: int) n \<longleftrightarrow> n < 3"
      unfolding m bit_mask_iff by auto
  qed
  have "b div 8 = 4 \<Longrightarrow> b mod 8 < 3 \<longleftrightarrow> b < 35" using mult_div_mod_eq [of 8 b] by (simp, linarith)
  then show ?thesis
    by (auto simp: used_def e m bit_used_bit assms(2) small_disk_def full)
qed

text \<open>A transaction on the small disk after a boot, with one empty file.\<close>

lemma small_file_ok:
  "\<exists>l. boot_log 0 2 30 1000 small_disk = Inr (l\<lparr>outstanding := 0\<rparr>) \<and> file_ok 0 0 29 20 (small_fs l) \<and>
    free_blocks small_sb (cview l) = {35..<100}"
proof -
  obtain s where s: "boot_log 0 2 30 1000 small_disk = Inr s" "log_ok 0 s" "lh_n s = 0" "outstanding s = 0"
      "\<not> committing s" "l_start s = 2" "l_size s = 30" "disksize s = 1000"
      "disk s = small_disk(2 := put32 (small_disk 2) 0 0)"
    using boot_log_ok [OF small_disk_ok, of 0] by (auto simp: empty_log [OF small_disk_log])
  let ?l = "s\<lparr>outstanding := 1\<rparr>"
  have t: "tx 0 {} 29 ?l" using s by (simp add: tx_def log_ok_at [symmetric])
  have dt: "dirty_set s = {}" using log_okD(9) [OF s(2)] s(3) by simp
  have v: "cview s = disk s" using cview_clean [OF log_okD(1) [OF s(2)]] dt by (auto simp: fun_eq_iff)
  have us: "used small_sb (cview ?l) b \<longleftrightarrow> b < 35" if "b < 100" for b
    by (rule small_used [OF that]) (simp add: v s(9))
  have sz: "sb_size small_sb = 100" by (simp add: small_sb_def)
  have fr: "free_blocks small_sb (cview ?l) = {35..<100}"
    using us unfolding free_blocks_def sz by auto
  then have "20 \<le> card (free_blocks small_sb (cview ?l))" by simp
  moreover have "wf_file small_sb (cview ?l) (\<lambda>_. 0)" by (simp add: wf_file_def slot_addr_def)
  moreover have "meta_used small_sb (cview ?l)" using us by (auto simp: meta_used_def bmap_end_def small_sb_def)
  moreover have "layout small_sb ?l" by (simp add: layout_def s small_sb_def bmap_end_def)
  ultimately have "fs_at 0 0 29 20 (small_fs ?l)" using t by (simp add: fs_at_def small_fs_def empty_inode_def)
  then have "file_ok 0 0 29 20 (small_fs ?l)"
    by (simp add: file_ok_def has_blocks_def) (simp add: small_fs_def empty_inode_def small_sb_def T_FILE_def T_DEV_def)
  moreover have "s\<lparr>outstanding := 0\<rparr> = s" using s(4) by simp
  ultimately show ?thesis using s(1) fr by (intro exI [of _ ?l]) simp
qed

section \<open>Reading and writing\<close>


text \<open>
  C5: \<open>readi\<close> on a locked file gives the bytes of its content from the offset on, at most \<open>n\<close> of them and
  none behind the end, and changes nothing that the process sees of the disk.
\<close>

theorem readi_content:
  assumes "file_ok me ip k q s" and "unat off \<le> unat (d_size (icache s ip))" and "unat off + unat n < 2 ^ 32"
  shows "\<exists>s'. readi me ip off n s = Inr (int (length (take (unat n) (drop (unat off) (content ip s)))),
      take (unat n) (drop (unat off) (content ip s)), s') \<and>
    file_ok me ip k q s' \<and> content ip s' = content ip s \<and> cview (lg s') = cview (lg s)"
proof -
  obtain s' where s': "readi me ip off n s = Inr (int (length (take (unat n) (drop (unat off) (content ip s)))),
      take (unat n) (drop (unat off) (content ip s)), s')" "calm me k s s'"
    using readi_ok [OF assms] by blast
  note c = calmD [OF s'(2)] and f = calm_fs_at [OF s'(2) file_okD(1) [OF assms(1)]]
  have "file_ok me ip k q s'" using assms(1) f c by (simp add: file_ok_def)
  moreover have "content ip s' = content ip s" using f(2) c(3) by (simp add: content_def)
  ultimately show ?thesis using s'(1) c(2) by blast
qed

text \<open>Both on the small disk: five bytes written into the empty file, and three read from offset 1.\<close>

lemma small_write:
  assumes "file_ok 0 0 29 20 s" and "d_size (icache s 0) = 0"
  shows "\<exists>s'. writei 0 0 0 [1, 2, 3, 4, 5] s = Inr (5, s') \<and> file_ok 0 0 22 18 s' \<and> content 0 s' = [1, 2, 3, 4, 5]"
  using writei_ok [of 0 0 22 0 "[1, 2, 3, 4, 5]" 18 s] assms by (auto simp: nblk_def content_def)


theorem readi_content_witness:
  "\<exists>l s1 s2. boot_log 0 2 30 1000 small_disk = Inr (l\<lparr>outstanding := 0\<rparr>) \<and>
    writei 0 0 0 [1, 2, 3, 4, 5] (small_fs l) = Inr (5, s1) \<and> readi 0 0 1 3 s1 = Inr (3, [2, 3, 4], s2)"
proof -
  obtain l where l: "boot_log 0 2 30 1000 small_disk = Inr (l\<lparr>outstanding := 0\<rparr>)" "file_ok 0 0 29 20 (small_fs l)"
    using small_file_ok by blast
  have z: "d_size (icache (small_fs l) 0) = 0" by (simp add: small_fs_def empty_inode_def)
  obtain s1 where s1: "writei 0 0 0 [1, 2, 3, 4, 5] (small_fs l) = Inr (5, s1)" "file_ok 0 0 22 18 s1"
      "content 0 s1 = [1, 2, 3, 4, 5]"
    using small_write [OF l(2) z] by blast
  have "unat (d_size (icache s1 0)) = 5" using arg_cong [OF s1(3), of length] by simp
  then show ?thesis using readi_content [OF s1(2), of 1 3] s1 l(1) by auto
qed

section \<open>Allocation\<close>

text \<open>
  C21: \<open>balloc\<close> takes the first block that the bitmap says is free, marks it, fills it with zeros and
  changes no other block that is in use; \<open>bfree\<close> of it brings the bitmap back; and a second \<open>bfree\<close>
  panics.
\<close>

theorem balloc_bfree:
  assumes t: "tx me {} (k + 4) s" and l: "layout sb s" and m: "meta_used sb (cview s)" and f: "free_blocks sb (cview s) \<noteq> {}"
  shows "\<exists>b s1 s2. balloc me sb 1 s = Inr (b, s1) \<and> b = Min (free_blocks sb (cview s)) \<and> cview s1 b = (\<lambda>_. 0) \<and>
    free_blocks sb (cview s1) = free_blocks sb (cview s) - {b} \<and> (\<forall>c. data_block sb (cview s) c \<longrightarrow> cview s1 c = cview s c) \<and>
    bfree me sb 1 b s1 = Inr s2 \<and> free_blocks sb (cview s2) = free_blocks sb (cview s) \<and>
    bfree me sb 1 b s2 = Inl (Panic ''freeing free block'')"
proof -
  have t2: "tx me {} (Suc (Suc (k + 2))) s" by (rule tx_mono [OF t]) simp
  obtain b s1 where b: "balloc me sb 1 s = Inr (b, s1)" "b < sb_size sb" "\<not> used sb (cview s) b" "bmap_end sb \<le> b"
      "\<forall>c<b. used sb (cview s) c" and r: "runs me {} (k + 2) (fresh_view sb b (cview s)) s s1"
    using balloc_ok [OF t2 l m _ _ f] by auto
  note r1 = runsD [OF r]
  have min: "b = Min (free_blocks sb (cview s))"
    by (rule Min_eqI [symmetric]) (use b(2,3,5) in \<open>auto simp: free_blocks_def not_less [symmetric]\<close>)
  have l1: "layout sb s1" using layout_runs [OF r] l by simp
  have u1: "used sb (cview s1) b" using fresh_view_used [OF b(4,2), of "cview s"] r1(2) by simp
  have h: "holds_data sb {} x" for x by (simp add: holds_data_def)
  have t1: "tx me {} (Suc (k + 1)) s1" using r1(1) by simp
  obtain s2 where s2: "bfree me sb 1 b s1 = Inr s2" "runs me {} (k + 1) (mark_free sb b (cview s1)) s1 s2"
    using bfree_ok(1) [OF t1 l1 h _ b(2) u1] by auto
  note r2 = runsD [OF s2(2)]
  have u2: "\<not> used sb (cview s2) b" using r2(2) by simp
  have l2: "layout sb s2" using layout_runs [OF s2(2)] l1 by simp
  have "bfree me sb 1 b s2 = Inl (Panic ''freeing free block'')"
    using bfree_ok(2) [OF _ l2 h _ b(2) u2, of me k] r2(1) by simp
  moreover have "free_blocks sb (cview s1) = free_blocks sb (cview s) - {b}" using free_fresh_view [OF b(4)] r1(2) by simp
  moreover from this have "free_blocks sb (cview s2) = free_blocks sb (cview s)"
    using b(2,3) r2(2) by (auto simp: free_blocks_def)
  moreover have "cview s1 c = cview s c" if "data_block sb (cview s) c" for c
    using fresh_view_other [OF b(2), of c] that b(3) r1(2) by (auto simp: data_block_def)
  ultimately show ?thesis using b(1) min s2(1) r1(2) by auto
qed

theorem balloc_bfree_witness:
  "\<exists>l s1. boot_log 0 2 30 1000 small_disk = Inr (l\<lparr>outstanding := 0\<rparr>) \<and> balloc 0 small_sb 1 l = Inr (35, s1) \<and>
    bfree 0 small_sb 1 35 s1 \<noteq> Inl (Panic ''freeing free block'')"
proof -
  obtain l where l: "boot_log 0 2 30 1000 small_disk = Inr (l\<lparr>outstanding := 0\<rparr>)" "file_ok 0 0 29 20 (small_fs l)"
      "free_blocks small_sb (cview l) = {35..<100}"
    using small_file_ok by blast
  note f = fs_atD [OF file_okD(1) [OF l(2)]]
  have s: "lg (small_fs l) = l" "fs_sb (small_fs l) = small_sb" by (simp_all add: small_fs_def)
  have "Min {35..<100 :: nat} = 35" by (rule Min_eqI) auto
  then show ?thesis using balloc_bfree [of 0 25 l small_sb] f(1,2,5) l(1,3) unfolding s by auto
qed

section \<open>Pointers to inodes\<close>

definition idle_inode :: inode where
  "idle_inode = empty_inode\<lparr>i_ref := 0, i_locked := False, i_valid := False\<rparr>"

lemma iget_fails:
  "(\<exists>e. iget dev inum s = Inl e) \<longleftrightarrow>
     (\<forall>i<50. i_ref (icache s i) \<noteq> 0 \<and> \<not> (0 < i_ref (icache s i) \<and> i_dev (icache s i) = dev \<and> i_inum (icache s i) = inum))"
proof (cases "List.find (\<lambda>i. i_ref (icache s i) > 0 \<and> i_dev (icache s i) = dev \<and> i_inum (icache s i) = inum) [0..<50]")
  case None
  then show ?thesis
    by (auto simp: iget_def find_None_all split: option.splits dest!: find_SomeD)
next
  case (Some k)
  then show ?thesis using find_SomeD [OF Some] by (auto simp: iget_def)
qed

text \<open>
  From a boot on, whatever sequence of iget, idup and iput the users of the inode cache make, each
  entry counts exactly the pointers to it that are out, so an entry with a pointer out is not reused;
  two entries in use never hold the same inode; and iget panics only when there are pointers out to
  all 50 entries and the inode has no entry.
\<close>

theorem inode_refs_exact:
  assumes boot: "\<forall>i<50. i_ref (icache s i) = 0" and run: "run_refs iget_key idup_ref iput es {#} s = Inr (M, s')"
  shows "inode_count s' = (\<lambda>i. int (count M i)) \<and> icache_ok s' \<and>
    ((\<exists>e. iget dev inum s' = Inl e) \<longleftrightarrow>
      set_mset M = {..<50} \<and> (\<forall>i<50. i_dev (icache s' i) = dev \<longrightarrow> i_inum (icache s' i) \<noteq> inum))"
proof -
  have "inode_table.exact {#} s"
    using boot by (auto intro!: inode_table.exactI simp: icache_ok_def inode_count_def)
  then have e: "inode_table.exact M s'" using run by (rule inode_table.run_exact)
  note d = inode_table.exactD [OF e]
  have c: "inode_count s' = (\<lambda>i. int (count M i))" and ok: "icache_ok s'" using d by (simp_all add: fun_eq_iff)
  have live: "i \<in># M \<longleftrightarrow> i < 50 \<and> 0 < i_ref (icache s' i)" for i
    using inode_table.live [OF e] by (simp add: inode_count_def)
  then have "set_mset M = {..<50} \<longleftrightarrow> (\<forall>i<50. 0 < i_ref (icache s' i))" by auto
  moreover have "i_ref (icache s' i) \<noteq> 0 \<longleftrightarrow> 0 < i_ref (icache s' i)" if "i < 50" for i
    using icache_okD(1) [OF ok that] by auto
  ultimately have "(\<exists>e. iget dev inum s' = Inl e) \<longleftrightarrow>
      set_mset M = {..<50} \<and> (\<forall>i<50. i_dev (icache s' i) = dev \<longrightarrow> i_inum (icache s' i) \<noteq> inum)"
    unfolding iget_fails by auto
  then show ?thesis using c ok by blast
qed

text \<open>Two pointers to inode 1, one to inode 2, one given back.\<close>

lemma inode_refs_exact_witness:
  "\<forall>l. \<exists>s'. run_refs iget_key idup_ref iput [Take_ref (1, 1), Take_ref (1, 2), Copy_ref 0, Give_ref 7 1]
      {#} (small_fs l\<lparr>icache := \<lambda>_. idle_inode\<rparr>) = Inr ({#0, 0#}, s') \<and> inode_count s' 0 = 2 \<and> inode_count s' 1 = 0"
proof
  fix l
  let ?s = "small_fs l\<lparr>icache := \<lambda>_. idle_inode\<rparr>" and ?es = "[Take_ref (1, 1), Take_ref (1, 2), Copy_ref 0, Give_ref 7 1]"
  have u: "[0..<50] = 0 # 1 # [2..<50]" by (simp add: upt_conv_Cons)
  have n: "(\<forall>x\<in>set xs. \<not> P x) \<Longrightarrow> List.find P xs = None" for P :: "nat \<Rightarrow> bool" and xs by (simp add: find_None_iff)
  obtain s' where r: "run_refs iget_key idup_ref iput ?es {#} ?s = Inr ({#0, 0#}, s')"
    by (simp add: u n iget_key_def idup_ref_def idup_def iget_def iput_def lock_inode_def unlock_inode_def upd_i_def
        idle_inode_def empty_inode_def)
  have "\<forall>i<50. i_ref (icache ?s i) = 0" by (simp add: idle_inode_def)
  from inode_refs_exact [OF this r] show "\<exists>s'. run_refs iget_key idup_ref iput ?es {#} ?s = Inr ({#0, 0#}, s') \<and>
      inode_count s' 0 = 2 \<and> inode_count s' 1 = 0"
    using r by auto
qed

end
