(* ===== verification/SysProps.thy ===== *)
theory SysProps
  imports SysCalls FsProps
begin

text \<open>
  The system as steps, and what holds in all its states: the counts of files and inodes are those of the
  descriptors and directories that point to them, and no pipe in use has lost its page.
\<close>

section \<open>The steps\<close>

text \<open>The entries of \<open>syscalls\<close> that work on files, by number.\<close>

definition file_calls :: "name \<Rightarrow> (nat \<times> (nat \<Rightarrow> sysst \<Rightarrow> (int option \<times> sysst) result)) list" where
  "file_calls junk =
     [(4, sys_pipe), (5, sys_read), (8, sys_fstat), (9, sys_chdir junk), (10, sys_dup), (15, sys_open junk),
      (16, sys_write), (17, sys_mknod junk), (18, sys_unlink junk), (19, sys_link junk), (20, sys_mkdir junk), (21, sys_close)]"

text \<open>
  A step: a call of a process, other user code and kernel code that leaves the files alone, a \<open>fork\<close>
  into an empty slot, an \<open>exit\<close>, or the start of the first process in the root directory.
\<close>

inductive sys_step :: "sysst \<Rightarrow> sysst \<Rightarrow> bool" where
  call: "map_of (file_calls junk) num = Some f \<Longrightarrow> p < 64 \<Longrightarrow> f p s = Inr (r, s') \<Longrightarrow> sys_step s s'"
| user: "sys_step s (upd_u p (\<lambda>u. u\<lparr>u_sz := n, u_esp := e, u_mem := m, u_pid := i, u_killed := k\<rparr>) s)"
| fork: "p < 64 \<Longrightarrow> c < 64 \<Longrightarrow> c \<noteq> p \<Longrightarrow> \<forall>fd<16. u_ofile (uprocs s c) fd = None \<Longrightarrow> u_cwd (uprocs s c) = None \<Longrightarrow>
    fork_files p c s = Inr s' \<Longrightarrow> sys_step s s'"
| exit: "p < 64 \<Longrightarrow> exit_files p s = Inr s' \<Longrightarrow> sys_step s s'"
| start: "p < 64 \<Longrightarrow> u_cwd (uprocs s p) = None \<Longrightarrow> namei me None [slash] junk (fs s) = Inr (Some ip, x) \<Longrightarrow>
    sys_step s (upd_u p (\<lambda>u. u\<lparr>u_cwd := Some ip\<rparr>) (s\<lparr>fs := x\<rparr>))"

definition boot_sys :: "sysst \<Rightarrow> bool" where
  "boot_sys s \<longleftrightarrow> (\<forall>k<100. f_ref (ftable s k) = 0 \<and> f_type (ftable s k) = FD_NONE) \<and> (\<forall>i<50. i_ref (icache (fs s) i) = 0) \<and>
     (\<forall>p<64. (\<forall>fd<16. u_ofile (uprocs s p) fd = None) \<and> u_cwd (uprocs s p) = None) \<and>
     distinct (freepages s) \<and> (\<forall>a. pipes s a = None)"

inductive sys_reach :: "sysst \<Rightarrow> bool" where
  boot: "boot_sys s \<Longrightarrow> sys_reach s"
| step: "sys_reach s \<Longrightarrow> sys_step s s' \<Longrightarrow> sys_reach s'"

lemma boot_sys_ok:
  assumes "boot_sys s"
  shows "sys_ok s"
proof (rule sys_okI)
  have e: "\<not> pipe_end s k a w" for k a w using assms by (auto simp: boot_sys_def pipe_end_def)
  have "pipes_ok s" by (rule pipes_okI) (use assms in \<open>auto simp: e boot_sys_def\<close>)
  moreover have "file_inodes s = {#}" unfolding file_inodes_def
    by (rule sum.neutral) (use assms in \<open>auto simp: boot_sys_def file_inode_def\<close>)
  moreover have "held {#} (fs s)"
    by (rule inode_table.exactI) (use assms in \<open>auto simp: boot_sys_def icache_ok_def inode_count_def\<close>)
  ultimately show "files {#} {#} s"
    using assms by (auto intro!: file_table.exactI simp: files_ok_def boot_sys_def file_count_def)
  show "open_fds s = {#}" unfolding open_fds_def fds_of_def
    by (rule sum.neutral, clarify, rule sum.neutral) (use assms in \<open>auto simp: boot_sys_def\<close>)
  show "cwds s = {#}" unfolding cwds_def
    by (rule sum.neutral) (use assms in \<open>auto simp: boot_sys_def\<close>)
qed

lemma call_ok:
  assumes "map_of (file_calls junk) num = Some f" and "p < 64" and "sys_ok s"
  shows "keeps_ok (f p s)"
proof -
  have "f \<in> snd ` set (file_calls junk)" using map_of_SomeD [OF assms(1)] by force
  then show ?thesis
    using sys_pipe_ok sys_read_ok sys_fstat_ok sys_chdir_ok sys_dup_ok sys_open_ok sys_write_ok sys_mknod_ok
      sys_unlink_ok sys_link_ok sys_mkdir_ok sys_close_ok assms(2,3)
    unfolding file_calls_def by auto
qed

lemma sys_step_ok: "sys_step s s' \<Longrightarrow> sys_ok s \<Longrightarrow> sys_ok s'"
proof (induction rule: sys_step.induct)
  case (call junk num f p s r s')
  then show ?case using call_ok keeps_okD by blast
next
  case (fork p c s s')
  then show ?case using fork_files_ok [of s p c] by (auto dest: givesD)
next
  case (exit p s s')
  then show ?case using exit_files_ok [of s p] by (auto dest: givesD)
next
  case (start p s me junk ip x)
  note s = sys_okD [OF start(4)]
  have "gives (namei me None [slash] junk (fs s)) (\<lambda>(q, x). held (opt_ref q + (file_inodes s + cwds s)) x)"
    by (rule namei_held [OF filesD(3) [OF s]]) simp_all
  then have "held (file_inodes s + add_mset ip (cwds s)) x" using start(3) by (auto dest: givesD)
  then have f: "files (open_fds s) (add_mset ip (cwds s)) (s\<lparr>fs := x\<rparr>)"
    using files_same [OF same_fs _ s, of "add_mset ip (cwds s)" x] by simp
  show ?case
    using f cwds_set [OF start(1), of "Some ip" "s\<lparr>fs := x\<rparr>"] start(2) by (simp add: sys_okI)
qed simp

lemma sys_reach_ok: "sys_reach s \<Longrightarrow> sys_ok s"
  by (induction rule: sys_reach.induct) (auto intro: boot_sys_ok sys_step_ok)

section \<open>Counting\<close>

lemma count_opt_ref: "count (opt_ref x) k = (if x = Some k then 1 else 0)"
  by (cases x) auto

lemma count_open_fds: "count (open_fds s) k = card {(p, fd). p < 64 \<and> fd < 16 \<and> u_ofile (uprocs s p) fd = Some k}"
proof -
  have "count (open_fds s) k = (\<Sum>p<64. \<Sum>fd<16. if u_ofile (uprocs s p) fd = Some k then 1 else 0)"
    by (simp add: open_fds_def fds_of_def count_sum count_opt_ref)
  also have "\<dots> = (\<Sum>x\<in>{..<64} \<times> {..<16}. if u_ofile (uprocs s (fst x)) (snd x) = Some k then 1 else 0)"
    by (simp add: sum.cartesian_product case_prod_unfold)
  also have "\<dots> = card {x \<in> {..<64} \<times> {..<16}. u_ofile (uprocs s (fst x)) (snd x) = Some k}"
    by (simp add: sum.If_cases Int_def)
  also have "{x \<in> {..<64} \<times> {..<16}. u_ofile (uprocs s (fst x)) (snd x) = Some k} =
      {(p, fd). p < 64 \<and> fd < 16 \<and> u_ofile (uprocs s p) fd = Some k}" by auto
  finally show ?thesis .
qed

lemma count_cwds: "count (cwds s) i = card {p. p < 64 \<and> u_cwd (uprocs s p) = Some i}"
proof -
  have "count (cwds s) i = (\<Sum>p<64. if u_cwd (uprocs s p) = Some i then 1 else 0)"
    by (simp add: cwds_def count_sum count_opt_ref)
  also have "\<dots> = card {p. p < 64 \<and> u_cwd (uprocs s p) = Some i}" by (simp add: sum.If_cases Int_def)
  finally show ?thesis .
qed

lemma count_file_inodes:
  "count (file_inodes s) i =
     card {k. k < 100 \<and> f_ref (ftable s k) > 0 \<and> f_type (ftable s k) = FD_INODE \<and> f_ip (ftable s k) = i}"
proof -
  have "count (file_inode f) i = (if f_ref f > 0 \<and> f_type f = FD_INODE \<and> f_ip f = i then 1 else 0)" for f
    by (simp add: file_inode_def)
  then have "count (file_inodes s) i =
      (\<Sum>k<100. if f_ref (ftable s k) > 0 \<and> f_type (ftable s k) = FD_INODE \<and> f_ip (ftable s k) = i then 1 else 0)"
    by (simp add: file_inodes_def count_sum)
  also have "\<dots> = card {k. k < 100 \<and> f_ref (ftable s k) > 0 \<and> f_type (ftable s k) = FD_INODE \<and> f_ip (ftable s k) = i}"
    by (simp add: sum.If_cases Int_def)
  finally show ?thesis .
qed

text \<open>
  C3: in every state that the system calls, \<open>fork\<close> and \<open>exit\<close> of all processes can reach, on all their
  branches, the count of an open file is the number of descriptors of all processes that point to it,
  and the count of an inode is the number of open files on it and of processes in it: no call leaks a
  file or an inode, and none gives one back that is in use.
\<close>

theorem reference_counts_exact:
  assumes "sys_reach s"
  shows "(\<forall>k<100. f_ref (ftable s k) = int (card {(p, fd). p < 64 \<and> fd < 16 \<and> u_ofile (uprocs s p) fd = Some k})) \<and>
    (\<forall>i<50. i_ref (icache (fs s) i) =
      int (card {k. k < 100 \<and> f_ref (ftable s k) > 0 \<and> f_type (ftable s k) = FD_INODE \<and> f_ip (ftable s k) = i}) +
      int (card {p. p < 64 \<and> u_cwd (uprocs s p) = Some i}))"
proof (intro conjI allI impI)
  note f = sys_okD [OF sys_reach_ok [OF assms]]
  show "f_ref (ftable s k) = int (card {(p, fd). p < 64 \<and> fd < 16 \<and> u_ofile (uprocs s p) fd = Some k})" if "k < 100" for k
    using file_table.exactD(2) [OF f, of k] that by (simp add: file_count_def count_open_fds)
  show "i_ref (icache (fs s) i) =
      int (card {k. k < 100 \<and> f_ref (ftable s k) > 0 \<and> f_type (ftable s k) = FD_INODE \<and> f_ip (ftable s k) = i}) +
      int (card {p. p < 64 \<and> u_cwd (uprocs s p) = Some i})" if "i < 50" for i
    using inode_table.exactD(2) [OF filesD(3) [OF f], of i] that
    by (simp add: inode_count_def count_file_inodes count_cwds)
qed

text \<open>
  C22: in every reachable state each descriptor points to a file in use. When the file is an end of a
  pipe, the page of the pipe has not been freed and this end is open; two different files are never the
  same end of a pipe; and \<open>kalloc\<close> never gives the page of a pipe away.
\<close>

theorem no_dangling_pipe:
  assumes "sys_reach s" and "p < 64" and "fd < 16" and "u_ofile (uprocs s p) fd = Some k"
  shows "k < 100 \<and> 0 < f_ref (ftable s k) \<and>
    (f_type (ftable s k) = FD_PIPE \<longrightarrow>
      (\<exists>q. pipes s (f_pipe (ftable s k)) = Some q \<and>
        (if f_writable (ftable s k) then writeopen q else readopen q) \<and> f_pipe (ftable s k) \<notin> set (freepages s)) \<and>
      (\<forall>j<100. 0 < f_ref (ftable s j) \<longrightarrow> f_type (ftable s j) = FD_PIPE \<longrightarrow>
        f_pipe (ftable s j) = f_pipe (ftable s k) \<longrightarrow> f_writable (ftable s j) = f_writable (ftable s k) \<longrightarrow> j = k))"
proof -
  note f = sys_okD [OF sys_reach_ok [OF assms(1)]]
  have "0 < file_count s k" using file_table.exactD(3) [OF f] fd_in [OF assms(2-4)] by blast
  then have k: "k < 100" "0 < f_ref (ftable s k)" by (auto simp: file_count_def split: if_splits)
  note P = files_okD(2) [OF filesD(1) [OF f]]
  show ?thesis
  proof (intro conjI impI allI)
    assume t: "f_type (ftable s k) = FD_PIPE"
    then show "\<exists>q. pipes s (f_pipe (ftable s k)) = Some q \<and> (if f_writable (ftable s k) then writeopen q else readopen q) \<and>
        f_pipe (ftable s k) \<notin> set (freepages s)"
      using pipes_okD(1) [OF P, of k "f_pipe (ftable s k)" "f_writable (ftable s k)"] pipes_okD(5) [OF P] k
      by (fastforce simp: pipe_end_def end_open_def)
    show "j = k" if "j < 100" "0 < f_ref (ftable s j)" "f_type (ftable s j) = FD_PIPE"
        "f_pipe (ftable s j) = f_pipe (ftable s k)" "f_writable (ftable s j) = f_writable (ftable s k)" for j
      using pipes_okD(2) [OF P] that k t by (auto simp: pipe_end_def)
  qed (rule k)+
qed

section \<open>A process with a pipe\<close>

definition free_file :: file_obj where
  "free_file = \<lparr>f_type = FD_NONE, f_ref = 0, f_readable = False, f_writable = False, f_pipe = 0, f_ip = 0, f_off = 0\<rparr>"

definition small_sys :: "logst \<Rightarrow> sysst" where
  "small_sys l = \<lparr>fs = small_fs l\<lparr>icache := \<lambda>_. idle_inode\<rparr>, ftable = (\<lambda>_. free_file), pipes = (\<lambda>_. None), freepages = [7],
     uprocs = (\<lambda>_. small_proc\<lparr>u_cwd := None\<rparr>)\<rparr>"

lemma small_boot: "boot_sys (small_sys l)"
  by (simp add: boot_sys_def small_sys_def free_file_def small_proc_def idle_inode_def)

lemma find_first: "P k \<Longrightarrow> List.find P (k # xs) = Some k" and find_next: "\<not> P k \<Longrightarrow> List.find P (k # xs) = List.find P xs"
  by simp_all

lemma small_argptr: "argptr 0 8 (small_proc\<lparr>u_cwd := c\<rparr>) = Some 56"
  by (simp add: argptr_def argint_def fetchint_def load32_def small_proc_def)

lemma small_pipe:
  "\<exists>s. sys_reach s \<and> u_ofile (uprocs s 0) 0 = Some 0 \<and> u_ofile (uprocs s 0) 1 = Some 1 \<and> f_type (ftable s 0) = FD_PIPE \<and>
     f_ref (ftable s 0) = 1 \<and> f_writable (ftable s 1) \<and> f_pipe (ftable s 0) = 7 \<and> freepages s = [] \<and>
     i_ref (icache (fs s) 0) = 1"
proof -
  fix l
  let ?s0 = "small_sys l"
  let ?x = "upd_i 0 (\<lambda>r. r\<lparr>i_dev := 1, i_inum := 1, i_ref := 1, i_valid := False\<rparr>) (fs ?s0)"
  have u: "[0..<50] = 0 # [1..<50]" "[0..<100] = 0 # 1 # [2..<100]" "[0..<16] = 0 # 1 # [2..<16]" by (simp_all add: upt_conv_Cons)
  have n: "(\<forall>x\<in>set xs. \<not> P x) \<Longrightarrow> List.find P xs = None" for P :: "nat \<Rightarrow> bool" and xs by (simp add: find_None_iff)
  have g: "iget 1 1 (fs ?s0) = Inr (0, ?x)"
    unfolding iget_def u(1) by (simp add: n small_sys_def idle_inode_def)
  have "skipelem [slash] (\<lambda>_. 0) = None" by (simp add: skipelem_def skip_slashes_def)
  then have "namei 1 None [slash] (\<lambda>_. 0) (fs ?s0) = Inr (Some 0, ?x)"
    using g by (simp add: namei_def namex_def namex_loop.simps)
  moreover have "u_cwd (uprocs ?s0 0) = None" by (simp add: small_sys_def)
  ultimately have "sys_step ?s0 (upd_u 0 (\<lambda>u. u\<lparr>u_cwd := Some 0\<rparr>) (?s0\<lparr>fs := ?x\<rparr>))"
    by (intro sys_step.start) simp_all
  then have 1: "sys_reach (upd_u 0 (\<lambda>u. u\<lparr>u_cwd := Some 0\<rparr>) (?s0\<lparr>fs := ?x\<rparr>))" (is "sys_reach ?s1")
    using sys_reach.intros small_boot by blast
  have "uprocs ?s1 0 = small_proc\<lparr>u_cwd := Some 0\<rparr>" by (simp add: small_sys_def)
  then have a: "argptr 0 8 (uprocs ?s1 0) = Some 56" by (simp add: small_argptr)
  have f0: "filealloc ?s1 = (Some 0, upd_f 0 (\<lambda>f. f\<lparr>f_ref := 1\<rparr>) ?s1)"
    unfolding filealloc_def u(2) by (simp add: small_sys_def free_file_def)
  have f1: "filealloc (upd_f 0 (\<lambda>f. f\<lparr>f_ref := 1\<rparr>) ?s1) = (Some 1, upd_f 1 (\<lambda>f. f\<lparr>f_ref := 1\<rparr>) (upd_f 0 (\<lambda>f. f\<lparr>f_ref := 1\<rparr>) ?s1))"
    unfolding filealloc_def u(2) by (simp add: small_sys_def free_file_def)
  have fr: "freepages (upd_f 1 (\<lambda>f. f\<lparr>f_ref := 1\<rparr>) (upd_f 0 (\<lambda>f. f\<lparr>f_ref := 1\<rparr>) ?s1)) = [7]"
    by (simp add: small_sys_def upd_u_def)
  have "\<exists>s2. pipealloc 0 ?s1 = Inr (Some (0, 1), s2) \<and> u_ofile (uprocs s2 0) = (\<lambda>_. None) \<and> f_type (ftable s2 0) = FD_PIPE \<and>
      f_ref (ftable s2 0) = 1 \<and> f_writable (ftable s2 1) \<and> f_pipe (ftable s2 0) = 7 \<and> freepages s2 = [] \<and> fs s2 = fs ?s1"
    unfolding pipealloc_def f0 prod.case option.case f1 fr list.case Let_def
    by (simp add: small_sys_def small_proc_def free_file_def)
  then obtain s2 where 2: "pipealloc 0 ?s1 = Inr (Some (0, 1), s2)" "u_ofile (uprocs s2 0) = (\<lambda>_. None)"
      "f_type (ftable s2 0) = FD_PIPE" "f_ref (ftable s2 0) = 1" "f_writable (ftable s2 1)" "f_pipe (ftable s2 0) = 7"
      "freepages s2 = []" "fs s2 = fs ?s1" by blast
  have d0: "fdalloc 0 0 s2 = (Some 0, set_fd 0 0 (Some 0) s2)" unfolding fdalloc_def u(3) by (simp add: 2)
  have d1: "fdalloc 0 1 (set_fd 0 0 (Some 0) s2) = (Some 1, set_fd 0 1 (Some 1) (set_fd 0 0 (Some 0) s2))"
    unfolding fdalloc_def u(3) by (simp add: 2 set_fd_def)
  have "\<exists>s3. sys_pipe 0 ?s1 = Inr (Some 0, s3) \<and> u_ofile (uprocs s3 0) 0 = Some 0 \<and> u_ofile (uprocs s3 0) 1 = Some 1 \<and>
      ftable s3 = ftable s2 \<and> freepages s3 = freepages s2 \<and> fs s3 = fs s2"
    unfolding sys_pipe_def a option.case Let_def 2(1) rbind_Inr prod.case d0 d1
    by (simp add: store_user_def set_fd_def) (simp add: upd_u_def)
  then obtain s3 where 3: "sys_pipe 0 ?s1 = Inr (Some 0, s3)" "u_ofile (uprocs s3 0) 0 = Some 0" "u_ofile (uprocs s3 0) 1 = Some 1"
      "ftable s3 = ftable s2" "freepages s3 = freepages s2" "fs s3 = fs s2" by blast
  have "sys_step ?s1 s3"
    by (rule sys_step.call [where f = sys_pipe and p = 0 and r = "Some 0" and junk = "\<lambda>_. 0" and num = 4])
      (simp add: file_calls_def, simp, rule 3(1))
  then have "sys_reach s3" using 1 sys_reach.step by blast
  moreover have "i_ref (icache (fs s3) 0) = 1" using 3(6) 2(8) by (simp add: upd_i_def)
  ultimately show ?thesis using 3 2(3-7) by (intro exI [of _ s3]) simp
qed

theorem reference_counts_exact_witness:
  "\<exists>s. sys_reach s \<and> card {(p, fd). p < 64 \<and> fd < 16 \<and> u_ofile (uprocs s p) fd = Some 0} = 1"
proof -
  obtain s where s: "sys_reach s" "f_ref (ftable s 0) = 1" using small_pipe by blast
  have "f_ref (ftable s 0) = int (card {(p, fd). p < 64 \<and> fd < 16 \<and> u_ofile (uprocs s p) fd = Some 0})"
    using reference_counts_exact [OF s(1)] by simp
  then show ?thesis using s by (intro exI [of _ s]) simp
qed

theorem no_dangling_pipe_witness:
  "\<exists>s q. sys_reach s \<and> u_ofile (uprocs s 0) 0 = Some 0 \<and> f_type (ftable s 0) = FD_PIPE \<and> pipes s 7 = Some q"
proof -
  obtain s where s: "sys_reach s" "u_ofile (uprocs s 0) 0 = Some 0" "f_type (ftable s 0) = FD_PIPE" "f_pipe (ftable s 0) = 7"
    using small_pipe by blast
  from no_dangling_pipe [OF s(1) _ _ s(2)] s show ?thesis by auto
qed

end
