(* ===== verification/FilterLive.thy ===== *)
theory FilterLive
  imports LockProps
begin

text \<open>
  The filter lock does not deadlock: whenever threads are in \<open>lock\<close> and none holds it, steps of these
  threads bring one of them inside.
\<close>

inductive entry_runs :: "nat \<Rightarrow> filter_lock \<Rightarrow> filter_lock \<Rightarrow> bool" for n where
  stay: "entry_runs n s s"
| move: "t \<in> {1..n} \<Longrightarrow> pos s t \<noteq> Outside \<Longrightarrow> pos s t \<noteq> Inside \<Longrightarrow> entry_runs n (filter_step n t s) s' \<Longrightarrow>
    entry_runs n s s'"

lemma entry_runs_trans: "entry_runs n s s1 \<Longrightarrow> entry_runs n s1 s2 \<Longrightarrow> entry_runs n s s2"
  by (induction rule: entry_runs.induct) (auto intro: entry_runs.move)

lemma move_to:
  assumes "t \<in> {1..n}" and "pos s t \<noteq> Outside" and "pos s t \<noteq> Inside" and "filter_step n t s = s1" and "entry_runs n s1 s2"
  shows "entry_runs n s s2"
  using assms by (auto intro: entry_runs.move)

abbreviation at :: "filter_lock \<Rightarrow> nat \<Rightarrow> position \<Rightarrow> filter_lock" where
  "at s t ps \<equiv> s\<lparr>pos := (pos s)(t := ps)\<rparr>"

section \<open>One thread alone\<close>

lemma scan_clear:
  assumes "pos s t = Scan i j True" and "t \<in> {1..n}" and "\<And>q. q \<in> {1..n} \<Longrightarrow> q \<noteq> t \<Longrightarrow> j \<le> q \<Longrightarrow> Flag s (q - 1) < i"
    and "1 \<le> j"
  shows "entry_runs n s (at s t (next_pos n i))"
  using assms
proof (induction "Suc n - j" arbitrary: j s)
  case 0
  then have e: "filter_step n t s = at s t (next_pos n i)" by (simp add: filter_step_def)
  show ?case by (rule move_to [OF _ _ _ e entry_runs.stay]) (use 0 in auto)
next
  case (Suc m)
  let ?s = "at s t (Scan i (Suc j) True)"
  have "j \<le> n" using Suc.hyps(2) by simp
  then have e: "filter_step n t s = ?s"
    using Suc.prems(1,4) Suc.prems(3) [of j] by (auto simp: filter_step_def)
  have "entry_runs n ?s (at ?s t (next_pos n i))"
    by (rule Suc.hyps(1) [of "Suc j"]) (use Suc in auto)
  then have r: "entry_runs n ?s (at s t (next_pos n i))" by simp
  show ?case by (rule move_to [OF _ _ _ e r]) (use Suc.prems(1,2) in simp_all)
qed

lemma scan_end:
  assumes "pos s t = Scan i j g" and "t \<in> {1..n}"
  shows "entry_runs n s (at s t (next_pos n i)) \<or> entry_runs n s (at s t (TestTurn i))"
  using assms
proof (induction "Suc n - j" arbitrary: j g s)
  case 0
  then have "filter_step n t s = at s t (if g then next_pos n i else TestTurn i)" by (simp add: filter_step_def)
  then show ?case using 0 move_to [of t n s] entry_runs.stay by (cases g) fastforce+
next
  case (Suc m)
  have "j \<le> n" using Suc.hyps(2) by simp
  then obtain g' where e: "filter_step n t s = at s t (Scan i (Suc j) g')"
    using Suc.prems(1) by (cases "j = t") (auto simp: filter_step_def)
  let ?s = "at s t (Scan i (Suc j) g')"
  have "entry_runs n ?s (at ?s t (next_pos n i)) \<or> entry_runs n ?s (at ?s t (TestTurn i))"
    by (rule Suc.hyps(1) [of "Suc j" ?s g']) (use Suc in auto)
  then show ?case using Suc.prems e move_to [of t n s ?s] by auto
qed

text \<open>A thread passes a level when it is not the last there, or alone there.\<close>

definition free_to_pass :: "nat \<Rightarrow> nat \<Rightarrow> nat \<Rightarrow> filter_lock \<Rightarrow> bool" where
  "free_to_pass n t i s \<longleftrightarrow> Turn s (i - 1) \<noteq> t \<or> (\<forall>q\<in>{1..n}. q \<noteq> t \<longrightarrow> Flag s (q - 1) < i)"

lemma test_pass:
  assumes "pos s t = TestTurn i" and t: "t \<in> {1..n}" and "free_to_pass n t i s"
  shows "entry_runs n s (at s t (next_pos n i))"
proof (cases "Turn s (i - 1) = t")
  case False
  then have "filter_step n t s = at s t (next_pos n i)" using assms(1) by (simp add: filter_step_def)
  then show ?thesis using assms by (intro move_to [of t n s]) (auto intro: entry_runs.stay)
next
  case True
  let ?s = "at s t (Scan i 1 True)"
  have e: "filter_step n t s = ?s" using True assms(1) by (simp add: filter_step_def)
  have "entry_runs n ?s (at ?s t (next_pos n i))"
    by (rule scan_clear) (use assms True in \<open>auto simp: free_to_pass_def\<close>)
  then show ?thesis using assms(1) t e by (intro move_to [of t n s]) auto
qed

text \<open>With all others below its next level, a thread gets inside.\<close>

lemma climb:
  assumes "pos s t = SetFlag i" and "t \<in> {1..n}" and "1 \<le> i" and "i \<le> n"
    and "\<And>q. q \<in> {1..n} \<Longrightarrow> q \<noteq> t \<Longrightarrow> Flag s (q - 1) < i"
  shows "\<exists>s'. entry_runs n s s' \<and> pos s' t = Inside"
  using assms
proof (induction "n - i" arbitrary: i s rule: less_induct)
  case less
  let ?s1 = "(at s t (SetTurn i))\<lparr>Flag := (Flag s)(t - 1 := i)\<rparr>"
  let ?s2 = "(at ?s1 t (TestTurn i))\<lparr>Turn := (Turn s)(i - 1 := t)\<rparr>"
  let ?s3 = "at ?s2 t (next_pos n i)"
  have fl: "Flag ?s2 (q - 1) < i" if "q \<in> {1..n}" "q \<noteq> t" for q
  proof -
    have "q - 1 \<noteq> t - 1" using that less.prems(2) by auto
    then show ?thesis using less.prems(5) [OF that] by simp
  qed
  have "filter_step n t s = ?s1" using less.prems(1) by (simp add: filter_step_def)
  moreover have "filter_step n t ?s1 = ?s2" by (simp add: filter_step_def)
  moreover have "entry_runs n ?s2 ?s3"
    by (rule test_pass) (use less.prems(2) fl in \<open>auto simp: free_to_pass_def\<close>)
  ultimately have r: "entry_runs n s ?s3"
    using move_to [of t n s ?s1 ?s3] move_to [of t n ?s1 ?s2 ?s3] less.prems(1,2) by simp
  show ?case
  proof (cases "Suc i \<le> n")
    case True
    have "\<exists>s'. entry_runs n ?s3 s' \<and> pos s' t = Inside"
    proof (rule less.hyps)
      show "Flag ?s3 (q - 1) < Suc i" if "q \<in> {1..n}" "q \<noteq> t" for q
        using fl [OF that] by simp
    qed (use True less.prems in \<open>auto simp: next_pos_def\<close>)
    then show ?thesis using entry_runs_trans [OF r] by blast
  next
    case False
    then show ?thesis using r by (intro exI [of _ ?s3]) (simp add: next_pos_def)
  qed
qed

definition waits_at :: "filter_lock \<Rightarrow> nat \<Rightarrow> nat \<Rightarrow> bool" where
  "waits_at s t i \<longleftrightarrow> pos s t = TestTurn i \<or> (\<exists>j g. pos s t = Scan i j g)"

lemma pass_level:
  assumes w: "waits_at s t i" and t: "t \<in> {1..n}" and "i \<le> n" and free: "free_to_pass n t i s"
    and others: "\<And>q. q \<in> {1..n} \<Longrightarrow> Flag s (q - 1) \<le> i"
  shows "\<exists>s'. entry_runs n s s' \<and> pos s' t = Inside"
proof -
  have f: "free_to_pass n t i (at s t ps)" for ps using free by (simp add: free_to_pass_def)
  have "entry_runs n s (at s t (next_pos n i))"
  proof (cases "pos s t = TestTurn i")
    case True
    then show ?thesis using test_pass t free by blast
  next
    case False
    then obtain j g where "pos s t = Scan i j g" using w by (auto simp: waits_at_def)
    then have "entry_runs n s (at s t (next_pos n i)) \<or> entry_runs n s (at s t (TestTurn i))" using scan_end t by blast
    moreover have "entry_runs n (at s t (TestTurn i)) (at (at s t (TestTurn i)) t (next_pos n i))"
      by (rule test_pass [OF _ t f]) simp
    ultimately show ?thesis using entry_runs_trans by fastforce
  qed
  moreover have "\<exists>s'. entry_runs n (at s t (next_pos n i)) s' \<and> pos s' t = Inside"
  proof (cases "Suc i \<le> n")
    case True
    show ?thesis by (rule climb [of _ _ "Suc i"]) (use True t others in \<open>auto simp: next_pos_def less_Suc_eq_le\<close>)
  next
    case False
    then show ?thesis by (intro exI [of _ "at s t (next_pos n i)"]) (simp add: next_pos_def entry_runs.stay)
  qed
  ultimately show ?thesis using entry_runs_trans by blast
qed

section \<open>All threads\<close>

text \<open>
  At the highest level that a thread has reached, \<open>i\<close>, only the last one to arrive may have to wait;
  another thread there passes, if need be after it has arrived itself.
\<close>

lemma top_level:
  assumes w: "waits_at s t i" and t: "t \<in> {1..n}" and i: "1 \<le> i" "i \<le> n"
    and ok: "filter_ok n s" and inside: "\<And>q. q \<in> {1..n} \<Longrightarrow> pos s q \<noteq> Inside"
    and others: "\<And>q. q \<in> {1..n} \<Longrightarrow> Flag s (q - 1) \<le> i"
    and next_free: "\<And>q. q \<in> {1..n} \<Longrightarrow> pos s q \<noteq> SetFlag (Suc i)"
  shows "\<exists>s'. \<exists>u\<in>{1..n}. entry_runs n s s' \<and> pos s' u = Inside"
proof (cases "free_to_pass n t i s")
  case True
  from pass_level [OF w t i(2) True others] show ?thesis using t by blast
next
  case False
  then obtain q where q: "q \<in> {1..n}" "q \<noteq> t" "\<not> Flag s (q - 1) < i" and T: "Turn s (i - 1) = t"
    by (auto simp: free_to_pass_def)
  then have "flag_at n (pos s q) = i" using others [OF q(1)] filter_okD(2) [OF ok q(1)] by simp
  then have "pos s q = SetTurn i \<or> waits_at s q i"
    using inside [OF q(1)] next_free [OF q(1)] i(1) by (cases "pos s q") (auto simp: waits_at_def)
  then show ?thesis
  proof
    assume "waits_at s q i"
    moreover have "free_to_pass n q i s" using T q(2) by (auto simp: free_to_pass_def)
    ultimately show ?thesis using pass_level [OF _ q(1) i(2) _ others] q(1) by blast
  next
    assume at: "pos s q = SetTurn i"
    let ?s = "(at s q (TestTurn i))\<lparr>Turn := (Turn s)(i - 1 := q)\<rparr>"
    have e: "filter_step n q s = ?s" using at by (simp add: filter_step_def)
    have "\<exists>s'. entry_runs n ?s s' \<and> pos s' t = Inside"
      by (rule pass_level [OF _ t i(2)]) (use w q others in \<open>auto simp: waits_at_def free_to_pass_def\<close>)
    then obtain s' where "entry_runs n ?s s'" "pos s' t = Inside" by blast
    then have "entry_runs n s s' \<and> pos s' t = Inside" using move_to [OF q(1) _ _ e] at by simp
    then show ?thesis using t by blast
  qed
qed

lemma filter_live:
  assumes ok: "filter_ok n s" and t: "t \<in> {1..n}" "pos s t \<noteq> Outside" and inside: "\<And>q. q \<in> {1..n} \<Longrightarrow> pos s q \<noteq> Inside"
  shows "\<exists>s'. \<exists>u\<in>{1..n}. entry_runs n s s' \<and> pos s' u = Inside"
proof -
  define i where "i = Max ((\<lambda>q. Flag s (q - 1)) ` {1..n})"
  have ne: "(\<lambda>q. Flag s (q - 1)) ` {1..n} \<noteq> {}" using t(1) by blast
  have le: "Flag s (q - 1) \<le> i" if "q \<in> {1..n}" for q unfolding i_def using that by (intro Max_ge) auto
  obtain q where q: "q \<in> {1..n}" "Flag s (q - 1) = i"
    using Max_in [OF _ ne] unfolding i_def by (auto simp del: Max_in)
  show ?thesis
  proof (cases "\<exists>u\<in>{1..n}. pos s u = SetFlag (Suc i)")
    case True
    then obtain u where u: "u \<in> {1..n}" "pos s u = SetFlag (Suc i)" by blast
    then have "Suc i \<le> n" using filter_okD(1) [OF ok u(1)] by simp
    then have "\<exists>s'. entry_runs n s s' \<and> pos s' u = Inside"
      by (intro climb [OF u(2,1)]) (use le in \<open>auto simp: less_Suc_eq_le\<close>)
    then show ?thesis using u(1) by blast
  next
    case False
    have flag: "flag_at n (pos s u) = Flag s (u - 1)" "pos_ok n (pos s u)" if "u \<in> {1..n}" for u
      using filter_okD(1,2) [OF ok that] by simp_all
    have "i \<noteq> 0"
    proof
      assume "i = 0"
      then have "flag_at n (pos s t) = 0" using le [OF t(1)] flag [OF t(1)] by simp
      then show False using t inside [OF t(1)] flag(2) [OF t(1)] False \<open>i = 0\<close> by (cases "pos s t") auto
    qed
    then have i: "1 \<le> i" by simp
    have "pos s q = SetTurn i \<or> waits_at s q i"
      using flag [OF q(1)] q inside [OF q(1)] False i by (cases "pos s q") (auto simp: waits_at_def)
    then show ?thesis
    proof
      assume w: "waits_at s q i"
      then have "i \<le> n" using flag(2) [OF q(1)] by (auto simp: waits_at_def)
      then show ?thesis using top_level [OF w q(1) i _ ok inside le] False by blast
    next
      assume a: "pos s q = SetTurn i"
      let ?s = "(at s q (TestTurn i))\<lparr>Turn := (Turn s)(i - 1 := q)\<rparr>"
      have e: "filter_step n q s = ?s" using a by (simp add: filter_step_def)
      have "i \<le> n" using flag(2) [OF q(1)] a by simp
      moreover have "filter_ok n ?s" using filter_step_ok [OF ok q(1)] e by simp
      ultimately have "\<exists>s'. \<exists>u\<in>{1..n}. entry_runs n ?s s' \<and> pos s' u = Inside"
        by (intro top_level [of ?s q i]) (use i q inside le False in \<open>auto simp: waits_at_def\<close>)
      then show ?thesis using move_to [OF q(1) _ _ e] a by fastforce
    qed
  qed
qed

text \<open>
  C33: Peterson's lock does not deadlock: from every reachable state of the program in which a thread is
  in \<open>lock\<close> and no thread holds the lock, there are steps of threads that are in \<open>lock\<close>, and of no
  others, that bring one of them inside.
\<close>

theorem filter_no_deadlock:
  assumes "filter_run n s" and "t \<in> {1..n}" and "pos (lockst s) t \<noteq> Outside"
    and "\<forall>q\<in>{1..n}. pos (lockst s) q \<noteq> Inside"
  shows "\<exists>l. \<exists>u\<in>{1..n}. entry_runs n (lockst s) l \<and> pos l u = Inside"
  using filter_live [OF filter.client_invD(1) [OF filter.run_client_inv [OF assms(1)]]] assms(2-4) by blast

theorem filter_no_deadlock_witness:
  "filter_run 1 (solo 1) \<and> pos (lockst (solo 1)) 1 = SetFlag 1 \<and> (\<exists>l u. entry_runs 1 (lockst (solo 1)) l \<and> pos l u = Inside)"
proof -
  have r: "filter_run 1 (solo 1)" by (rule solo_run) simp
  have p: "pos (lockst (solo 1)) 1 = SetFlag 1" by (simp add: solo_def filter_step_def filter_init_def)
  have "\<forall>q\<in>{1..1}. pos (lockst (solo 1)) q \<noteq> Inside" using p by simp
  from filter_no_deadlock [OF r, of 1] this p show ?thesis using r by auto
qed

end
