(* ===== verification/Umalloc.thy ===== *)
theory Umalloc
  imports Prelude
begin

text \<open>
  The allocator of user programs (\<open>umalloc.c\<close>): a ring of free blocks in the order of their addresses.
  Pointers are numbers of headers, 8 bytes each, and so are sizes; the arithmetic on sizes in bytes is
  that of 32-bit words. The search loops are partial functions, whose value \<open>None\<close> says that they
  never end.
\<close>

section \<open>The code\<close>

record heap =
  h_ptr :: "nat \<Rightarrow> nat"
  h_size :: "nat \<Rightarrow> nat"
  freep :: "nat option"
  brk :: nat

definition set_ptr :: "nat \<Rightarrow> nat \<Rightarrow> heap \<Rightarrow> heap" where
  "set_ptr a v s = s\<lparr>h_ptr := (h_ptr s)(a := v)\<rparr>"

definition set_size :: "nat \<Rightarrow> nat \<Rightarrow> heap \<Rightarrow> heap" where
  "set_size a v s = s\<lparr>h_size := (h_size s)(a := v)\<rparr>"

text \<open>\<open>free\<close>: the search for the free block before \<open>bp\<close>, then the joins with the neighbours.\<close>

definition found :: "nat \<Rightarrow> nat \<Rightarrow> heap \<Rightarrow> bool" where
  "found bp p s \<longleftrightarrow> (bp > p \<and> bp < h_ptr s p) \<or> (p \<ge> h_ptr s p \<and> (bp > p \<or> bp < h_ptr s p))"

partial_function (option) free_search :: "nat \<Rightarrow> nat \<Rightarrow> heap \<Rightarrow> nat option" where
  "free_search bp p s = (if found bp p s then Some p else free_search bp (h_ptr s p) s)"

definition join_next :: "nat \<Rightarrow> nat \<Rightarrow> heap \<Rightarrow> heap" where
  "join_next bp p s =
     (if bp + h_size s bp = h_ptr s p
      then set_ptr bp (h_ptr s (h_ptr s p)) (set_size bp (h_size s bp + h_size s (h_ptr s p)) s)
      else set_ptr bp (h_ptr s p) s)"

definition join_prev :: "nat \<Rightarrow> nat \<Rightarrow> heap \<Rightarrow> heap" where
  "join_prev bp p s =
     (if p + h_size s p = bp then set_ptr p (h_ptr s bp) (set_size p (h_size s p + h_size s bp) s)
      else set_ptr p bp s)"

definition free :: "nat \<Rightarrow> heap \<Rightarrow> heap result" where
  "free ap s =
     (case freep s of
        None \<Rightarrow> Inl NullDeref
      | Some q \<Rightarrow>
          (case free_search (ap - 1) q s of
             None \<Rightarrow> Inl Hang
           | Some p \<Rightarrow> Inr ((join_prev (ap - 1) p (join_next (ap - 1) p s))\<lparr>freep := Some p\<rparr>)))"

text \<open>
  \<open>sbrk\<close> is a system call: \<open>grow\<close> says whether the kernel grants the change of the break. Its argument
  is a signed number of bytes.
\<close>

definition sbrk :: "(nat \<Rightarrow> int \<Rightarrow> bool) \<Rightarrow> int \<Rightarrow> heap \<Rightarrow> (nat \<times> heap) option" where
  "sbrk grow d s = (if grow (brk s) d then Some (brk s, s\<lparr>brk := nat (int (brk s) + d)\<rparr>) else None)"

definition morecore :: "(nat \<Rightarrow> int \<Rightarrow> bool) \<Rightarrow> u32 \<Rightarrow> heap \<Rightarrow> (nat \<times> heap) option result" where
  "morecore grow nu s =
     (let nu1 = (if nu < 4096 then 4096 else nu) in
      case sbrk grow (sint (nu1 * 8) div 8) s of
        None \<Rightarrow> Inr None
      | Some (hp, s1) \<Rightarrow>
          rbind (free (hp + 1) (set_size hp (unat nu1) s1)) (\<lambda>s2.
          case freep s2 of None \<Rightarrow> Inl NullDeref | Some f \<Rightarrow> Inr (Some (f, s2))))"

definition units :: "u32 \<Rightarrow> u32" where
  "units nbytes = (nbytes + 7) div 8 + 1"

text \<open>The block at \<open>p\<close>, or the end of it, with the block \<open>prevp\<close> before it.\<close>

definition take_block :: "nat \<Rightarrow> nat \<Rightarrow> nat \<Rightarrow> heap \<Rightarrow> nat \<times> heap" where
  "take_block n prevp p s =
     (if h_size s p = n then (p + 1, (set_ptr prevp (h_ptr s p) s)\<lparr>freep := Some prevp\<rparr>)
      else let r = p + (h_size s p - n) in
        (r + 1, (set_size r n (set_size p (h_size s p - n) s))\<lparr>freep := Some prevp\<rparr>))"

partial_function (option) malloc_loop ::
    "(nat \<Rightarrow> int \<Rightarrow> bool) \<Rightarrow> u32 \<Rightarrow> nat \<Rightarrow> nat \<Rightarrow> heap \<Rightarrow> (nat option \<times> heap) result option" where
  "malloc_loop grow n prevp p s =
     (if h_size s p \<ge> unat n then (case take_block (unat n) prevp p s of (r, s1) \<Rightarrow> Some (Inr (Some r, s1)))
      else if Some p = freep s then
        (case morecore grow n s of
           Inl e \<Rightarrow> Some (Inl e)
         | Inr None \<Rightarrow> Some (Inr (None, s))
         | Inr (Some (q, s1)) \<Rightarrow> malloc_loop grow n q (h_ptr s1 q) s1)
      else malloc_loop grow n p (h_ptr s p) s)"

definition malloc :: "nat \<Rightarrow> (nat \<Rightarrow> int \<Rightarrow> bool) \<Rightarrow> u32 \<Rightarrow> heap \<Rightarrow> (nat option \<times> heap) result option" where
  "malloc base grow nbytes s =
     (case freep s of
        Some q \<Rightarrow> malloc_loop grow (units nbytes) q (h_ptr s q) s
      | None \<Rightarrow>
          let s1 = (set_size base 0 (set_ptr base base s))\<lparr>freep := Some base\<rparr> in
          malloc_loop grow (units nbytes) base (h_ptr s1 base) s1)"

section \<open>The ring\<close>

text \<open>The blocks of a list are linked in its order, the last one to \<open>e\<close>.\<close>

fun path :: "(nat \<Rightarrow> nat) \<Rightarrow> nat list \<Rightarrow> nat \<Rightarrow> bool" where
  "path f [] e = True"
| "path f (a # as) e = (f a = hd (as @ [e]) \<and> path f as e)"

lemma path_append: "path f (as @ bs) e \<longleftrightarrow> path f as (hd (bs @ [e])) \<and> path f bs e"
proof (induction as)
  case (Cons a as)
  then show ?case by (cases as) auto
qed simp

lemma path_upd: "x \<notin> set as \<Longrightarrow> path (f(x := v)) as e = path f as e"
  by (induction as) auto

text \<open>
  The free list: the addresses of the blocks in order, with the one of \<open>base\<close> first, each block ending
  before the next.
\<close>

fun spaced :: "(nat \<Rightarrow> nat) \<Rightarrow> nat list \<Rightarrow> bool" where
  "spaced sz [] = True"
| "spaced sz (a # as) = ((\<forall>b\<in>set as. a < b \<and> a + sz a \<le> b) \<and> spaced sz as)"

lemma spaced_append:
  "spaced sz (as @ bs) \<longleftrightarrow> spaced sz as \<and> spaced sz bs \<and> (\<forall>a\<in>set as. \<forall>b\<in>set bs. a < b \<and> a + sz a \<le> b)"
  by (induction as) auto

lemma spaced_upd: "x \<notin> set as \<Longrightarrow> spaced (sz(x := v)) as = spaced sz as"
  by (induction as) auto

definition ring :: "nat \<Rightarrow> nat list \<Rightarrow> heap \<Rightarrow> bool" where
  "ring base F s \<longleftrightarrow> (\<exists>rest. F = base # rest) \<and> path (h_ptr s) F base \<and> spaced (h_size s) F \<and> h_size s base = 0 \<and>
     (\<forall>a\<in>set F. a = base \<or> 0 < h_size s a)"

definition units_of :: "(nat \<Rightarrow> nat) \<Rightarrow> nat list \<Rightarrow> nat set" where
  "units_of sz F = (\<Union>a\<in>set F. {a..<a + sz a})"

lemma path_at: "path f (as @ a # bs) e \<Longrightarrow> f a = hd (bs @ [e])"
  by (simp add: path_append)

lemma hd_next: "hd (bs @ [e]) \<in> set bs \<or> bs = [] \<and> hd (bs @ [e]) = e"
  by (cases bs) auto

text \<open>The free blocks before and after an address.\<close>

definition split_at :: "nat \<Rightarrow> nat list \<Rightarrow> nat \<Rightarrow> nat list \<Rightarrow> bool" where
  "split_at bp xs p ys \<longleftrightarrow> (\<forall>a\<in>set xs. a < bp) \<and> p < bp \<and> (\<forall>b\<in>set ys. bp < b)"

lemma ring_split:
  assumes "ring base F s" and "base < bp" and "bp \<notin> set F"
  shows "\<exists>xs p ys. F = xs @ p # ys \<and> split_at bp xs p ys"
proof -
  have "\<exists>xs p ys. F = xs @ p # ys \<and> split_at bp xs p ys" if "spaced sz F" "F = a # as" "a < bp" "bp \<notin> set F" for sz a as F
    using that
  proof (induction as arbitrary: F a)
    case Nil
    then show ?case by (intro exI [of _ "[]"] exI [of _ a]) (auto simp: split_at_def)
  next
    case (Cons b as)
    show ?case
    proof (cases "b < bp")
      case True
      then obtain xs p ys where "b # as = xs @ p # ys" "split_at bp xs p ys"
        using Cons.IH [of "b # as" b] Cons.prems by auto
      then show ?thesis using Cons.prems by (intro exI [of _ "a # xs"] exI [of _ p] exI [of _ ys]) (auto simp: split_at_def)
    next
      case False
      then show ?thesis using Cons.prems
        by (intro exI [of _ "[]"] exI [of _ a] exI [of _ "b # as"]) (auto simp: split_at_def)
    qed
  qed
  then show ?thesis using assms unfolding ring_def by blast
qed

section \<open>free\<close>

lemma search_walk:
  assumes "path (h_ptr s) L p" and "\<And>a. a \<in> set L \<Longrightarrow> \<not> found bp a s" and "found bp p s"
  shows "free_search bp (hd (L @ [p])) s = Some p"
  using assms(1,2)
proof (induction L)
  case Nil
  then show ?case using assms(3) by (simp add: free_search.simps)
next
  case (Cons a L)
  then show ?case by (simp add: free_search.simps [of bp a])
qed

text \<open>The search ends, wherever it starts, at the block before \<open>bp\<close>.\<close>

lemma search_ends:
  assumes r: "ring base (xs @ p # ys) s" and sp: "split_at bp xs p ys" and q: "q \<in> set (xs @ p # ys)"
  shows "free_search bp q s = Some p"
proof -
  have pa: "path (h_ptr s) (xs @ p # ys) base" and so: "spaced (h_size s) (xs @ p # ys)"
    using r by (auto simp: ring_def)
  obtain rest where b: "xs @ [p] = base # rest" using r by (cases xs) (auto simp: ring_def)
  then have base: "base < bp" using sp by (cases xs) (auto simp: split_at_def)
  have P: "path (h_ptr s) xs p" "h_ptr s p = hd (ys @ [base])" "path (h_ptr s) ys base"
    using pa by (simp_all add: path_append)
  have "base \<le> p" using b so by (cases xs) (auto simp: spaced_append)
  then have fp: "found bp p s"
    using P(2) sp base by (cases ys) (auto simp: found_def split_at_def)
  have nx: "\<not> found bp a s" if a: "a \<in> set xs" for a
  proof -
    obtain x1 x2 where x: "xs = x1 @ a # x2" using a by (auto simp: in_set_conv_decomp)
    then have "h_ptr s a = hd (x2 @ [p])" using P(1) path_at by blast
    then have "h_ptr s a \<in> set (x2 @ [p])" using hd_next [of x2 p] by auto
    then have "a < h_ptr s a" "h_ptr s a < bp" using so x sp by (auto simp: spaced_append split_at_def)
    then show ?thesis by (simp add: found_def)
  qed
  have ny: "\<not> found bp a s" if a: "a \<in> set ys" for a
  proof -
    obtain y1 y2 where y: "ys = y1 @ a # y2" using a by (auto simp: in_set_conv_decomp)
    then have "h_ptr s a = hd (y2 @ [base])" using P(3) path_at by blast
    then have "h_ptr s a = base \<or> a < h_ptr s a" using hd_next [of y2 base] so y by (auto simp: spaced_append)
    moreover have "bp < a" using sp a by (simp add: split_at_def)
    ultimately show ?thesis using base by (auto simp: found_def)
  qed
  show ?thesis
  proof (cases "q \<in> set ys")
    case True
    then obtain y1 y2 where y: "ys = y1 @ q # y2" by (auto simp: in_set_conv_decomp)
    have hx: "hd (xs @ [p]) = base" using b by (cases xs) auto
    have "path (h_ptr s) (q # y2) base" using P(3) y by (simp add: path_append)
    then have "path (h_ptr s) ((q # y2) @ xs) p" using P(1) hx by (simp only: path_append)
    then have "free_search bp (hd (((q # y2) @ xs) @ [p])) s = Some p"
      using nx ny y by (intro search_walk fp) auto
    then show ?thesis by simp
  next
    case False
    then have "q \<in> set (xs @ [p])" using q by auto
    then obtain x1 x2 where x: "xs @ [p] = x1 @ q # x2" by (meson split_list)
    show ?thesis
    proof (cases "x2 = []")
      case True
      then have "q = p" using x by simp
      then show ?thesis using search_walk [of s "[]" p bp] fp by simp
    next
      case nonempty: False
      then obtain z c where "x2 = z @ [c]" by (cases x2 rule: rev_cases) auto
      then have "xs @ [p] = (x1 @ q # z) @ [c]" using x by simp
      then have x2: "xs = x1 @ q # z" by (simp only: append1_eq_conv)
      then have "path (h_ptr s) (q # z) p" using P(1) by (simp only: path_append)
      then have "free_search bp (hd ((q # z) @ [p])) s = Some p"
        using nx x2 by (intro search_walk fp) auto
      then show ?thesis by simp
    qed
  qed
qed

lemma units_of_simps [simp]:
  "units_of sz [] = {}" "units_of sz (a # as) = {a..<a + sz a} \<union> units_of sz as"
  "units_of sz (as @ bs) = units_of sz as \<union> units_of sz bs"
  by (auto simp: units_of_def)

lemma units_of_upd: "x \<notin> set as \<Longrightarrow> units_of (sz(x := v)) as = units_of sz as"
  by (auto simp: units_of_def split: if_splits)

text \<open>After the join with the next block, \<open>bp\<close> is linked to what follows it.\<close>

lemma join_next_ok:
  assumes pa: "path (h_ptr s) ys base" and p: "h_ptr s p = hd (ys @ [base])" and so: "spaced (h_size s) (bp # ys)"
    and b: "base < bp" and s1: "s1 = join_next bp p s"
  shows "\<exists>tail. set tail \<subseteq> set ys \<and> path (h_ptr s1) (bp # tail) base \<and> spaced (h_size s1) (bp # tail) \<and>
      units_of (h_size s1) (bp # tail) = {bp..<bp + h_size s bp} \<union> units_of (h_size s) ys \<and>
      (\<forall>a. a \<noteq> bp \<longrightarrow> h_ptr s1 a = h_ptr s a \<and> h_size s1 a = h_size s a)"
proof (cases "bp + h_size s bp = h_ptr s p")
  case False
  have nb: "bp \<notin> set ys" using so by auto
  have "s1 = set_ptr bp (h_ptr s p) s" using False s1 by (simp add: join_next_def)
  then show ?thesis using pa p so nb
    by (intro exI [of _ ys]) (auto simp: set_ptr_def path_upd)
next
  case True
  then obtain y ys' where ys: "ys = y # ys'" using p b by (cases ys) auto
  then have y: "h_ptr s p = y" using p by simp
  have nb: "bp \<notin> set ys'" "y \<noteq> bp" using so ys by auto
  have e: "s1 = set_ptr bp (h_ptr s y) (set_size bp (h_size s bp + h_size s y) s)"
    using True s1 y by (simp add: join_next_def)
  have "{bp..<bp + (h_size s bp + h_size s y)} = {bp..<bp + h_size s bp} \<union> {y..<y + h_size s y}"
    using True y by auto
  moreover have "bp + (h_size s bp + h_size s y) \<le> c" if "c \<in> set ys'" for c
    using so ys True y that by (auto simp: add.assoc [symmetric])
  ultimately show ?thesis using pa so ys nb
    by (intro exI [of _ ys']) (auto simp: e set_ptr_def set_size_def path_upd spaced_upd units_of_upd)
qed

lemma join_prev_ok:
  assumes xs: "path (h_ptr s1) xs p" and so: "spaced (h_size s1) (xs @ [p])" and d: "\<forall>a\<in>set (xs @ [p]). a < bp \<and> a + h_size s1 a \<le> bp"
    and tl: "path (h_ptr s1) (bp # tail) base" "spaced (h_size s1) (bp # tail)" and s2: "s2 = join_prev bp p s1"
    and base: "\<exists>rest. xs @ [p] = base # rest" "h_size s1 base = 0"
    and pos: "\<forall>a\<in>set (xs @ p # bp # tail). a = base \<or> 0 < h_size s1 a"
  shows "\<exists>F. ring base F s2 \<and> p \<in> set F \<and> set F \<subseteq> set (xs @ p # bp # tail) \<and>
      units_of (h_size s2) F = units_of (h_size s1) (xs @ [p]) \<union> units_of (h_size s1) (bp # tail) \<and>
      (\<forall>a. a \<noteq> p \<longrightarrow> h_size s2 a = h_size s1 a) \<and> (\<exists>a\<in>set F. h_size s1 bp \<le> h_size s2 a)"
proof -
  have ne: "p \<notin> set xs" "p \<noteq> bp" "p \<notin> set tail" "bp \<notin> set xs" "bp \<notin> set tail"
    using so d tl(2) by (auto simp: spaced_append dest: less_trans)
  have far: "a < c \<and> a + h_size s1 a \<le> c" if "a \<in> set (xs @ [p])" "c \<in> set (bp # tail)" for a c
  proof -
    have "a < bp \<and> a + h_size s1 a \<le> bp" using d that by blast
    moreover have "bp \<le> c" using tl(2) that(2) by auto
    ultimately show ?thesis by simp
  qed
  show ?thesis
  proof (cases "p + h_size s1 p = bp")
    case False
    then have e: "s2 = set_ptr p bp s1" using s2 by (simp add: join_prev_def)
    have "ring base (xs @ p # bp # tail) s2"
      using xs so tl far base ne pos unfolding ring_def e
      by (auto simp: set_ptr_def path_append path_upd spaced_append Cons_eq_append_conv append_eq_Cons_conv)
    then show ?thesis by (intro exI [of _ "xs @ p # bp # tail"]) (auto simp: e set_ptr_def intro: bexI [of _ bp])
  next
    case True
    let ?n = "h_size s1 p + h_size s1 bp"
    have pb: "p \<noteq> base" using True d base by auto
    have e: "s2 = set_ptr p (h_ptr s1 bp) (set_size p ?n s1)" using True s2 by (simp add: join_prev_def)
    have "{p..<p + ?n} = {p..<p + h_size s1 p} \<union> {bp..<bp + h_size s1 bp}" using True by auto
    moreover have "p + ?n \<le> c" if "c \<in> set tail" for c using tl(2) True that by (auto simp: add.assoc [symmetric])
    ultimately have "ring base (xs @ p # tail) s2 \<and>
        units_of (h_size s2) (xs @ p # tail) = units_of (h_size s1) (xs @ [p]) \<union> units_of (h_size s1) (bp # tail)"
      using xs so tl far base ne pb pos unfolding ring_def e
      by (auto simp: set_ptr_def set_size_def path_append path_upd spaced_append spaced_upd units_of_upd
          Cons_eq_append_conv append_eq_Cons_conv)
    then show ?thesis by (intro exI [of _ "xs @ p # tail"]) (auto simp: e set_ptr_def set_size_def)
  qed
qed

text \<open>
  The promise of \<open>free\<close>: it returns, the ring is in order again, and the memory in it is that of before
  and that of the block.
\<close>

definition heap_ok :: "nat \<Rightarrow> nat list \<Rightarrow> heap \<Rightarrow> bool" where
  "heap_ok base F s \<longleftrightarrow> ring base F s \<and> (\<exists>q\<in>set F. freep s = Some q)"

lemma free_ok:
  assumes ok: "heap_ok base F s" and bp: "base < bp" "0 < h_size s bp"
    and new: "{bp..<bp + h_size s bp} \<inter> units_of (h_size s) F = {}"
  shows "\<exists>s' G. free (bp + 1) s = Inr s' \<and> heap_ok base G s' \<and>
    units_of (h_size s') G = units_of (h_size s) F \<union> {bp..<bp + h_size s bp} \<and> set G \<subseteq> insert bp (set F) \<and>
    (\<forall>a. a \<notin> set F \<longrightarrow> a \<noteq> bp \<longrightarrow> h_size s' a = h_size s a) \<and> brk s' = brk s \<and>
    (\<exists>a\<in>set G. h_size s bp \<le> h_size s' a)"
proof -
  obtain q where q: "q \<in> set F" "freep s = Some q" and r: "ring base F s" using ok by (auto simp: heap_ok_def)
  have pos: "\<forall>a\<in>set F. a = base \<or> 0 < h_size s a" and base: "h_size s base = 0" "\<exists>rest. F = base # rest"
    using r by (auto simp: ring_def)
  have out: "bp \<notin> units_of (h_size s) F" using new bp(2) by fastforce
  have nF: "bp \<notin> set F"
  proof
    assume "bp \<in> set F"
    then have "0 < h_size s bp" using pos bp by auto
    then show False using out \<open>bp \<in> set F\<close> by (auto simp: units_of_def)
  qed
  obtain xs p ys where F: "F = xs @ p # ys" and sp: "split_at bp xs p ys" using ring_split [OF r bp(1) nF] by blast
  have pa: "path (h_ptr s) (xs @ p # ys) base" and so: "spaced (h_size s) (xs @ p # ys)" using r F by (auto simp: ring_def)
  have below: "a < bp \<and> a + h_size s a \<le> bp" if "a \<in> set (xs @ [p])" for a
  proof -
    have "a < bp" using that sp by (auto simp: split_at_def)
    moreover have "\<not> (a \<le> bp \<and> bp < a + h_size s a)" using out that F by (auto simp: units_of_def)
    ultimately show ?thesis by simp
  qed
  have above: "bp < b \<and> bp + h_size s bp \<le> b" if "b \<in> set ys" for b
  proof -
    have lt: "bp < b" using that sp by (auto simp: split_at_def)
    have "b \<in> set F" using that F by simp
    moreover from this have "b \<in> {b..<b + h_size s b}" using pos bp(1) lt by auto
    ultimately have "b \<in> units_of (h_size s) F" unfolding units_of_def by blast
    then have "b \<notin> {bp..<bp + h_size s bp}" using new by blast
    then show ?thesis using lt by simp
  qed
  define s1 where "s1 = join_next bp p s"
  define s2 where "s2 = join_prev bp p s1"
  have "spaced (h_size s) (bp # ys)" using so above by (simp add: spaced_append)
  from join_next_ok [OF _ _ this bp(1) s1_def] pa obtain tail where tail: "set tail \<subseteq> set ys" "path (h_ptr s1) (bp # tail) base"
      "spaced (h_size s1) (bp # tail)" "units_of (h_size s1) (bp # tail) = {bp..<bp + h_size s bp} \<union> units_of (h_size s) ys"
      "\<forall>a. a \<noteq> bp \<longrightarrow> h_ptr s1 a = h_ptr s a \<and> h_size s1 a = h_size s a" "h_size s bp \<le> h_size s1 bp"
    by (auto simp: path_append s1_def join_next_def set_ptr_def set_size_def)
  have same: "path (h_ptr s1) xs p \<longleftrightarrow> path (h_ptr s) xs p" "spaced (h_size s1) (xs @ [p]) \<longleftrightarrow> spaced (h_size s) (xs @ [p])"
      "units_of (h_size s1) (xs @ [p]) = units_of (h_size s) (xs @ [p])"
  proof -
    have e: "h_ptr s1 = (h_ptr s)(bp := h_ptr s1 bp)" "h_size s1 = (h_size s)(bp := h_size s1 bp)"
      using tail(5) by (auto simp: fun_eq_iff)
    have n: "bp \<notin> set xs" "bp \<notin> set (xs @ [p])" using nF F by auto
    show "path (h_ptr s1) xs p \<longleftrightarrow> path (h_ptr s) xs p" by (subst e(1)) (rule path_upd [OF n(1)])
    show "spaced (h_size s1) (xs @ [p]) \<longleftrightarrow> spaced (h_size s) (xs @ [p])" by (subst e(2)) (rule spaced_upd [OF n(2)])
    show "units_of (h_size s1) (xs @ [p]) = units_of (h_size s) (xs @ [p])" by (subst e(2)) (rule units_of_upd [OF n(2)])
  qed
  have "\<exists>G. ring base G s2 \<and> p \<in> set G \<and> set G \<subseteq> set (xs @ p # bp # tail) \<and>
      units_of (h_size s2) G = units_of (h_size s1) (xs @ [p]) \<union> units_of (h_size s1) (bp # tail) \<and>
      (\<forall>a. a \<noteq> p \<longrightarrow> h_size s2 a = h_size s1 a) \<and> (\<exists>a\<in>set G. h_size s1 bp \<le> h_size s2 a)"
  proof (rule join_prev_ok [OF _ _ _ tail(2,3) s2_def])
    show "path (h_ptr s1) xs p" "spaced (h_size s1) (xs @ [p])" using same pa so by (auto simp: path_append spaced_append)
    show "\<forall>a\<in>set (xs @ [p]). a < bp \<and> a + h_size s1 a \<le> bp" using below tail(5) by fastforce
    show "\<exists>rest. xs @ [p] = base # rest" using base(2) F by (cases xs) auto
    show "h_size s1 base = 0" using base bp tail(5) by simp
    show "\<forall>a\<in>set (xs @ p # bp # tail). a = base \<or> 0 < h_size s1 a"
    proof
      fix a assume a: "a \<in> set (xs @ p # bp # tail)"
      show "a = base \<or> 0 < h_size s1 a"
      proof (cases "a = bp")
        case True
        then show ?thesis using tail(6) bp(2) by simp
      next
        case False
        then have "a \<in> set F" "h_size s1 a = h_size s a" using a tail(1,5) F by auto
        then show ?thesis using pos by simp
      qed
    qed
  qed
  then obtain G where G: "ring base G s2" "p \<in> set G" "set G \<subseteq> set (xs @ p # bp # tail)"
      "units_of (h_size s2) G = units_of (h_size s1) (xs @ [p]) \<union> units_of (h_size s1) (bp # tail)"
      "\<forall>a. a \<noteq> p \<longrightarrow> h_size s2 a = h_size s1 a" "\<exists>a\<in>set G. h_size s1 bp \<le> h_size s2 a" by blast
  let ?s = "s2\<lparr>freep := Some p\<rparr>"
  have "free (bp + 1) s = Inr ?s"
    using search_ends [OF r [unfolded F] sp] q F by (simp add: free_def s1_def s2_def)
  moreover have "heap_ok base G ?s" using G(1,2) by (auto simp: heap_ok_def ring_def)
  moreover have "units_of (h_size ?s) G = units_of (h_size s) F \<union> {bp..<bp + h_size s bp}"
    using G(4) tail(4) same(3) F by auto
  moreover have "brk ?s = brk s" by (simp add: s2_def s1_def join_prev_def join_next_def set_ptr_def set_size_def)
  moreover have "set G \<subseteq> insert bp (set F)" using G(3) tail(1) F by auto
  moreover have "\<forall>a. a \<notin> set F \<longrightarrow> a \<noteq> bp \<longrightarrow> h_size ?s a = h_size s a" using G(5) tail(5) F by auto
  moreover have "\<exists>a\<in>set G. h_size s bp \<le> h_size ?s a" using G(6) tail(6) by (auto intro: le_trans)
  ultimately show ?thesis by blast
qed

section \<open>malloc\<close>

lemma before_in_ring:
  assumes "ring base F s" and "v \<in> set F" and "h_ptr s v \<noteq> base"
  shows "\<exists>xs ys. F = xs @ v # h_ptr s v # ys"
proof -
  obtain xs zs where F: "F = xs @ v # zs" using assms(2) by (auto simp: in_set_conv_decomp)
  moreover have "path (h_ptr s) F base" using assms(1) unfolding ring_def by blast
  ultimately have "h_ptr s v = hd (zs @ [base])" using path_at by blast
  then show ?thesis using F assms(3) by (cases zs) auto
qed

lemma cut_end:
  "P = Q \<union> B \<Longrightarrow> Q \<inter> B = {} \<Longrightarrow> A \<inter> P = {} \<Longrightarrow> C \<inter> P = {} \<Longrightarrow> (A \<union> P \<union> C) - B = A \<union> Q \<union> C"
  by blast

lemma take_block_ok:
  assumes r: "ring base F s" and v: "v \<in> set F" "h_ptr s v = p" and n: "0 < n" "n \<le> h_size s p"
    and t: "take_block n v p s = (a, s')"
  shows "\<exists>G b. a = b + 1 \<and> heap_ok base G s' \<and> h_size s' b = n \<and> {b..<b + n} \<subseteq> units_of (h_size s) F \<and>
    units_of (h_size s') G = units_of (h_size s) F - {b..<b + n} \<and> set G \<subseteq> set F \<and>
    (\<forall>c. c \<notin> set F \<longrightarrow> c \<noteq> b \<longrightarrow> h_size s' c = h_size s c) \<and> brk s' = brk s"
proof -
  have p: "p \<noteq> base" using n r by (auto simp: ring_def)
  then obtain xs ys where F: "F = xs @ v # p # ys" using before_in_ring [OF r v(1)] v(2) by blast
  obtain rest where rest: "F = base # rest" using r by (auto simp: ring_def)
  have pa: "path (h_ptr s) (xs @ v # p # ys) base" and so: "spaced (h_size s) (xs @ v # p # ys)"
    and z: "h_size s base = 0" and pos: "\<forall>a\<in>set F. a = base \<or> 0 < h_size s a" using r F by (auto simp: ring_def)
  have sep: "c + h_size s c \<le> p" if "c \<in> set (xs @ [v])" for c
    using so that by (auto simp: spaced_append)
  have sep': "p + h_size s p \<le> c" "p < c" if "c \<in> set ys" for c
    using so that by (auto simp: spaced_append)
  have ne: "p \<notin> set xs" "p \<notin> set ys" "v \<noteq> p" "v \<notin> set xs" "v \<notin> set ys"
    using so by (auto simp: spaced_append)
  have dis: "units_of (h_size s) (xs @ [v]) \<inter> {p..<p + h_size s p} = {}" "units_of (h_size s) ys \<inter> {p..<p + h_size s p} = {}"
    using sep sep' by (fastforce simp: units_of_def)+
  have U: "units_of (h_size s) F = units_of (h_size s) (xs @ [v]) \<union> {p..<p + h_size s p} \<union> units_of (h_size s) ys"
    using F by auto
  show ?thesis
  proof (cases "h_size s p = n")
    case True
    have s': "a = p + 1" "s' = (set_ptr v (h_ptr s p) s)\<lparr>freep := Some v\<rparr>" using t True by (simp_all add: take_block_def)
    have "\<exists>rest. xs @ v # ys = base # rest" using rest F by (cases xs) auto
    then have "heap_ok base (xs @ v # ys) s'"
      using pa so ne z pos F unfolding s'(2) heap_ok_def ring_def
      by (auto simp: set_ptr_def path_append path_upd spaced_append)
    moreover have "units_of (h_size s') (xs @ v # ys) = units_of (h_size s) F - {p..<p + n}"
      using dis U True by (auto simp: s'(2) set_ptr_def)
    ultimately show ?thesis using True F U s'
      by (intro exI [of _ "xs @ v # ys"] exI [of _ p]) (auto simp: set_ptr_def)
  next
    case False
    let ?m = "h_size s p - n"
    define b where "b = p + ?m"
    have s': "a = b + 1" "s' = (set_size b n (set_size p ?m s))\<lparr>freep := Some v\<rparr>"
      using t False by (simp_all add: take_block_def b_def Let_def)
    have m: "0 < ?m" "p < b" "b + n = p + h_size s p" using n False by (auto simp: b_def)
    have nb: "b \<notin> set F"
    proof
      assume "b \<in> set F"
      then have "b \<in> set (xs @ [v]) \<or> b \<in> set ys" using F m(2) by auto
      then show False using sep [of b] sep' [of b] m n by auto
    qed
    have sz: "h_size s' c = (if c = b then n else if c = p then ?m else h_size s c)" for c
      by (simp add: s'(2) set_size_def)
    have e: "h_size s' = ((h_size s)(p := ?m))(b := n)" by (auto simp: sz fun_eq_iff)
    have out: "units_of (h_size s') as = units_of (h_size s) as" "spaced (h_size s') as = spaced (h_size s) as"
      if "set as \<subseteq> set F - {p}" for as
    proof -
      have n: "b \<notin> set as" "p \<notin> set as" using that nb by auto
      show "units_of (h_size s') as = units_of (h_size s) as" unfolding e units_of_upd [OF n(1)] units_of_upd [OF n(2)] ..
      show "spaced (h_size s') as = spaced (h_size s) as" unfolding e spaced_upd [OF n(1)] spaced_upd [OF n(2)] ..
    qed
    have sub: "set xs \<subseteq> set F - {p}" "set ys \<subseteq> set F - {p}" "set (xs @ [v]) \<subseteq> set F - {p}" using F ne by auto
    have vb: "v \<noteq> b" "p \<noteq> b" using nb F by auto
    have sep2: "p + ?m \<le> c" if "c \<in> set ys" for c using sep'(1) [OF that] by simp
    have "spaced (h_size s') F"
      using so out(2) [OF sub(1)] out(2) [OF sub(2)] nb F vb ne sep2 m(2)
      by (auto simp: spaced_append sz)
    moreover have "\<forall>a\<in>set F. a = base \<or> 0 < h_size s' a" using pos nb m by (auto simp: sz)
    moreover have "h_size s' base = 0" using z p nb rest by (auto simp: sz)
    moreover have "path (h_ptr s') F base" using pa F by (simp add: s'(2) set_size_def)
    ultimately have "heap_ok base F s'" using rest v(1) by (auto simp: heap_ok_def ring_def s'(2))
    moreover have "units_of (h_size s') F = units_of (h_size s) F - {b..<b + n}"
    proof -
      have "units_of (h_size s') F = units_of (h_size s) (xs @ [v]) \<union> {p..<p + ?m} \<union> units_of (h_size s) ys"
        using out(1) [OF sub(3)] out(1) [OF sub(2)] vb F by (auto simp: sz)
      moreover have "{p..<p + h_size s p} = {p..<p + ?m} \<union> {b..<b + n}" "{p..<p + ?m} \<inter> {b..<b + n} = {}" using m by (auto simp: b_def)
      ultimately show ?thesis using cut_end [OF _ _ dis] U by metis
    qed
    moreover have "{b..<b + n} \<subseteq> {p..<p + h_size s p}" using m by auto
    then have "{b..<b + n} \<subseteq> units_of (h_size s) F" using U by blast
    moreover have "p \<in> set F" using F by simp
    then have "\<forall>c. c \<notin> set F \<longrightarrow> c \<noteq> b \<longrightarrow> h_size s' c = h_size s c" by (auto simp: sz)
    moreover have "h_size s' b = n" "brk s' = brk s" by (simp_all add: sz, simp add: s'(2) set_size_def)
    ultimately show ?thesis using s'(1) by blast
  qed
qed

end
