(* ===== verification/UmallocProps.thy ===== *)
theory UmallocProps
  imports Umalloc
begin

text \<open>
  What the allocator of user programs promises: \<open>malloc\<close> always returns, the blocks it hands out are
  apart from one another, and \<open>free\<close> takes them back.
\<close>

section \<open>The walk of malloc\<close>

text \<open>What the search does when no block of the ring is large enough.\<close>

definition retry :: "(nat \<Rightarrow> int \<Rightarrow> bool) \<Rightarrow> u32 \<Rightarrow> heap \<Rightarrow> (nat option \<times> heap) result option" where
  "retry grow n s =
     (case morecore grow n s of
        Inl e \<Rightarrow> Some (Inl e)
      | Inr None \<Rightarrow> Some (Inr (None, s))
      | Inr (Some (q, s1)) \<Rightarrow> malloc_loop grow n q (h_ptr s1 q) s1)"

definition taken :: "nat \<Rightarrow> nat \<Rightarrow> heap \<Rightarrow> (nat option \<times> heap) result option" where
  "taken n v s = (case take_block n v (h_ptr s v) s of (r, s1) \<Rightarrow> Some (Inr (Some r, s1)))"

lemma loop_walk:
  assumes "path (h_ptr s) (v # L) q" and "q \<notin> set L" and "freep s = Some q"
  shows "(\<exists>a\<in>set (v # L). unat n \<le> h_size s (h_ptr s a) \<and>
        malloc_loop grow n v (h_ptr s v) s = taken (unat n) a s) \<or>
     ((\<forall>a\<in>set (L @ [q]). h_size s a < unat n) \<and> malloc_loop grow n v (h_ptr s v) s = retry grow n s)"
  using assms(1,2)
proof (induction L arbitrary: v)
  case Nil
  then show ?case using assms(3)
    by (cases "unat n \<le> h_size s q")
      (auto simp: malloc_loop.simps [of _ _ v q] taken_def retry_def split: prod.splits)
next
  case (Cons a L)
  have a: "h_ptr s v = a" "path (h_ptr s) (a # L) q" "q \<notin> set L" "a \<noteq> q" using Cons.prems by auto
  show ?case
  proof (cases "unat n \<le> h_size s a")
    case True
    then show ?thesis using a(1) by (intro disjI1 bexI [of _ v]) (auto simp: malloc_loop.simps [of _ _ v a] taken_def)
  next
    case False
    then have "malloc_loop grow n v (h_ptr s v) s = malloc_loop grow n a (h_ptr s a) s"
      using a assms(3) by (simp add: malloc_loop.simps [of _ _ v a])
    then show ?thesis using Cons.IH [OF a(2,3)] False by auto
  qed
qed

lemma loop_ring:
  assumes "ring base F s" and "q \<in> set F" and "freep s = Some q"
  shows "(\<exists>a\<in>set F. unat n \<le> h_size s (h_ptr s a) \<and>
        malloc_loop grow n q (h_ptr s q) s = taken (unat n) a s) \<or>
     ((\<forall>a\<in>set F. h_size s a < unat n) \<and> malloc_loop grow n q (h_ptr s q) s = retry grow n s)"
proof -
  obtain xs ys where F: "F = xs @ q # ys" using assms(2) by (auto simp: in_set_conv_decomp)
  have so: "spaced (h_size s) (xs @ q # ys)" using assms(1) unfolding ring_def F by simp
  have nq: "q \<notin> set (ys @ xs)" using so by (auto simp: spaced_append)
  obtain rest where "xs @ [q] = base # rest" using assms(1) F by (cases xs) (auto simp: ring_def)
  then have "hd (xs @ [q]) = base" by simp
  then have "path (h_ptr s) (q # ys @ xs) q"
    using assms(1) path_append [of "h_ptr s" xs "q # ys" base] path_append [of "h_ptr s" "q # ys" xs q] F
    by (simp add: ring_def)
  from loop_walk [OF this nq assms(3), of n grow] show ?thesis using F by auto
qed

section \<open>The blocks in use\<close>

text \<open>
  \<open>F\<close> is the ring, \<open>U\<close> the headers of the blocks handed out: all of them below the break, no two
  sharing a unit of memory.
\<close>

definition blocks_ok :: "nat \<Rightarrow> nat list \<Rightarrow> nat set \<Rightarrow> heap \<Rightarrow> bool" where
  "blocks_ok base F U s \<longleftrightarrow> heap_ok base F s \<and> base < brk s \<and>
     units_of (h_size s) F \<subseteq> {..<brk s} \<and>
     (\<forall>u\<in>U. base < u \<and> 0 < h_size s u \<and> u + h_size s u \<le> brk s \<and>
        {u..<u + h_size s u} \<inter> units_of (h_size s) F = {}) \<and>
     (\<forall>u\<in>U. \<forall>v\<in>U. u \<noteq> v \<longrightarrow> {u..<u + h_size s u} \<inter> {v..<v + h_size s v} = {})"

lemma used_block:
  assumes "blocks_ok base F U s" and "u \<in> U"
  shows "base < u" and "0 < h_size s u" and "u + h_size s u \<le> brk s"
    and "{u..<u + h_size s u} \<inter> units_of (h_size s) F = {}"
  using assms unfolding blocks_ok_def by blast+

lemma used_not_free:
  assumes "blocks_ok base F U s" and "u \<in> U"
  shows "u \<notin> set F"
proof
  assume "u \<in> set F"
  then have "{u..<u + h_size s u} \<subseteq> units_of (h_size s) F" by (auto simp: units_of_def)
  then show False using assms by (fastforce simp: blocks_ok_def)
qed

text \<open>The blocks in use stay apart from the ring when the ring only gets blocks that were not in use.\<close>

lemma blocks_ring:
  assumes b: "blocks_ok base F U s" and h: "heap_ok base G s'" and le: "brk s \<le> brk s'"
    and sz: "\<And>u. u \<in> V \<Longrightarrow> h_size s' u = h_size s u" and sub: "V \<subseteq> U"
    and u: "units_of (h_size s') G \<subseteq> {..<brk s'}"
    and apart: "\<And>u. u \<in> V \<Longrightarrow> {u..<u + h_size s u} \<inter> units_of (h_size s') G = {}"
  shows "blocks_ok base G V s'"
proof -
  have old: "base < u \<and> 0 < h_size s u \<and> u + h_size s u \<le> brk s"
      "w \<in> U \<Longrightarrow> u \<noteq> w \<Longrightarrow> {u..<u + h_size s u} \<inter> {w..<w + h_size s w} = {}" if "u \<in> U" for u w
    using b that unfolding blocks_ok_def by blast+
  have "base < u \<and> 0 < h_size s' u \<and> u + h_size s' u \<le> brk s' \<and> {u..<u + h_size s' u} \<inter> units_of (h_size s') G = {}"
    if "u \<in> V" for u
    using old(1) [of u] sz [OF that] apart [OF that] that sub le by auto
  moreover have "{u..<u + h_size s' u} \<inter> {w..<w + h_size s' w} = {}" if "u \<in> V" "w \<in> V" "u \<noteq> w" for u w
    unfolding sz [OF that(1)] sz [OF that(2)] using old(2) that sub by blast
  moreover have "base < brk s'" using b le unfolding blocks_ok_def by simp
  ultimately show ?thesis using h u unfolding blocks_ok_def by blast
qed

lemma blocks_insert:
  assumes "blocks_ok base G U s" and "base < a" "0 < h_size s a" "a + h_size s a \<le> brk s"
    and "{a..<a + h_size s a} \<inter> units_of (h_size s) G = {}"
    and "\<And>u. u \<in> U \<Longrightarrow> {a..<a + h_size s a} \<inter> {u..<u + h_size s u} = {}"
  shows "blocks_ok base G (insert a U) s"
  using assms unfolding blocks_ok_def ball_simps insert_iff by (metis Int_commute)

lemma take_ok:
  assumes b: "blocks_ok base F U s" and v: "v \<in> set F" "n \<le> h_size s (h_ptr s v)" "0 < n"
  shows "\<exists>a s' G. taken n v s = Some (Inr (Some (a + 1), s')) \<and> blocks_ok base G (insert a U) s' \<and> a \<notin> U \<and>
    h_size s' a = n \<and> {a..<a + n} \<subseteq> units_of (h_size s) F \<and> (\<forall>u\<in>U. h_size s' u = h_size s u) \<and> brk s' = brk s"
proof -
  have h: "heap_ok base F s" "base < brk s" "units_of (h_size s) F \<subseteq> {..<brk s}" using b by (auto simp: blocks_ok_def)
  have r: "ring base F s" using h(1) by (simp add: heap_ok_def)
  obtain r s' where t: "take_block n v (h_ptr s v) s = (r, s')" by fastforce
  from take_block_ok [OF r v(1) refl v(3,2) t] obtain G a where g: "r = a + 1" "heap_ok base G s'" "h_size s' a = n"
      "{a..<a + n} \<subseteq> units_of (h_size s) F" "units_of (h_size s') G = units_of (h_size s) F - {a..<a + n}"
      "\<forall>c. c \<notin> set F \<longrightarrow> c \<noteq> a \<longrightarrow> h_size s' c = h_size s c" "brk s' = brk s" by blast
  have a: "a \<in> units_of (h_size s) F" using g(4) v(3) by auto
  have ab: "base < a"
  proof -
    obtain c where c: "c \<in> set F" "c \<le> a" "a < c + h_size s c" using a by (auto simp: units_of_def)
    obtain rest where F: "F = base # rest" "h_size s base = 0" "spaced (h_size s) F" using r by (auto simp: ring_def)
    then have "c \<noteq> base" using c by auto
    then show ?thesis using F c by auto
  qed
  have nu: "a \<notin> U" using a b by (fastforce simp: blocks_ok_def)
  have sz: "h_size s' u = h_size s u" if "u \<in> U" for u
    using g(6) used_not_free [OF b that] nu that by metis
  have apart: "{u..<u + h_size s u} \<inter> units_of (h_size s) F = {}" if "u \<in> U" for u
    using b that by (simp add: blocks_ok_def)
  have "blocks_ok base G U s'"
    by (rule blocks_ring [OF b g(2) _ sz subset_refl]) (use g(5,7) h apart in auto)
  moreover have "{a..<a + n} \<inter> units_of (h_size s') G = {}" using g(5) by blast
  moreover have "{a..<a + n} \<inter> {u..<u + h_size s' u} = {}" if "u \<in> U" for u
    unfolding sz [OF that] using g(4) apart [OF that] by blast
  moreover have "a + n \<le> brk s'"
  proof -
    have "a + n - 1 \<in> units_of (h_size s) F" using g(4) v(3) by auto
    then show ?thesis using h(3) g(7) v(3) by auto
  qed
  ultimately have "blocks_ok base G (insert a U) s'"
    by (intro blocks_insert) (use ab g(3) v(3) in auto)
  then show ?thesis using t g nu sz by (auto simp: taken_def)
qed

section \<open>morecore\<close>

lemma grown_size:
  fixes nu :: u32
  assumes "unat nu < 2 ^ 28"
  shows "sint (nu * 8) div 8 = int (unat nu)"
proof -
  have u: "unat (nu * 8) = unat nu * 8" using assms by (simp add: unat_word_ariths)
  have "uint (nu * 8) = int (unat nu) * 8" unfolding uint_nat u by simp
  moreover have "- (2 ^ 31) \<le> int (unat nu) * 8" "int (unat nu) * 8 < 2 ^ 31" using assms by (simp_all del: uint_nat of_nat_unat)
  ultimately have "sint (nu * 8) = int (unat nu) * 8"
    by (simp add: sint_uint signed_take_bit_int_eq_self del: uint_nat)
  then show ?thesis by simp
qed

lemma morecore_ok:
  assumes b: "blocks_ok base F U s" and n: "unat nu < 2 ^ 28"
  shows "morecore grow nu s = Inr None \<and> (\<exists>d. \<not> grow (brk s) d) \<or>
    (\<exists>q s1 G. morecore grow nu s = Inr (Some (q, s1)) \<and> freep s1 = Some q \<and> q \<in> set G \<and> blocks_ok base G U s1 \<and>
       (\<forall>u\<in>U. h_size s1 u = h_size s u) \<and> (\<exists>a\<in>set G. unat nu \<le> h_size s1 a))"
proof -
  define nu1 where "nu1 = (if nu < 4096 then 4096 else nu)"
  have m: "unat nu1 < 2 ^ 28" "unat nu \<le> unat nu1" "0 < unat nu1"
    using n by (auto simp: nu1_def word_less_nat_alt not_less)
  show ?thesis
  proof (cases "grow (brk s) (int (unat nu1))")
    case False
    then show ?thesis using grown_size [OF m(1)] by (auto simp: morecore_def Let_def nu1_def sbrk_def)
  next
    case True
    let ?b = "brk s"
    define s1 where "s1 = set_size ?b (unat nu1) (s\<lparr>brk := ?b + unat nu1\<rparr>)"
    have sbrk: "sbrk grow (sint (nu1 * 8) div 8) s = Some (?b, s\<lparr>brk := ?b + unat nu1\<rparr>)"
      using True grown_size [OF m(1)] by (simp add: sbrk_def nat_add_distrib)
    have h: "heap_ok base F s" "base < ?b" "units_of (h_size s) F \<subseteq> {..<?b}" using b by (auto simp: blocks_ok_def)
    have r: "ring base F s" using h(1) by (simp add: heap_ok_def)
    have nF: "?b \<notin> set F"
    proof
      assume a: "?b \<in> set F"
      then have "0 < h_size s ?b" using r h(2) by (auto simp: ring_def)
      then have "?b \<in> units_of (h_size s) F" using a by (force simp: units_of_def)
      then show False using h(3) by auto
    qed
    have e: "h_size s1 = (h_size s)(?b := unat nu1)" "h_ptr s1 = h_ptr s" "freep s1 = freep s" "brk s1 = ?b + unat nu1"
      by (simp_all add: s1_def set_size_def)
    have h1: "heap_ok base F s1"
      using h(1,2) nF spaced_upd [OF nF, of "h_size s" "unat nu1"] unfolding heap_ok_def ring_def e by auto
    have u1: "units_of (h_size s1) F = units_of (h_size s) F" unfolding e using units_of_upd [OF nF] .
    have "{?b..<?b + h_size s1 ?b} \<inter> units_of (h_size s1) F = {}" unfolding u1 using h(3) by force
    moreover have sb: "h_size s1 ?b = unat nu1" by (simp add: e)
    ultimately have "\<exists>s2 G. free (?b + 1) s1 = Inr s2 \<and> heap_ok base G s2 \<and>
        units_of (h_size s2) G = units_of (h_size s) F \<union> {?b..<?b + unat nu1} \<and> set G \<subseteq> insert ?b (set F) \<and>
        (\<forall>a. a \<notin> set F \<longrightarrow> a \<noteq> ?b \<longrightarrow> h_size s2 a = h_size s1 a) \<and> brk s2 = ?b + unat nu1 \<and>
        (\<exists>a\<in>set G. unat nu1 \<le> h_size s2 a)"
      using free_ok [OF h1 h(2)] m(3) unfolding u1 sb e(4) by blast
    then obtain s2 G where g: "free (?b + 1) s1 = Inr s2" "heap_ok base G s2"
        "units_of (h_size s2) G = units_of (h_size s) F \<union> {?b..<?b + unat nu1}"
        "\<forall>a. a \<notin> set F \<longrightarrow> a \<noteq> ?b \<longrightarrow> h_size s2 a = h_size s1 a" "brk s2 = ?b + unat nu1"
        "\<exists>a\<in>set G. unat nu1 \<le> h_size s2 a" by blast
    obtain q where q: "freep s2 = Some q" "q \<in> set G" using g(2) by (auto simp: heap_ok_def)
    have below: "u < ?b" "{u..<u + h_size s u} \<inter> units_of (h_size s) F = {}" "u + h_size s u \<le> ?b" if "u \<in> U" for u
      using used_block [OF b that] by auto
    have sz: "h_size s2 u = h_size s u" if "u \<in> U" for u
      using g(4) used_not_free [OF b that] below(1) [OF that] by (simp add: e)
    have "blocks_ok base G U s2"
    proof (rule blocks_ring [OF b g(2) _ sz subset_refl])
      show "{u..<u + h_size s u} \<inter> units_of (h_size s2) G = {}" if "u \<in> U" for u
        using below [OF that] g(3) by auto
      show "units_of (h_size s2) G \<subseteq> {..<brk s2}" using g(3,5) h(3) by auto
    qed (use g(5) in auto)
    moreover have "morecore grow nu s = Inr (Some (q, s2))"
      using sbrk g(1) q(1) by (simp add: morecore_def Let_def nu1_def s1_def)
    moreover have "\<exists>a\<in>set G. unat nu \<le> h_size s2 a" using g(6) m(2) order_trans by blast
    ultimately show ?thesis using q sz by blast
  qed
qed

section \<open>malloc and free\<close>

text \<open>The first call of \<open>malloc\<close> sets the ring up with the empty block \<open>base\<close> alone.\<close>

definition started :: "nat \<Rightarrow> heap \<Rightarrow> heap" where
  "started base s =
     (if freep s = None then (set_size base 0 (set_ptr base base s))\<lparr>freep := Some base\<rparr> else s)"

definition alloc_ok :: "nat \<Rightarrow> nat list \<Rightarrow> nat set \<Rightarrow> heap \<Rightarrow> bool" where
  "alloc_ok base F U s \<longleftrightarrow> blocks_ok base F U (started base s) \<and> (freep s = None \<longrightarrow> U = {})"

lemma started_idem [simp]: "freep s = Some q \<Longrightarrow> started base s = s"
  by (simp add: started_def)

lemma blocks_alloc: "blocks_ok base F U s \<Longrightarrow> alloc_ok base F U s"
proof -
  assume b: "blocks_ok base F U s"
  then obtain q where "freep s = Some q" by (auto simp only: blocks_ok_def heap_ok_def)
  then show ?thesis using b by (simp add: alloc_ok_def)
qed

text \<open>The blocks handed out by a call: a new one, or none.\<close>

fun handed :: "nat option \<Rightarrow> nat set \<Rightarrow> nat set" where
  "handed None U = U"
| "handed (Some a) U = insert (a - 1) U"

lemma taken_handed:
  assumes "\<exists>a s' G. t = Some (Inr (Some (a + 1), s')) \<and> blocks_ok base G (insert a U) s' \<and> a \<notin> U \<and>
    h_size s' a = n \<and> {a..<a + n} \<subseteq> Y \<and> (\<forall>u\<in>U. h_size s' u = h_size s u) \<and> brk s' = brk s"
  shows "\<exists>r s' G. t = Some (Inr (r, s')) \<and> blocks_ok base G (handed r U) s' \<and>
    (\<forall>a. r = Some a \<longrightarrow> a - 1 \<notin> U \<and> h_size s' (a - 1) = n) \<and> (\<forall>u\<in>U. h_size s' u = h_size s u) \<and>
    (r = None \<longrightarrow> P)"
proof -
  obtain a s' G where "t = Some (Inr (Some (a + 1), s')) \<and> blocks_ok base G (insert a U) s' \<and> a \<notin> U \<and>
    h_size s' a = n \<and> (\<forall>u\<in>U. h_size s' u = h_size s u)" using assms by blast
  then show ?thesis by (intro exI [of _ "Some (a + 1)"] exI [of _ s'] exI [of _ G]) simp
qed

lemma malloc_ok:
  assumes b: "blocks_ok base F U s" and q: "freep s = Some q" "q \<in> set F" and n: "0 < unat n" "unat n < 2 ^ 28"
  shows "\<exists>r s' G. malloc_loop grow n q (h_ptr s q) s = Some (Inr (r, s')) \<and> blocks_ok base G (handed r U) s' \<and>
    (\<forall>a. r = Some a \<longrightarrow> a - 1 \<notin> U \<and> h_size s' (a - 1) = unat n) \<and> (\<forall>u\<in>U. h_size s' u = h_size s u) \<and>
    (r = None \<longrightarrow> (\<exists>d. \<not> grow (brk s) d))"
proof -
  have ring: "ring base F s" using b by (simp add: blocks_ok_def heap_ok_def)
  from loop_ring [OF ring q(2,1), of n grow] show ?thesis
  proof (elim disjE bexE conjE)
    fix v assume v: "v \<in> set F" "unat n \<le> h_size s (h_ptr s v)" "malloc_loop grow n q (h_ptr s q) s = taken (unat n) v s"
    from take_ok [OF b v(1,2) n(1)] show ?thesis unfolding v(3) by (rule taken_handed)
  next
    assume e: "malloc_loop grow n q (h_ptr s q) s = retry grow n s"
    from morecore_ok [OF b n(2), of grow] show ?thesis
    proof (elim disjE exE conjE)
      fix d assume "morecore grow n s = Inr None" "\<not> grow (brk s) d"
      then show ?thesis unfolding e using b by (auto simp: retry_def)
    next
      fix p s1 G assume m: "morecore grow n s = Inr (Some (p, s1))" "freep s1 = Some p" "p \<in> set G"
        and b1: "blocks_ok base G U s1" and sz: "\<forall>u\<in>U. h_size s1 u = h_size s u" and a: "\<exists>a\<in>set G. unat n \<le> h_size s1 a"
      have ring1: "ring base G s1" using b1 by (simp add: blocks_ok_def heap_ok_def)
      have "\<not> (\<forall>a\<in>set G. h_size s1 a < unat n)" using a by (auto simp: not_less)
      with loop_ring [OF ring1 m(3,2), of n grow] obtain v where
        v: "v \<in> set G" "unat n \<le> h_size s1 (h_ptr s1 v)" "malloc_loop grow n p (h_ptr s1 p) s1 = taken (unat n) v s1"
        by blast
      have "malloc_loop grow n q (h_ptr s q) s = taken (unat n) v s1" unfolding e using m(1) v(3) by (simp add: retry_def)
      then show ?thesis using taken_handed [OF take_ok [OF b1 v(1,2) n(1)]] sz by (metis (full_types))
    qed
  qed
qed


lemma malloc_started:
  assumes "alloc_ok base F U s"
  shows "\<exists>q\<in>set F. freep (started base s) = Some q \<and>
    malloc base grow nbytes s = malloc_loop grow (units nbytes) q (h_ptr (started base s) q) (started base s)"
  using assms by (cases "freep s")
    (auto simp: alloc_ok_def blocks_ok_def heap_ok_def malloc_def started_def Let_def)

lemma started_brk [simp]: "brk (started base s) = brk s"
  by (simp add: started_def set_size_def set_ptr_def)

text \<open>Every request whose number of headers is below \<open>2 ^ 28\<close>.\<close>

lemma malloc_units:
  assumes a: "alloc_ok base F U s" and n: "0 < unat (units nbytes)" "unat (units nbytes) < 2 ^ 28"
  shows "\<exists>r s' G. malloc base grow nbytes s = Some (Inr (r, s')) \<and> alloc_ok base G (handed r U) s' \<and>
    (\<forall>a. r = Some a \<longrightarrow> a - 1 \<notin> U \<and> h_size s' (a - 1) = unat (units nbytes)) \<and>
    (\<forall>u\<in>U. h_size s' u = h_size s u) \<and> (r = None \<longrightarrow> (\<exists>d. \<not> grow (brk s) d))"
proof -
  obtain q where q: "q \<in> set F" "freep (started base s) = Some q"
      "malloc base grow nbytes s = malloc_loop grow (units nbytes) q (h_ptr (started base s) q) (started base s)"
    using malloc_started [OF a] by blast
  have b: "blocks_ok base F U (started base s)" using a by (simp add: alloc_ok_def)
  have "h_size (started base s) u = h_size s u" if "u \<in> U" for u
    using a that by (cases "freep s") (auto simp: alloc_ok_def)
  with malloc_ok [OF b q(2,1) n, of grow] show ?thesis unfolding q(3) started_brk by (metis blocks_alloc)
qed


definition fresh_heap :: heap where
  "fresh_heap = \<lparr>h_ptr = (\<lambda>_. 0), h_size = (\<lambda>_. 0), freep = None, brk = 1024\<rparr>"

lemma fresh_alloc_ok: "alloc_ok 16 [16] {} fresh_heap"
  by (simp add: fresh_heap_def alloc_ok_def started_def blocks_ok_def heap_ok_def ring_def set_size_def set_ptr_def units_of_def)


text \<open>C35: \<open>free\<close> of a block in use returns: its search of the ring ends. The ring then holds the memory it
  held and that of the block, joined with its neighbours; the other blocks in use are as before.\<close>

theorem free_returns:
  assumes "alloc_ok base F U s" and "u \<in> U"
  shows "\<exists>s' G. free (u + 1) s = Inr s' \<and> alloc_ok base G (U - {u}) s' \<and>
    units_of (h_size s') G = units_of (h_size s) F \<union> {u..<u + h_size s u} \<and>
    (\<forall>v\<in>U - {u}. h_size s' v = h_size s v)"
proof -
  have "freep s \<noteq> None" using assms by (auto simp: alloc_ok_def)
  then have b: "blocks_ok base F U s" using assms(1) by (auto simp: alloc_ok_def started_def)
  note u = used_block [OF b assms(2)]
  have h: "heap_ok base F s" "units_of (h_size s) F \<subseteq> {..<brk s}" using b by (simp_all add: blocks_ok_def)
  obtain s' G where g: "free (u + 1) s = Inr s'" "heap_ok base G s'"
      "units_of (h_size s') G = units_of (h_size s) F \<union> {u..<u + h_size s u}"
      "\<forall>a. a \<notin> set F \<longrightarrow> a \<noteq> u \<longrightarrow> h_size s' a = h_size s a" "brk s' = brk s"
    using free_ok [OF h(1) u(1,2,4)] by blast
  have sz: "h_size s' v = h_size s v" if "v \<in> U - {u}" for v
    using g(4) used_not_free [OF b, of v] that by simp
  have "blocks_ok base G (U - {u}) s'"
  proof (rule blocks_ring [OF b g(2) _ sz Diff_subset])
    show "{v..<v + h_size s v} \<inter> units_of (h_size s') G = {}" if "v \<in> U - {u}" for v
    proof -
      have "{v..<v + h_size s v} \<inter> units_of (h_size s) F = {}" "{v..<v + h_size s v} \<inter> {u..<u + h_size s u} = {}"
        using b that assms(2) unfolding blocks_ok_def by blast+
      then show ?thesis unfolding g(3) by blast
    qed
    show "units_of (h_size s') G \<subseteq> {..<brk s'}" using g(3,5) h(2) u(3) by auto
  qed (use g(5) in simp_all)
  then show ?thesis using g(1,3) sz blocks_alloc by blast
qed

text \<open>A block of 3 units between the free block of 4 and the break.\<close>

definition one_used :: heap where
  "one_used = \<lparr>h_ptr = (\<lambda>a. if a = 16 then 20 else 16), h_size = (\<lambda>a. if a = 20 then 4 else if a = 24 then 3 else 0),
     freep = Some 16, brk = 1024\<rparr>"

theorem free_returns_witness:
  "\<exists>s' G. free 25 one_used = Inr s' \<and> units_of (h_size s') G = {20..<27}"
proof -
  have "blocks_ok 16 [16, 20] {24} one_used"
    by (auto simp: one_used_def blocks_ok_def heap_ok_def ring_def units_of_def)
  from free_returns [OF blocks_alloc [OF this], of 24] show ?thesis
    by (auto simp: one_used_def units_of_def ivl_disj_un_two)
qed

text \<open>A request of more than \<open>2 ^ 32 - 8\<close> bytes wraps in the rounding: \<open>malloc\<close> then hands out a block
  with a header and no byte of room, instead of refusing.\<close>

theorem malloc_wraps:
  assumes "alloc_ok base F U s" and "unat nbytes > 2 ^ 32 - 8"
  shows "\<exists>r s' G. malloc base grow nbytes s = Some (Inr (r, s')) \<and> alloc_ok base G (handed r U) s' \<and>
    (\<forall>a. r = Some a \<longrightarrow> h_size s' (a - 1) = 1) \<and> (r = None \<longrightarrow> (\<exists>d. \<not> grow (brk s) d))"
proof -
  have "unat nbytes < 2 ^ LENGTH(32)" by (rule unsigned_less)
  then have lt: "unat nbytes < 2 ^ 32" by simp
  then have "unat nbytes + 7 - 2 ^ 32 < 8" by simp
  moreover have "unat (nbytes + 7) = unat nbytes + 7 - 2 ^ 32"
    using assms(2) lt by (simp add: unat_word_ariths mod_if)
  ultimately have "unat ((nbytes + 7) div 8) = 0" by (simp add: unat_div_distrib)
  then have "units nbytes = 1" by (simp add: units_def unat_eq_0)
  then show ?thesis using malloc_units [OF assms(1), of nbytes grow] by auto
qed

theorem malloc_wraps_witness:
  "\<exists>a s'. malloc 16 (\<lambda>b d. True) 4294967295 fresh_heap = Some (Inr (Some a, s')) \<and> h_size s' (a - 1) = 1"
proof -
  obtain r s' G where m: "malloc 16 (\<lambda>b d. True) 4294967295 fresh_heap = Some (Inr (r, s'))"
      "\<forall>a. r = Some a \<longrightarrow> h_size s' (a - 1) = 1" "r = None \<longrightarrow> (\<exists>d. \<not> (\<lambda>b d. True) (brk fresh_heap) d)"
    using malloc_wraps [OF fresh_alloc_ok, of 4294967295 "\<lambda>b d. True"] by auto
  then obtain a where "r = Some a" by (cases r) auto
  then show ?thesis using m by auto
qed

end
