(* ===== verification/Shell.thy ===== *)
theory Shell
  imports Grep
begin

text \<open>
  The shell (\<open>sh.c\<close>): the reading of lines, the tokens, the parser and the execution of its trees. A
  line is the list of its characters before the NUL, a pointer into it an index, so that the pointer
  \<open>es\<close> to its end is its length. An allocation of a node of the tree succeeds. \<open>panic\<close> of the shell ends
  the process that parses, as \<open>exit\<close> does.
\<close>

section \<open>Trees\<close>

text \<open>
  A word of the line is the pair of the pointers to its start and its end. The arguments of a command
  are a list, whose length is the \<open>argc\<close> of the parser.
\<close>

datatype cmd =
    Exec "(nat \<times> nat) list"
  | Redir cmd nat nat nat nat
  | PipeCmd cmd cmd
  | ListCmd cmd cmd
  | Back cmd

section \<open>Tokens\<close>

definition whitespace :: string where
  "whitespace = [CHR '' '', CHR 0x09, CHR 0x0D, CHR 0x0A, CHR 0x0B]"

definition symbols :: string where
  "symbols = ''<|>&;()''"

definition in_str :: "string \<Rightarrow> char \<Rightarrow> bool" where
  "in_str str c \<longleftrightarrow> strchr str c \<noteq> None"

definition char_at :: "string \<Rightarrow> nat \<Rightarrow> char" where
  "char_at s i = (if i < length s then s ! i else CHR 0x00)"

text \<open>The loops \<open>while(s < es && ...) s++\<close>.\<close>

function skip :: "(char \<Rightarrow> bool) \<Rightarrow> string \<Rightarrow> nat \<Rightarrow> nat" where
  "skip P s i = (if i < length s \<and> P (s ! i) then skip P s (i + 1) else i)"
  by pat_completeness auto
termination by (relation "measure (\<lambda>(P, s, i). length s - i)") auto

declare skip.simps [simp del]

definition word_char :: "char \<Rightarrow> bool" where
  "word_char c \<longleftrightarrow> \<not> in_str whitespace c \<and> \<not> in_str symbols c"

definition gettoken :: "string \<Rightarrow> nat \<Rightarrow> char \<times> nat \<times> nat \<times> nat" where
  "gettoken s i =
     (let q = skip (in_str whitespace) s i; c = char_at s q;
          (ret, eq) =
            (if c = CHR 0x00 then (c, q)
             else if c \<in> set ''|();&<'' then (c, q + 1)
             else if c = CHR ''>'' then
               (if char_at s (q + 1) = CHR ''>'' then (CHR ''+'', q + 2) else (c, q + 1))
             else (CHR ''a'', skip word_char s q))
      in (ret, q, eq, skip (in_str whitespace) s eq))"

definition peek :: "string \<Rightarrow> string \<Rightarrow> nat \<Rightarrow> nat \<times> bool" where
  "peek s toks i =
     (let j = skip (in_str whitespace) s i in (j, char_at s j \<noteq> CHR 0x00 \<and> in_str toks (char_at s j)))"

lemma in_str_set: "CHR 0x00 \<notin> set str \<Longrightarrow> in_str str c \<longleftrightarrow> c \<in> set str"
  by (induction str) (auto simp: in_str_def)

lemma word_char_iff: "word_char c \<longleftrightarrow> c \<notin> set whitespace \<and> c \<notin> set ''<|>&;()''"
  using in_str_set [of symbols c] in_str_set [of whitespace c]
  by (simp add: word_char_def symbols_def whitespace_def)

lemma skip_ge: "i \<le> skip P s i"
  by (induction P s i rule: skip.induct) (subst skip.simps, auto)

lemma skip_le: "i \<le> length s \<Longrightarrow> skip P s i \<le> length s"
  by (induction P s i rule: skip.induct) (subst skip.simps, auto)

lemma skip_all: "i \<le> k \<Longrightarrow> k < skip P s i \<Longrightarrow> k < length s \<and> P (s ! k)"
proof (induction P s i rule: skip.induct)
  case (1 P s i)
  show ?case
  proof (cases "i < length s \<and> P (s ! i)")
    case True
    then have "k < skip P s (i + 1)" using 1(3) by (simp add: skip.simps [of P s i])
    then show ?thesis using 1(1) [OF True] 1(2) True by (cases "k = i") auto
  next
    case False
    then have "skip P s i = i" by (subst skip.simps) (rule if_not_P)
    then show ?thesis using 1(2,3) by linarith
  qed
qed

lemma skip_stop: "skip P s i < length s \<Longrightarrow> \<not> P (s ! skip P s i)"
proof (induction P s i rule: skip.induct)
  case (1 P s i)
  then show ?case by (cases "i < length s \<and> P (s ! i)") (auto simp: skip.simps [of P s i] split: if_splits)
qed

lemma skip_idem [simp]: "skip P s (skip P s i) = skip P s i"
  using skip_stop [of P s i] by (subst skip.simps) auto

lemma char_at_NUL: "char_at s i \<noteq> CHR 0x00 \<Longrightarrow> i < length s"
  by (auto simp: char_at_def split: if_splits)

text \<open>A token other than the end of the line has a length.\<close>

lemma gettoken_progress:
  assumes "gettoken s i = (tok, q, eq, j)"
  shows "i \<le> q" and "q \<le> eq" and "eq \<le> j" and "tok \<noteq> CHR 0x00 \<Longrightarrow> q < eq \<and> q < length s \<and> i < length s \<and> i < j"
proof -
  let ?q = "skip (in_str whitespace) s i"
  have q: "q = ?q" "j = skip (in_str whitespace) s eq"
    and t: "(tok, eq) = (if char_at s ?q = CHR 0x00 then (char_at s ?q, ?q)
             else if char_at s ?q \<in> set ''|();&<'' then (char_at s ?q, ?q + 1)
             else if char_at s ?q = CHR ''>'' then
               (if char_at s (?q + 1) = CHR ''>'' then (CHR ''+'', ?q + 2) else (char_at s ?q, ?q + 1))
             else (CHR ''a'', skip word_char s ?q))"
    using assms by (auto simp: gettoken_def Let_def split: prod.splits)
  show iq: "i \<le> q" unfolding q by (rule skip_ge)
  show qe: "q \<le> eq" using t skip_ge [of ?q word_char s] by (auto simp: q split: if_splits)
  show ej: "eq \<le> j" unfolding q(2) by (rule skip_ge)
  assume n: "tok \<noteq> CHR 0x00"
  then have c: "char_at s q \<noteq> CHR 0x00" using t by (auto simp: q split: if_splits)
  then have l: "q < length s" by (rule char_at_NUL)
  have "\<not> in_str whitespace (s ! q)" using skip_stop [of "in_str whitespace" s i] l by (simp add: q)
  then have "word_char (s ! q)" if "c \<notin> set ''|();&<''" "c \<noteq> CHR ''>''" "c = s ! q" for c
    using that in_str_set [of whitespace "s ! q"] by (auto simp: word_char_iff whitespace_def)
  then have "q < skip word_char s q" if "char_at s q \<notin> set ''|();&<''" "char_at s q \<noteq> CHR ''>''"
    using that l skip_ge [of "q + 1" word_char s] by (subst skip.simps) (auto simp: char_at_def)
  then have "q < eq" using t c by (auto simp: q split: if_splits)
  then show "q < eq \<and> q < length s \<and> i < length s \<and> i < j" using l iq ej by simp
qed

lemma peek_progress:
  assumes "peek s toks i = (j, b)"
  shows "i \<le> j" and "b \<Longrightarrow> j < length s \<and> char_at s j \<noteq> CHR 0x00"
  using assms char_at_NUL by (auto simp: peek_def Let_def skip_ge)

text \<open>After a symbol that is there, the next token begins further on.\<close>

lemma peek_token:
  assumes "peek s toks i = (j, True)" and "gettoken s j = (tok, q, eq, k)"
  shows "i < length s \<and> i < k"
proof -
  have j: "i \<le> j" "j < length s" "char_at s j \<noteq> CHR 0x00" "j = skip (in_str whitespace) s i"
    using peek_progress [OF assms(1)] assms(1) by (auto simp: peek_def Let_def)
  then have "tok \<noteq> CHR 0x00" using assms(2) by (auto simp: gettoken_def Let_def split: prod.splits if_splits)
  then show ?thesis using gettoken_progress [OF assms(2)] j by linarith
qed

section \<open>The parser\<close>

text \<open>
  \<open>parseredirs\<close> wraps the redirections around a tree. The writes of \<open>parseexec\<close> through \<open>cmd\<close> reach the
  node at the bottom of that chain, which \<open>ret\<close> points to the top of.
\<close>

fun add_arg :: "nat \<Rightarrow> nat \<Rightarrow> cmd \<Rightarrow> cmd" where
  "add_arg q eq (Exec args) = Exec (args @ [(q, eq)])"
| "add_arg q eq (Redir c f ef mode fd) = Redir (add_arg q eq c) f ef mode fd"
| "add_arg q eq c = c"

function parseredirs :: "string \<Rightarrow> cmd \<Rightarrow> nat \<Rightarrow> (cmd \<times> nat) result" where
  "parseredirs s c i =
     (case peek s ''<>'' i of (i1, b) \<Rightarrow>
        if \<not> b then Inr (c, i1)
        else (case gettoken s i1 of (tok, _, _, i2) \<Rightarrow>
              case gettoken s i2 of (tok2, q, eq, i3) \<Rightarrow>
                if tok2 \<noteq> CHR ''a'' then Inl (Panic ''missing file for redirection'')
                else parseredirs s
                  (if tok = CHR ''<'' then Redir c q eq 0 0
                   else if tok = CHR ''>'' then Redir c q eq 0x201 1
                   else if tok = CHR ''+'' then Redir c q eq 0x201 1 else c) i3))"
  by pat_completeness auto
termination
proof (relation "measure (\<lambda>(s, c, i). length s - i)")
  fix s i c i1 b tok q eq i2 tok2 q2 eq2 i3 x y z w u v
  assume "(i1, b) = peek s ''<>'' i" "\<not> \<not> b" "(tok, y) = gettoken s i1" "(q, z) = y" "(eq, i2) = z"
    "(tok2, w) = gettoken s i2" "(q2, u) = w" "(eq2, i3) = u"
  then have "i < length s \<and> i < i2" "i2 \<le> i3"
    using peek_token [of s "''<>''" i i1 tok q eq i2] gettoken_progress [of s i2 tok2 q2 eq2 i3] by auto
  then show "((s, if tok = CHR ''<'' then Redir c q2 eq2 0 0
                   else if tok = CHR ''>'' then Redir c q2 eq2 0x201 1
                   else if tok = CHR ''+'' then Redir c q2 eq2 0x201 1 else c, i3), s, c, i)
         \<in> measure (\<lambda>(s, c, i). length s - i)" by auto
qed simp

declare parseredirs.simps [simp del]

text \<open>The loop of \<open>parseexec\<close>, and that of \<open>parseline\<close>.\<close>

lemma parseredirs_ge:
  assumes "parseredirs s c i = Inr (d, j)"
  shows "i \<le> j"
  using assms
proof (induction s c i rule: parseredirs.induct)
  case (1 s c i)
  obtain i1 b tok q eq i2 tok2 q2 eq2 i3 where
    e: "peek s ''<>'' i = (i1, b)" "gettoken s i1 = (tok, q, eq, i2)" "gettoken s i2 = (tok2, q2, eq2, i3)"
    by (metis prod_cases4 surj_pair)
  have le: "i \<le> i1" "i1 \<le> i2" "i2 \<le> i3"
    using peek_progress(1) [OF e(1)] gettoken_progress(1-3) [OF e(2)] gettoken_progress(1-3) [OF e(3)] by linarith+
  show ?case
  proof (cases "b \<and> tok2 = CHR ''a''")
    case True
    then have "i3 \<le> j" using 1(2)
      by (intro 1(1) [OF e(1) [symmetric] _ e(2) [symmetric] refl refl e(3) [symmetric] refl refl])
        (simp_all add: parseredirs.simps [of s c i] e)
    then show ?thesis using le by simp
  next
    case False
    then show ?thesis using 1(2) le by (simp add: parseredirs.simps [of s c i] e split: if_splits)
  qed
qed

function parseargs :: "string \<Rightarrow> nat \<Rightarrow> cmd \<Rightarrow> nat \<Rightarrow> (cmd \<times> nat) result" where
  "parseargs s argc ret i =
     (case peek s ''|)&;'' i of (i1, b) \<Rightarrow>
        if b then Inr (ret, i1)
        else (case gettoken s i1 of (tok, q, eq, i2) \<Rightarrow>
          if tok = CHR 0x00 then Inr (ret, i2)
          else if tok \<noteq> CHR ''a'' then Inl (Panic ''syntax'')
          else if argc + 1 \<ge> 10 then Inl (Panic ''too many args'')
          else rbind (parseredirs s (add_arg q eq ret) i2) (\<lambda>(r, i3). parseargs s (argc + 1) r i3)))"
  by pat_completeness auto
termination
proof (relation "measure (\<lambda>(s, argc, ret, i). length s - i)")
  fix s argc ret i i1 b tok x q y eq i2 z r i3
  assume "(i1, b) = peek s ''|)&;'' i" "(tok, x) = gettoken s i1" "(q, y) = x" "(eq, i2) = y"
    "tok \<noteq> CHR 0x00" "parseredirs s (add_arg q eq ret) i2 = Inr z" "(r, i3) = z"
  then have "i \<le> i1" "i1 < length s \<and> i1 < i2" "i2 \<le> i3"
    using peek_progress(1) [of s "''|)&;''" i i1 b] gettoken_progress(4) [of s i1 tok q eq i2]
      parseredirs_ge [of s "add_arg q eq ret" i2 r i3] by auto
  then show "((s, argc + 1, r, i3), s, argc, ret, i) \<in> measure (\<lambda>(s, argc, ret, i). length s - i)" by auto
qed simp

declare parseargs.simps [simp del]

function parse_backs :: "string \<Rightarrow> cmd \<Rightarrow> nat \<Rightarrow> cmd \<times> nat" where
  "parse_backs s c i =
     (case peek s ''&'' i of (i1, b) \<Rightarrow>
        if b then (case gettoken s i1 of (_, _, _, i2) \<Rightarrow> parse_backs s (Back c) i2) else (c, i1))"
  by pat_completeness auto
termination
proof (relation "measure (\<lambda>(s, c, i). length s - i)")
  fix s c i i1 b tok x q y eq i2
  assume "(i1, b) = peek s ''&'' i" "b" "(tok, x) = gettoken s i1" "(q, y) = x" "(eq, i2) = y"
  then have "i < length s \<and> i < i2" using peek_token [of s "''&''" i i1 tok q eq i2] by auto
  then show "((s, Back c, i2), s, c, i) \<in> measure (\<lambda>(s, c, i). length s - i)" by auto
qed simp

declare parse_backs.simps [simp del]

text \<open>
  The recursive descent. The first argument bounds its depth; theory \<open>ShellProps\<close> shows that
  \<open>parsecmd\<close> gives enough of it.
\<close>

fun parseline :: "nat \<Rightarrow> string \<Rightarrow> nat \<Rightarrow> (cmd \<times> nat) result"
  and parsepipe :: "nat \<Rightarrow> string \<Rightarrow> nat \<Rightarrow> (cmd \<times> nat) result"
  and parseexec :: "nat \<Rightarrow> string \<Rightarrow> nat \<Rightarrow> (cmd \<times> nat) result"
  and parseblock :: "nat \<Rightarrow> string \<Rightarrow> nat \<Rightarrow> (cmd \<times> nat) result" where
  "parseline 0 s i = Inl Hang"
| "parseline (Suc n) s i =
     rbind (parsepipe n s i) (\<lambda>(c, i1).
       case parse_backs s c i1 of (c2, i2) \<Rightarrow>
       case peek s '';'' i2 of (i3, b) \<Rightarrow>
         if b then (case gettoken s i3 of (_, _, _, i4) \<Rightarrow>
           rbind (parseline n s i4) (\<lambda>(c3, i5). Inr (ListCmd c2 c3, i5)))
         else Inr (c2, i3))"
| "parsepipe 0 s i = Inl Hang"
| "parsepipe (Suc n) s i =
     rbind (parseexec n s i) (\<lambda>(c, i1).
       case peek s ''|'' i1 of (i2, b) \<Rightarrow>
         if b then (case gettoken s i2 of (_, _, _, i3) \<Rightarrow>
           rbind (parsepipe n s i3) (\<lambda>(c2, i4). Inr (PipeCmd c c2, i4)))
         else Inr (c, i2))"
| "parseexec 0 s i = Inl Hang"
| "parseexec (Suc n) s i =
     (case peek s ''('' i of (i1, b) \<Rightarrow>
        if b then parseblock n s i1
        else rbind (parseredirs s (Exec []) i1) (\<lambda>(ret, i2). parseargs s 0 ret i2))"
| "parseblock 0 s i = Inl Hang"
| "parseblock (Suc n) s i =
     (case peek s ''('' i of (i1, b) \<Rightarrow>
        if \<not> b then Inl (Panic ''parseblock'')
        else (case gettoken s i1 of (_, _, _, i2) \<Rightarrow>
          rbind (parseline n s i2) (\<lambda>(c, i3).
            case peek s '')'' i3 of (i4, b2) \<Rightarrow>
              if \<not> b2 then Inl (Panic ''syntax - missing )'')
              else (case gettoken s i4 of (_, _, _, i5) \<Rightarrow> parseredirs s c i5))))"

text \<open>
  \<open>nulterminate\<close> writes a NUL after every word, into the buffer that holds the line and its NUL.
\<close>

fun nulterminate :: "cmd \<Rightarrow> string \<Rightarrow> string" where
  "nulterminate (Exec args) b = foldl (\<lambda>b (q, eq). b[eq := CHR 0x00]) b args"
| "nulterminate (Redir c f ef mode fd) b = (nulterminate c b)[ef := CHR 0x00]"
| "nulterminate (PipeCmd l r) b = nulterminate r (nulterminate l b)"
| "nulterminate (ListCmd l r) b = nulterminate r (nulterminate l b)"
| "nulterminate (Back c) b = nulterminate c b"

definition parsecmd :: "string \<Rightarrow> (cmd \<times> string) result" where
  "parsecmd s =
     rbind (parseline (4 * length s + 4) s 0) (\<lambda>(c, i).
       case peek s [] i of (i1, _) \<Rightarrow>
         if i1 \<noteq> length s then Inl (Panic ''syntax'')
         else Inr (c, nulterminate c (s @ [CHR 0x00])))"

end
