(* ===== verification/ShellParse.thy ===== *)
theory ShellParse
  imports Shell
begin

text \<open>
  The grammar of the shell, as trees over the tokens of a line, and the parser against it: every tree
  that the parser builds is one of the grammar, every tree of the grammar is found, and the depth of the
  recursion is bounded.
\<close>

section \<open>The tokens of a line\<close>

datatype token = Word nat nat | Sym char

function tokens :: "string \<Rightarrow> nat \<Rightarrow> token list" where
  "tokens s i =
     (case gettoken s i of (tok, q, eq, j) \<Rightarrow>
        if tok = CHR 0x00 then [] else (if tok = CHR ''a'' then Word q eq else Sym tok) # tokens s j)"
  by pat_completeness auto
termination
proof (relation "measure (\<lambda>(s, i). length s - i)")
  fix s i tok x q y eq j
  assume "(tok, x) = gettoken s i" "(q, y) = x" "(eq, j) = y" "tok \<noteq> CHR 0x00"
  then have "i < length s \<and> i < j" using gettoken_progress(4) [of s i tok q eq j] by auto
  then show "((s, j), s, i) \<in> measure (\<lambda>(s, i). length s - i)" by auto
qed simp

declare tokens.simps [simp del]

text \<open>The symbols that a token starts with, as \<open>peek\<close> sees them.\<close>

fun begins :: "string \<Rightarrow> token list \<Rightarrow> bool" where
  "begins cs [] = False"
| "begins cs (Word q eq # ts) = False"
| "begins cs (Sym c # ts) = ((if c = CHR ''+'' then CHR ''>'' else c) \<in> set cs)"

lemma gettoken_skip: "gettoken s (skip (in_str whitespace) s i) = gettoken s i"
  by (simp add: gettoken_def)

lemma tokens_skip: "tokens s (skip (in_str whitespace) s i) = tokens s i"
  by (subst (1 2) tokens.simps) (simp add: gettoken_skip)

lemma gettoken_cases:
  assumes "gettoken s i = (tok, q, eq, j)"
  shows "tok = CHR 0x00 \<and> tokens s i = [] \<and> char_at s (skip (in_str whitespace) s i) = CHR 0x00 \<or>
    tok = CHR ''a'' \<and> tokens s i = Word q eq # tokens s j \<and> word_char (char_at s (skip (in_str whitespace) s i)) \<and>
      char_at s (skip (in_str whitespace) s i) \<noteq> CHR 0x00 \<or>
    tok \<in> set ''<|>&;()+'' \<and> tokens s i = Sym tok # tokens s j \<and>
      char_at s (skip (in_str whitespace) s i) = (if tok = CHR ''+'' then CHR ''>'' else tok)"
proof -
  let ?c = "char_at s (skip (in_str whitespace) s i)"
  have "in_str whitespace ?c \<Longrightarrow> ?c = CHR 0x00"
    using skip_stop [of "in_str whitespace" s i] by (auto simp: char_at_def)
  then have w: "?c \<noteq> CHR 0x00 \<Longrightarrow> ?c \<notin> set ''<|>&;()'' \<Longrightarrow> word_char ?c"
    using in_str_set [of whitespace ?c] by (auto simp: word_char_iff whitespace_def)
  have t: "tok = (if ?c = CHR 0x00 then ?c else if ?c \<in> set ''|();&<'' then ?c
      else if ?c = CHR ''>'' then
        (if char_at s (skip (in_str whitespace) s i + 1) = CHR ''>'' then CHR ''+'' else ?c) else CHR ''a'')"
    using assms by (auto simp: gettoken_def Let_def split: prod.splits if_splits)
  have "tokens s i = (if tok = CHR 0x00 then [] else (if tok = CHR ''a'' then Word q eq else Sym tok) # tokens s j)"
    by (subst tokens.simps) (simp add: assms)
  with t w show ?thesis by (auto split: if_splits)
qed

lemma peek_tokens:
  assumes "peek s cs i = (j, b)" and "set cs \<subseteq> set ''<|>&;()''"
  shows "tokens s j = tokens s i" and "b \<longleftrightarrow> begins cs (tokens s i)"
proof -
  have j: "j = skip (in_str whitespace) s i" "b \<longleftrightarrow> char_at s j \<noteq> CHR 0x00 \<and> in_str cs (char_at s j)"
    using assms(1) by (auto simp: peek_def Let_def)
  show "tokens s j = tokens s i" unfolding j by (rule tokens_skip)
  have n: "in_str cs c \<longleftrightarrow> c \<in> set cs" for c by (rule in_str_set) (use assms(2) in auto)
  obtain tok q eq k where g: "gettoken s i = (tok, q, eq, k)" by (metis prod_cases4)
  have w: "c \<in> set cs \<Longrightarrow> \<not> word_char c" for c using assms(2) unfolding word_char_iff by blast
  have z: "CHR 0x00 \<notin> set cs" using assms(2) by auto
  have "b \<longleftrightarrow> char_at s (skip (in_str whitespace) s i) \<in> set cs"
    using j(2) z unfolding n j(1) by metis
  moreover from gettoken_cases [OF g]
  have "begins cs (tokens s i) \<longleftrightarrow> char_at s (skip (in_str whitespace) s i) \<in> set cs"
  proof (elim disjE conjE)
    assume "tokens s i = []" "char_at s (skip (in_str whitespace) s i) = CHR 0x00"
    then show ?thesis using z by (simp only: begins.simps simp_thms)
  next
    assume "tokens s i = Word q eq # tokens s k" "word_char (char_at s (skip (in_str whitespace) s i))"
    then show ?thesis using w by (simp only: begins.simps) blast
  next
    assume "tokens s i = Sym tok # tokens s k"
      "char_at s (skip (in_str whitespace) s i) = (if tok = CHR ''+'' then CHR ''>'' else tok)"
    then show ?thesis by (simp only: begins.simps)
  qed
  ultimately show "b \<longleftrightarrow> begins cs (tokens s i)" by simp
qed

lemma gettoken_tokens:
  assumes "gettoken s i = (tok, q, eq, j)"
  shows "tokens s i = [] \<longleftrightarrow> tok = CHR 0x00"
    and "tokens s i = Word u v # ts \<longleftrightarrow> tok = CHR ''a'' \<and> u = q \<and> v = eq \<and> ts = tokens s j"
    and "tokens s i = Sym c # ts \<longleftrightarrow> tok \<in> set ''<|>&;()+'' \<and> c = tok \<and> ts = tokens s j"
proof -
  have ops: "CHR ''a'' \<notin> set ''<|>&;()+''" "CHR 0x00 \<notin> set ''<|>&;()+''" "CHR ''a'' \<noteq> CHR 0x00" by simp_all
  define S where "S = set ''<|>&;()+''"
  from gettoken_cases [OF assms]
  have "tok = CHR 0x00 \<and> tokens s i = [] \<or> tok = CHR ''a'' \<and> tokens s i = Word q eq # tokens s j \<or>
      tok \<in> S \<and> tokens s i = Sym tok # tokens s j" unfolding S_def [symmetric] by blast
  then have "(tokens s i = [] \<longleftrightarrow> tok = CHR 0x00) \<and>
      (tokens s i = Word u v # ts \<longleftrightarrow> tok = CHR ''a'' \<and> u = q \<and> v = eq \<and> ts = tokens s j) \<and>
      (tokens s i = Sym c # ts \<longleftrightarrow> tok \<in> S \<and> c = tok \<and> ts = tokens s j)"
    using ops unfolding S_def [symmetric] by (elim disjE) auto
  then show "tokens s i = [] \<longleftrightarrow> tok = CHR 0x00"
    and "tokens s i = Word u v # ts \<longleftrightarrow> tok = CHR ''a'' \<and> u = q \<and> v = eq \<and> ts = tokens s j"
    and "tokens s i = Sym c # ts \<longleftrightarrow> tok \<in> set ''<|>&;()+'' \<and> c = tok \<and> ts = tokens s j"
    unfolding S_def by blast+
qed

section \<open>The grammar\<close>

datatype redirection = Redirection char nat nat

datatype line = Last pipeline nat | Seq pipeline nat line
  and pipeline = One command | Bar command pipeline
  and command = Block line "redirection list" | Simple "redirection list" "((nat \<times> nat) \<times> redirection list) list"

fun flat_redir :: "redirection \<Rightarrow> token list" where
  "flat_redir (Redirection k q eq) = [Sym k, Word q eq]"

abbreviation flat_redirs :: "redirection list \<Rightarrow> token list" where
  "flat_redirs rs \<equiv> concat (map flat_redir rs)"

fun flat_arg :: "(nat \<times> nat) \<times> redirection list \<Rightarrow> token list" where
  "flat_arg ((q, eq), rs) = Word q eq # flat_redirs rs"

fun flat_line :: "line \<Rightarrow> token list"
  and flat_pipe :: "pipeline \<Rightarrow> token list"
  and flat_cmd :: "command \<Rightarrow> token list" where
  "flat_line (Last p k) = flat_pipe p @ replicate k (Sym CHR ''&'')"
| "flat_line (Seq p k l) = flat_pipe p @ replicate k (Sym CHR ''&'') @ Sym CHR '';'' # flat_line l"
| "flat_pipe (One c) = flat_cmd c"
| "flat_pipe (Bar c p) = flat_cmd c @ Sym CHR ''|'' # flat_pipe p"
| "flat_cmd (Block l rs) = Sym CHR ''('' # flat_line l @ Sym CHR '')'' # flat_redirs rs"
| "flat_cmd (Simple rs args) = flat_redirs rs @ concat (map flat_arg args)"

text \<open>A command has at most nine arguments, and a redirection one of the three operators.\<close>

fun redir_ok :: "redirection \<Rightarrow> bool" where
  "redir_ok (Redirection k q eq) = (k \<in> set ''<>+'')"

fun line_ok :: "line \<Rightarrow> bool" and pipe_ok :: "pipeline \<Rightarrow> bool" and cmd_ok :: "command \<Rightarrow> bool" where
  "line_ok (Last p k) = pipe_ok p"
| "line_ok (Seq p k l) = (pipe_ok p \<and> line_ok l)"
| "pipe_ok (One c) = cmd_ok c"
| "pipe_ok (Bar c p) = (cmd_ok c \<and> pipe_ok p)"
| "cmd_ok (Block l rs) = (line_ok l \<and> list_all redir_ok rs)"
| "cmd_ok (Simple rs args) =
     (list_all redir_ok rs \<and> length args < 10 \<and> list_all (\<lambda>(w, rs). list_all redir_ok rs) args)"

text \<open>The tree of the shell for one of the grammar.\<close>

fun wrap :: "cmd \<Rightarrow> redirection \<Rightarrow> cmd" where
  "wrap c (Redirection k q eq) = (if k = CHR ''<'' then Redir c q eq 0 0 else Redir c q eq 0x201 1)"

definition wraps :: "cmd \<Rightarrow> redirection list \<Rightarrow> cmd" where
  "wraps c rs = foldl wrap c rs"

fun tree_line :: "line \<Rightarrow> cmd" and tree_pipe :: "pipeline \<Rightarrow> cmd" and tree_cmd :: "command \<Rightarrow> cmd" where
  "tree_line (Last p k) = (Back ^^ k) (tree_pipe p)"
| "tree_line (Seq p k l) = ListCmd ((Back ^^ k) (tree_pipe p)) (tree_line l)"
| "tree_pipe (One c) = tree_cmd c"
| "tree_pipe (Bar c p) = PipeCmd (tree_cmd c) (tree_pipe p)"
| "tree_cmd (Block l rs) = wraps (tree_line l) rs"
| "tree_cmd (Simple rs args) = wraps (Exec (map fst args)) (rs @ concat (map snd args))"

section \<open>The loops\<close>

lemma wraps_simps [simp]: "wraps c [] = c" "wraps c (r # rs) = wraps (wrap c r) rs"
  "wraps c (rs @ rs') = wraps (wraps c rs) rs'"
  by (simp_all add: wraps_def)

lemma add_arg_wraps: "add_arg q eq (wraps c rs) = wraps (add_arg q eq c) rs"
proof (induction rs arbitrary: c)
  case (Cons r rs)
  then show ?case by (cases r) simp
qed simp

text \<open>What the parser sees at a token, and at the end of the line.\<close>

lemma token_step:
  assumes "peek s cs i = (i1, b)" and "set cs \<subseteq> set ''<|>&;()''" and "gettoken s i1 = (tok, q, eq, i2)"
  shows "tokens s i = Word u v # ts \<longleftrightarrow> tok = CHR ''a'' \<and> u = q \<and> v = eq \<and> ts = tokens s i2"
    and "tokens s i = Sym c # ts \<longleftrightarrow> tok \<in> set ''<|>&;()+'' \<and> c = tok \<and> ts = tokens s i2"
    and "tokens s i = [] \<longleftrightarrow> tok = CHR 0x00"
proof -
  have p: "tokens s i1 = tokens s i" by (rule peek_tokens(1) [OF assms(1,2)])
  show "tokens s i = Word u v # ts \<longleftrightarrow> tok = CHR ''a'' \<and> u = q \<and> v = eq \<and> ts = tokens s i2"
    using gettoken_tokens(2) [OF assms(3)] p by simp
  show "tokens s i = Sym c # ts \<longleftrightarrow> tok \<in> set ''<|>&;()+'' \<and> c = tok \<and> ts = tokens s i2"
    using gettoken_tokens(3) [OF assms(3)] p by simp
  show "tokens s i = [] \<longleftrightarrow> tok = CHR 0x00"
    using gettoken_tokens(1) [OF assms(3)] p by simp
qed

lemma gettoken_end: "gettoken s i = (CHR 0x00, q, eq, j) \<Longrightarrow> tokens s j = []"
proof -
  assume g: "gettoken s i = (CHR 0x00, q, eq, j)"
  then have "j = skip (in_str whitespace) s (skip (in_str whitespace) s i)"
    by (auto simp: gettoken_def Let_def split: prod.splits if_splits)
  then show ?thesis using gettoken_tokens(1) [OF g] tokens_skip by simp
qed

lemma begins_one: "begins [c] ts \<longleftrightarrow> (\<exists>us. ts = Sym c # us \<or> c = CHR ''>'' \<and> ts = Sym CHR ''+'' # us) \<and> c \<noteq> CHR ''+''"
  by (cases ts rule: list.exhaust; cases "hd ts") auto

text \<open>One symbol that the parser looks for and takes.\<close>

lemma take_symbol:
  assumes "peek s [c] i = (i1, b)" and "c \<in> set ''|&;()''" and "gettoken s i1 = (tok, q, eq, i2)"
  shows "b \<longleftrightarrow> tokens s i = Sym c # tokens s i2" and "\<not> b \<Longrightarrow> begins [c] (tokens s i1) = False"
    and "tokens s i1 = tokens s i"
proof -
  have c: "set [c] \<subseteq> set ''<|>&;()''" "c \<noteq> CHR ''>''" "c \<noteq> CHR ''+''" using assms(2) by auto
  note p = peek_tokens [OF assms(1) c(1)]
  show "tokens s i1 = tokens s i" by (rule p(1))
  show "\<not> b \<Longrightarrow> begins [c] (tokens s i1) = False" using p by simp
  have "b \<longleftrightarrow> (\<exists>us. tokens s i = Sym c # us)" using p(2) c by (simp add: begins_one)
  then show "b \<longleftrightarrow> tokens s i = Sym c # tokens s i2" using token_step(2) [OF assms(1) c(1) assms(3)] by blast
qed

lemma parseredirs_stop:
  assumes "\<not> begins ''<>'' (tokens s i)"
  shows "\<exists>j. parseredirs s c i = Inr (c, j) \<and> tokens s j = tokens s i"
proof -
  obtain i1 b where p: "peek s ''<>'' i = (i1, b)" by fastforce
  then have "\<not> b" "tokens s i1 = tokens s i" using assms peek_tokens [OF p] by simp_all
  then show ?thesis using p by (simp add: parseredirs.simps [of s c i])
qed

lemma parseredirs_step:
  assumes "tokens s i = Sym k # Word q eq # ts" and "k \<in> set ''<>+''"
  shows "\<exists>j. parseredirs s c i = parseredirs s (wrap c (Redirection k q eq)) j \<and> tokens s j = ts"
proof -
  obtain i1 b t1 q1 e1 i2 t2 q2 e2 i3 where
    e: "peek s ''<>'' i = (i1, b)" "gettoken s i1 = (t1, q1, e1, i2)" "gettoken s i2 = (t2, q2, e2, i3)"
    by (metis prod_cases4 surj_pair)
  have b: b using peek_tokens(2) [OF e(1)] assms by auto
  have t: "k = t1" "tokens s i2 = Word q eq # ts"
    using token_step(2) [OF e(1) _ e(2), of k "Word q eq # ts"] assms(1) by simp_all
  then have "t2 = CHR ''a''" "q = q2" "eq = e2" "ts = tokens s i3" using gettoken_tokens(2) [OF e(3)] by blast+
  then show ?thesis using e b t assms(2) by (intro exI [of _ i3]) (auto simp: parseredirs.simps [of s c i])
qed

lemma parseredirs_complete:
  assumes "tokens s i = flat_redirs rs @ rest" and "list_all redir_ok rs" and "\<not> begins ''<>'' rest"
  shows "\<exists>j. parseredirs s c i = Inr (wraps c rs, j) \<and> tokens s j = rest"
  using assms
proof (induction rs arbitrary: c i)
  case Nil
  then show ?case using parseredirs_stop [of s i c] by simp
next
  case (Cons r rs)
  obtain k q eq where r: "r = Redirection k q eq" by (cases r)
  then obtain j where j: "parseredirs s c i = parseredirs s (wrap c r) j" "tokens s j = flat_redirs rs @ rest"
    using parseredirs_step [of s i k q eq "flat_redirs rs @ rest" c] Cons.prems by auto
  then show ?case using Cons.IH [OF j(2)] Cons.prems by simp
qed

lemma parseredirs_sound:
  assumes "parseredirs s c i = Inr (d, j)"
  shows "\<exists>rs. list_all redir_ok rs \<and> tokens s i = flat_redirs rs @ tokens s j \<and> d = wraps c rs"
  using assms
proof (induction s c i rule: parseredirs.induct)
  case (1 s c i)
  obtain i1 b t1 q1 e1 i2 t2 q2 e2 i3 where
    e: "peek s ''<>'' i = (i1, b)" "gettoken s i1 = (t1, q1, e1, i2)" "gettoken s i2 = (t2, q2, e2, i3)"
    by (metis prod_cases4 surj_pair)
  show ?case
  proof (cases b)
    case False
    then show ?thesis using 1(2) peek_tokens(1) [OF e(1)] e
      by (intro exI [of _ "[]"]) (simp add: parseredirs.simps [of s c i])
  next
    case True
    then have a: "t2 = CHR ''a''" using 1(2) e by (auto simp: parseredirs.simps [of s c i] split: if_splits)
    have "begins ''<>'' (tokens s i)" using peek_tokens(2) [OF e(1)] True by simp
    then obtain k ts where k: "tokens s i = Sym k # ts" "k \<in> set ''<>+''"
      by (cases "tokens s i" rule: list.exhaust; cases "hd (tokens s i)") (auto split: if_splits)
    have t: "k = t1" "ts = tokens s i2" using token_step(2) [OF e(1) _ e(2), of k ts] k(1) by simp_all
    have w: "tokens s i2 = Word q2 e2 # tokens s i3" using gettoken_tokens(2) [OF e(3)] a by blast
    have "parseredirs s (wrap c (Redirection k q2 e2)) i3 = Inr (d, j)"
      using 1(2) e a True k(2) t(1) by (auto simp: parseredirs.simps [of s c i] split: if_splits)
    moreover have "wrap c (Redirection k q2 e2) =
        (if t1 = CHR ''<'' then Redir c q2 e2 0 0 else if t1 = CHR ''>'' then Redir c q2 e2 0x201 1
         else if t1 = CHR ''+'' then Redir c q2 e2 0x201 1 else c)"
      using k(2) t(1) by auto
    ultimately obtain rs where "list_all redir_ok rs" "tokens s i3 = flat_redirs rs @ tokens s j"
        "d = wraps (wrap c (Redirection k q2 e2)) rs"
      using 1(1) [OF e(1) [symmetric] _ e(2) [symmetric] refl refl e(3) [symmetric] refl refl] True a by auto
    then show ?thesis using k t w by (intro exI [of _ "Redirection k q2 e2 # rs"]) simp
  qed
qed

lemma parse_backs_sound:
  "parse_backs s c i = (d, j) \<Longrightarrow>
    \<exists>k. tokens s i = replicate k (Sym CHR ''&'') @ tokens s j \<and> d = (Back ^^ k) c"
proof (induction s c i rule: parse_backs.induct)
  case (1 s c i)
  obtain i1 b t1 q1 e1 i2 where e: "peek s ''&'' i = (i1, b)" "gettoken s i1 = (t1, q1, e1, i2)"
    by (metis prod_cases4 surj_pair)
  note t = take_symbol [OF e(1) _ e(2)]
  show ?case
  proof (cases b)
    case True
    then have "parse_backs s (Back c) i2 = (d, j)" using 1(2) e by (simp add: parse_backs.simps [of s c i])
    then obtain k where "tokens s i2 = replicate k (Sym CHR ''&'') @ tokens s j" "d = (Back ^^ k) (Back c)"
      using 1(1) [OF e(1) [symmetric] True e(2) [symmetric] refl refl] by blast
    then show ?thesis using t(1) True by (intro exI [of _ "Suc k"]) (simp add: funpow_swap1)
  next
    case False
    then show ?thesis using 1(2) e t(3) by (intro exI [of _ 0]) (simp add: parse_backs.simps [of s c i])
  qed
qed

lemma parse_backs_complete:
  assumes "tokens s i = replicate k (Sym CHR ''&'') @ rest" and "\<not> begins ''&'' rest"
  shows "\<exists>j. parse_backs s c i = ((Back ^^ k) c, j) \<and> tokens s j = rest"
  using assms(1)
proof (induction k arbitrary: c i)
  case 0
  obtain i1 b where p: "peek s ''&'' i = (i1, b)" by fastforce
  then have "\<not> b" "tokens s i1 = rest" using 0 assms(2) peek_tokens [OF p] by simp_all
  then show ?case using p by (simp add: parse_backs.simps [of s c i])
next
  case (Suc k)
  obtain i1 b t1 q1 e1 i2 where e: "peek s ''&'' i = (i1, b)" "gettoken s i1 = (t1, q1, e1, i2)"
    by (metis prod_cases4 surj_pair)
  have "b" using peek_tokens(2) [OF e(1)] Suc.prems by simp
  moreover from this have "tokens s i2 = replicate k (Sym CHR ''&'') @ rest"
    using take_symbol(1) [OF e(1) _ e(2)] Suc.prems by simp
  ultimately show ?case using Suc.IH [of i2 "Back c"] e by (simp add: parse_backs.simps [of s c i] funpow_swap1)
qed

end
