(* ===== verification/ShellGrammar.thy ===== *)
theory ShellGrammar
  imports ShellParse
begin

text \<open>
  The recursive descent of the shell against its grammar: what it accepts, what it builds, and that it
  ends within the depth it is given.
\<close>

section \<open>The arguments of a command\<close>

lemma parseargs_sound:
  assumes "parseargs s argc (wraps (Exec as) rs) i = Inr (d, j)" and "argc = length as" and "argc < 10"
  shows "\<exists>args. list_all (\<lambda>(w, rs). list_all redir_ok rs) args \<and> argc + length args < 10 \<and>
    tokens s i = concat (map flat_arg args) @ tokens s j \<and>
    d = wraps (Exec (as @ map fst args)) (rs @ concat (map snd args))"
  using assms
proof (induction s argc "wraps (Exec as) rs" i arbitrary: as rs rule: parseargs.induct)
  case (1 s argc i)
  obtain i1 b t q eq i2 where e: "peek s ''|)&;'' i = (i1, b)" "gettoken s i1 = (t, q, eq, i2)"
    by (metis prod_cases4 surj_pair)
  have set: "set ''|)&;'' \<subseteq> set ''<|>&;()''" by auto
  note step = token_step [OF e(1) set e(2)]
  note simps = parseargs.simps [of s argc "wraps (Exec as) rs" i]
  consider "b" | "\<not> b" "t = CHR 0x00" | "\<not> b" "t = CHR ''a''" "argc + 1 < 10"
    using 1(2) e by (auto simp: simps split: if_splits)
  then show ?case
  proof cases
    case 1
    then show ?thesis using \<open>parseargs s argc (wraps (Exec as) rs) i = Inr (d, j)\<close> \<open>argc < 10\<close> e peek_tokens(1) [OF e(1) set]
      by (intro exI [of _ "[]"]) (simp add: simps)
  next
    case 2
    then have "tokens s i = []" "tokens s i2 = []" using step(3) gettoken_end [of s i1 q eq i2] e(2) by simp_all
    then show ?thesis using 2 \<open>parseargs s argc (wraps (Exec as) rs) i = Inr (d, j)\<close> \<open>argc < 10\<close> e
      by (intro exI [of _ "[]"]) (simp add: simps)
  next
    case 3
    have w: "tokens s i = Word q eq # tokens s i2" using step(1) [of q eq "tokens s i2"] 3 by simp
    obtain r i3 where r: "parseredirs s (add_arg q eq (wraps (Exec as) rs)) i2 = Inr (r, i3)"
        "parseargs s (argc + 1) r i3 = Inr (d, j)"
      using 3 1(2) e by (auto simp: simps elim!: rbind_InrE)
    obtain rs2 where r2: "list_all redir_ok rs2" "tokens s i2 = flat_redirs rs2 @ tokens s i3"
        "r = wraps (Exec (as @ [(q, eq)])) (rs @ rs2)"
      using parseredirs_sound [OF r(1)] by (auto simp: add_arg_wraps)
    obtain args where a: "list_all (\<lambda>(w, rs). list_all redir_ok rs) args" "argc + 1 + length args < 10"
        "tokens s i3 = concat (map flat_arg args) @ tokens s j"
        "d = wraps (Exec ((as @ [(q, eq)]) @ map fst args)) ((rs @ rs2) @ concat (map snd args))"
      using 1(1) [OF e(1) [symmetric] _ e(2) [symmetric] refl refl _ _ _ r(1) [unfolded r2(3)] refl]
        3 r(2) r2(3) 1(3) by auto
    show ?thesis using a w r2 by (intro exI [of _ "((q, eq), rs2) # args"]) simp
  qed
qed

lemma ends_no_redir: "rest = [] \<or> begins ''|)&;'' rest \<Longrightarrow> \<not> begins ''<>'' rest"
  by (cases rest rule: list.exhaust; cases "hd rest") (auto split: if_splits)

lemma args_no_redir:
  assumes "rest = [] \<or> begins ''|)&;'' rest"
  shows "\<not> begins ''<>'' (concat (map flat_arg args) @ rest)"
proof (cases args)
  case Nil
  then show ?thesis using ends_no_redir [OF assms] by simp
next
  case (Cons x xs)
  then show ?thesis by (cases x rule: flat_arg.cases) simp
qed

lemma parseargs_complete:
  assumes "tokens s i = concat (map flat_arg args) @ rest" and "list_all (\<lambda>(w, rs). list_all redir_ok rs) args"
    and "argc + length args < 10" and "rest = [] \<or> begins ''|)&;'' rest"
  shows "\<exists>j. parseargs s argc (wraps (Exec as) rs) i = Inr (wraps (Exec (as @ map fst args)) (rs @ concat (map snd args)), j) \<and>
    tokens s j = rest"
  using assms(1-3)
proof (induction args arbitrary: argc as rs i)
  case Nil
  obtain i1 b t q eq i2 where e: "peek s ''|)&;'' i = (i1, b)" "gettoken s i1 = (t, q, eq, i2)"
    by (metis prod_cases4 surj_pair)
  have set: "set ''|)&;'' \<subseteq> set ''<|>&;()''" by auto
  note step = token_step [OF e(1) set e(2)]
  show ?case
  proof (cases b)
    case True
    then show ?thesis using Nil e peek_tokens(1) [OF e(1) set] by (simp add: parseargs.simps [of s argc])
  next
    case False
    then have "rest = []" using assms(4) peek_tokens(2) [OF e(1) set] Nil by simp
    then have "t = CHR 0x00" "tokens s i2 = []" using step(3) gettoken_end [of s i1 q eq i2] e(2) Nil by simp_all
    then show ?thesis using False e \<open>rest = []\<close> by (simp add: parseargs.simps [of s argc])
  qed
next
  case (Cons a args)
  obtain u v rs2 where a: "a = ((u, v), rs2)" by (metis surj_pair)
  obtain i1 b t q eq i2 where e: "peek s ''|)&;'' i = (i1, b)" "gettoken s i1 = (t, q, eq, i2)"
    by (metis prod_cases4 surj_pair)
  have set: "set ''|)&;'' \<subseteq> set ''<|>&;()''" by auto
  have ts: "tokens s i = Word u v # (flat_redirs rs2 @ concat (map flat_arg args) @ rest)" using Cons.prems(1) a by simp
  have b: "\<not> b" using peek_tokens(2) [OF e(1) set] ts by simp
  have w: "t = CHR ''a''" "u = q" "v = eq" "tokens s i2 = flat_redirs rs2 @ (concat (map flat_arg args) @ rest)"
    using token_step(1) [OF e(1) set e(2), of u v "flat_redirs rs2 @ concat (map flat_arg args) @ rest"] ts by simp_all
  have "\<not> begins ''<>'' (concat (map flat_arg args) @ rest)" by (rule args_no_redir [OF assms(4)])
  moreover have "list_all redir_ok rs2" using Cons.prems(2) a by simp
  ultimately obtain i3 where r: "parseredirs s (add_arg q eq (wraps (Exec as) rs)) i2 =
      Inr (wraps (Exec (as @ [(q, eq)])) (rs @ rs2), i3)" "tokens s i3 = concat (map flat_arg args) @ rest"
    using parseredirs_complete [OF w(4), of "add_arg q eq (wraps (Exec as) rs)"] by (auto simp: add_arg_wraps)
  have "\<exists>j. parseargs s (argc + 1) (wraps (Exec (as @ [(q, eq)])) (rs @ rs2)) i3 =
      Inr (wraps (Exec ((as @ [(q, eq)]) @ map fst args)) ((rs @ rs2) @ concat (map snd args)), j) \<and> tokens s j = rest"
    by (rule Cons.IH [OF r(2)]) (use Cons.prems in simp_all)
  moreover have "parseargs s argc (wraps (Exec as) rs) i =
      parseargs s (argc + 1) (wraps (Exec (as @ [(q, eq)])) (rs @ rs2)) i3"
    using e b w(1) r(1) Cons.prems(3) by (simp add: parseargs.simps [of s argc])
  ultimately show ?case using a w by simp
qed

section \<open>The recursive descent\<close>

text \<open>The part of a line between two positions is one of the grammar, with this tree.\<close>

definition line_at :: "string \<Rightarrow> nat \<Rightarrow> cmd \<Rightarrow> nat \<Rightarrow> bool" where
  "line_at s i c j \<longleftrightarrow> (\<exists>l. line_ok l \<and> tokens s i = flat_line l @ tokens s j \<and> c = tree_line l)"

definition pipe_at :: "string \<Rightarrow> nat \<Rightarrow> cmd \<Rightarrow> nat \<Rightarrow> bool" where
  "pipe_at s i c j \<longleftrightarrow> (\<exists>p. pipe_ok p \<and> tokens s i = flat_pipe p @ tokens s j \<and> c = tree_pipe p)"

definition cmd_at :: "string \<Rightarrow> nat \<Rightarrow> cmd \<Rightarrow> nat \<Rightarrow> bool" where
  "cmd_at s i c j \<longleftrightarrow> (\<exists>e. cmd_ok e \<and> tokens s i = flat_cmd e @ tokens s j \<and> c = tree_cmd e)"

lemma line_step:
  assumes r: "parseline (Suc n) s i = Inr (c, j)"
    and P: "\<And>c j. parsepipe n s i = Inr (c, j) \<Longrightarrow> pipe_at s i c j"
    and L: "\<And>i c j. parseline n s i = Inr (c, j) \<Longrightarrow> line_at s i c j"
  shows "line_at s i c j"
proof -
  obtain c1 i1 where p: "parsepipe n s i = Inr (c1, i1)" using r by (auto elim: rbind_InrE)
  obtain c2 i2 i3 b t q eq i4 where e: "parse_backs s c1 i1 = (c2, i2)" "peek s '';'' i2 = (i3, b)"
      "gettoken s i3 = (t, q, eq, i4)" by (metis prod_cases4 surj_pair)
  obtain pl where pl: "pipe_ok pl" "tokens s i = flat_pipe pl @ tokens s i1" "c1 = tree_pipe pl"
    using P [OF p] by (auto simp: pipe_at_def)
  obtain k where k: "tokens s i1 = replicate k (Sym CHR ''&'') @ tokens s i2" "c2 = (Back ^^ k) c1"
    using parse_backs_sound [OF e(1)] by blast
  note t = take_symbol [OF e(2) _ e(3)]
  show ?thesis
  proof (cases b)
    case True
    then obtain c3 where l: "parseline n s i4 = Inr (c3, j)" "c = ListCmd c2 c3"
      using r p e by (auto elim!: rbind_InrE)
    obtain l where "line_ok l" "tokens s i4 = flat_line l @ tokens s j" "c3 = tree_line l"
      using L [OF l(1)] by (auto simp: line_at_def)
    then show ?thesis using pl k l(2) t(1) True unfolding line_at_def by (intro exI [of _ "Seq pl k l"]) simp
  next
    case False
    then show ?thesis using r p e pl k t(3) unfolding line_at_def by (intro exI [of _ "Last pl k"]) simp
  qed
qed

lemma pipe_step:
  assumes r: "parsepipe (Suc n) s i = Inr (c, j)"
    and E: "\<And>c j. parseexec n s i = Inr (c, j) \<Longrightarrow> cmd_at s i c j"
    and P: "\<And>i c j. parsepipe n s i = Inr (c, j) \<Longrightarrow> pipe_at s i c j"
  shows "pipe_at s i c j"
proof -
  obtain c1 i1 where p: "parseexec n s i = Inr (c1, i1)" using r by (auto elim: rbind_InrE)
  obtain i2 b t q eq i3 where e: "peek s ''|'' i1 = (i2, b)" "gettoken s i2 = (t, q, eq, i3)"
    by (metis prod_cases4 surj_pair)
  obtain x where x: "cmd_ok x" "tokens s i = flat_cmd x @ tokens s i1" "c1 = tree_cmd x"
    using E [OF p] by (auto simp: cmd_at_def)
  note t = take_symbol [OF e(1) _ e(2)]
  show ?thesis
  proof (cases b)
    case True
    then obtain c2 where l: "parsepipe n s i3 = Inr (c2, j)" "c = PipeCmd c1 c2"
      using r p e by (auto elim!: rbind_InrE)
    obtain pl where "pipe_ok pl" "tokens s i3 = flat_pipe pl @ tokens s j" "c2 = tree_pipe pl"
      using P [OF l(1)] by (auto simp: pipe_at_def)
    then show ?thesis using x l(2) t(1) True unfolding pipe_at_def by (intro exI [of _ "Bar x pl"]) simp
  next
    case False
    then show ?thesis using r p e x t(3) unfolding pipe_at_def by (intro exI [of _ "One x"]) simp
  qed
qed

lemma exec_step:
  assumes r: "parseexec (Suc n) s i = Inr (c, j)"
    and B: "\<And>i c j. parseblock n s i = Inr (c, j) \<Longrightarrow> cmd_at s i c j"
  shows "cmd_at s i c j"
proof -
  obtain i1 b where e: "peek s ''('' i = (i1, b)" by fastforce
  then have i1: "tokens s i1 = tokens s i" using peek_tokens(1) [OF e] by simp
  show ?thesis
  proof (cases b)
    case True
    then have "cmd_at s i1 c j" using B r e by simp
    then show ?thesis using i1 by (simp add: cmd_at_def)
  next
    case False
    then obtain r1 i2 where r1: "parseredirs s (Exec []) i1 = Inr (r1, i2)" "parseargs s 0 r1 i2 = Inr (c, j)"
      using r e by (auto elim!: rbind_InrE)
    obtain rs where rs: "list_all redir_ok rs" "tokens s i1 = flat_redirs rs @ tokens s i2" "r1 = wraps (Exec []) rs"
      using parseredirs_sound [OF r1(1)] by blast
    from parseargs_sound [OF r1(2) [unfolded rs(3)]] obtain args where
      "list_all (\<lambda>(w, rs). list_all redir_ok rs) args" "length args < 10"
      "tokens s i2 = concat (map flat_arg args) @ tokens s j" "c = wraps (Exec (map fst args)) (rs @ concat (map snd args))"
      by auto
    then show ?thesis using rs i1 unfolding cmd_at_def by (intro exI [of _ "Simple rs args"]) simp
  qed
qed

lemma block_step:
  assumes r: "parseblock (Suc n) s i = Inr (c, j)"
    and L: "\<And>i c j. parseline n s i = Inr (c, j) \<Longrightarrow> line_at s i c j"
  shows "cmd_at s i c j"
proof -
  obtain i1 b t q eq i2 where e: "peek s ''('' i = (i1, b)" "gettoken s i1 = (t, q, eq, i2)"
    by (metis prod_cases4 surj_pair)
  have b: b using r e by (auto split: if_splits)
  obtain c1 i3 where l: "parseline n s i2 = Inr (c1, i3)" using r e b by (auto elim: rbind_InrE)
  obtain i4 b2 t2 q2 eq2 i5 where f: "peek s '')'' i3 = (i4, b2)" "gettoken s i4 = (t2, q2, eq2, i5)"
    by (metis prod_cases4 surj_pair)
  have b2: b2 using r e b l f by (auto split: if_splits)
  have d: "parseredirs s c1 i5 = Inr (c, j)" using r e b l f b2 by simp
  obtain x where x: "line_ok x" "tokens s i2 = flat_line x @ tokens s i3" "c1 = tree_line x"
    using L [OF l] by (auto simp: line_at_def)
  obtain rs where "list_all redir_ok rs" "tokens s i5 = flat_redirs rs @ tokens s j" "c = wraps c1 rs"
    using parseredirs_sound [OF d] by blast
  then show ?thesis using x b b2 take_symbol(1) [OF e(1) _ e(2)] take_symbol(1) [OF f(1) _ f(2)]
    unfolding cmd_at_def by (intro exI [of _ "Block x rs"]) simp
qed

lemma parser_sound:
  "(\<forall>i c j. parseline n s i = Inr (c, j) \<longrightarrow> line_at s i c j) \<and>
   (\<forall>i c j. parsepipe n s i = Inr (c, j) \<longrightarrow> pipe_at s i c j) \<and>
   (\<forall>i c j. parseexec n s i = Inr (c, j) \<longrightarrow> cmd_at s i c j) \<and>
   (\<forall>i c j. parseblock n s i = Inr (c, j) \<longrightarrow> cmd_at s i c j)"
proof (induction n)
  case (Suc n)
  then have IH: "\<And>i c j. parseline n s i = Inr (c, j) \<Longrightarrow> line_at s i c j"
    "\<And>i c j. parsepipe n s i = Inr (c, j) \<Longrightarrow> pipe_at s i c j"
    "\<And>i c j. parseexec n s i = Inr (c, j) \<Longrightarrow> cmd_at s i c j"
    "\<And>i c j. parseblock n s i = Inr (c, j) \<Longrightarrow> cmd_at s i c j" by blast+
  show ?case using line_step [OF _ IH(2,1)] pipe_step [OF _ IH(3,2)] exec_step [OF _ IH(4)] block_step [OF _ IH(1)]
    by blast
qed simp

section \<open>Completeness\<close>

lemma begins_iff: "begins cs ts \<longleftrightarrow> (\<exists>c us. ts = Sym c # us \<and> (if c = CHR ''+'' then CHR ''>'' else c) \<in> set cs)"
  by (cases ts rule: list.exhaust; cases "hd ts") auto

lemma take_sym:
  assumes "tokens s i = Sym c # ts" and "c \<in> set ''|&;()''"
  shows "\<exists>i1 t q eq i2. peek s [c] i = (i1, True) \<and> gettoken s i1 = (t, q, eq, i2) \<and>
    tokens s i1 = tokens s i \<and> tokens s i2 = ts"
proof -
  obtain i1 b t q eq i2 where e: "peek s [c] i = (i1, b)" "gettoken s i1 = (t, q, eq, i2)"
    by (metis prod_cases4 surj_pair)
  have "set [c] \<subseteq> set ''<|>&;()''" "c \<noteq> CHR ''+''" using assms(2) by auto
  then have b using peek_tokens(2) [OF e(1)] assms(1) by simp
  then show ?thesis using e take_symbol [OF e(1) assms(2) e(2)] assms(1) by auto
qed

lemma no_sym:
  assumes "\<And>ts. tokens s i \<noteq> Sym c # ts" and "c \<in> set ''|&;()''"
  obtains i1 where "peek s [c] i = (i1, False)" and "tokens s i1 = tokens s i"
proof -
  obtain i1 b t q eq i2 where e: "peek s [c] i = (i1, b)" "gettoken s i1 = (t, q, eq, i2)"
    by (metis prod_cases4 surj_pair)
  then show ?thesis using that take_symbol [OF e(1) assms(2) e(2)] assms(1) by auto
qed

text \<open>A call finds a tree, unless the depth is not enough.\<close>

definition finds :: "string \<Rightarrow> (cmd \<times> nat) result \<Rightarrow> cmd \<Rightarrow> token list \<Rightarrow> bool" where
  "finds s m c rest \<longleftrightarrow> m = Inl Hang \<or> (\<exists>j. m = Inr (c, j) \<and> tokens s j = rest)"

lemma finds_bind:
  assumes "finds s m c rest" and "\<And>j. tokens s j = rest \<Longrightarrow> finds s (f (c, j)) d rest'"
  shows "finds s (rbind m f) d rest'"
proof (cases m)
  case (Inl e)
  then show ?thesis using assms(1) by (simp add: finds_def)
next
  case (Inr x)
  then obtain j where "m = Inr (c, j)" "tokens s j = rest" using assms(1) by (auto simp: finds_def)
  then show ?thesis using assms(2) [of j] by simp
qed

lemma finds_line:
  assumes P: "finds s (parsepipe n s i) c (replicate k (Sym CHR ''&'') @ rest)" and na: "\<not> begins ''&'' rest"
    and r: "(\<forall>ts. rest \<noteq> Sym CHR '';'' # ts) \<and> d = (Back ^^ k) c \<and> rest' = rest \<or>
      (\<exists>ts c3. rest = Sym CHR '';'' # ts \<and> d = ListCmd ((Back ^^ k) c) c3 \<and> (\<forall>i4. tokens s i4 = ts \<longrightarrow> finds s (parseline n s i4) c3 rest'))"
  shows "finds s (parseline (Suc n) s i) d rest'"
proof -
  show ?thesis unfolding parseline.simps
  proof (rule finds_bind [OF P])
    fix j assume j: "tokens s j = replicate k (Sym CHR ''&'') @ rest"
    obtain i2 where i2: "parse_backs s c j = ((Back ^^ k) c, i2)" "tokens s i2 = rest"
      using parse_backs_complete [OF j na] by blast
    from r show "finds s (case (c, j) of (c, i1) \<Rightarrow> case parse_backs s c i1 of (c2, i2) \<Rightarrow>
         case peek s '';'' i2 of (i3, b) \<Rightarrow>
         if b then (case gettoken s i3 of (_, _, _, i4) \<Rightarrow> rbind (parseline n s i4) (\<lambda>(c3, i5). Inr (ListCmd c2 c3, i5)))
         else Inr (c2, i3)) d rest'"
    proof (elim disjE exE conjE)
      assume "\<forall>ts. rest \<noteq> Sym CHR '';'' # ts" and d: "d = (Back ^^ k) c" "rest' = rest"
      then obtain i3 where "peek s '';'' i2 = (i3, False)" "tokens s i3 = rest"
        using no_sym [of s i2 "CHR '';''"] i2(2) by auto
      then show ?thesis using i2(1) d by (simp add: finds_def)
    next
      fix ts c3 assume rest: "rest = Sym CHR '';'' # ts" and d: "d = ListCmd ((Back ^^ k) c) c3"
        and L: "\<forall>i4. tokens s i4 = ts \<longrightarrow> finds s (parseline n s i4) c3 rest'"
      obtain i3 t q eq i4 where "peek s '';'' i2 = (i3, True)" "gettoken s i3 = (t, q, eq, i4)" "tokens s i4 = ts"
        using take_sym [of s i2 "CHR '';''" ts] i2(2) rest by fastforce
      then show ?thesis using i2(1) L [rule_format, of i4] d by (auto simp: finds_def)
    qed
  qed
qed

lemma finds_pipe:
  assumes E: "finds s (parseexec n s i) c rest"
    and r: "(\<forall>ts. rest \<noteq> Sym CHR ''|'' # ts) \<and> d = c \<and> rest' = rest \<or>
      (\<exists>ts c2. rest = Sym CHR ''|'' # ts \<and> d = PipeCmd c c2 \<and> (\<forall>i3. tokens s i3 = ts \<longrightarrow> finds s (parsepipe n s i3) c2 rest'))"
  shows "finds s (parsepipe (Suc n) s i) d rest'"
  unfolding parsepipe.simps
proof (rule finds_bind [OF E])
  fix j assume j: "tokens s j = rest"
  from r show "finds s (case (c, j) of (c, i1) \<Rightarrow> case peek s ''|'' i1 of (i2, b) \<Rightarrow>
         if b then (case gettoken s i2 of (_, _, _, i3) \<Rightarrow> rbind (parsepipe n s i3) (\<lambda>(c2, i4). Inr (PipeCmd c c2, i4)))
         else Inr (c, i2)) d rest'"
  proof (elim disjE exE conjE)
    assume "\<forall>ts. rest \<noteq> Sym CHR ''|'' # ts" and d: "d = c" "rest' = rest"
    then obtain i2 where "peek s ''|'' j = (i2, False)" "tokens s i2 = rest"
      using no_sym [of s j "CHR ''|''"] j by auto
    then show ?thesis using d by (simp add: finds_def)
  next
    fix ts c2 assume rest: "rest = Sym CHR ''|'' # ts" and d: "d = PipeCmd c c2"
      and L: "\<forall>i3. tokens s i3 = ts \<longrightarrow> finds s (parsepipe n s i3) c2 rest'"
    obtain i2 t q eq i3 where "peek s ''|'' j = (i2, True)" "gettoken s i2 = (t, q, eq, i3)" "tokens s i3 = ts"
      using take_sym [of s j "CHR ''|''" ts] j rest by fastforce
    then show ?thesis using L [rule_format, of i3] d by (auto simp: finds_def)
  qed
qed

lemma finds_block:
  assumes ts: "tokens s i = Sym CHR ''('' # ts" and rs: "list_all redir_ok rs" and end_: "\<not> begins ''<>'' rest"
    and L: "\<And>n i2. tokens s i2 = ts \<Longrightarrow> finds s (parseline n s i2) c (Sym CHR '')'' # flat_redirs rs @ rest)"
  shows "finds s (parseexec n s i) (wraps c rs) rest"
proof (cases n)
  case 0
  then show ?thesis by (simp add: finds_def)
next
  case (Suc m)
  obtain i1 where e: "peek s ''('' i = (i1, True)" "tokens s i1 = tokens s i"
    using take_sym [OF ts] by fastforce
  obtain i2 t q eq i3 where f: "peek s ''('' i1 = (i2, True)" "gettoken s i2 = (t, q, eq, i3)" "tokens s i3 = ts"
    using take_sym [of s i1 "CHR ''(''" ts] e(2) ts by fastforce
  have "finds s (parseblock m s i1) (wraps c rs) rest"
  proof (cases m)
    case 0
    then show ?thesis by (simp add: finds_def)
  next
    case (Suc k)
    have "finds s (rbind (parseline k s i3) (\<lambda>(c, i3). case peek s '')'' i3 of (i4, b2) \<Rightarrow>
          if \<not> b2 then Inl (Panic ''syntax - missing )'')
          else (case gettoken s i4 of (_, _, _, i5) \<Rightarrow> parseredirs s c i5))) (wraps c rs) rest"
    proof (rule finds_bind [OF L [OF f(3), of k]])
      fix j assume j: "tokens s j = Sym CHR '')'' # flat_redirs rs @ rest"
      obtain i4 t q eq i5 where g: "peek s '')'' j = (i4, True)" "gettoken s i4 = (t, q, eq, i5)"
          "tokens s i5 = flat_redirs rs @ rest" using take_sym [OF j] by fastforce
      then show "finds s (case (c, j) of (c, i3) \<Rightarrow> case peek s '')'' i3 of (i4, b2) \<Rightarrow>
          if \<not> b2 then Inl (Panic ''syntax - missing )'')
          else (case gettoken s i4 of (_, _, _, i5) \<Rightarrow> parseredirs s c i5)) (wraps c rs) rest"
        using parseredirs_complete [OF g(3) rs end_, of c] by (auto simp: finds_def)
    qed
    then show ?thesis using Suc f by simp
  qed
  then show ?thesis using Suc e by simp
qed

lemma finds_simple:
  assumes ts: "tokens s i = flat_redirs rs @ concat (map flat_arg args) @ rest" and ok: "cmd_ok (Simple rs args)"
    and end_: "rest = [] \<or> begins ''|)&;'' rest"
  shows "finds s (parseexec n s i) (tree_cmd (Simple rs args)) rest"
proof (cases n)
  case 0
  then show ?thesis by (simp add: finds_def)
next
  case (Suc m)
  have "hd (tokens s i) \<noteq> Sym CHR ''(''" if "tokens s i \<noteq> []"
  proof (cases "rs = []")
    case False
    then obtain k q eq rs' where "rs = Redirection k q eq # rs'" by (metis list.exhaust redirection.exhaust)
    then show ?thesis using ts ok by auto
  next
    case r: True
    show ?thesis
    proof (cases "args = []")
      case True
      then have "tokens s i = rest" using ts r by simp
      then show ?thesis using end_ that by (cases rest rule: list.exhaust; cases "hd rest") (auto split: if_splits)
    next
      case False
      then obtain q eq rs' args' where "args = ((q, eq), rs') # args'" by (metis list.exhaust surj_pair)
      then show ?thesis using ts r by simp
    qed
  qed
  then have "tokens s i \<noteq> Sym CHR ''('' # us" for us by auto
  then obtain i1 where e: "peek s ''('' i = (i1, False)" "tokens s i1 = flat_redirs rs @ (concat (map flat_arg args) @ rest)"
    using no_sym [of s i "CHR ''(''"] ts by auto
  obtain i2 where r: "parseredirs s (Exec []) i1 = Inr (wraps (Exec []) rs, i2)"
      "tokens s i2 = concat (map flat_arg args) @ rest"
    using parseredirs_complete [OF e(2) _ args_no_redir [OF end_]] ok by auto
  have "\<exists>j. parseargs s 0 (wraps (Exec []) rs) i2 =
      Inr (wraps (Exec ([] @ map fst args)) (rs @ concat (map snd args)), j) \<and> tokens s j = rest"
    by (rule parseargs_complete [OF r(2) _ _ end_]) (use ok in simp_all)
  then show ?thesis using Suc e(1) r(1) by (auto simp: finds_def)
qed

text \<open>What may follow a line, a pipeline and a command.\<close>

lemma after_mono: "rest = [] \<or> begins cs rest \<Longrightarrow> set cs \<subseteq> set ds \<Longrightarrow> rest = [] \<or> begins ds rest"
  unfolding begins_iff by blast

lemma after_backs: "rest = [] \<or> begins '')'' rest \<Longrightarrow>
    replicate k (Sym CHR ''&'') @ rest = [] \<or> begins '')&;'' (replicate k (Sym CHR ''&'') @ rest)"
  using after_mono [of rest "'')''" "'')&;''"] by (cases k) simp_all

lemma after_seq: "begins '')&;'' (replicate k (Sym CHR ''&'') @ Sym CHR '';'' # ts)"
  by (cases k) simp_all

lemma after_line: "rest = [] \<or> begins '')'' rest \<Longrightarrow> \<not> begins ''&'' rest \<and> (\<forall>ts. rest \<noteq> Sym CHR '';'' # ts)"
  by (cases rest rule: list.exhaust; cases "hd rest") (auto split: if_splits)

lemma after_pipe: "rest = [] \<or> begins '')&;'' rest \<Longrightarrow> \<forall>ts. rest \<noteq> Sym CHR ''|'' # ts"
  by (cases rest rule: list.exhaust; cases "hd rest") (auto split: if_splits)

lemma parser_complete:
  "line_ok l \<Longrightarrow> tokens s i = flat_line l @ rest \<Longrightarrow> rest = [] \<or> begins '')'' rest \<Longrightarrow>
     finds s (parseline n s i) (tree_line l) rest"
  "pipe_ok p \<Longrightarrow> tokens s i = flat_pipe p @ rest \<Longrightarrow> rest = [] \<or> begins '')&;'' rest \<Longrightarrow>
     finds s (parsepipe n s i) (tree_pipe p) rest"
  "cmd_ok e \<Longrightarrow> tokens s i = flat_cmd e @ rest \<Longrightarrow> rest = [] \<or> begins ''|)&;'' rest \<Longrightarrow>
     finds s (parseexec n s i) (tree_cmd e) rest"
proof (induction l and p and e arbitrary: i rest n and i rest n and i rest n)
  case (Last p k)
  show ?case
  proof (cases n)
    case (Suc m)
    have "finds s (parsepipe m s i) (tree_pipe p) (replicate k (Sym CHR ''&'') @ rest)"
      using Last.IH [of i "replicate k (Sym CHR ''&'') @ rest"] Last.prems(1,2) after_backs [OF Last.prems(3)] by simp
    then have "finds s (parseline (Suc m) s i) ((Back ^^ k) (tree_pipe p)) rest"
      by (rule finds_line) (use after_line [OF Last.prems(3)] in simp_all)
    then show ?thesis using Suc by simp
  qed (simp add: finds_def)
next
  case (Seq p k l)
  show ?case
  proof (cases n)
    case (Suc m)
    let ?r = "Sym CHR '';'' # flat_line l @ rest"
    have "finds s (parsepipe m s i) (tree_pipe p) (replicate k (Sym CHR ''&'') @ ?r)"
      using Seq.IH(1) [of i "replicate k (Sym CHR ''&'') @ ?r"] Seq.prems(1,2) after_seq [of k "flat_line l @ rest"] by simp
    then have "finds s (parseline (Suc m) s i) (ListCmd ((Back ^^ k) (tree_pipe p)) (tree_line l)) rest"
      by (rule finds_line) (use Seq.prems(1,3) Seq.IH(2) in simp_all)
    then show ?thesis using Suc by simp
  qed (simp add: finds_def)
next
  case (One e)
  show ?case
  proof (cases n)
    case (Suc m)
    have "finds s (parseexec m s i) (tree_cmd e) rest"
      using One.IH [of i rest] One.prems(1,2) after_mono [OF One.prems(3), of "''|)&;''"] by simp
    then have "finds s (parsepipe (Suc m) s i) (tree_cmd e) rest"
      by (rule finds_pipe) (use after_pipe [OF One.prems(3)] in simp)
    then show ?thesis using Suc by simp
  qed (simp add: finds_def)
next
  case (Bar e p)
  show ?case
  proof (cases n)
    case (Suc m)
    have "finds s (parseexec m s i) (tree_cmd e) (Sym CHR ''|'' # flat_pipe p @ rest)"
      using Bar.IH(1) [of i "Sym CHR ''|'' # flat_pipe p @ rest"] Bar.prems(1,2) by simp
    then have "finds s (parsepipe (Suc m) s i) (PipeCmd (tree_cmd e) (tree_pipe p)) rest"
      by (rule finds_pipe) (use Bar.prems(1,3) Bar.IH(2) in simp)
    then show ?thesis using Suc by simp
  qed (simp add: finds_def)
next
  case (Block l rs)
  have "finds s (parseline n s i2) (tree_line l) (Sym CHR '')'' # flat_redirs rs @ rest)"
    if "tokens s i2 = flat_line l @ Sym CHR '')'' # flat_redirs rs @ rest" for n i2
    using Block.IH [OF _ that] Block.prems(1) by simp
  then have "finds s (parseexec n s i) (wraps (tree_line l) rs) rest"
    by (intro finds_block) (use Block.prems(1,2) ends_no_redir [OF Block.prems(3)] in simp_all)
  then show ?case by simp
next
  case (Simple rs args)
  then show ?case by (intro finds_simple) simp_all
qed

end
