(* ===== verification/ShellProps.thy ===== *)
theory ShellProps
  imports ShellGrammar
begin

text \<open>
  The promises of the parser of the shell: it ends, accepts exactly the lines of its grammar, and leaves
  each word of the line as a string of its own.
\<close>

section \<open>Positions\<close>

lemma gettoken_le:
  assumes "gettoken s i = (t, q, eq, j)" and "i \<le> length s"
  shows "i \<le> j \<and> j \<le> length s"
proof -
  have "q \<le> length s" using assms by (auto simp: gettoken_def Let_def skip_le split: prod.splits if_splits)
  moreover have "eq \<le> length s"
    using assms char_at_NUL [of s q] char_at_NUL [of s "q + 1"] \<open>q \<le> length s\<close>
    by (auto simp: gettoken_def Let_def skip_le split: prod.splits if_splits)
  moreover have "j = skip (in_str whitespace) s eq"
    using assms by (auto simp: gettoken_def Let_def split: prod.splits)
  ultimately show ?thesis using skip_le gettoken_progress(1-3) [OF assms(1)] by auto
qed

lemma peek_le: "peek s cs i = (j, b) \<Longrightarrow> i \<le> length s \<Longrightarrow> i \<le> j \<and> j \<le> length s"
  by (auto simp: peek_def Let_def skip_ge skip_le)

lemma parse_backs_le:
  "parse_backs s c i = (d, j) \<Longrightarrow> i \<le> length s \<Longrightarrow> i \<le> j \<and> j \<le> length s"
proof (induction s c i rule: parse_backs.induct)
  case (1 s c i)
  obtain i1 b t q eq i2 where e: "peek s ''&'' i = (i1, b)" "gettoken s i1 = (t, q, eq, i2)"
    by (metis prod_cases4 surj_pair)
  have le: "i \<le> i1" "i1 \<le> length s" "i1 \<le> i2" "i2 \<le> length s"
    using peek_le [OF e(1) 1(3)] gettoken_le [OF e(2)] by simp_all
  show ?case
  proof (cases b)
    case True
    then show ?thesis using 1(1) [OF e(1) [symmetric] True e(2) [symmetric] refl refl] 1(2) e le
      by (simp add: parse_backs.simps [of s c])
  next
    case False
    then show ?thesis using 1(2) e le by (simp add: parse_backs.simps [of s c])
  qed
qed

text \<open>A call moves on, stays in the line and ends in a tree or a panic.\<close>

definition ends :: "string \<Rightarrow> nat \<Rightarrow> (cmd \<times> nat) result \<Rightarrow> bool" where
  "ends s i m \<longleftrightarrow> (\<exists>msg. m = Inl (Panic msg)) \<or> (\<exists>c j. m = Inr (c, j) \<and> i \<le> j \<and> j \<le> length s)"

lemma ends_bind:
  assumes "ends s i m" and "\<And>c j. i \<le> j \<Longrightarrow> j \<le> length s \<Longrightarrow> ends s i (f (c, j))"
  shows "ends s i (rbind m f)"
proof (cases m)
  case (Inl e)
  then show ?thesis using assms(1) by (auto simp: ends_def)
next
  case (Inr x)
  then show ?thesis using assms by (cases x) (auto simp: ends_def)
qed

lemma ends_mono: "ends s j m \<Longrightarrow> i \<le> j \<Longrightarrow> ends s i m"
  by (auto simp: ends_def)

lemma ends_simps [simp]: "ends s i (Inl (Panic msg))" "ends s i (Inr (c, j)) \<longleftrightarrow> i \<le> j \<and> j \<le> length s"
  by (auto simp: ends_def)

lemma ends_redirs: "i \<le> length s \<Longrightarrow> ends s i (parseredirs s c i)"
proof (induction s c i rule: parseredirs.induct)
  case (1 s c i)
  obtain i1 b t1 q1 e1 i2 t2 q2 e2 i3 where
    e: "peek s ''<>'' i = (i1, b)" "gettoken s i1 = (t1, q1, e1, i2)" "gettoken s i2 = (t2, q2, e2, i3)"
    by (metis prod_cases4 surj_pair)
  have le: "i \<le> i1 \<and> i1 \<le> length s" "i1 \<le> i2 \<and> i2 \<le> length s" "i2 \<le> i3 \<and> i3 \<le> length s"
    using peek_le [OF e(1) 1(2)] gettoken_le [OF e(2)] gettoken_le [OF e(3)] by simp_all
  show ?case
  proof (cases "b \<and> t2 = CHR ''a''")
    case True
    let ?c = "if t1 = CHR ''<'' then Redir c q2 e2 0 0 else if t1 = CHR ''>'' then Redir c q2 e2 0x201 1
        else if t1 = CHR ''+'' then Redir c q2 e2 0x201 1 else c"
    have "ends s i3 (parseredirs s ?c i3)"
      using 1(1) [OF e(1) [symmetric] _ e(2) [symmetric] refl refl e(3) [symmetric] refl refl] True le by simp
    then have "ends s i (parseredirs s ?c i3)" using ends_mono le by (meson order_trans)
    then show ?thesis using True by (simp add: parseredirs.simps [of s c i] e)
  next
    case False
    then show ?thesis using le by (auto simp: parseredirs.simps [of s c i] e)
  qed
qed

lemma ends_args: "i \<le> length s \<Longrightarrow> ends s i (parseargs s argc r i)"
proof (induction s argc r i rule: parseargs.induct)
  case (1 s argc r i)
  obtain i1 b t q eq i2 where e: "peek s ''|)&;'' i = (i1, b)" "gettoken s i1 = (t, q, eq, i2)"
    by (metis prod_cases4 surj_pair)
  have le: "i \<le> i1 \<and> i1 \<le> length s" "i1 \<le> i2 \<and> i2 \<le> length s"
    using peek_le [OF e(1) 1(2)] gettoken_le [OF e(2)] by simp_all
  have "ends s i (rbind (parseredirs s (add_arg q eq r) i2) (\<lambda>(r, i3). parseargs s (argc + 1) r i3))"
    if c: "\<not> b" "t \<noteq> CHR 0x00" "t = CHR ''a''" "\<not> 10 \<le> argc + 1"
  proof (cases "parseredirs s (add_arg q eq r) i2")
    case (Inl x)
    then show ?thesis using ends_redirs [of i2 s "add_arg q eq r"] le by (auto simp: ends_def)
  next
    case (Inr x)
    obtain r1 i3 where x: "x = (r1, i3)" by fastforce
    then have "i2 \<le> i3" "i3 \<le> length s" using ends_redirs [of i2 s "add_arg q eq r"] le Inr by auto
    moreover from this have "ends s i3 (parseargs s (argc + 1) r1 i3)"
      using 1(1) [OF e(1) [symmetric] _ e(2) [symmetric] refl refl _ _ _ Inr x [symmetric]] c by simp
    ultimately show ?thesis using Inr x le ends_mono [of s i3 _ i] by simp
  qed
  then show ?case using le by (auto simp: parseargs.simps [of s argc] e)
qed

text \<open>Each level of the descent needs one of the depth, four for each symbol that is taken.\<close>

lemma ends_line:
  assumes i: "i \<le> length s" and P: "ends s i (parsepipe n s i)"
    and L: "\<And>k. i < k \<Longrightarrow> k \<le> length s \<Longrightarrow> ends s k (parseline n s k)"
  shows "ends s i (parseline (Suc n) s i)"
  unfolding parseline.simps
proof (rule ends_bind [OF P])
  fix c j assume j: "i \<le> j" "j \<le> length s"
  obtain c2 i2 i3 b t q eq i4 where e: "parse_backs s c j = (c2, i2)" "peek s '';'' i2 = (i3, b)"
      "gettoken s i3 = (t, q, eq, i4)" by (metis prod_cases4 surj_pair)
  have le: "j \<le> i2 \<and> i2 \<le> length s" "i2 \<le> i3 \<and> i3 \<le> length s" "i3 \<le> i4 \<and> i4 \<le> length s"
    using parse_backs_le [OF e(1) j(2)] peek_le [OF e(2)] gettoken_le [OF e(3)] by simp_all
  have "ends s i (rbind (parseline n s i4) (\<lambda>(c3, i5). Inr (ListCmd c2 c3, i5)))" if b
  proof (rule ends_bind)
    have "i < i4" using peek_token [of s "'';''" i2 i3 t q eq i4] e that le j by simp
    then show "ends s i (parseline n s i4)" using L [of i4] le ends_mono [of s i4 _ i] by simp
  qed simp
  then show "ends s i (case (c, j) of (c, i1) \<Rightarrow> case parse_backs s c i1 of (c2, i2) \<Rightarrow>
       case peek s '';'' i2 of (i3, b) \<Rightarrow>
         if b then (case gettoken s i3 of (_, _, _, i4) \<Rightarrow>
           rbind (parseline n s i4) (\<lambda>(c3, i5). Inr (ListCmd c2 c3, i5)))
         else Inr (c2, i3))" using e le j by simp
qed

lemma ends_pipe:
  assumes i: "i \<le> length s" and E: "ends s i (parseexec n s i)"
    and P: "\<And>k. i < k \<Longrightarrow> k \<le> length s \<Longrightarrow> ends s k (parsepipe n s k)"
  shows "ends s i (parsepipe (Suc n) s i)"
  unfolding parsepipe.simps
proof (rule ends_bind [OF E])
  fix c j assume j: "i \<le> j" "j \<le> length s"
  obtain i2 b t q eq i3 where e: "peek s ''|'' j = (i2, b)" "gettoken s i2 = (t, q, eq, i3)"
    by (metis prod_cases4 surj_pair)
  have le: "j \<le> i2 \<and> i2 \<le> length s" "i2 \<le> i3 \<and> i3 \<le> length s"
    using peek_le [OF e(1) j(2)] gettoken_le [OF e(2)] by simp_all
  have "ends s i (rbind (parsepipe n s i3) (\<lambda>(c2, i4). Inr (PipeCmd c c2, i4)))" if b
  proof (rule ends_bind)
    have "i < i3" using peek_token [of s "''|''" j i2 t q eq i3] e that le j by simp
    then show "ends s i (parsepipe n s i3)" using P [of i3] le ends_mono [of s i3 _ i] by simp
  qed simp
  then show "ends s i (case (c, j) of (c, i1) \<Rightarrow> case peek s ''|'' i1 of (i2, b) \<Rightarrow>
         if b then (case gettoken s i2 of (_, _, _, i3) \<Rightarrow>
           rbind (parsepipe n s i3) (\<lambda>(c2, i4). Inr (PipeCmd c c2, i4)))
         else Inr (c, i2))" using e le j by simp
qed

lemma ends_exec:
  assumes i: "i \<le> length s" and B: "\<And>k. i \<le> k \<Longrightarrow> k \<le> length s \<Longrightarrow> ends s k (parseblock n s k)"
  shows "ends s i (parseexec (Suc n) s i)"
proof -
  obtain i1 b where e: "peek s ''('' i = (i1, b)" by fastforce
  have le: "i \<le> i1 \<and> i1 \<le> length s" using peek_le [OF e i] .
  have "ends s i (rbind (parseredirs s (Exec []) i1) (\<lambda>(ret, i2). parseargs s 0 ret i2))"
  proof (rule ends_bind)
    show "ends s i (parseredirs s (Exec []) i1)" using ends_redirs [of i1 s] ends_mono [of s i1 _ i] le by simp
    show "ends s i (case (c, j) of (ret, i2) \<Rightarrow> parseargs s 0 ret i2)" if "i \<le> j" "j \<le> length s" for c j
      using ends_args [OF that(2), of 0 c] ends_mono [of s j _ i] that(1) by simp
  qed
  then show ?thesis using e le B [of i1] ends_mono [of s i1 _ i] by simp
qed

lemma ends_block:
  assumes i: "i \<le> length s" and L: "\<And>k. i < k \<Longrightarrow> k \<le> length s \<Longrightarrow> ends s k (parseline n s k)"
  shows "ends s i (parseblock (Suc n) s i)"
proof -
  obtain i1 b t q eq i2 where e: "peek s ''('' i = (i1, b)" "gettoken s i1 = (t, q, eq, i2)"
    by (metis prod_cases4 surj_pair)
  have le: "i \<le> i1 \<and> i1 \<le> length s" "i1 \<le> i2 \<and> i2 \<le> length s"
    using peek_le [OF e(1) i] gettoken_le [OF e(2)] by simp_all
  have "ends s i (rbind (parseline n s i2) (\<lambda>(c, i3). case peek s '')'' i3 of (i4, b2) \<Rightarrow>
              if \<not> b2 then Inl (Panic ''syntax - missing )'')
              else (case gettoken s i4 of (_, _, _, i5) \<Rightarrow> parseredirs s c i5)))" if b
  proof (rule ends_bind)
    have "i < i2" using peek_token [of s "''(''" i i1 t q eq i2] e that by simp
    then show "ends s i (parseline n s i2)" using L [of i2] le ends_mono [of s i2 _ i] by simp
  next
    fix c j assume j: "i \<le> j" "j \<le> length s"
    obtain i4 b2 t2 q2 eq2 i5 where f: "peek s '')'' j = (i4, b2)" "gettoken s i4 = (t2, q2, eq2, i5)"
      by (metis prod_cases4 surj_pair)
    have "j \<le> i4 \<and> i4 \<le> length s" "i4 \<le> i5 \<and> i5 \<le> length s"
      using peek_le [OF f(1) j(2)] gettoken_le [OF f(2)] by simp_all
    then show "ends s i (case (c, j) of (c, i3) \<Rightarrow> case peek s '')'' i3 of (i4, b2) \<Rightarrow>
              if \<not> b2 then Inl (Panic ''syntax - missing )'')
              else (case gettoken s i4 of (_, _, _, i5) \<Rightarrow> parseredirs s c i5))"
      using f j ends_redirs [of i5 s c] ends_mono [of s i5 _ i] by simp
  qed
  then show ?thesis using e by simp
qed

lemma parser_ends:
  "(\<forall>i. i \<le> length s \<longrightarrow> 4 * (length s - i) + 4 \<le> n \<longrightarrow> ends s i (parseline n s i)) \<and>
   (\<forall>i. i \<le> length s \<longrightarrow> 4 * (length s - i) + 3 \<le> n \<longrightarrow> ends s i (parsepipe n s i)) \<and>
   (\<forall>i. i \<le> length s \<longrightarrow> 4 * (length s - i) + 2 \<le> n \<longrightarrow> ends s i (parseexec n s i)) \<and>
   (\<forall>i. i \<le> length s \<longrightarrow> 4 * (length s - i) + 1 \<le> n \<longrightarrow> ends s i (parseblock n s i))"
proof (induction n)
  case (Suc n)
  then have IH: "\<And>i. i \<le> length s \<Longrightarrow> 4 * (length s - i) + 4 \<le> n \<Longrightarrow> ends s i (parseline n s i)"
    "\<And>i. i \<le> length s \<Longrightarrow> 4 * (length s - i) + 3 \<le> n \<Longrightarrow> ends s i (parsepipe n s i)"
    "\<And>i. i \<le> length s \<Longrightarrow> 4 * (length s - i) + 2 \<le> n \<Longrightarrow> ends s i (parseexec n s i)"
    "\<And>i. i \<le> length s \<Longrightarrow> 4 * (length s - i) + 1 \<le> n \<Longrightarrow> ends s i (parseblock n s i)" by blast+
  show ?case
  proof (intro conjI allI impI)
    fix i assume i: "i \<le> length s"
    show "4 * (length s - i) + 4 \<le> Suc n \<Longrightarrow> ends s i (parseline (Suc n) s i)"
      by (rule ends_line [OF i IH(2) IH(1)]) (use i in auto)
    show "4 * (length s - i) + 3 \<le> Suc n \<Longrightarrow> ends s i (parsepipe (Suc n) s i)"
      by (rule ends_pipe [OF i IH(3) IH(2)]) (use i in auto)
    show "4 * (length s - i) + 2 \<le> Suc n \<Longrightarrow> ends s i (parseexec (Suc n) s i)"
      by (rule ends_exec [OF i IH(4)]) (use i in auto)
    show "4 * (length s - i) + 1 \<le> Suc n \<Longrightarrow> ends s i (parseblock (Suc n) s i)"
      by (rule ends_block [OF i IH(1)]) (use i in auto)
  qed
qed simp

section \<open>What parsecmd accepts\<close>

lemma tokens_end:
  assumes "CHR 0x00 \<notin> set s" and "i \<le> length s"
  shows "tokens s i = [] \<longleftrightarrow> fst (peek s [] i) = length s"
proof -
  obtain t q eq j where g: "gettoken s i = (t, q, eq, j)" by (metis prod_cases4)
  let ?k = "skip (in_str whitespace) s i"
  have "?k \<le> length s" by (rule skip_le [OF assms(2)])
  moreover have "char_at s ?k = CHR 0x00 \<longleftrightarrow> \<not> ?k < length s"
    using assms(1) by (metis char_at_def nth_mem)
  moreover have "tokens s i = [] \<longleftrightarrow> char_at s ?k = CHR 0x00"
  proof -
    have "word_char (CHR 0x00) \<Longrightarrow> CHR ''a'' \<noteq> CHR 0x00" by simp
    then show ?thesis using gettoken_cases [OF g] by (elim disjE) auto
  qed
  ultimately show ?thesis by (auto simp: peek_def Let_def)
qed

lemma parsecmd_run:
  assumes "CHR 0x00 \<notin> set s"
  shows "parsecmd s = (case parseline (4 * length s + 4) s 0 of Inl e \<Rightarrow> Inl e
      | Inr (c, i) \<Rightarrow> if tokens s i = [] then Inr (c, nulterminate c (s @ [CHR 0x00])) else Inl (Panic ''syntax''))"
    and "ends s 0 (parseline (4 * length s + 4) s 0)"
proof -
  show e: "ends s 0 (parseline (4 * length s + 4) s 0)" using parser_ends [of s "4 * length s + 4"] by simp
  show "parsecmd s = (case parseline (4 * length s + 4) s 0 of Inl e \<Rightarrow> Inl e
      | Inr (c, i) \<Rightarrow> if tokens s i = [] then Inr (c, nulterminate c (s @ [CHR 0x00])) else Inl (Panic ''syntax''))"
    using e tokens_end [OF assms] by (auto simp: parsecmd_def rbind_def ends_def split: sum.splits prod.splits)
qed

lemma parsecmd_iff:
  assumes "CHR 0x00 \<notin> set s"
  shows "parsecmd s = Inr (c, b) \<longleftrightarrow>
      (\<exists>l. line_ok l \<and> tokens s 0 = flat_line l \<and> c = tree_line l) \<and> b = nulterminate c (s @ [CHR 0x00])"
proof -
  let ?m = "parseline (4 * length s + 4) s 0"
  note r = parsecmd_run [OF assms]
  show ?thesis
  proof
    assume "parsecmd s = Inr (c, b)"
    then obtain i where "?m = Inr (c, i)" "tokens s i = []" "b = nulterminate c (s @ [CHR 0x00])"
      by (auto simp: r(1) split: sum.splits prod.splits if_splits)
    moreover from this have "line_at s 0 c i" using parser_sound by blast
    ultimately show "(\<exists>l. line_ok l \<and> tokens s 0 = flat_line l \<and> c = tree_line l) \<and> b = nulterminate c (s @ [CHR 0x00])"
      by (auto simp: line_at_def)
  next
    assume a: "(\<exists>l. line_ok l \<and> tokens s 0 = flat_line l \<and> c = tree_line l) \<and> b = nulterminate c (s @ [CHR 0x00])"
    then obtain l where l: "line_ok l" "tokens s 0 = flat_line l @ []" "c = tree_line l" by auto
    then have "finds s ?m c []" using parser_complete(1) [OF l(1,2)] by simp
    then show "parsecmd s = Inr (c, b)" using r(2) a by (auto simp: r(1) finds_def ends_def)
  qed
qed

text \<open>C26: The parser of the shell ends on every line: the depth is enough, whatever the line. It accepts exactly
  the lines whose tokens are those of the grammar (commands of at most nine arguments with redirections
  anywhere, blocks, pipelines, lists, background), builds their tree, and ends the shell's child with a
  message on every other line.\<close>

theorem parsecmd_grammar:
  assumes "CHR 0x00 \<notin> set s"
  shows "(\<forall>c b. parsecmd s = Inr (c, b) \<longleftrightarrow>
      (\<exists>l. line_ok l \<and> tokens s 0 = flat_line l \<and> c = tree_line l) \<and> b = nulterminate c (s @ [CHR 0x00])) \<and>
    (\<forall>e. parsecmd s = Inl e \<longrightarrow> (\<exists>msg. e = Panic msg))"
proof -
  have "parsecmd s = Inl e \<Longrightarrow> \<exists>msg. e = Panic msg" for e
    using parsecmd_run [OF assms] by (auto simp: ends_def split: sum.splits prod.splits if_splits)
  then show ?thesis using parsecmd_iff [OF assms] by blast
qed

lemmas scan_simps = gettoken_def skip.simps char_at_def in_str_def word_char_def whitespace_def symbols_def Let_def

text \<open>Two commands in a pipeline, the second with a redirection, in the background.\<close>

theorem parsecmd_grammar_witness:
  "CHR 0x00 \<notin> set ''a|b>c&'' \<and>
   (\<exists>b. parsecmd ''a|b>c&'' = Inr (Back (PipeCmd (Exec [(0, 1)]) (Redir (Exec [(2, 3)]) 4 5 0x201 1)), b))"
proof -
  let ?s = "''a|b>c&''"
  let ?l = "Last (Bar (Simple [] [((0, 1), [])]) (One (Simple [] [((2, 3), [Redirection CHR ''>'' 4 5])]))) (Suc 0)"
  have z: "CHR 0x00 \<notin> set ?s" by simp
  have g: "gettoken ?s 0 = (CHR ''a'', 0, 1, 1)" "gettoken ?s 1 = (CHR ''|'', 1, 2, 2)"
      "gettoken ?s 2 = (CHR ''a'', 2, 3, 3)" "gettoken ?s 3 = (CHR ''>'', 3, 4, 4)"
      "gettoken ?s 4 = (CHR ''a'', 4, 5, 5)" "gettoken ?s 5 = (CHR ''&'', 5, 6, 6)"
      "gettoken ?s 6 = (CHR 0x00, 6, 6, 6)"
    by (simp_all add: scan_simps)
  have "tokens ?s 0 = flat_line ?l"
    by (simp add: tokens.simps [of ?s 0] tokens.simps [of ?s 1] tokens.simps [of ?s 2] tokens.simps [of ?s 3]
        tokens.simps [of ?s 4] tokens.simps [of ?s 5] tokens.simps [of ?s 6] g del: One_nat_def)
  moreover have "line_ok ?l" by simp
  ultimately have "\<exists>b. parsecmd ?s = Inr (tree_line ?l, b)" using parsecmd_grammar [OF z] by blast
  then show ?thesis by simp
qed

section \<open>The words of a tree\<close>

fun words :: "cmd \<Rightarrow> (nat \<times> nat) list" where
  "words (Exec args) = args"
| "words (Redir c f ef mode fd) = words c @ [(f, ef)]"
| "words (PipeCmd l r) = words l @ words r"
| "words (ListCmd l r) = words l @ words r"
| "words (Back c) = words c"

lemma nulterminate_words: "nulterminate c b = foldl (\<lambda>b (q, eq). b[eq := CHR 0x00]) b (words c)"
  by (induction c arbitrary: b) (simp_all add: case_prod_beta)

lemma terminated:
  "length (foldl (\<lambda>b (q, eq). b[eq := CHR 0x00]) b ws) = length b"
  "k < length b \<Longrightarrow> foldl (\<lambda>b (q, eq). b[eq := CHR 0x00]) b ws ! k = (if k \<in> snd ` set ws then CHR 0x00 else b ! k)"
proof (induction ws arbitrary: b)
  case (Cons w ws)
  obtain q eq where w: "w = (q, eq)" by fastforce
  {
    case 1
    show ?case using Cons.IH(1) [of "b[eq := CHR 0x00]"] by (simp add: w)
  next
    case 2
    then show ?case using Cons.IH(2) [of "b[eq := CHR 0x00]"] by (auto simp: w nth_list_update)
  }
qed simp_all

fun word_set :: "token list \<Rightarrow> (nat \<times> nat) set" where
  "word_set [] = {}"
| "word_set (Word q eq # ts) = insert (q, eq) (word_set ts)"
| "word_set (Sym c # ts) = word_set ts"

lemma word_set_append [simp]: "word_set (ts @ us) = word_set ts \<union> word_set us"
  by (induction ts rule: word_set.induct) auto

lemma word_set_iff: "(q, eq) \<in> word_set ts \<longleftrightarrow> Word q eq \<in> set ts"
  by (induction ts rule: word_set.induct) auto

lemma word_set_backs [simp]: "word_set (replicate k (Sym c)) = {}"
  by (induction k) simp_all

lemma words_wraps: "set (words (wraps c rs)) = set (words c) \<union> word_set (flat_redirs rs)"
proof (induction rs arbitrary: c)
  case (Cons r rs)
  then show ?case by (cases r) auto
qed simp

lemma words_backs [simp]: "words ((Back ^^ k) c) = words c"
  by (induction k) simp_all

lemma words_args:
  "set (map fst args) \<union> word_set (flat_redirs (concat (map snd args))) = word_set (concat (map flat_arg args))"
proof (induction args)
  case (Cons a args)
  then show ?case by (cases a rule: flat_arg.cases) auto
qed simp

lemma words_tree:
  "set (words (tree_line l)) = word_set (flat_line l)"
  "set (words (tree_pipe p)) = word_set (flat_pipe p)"
  "set (words (tree_cmd e)) = word_set (flat_cmd e)"
proof (induction l and p and e)
  case (Simple rs args)
  have "set (words (tree_cmd (Simple rs args))) =
      set (map fst args) \<union> word_set (flat_redirs rs) \<union> word_set (flat_redirs (concat (map snd args)))"
    by (simp add: words_wraps Un_assoc)
  then show ?case using words_args [of args] by auto
qed (simp_all add: words_wraps Un_assoc)

lemma word_token:
  "Word q eq \<in> set (tokens s i) \<Longrightarrow> i \<le> length s \<Longrightarrow> q < eq \<and> eq \<le> length s \<and>
    (\<forall>k. q \<le> k \<longrightarrow> k < eq \<longrightarrow> word_char (s ! k)) \<and> (eq < length s \<longrightarrow> \<not> word_char (s ! eq))"
proof (induction s i rule: tokens.induct)
  case (1 s i)
  obtain t u v j where g: "gettoken s i = (t, u, v, j)" by (metis prod_cases4)
  have j: "j \<le> length s" using gettoken_le [OF g 1(3)] by simp
  from gettoken_cases [OF g] 1(2)
  have t: "t \<noteq> CHR 0x00" "t = CHR ''a'' \<and> (q, eq) = (u, v) \<or> Word q eq \<in> set (tokens s j)"
    by (elim disjE; auto)+
  from t(2) show ?case
  proof (elim disjE conjE)
    assume a: "t = CHR ''a''" "(q, eq) = (u, v)"
    have v: "v = skip word_char s u" using g a(1)
      by (auto simp: gettoken_def Let_def split: prod.splits if_splits)
    have "u < v" "u \<le> length s" using gettoken_progress(4) [OF g t(1)] by simp_all
    then show ?thesis using a(2) v skip_le [of u s word_char] skip_all [of u _ word_char s] skip_stop [of word_char s u] by auto
  next
    assume "Word q eq \<in> set (tokens s j)"
    then show ?thesis using 1(1) [OF g [symmetric] refl refl t(1) _ j] by blast
  qed
qed

text \<open>A string of C in the buffer: the characters up to the next NUL.\<close>

definition cstring :: "string \<Rightarrow> nat \<Rightarrow> string" where
  "cstring b q = takeWhile (\<lambda>c. c \<noteq> CHR 0x00) (List.drop q b)"

text \<open>C27: After \<open>parsecmd\<close> the pointers in the tree are strings: the NULs that it writes into the line end
  every argument and every file name where its token ended, and cut none of the other words. So the
  strings are the words of the line, none is empty, and none contains a separator.\<close>

theorem parsecmd_words:
  assumes "CHR 0x00 \<notin> set s" and "parsecmd s = Inr (c, b)" and "(q, eq) \<in> set (words c)"
  shows "cstring b q = take (eq - q) (List.drop q s) \<and> q < eq \<and> eq \<le> length s \<and> (\<forall>x\<in>set (cstring b q). word_char x)"
proof -
  obtain l where l: "tokens s 0 = flat_line l" "c = tree_line l" and b: "b = nulterminate c (s @ [CHR 0x00])"
    using iffD1 [OF parsecmd_iff [OF assms(1)] assms(2)] by blast
  have w: "u < v \<and> v \<le> length s \<and> (\<forall>k. u \<le> k \<longrightarrow> k < v \<longrightarrow> word_char (s ! k)) \<and> (v < length s \<longrightarrow> \<not> word_char (s ! v))"
    if "(u, v) \<in> set (words c)" for u v
    using word_token [of u v s 0] that l words_tree(1) [of l] by (simp add: word_set_iff)
  note me = w [OF assms(3)]
  let ?n = "eq - q"
  have len: "length b = length s + 1" unfolding b nulterminate_words by (simp only: terminated(1)) simp
  have at: "b ! k = (if k \<in> snd ` set (words c) then CHR 0x00 else (s @ [CHR 0x00]) ! k)" if "k \<le> length s" for k
    unfolding b nulterminate_words using terminated(2) [of k "s @ [CHR 0x00]" "words c"] that by simp
  have in_: "b ! k = s ! k \<and> s ! k \<noteq> CHR 0x00" if k: "q \<le> k" "k < eq" for k
  proof -
    have kl: "k < length s" "word_char (s ! k)" using me k by auto
    have "k \<notin> snd ` set (words c)"
    proof
      assume "k \<in> snd ` set (words c)"
      then obtain u where "(u, k) \<in> set (words c)" by auto
      then show False using w [of u k] kl by simp
    qed
    moreover have "s ! k \<noteq> CHR 0x00" using assms(1) kl(1) by (metis nth_mem)
    ultimately show ?thesis using at [of k] kl(1) by (simp add: nth_append)
  qed
  have "b ! eq = CHR 0x00" using at [of eq] me assms(3) by force
  then have "cstring b q = take ?n (List.drop q b)"
    unfolding cstring_def using in_ len me by (intro takeWhile_eq_take_P_nth) auto
  also have "\<dots> = take ?n (List.drop q s)"
    by (rule nth_equalityI) (use in_ len me in auto)
  finally have e: "cstring b q = take ?n (List.drop q s)" .
  moreover have "\<forall>x\<in>set (take ?n (List.drop q s)). word_char x" using me by (auto simp: in_set_conv_nth)
  ultimately show ?thesis using me by auto
qed

theorem parsecmd_words_witness:
  "\<exists>c b. parsecmd ''l>x'' = Inr (c, b) \<and> cstring b 0 = ''l'' \<and> cstring b 2 = ''x''"
proof -
  let ?s = "''l>x''"
  let ?l = "Last (One (Simple [] [((0, 1), [Redirection CHR ''>'' 2 3])])) 0"
  have z: "CHR 0x00 \<notin> set ?s" by simp
  have g: "gettoken ?s 0 = (CHR ''a'', 0, 1, 1)" "gettoken ?s 1 = (CHR ''>'', 1, 2, 2)"
      "gettoken ?s 2 = (CHR ''a'', 2, 3, 3)" "gettoken ?s 3 = (CHR 0x00, 3, 3, 3)"
    by (simp_all add: scan_simps)
  have "tokens ?s 0 = flat_line ?l"
    by (simp add: tokens.simps [of ?s 0] tokens.simps [of ?s 1] tokens.simps [of ?s 2] tokens.simps [of ?s 3] g
        del: One_nat_def)
  moreover have "line_ok ?l" by simp
  ultimately obtain b where p: "parsecmd ?s = Inr (tree_line ?l, b)" using parsecmd_iff [OF z] by blast
  have "cstring b 0 = ''l''" "cstring b 2 = ''x''"
    using parsecmd_words [OF z p, of 0 1] parsecmd_words [OF z p, of 2 3] by simp_all
  then show ?thesis using p by blast
qed

end
