(* ===== verification/ShellRun.thy ===== *)
theory ShellRun
  imports ShellProps
begin

text \<open>
  The execution of the trees of the shell, and its loop over the input. A process of the shell is its
  table of descriptors; what it does with it is followed up to the programs it hands to \<open>exec\<close>.
\<close>

section \<open>Descriptors\<close>

text \<open>What a descriptor stands for: something the shell was started with, a file, or an end of a pipe.\<close>

datatype 'f fdobj = Given 'f | Opened string nat | ReadEnd "nat list" | WriteEnd "nat list"

type_synonym 'f fds = "nat \<Rightarrow> 'f fdobj option"

definition lowest :: "'f fds \<Rightarrow> nat option" where
  "lowest fds = List.find (\<lambda>k. fds k = None) [0..<16]"

definition close :: "nat \<Rightarrow> 'f fds \<Rightarrow> 'f fds" where
  "close fd fds = fds(fd := None)"

definition put_fd :: "'f fdobj \<Rightarrow> 'f fds \<Rightarrow> 'f fds" where
  "put_fd x fds = (case lowest fds of None \<Rightarrow> fds | Some k \<Rightarrow> fds(k := Some x))"

definition dup :: "nat \<Rightarrow> 'f fds \<Rightarrow> 'f fds" where
  "dup fd fds = (case fds fd of None \<Rightarrow> fds | Some x \<Rightarrow> put_fd x fds)"

section \<open>runcmd\<close>

text \<open>
  The outcomes of the calls that can fail: \<open>open\<close> of a file, and \<open>pipe\<close> and \<open>fork\<close> of the process at a
  place in the tree. A list of numbers names that place: \<open>0\<close> for the first process a command starts, \<open>1\<close>
  for the second, or for the right-hand side of a list.
\<close>

record outcomes =
  open_ok :: "string \<Rightarrow> nat \<Rightarrow> bool"
  pipe_ok :: "nat list \<Rightarrow> bool"
  fork_ok :: "nat list \<Rightarrow> bool"

text \<open>
  The programs that a tree hands to \<open>exec\<close>, with the descriptors they get. A process whose \<open>open\<close>,
  \<open>pipe\<close> or \<open>fork\<close> fails prints a message and exits. \<open>b\<close> is the buffer of the line.
\<close>

fun runcmd :: "outcomes \<Rightarrow> string \<Rightarrow> nat list \<Rightarrow> cmd \<Rightarrow> 'f fds \<Rightarrow> (string list \<times> 'f fds) list" where
  "runcmd w b at (Exec args) fds = (if args = [] then [] else [(map (\<lambda>(q, eq). cstring b q) args, fds)])"
| "runcmd w b at (Redir c f ef mode fd) fds =
     (let fds1 = close fd fds in
      if open_ok w (cstring b f) mode \<and> lowest fds1 \<noteq> None
      then runcmd w b at c (put_fd (Opened (cstring b f) mode) fds1)
      else [])"
| "runcmd w b at (ListCmd l r) fds =
     (if fork_ok w (0 # at) then runcmd w b (0 # at) l fds @ runcmd w b (1 # at) r fds else [])"
| "runcmd w b at (PipeCmd l r) fds =
     (case lowest fds of
        None \<Rightarrow> []
      | Some p0 \<Rightarrow>
          (let fds0 = fds(p0 \<mapsto> ReadEnd at) in
           case lowest fds0 of
             None \<Rightarrow> []
           | Some p1 \<Rightarrow>
               (let fds1 = fds0(p1 \<mapsto> WriteEnd at) in
                if \<not> pipe_ok w at \<or> \<not> fork_ok w (0 # at) then []
                else
                  runcmd w b (0 # at) l (close p1 (close p0 (dup p1 (close 1 fds1)))) @
                  (if \<not> fork_ok w (1 # at) then []
                   else runcmd w b (1 # at) r (close p1 (close p0 (dup p0 (close 0 fds1))))))))"
| "runcmd w b at (Back c) fds = (if fork_ok w (0 # at) then runcmd w b (0 # at) c fds else [])"

section \<open>The loop of the shell\<close>

text \<open>
  \<open>gets\<close> (\<open>ulib.c\<close>) reads single characters, at most \<open>n\<close>, up to the end of a line; \<open>getcmd\<close> fills the
  buffer of 100 characters with a line and says whether there was one.
\<close>

fun gets :: "nat \<Rightarrow> string \<Rightarrow> string \<times> string" where
  "gets 0 inp = ([], inp)"
| "gets (Suc n) [] = ([], [])"
| "gets (Suc n) (c # inp) =
     (if c = CHR 0x0A \<or> c = CHR 0x0D then ([c], inp)
      else (case gets n inp of (l, rest) \<Rightarrow> (c # l, rest)))"

definition getcmd :: "string \<Rightarrow> (string \<times> string) option" where
  "getcmd inp = (case gets 99 inp of (l, rest) \<Rightarrow>
     let buf = takeWhile (\<lambda>c. c \<noteq> CHR 0x00) l in if buf = [] then None else Some (buf, rest))"

lemma gets_parts: "gets n inp = (l, rest) \<Longrightarrow> inp = l @ rest"
  by (induction n inp arbitrary: l rule: gets.induct) (auto split: if_splits prod.splits)

datatype action = Chdir string | Child string

text \<open>The directory is changed by the shell itself, with the last character of the line cut off.\<close>

function sh_main :: "string \<Rightarrow> action list" where
  "sh_main inp =
     (case getcmd inp of
        None \<Rightarrow> []
      | Some (buf, rest) \<Rightarrow>
          (if take 3 buf = ''cd '' then Chdir (List.drop 3 (butlast buf)) else Child buf) # sh_main rest)"
  by pat_completeness auto
termination
proof (relation "measure length")
  fix inp x buf rest
  assume "getcmd inp = Some x" "(buf, rest) = x"
  then obtain l where l: "gets 99 inp = (l, rest)" "takeWhile (\<lambda>c. c \<noteq> CHR 0x00) l \<noteq> []"
    by (auto simp: getcmd_def Let_def split: prod.splits if_splits)
  then have "l \<noteq> []" by auto
  then show "(rest, inp) \<in> measure length" using gets_parts [OF l(1)] by simp
qed simp

declare sh_main.simps [simp del]

section \<open>How the descriptors are plumbed\<close>

definition std :: "'f fdobj \<Rightarrow> 'f fdobj \<Rightarrow> 'f fdobj \<Rightarrow> 'f fds" where
  "std i j e = (\<lambda>_. None)(0 \<mapsto> i, 1 \<mapsto> j, 2 \<mapsto> e)"

text \<open>
  The specification: each program of a tree with its standard input and output. Of several redirections
  of one descriptor the first on the line is the one that counts, since the tree has it innermost.
\<close>

fun plumb :: "string \<Rightarrow> nat list \<Rightarrow> cmd \<Rightarrow> 'f fdobj \<Rightarrow> 'f fdobj \<Rightarrow> (string list \<times> 'f fdobj \<times> 'f fdobj) list" where
  "plumb b at (Exec args) i j = (if args = [] then [] else [(map (\<lambda>(q, eq). cstring b q) args, i, j)])"
| "plumb b at (Redir c f ef mode fd) i j =
     (let x = Opened (cstring b f) mode in if fd = 0 then plumb b at c x j else plumb b at c i x)"
| "plumb b at (ListCmd l r) i j = plumb b (0 # at) l i j @ plumb b (1 # at) r i j"
| "plumb b at (PipeCmd l r) i j = plumb b (0 # at) l i (WriteEnd at) @ plumb b (1 # at) r (ReadEnd at) j"
| "plumb b at (Back c) i j = plumb b (0 # at) c i j"

fun std_redirs :: "cmd \<Rightarrow> bool" where
  "std_redirs (Exec args) = True"
| "std_redirs (Redir c f ef mode fd) = ((fd = 0 \<or> fd = 1) \<and> std_redirs c)"
| "std_redirs (ListCmd l r) = (std_redirs l \<and> std_redirs r)"
| "std_redirs (PipeCmd l r) = (std_redirs l \<and> std_redirs r)"
| "std_redirs (Back c) = std_redirs c"

lemma std_wraps: "std_redirs (wraps c rs) = std_redirs c"
proof (induction rs arbitrary: c)
  case (Cons r rs)
  then show ?case by (cases r) simp
qed simp

lemma std_backs: "std_redirs ((Back ^^ k) c) = std_redirs c"
  by (induction k) simp_all

lemma std_tree: "std_redirs (tree_line l)" "std_redirs (tree_pipe p)" "std_redirs (tree_cmd e)"
  by (induction l and p and e) (simp_all add: std_wraps std_backs)

lemma lowest_eq: "k < 16 \<Longrightarrow> fds k = None \<Longrightarrow> (\<And>j. j < k \<Longrightarrow> fds j \<noteq> None) \<Longrightarrow> lowest fds = Some k"
  unfolding lowest_def by (rule find_first_eq) auto

lemma lowest_std: "lowest (std i j e) = Some 3" "lowest ((std i j e)(3 \<mapsto> x)) = Some 4"
  by (auto intro!: lowest_eq simp: std_def)

lemma lowest_closed:
  "lowest (close 0 ((std i j e)(3 \<mapsto> x, 4 \<mapsto> y))) = Some 0" "lowest (close 1 ((std i j e)(3 \<mapsto> x, 4 \<mapsto> y))) = Some 1"
  "lowest (close 0 (std i j e)) = Some 0" "lowest (close 1 (std i j e)) = Some 1"
  by (auto intro!: lowest_eq simp: std_def close_def)

lemma pipe_left: "close 4 (close 3 (dup 4 (close 1 ((std i j e)(3 \<mapsto> x, 4 \<mapsto> y))))) = std i y e"
proof -
  have "close 1 ((std i j e)(3 \<mapsto> x, 4 \<mapsto> y)) 4 = Some y" by (simp add: close_def)
  then show ?thesis unfolding dup_def put_fd_def lowest_closed by (auto simp: close_def std_def fun_eq_iff)
qed

lemma pipe_right: "close 4 (close 3 (dup 3 (close 0 ((std i j e)(3 \<mapsto> x, 4 \<mapsto> y))))) = std x j e"
proof -
  have "close 0 ((std i j e)(3 \<mapsto> x, 4 \<mapsto> y)) 3 = Some x" by (simp add: close_def)
  then show ?thesis unfolding dup_def put_fd_def lowest_closed by (auto simp: close_def std_def fun_eq_iff)
qed

lemma redirected: "put_fd x (close 0 (std i j e)) = std x j e" "put_fd x (close 1 (std i j e)) = std i x e"
  unfolding put_fd_def lowest_closed by (auto simp: close_def std_def fun_eq_iff)

lemma runcmd_std:
  assumes "std_redirs c" and "\<And>f m. open_ok w f m" and "\<And>at. pipe_ok w at" and "\<And>at. fork_ok w at"
  shows "runcmd w b at c (std i j e) = map (\<lambda>(argv, i, j). (argv, std i j e)) (plumb b at c i j)"
  using assms(1)
proof (induction c arbitrary: at i j)
  case (Redir c f ef mode fd)
  then show ?case using assms(2) by (auto simp: Let_def lowest_closed redirected simp del: One_nat_def)
next
  case (PipeCmd l r)
  then show ?case using assms(3,4) by (simp add: lowest_std Let_def pipe_left pipe_right del: One_nat_def)
qed (use assms in simp_all)

text \<open>C28: When every \<open>open\<close>, \<open>pipe\<close> and \<open>fork\<close> succeeds, a line that the shell accepts starts exactly the
  programs of its tree, each with its own standard input and output: the ends of a pipe are connected to
  the programs left and right of it, redirections to their files, everything else is inherited, and
  no program keeps another descriptor, so that a reader sees the end of its pipe.\<close>

theorem runcmd_plumbs:
  assumes "CHR 0x00 \<notin> set s" and "parsecmd s = Inr (c, b)"
    and "\<forall>f m. open_ok w f m" and "\<forall>at. pipe_ok w at \<and> fork_ok w at"
  shows "runcmd w b [] c (std i j e) = map (\<lambda>(argv, i, j). (argv, std i j e)) (plumb b [] c i j)"
proof -
  have "std_redirs c" using iffD1 [OF parsecmd_iff [OF assms(1)] assms(2)] std_tree(1) by blast
  then show ?thesis using runcmd_std assms(3,4) by blast
qed

text \<open>The line \<open>l>x\<close>.\<close>

theorem runcmd_plumbs_witness:
  "\<exists>c b. parsecmd ''l>x'' = Inr (c, b) \<and>
    runcmd \<lparr>open_ok = \<lambda>f m. True, pipe_ok = \<lambda>at. True, fork_ok = \<lambda>at. True\<rparr> b [] c (std (Given 0) (Given 1) (Given 2)) =
      [([''l''], std (Given 0) (Opened ''x'' 0x201) (Given (2 :: nat)))]"
proof -
  let ?s = "''l>x''"
  let ?l = "Last (One (Simple [] [((0, 1), [Redirection CHR ''>'' 2 3])])) 0"
  have z: "CHR 0x00 \<notin> set ?s" by simp
  have g: "gettoken ?s 0 = (CHR ''a'', 0, 1, 1)" "gettoken ?s 1 = (CHR ''>'', 1, 2, 2)"
      "gettoken ?s 2 = (CHR ''a'', 2, 3, 3)" "gettoken ?s 3 = (CHR 0x00, 3, 3, 3)"
    by (simp_all add: scan_simps)
  have "tokens ?s 0 = flat_line ?l"
    by (simp add: tokens.simps [of ?s 0] tokens.simps [of ?s 1] tokens.simps [of ?s 2] tokens.simps [of ?s 3] g
        del: One_nat_def)
  moreover have "line_ok ?l" by simp
  ultimately obtain b where b: "parsecmd ?s = Inr (tree_line ?l, b)" "b = nulterminate (tree_line ?l) (?s @ [CHR 0x00])"
    using parsecmd_iff [OF z] by blast
  have "cstring b 0 = ''l''" "cstring b 2 = ''x''" by (simp_all add: b(2) cstring_def numeral_2_eq_2)
  then have p: "plumb b [] (tree_line ?l) (Given (0 :: nat)) (Given 1) = [([''l''], Given 0, Opened ''x'' 0x201)]"
    by simp
  have "runcmd \<lparr>open_ok = \<lambda>f m. True, pipe_ok = \<lambda>at. True, fork_ok = \<lambda>at. True\<rparr> b [] (tree_line ?l)
      (std (Given 0) (Given 1) (Given (2 :: nat))) =
    map (\<lambda>(argv, i, j). (argv, std i j (Given 2))) (plumb b [] (tree_line ?l) (Given 0) (Given 1))"
    by (rule runcmd_plumbs [OF z b(1)]) simp_all
  then show ?thesis unfolding p using b(1) by (intro exI [of _ "tree_line ?l"] exI [of _ b] conjI) (simp_all only: list.map prod.case)
qed

end
