(* ===== verification/Spinlock.thy ===== *)
theory Spinlock
  imports Prelude
begin

text \<open>
  Spin locks (\<open>spinlock.c\<close>) at the grain of single accesses to the lock: the processors take turns in
  any order, each of them in its code, in \<open>acquire\<close> or in \<open>release\<close>. \<open>pushcli\<close> and \<open>popcli\<close> work on what
  belongs to one processor, so they are part of the step before or after them. The call stack that
  \<open>acquire\<close> records for debugging is left out.
\<close>

section \<open>The code\<close>

record cpu =
  ncli :: int
  intena :: bool
  iflag :: bool

record spinlock =
  locked :: u32
  lk_cpu :: "nat option"




text \<open>
  Where a processor is: outside, or at the access that it makes next. \<open>holding\<close> reads \<open>locked\<close> and then,
  if that is set, \<open>cpu\<close>; the suffixes \<open>1\<close> and \<open>2\<close> are these two reads. A panic stops the processor.
\<close>

datatype place =
    Free
  | Acquire1 nat | Acquire2 nat | Xchg nat | Record nat
  | Release1 nat | Release2 nat | Forget nat | Unlock nat
  | Stopped string nat

text \<open>
  \<open>held\<close> and \<open>before\<close> are no part of the code: the locks a processor has taken, and whether interrupts
  were on when it last had none.
\<close>

record machine =
  cpus :: "nat \<Rightarrow> cpu"
  locks :: "nat \<Rightarrow> spinlock"
  place :: "nat \<Rightarrow> place"
  held :: "nat \<Rightarrow> nat set"
  before :: "nat \<Rightarrow> bool"









section \<open>The invariant\<close>




text \<open>The processors for which \<open>locked\<close> is set: those that hold the lock, have just got it, or are about to give it up.\<close>

definition owners :: "machine \<Rightarrow> nat \<Rightarrow> nat set" where
  "owners s l = {c. l \<in> held s c \<or> place s c = Record l \<or> place s c = Unlock l}"

definition lock_ok :: "machine \<Rightarrow> nat \<Rightarrow> bool" where
  "lock_ok s l \<longleftrightarrow> (\<forall>c. lk_cpu (locks s l) = Some c \<longleftrightarrow> l \<in> held s c) \<and>
     (if locked (locks s l) = 0 then owners s l = {} else \<exists>c. owners s l = {c})"


lemma lock_ok_cong:
  assumes "locks s' l = locks s l" and "\<And>c. l \<in> held s' c \<longleftrightarrow> l \<in> held s c" and "owners s' l = owners s l"
  shows "lock_ok s' l = lock_ok s l"
  using assms by (simp add: lock_ok_def)










section \<open>The steps on a lock\<close>












end
