(* ===== verification/Sleeplock.thy ===== *)
theory Sleeplock
  imports Spinlock
begin

text \<open>
  Sleep locks (\<open>sleeplock.c\<close>): the processes that wait for one sleep instead of spinning. Each operation
  works under the spin lock \<open>lk->lk\<close>, which \<open>sleep\<close> gives up only after it has marked the process as
  sleeping, so what an operation does between two sleeps is one step.
\<close>

section \<open>The code\<close>

record sleeplock =
  sl_locked :: u32
  sl_pid :: int

definition initsleeplock :: "sleeplock \<Rightarrow> sleeplock" where
  "initsleeplock lk = lk\<lparr>sl_locked := 0, sl_pid := 0\<rparr>"

text \<open>\<open>acquiresleep\<close> up to its next sleep, which is \<open>None\<close>, or to its end.\<close>

definition acquiresleep :: "int \<Rightarrow> sleeplock \<Rightarrow> sleeplock option" where
  "acquiresleep mypid lk = (if sl_locked lk \<noteq> 0 then None else Some (lk\<lparr>sl_locked := 1, sl_pid := mypid\<rparr>))"

text \<open>\<open>releasesleep\<close> also wakes all processes that sleep on the lock.\<close>

definition releasesleep :: "sleeplock \<Rightarrow> sleeplock" where
  "releasesleep lk = lk\<lparr>sl_locked := 0, sl_pid := 0\<rparr>"

definition holdingsleep :: "int \<Rightarrow> sleeplock \<Rightarrow> bool" where
  "holdingsleep mypid lk \<longleftrightarrow> sl_locked lk \<noteq> 0 \<and> sl_pid lk = mypid"

section \<open>Its processes\<close>

text \<open>A process is outside, sleeps on the lock, has been woken, or is inside.\<close>

datatype visit = Outside | Asleep | Woken | Inside

record sleepers =
  slock :: sleeplock
  visit :: "nat \<Rightarrow> visit"

definition attempt :: "(nat \<Rightarrow> int) \<Rightarrow> nat \<Rightarrow> sleepers \<Rightarrow> sleepers" where
  "attempt pid p s =
     (case acquiresleep (pid p) (slock s) of
        None \<Rightarrow> s\<lparr>visit := (visit s)(p := Asleep)\<rparr>
      | Some lk \<Rightarrow> s\<lparr>slock := lk, visit := (visit s)(p := Inside)\<rparr>)"

definition leave :: "nat \<Rightarrow> sleepers \<Rightarrow> sleepers" where
  "leave p s = s\<lparr>slock := releasesleep (slock s),
     visit := (\<lambda>q. if visit s q = Asleep then Woken else visit s q)(p := Outside)\<rparr>"

text \<open>
  A process that is outside or has been woken tests the lock; one that is inside leaves. The callers
  make sure of the latter: they panic unless \<open>holdingsleep\<close>.
\<close>

inductive sleep_run :: "(nat \<Rightarrow> int) \<Rightarrow> sleepers \<Rightarrow> bool" for pid :: "nat \<Rightarrow> int" where
  start: "sleep_run pid \<lparr>slock = initsleeplock lk, visit = (\<lambda>_. Outside)\<rparr>"
| attempt: "sleep_run pid s \<Longrightarrow> visit s p = Outside \<or> visit s p = Woken \<Longrightarrow> sleep_run pid (attempt pid p s)"
| leave: "sleep_run pid s \<Longrightarrow> holdingsleep (pid p) (slock s) \<Longrightarrow> sleep_run pid (leave p s)"

definition sleep_inv :: "(nat \<Rightarrow> int) \<Rightarrow> sleepers \<Rightarrow> bool" where
  "sleep_inv pid s \<longleftrightarrow> (\<forall>p. visit s p = Inside \<longleftrightarrow> holdingsleep (pid p) (slock s)) \<and>
     (sl_locked (slock s) \<noteq> 0 \<longrightarrow> (\<exists>p. visit s p = Inside)) \<and>
     (\<forall>p. visit s p = Asleep \<longrightarrow> sl_locked (slock s) \<noteq> 0)"

lemma sleep_run_inv:
  assumes "inj pid" and "sleep_run pid s"
  shows "sleep_inv pid s"
  using assms(2)
proof (induction rule: sleep_run.induct)
  case (start lk)
  then show ?case by (simp add: sleep_inv_def holdingsleep_def initsleeplock_def)
next
  case (attempt s p)
  then have inv: "sleep_inv pid s" and out: "visit s p \<noteq> Inside" by auto
  show ?case
  proof (cases "sl_locked (slock s) = 0")
    case True
    then show ?thesis using inv assms(1)
      by (auto simp: sleep_inv_def holdingsleep_def attempt_def acquiresleep_def inj_def)
  next
    case False
    then obtain q where "visit s q = Inside" using inv by (auto simp: sleep_inv_def)
    moreover from this have "q \<noteq> p" using out by auto
    moreover have "\<not> holdingsleep (pid p) (slock s)" using inv out by (auto simp: sleep_inv_def)
    ultimately show ?thesis using inv False
      by (auto simp: sleep_inv_def attempt_def acquiresleep_def)
  qed
next
  case (leave s p)
  then have "visit s q = Inside \<longleftrightarrow> q = p" for q
    using assms(1) by (auto simp: sleep_inv_def holdingsleep_def inj_def)
  then show ?case using leave
    by (auto simp: sleep_inv_def holdingsleep_def leave_def releasesleep_def)
qed

text \<open>C16: At most one process is inside a sleep lock, the one for which \<open>holdingsleep\<close> answers yes, whoever
  comes, sleeps and is woken in whatever order; and no wake-up is lost: while a process sleeps on the
  lock another one is inside, whose release will wake it.\<close>

theorem sleeplock_exclusive:
  assumes "inj pid" and "sleep_run pid s"
  shows "(\<forall>p q. visit s p = Inside \<longrightarrow> visit s q = Inside \<longrightarrow> p = q) \<and>
    (\<forall>p. visit s p = Inside \<longleftrightarrow> holdingsleep (pid p) (slock s)) \<and>
    (\<forall>p. visit s p = Asleep \<longrightarrow> (\<exists>q. q \<noteq> p \<and> visit s q = Inside))"
proof -
  have inv: "sleep_inv pid s" by (rule sleep_run_inv [OF assms])
  then have "visit s p = Inside \<Longrightarrow> visit s q = Inside \<Longrightarrow> p = q" for p q
    using assms(1) by (auto simp: sleep_inv_def holdingsleep_def inj_def)
  moreover have "visit s p = Asleep \<Longrightarrow> \<exists>q. q \<noteq> p \<and> visit s q = Inside" for p
    using inv unfolding sleep_inv_def by (metis visit.distinct(9))
  ultimately show ?thesis using inv unfolding sleep_inv_def by blast
qed

text \<open>Process 0 is inside, 1 sleeps.\<close>

theorem sleeplock_exclusive_witness:
  "\<exists>s. sleep_run int s \<and> visit s 1 = Asleep \<and> (\<exists>q. q \<noteq> 1 \<and> visit s q = Inside)"
proof -
  let ?s0 = "\<lparr>slock = initsleeplock \<lparr>sl_locked = 0, sl_pid = 0\<rparr>, visit = (\<lambda>_. Outside)\<rparr>"
  have "sleep_run int (attempt int 1 (attempt int 0 ?s0))"
    by (intro sleep_run.intros) (simp_all add: attempt_def acquiresleep_def initsleeplock_def)
  moreover have "visit (attempt int 1 (attempt int 0 ?s0)) 1 = Asleep"
    by (simp add: attempt_def acquiresleep_def initsleeplock_def)
  ultimately show ?thesis using sleeplock_exclusive [of int "attempt int 1 (attempt int 0 ?s0)"] by auto
qed

end
