(* ===== verification/Console.thy ===== *)
theory Console
  imports Ring
begin

text \<open>
  The input side of the console (\<open>console.c\<close>): the ring of characters with its three counters, the
  handler that edits the line being typed, and the reading of lines. What \<open>consputc\<close> echoes is the list
  of its arguments. All of it runs under the lock of the console; a read is modelled up to its return
  or its next sleep.
\<close>

section \<open>The code\<close>

record input =
  i_buf :: "nat \<Rightarrow> 8 word"
  i_r :: u32
  i_w :: u32
  i_e :: u32

definition islot :: "u32 \<Rightarrow> nat" where
  "islot c = unat (c mod 128)"

definition BACKSPACE :: int where
  "BACKSPACE = 0x100"

text \<open>The loop for control-U.\<close>

function kill_line :: "input \<Rightarrow> int list \<times> input" where
  "kill_line s =
     (if i_e s \<noteq> i_w s \<and> i_buf s (islot (i_e s - 1)) \<noteq> 0x0A
      then (case kill_line (s\<lparr>i_e := i_e s - 1\<rparr>) of (out, t) \<Rightarrow> (BACKSPACE # out, t))
      else ([], s))"
  by pat_completeness auto
termination
proof (relation "measure (\<lambda>s. unat (i_e s - i_w s))")
  fix s :: input
  assume "i_e s \<noteq> i_w s \<and> i_buf s (islot (i_e s - 1)) \<noteq> 0x0A"
  then have "i_e s - i_w s \<noteq> 0" by simp
  then have "unat (i_e s - i_w s - 1) < unat (i_e s - i_w s)"     using unat_minus_one [of "i_e s - i_w s"] by (metis diff_less unat_gt_0 zero_less_one)
  then show "(s\<lparr>i_e := i_e s - 1\<rparr>, s) \<in> measure (\<lambda>s. unat (i_e s - i_w s))" by (simp add: algebra_simps)
qed simp

declare kill_line.simps [simp del]

text \<open>
  One character of the loop in \<open>consoleintr\<close>: the new state, the echo, and whether readers are woken.
  Control-P has no effect on the state; \<open>procdump\<close> is called after the loop.
\<close>

definition console_key :: "int \<Rightarrow> input \<Rightarrow> input \<times> int list \<times> bool" where
  "console_key c s =
     (if c = 16 then (s, [], False)
      else if c = 21 then (case kill_line s of (out, t) \<Rightarrow> (t, out, False))
      else if c = 8 \<or> c = 127 then
        (if i_e s \<noteq> i_w s then (s\<lparr>i_e := i_e s - 1\<rparr>, [BACKSPACE], False) else (s, [], False))
      else if c \<noteq> 0 \<and> i_e s - i_r s < 128 then
        (let d = (if c = 13 then 10 else c);
             s1 = s\<lparr>i_buf := (i_buf s)(islot (i_e s) := word_of_int d), i_e := i_e s + 1\<rparr> in
         if d = 10 \<or> d = 4 \<or> i_e s1 = i_r s1 + 128 then (s1\<lparr>i_w := i_e s1\<rparr>, [d], True) else (s1, [d], False))
      else (s, [], False))"

fun consoleintr :: "int list \<Rightarrow> input \<Rightarrow> input \<times> int list \<times> bool" where
  "consoleintr [] s = (s, [], False)"
| "consoleintr (c # cs) s =
     (if c < 0 then (s, [], False)
      else case console_key c s of (s1, out, wk) \<Rightarrow>
           case consoleintr cs s1 of (s2, out2, wk2) \<Rightarrow> (s2, out @ out2, wk \<or> wk2))"

text \<open>
  \<open>consoleread\<close> of the \<open>n\<close> bytes that are left of \<open>target\<close>: the bytes stored before it returns or sleeps.
  A killed process does not sleep: its read fails.
\<close>

datatype ending = Done | Sleeping | Killed

fun consoleread :: "bool \<Rightarrow> nat \<Rightarrow> nat \<Rightarrow> input \<Rightarrow> ending \<times> 8 word list \<times> input" where
  "consoleread killed target 0 s = (Done, [], s)"
| "consoleread killed target (Suc n) s =
     (if i_r s = i_w s then (if killed then Killed else Sleeping, [], s)
      else let c = i_buf s (islot (i_r s)); s1 = s\<lparr>i_r := i_r s + 1\<rparr> in
        if c = 4 then (Done, [], if Suc n < target then s1\<lparr>i_r := i_r s1 - 1\<rparr> else s1)
        else if c = 0x0A then (Done, [c], s1)
        else (case consoleread killed target n s1 of (e, cs, t) \<Rightarrow> (e, c # cs, t)))"

section \<open>The line discipline\<close>

text \<open>
  What the console promises: the lines that have been entered and the line that is being typed, each a
  list of characters. The handler edits the latter and moves it over when it is complete; a read takes
  from the front of the former, up to the end of a line or an end-of-file character.
\<close>

type_synonym lines = "8 word list \<times> 8 word list"

definition type_key :: "int \<Rightarrow> lines \<Rightarrow> lines" where
  "type_key c l =
     (case l of (entered, typing) \<Rightarrow>
        if c = 16 then l
        else if c = 21 then (entered, [])
        else if c = 8 \<or> c = 127 then (entered, butlast typing)
        else if c \<noteq> 0 \<and> length entered + length typing < 128 then
          (let d = word_of_int (if c = 13 then 10 else c); typed = typing @ [d] in
           if d = 0x0A \<or> d = 4 \<or> length entered + length typed = 128 then (entered @ typed, []) else (entered, typed))
        else l)"

fun read_line :: "bool \<Rightarrow> nat \<Rightarrow> nat \<Rightarrow> 8 word list \<Rightarrow> ending \<times> 8 word list \<times> 8 word list" where
  "read_line killed target 0 cs = (Done, [], cs)"
| "read_line killed target (Suc n) [] = (if killed then Killed else Sleeping, [], [])"
| "read_line killed target (Suc n) (c # cs) =
     (if c = 4 then (Done, [], if Suc n < target then c # cs else cs)
      else if c = 0x0A then (Done, [c], cs)
      else (case read_line killed target n cs of (e, bs, rest) \<Rightarrow> (e, c # bs, rest)))"

section \<open>The ring implements it\<close>

definition n_entered :: "input \<Rightarrow> nat" where
  "n_entered s = unat (i_w s - i_r s)"

definition n_typing :: "input \<Rightarrow> nat" where
  "n_typing s = unat (i_e s - i_w s)"

definition entered :: "input \<Rightarrow> 8 word list" where
  "entered s = stretch 128 (i_buf s) (i_r s) (n_entered s)"

definition typing :: "input \<Rightarrow> 8 word list" where
  "typing s = stretch 128 (i_buf s) (i_w s) (n_typing s)"

definition input_ok :: "input \<Rightarrow> bool" where
  "input_ok s \<longleftrightarrow> n_entered s + n_typing s \<le> 128 \<and> 0x0A \<notin> set (typing s)"

lemma islot_cell: "islot c = cell 128 c"
  by (simp add: islot_def cell_def unat_mod)

lemma counters:
  assumes "n_entered s + n_typing s \<le> 128"
  shows "unat (i_e s - i_r s) = n_entered s + n_typing s" and "i_w s = i_r s + of_nat (n_entered s)"
    and "i_e s = i_w s + of_nat (n_typing s)" and "i_e s = i_r s + of_nat (n_entered s + n_typing s)"
proof -
  have "i_e s - i_r s = (i_w s - i_r s) + (i_e s - i_w s)" by simp
  moreover have "unat (i_w s - i_r s) + unat (i_e s - i_w s) < 2 ^ LENGTH(32)"
    using assms by (simp add: n_entered_def n_typing_def)
  ultimately show "unat (i_e s - i_r s) = n_entered s + n_typing s"
    using unat_add_lem [THEN iffD1, of "i_w s - i_r s" "i_e s - i_w s"] by (simp add: n_entered_def n_typing_def)
  show "i_w s = i_r s + of_nat (n_entered s)" and e: "i_e s = i_w s + of_nat (n_typing s)"
    by (simp_all add: n_entered_def n_typing_def)
  then show "i_e s = i_r s + of_nat (n_entered s + n_typing s)" by (simp add: add.assoc)
qed

lemma input_okD: "input_ok s \<Longrightarrow> n_entered s + n_typing s \<le> 128"
  by (simp add: input_ok_def)

lemma room_iff:
  assumes "n_entered s + n_typing s \<le> 128"
  shows "i_e s - i_r s < 128 \<longleftrightarrow> n_entered s + n_typing s < 128"
    and "i_e s = i_r s + 128 \<longleftrightarrow> n_entered s + n_typing s = 128"
proof -
  show "i_e s - i_r s < 128 \<longleftrightarrow> n_entered s + n_typing s < 128"
    using counters(1) [OF assms] by (simp add: word_less_nat_alt)
  have "i_e s = i_r s + 128 \<longleftrightarrow> i_e s - i_r s = 128" by (auto simp: algebra_simps)
  also have "\<dots> \<longleftrightarrow> unat (i_e s - i_r s) = 128" by (simp add: word_unat_eq_iff)
  finally show "i_e s = i_r s + 128 \<longleftrightarrow> n_entered s + n_typing s = 128" using counters(1) [OF assms] by simp
qed

lemma typing_empty: "i_e s = i_w s \<longleftrightarrow> typing s = []"
  by (auto simp: typing_def stretch_def n_typing_def unat_eq_0)

text \<open>The three changes of the ring by the handler.\<close>

lemma erase:
  assumes ok: "input_ok s" and ne: "i_e s \<noteq> i_w s"
  defines "t \<equiv> s\<lparr>i_e := i_e s - 1\<rparr>"
  shows "typing s = typing t @ [i_buf s (islot (i_e s - 1))]" and "entered t = entered s" and "input_ok t"
proof -
  have "i_e s - i_w s \<noteq> 0" using ne by simp
  then have n: "n_typing s = Suc (n_typing t)"
    using unat_minus_one [of "i_e s - i_w s"] unat_gt_0 [of "i_e s - i_w s"]
    by (simp add: n_typing_def t_def algebra_simps)
  have e: "i_e s - 1 = i_w s + of_nat (n_typing t)" using counters(3) [OF input_okD [OF ok]] n by simp
  show p: "typing s = typing t @ [i_buf s (islot (i_e s - 1))]"
    unfolding typing_def n stretch_Suc e islot_cell by (simp add: t_def)
  show "entered t = entered s" by (simp add: entered_def n_entered_def t_def)
  have "n_entered t = n_entered s" by (simp add: n_entered_def t_def)
  then show "input_ok t" using ok n p by (auto simp: input_ok_def)
qed

lemma kill_line_ok:
  assumes "input_ok s"
  shows "kill_line s = (replicate (length (typing s)) BACKSPACE, s\<lparr>i_e := i_w s\<rparr>)"
  using assms
proof (induction s rule: kill_line.induct)
  case (1 s)
  show ?case
  proof (cases "i_e s = i_w s")
    case True
    then show ?thesis using typing_empty [of s] by (simp add: kill_line.simps [of s])
  next
    case False
    note e = erase [OF 1(2) False]
    have g: "i_buf s (islot (i_e s - 1)) \<noteq> 0x0A" using 1(2) e(1) by (auto simp: input_ok_def)
    show ?thesis using 1(1) [OF _ e(3)] False g e(1) by (simp add: kill_line.simps [of s])
  qed
qed

lemma killed_line:
  assumes "input_ok s"
  shows "typing (s\<lparr>i_e := i_w s\<rparr>) = []" and "entered (s\<lparr>i_e := i_w s\<rparr>) = entered s" and "input_ok (s\<lparr>i_e := i_w s\<rparr>)"
  using assms by (simp_all add: typing_def entered_def input_ok_def n_typing_def n_entered_def)

lemma typed:
  assumes ok: "input_ok s" and room: "n_entered s + n_typing s < 128"
    and t_def: "t = s\<lparr>i_buf := (i_buf s)(islot (i_e s) := d), i_e := i_e s + 1\<rparr>"
  shows "typing t = typing s @ [d]" and "entered t = entered s" and "n_entered t = n_entered s"
    and "n_typing t = Suc (n_typing s)"
proof -
  have "i_e t - i_w t = (i_e s - i_w s) + 1" by (simp add: t_def algebra_simps)
  moreover have "unat (i_e s - i_w s) + unat (1 :: u32) < 2 ^ LENGTH(32)" using room by (simp add: n_typing_def)
  ultimately show n: "n_typing t = Suc (n_typing s)"
    using unat_add_lem [THEN iffD1, of "i_e s - i_w s" "1 :: u32"] by (simp add: n_typing_def)
  show ne: "n_entered t = n_entered s" by (simp add: n_entered_def t_def)
  have c: "islot (i_e s) = cell 128 (i_w s + of_nat (n_typing s))"
    "islot (i_e s) = cell 128 (i_r s + of_nat (n_entered s + n_typing s))"
    unfolding islot_cell by (rule arg_cong [OF counters(3) [OF input_okD [OF ok]]]) (rule arg_cong [OF counters(4) [OF input_okD [OF ok]]])
  have "stretch 128 (i_buf t) (i_w s) (n_typing s) = typing s"
    unfolding typing_def t_def using stretch_upd [of 128 "n_typing s" "n_typing s" "i_buf s" "i_w s" d] room c(1) by simp
  then show "typing t = typing s @ [d]"
    using c(1) unfolding typing_def n stretch_Suc by (simp add: t_def)
  show "entered t = entered s"
    unfolding entered_def ne unfolding t_def
    using stretch_upd [of 128 "n_entered s" "n_entered s + n_typing s" "i_buf s" "i_r s" d] room c(2) by simp
qed

lemma committed:
  assumes le: "n_entered s + n_typing s \<le> 128"
  defines "t \<equiv> s\<lparr>i_w := i_e s\<rparr>"
  shows "entered t = entered s @ typing s" and "typing t = []" and "input_ok t"
proof -
  have "n_entered t = unat (i_e s - i_r s)" "n_typing t = 0" by (simp_all add: n_entered_def n_typing_def t_def)
  then have n: "n_entered t = n_entered s + n_typing s" "n_typing t = 0" using counters(1) [OF le] by simp_all
  have "i_w s = i_r s + of_nat (n_entered s)" by (simp add: n_entered_def)
  then show "entered t = entered s @ typing s" unfolding entered_def typing_def n stretch_add by (simp add: t_def)
  show t: "typing t = []" using n by (simp add: typing_def)
  show "input_ok t" using le n t by (simp add: input_ok_def)
qed

definition lines_of :: "input \<Rightarrow> lines" where
  "lines_of s = (entered s, typing s)"

lemma length_lines: "length (entered s) = n_entered s" "length (typing s) = n_typing s"
  by (simp_all add: entered_def typing_def)

lemma byte_eq:
  assumes "0 \<le> c" and "c < 256"
  shows "(word_of_int c :: 8 word) = 0x0A \<longleftrightarrow> c = 10" and "(word_of_int c :: 8 word) = 4 \<longleftrightarrow> c = 4"
proof -
  have "uint (word_of_int c :: 8 word) = c" using assms by (simp add: unsigned_of_int take_bit_eq_mod)
  then show "(word_of_int c :: 8 word) = 0x0A \<longleftrightarrow> c = 10" "(word_of_int c :: 8 word) = 4 \<longleftrightarrow> c = 4"
    by (auto simp: word_uint_eq_iff)
qed

lemma console_key_ok:
  assumes ok: "input_ok s" and c: "0 \<le> c" "c < 256" and k: "console_key c s = (t, out, wk)"
  shows "input_ok t \<and> lines_of t = type_key c (lines_of s)"
proof -
  consider (same) "c = 16" | (kill) "c = 21" | (bs) "c = 8 \<or> c = 127" | (full) "c \<notin> {8, 16, 21, 127}" "c = 0 \<or> \<not> i_e s - i_r s < 128"
    | (char) "c \<notin> {0, 8, 16, 21, 127}" "i_e s - i_r s < 128" by fastforce
  then show ?thesis
  proof cases
    case same
    then show ?thesis using k ok by (simp add: console_key_def type_key_def lines_of_def)
  next
    case kill
    then show ?thesis using k kill_line_ok [OF ok] killed_line [OF ok]
      by (auto simp: console_key_def type_key_def lines_of_def)
  next
    case bs
    then show ?thesis using k ok erase [OF ok] typing_empty [of s]
      by (auto simp: console_key_def type_key_def lines_of_def split: if_splits)
  next
    case full
    then show ?thesis using k ok room_iff(1) [OF input_okD [OF ok]]
      by (auto simp: console_key_def type_key_def lines_of_def length_lines split: if_splits)
  next
    case char
    have room: "n_entered s + n_typing s < 128" using char(2) room_iff(1) [OF input_okD [OF ok]] by simp
    let ?d = "if c = 13 then 10 else c"
    let ?t = "s\<lparr>i_buf := (i_buf s)(islot (i_e s) := word_of_int ?d), i_e := i_e s + 1\<rparr>"
    note t = typed [OF ok room refl, of "word_of_int ?d"]
    have d: "(word_of_int ?d :: 8 word) = 0x0A \<longleftrightarrow> ?d = 10" "(word_of_int ?d :: 8 word) = 4 \<longleftrightarrow> ?d = 4"
      using byte_eq [of ?d] c by auto
    have e: "console_key c s = (if ?d = 10 \<or> ?d = 4 \<or> i_e ?t = i_r ?t + 128 then (?t\<lparr>i_w := i_e ?t\<rparr>, [?d], True)
        else (?t, [?d], False))"
      using char by (simp add: console_key_def Let_def)
    have a: "type_key c (lines_of s) = (if ?d = 10 \<or> ?d = 4 \<or> n_entered s + n_typing s + 1 = 128
        then (entered s @ typing s @ [word_of_int ?d], []) else (entered s, typing s @ [word_of_int ?d]))"
      using char(1) room d by (simp add: type_key_def lines_of_def length_lines Let_def)
    have n: "n_entered ?t + n_typing ?t = n_entered s + n_typing s + 1" using t(3,4) by simp
    have f: "i_e ?t = i_r ?t + 128 \<longleftrightarrow> n_entered s + n_typing s + 1 = 128"
      using room_iff(2) [of ?t] n room by simp
    show ?thesis
    proof (cases "?d = 10 \<or> ?d = 4 \<or> n_entered s + n_typing s + 1 = 128")
      case True
      have "lines_of (?t\<lparr>i_w := i_e ?t\<rparr>) = type_key c (lines_of s)" "input_ok (?t\<lparr>i_w := i_e ?t\<rparr>)"
        using committed [of ?t] t(1,2) n room a True by (simp_all add: lines_of_def)
      then show ?thesis using k e f True by simp
    next
      case False
      have "lines_of ?t = type_key c (lines_of s)" using t(1,2) a False by (simp add: lines_of_def)
      moreover have "input_ok ?t" using n room t(1) ok d False unfolding input_ok_def by auto
      ultimately show ?thesis using k e f False by simp
    qed
  qed
qed

section \<open>Reading\<close>

lemma take_front:
  assumes ok: "input_ok s" and ne: "i_r s \<noteq> i_w s"
  defines "t \<equiv> s\<lparr>i_r := i_r s + 1\<rparr>"
  shows "entered s = i_buf s (islot (i_r s)) # entered t" and "typing t = typing s" and "input_ok t"
proof -
  have "i_w s - i_r s \<noteq> 0" using ne by auto
  then have "unat (i_w s - i_r s - 1) = unat (i_w s - i_r s) - 1" "unat (i_w s - i_r s) > 0"
    using unat_minus_one [of "i_w s - i_r s"] unat_gt_0 [of "i_w s - i_r s"] by simp_all
  then have n: "n_entered s = Suc (n_entered t)" by (simp add: n_entered_def t_def algebra_simps)
  show "entered s = i_buf s (islot (i_r s)) # entered t"
    unfolding entered_def n stretch_Cons islot_cell by (simp add: t_def)
  show y: "typing t = typing s" by (simp add: typing_def n_typing_def t_def)
  have "n_typing t = n_typing s" by (simp add: n_typing_def t_def)
  then show "input_ok t" using ok n y by (simp add: input_ok_def)
qed

lemma consoleread_ok:
  "input_ok s \<Longrightarrow> consoleread killed target n s = (e, bs, t) \<Longrightarrow>
    input_ok t \<and> typing t = typing s \<and> read_line killed target n (entered s) = (e, bs, entered t)"
proof (induction killed target n s arbitrary: e bs t rule: consoleread.induct)
  case (2 killed target n s)
  show ?case
  proof (cases "i_r s = i_w s")
    case True
    then have "entered s = []" by (simp add: entered_def n_entered_def)
    then show ?thesis using 2(2,3) True by auto
  next
    case False
    note f = take_front [OF 2(2) False]
    let ?s = "s\<lparr>i_r := i_r s + 1\<rparr>"
    have r: "?s\<lparr>i_r := i_r ?s - 1\<rparr> = s" by simp
    obtain e2 bs2 t2 where rec: "consoleread killed target n ?s = (e2, bs2, t2)" by (metis prod_cases3)
    have ih: "i_buf s (islot (i_r s)) \<noteq> 4 \<Longrightarrow> i_buf s (islot (i_r s)) \<noteq> 0x0A \<Longrightarrow>
        input_ok t2 \<and> typing t2 = typing ?s \<and> read_line killed target n (entered ?s) = (e2, bs2, entered t2)"
      using 2(1) [OF False refl refl _ _ f(3) rec] by simp
    consider "i_buf s (islot (i_r s)) = 4" | "i_buf s (islot (i_r s)) = 0x0A"
      | "i_buf s (islot (i_r s)) \<noteq> 4" "i_buf s (islot (i_r s)) \<noteq> 0x0A" by blast
    then show ?thesis
    proof cases
      case 1
      then show ?thesis using 2(2,3) False f r by (auto simp: Let_def split: if_splits)
    next
      case 2
      then show ?thesis using \<open>consoleread killed target (Suc n) s = (e, bs, t)\<close> False f by (simp add: Let_def)
    next
      case 3
      then show ?thesis using 2(3) False f rec ih by (simp add: Let_def)
    qed
  qed
qed simp

lemma consoleintr_ok:
  "input_ok s \<Longrightarrow> \<forall>c\<in>set cs. 0 \<le> c \<and> c < 256 \<Longrightarrow> consoleintr cs s = (t, out, wk) \<Longrightarrow>
    input_ok t \<and> lines_of t = fold type_key cs (lines_of s)"
proof (induction cs arbitrary: s t out wk)
  case (Cons c cs)
  obtain s1 out1 wk1 where k: "console_key c s = (s1, out1, wk1)" by (metis prod_cases3)
  obtain s2 out2 wk2 where r: "consoleintr cs s1 = (s2, out2, wk2)" by (metis prod_cases3)
  have "input_ok s1 \<and> lines_of s1 = type_key c (lines_of s)"
    using console_key_ok [OF Cons.prems(1) _ _ k] Cons.prems(2) by simp
  then show ?case using Cons.IH [OF _ _ r] Cons.prems k r by auto
qed simp

text \<open>C18: The console is a line discipline: whatever is typed, the ring of 128 characters with its wrapping
  counters holds the lines entered and the line being typed as the specification has them (editing with
  backspace and control-U reaches only the line being typed, a line is handed over when it is complete
  or the ring is full), and a read takes from the lines entered what the specification gives it, and
  leaves the line being typed alone.\<close>

theorem console_refines:
  assumes "input_ok s"
  shows "(\<forall>cs t out wk. (\<forall>c\<in>set cs. 0 \<le> c \<and> c < 256) \<longrightarrow> consoleintr cs s = (t, out, wk) \<longrightarrow>
      input_ok t \<and> lines_of t = fold type_key cs (lines_of s)) \<and>
    (\<forall>killed target n e bs t. consoleread killed target n s = (e, bs, t) \<longrightarrow>
      input_ok t \<and> snd (lines_of t) = snd (lines_of s) \<and>
      read_line killed target n (fst (lines_of s)) = (e, bs, fst (lines_of t)))"
  using consoleintr_ok [OF assms] consoleread_ok [OF assms] unfolding lines_of_def by auto

definition boot_input :: input where
  "boot_input = \<lparr>i_buf = (\<lambda>_. 0), i_r = 0, i_w = 0, i_e = 0\<rparr>"

text \<open>Typing a, b, backspace, return enters the line of a alone.\<close>

theorem console_refines_witness:
  "input_ok boot_input \<and> (\<exists>t out wk. consoleintr [97, 98, 8, 13] boot_input = (t, out, wk) \<and> lines_of t = ([97, 10], []))"
proof -
  have ok: "input_ok boot_input"
    by (simp add: boot_input_def input_ok_def n_entered_def n_typing_def typing_def)
  obtain t out wk where r: "consoleintr [97, 98, 8, 13] boot_input = (t, out, wk)" by (metis prod_cases3)
  have "lines_of boot_input = ([], [])" by (simp add: boot_input_def lines_of_def entered_def typing_def n_entered_def n_typing_def)
  moreover have "fold type_key [97, 98, 8, 13] ([], []) = ([97, 10], [])" by (simp add: type_key_def Let_def)
  moreover have "lines_of t = fold type_key [97, 98, 8, 13] (lines_of boot_input)"
    by (rule console_refines [OF ok, THEN conjunct1, rule_format, OF _ r, THEN conjunct2]) auto
  ultimately have "lines_of t = ([97, 10], [])" by simp
  then show ?thesis using ok r by blast
qed

end
