(* ===== verification/Screen.thy ===== *)
theory Screen
  imports Console
begin

text \<open>
  The output side of the console (\<open>console.c\<close>): the screen of 25 lines of 80 cells, its cursor, which is
  kept in two registers of the display, and \<open>consputc\<close> with its two devices. The screen shows the end of
  what has been written, as a refinement of a list of cells.
\<close>

section \<open>The code\<close>

type_synonym u16 = "16 word"

text \<open>
  \<open>cur_hi\<close> and \<open>cur_lo\<close> are the registers 14 and 15 of the display, which hold what was last written to
  them; \<open>crt\<close> is its memory; \<open>serial\<close> the bytes sent over the serial line, if there is one.
\<close>

record screen =
  crt :: "nat \<Rightarrow> u16"
  cur_hi :: "8 word"
  cur_lo :: "8 word"
  uart :: bool
  serial :: "8 word list"
  panicked :: bool

definition cell_of :: "int \<Rightarrow> u16" where
  "cell_of c = (word_of_int c AND 0xFF) OR 0x0700"

definition cursor :: "screen \<Rightarrow> nat" where
  "cursor s = unat (cur_hi s) * 256 + unat (cur_lo s)"

text \<open>The scrolling: \<open>memmove\<close> of 23 lines, then \<open>memset\<close> from the cursor to the end of line 24.\<close>

definition scroll :: "nat \<Rightarrow> (nat \<Rightarrow> u16) \<Rightarrow> nat \<Rightarrow> u16" where
  "scroll pos m i =
     (let m1 = (\<lambda>j. if j < 23 * 80 then m (j + 80) else m j) in
      if pos \<le> i \<and> i < pos + (24 * 80 - pos) then 0 else m1 i)"

definition cgaputc :: "int \<Rightarrow> screen \<Rightarrow> screen result" where
  "cgaputc c s =
     (let pos = cursor s;
          pos1 = (if c = 10 then pos + (80 - pos mod 80)
                  else if c = BACKSPACE then (if pos > 0 then pos - 1 else pos)
                  else pos + 1);
          m1 = (if c = 10 \<or> c = BACKSPACE then crt s else (crt s)(pos := cell_of c)) in
      if pos1 > 25 * 80 then Inl (Panic ''pos under/overflow'')
      else
        let pos2 = (if pos1 div 80 \<ge> 24 then pos1 - 80 else pos1);
            m2 = (if pos1 div 80 \<ge> 24 then scroll pos2 m1 else m1) in
        Inr (s\<lparr>cur_hi := of_nat (pos2 div 256), cur_lo := of_nat pos2, crt := m2(pos2 := cell_of 32)\<rparr>))"

definition uartputc :: "int \<Rightarrow> screen \<Rightarrow> screen" where
  "uartputc c s = (if uart s then s\<lparr>serial := serial s @ [word_of_int c]\<rparr> else s)"

text \<open>After a panic of one processor the others stop here.\<close>

definition consputc :: "int \<Rightarrow> screen \<Rightarrow> screen result" where
  "consputc c s =
     (if panicked s then Inl Hang
      else cgaputc c (if c = BACKSPACE then uartputc 8 (uartputc 32 (uartputc 8 s)) else uartputc c s))"

text \<open>The loop of \<open>consolewrite\<close>, and in general a sequence of characters given to \<open>consputc\<close>.\<close>

fun put_all :: "int list \<Rightarrow> screen \<Rightarrow> screen result" where
  "put_all [] s = Inr s"
| "put_all (c # cs) s = rbind (consputc c s) (put_all cs)"

definition consolewrite :: "8 word list \<Rightarrow> screen \<Rightarrow> (int \<times> screen) result" where
  "consolewrite buf s = rbind (put_all (map uint buf) s) (\<lambda>t. Inr (int (length buf), t))"

section \<open>The text on the screen\<close>

text \<open>
  What a terminal of 24 lines promises: the text is a list of cells, cut into lines of 80. A newline
  fills the line with blanks, a backspace takes back the last cell, and a text that reaches the end of
  the last line loses the first one.
\<close>

definition put_text :: "int \<Rightarrow> u16 list \<Rightarrow> u16 list" where
  "put_text c T =
     (let U = (if c = 10 then T @ replicate (80 - length T mod 80) (cell_of 32)
               else if c = BACKSPACE then butlast T else T @ [cell_of c]) in
      if length U \<ge> 24 * 80 then List.drop 80 U else U)"

text \<open>A cell of zeros shows nothing, like a space.\<close>

definition look :: "u16 \<Rightarrow> u16" where
  "look w = (if w = 0 then cell_of 32 else w)"

definition shown :: "screen \<Rightarrow> u16 list" where
  "shown s = map (\<lambda>i. look (crt s i)) [0..<cursor s]"

definition screen_ok :: "screen \<Rightarrow> bool" where
  "screen_ok s \<longleftrightarrow> cursor s < 24 * 80 \<and> (\<forall>i. cursor s \<le> i \<longrightarrow> i < 24 * 80 \<longrightarrow> look (crt s i) = cell_of 32)"

section \<open>The screen implements it\<close>

lemma cursor_set: "p < 65536 \<Longrightarrow> cursor (s\<lparr>cur_hi := of_nat (p div 256), cur_lo := of_nat p, crt := m\<rparr>) = p"
  by (simp add: cursor_def unat_of_nat)

lemma cell_of_nonzero: "cell_of c \<noteq> 0"
proof
  assume "cell_of c = 0"
  then have "bit (cell_of c) 8 = bit (0 :: u16) 8" by simp
  then show False by (simp add: cell_of_def bit_simps)
qed

lemma look_cell [simp]: "look (cell_of c) = cell_of c" "look 0 = cell_of 32"
  by (simp_all add: look_def cell_of_nonzero)

lemma cgaputc_ok:
  assumes ok: "screen_ok s"
  shows "\<exists>t. cgaputc c s = Inr t \<and> screen_ok t \<and> shown t = put_text c (shown s) \<and> (\<forall>i\<ge>24 * 80. crt t i = crt s i) \<and>
    uart t = uart s \<and> serial t = serial s \<and> panicked t = panicked s"
proof -
  define p where "p = cursor s"
  define p1 where "p1 = (if c = 10 then p + (80 - p mod 80) else if c = BACKSPACE then (if p > 0 then p - 1 else p) else p + 1)"
  define m1 where "m1 = (if c = 10 \<or> c = BACKSPACE then crt s else (crt s)(p := cell_of c))"
  define U where "U = (if c = 10 then shown s @ replicate (80 - length (shown s) mod 80) (cell_of 32)
      else if c = BACKSPACE then butlast (shown s) else shown s @ [cell_of c])"
  have p: "p < 1920" and bl: "\<And>i. p \<le> i \<Longrightarrow> i < 1920 \<Longrightarrow> look (crt s i) = cell_of 32"
    using ok by (auto simp: screen_ok_def p_def)
  have p1: "p1 \<le> 1920"
  proof -
    have "p div 80 < 24" "p mod 80 < 80" "80 * (p div 80) + p mod 80 = p" using p by simp_all
    then have "p + (80 - p mod 80) \<le> 1920" by linarith
    then show ?thesis using p by (auto simp: p1_def)
  qed
  have ls: "length (shown s) = p" by (simp add: shown_def p_def)
  have lU: "length U = p1" by (auto simp: U_def p1_def ls)
  have nU: "U ! i = look (m1 i)" if "i < p1" for i
  proof -
    have s: "shown s ! j = look (crt s j)" if "j < p" for j using that by (simp add: shown_def p_def)
    consider "c = 10" | "c = BACKSPACE" "c \<noteq> 10" | "c \<noteq> 10" "c \<noteq> BACKSPACE" by blast
    then show ?thesis
    proof cases
      case 1
      have "i < 1920" using that p1 by simp
      then show ?thesis using 1 that bl [of i] s by (auto simp: U_def m1_def p1_def nth_append ls)
    next
      case 2
      then have "i < p - 1" using that by (auto simp: p1_def split: if_splits)
      then show ?thesis using 2 s [of i] by (simp add: U_def m1_def nth_butlast ls)
    next
      case 3
      then show ?thesis using that s [of i] by (auto simp: U_def m1_def p1_def nth_append ls)
    qed
  qed
  have b1: "look (m1 i) = cell_of 32" if "p1 \<le> i" "i < 1920" "i \<noteq> p1" for i
    using that bl [of i] by (auto simp: m1_def p1_def split: if_splits)
  have out: "m1 i = crt s i" if "1920 \<le> i" for i using that p by (simp add: m1_def)
  have e: "cgaputc c s = (let q = (if p1 div 80 \<ge> 24 then p1 - 80 else p1);
      m2 = (if p1 div 80 \<ge> 24 then scroll q m1 else m1) in
      Inr (s\<lparr>cur_hi := of_nat (q div 256), cur_lo := of_nat q, crt := m2(q := cell_of 32)\<rparr>))"
    using p1 by (simp add: cgaputc_def Let_def flip: p_def p1_def m1_def)
  have P: "put_text c (shown s) = (if p1 \<ge> 1920 then List.drop 80 U else U)"
    by (simp add: put_text_def Let_def lU flip: U_def)
  show ?thesis
  proof (cases "p1 < 1920")
    case True
    let ?t = "s\<lparr>cur_hi := of_nat (p1 div 256), cur_lo := of_nat p1, crt := m1(p1 := cell_of 32)\<rparr>"
    have t: "cgaputc c s = Inr ?t" using True e by (simp add: Let_def)
    have ct: "cursor ?t = p1" using True by (intro cursor_set) simp
    have "shown ?t = U" using nU lU by (intro nth_equalityI) (auto simp: shown_def ct)
    moreover have "screen_ok ?t" using True b1 by (auto simp: screen_ok_def ct)
    ultimately show ?thesis using t P True out by auto
  next
    case False
    then have p1: "p1 = 1920" using p1 by simp
    let ?m = "(scroll 1840 m1)(1840 := cell_of 32)"
    let ?t = "s\<lparr>cur_hi := of_nat (1840 div 256), cur_lo := of_nat 1840, crt := ?m\<rparr>"
    have "cgaputc c s = Inr ?t" using e p1 by (simp add: Let_def)
    moreover have "cursor ?t = 1840" by (rule cursor_set) simp
    ultimately obtain t where t: "cgaputc c s = Inr t" and ct: "cursor t = 1840" and m: "crt t = ?m"
      and r: "uart t = uart s" "serial t = serial s" "panicked t = panicked s" by auto
    have "shown t = List.drop 80 U"
      using nU lU p1 by (intro nth_equalityI) (auto simp: shown_def ct m scroll_def Let_def add.commute)
    moreover have "screen_ok t" by (auto simp: screen_ok_def ct m scroll_def Let_def)
    ultimately show ?thesis using t P p1 out r by (auto simp: m scroll_def Let_def)
  qed
qed

lemma uartputc_same [simp]:
  "crt (uartputc c s) = crt s" "cursor (uartputc c s) = cursor s" "uart (uartputc c s) = uart s"
  "panicked (uartputc c s) = panicked s" "shown (uartputc c s) = shown s" "screen_ok (uartputc c s) = screen_ok s"
  by (simp_all add: uartputc_def cursor_def shown_def screen_ok_def)

text \<open>What goes over the serial line for a character.\<close>

definition to_serial :: "int \<Rightarrow> 8 word list" where
  "to_serial c = (if c = BACKSPACE then [8, 32, 8] else [word_of_int c])"

lemma consputc_ok:
  assumes ok: "screen_ok s" and np: "\<not> panicked s"
  shows "\<exists>t. consputc c s = Inr t \<and> screen_ok t \<and> shown t = put_text c (shown s) \<and> (\<forall>i\<ge>24 * 80. crt t i = crt s i) \<and>
    uart t = uart s \<and> serial t = serial s @ (if uart s then to_serial c else []) \<and> \<not> panicked t"
proof -
  let ?s = "if c = BACKSPACE then uartputc 8 (uartputc 32 (uartputc 8 s)) else uartputc c s"
  have "serial ?s = serial s @ (if uart s then to_serial c else [])" by (simp add: uartputc_def to_serial_def)
  moreover have "screen_ok ?s" "shown ?s = shown s" "crt ?s = crt s" "uart ?s = uart s" "panicked ?s = panicked s"
    using ok by simp_all
  ultimately show ?thesis using cgaputc_ok [of ?s c] np by (auto simp: consputc_def)
qed

lemma put_all_ok:
  assumes "screen_ok s" and "\<not> panicked s"
  shows "\<exists>t. put_all cs s = Inr t \<and> screen_ok t \<and> shown t = fold put_text cs (shown s) \<and> (\<forall>i\<ge>24 * 80. crt t i = crt s i) \<and>
    uart t = uart s \<and> serial t = serial s @ (if uart s then concat (map to_serial cs) else []) \<and> \<not> panicked t"
  using assms
proof (induction cs arbitrary: s)
  case (Cons c cs)
  obtain s1 where s1: "consputc c s = Inr s1" "screen_ok s1" "shown s1 = put_text c (shown s)"
    "\<forall>i\<ge>24 * 80. crt s1 i = crt s i" "uart s1 = uart s" "serial s1 = serial s @ (if uart s then to_serial c else [])" "\<not> panicked s1"
    using consputc_ok [OF Cons.prems] by blast
  then show ?case using Cons.IH [OF s1(2,7)] by auto
qed simp

text \<open>C19: Whatever is written to the console, the screen shows what a terminal of 24 lines shows: the text
  written, cut at 80 columns, with backspaces taken back, newlines filled up and the lines above scrolled
  off; the cursor stays on these lines, so that the panic for a cursor out of range is never reached and
  no memory of the display behind them is touched; and the serial line gets the same characters.\<close>

theorem screen_refines:
  assumes "screen_ok s" and "\<not> panicked s"
  shows "\<exists>t. put_all cs s = Inr t \<and> screen_ok t \<and> shown t = fold put_text cs (shown s) \<and>
    (\<forall>i\<ge>24 * 80. crt t i = crt s i) \<and> serial t = serial s @ (if uart s then concat (map to_serial cs) else [])"
  using put_all_ok [OF assms, of cs] by blast

definition blank_screen :: screen where
  "blank_screen = \<lparr>crt = \<lambda>_. 0, cur_hi = 0, cur_lo = 0, uart = True, serial = [], panicked = False\<rparr>"

theorem screen_refines_witness:
  "\<exists>t. put_all [104, 106, BACKSPACE, 105, 10, 33] blank_screen = Inr t \<and>
     shown t = [cell_of 104, cell_of 105] @ replicate 78 (cell_of 32) @ [cell_of 33] \<and>
     serial t = [104, 106, 8, 32, 8, 105, 10, 33]"
proof -
  have "screen_ok blank_screen" "\<not> panicked blank_screen"
    by (simp_all add: screen_ok_def blank_screen_def cursor_def)
  from screen_refines [OF this, of "[104, 106, BACKSPACE, 105, 10, 33]"]
  obtain t where t: "put_all [104, 106, BACKSPACE, 105, 10, 33] blank_screen = Inr t"
    "shown t = fold put_text [104, 106, BACKSPACE, 105, 10, 33] (shown blank_screen)"
    "serial t = serial blank_screen @ (if uart blank_screen then concat (map to_serial [104, 106, BACKSPACE, 105, 10, 33]) else [])"
    by blast
  moreover have "shown blank_screen = []" by (simp add: shown_def blank_screen_def cursor_def)
  moreover have "fold put_text [104, 106, BACKSPACE, 105] [] = [cell_of 104, cell_of 105]"
    by (simp add: put_text_def BACKSPACE_def)
  moreover have "put_text 10 [cell_of 104, cell_of 105] = [cell_of 104, cell_of 105] @ replicate 78 (cell_of 32)"
    by (simp add: put_text_def)
  moreover have "put_text 33 ([cell_of 104, cell_of 105] @ replicate 78 (cell_of 32)) =
      [cell_of 104, cell_of 105] @ replicate 78 (cell_of 32) @ [cell_of 33]"
    by (simp add: put_text_def BACKSPACE_def)
  moreover have "concat (map to_serial [104, 106, BACKSPACE, 105, 10, 33]) = [104, 106, 8, 32, 8, 105, 10, 33]"
    by (simp add: to_serial_def BACKSPACE_def)
  ultimately show ?thesis by (simp add: blank_screen_def)
qed

end
