(* ===== verification/Keyboard.thy ===== *)
theory Keyboard
  imports Console
begin

text \<open>
  The keyboard (\<open>kbd.c\<close>, \<open>kbd.h\<close>): the codes that the keys send become characters, by the state of the
  modifier keys. Its characters are the input of the console.
\<close>

section \<open>The tables\<close>

definition key_SHIFT :: u32 where "key_SHIFT = 1"
definition key_CTL :: u32 where "key_CTL = 2"
definition key_ALT :: u32 where "key_ALT = 4"
definition key_CAPSLOCK :: u32 where "key_CAPSLOCK = 8"
definition key_NUMLOCK :: u32 where "key_NUMLOCK = 16"
definition key_SCROLLLOCK :: u32 where "key_SCROLLLOCK = 32"
definition key_E0ESC :: u32 where "key_E0ESC = 64"

lemmas key_defs = key_SHIFT_def key_CTL_def key_ALT_def key_CAPSLOCK_def key_NUMLOCK_def key_SCROLLLOCK_def key_E0ESC_def

definition shiftcode :: "nat \<Rightarrow> u32" where
  "shiftcode i = (if i = 0x1D then key_CTL else if i = 0x2A then key_SHIFT else if i = 0x36 then key_SHIFT
     else if i = 0x38 then key_ALT else if i = 0x9D then key_CTL else if i = 0xB8 then key_ALT else 0)"

definition togglecode :: "nat \<Rightarrow> u32" where
  "togglecode i = (if i = 0x3A then key_CAPSLOCK else if i = 0x45 then key_NUMLOCK
     else if i = 0x46 then key_SCROLLLOCK else 0)"

text \<open>The rows of the tables from the index 0, and their entries for the keys with a prefix.\<close>

definition normal_rows :: "int list" where
  "normal_rows =
    [0, 0x1B, 49, 50, 51, 52, 53, 54,
     55, 56, 57, 48, 45, 61, 8, 9,
     113, 119, 101, 114, 116, 121, 117, 105,
     111, 112, 91, 93, 10, 0, 97, 115,
     100, 102, 103, 104, 106, 107, 108, 59,
     39, 96, 0, 92, 122, 120, 99, 118,
     98, 110, 109, 44, 46, 47, 0, 42,
     0, 32, 0, 0, 0, 0, 0, 0,
     0, 0, 0, 0, 0, 0, 0, 55,
     56, 57, 45, 52, 53, 54, 43, 49,
     50, 51, 48, 46, 0, 0, 0, 0]"

definition shift_rows :: "int list" where
  "shift_rows =
    [0, 27, 33, 64, 35, 36, 37, 94,
     38, 42, 40, 41, 95, 43, 8, 9,
     81, 87, 69, 82, 84, 89, 85, 73,
     79, 80, 123, 125, 10, 0, 65, 83,
     68, 70, 71, 72, 74, 75, 76, 58,
     34, 126, 0, 124, 90, 88, 67, 86,
     66, 78, 77, 60, 62, 63, 0, 42,
     0, 32, 0, 0, 0, 0, 0, 0,
     0, 0, 0, 0, 0, 0, 0, 55,
     56, 57, 45, 52, 53, 54, 43, 49,
     50, 51, 48, 46, 0, 0, 0, 0]"

text \<open>The macro \<open>C\<close> as it is stored, in a byte.\<close>

definition ctl :: "int \<Rightarrow> int" where
  "ctl x = (x - 64) mod 256"

definition ctl_rows :: "int list" where
  "ctl_rows =
    [0, 0, 0, 0, 0, 0, 0, 0,
     0, 0, 0, 0, 0, 0, 0, 0,
     ctl 81, ctl 87, ctl 69, ctl 82, ctl 84, ctl 89, ctl 85, ctl 73,
     ctl 79, ctl 80, 0, 0, 13, 0, ctl 65, ctl 83,
     ctl 68, ctl 70, ctl 71, ctl 72, ctl 74, ctl 75, ctl 76, 0,
     0, 0, 0, ctl 92, ctl 90, ctl 88, ctl 67, ctl 86,
     ctl 66, ctl 78, ctl 77, 0, 0, ctl 47, 0, 0]"

definition prefixed :: "int \<Rightarrow> int \<Rightarrow> nat \<Rightarrow> int" where
  "prefixed enter slash i =
     (if i = 0x9C then enter else if i = 0xB5 then slash
      else if i = 0xC8 then 0xE2 else if i = 0xD0 then 0xE3 else if i = 0xC9 then 0xE6 else if i = 0xD1 then 0xE7
      else if i = 0xCB then 0xE4 else if i = 0xCD then 0xE5 else if i = 0x97 then 0xE0 else if i = 0xCF then 0xE1
      else if i = 0xD2 then 0xE8 else if i = 0xD3 then 0xE9 else 0)"

definition normalmap :: "nat \<Rightarrow> int" where
  "normalmap i = (if i < length normal_rows then normal_rows ! i else prefixed 10 47 i)"

definition shiftmap :: "nat \<Rightarrow> int" where
  "shiftmap i = (if i < length shift_rows then shift_rows ! i else prefixed 10 47 i)"

definition ctlmap :: "nat \<Rightarrow> int" where
  "ctlmap i = (if i < length ctl_rows then ctl_rows ! i else prefixed 13 (ctl 47) i)"

definition charcode :: "u32 \<Rightarrow> nat \<Rightarrow> int" where
  "charcode k = (if k = 0 then normalmap else if k = 1 then shiftmap else ctlmap)"

section \<open>The code\<close>

text \<open>\<open>None\<close>: the controller has no data. The second argument and result are the static variable \<open>shift\<close>.\<close>

definition kbdgetc :: "8 word option \<Rightarrow> u32 \<Rightarrow> int \<times> u32" where
  "kbdgetc inp shift =
     (case inp of None \<Rightarrow> (-1, shift)
      | Some b \<Rightarrow>
          let data = unat b; esc = (shift AND key_E0ESC \<noteq> 0) in
          if data = 0xE0 then (0, shift OR key_E0ESC)
          else if data \<ge> 0x80 then
            (let d = (if esc then data else data mod 128) in (0, shift AND NOT (shiftcode d OR key_E0ESC)))
          else
            let d = (if esc then data + 128 else data);
                s1 = (if esc then shift AND NOT key_E0ESC else shift);
                s2 = (s1 OR shiftcode d) XOR togglecode d;
                c = charcode (s2 AND (key_CTL OR key_SHIFT)) d;
                c1 = (if s2 AND key_CAPSLOCK \<noteq> 0
                      then (if 97 \<le> c \<and> c \<le> 122 then c + 65 - 97 else if 65 \<le> c \<and> c \<le> 90 then c + 97 - 65 else c)
                      else c) in
            (c1, s2))"

text \<open>What an interrupt gives to the console: the characters of the bytes that wait in the controller, and -1.\<close>

fun kbd_codes :: "8 word list \<Rightarrow> u32 \<Rightarrow> int list \<times> u32" where
  "kbd_codes [] shift = ([fst (kbdgetc None shift)], shift)"
| "kbd_codes (b # bs) shift =
     (case kbdgetc (Some b) shift of (c, s1) \<Rightarrow> case kbd_codes bs s1 of (cs, s2) \<Rightarrow> (c # cs, s2))"

definition kbdintr :: "8 word list \<Rightarrow> u32 \<times> input \<Rightarrow> (u32 \<times> input) \<times> int list \<times> bool" where
  "kbdintr bs s =
     (case kbd_codes bs (fst s) of (cs, k) \<Rightarrow> case consoleintr cs (snd s) of (t, out, wk) \<Rightarrow> ((k, t), out, wk))"

section \<open>Types\<close>

text \<open>\<open>shift\<close> holds seven flags.\<close>

definition flags_ok :: "u32 \<Rightarrow> bool" where
  "flags_ok s \<longleftrightarrow> take_bit 7 s = s"

lemma flags_codes: "flags_ok (shiftcode d)" "flags_ok (togglecode d)" "flags_ok key_E0ESC"
  by (simp_all add: flags_ok_def shiftcode_def togglecode_def key_defs take_bit_eq_mod)

lemma flags_ops:
  assumes "flags_ok s" and "flags_ok t"
  shows "flags_ok (s OR t)" "flags_ok (s XOR t)"
proof -
  have a: "take_bit 7 s = s" and b: "take_bit 7 t = t" using assms by (simp_all add: flags_ok_def)
  show "flags_ok (s OR t)" "flags_ok (s XOR t)" unfolding flags_ok_def by (simp_all add: take_bit_or take_bit_xor a b)
qed

lemma flags_and: "flags_ok s \<Longrightarrow> flags_ok (s AND u)"
proof -
  assume "flags_ok s"
  moreover have "take_bit 7 (s AND u) = take_bit 7 s AND u" by (rule bit_word_eqI) (auto simp: bit_simps)
  ultimately show ?thesis unfolding flags_ok_def by simp
qed

lemma ctl_byte: "0 \<le> ctl x" "ctl x < 256"
  by (simp_all add: ctl_def)

lemma rows_byte:
  "\<forall>c\<in>set normal_rows. 0 \<le> c \<and> c < 256" "\<forall>c\<in>set shift_rows. 0 \<le> c \<and> c < 256" "\<forall>c\<in>set ctl_rows. 0 \<le> c \<and> c < 256"
  by (simp_all add: normal_rows_def shift_rows_def ctl_rows_def ctl_byte)

lemma table_byte:
  assumes "\<forall>c\<in>set rows. 0 \<le> c \<and> c < 256" and "0 \<le> x" "x < 256" "0 \<le> y" "y < 256"
  shows "0 \<le> (if i < length rows then rows ! i else prefixed x y i) \<and> (if i < length rows then rows ! i else prefixed x y i) < 256"
proof (cases "i < length rows")
  case True
  then have "rows ! i \<in> set rows" by (rule nth_mem)
  then show ?thesis using True assms(1) by simp
next
  case False
  then show ?thesis using assms(2-) by (simp add: prefixed_def)
qed

lemma charcode_byte: "0 \<le> charcode k d \<and> charcode k d < 256"
  using table_byte [OF rows_byte(1), of 10 47 d] table_byte [OF rows_byte(2), of 10 47 d]
    table_byte [OF rows_byte(3), of 13 "ctl 47" d] ctl_byte [of 47]
  by (simp add: charcode_def normalmap_def shiftmap_def ctlmap_def)

lemma kbdgetc_typed:
  assumes "flags_ok sh" and "kbdgetc inp sh = (c, sh')"
  shows "flags_ok sh'" and "inp \<noteq> None \<Longrightarrow> 0 \<le> c \<and> c < 256" and "inp = None \<Longrightarrow> c = -1"
proof -
  note f = assms(1) flags_codes flags_ops flags_and
  show "inp = None \<Longrightarrow> c = -1" using assms(2) by (simp add: kbdgetc_def)
  show "flags_ok sh'" using assms(2) f by (auto simp: kbdgetc_def Let_def split: option.splits if_splits)
  show "0 \<le> c \<and> c < 256" if "inp \<noteq> None"
    using assms(2) that charcode_byte by (auto simp: kbdgetc_def Let_def split: option.splits if_splits)
qed

lemma kbd_codes_typed:
  "flags_ok sh \<Longrightarrow> kbd_codes bs sh = (cs, sh') \<Longrightarrow> flags_ok sh' \<and> (\<exists>ds. cs = ds @ [-1] \<and> length ds = length bs \<and> (\<forall>c\<in>set ds. 0 \<le> c \<and> c < 256))"
proof (induction bs arbitrary: sh cs sh')
  case Nil
  then show ?case by (simp add: kbdgetc_def)
next
  case (Cons b bs)
  obtain c s1 where k: "kbdgetc (Some b) sh = (c, s1)" by fastforce
  obtain cs1 s2 where r: "kbd_codes bs s1 = (cs1, s2)" by fastforce
  have s1: "flags_ok s1" and c: "0 \<le> c \<and> c < 256" using kbdgetc_typed(1,2) [OF Cons.prems(1) k] by simp_all
  obtain ds where "cs1 = ds @ [-1]" "length ds = length bs" "\<forall>c\<in>set ds. 0 \<le> c \<and> c < 256" "flags_ok s2"
    using Cons.IH [OF s1 r] by blast
  then show ?case using Cons.prems(2) k r c by (intro conjI exI [of _ "c # ds"]) auto
qed

lemma consoleintr_end: "\<forall>c\<in>set ds. 0 \<le> c \<Longrightarrow> consoleintr (ds @ [-1]) s = consoleintr ds s"
  by (induction ds arbitrary: s) auto

section \<open>Letters\<close>

definition letter_keys :: "(8 word \<times> int) list" where
  "letter_keys = [(0x10, 113), (0x11, 119), (0x12, 101), (0x13, 114), (0x14, 116), (0x15, 121), (0x16, 117), (0x17, 105),
     (0x18, 111), (0x19, 112), (0x1E, 97), (0x1F, 115), (0x20, 100), (0x21, 102), (0x22, 103), (0x23, 104), (0x24, 106),
     (0x25, 107), (0x26, 108), (0x2C, 122), (0x2D, 120), (0x2E, 99), (0x2F, 118), (0x30, 98), (0x31, 110), (0x32, 109)]"

lemma low_flags: "(s :: u32) AND 3 = (if bit s 1 then if bit s 0 then 3 else 2 else if bit s 0 then 1 else 0)"
proof (rule bit_word_eqI)
  fix n assume "n < LENGTH(32)"
  have m: "(3 :: u32) = mask 2" "(2 :: u32) = push_bit 1 1" by (simp_all add: mask_eq_exp_minus_1)
  have b: "bit (3 :: u32) 0" "bit (3 :: u32) 1" "\<not> bit (2 :: u32) 0" "bit (2 :: u32) 1" "bit (1 :: u32) 0" "\<not> bit (1 :: u32) 1"
    "\<not> bit (0 :: u32) 0" "\<not> bit (0 :: u32) 1" by (simp_all add: bit_iff_odd)
  consider "n = 0" | "n = 1" | "2 \<le> n" by linarith
  then show "bit (s AND 3) n = bit (if bit s 1 then if bit s 0 then 3 else 2 else if bit s 0 then 1 else 0 :: u32) n"
  proof cases
    case 3
    then have "\<not> bit (3 :: u32) n" "\<not> bit (2 :: u32) n" "\<not> bit (1 :: u32) n"
      unfolding m by (simp_all add: bit_simps)
    then show ?thesis using \<open>n < LENGTH(32)\<close> by (simp add: bit_and_iff)
  next
    case 1
    show ?thesis unfolding 1 by (cases "bit s 0"; cases "bit s 1"; simp only: bit_and_iff b if_True if_False simp_thms)
  next
    case 2
    show ?thesis unfolding 2 by (cases "bit s 0"; cases "bit s 1"; simp only: bit_and_iff b if_True if_False simp_thms)
  qed
qed

lemma flag_bits:
  fixes s :: u32
  shows "s AND key_E0ESC \<noteq> 0 \<longleftrightarrow> bit s 6" and "s AND key_CAPSLOCK \<noteq> 0 \<longleftrightarrow> bit s 3"
    and "s AND (key_CTL OR key_SHIFT) = (if bit s 1 then if bit s 0 then 3 else 2 else if bit s 0 then 1 else 0)"
proof -
  have "key_E0ESC = 2 ^ 6" "key_CAPSLOCK = 2 ^ 3" by (simp_all add: key_defs)
  show "s AND key_E0ESC \<noteq> 0 \<longleftrightarrow> bit s 6" "s AND key_CAPSLOCK \<noteq> 0 \<longleftrightarrow> bit s 3"
    unfolding \<open>key_E0ESC = 2 ^ 6\<close> \<open>key_CAPSLOCK = 2 ^ 3\<close> and_exp_eq_0_iff_not_bit by simp_all
  have "key_CTL OR key_SHIFT = 3" by (simp add: key_defs)
  then show "s AND (key_CTL OR key_SHIFT) = (if bit s 1 then if bit s 0 then 3 else 2 else if bit s 0 then 1 else 0)"
    using low_flags [of s] by simp
qed

text \<open>The three maps on the letters.\<close>

lemma letter_maps:
  "\<forall>(k, l)\<in>set letter_keys. unat k < 0x80 \<and> shiftcode (unat k) = 0 \<and> togglecode (unat k) = 0 \<and> 97 \<le> l \<and> l \<le> 122 \<and>
     normalmap (unat k) = l \<and> shiftmap (unat k) = l - 32 \<and> ctlmap (unat k) = l - 96"
  by (simp add: letter_keys_def shiftcode_def togglecode_def normalmap_def shiftmap_def ctlmap_def
      normal_rows_def shift_rows_def ctl_rows_def ctl_def)

lemma letter_key:
  assumes "(k, l) \<in> set letter_keys" and "\<not> bit sh 6"
  shows "kbdgetc (Some k) sh = (if bit sh 1 then l - 96 else if bit sh 0 \<noteq> bit sh 3 then l - 32 else l, sh)"
proof -
  have "case (k, l) of (k, l) \<Rightarrow> unat k < 0x80 \<and> shiftcode (unat k) = 0 \<and> togglecode (unat k) = 0 \<and> 97 \<le> l \<and> l \<le> 122 \<and>
      normalmap (unat k) = l \<and> shiftmap (unat k) = l - 32 \<and> ctlmap (unat k) = l - 96"
    using letter_maps assms(1) by (rule bspec)
  then show ?thesis using assms(2)
    by (simp add: kbdgetc_def Let_def flag_bits charcode_def)
qed

text \<open>C20: The keyboard is well typed: the state of the modifier keys never has other flags than the seven that
  there are, so that it always selects one of the four maps, and every byte from the controller gives a
  byte, -1 standing for no data alone, so that what an interrupt gives to the console are characters and
  one -1 at the end. A letter key gives its letter, a capital where one of shift and caps lock is on, and
  the control character where control is held.\<close>

theorem keyboard_typed:
  assumes "flags_ok sh"
  shows "(\<forall>bs cs sh'. kbd_codes bs sh = (cs, sh') \<longrightarrow>
      flags_ok sh' \<and> (\<exists>ds. cs = ds @ [-1] \<and> length ds = length bs \<and> (\<forall>c\<in>set ds. 0 \<le> c \<and> c < 256))) \<and>
    (\<forall>k l. (k, l) \<in> set letter_keys \<longrightarrow> \<not> bit sh 6 \<longrightarrow>
      kbdgetc (Some k) sh = (if bit sh 1 then l - 96 else if bit sh 0 \<noteq> bit sh 3 then l - 32 else l, sh))"
  using kbd_codes_typed [OF assms] letter_key by blast

theorem keyboard_typed_witness:
  "flags_ok (9 :: u32) \<and> kbdgetc (Some 0x1E) 9 = (97, 9) \<and> kbdgetc (Some 0x1E) 1 = (65, 1)"
proof -
  have f: "flags_ok 9" "flags_ok 1" by (simp_all add: flags_ok_def take_bit_eq_mod)
  have l: "(0x1E, 97) \<in> set letter_keys" by (simp add: letter_keys_def)
  have b: "bit (9 :: u32) 0" "bit (9 :: u32) 3" "\<not> bit (9 :: u32) 1" "\<not> bit (9 :: u32) 6" "\<not> bit (1 :: u32) 6" "\<not> bit (1 :: u32) 1"
    "bit (1 :: u32) 0" "\<not> bit (1 :: u32) 3"
    by (simp_all add: bit_iff_odd)
  show ?thesis
    using keyboard_typed [OF f(1), THEN conjunct2, rule_format, OF l b(4)]
      keyboard_typed [OF f(2), THEN conjunct2, rule_format, OF l b(5)] f b by simp
qed

section \<open>The keyboard and the console\<close>

text \<open>An interrupt of the keyboard, whatever the bytes, is typing of characters on the console.\<close>

lemma kbdintr_types:
  assumes "flags_ok (fst s)" and "input_ok (snd s)" and "kbdintr bs s = (t, out, wk)"
  shows "flags_ok (fst t) \<and> input_ok (snd t) \<and>
    (\<exists>ds. length ds = length bs \<and> lines_of (snd t) = fold type_key ds (lines_of (snd s)))"
proof -
  obtain cs k where k: "kbd_codes bs (fst s) = (cs, k)" by fastforce
  obtain ds where ds: "flags_ok k" "cs = ds @ [-1]" "length ds = length bs" "\<forall>c\<in>set ds. 0 \<le> c \<and> c < 256"
    using kbd_codes_typed [OF assms(1) k] by blast
  obtain i out' wk' where c: "consoleintr ds (snd s) = (i, out', wk')" using prod_cases3 by blast
  have "consoleintr cs (snd s) = (i, out', wk')" unfolding ds(2) using consoleintr_end ds(4) c by auto
  then have "t = (k, i)" using assms(3) k by (simp add: kbdintr_def)
  then show ?thesis using consoleintr_ok [OF assms(2) ds(4) c] ds by auto
qed

end
