(* ===== verification/Printf.thy ===== *)
theory Printf
  imports Prelude
begin

text \<open>
  Formatted output, of the kernel (\<open>cprintf\<close> of \<open>console.c\<close>) and of user programs (\<open>printf.c\<close>), and \<open>atoi\<close>
  (\<open>ulib.c\<close>). The output is the string of the characters given to \<open>consputc\<close> or \<open>putc\<close>, in order. The
  arguments after the format are words on the stack, a function from their number, as nothing says how
  many there are; \<open>str\<close> gives the string at an address other than null.
\<close>

section \<open>Numbers\<close>

definition base :: "bool \<Rightarrow> u32" where
  "base hex = (if hex then 16 else 10)"

text \<open>The loop of \<open>printint\<close>: the digits of a number, the lowest first.\<close>

function emit :: "bool \<Rightarrow> u32 \<Rightarrow> nat list" where
  "emit hex x = unat (x mod base hex) # (if x div base hex = 0 then [] else emit hex (x div base hex))"
  by pat_completeness auto
termination
proof (relation "measure (\<lambda>(hex, x). unat x)")
  fix hex and x :: u32
  assume a: "x div base hex \<noteq> 0"
  then have "0 < unat x" by (auto simp: unat_gt_0)
  then have "unat x div unat (base hex) < unat x" by (intro div_less_dividend) (simp_all add: base_def)
  then show "((hex, x div base hex), (hex, x)) \<in> measure (\<lambda>(hex, x). unat x)" by (simp add: unat_div_distrib)
qed simp

declare emit.simps [simp del]

definition upper_digits :: string where
  "upper_digits = ''0123456789ABCDEF''"

definition lower_digits :: string where
  "lower_digits = ''0123456789abcdef''"

text \<open>\<open>printint\<close>, whose buffer has 16 places.\<close>

definition printint :: "string \<Rightarrow> u32 \<Rightarrow> bool \<Rightarrow> bool \<Rightarrow> string" where
  "printint digits xx hex sg =
     (let neg = (sg \<and> sint xx < 0); x = (if neg then - xx else xx);
          buf = map (\<lambda>d. digits ! d) (emit hex x) @ (if neg then ''-'' else [])
      in rev buf)"

section \<open>Formats\<close>

definition string_arg :: "(u32 \<Rightarrow> string) \<Rightarrow> u32 \<Rightarrow> string" where
  "string_arg str a = (if a = 0 then ''(null)'' else str a)"

text \<open>The loop of \<open>cprintf\<close>, from the argument \<open>k\<close> on. A percent sign at the end of the format is dropped.\<close>

fun cprintf :: "(nat \<Rightarrow> u32) \<Rightarrow> (u32 \<Rightarrow> string) \<Rightarrow> nat \<Rightarrow> string \<Rightarrow> string" where
  "cprintf args str k [] = []"
| "cprintf args str k [c] = (if c = CHR ''%'' then [] else [c])"
| "cprintf args str k (c # d # fmt) =
     (if c \<noteq> CHR ''%'' then c # cprintf args str k (d # fmt)
      else if d = CHR ''d'' then printint lower_digits (args k) False True @ cprintf args str (k + 1) fmt
      else if d = CHR ''x'' \<or> d = CHR ''p'' then printint lower_digits (args k) True False @ cprintf args str (k + 1) fmt
      else if d = CHR ''s'' then string_arg str (args k) @ cprintf args str (k + 1) fmt
      else if d = CHR ''%'' then CHR ''%'' # cprintf args str k fmt
      else CHR ''%'' # d # cprintf args str k fmt)"

text \<open>The loop of \<open>printf\<close>, with its \<open>state\<close>: whether the last character was a percent sign.\<close>

fun printf :: "(nat \<Rightarrow> u32) \<Rightarrow> (u32 \<Rightarrow> string) \<Rightarrow> bool \<Rightarrow> nat \<Rightarrow> string \<Rightarrow> string" where
  "printf args str state k [] = []"
| "printf args str False k (c # fmt) =
     (if c = CHR ''%'' then printf args str True k fmt else c # printf args str False k fmt)"
| "printf args str True k (c # fmt) =
     (if c = CHR ''d'' then printint upper_digits (args k) False True @ printf args str False (k + 1) fmt
      else if c = CHR ''x'' \<or> c = CHR ''p'' then printint upper_digits (args k) True False @ printf args str False (k + 1) fmt
      else if c = CHR ''s'' then string_arg str (args k) @ printf args str False (k + 1) fmt
      else if c = CHR ''c'' then char_of (unat (args k)) # printf args str False (k + 1) fmt
      else if c = CHR ''%'' then c # printf args str False k fmt
      else CHR ''%'' # c # printf args str False k fmt)"

section \<open>atoi\<close>

fun atoi_loop :: "u32 \<Rightarrow> string \<Rightarrow> u32" where
  "atoi_loop n [] = n"
| "atoi_loop n (c # s) =
     (if 48 \<le> (of_char c :: nat) \<and> (of_char c :: nat) \<le> 57
      then atoi_loop (n * 10 + of_nat (of_char c) - 48) s else n)"

definition atoi :: "string \<Rightarrow> u32" where
  "atoi s = atoi_loop 0 s"

section \<open>Reading back what was printed\<close>

lemma decimal_digit:
  assumes "d < 10"
  shows "(of_char (upper_digits ! d) :: nat) = 48 + d" and "(of_char (lower_digits ! d) :: nat) = 48 + d"
proof -
  have "d \<in> {0, 1, 2, 3, 4, 5, 6, 7, 8, 9}" using assms by auto
  then show "(of_char (upper_digits ! d) :: nat) = 48 + d" "(of_char (lower_digits ! d) :: nat) = 48 + d"
    by (auto simp: upper_digits_def lower_digits_def)
qed

lemma atoi_digit:
  assumes "d < 10" and "digits = upper_digits \<or> digits = lower_digits"
  shows "atoi_loop n (digits ! d # s) = atoi_loop (n * 10 + of_nat d) s"
proof -
  have c: "(of_char (digits ! d) :: nat) = 48 + d" using decimal_digit [OF assms(1)] assms(2) by auto
  then show ?thesis using assms(1) by simp
qed

lemma atoi_emit:
  assumes "digits = upper_digits \<or> digits = lower_digits"
  shows "atoi_loop 0 (map (\<lambda>d. digits ! d) (rev (emit False x)) @ s) = atoi_loop x s"
proof (induction "False" x arbitrary: s rule: emit.induct)
  case (1 x)
  let ?d = "unat (x mod 10)"
  have d: "?d < 10" by (simp add: unat_mod)
  have x: "x div 10 * 10 + x mod 10 = x" by (rule div_mult_mod_eq)
  show ?case
  proof (cases "x div 10 = 0")
    case True
    then show ?thesis using x atoi_digit [OF d assms, of 0 s] by (subst emit.simps) (simp add: base_def)
  next
    case False
    have "atoi_loop 0 (map (\<lambda>d. digits ! d) (rev (emit False (x div 10))) @ digits ! ?d # s) =
        atoi_loop (x div 10) (digits ! ?d # s)"
      using 1 [of "digits ! ?d # s"] False by (simp add: base_def)
    also have "\<dots> = atoi_loop x s" using atoi_digit [OF d assms, of "x div 10" s] x by simp
    finally show ?thesis using False by (subst emit.simps) (simp add: base_def)
  qed
qed

lemma emit_length:
  assumes "unat x < 10 ^ Suc k"
  shows "length (emit hex x) \<le> Suc k"
  using assms
proof (induction hex x arbitrary: k rule: emit.induct)
  case (1 hex x)
  show ?case
  proof (cases "x div base hex = 0")
    case True
    then show ?thesis by (subst emit.simps) simp
  next
    case False
    have b: "10 \<le> unat (base hex)" by (simp add: base_def)
    have "unat x div unat (base hex) \<noteq> 0" using False by (simp flip: unat_div_distrib add: unat_eq_0)
    then have "10 \<le> unat x" using b by (metis div_less order_trans not_le_imp_less)
    then obtain j where k: "k = Suc j" using 1(2) by (cases k) auto
    have "unat x div unat (base hex) \<le> unat x div 10" using b by (intro div_le_mono2) simp_all
    also have "\<dots> < 10 ^ Suc j" using 1(2) k by (simp add: div_less_iff_less_mult)
    finally have "length (emit hex (x div base hex)) \<le> Suc j" using 1(1) [OF False] by (simp add: unat_div_distrib)
    then show ?thesis using False k by (subst emit.simps) simp
  qed
qed

text \<open>C36: What \<open>printint\<close> prints of a number that is not negative, \<open>atoi\<close> reads back, up to the first
  character that is no digit; and no number, in either base and with its sign, takes more than 11 of the
  16 places of the buffer.\<close>

theorem print_read:
  assumes "0 \<le> sint x" and "digits = upper_digits \<or> digits = lower_digits"
    and "s = [] \<or> \<not> (48 \<le> (of_char (hd s) :: nat) \<and> (of_char (hd s) :: nat) \<le> 57)"
  shows "atoi (printint digits x False True @ s) = x \<and> (\<forall>y hex sg. length (printint digits y hex sg) \<le> 11)"
proof -
  have "atoi_loop x s = x" using assms(3) by (cases s) auto
  then have "atoi (printint digits x False True @ s) = x"
    using atoi_emit [OF assms(2), of x s] assms(1) by (simp add: atoi_def printint_def Let_def rev_map)
  moreover have "length (printint digits y hex sg) \<le> 11" for y hex sg
  proof -
    have l: "length (emit hex z) \<le> Suc 9" for z
    proof (rule emit_length)
      have "unat z < 2 ^ LENGTH(32)" by (rule unsigned_less)
      then show "unat z < 10 ^ Suc 9" by simp
    qed
    show ?thesis using l [of y] l [of "- y"] by (simp add: printint_def Let_def)
  qed
  ultimately show ?thesis by blast
qed

theorem print_read_witness: "atoi (printint upper_digits 2024 False True @ '' ok'') = 2024"
proof -
  have "0 \<le> sint (2024 :: u32)" by simp
  from print_read [OF this, of upper_digits "'' ok''"] show ?thesis by simp
qed

end
