(* ===== verification/ExecArgs.thy ===== *)
theory ExecArgs
  imports Syscall
begin

text \<open>
  The user stack that \<open>exec\<close> builds for a new program (\<open>exec.c\<close>), written with \<open>copyout\<close> (\<open>vm.c\<close>) into
  the pages of an address space that is not the current one. Memory is that of bytes at kernel
  addresses; \<open>ua\<close> is \<open>uva2ka\<close> of the new page directory, the kernel address of a user page or 0. The
  argument strings, which are in the old address space, are lists of bytes without the NUL.
\<close>

section \<open>copyout\<close>

text \<open>\<open>memmove\<close> of bytes that are not in its destination.\<close>

fun store_bytes :: "u32 \<Rightarrow> 8 word list \<Rightarrow> (u32 \<Rightarrow> 8 word) \<Rightarrow> u32 \<Rightarrow> 8 word" where
  "store_bytes a [] m = m"
| "store_bytes a (b # bs) m = store_bytes (a + 1) bs (m(a := b))"

lemma page_offset: "unat (va - PGROUNDDOWN va) = unat va mod 4096"
  by (simp add: PGROUNDDOWN_mod unat_mod)

lemma room_in_page: "unat (4096 - (va - PGROUNDDOWN va)) = 4096 - unat va mod 4096"
proof -
  have "va - PGROUNDDOWN va \<le> 4096" by (simp add: word_le_nat_alt page_offset less_imp_le)
  then have "unat (4096 - (va - PGROUNDDOWN va)) = unat (4096 :: u32) - unat (va - PGROUNDDOWN va)" by (rule unat_sub)
  then show ?thesis unfolding page_offset by simp
qed

function copyout :: "(u32 \<Rightarrow> u32) \<Rightarrow> u32 \<Rightarrow> 8 word list \<Rightarrow> (u32 \<Rightarrow> 8 word) \<Rightarrow> int \<times> (u32 \<Rightarrow> 8 word)" where
  "copyout ua va buf m =
     (if buf = [] then (0, m)
      else let va0 = PGROUNDDOWN va; pa0 = ua va0 in
        if pa0 = 0 then (-1, m)
        else let k = unat (4096 - (va - va0)); n = (if k > length buf then length buf else k) in
          copyout ua (va0 + 4096) (List.drop n buf) (store_bytes (pa0 + (va - va0)) (take n buf) m))"
  by pat_completeness auto

termination
proof (relation "measure (\<lambda>(ua, va, buf, m). length buf)")
  fix va k pa0 va0 :: u32 and m :: "u32 \<Rightarrow> 8 word" and ua and buf :: "8 word list" and j l
  assume "buf \<noteq> []" and "va0 = PGROUNDDOWN va" and "j = unat (4096 - (va - va0))" and "l = (if j > length buf then length buf else j)"
  moreover from this have "j = 4096 - unat va mod 4096" using room_in_page by simp
  moreover have "unat va mod 4096 < 4096" by simp
  ultimately have "0 < l" by auto
  then show "((ua, va0 + 4096, List.drop l buf, store_bytes (pa0 + (va - va0)) (take l buf) m), ua, va, buf, m)
      \<in> measure (\<lambda>(ua, va, buf, m). length buf)"
    using \<open>buf \<noteq> []\<close> by simp
qed simp

declare copyout.simps [simp del]

lemma copyout_Nil [simp]: "copyout ua va [] m = (0, m)"
  by (subst copyout.simps) simp

lemma copyout_zero: "buf \<noteq> [] \<Longrightarrow> ua (PGROUNDDOWN va) = 0 \<Longrightarrow> copyout ua va buf m = (-1, m)"
  by (subst copyout.simps) (simp add: Let_def)

lemma copyout_step:
  assumes "buf \<noteq> []" and "ua (PGROUNDDOWN va) \<noteq> 0"
  shows "copyout ua va buf m = (let n = min (length buf) (4096 - unat va mod 4096) in
    copyout ua (PGROUNDDOWN va + 4096) (List.drop n buf)
      (store_bytes (ua (PGROUNDDOWN va) + (va - PGROUNDDOWN va)) (take n buf) m))"
  using assms by (subst copyout.simps) (auto simp: Let_def room_in_page min_def)

section \<open>The stack of a new program\<close>

text \<open>The loop over the arguments: \<open>argc\<close> of them have been pushed. \<open>None\<close> is the jump to \<open>bad\<close>.\<close>

fun push_args :: "(u32 \<Rightarrow> u32) \<Rightarrow> nat \<Rightarrow> 8 word list list \<Rightarrow> u32 \<Rightarrow> (u32 \<Rightarrow> 8 word) \<Rightarrow>
    (u32 list \<times> u32 \<times> (u32 \<Rightarrow> 8 word)) option" where
  "push_args ua argc [] sp m = Some ([], sp, m)"
| "push_args ua argc (s # argv) sp m =
     (if argc \<ge> 32 then None
      else let sp1 = (sp - of_nat (length s + 1)) AND NOT 3 in
        case copyout ua sp1 (s @ [0]) m of (r, m1) \<Rightarrow>
          if r < 0 then None
          else map_option (\<lambda>(ptrs, sp2, m2). (sp1 # ptrs, sp2, m2)) (push_args ua (argc + 1) argv sp1 m1))"

text \<open>A word of \<open>ustack\<close> in memory.\<close>

definition word_bytes :: "u32 \<Rightarrow> 8 word list" where
  "word_bytes w = [ucast w, ucast (drop_bit 8 w), ucast (drop_bit 16 w), ucast (drop_bit 24 w)]"

text \<open>From the loop to the second \<open>copyout\<close>: the stack pointer of the new program and the memory.\<close>

definition exec_stack :: "(u32 \<Rightarrow> u32) \<Rightarrow> 8 word list list \<Rightarrow> u32 \<Rightarrow> (u32 \<Rightarrow> 8 word) \<Rightarrow> (u32 \<times> (u32 \<Rightarrow> 8 word)) option" where
  "exec_stack ua argv sz m =
     (case push_args ua 0 argv sz m of
        None \<Rightarrow> None
      | Some (ptrs, sp, m1) \<Rightarrow>
          let argc = of_nat (length ptrs) :: u32;
              ustack = [0xFFFFFFFF, argc, sp - (argc + 1) * 4] @ ptrs @ [0];
              sp1 = sp - (3 + argc + 1) * 4 in
          case copyout ua sp1 (concat (map word_bytes ustack)) m1 of (r, m2) \<Rightarrow>
            if r < 0 then None else Some (sp1, m2))"

text \<open>The name of the program for debugging: what follows the last slash of the path.\<close>

fun last_name :: "string \<Rightarrow> string \<Rightarrow> string" where
  "last_name l [] = l"
| "last_name l (c # s) = last_name (if c = CHR ''/'' then s else l) s"

lemma last_name_no_slash: "CHR ''/'' \<notin> set s \<Longrightarrow> last_name l s = l"
  by (induction s) auto

lemma last_name_after_slash: "CHR ''/'' \<notin> set s \<Longrightarrow> last_name l (p @ CHR ''/'' # s) = s"
  by (induction p arbitrary: l) (auto simp: last_name_no_slash)

section \<open>Writing inside one page and across its lower end\<close>

lemma store_bytes_at:
  "length bs \<le> 2 ^ 32 \<Longrightarrow>
    store_bytes a bs m x = (if unat (x - a) < length bs then bs ! unat (x - a) else m x)"
proof (induction bs arbitrary: a m)
  case (Cons b bs)
  show ?case
  proof (cases "x = a")
    case True
    have "unat (a - (a + 1)) = 2 ^ 32 - 1" by (simp add: unsigned_minus_1_eq_mask mask_eq_exp_minus_1)
    then have "store_bytes (a + 1) bs (m(a := b)) x = (m(a := b)) x" using Cons True by simp
    then show ?thesis using True by simp
  next
    case False
    then have "unat (x - a) = Suc (unat (x - (a + 1)))"
      using unat_minus_one [of "x - a"] unat_gt_0 [of "x - a"] by (simp add: algebra_simps)
    then show ?thesis using Cons False by simp
  qed
qed simp

text \<open>The stack page: its user address, its kernel address, and the guard page below.\<close>

definition stack_page :: "(u32 \<Rightarrow> u32) \<Rightarrow> u32 \<Rightarrow> bool" where
  "stack_page ua b \<longleftrightarrow> unat b mod 4096 = 0 \<and> unat b \<ge> 4096 \<and> unat b + 4096 < 2 ^ 32 \<and>
     ua b \<noteq> 0 \<and> ua (b - 4096) = 0"

lemma addr_nat: "unat b + i < 2 ^ 32 \<Longrightarrow> unat (b + of_nat i :: u32) = unat b + i"
  by (simp add: unat_word_ariths unsigned_of_nat take_bit_nat_eq_self)

lemma PGROUNDDOWN_in:
  assumes "unat b mod 4096 = 0" and "i < 4096" and "unat b + i < 2 ^ 32"
  shows "PGROUNDDOWN (b + of_nat i) = b"
proof -
  have "(unat b + i) mod 4096 = i" using assms(1,2) by (simp add: mod_add_eq [symmetric])
  then have "unat (PGROUNDDOWN (b + of_nat i)) = unat b" using assms(3) by (simp add: unat_PGROUNDDOWN addr_nat)
  then show ?thesis by (simp add: word_unat_eq_iff)
qed

lemma copyout_in:
  assumes st: "stack_page ua b" and "off + length bs \<le> 4096"
  shows "copyout ua (b + of_nat off) bs m = (0, store_bytes (ua b + of_nat off) bs m)"
proof (cases "bs = []")
  case True
  then show ?thesis by (subst copyout.simps) simp
next
  case False
  then have off: "off < 4096" using assms(2) by (cases bs) auto
  have p: "PGROUNDDOWN (b + of_nat off) = b" using st off by (intro PGROUNDDOWN_in) (simp_all add: stack_page_def)
  have "unat (b + of_nat off) mod 4096 = off"
    using st off by (simp add: stack_page_def addr_nat mod_add_eq [symmetric])
  then have "min (length bs) (4096 - unat (b + of_nat off) mod 4096) = length bs" using assms(2) by simp
  moreover have "ua b \<noteq> 0" using st by (simp add: stack_page_def)
  ultimately show ?thesis using False by (simp add: copyout_step p Let_def)
qed

text \<open>A page that is not mapped anywhere in the range makes the call fail.\<close>

lemma copyout_unmapped:
  "k < length bs \<Longrightarrow> ua (PGROUNDDOWN (va + of_nat k)) = 0 \<Longrightarrow> fst (copyout ua va bs m) = -1"
proof (induction "length bs" arbitrary: k va bs m rule: less_induct)
  case less
  let ?v = "PGROUNDDOWN va"
  let ?j = "4096 - unat va mod 4096"
  have ne: "bs \<noteq> []" using less(2) by auto
  show ?case
  proof (cases "ua ?v = 0")
    case True
    then show ?thesis using ne by (simp add: copyout_zero)
  next
    case False
    have m: "unat ?v mod 4096 = 0" by (simp add: unat_PGROUNDDOWN minus_mod_eq_mult_div)
    have "of_nat (unat va mod 4096) = va - ?v" by (simp flip: page_offset)
    then have v: "va = ?v + of_nat (unat va mod 4096)" by simp
    have vk: "?v + of_nat (unat va mod 4096 + k) = va + of_nat k"
    proof -
      have "?v + of_nat (unat va mod 4096 + k) = ?v + of_nat (unat va mod 4096) + of_nat k" by (simp only: of_nat_add add.assoc)
      also have "\<dots> = va + of_nat k" by (simp only: v [symmetric])
      finally show ?thesis .
    qed
    have "\<not> k < ?j"
    proof
      assume k: "k < ?j"
      obtain q where "unat ?v = 4096 * q" using m by auto
      moreover have "unat ?v < 2 ^ LENGTH(32)" by (rule unsigned_less)
      ultimately have "unat ?v + 4096 \<le> 2 ^ 32" by simp
      then have "PGROUNDDOWN (?v + of_nat (unat va mod 4096 + k)) = ?v"
        using k m by (intro PGROUNDDOWN_in) simp_all
      then have "PGROUNDDOWN (va + of_nat k) = ?v" by (simp only: vk)
      then show False using less(3) False by simp
    qed
    then have k: "min (length bs) ?j = ?j" "?j \<le> k" "0 < ?j" using less(2) by simp_all
    have "?v + 4096 + of_nat (k - ?j) = va + (of_nat k :: u32)"
    proof -
      have "unat va mod 4096 < 4096" by simp
      then have "unat va mod 4096 + k = 4096 + (k - ?j)" using k(2) by simp
      then have "(of_nat (unat va mod 4096 + k) :: u32) = of_nat (4096 + (k - ?j))" by (rule arg_cong)
      then have "?v + 4096 + of_nat (k - ?j) = ?v + of_nat (unat va mod 4096 + k)" by (simp add: add.assoc)
      then show ?thesis by (simp only: vk)
    qed
    then have "fst (copyout ua (?v + 4096) (List.drop ?j bs) m') = -1" for m'
      using less(1) [of "List.drop ?j bs" "k - ?j" "?v + 4096" m'] less(2,3) k by simp
    then show ?thesis using ne False k(1) by (simp add: copyout_step Let_def)
  qed
qed

section \<open>The view of the program\<close>

text \<open>The memory as the program sees it through its page table.\<close>

definition user_view :: "(u32 \<Rightarrow> u32) \<Rightarrow> (u32 \<Rightarrow> 8 word) \<Rightarrow> u32 \<Rightarrow> 8 word" where
  "user_view ua m v = m (ua (PGROUNDDOWN v) + (v - PGROUNDDOWN v))"

lemma stackD:
  assumes "stack_page ua b"
  shows "i < 4096 \<Longrightarrow> PGROUNDDOWN (b + of_nat i) = b" and "unat b mod 4 = 0"
proof -
  show "i < 4096 \<Longrightarrow> PGROUNDDOWN (b + of_nat i) = b"
    using assms by (intro PGROUNDDOWN_in) (simp_all add: stack_page_def)
  have "unat b mod 4096 = 0" using assms by (simp add: stack_page_def)
  moreover have "unat b mod 4096 mod 4 = unat b mod 4" by (rule mod_mod_cancel) simp
  ultimately show "unat b mod 4 = 0" by simp
qed

lemma nat_diff_word:
  assumes "i < 2 ^ 31" and "j < 2 ^ 31"
  shows "unat (of_nat i - of_nat j :: u32) = (if j \<le> i then i - j else 2 ^ 32 - (j - i))"
proof (cases "j \<le> i")
  case True
  then have "of_nat i - of_nat j = (of_nat (i - j) :: u32)" by (simp add: of_nat_diff)
  moreover have "unat (of_nat (i - j) :: u32) = i - j"
  proof (rule of_nat_inverse)
    have "i - j < 4294967296" using assms(1) by simp
    then show "i - j < 2 ^ LENGTH(32)" by simp
  qed simp
  ultimately show ?thesis using True by simp
next
  case False
  then have "(of_nat (2 ^ 32 - (j - i)) :: u32) = of_nat i - of_nat j" using assms by (simp add: of_nat_diff)
  moreover have "unat (of_nat (2 ^ 32 - (j - i)) :: u32) = 2 ^ 32 - (j - i)"
    using False by (intro of_nat_inverse) simp_all
  ultimately show ?thesis using False by simp
qed

lemma view_store:
  assumes st: "stack_page ua b" and "off + length bs \<le> 4096" and "i < 4096"
  shows "user_view ua (store_bytes (ua b + of_nat off) bs m) (b + of_nat i) =
    (if off \<le> i \<and> i < off + length bs then bs ! (i - off) else user_view ua m (b + of_nat i))"
proof -
  have "unat (ua b + of_nat i - (ua b + of_nat off)) = (if off \<le> i then i - off else 2 ^ 32 - (off - i))"
    using nat_diff_word [of i off] assms(2,3) by simp
  then show ?thesis using assms(2,3) stackD(1) [OF st assms(3)]
    by (auto simp: user_view_def store_bytes_at)
qed

lemma store_outside:
  assumes "off + length bs \<le> 4096" and "4096 \<le> unat (x - (a :: u32))"
  shows "store_bytes (a + of_nat off) bs m x = m x"
proof -
  have o: "unat (of_nat off :: u32) = off" using assms(1) by (simp add: unsigned_of_nat take_bit_nat_eq_self)
  have "unat (x - a - of_nat off) = unat (x - a) - off"
    using assms o by (subst unat_sub) (simp_all add: word_le_nat_alt)
  moreover have "x - a - of_nat off = x - (a + of_nat off)" by simp
  ultimately have "\<not> unat (x - (a + of_nat off)) < length bs" using assms by simp
  then show ?thesis using assms by (simp add: store_bytes_at)
qed

lemma align_mod: "(x :: u32) AND NOT 3 = x - x mod 4"
proof -
  define k :: u32 where "k = mask 2"
  have "(3 :: u32) = k" by (simp add: k_def mask_eq_exp_minus_1)
  then have "x AND NOT 3 = x AND NOT k" by simp
  also have "\<dots> = push_bit 2 (drop_bit 2 x)"
  proof (rule bit_word_eqI)
    fix n assume "n < LENGTH(32)"
    moreover have "2 \<le> n \<Longrightarrow> Suc (Suc (n - 2)) = n" by simp
    ultimately show "bit (x AND NOT k) n = bit (push_bit 2 (drop_bit 2 x)) n" by (auto simp: k_def bit_simps)
  qed
  also have "\<dots> = x div 4 * 4" by (simp add: push_bit_eq_mult drop_bit_eq_div)
  finally show ?thesis by (simp add: minus_mod_eq_div_mult)
qed

lemma mod4_add:
  assumes "(a :: u32) mod 4 = 0" and "r < 4"
  shows "(a - of_nat (4 * k) + of_nat r) mod 4 = of_nat r"
proof -
  have "a div 4 * 4 = a" using div_mult_mod_eq [of a 4] assms(1) by simp
  moreover have "push_bit 2 (a div 4 - of_nat k) = a div 4 * 4 - of_nat (4 * k)"
    by (simp add: push_bit_eq_mult left_diff_distrib mult.commute)
  ultimately have "a - of_nat (4 * k) = push_bit 2 (a div 4 - of_nat k)" by simp
  moreover have r: "of_nat r = take_bit 2 (of_nat r :: u32)"
    using assms(2) by (simp flip: of_nat_take_bit add: take_bit_nat_eq_self)
  moreover have "push_bit 2 (a div 4 - of_nat k) + take_bit 2 (of_nat r :: u32) =
      push_bit 2 (a div 4 - of_nat k) OR take_bit 2 (of_nat r)"
    by (rule disjunctive_add_eq_or, rule bit_word_eqI) (simp add: bit_simps)
  moreover have "take_bit 2 (push_bit 2 (a div 4 - of_nat k) OR take_bit 2 (of_nat r :: u32)) = take_bit 2 (of_nat r)"
    by (rule bit_word_eqI) (auto simp: bit_simps)
  ultimately have "take_bit 2 (a - of_nat (4 * k) + of_nat r) = of_nat r" by (simp only:)
  then show ?thesis by (simp add: take_bit_eq_mod)
qed

text \<open>What a string takes on the stack.\<close>

definition width :: "8 word list \<Rightarrow> nat" where
  "width s = 4 * (length s div 4 + 1)"

lemma width_bounds: "length s < width s" "width s \<le> length s + 4" "width s mod 4 = 0" "0 < width s"
  unfolding width_def by presburger+

lemma align_down:
  assumes "unat (a :: u32) mod 4 = 0"
  shows "(a - of_nat (length s + 1)) AND NOT 3 = a - of_nat (width s)"
proof -
  define r where "r = width s - (length s + 1)"
  have r: "width s = length s + 1 + r" "r < 4" using width_bounds [of s] by (simp_all add: r_def)
  have x: "a - of_nat (length s + 1) = a - of_nat (width s) + of_nat r" by (simp add: r)
  have "a mod 4 = 0" using assms by (simp add: word_unat_eq_iff unat_mod)
  then have "(a - of_nat (width s) + of_nat r) mod 4 = of_nat r"
    using mod4_add [of a r "length s div 4 + 1"] r(2) by (simp only: width_def)
  then show ?thesis unfolding x align_mod by simp
qed

section \<open>The arguments\<close>

text \<open>The guard page catches what does not fit into the stack page.\<close>

lemma copyout_guard:
  assumes st: "stack_page ua b" and "0 < d" and "d \<le> length bs + 3" and ne: "bs \<noteq> []"
  shows "fst (copyout ua (b - of_nat d) bs m) = -1"
proof (rule copyout_unmapped)
  let ?e = "min d 4096"
  have b: "unat b mod 4096 = 0" "unat b \<ge> 4096" "ua (b - 4096) = 0" using st by (simp_all add: stack_page_def)
  have g: "unat (b - 4096) = unat b - 4096" using b(2) by (subst unat_sub) (simp_all add: word_le_nat_alt)
  have "b - of_nat d + of_nat (d - ?e) = b - 4096 + (of_nat (4096 - ?e) :: u32)"
    by (simp add: of_nat_diff)
  moreover have "PGROUNDDOWN (b - 4096 + of_nat (4096 - ?e)) = b - 4096"
  proof (rule PGROUNDDOWN_in)
    show "unat (b - 4096) mod 4096 = 0" using b(1,2) unfolding g by (metis le_mod_geq)
    show "unat (b - 4096) + (4096 - ?e) < 2 ^ 32"
    proof -
      have "unat b < 2 ^ LENGTH(32)" by (rule unsigned_less)
      then show ?thesis using assms(2) b(2) unfolding g by simp
    qed
  qed (use assms(2) in simp)
  ultimately show "ua (PGROUNDDOWN (b - of_nat d + of_nat (d - ?e))) = 0" using b(3) by (simp only:)
  show "d - ?e < length bs" using assms(3) ne by (cases bs) auto
qed

definition widths :: "8 word list list \<Rightarrow> nat" where
  "widths argv = sum_list (map width argv)"

lemma widths_simps [simp]: "widths [] = 0" "widths (s # argv) = width s + widths argv"
  by (simp_all add: widths_def)

text \<open>The places of the strings below \<open>off\<close>, and that a page \<open>f\<close> has them there.\<close>

fun places :: "nat \<Rightarrow> 8 word list list \<Rightarrow> nat list" where
  "places off [] = []"
| "places off (s # argv) = (off - width s) # places (off - width s) argv"

fun laid :: "(nat \<Rightarrow> 8 word) \<Rightarrow> nat \<Rightarrow> 8 word list list \<Rightarrow> bool" where
  "laid f off [] = True"
| "laid f off (s # argv) =
     ((\<forall>j\<le>length s. f (off - width s + j) = (s @ [0]) ! j) \<and> laid f (off - width s) argv)"

lemma laid_cong:
  assumes "laid f off argv" and "widths argv \<le> off" and "\<And>i. off - widths argv \<le> i \<Longrightarrow> i < off \<Longrightarrow> g i = f i"
  shows "laid g off argv"
  using assms
proof (induction argv arbitrary: off)
  case (Cons s argv)
  have "g (off - width s + j) = f (off - width s + j)" if "j \<le> length s" for j
    using Cons.prems(2,3) that width_bounds(1) [of s] by (intro Cons.prems(3)) auto
  moreover have "laid g (off - width s) argv"
    using Cons.prems by (intro Cons.IH) (auto simp: diff_diff_eq)
  ultimately show ?case using Cons.prems(1) by simp
qed simp

lemma laid_nth:
  "laid f off argv \<Longrightarrow> i < length argv \<Longrightarrow> j \<le> length (argv ! i) \<Longrightarrow> f (places off argv ! i + j) = (argv ! i @ [0]) ! j"
proof (induction argv arbitrary: off i)
  case (Cons s argv)
  then show ?case by (cases i) auto
qed simp

lemma places_bounds:
  "widths argv \<le> off \<Longrightarrow> i < length argv \<Longrightarrow>
    off - widths argv \<le> places off argv ! i \<and> places off argv ! i + length (argv ! i) < off"
proof (induction argv arbitrary: off i)
  case (Cons s argv)
  show ?case
  proof (cases i)
    case 0
    then show ?thesis using Cons.prems width_bounds(1) [of s] by auto
  next
    case (Suc k)
    have "off - width s - widths argv \<le> places (off - width s) argv ! k \<and>
        places (off - width s) argv ! k + length (argv ! k) < off - width s"
      using Cons.prems Suc by (intro Cons.IH) auto
    then show ?thesis using Suc by auto
  qed
qed simp

lemma length_places [simp]: "length (places off argv) = length argv"
  by (induction argv arbitrary: off) auto

lemma off_aligned:
  assumes st: "stack_page ua b" and "off mod 4 = 0" and "off \<le> 4096"
  shows "unat (b + of_nat off) mod 4 = 0"
proof -
  have "unat (b + of_nat off) = unat b + off" using st assms(3) by (intro addr_nat) (simp add: stack_page_def)
  then show ?thesis using stackD(2) [OF st] assms(2) by (simp add: mod_add_eq [symmetric])
qed

lemma push_args_ok:
  assumes st: "stack_page ua b"
  shows "off \<le> 4096 \<Longrightarrow> off mod 4 = 0 \<Longrightarrow> widths argv \<le> off \<Longrightarrow> argc + length argv \<le> 32 \<Longrightarrow>
    \<exists>m'. push_args ua argc argv (b + of_nat off) m =
        Some (map (\<lambda>o'. b + of_nat o') (places off argv), b + of_nat (off - widths argv), m') \<and>
      laid (\<lambda>i. user_view ua m' (b + of_nat i)) off argv \<and>
      (\<forall>i. off \<le> i \<longrightarrow> i < 4096 \<longrightarrow> user_view ua m' (b + of_nat i) = user_view ua m (b + of_nat i)) \<and>
      (\<forall>x. 4096 \<le> unat (x - ua b) \<longrightarrow> m' x = m x)"
proof (induction argv arbitrary: off argc m)
  case (Cons s argv)
  define p where "p = off - width s"
  have w: "width s \<le> off" "off = p + width s" using Cons.prems(3) by (simp_all add: p_def)
  have a: "(b + of_nat off - of_nat (length s + 1)) AND NOT 3 = b + of_nat p"
    using align_down [OF off_aligned [OF st Cons.prems(2,1)], of s] w(2) by simp
  have fit: "p + length (s @ [0]) \<le> 4096" "length s < width s" using width_bounds(1) [of s] Cons.prems(1) w by simp_all
  let ?m = "store_bytes (ua b + of_nat p) (s @ [0]) m"
  have c: "copyout ua (b + of_nat p) (s @ [0]) m = (0, ?m)" by (rule copyout_in [OF st fit(1)])
  have p4: "p \<le> 4096" "p mod 4 = 0" "widths argv \<le> p" "argc + 1 + length argv \<le> 32"
    using Cons.prems width_bounds(3) [of s] w(2) by (simp_all add: mod_add_eq [symmetric])
  obtain m' where m': "push_args ua (argc + 1) argv (b + of_nat p) ?m =
        Some (map (\<lambda>o'. b + of_nat o') (places p argv), b + of_nat (p - widths argv), m')"
    "laid (\<lambda>i. user_view ua m' (b + of_nat i)) p argv"
    "\<forall>i. p \<le> i \<longrightarrow> i < 4096 \<longrightarrow> user_view ua m' (b + of_nat i) = user_view ua ?m (b + of_nat i)"
    "\<forall>x. 4096 \<le> unat (x - ua b) \<longrightarrow> m' x = ?m x"
    using Cons.IH [OF p4] by blast
  have s: "user_view ua m' (b + of_nat (p + j)) = (s @ [0]) ! j" if "j \<le> length s" for j
  proof -
    have "p \<le> p + j" "p + j < 4096" using that fit by simp_all
    then have "user_view ua m' (b + of_nat (p + j)) = user_view ua ?m (b + of_nat (p + j))" using m'(3) by blast
    then show ?thesis using view_store [OF st fit(1), of "p + j" m] that fit by simp
  qed
  have keep: "user_view ua m' (b + of_nat i) = user_view ua m (b + of_nat i)" if "off \<le> i" "i < 4096" for i
    using m'(3) view_store [OF st fit(1), of i m] that fit w by simp
  have out: "m' x = m x" if "4096 \<le> unat (x - ua b)" for x
    using m'(4) that store_outside [OF fit(1) that, of m] by simp
  have e: "off - widths (s # argv) = p - widths argv" by (simp add: p_def)
  have "push_args ua argc (s # argv) (b + of_nat off) m =
      Some (map (\<lambda>o'. b + of_nat o') (places off (s # argv)), b + of_nat (off - widths (s # argv)), m')"
    unfolding e using Cons.prems(4) m'(1) c a by (simp add: Let_def flip: p_def)
  moreover have "laid (\<lambda>i. user_view ua m' (b + of_nat i)) off (s # argv)" using s m'(2) by (simp flip: p_def)
  ultimately show ?case using keep out by blast
qed simp

lemma push_args_bad:
  assumes st: "stack_page ua b"
  shows "off \<le> 4096 \<Longrightarrow> off mod 4 = 0 \<Longrightarrow> argc \<le> 32 \<Longrightarrow> off < widths argv \<or> 32 < argc + length argv \<Longrightarrow>
    push_args ua argc argv (b + of_nat off) m = None"
proof (induction argv arbitrary: off argc m)
  case (Cons s argv)
  have a: "(b + of_nat off - of_nat (length s + 1)) AND NOT 3 = b + of_nat off - of_nat (width s)"
    by (rule align_down [OF off_aligned [OF st Cons.prems(2,1)]])
  show ?case
  proof (cases "width s \<le> off")
    case True
    define p where "p = off - width s"
    have p: "off = p + width s" using True by (simp add: p_def)
    then have "p \<le> 4096" "p mod 4 = 0"
      using Cons.prems width_bounds(3) [of s] by (simp_all add: mod_add_eq [symmetric])
    then have "argc < 32 \<Longrightarrow> push_args ua (argc + 1) argv (b + of_nat p) m' = None" for m'
      using Cons.prems p by (intro Cons.IH) auto
    moreover have "(b + of_nat off - of_nat (length s + 1)) AND NOT 3 = b + of_nat p" unfolding a unfolding p by simp
    ultimately show ?thesis by (simp add: Let_def split: prod.split)
  next
    case False
    define d where "d = width s - off"
    have d: "width s = off + d" "0 < d" using False by (simp_all add: d_def)
    have x: "(b + of_nat off - of_nat (length s + 1)) AND NOT 3 = b - of_nat d" unfolding a unfolding d by simp
    have "fst (copyout ua (b - of_nat d) (s @ [0]) m) = -1"
      using d width_bounds(2) [of s] by (intro copyout_guard [OF st]) auto
    then obtain m1 where "copyout ua (b - of_nat d) (s @ [0]) m = (-1, m1)" by (metis prod.collapse)
    then show ?thesis unfolding push_args.simps Let_def x by simp
  qed
qed simp

section \<open>What the program finds\<close>

lemma load32_bytes:
  assumes "\<And>k. k < 4 \<Longrightarrow> M (a + of_nat k) = word_bytes w ! k"
  shows "load32 M a = w"
proof -
  have "M a = ucast w" "M (a + 1) = ucast (drop_bit 8 w)" "M (a + 2) = ucast (drop_bit 16 w)" "M (a + 3) = ucast (drop_bit 24 w)"
    using assms [of 0] assms [of 1] assms [of 2] assms [of 3] by (simp_all add: word_bytes_def)
  note m = this
  show ?thesis
  proof (rule bit_word_eqI)
    fix n assume n: "n < LENGTH(32)"
    consider "n < 8" | "8 \<le> n" "n < 16" | "16 \<le> n" "n < 24" | "24 \<le> n" by linarith
    then show "bit (load32 M a) n = bit w n"
      using n by cases (auto simp: load32_def m bit_simps)
  qed
qed

lemma word_bytes_length [simp]: "length (word_bytes w) = 4"
  by (simp add: word_bytes_def)

lemma words_length: "length (concat (map word_bytes ws)) = 4 * length ws"
  by (induction ws) auto

lemma words_nth: "i < length ws \<Longrightarrow> k < 4 \<Longrightarrow> concat (map word_bytes ws) ! (4 * i + k) = word_bytes (ws ! i) ! k"
proof (induction ws arbitrary: i)
  case (Cons w ws)
  then show ?case by (cases i) (auto simp: nth_append)
qed simp

definition string_at :: "(u32 \<Rightarrow> 8 word) \<Rightarrow> u32 \<Rightarrow> 8 word list \<Rightarrow> bool" where
  "string_at M a s \<longleftrightarrow> (\<forall>j\<le>length s. M (a + of_nat j) = (s @ [0]) ! j)"

text \<open>
  The frame of \<open>main(argc, argv)\<close> at the stack pointer: a return address, \<open>argc\<close>, and \<open>argv\<close>, an array of
  pointers to the strings with a null pointer behind.
\<close>

definition main_frame :: "(u32 \<Rightarrow> 8 word) \<Rightarrow> u32 \<Rightarrow> 8 word list list \<Rightarrow> bool" where
  "main_frame M sp argv \<longleftrightarrow> load32 M sp = 0xFFFFFFFF \<and> load32 M (sp + 4) = of_nat (length argv) \<and>
     (let av = load32 M (sp + 8) in
       (\<forall>i<length argv. string_at M (load32 M (av + of_nat (4 * i))) (argv ! i)) \<and>
       load32 M (av + of_nat (4 * length argv)) = 0)"

text \<open>The bytes that arguments need.\<close>

definition stack_need :: "8 word list list \<Rightarrow> nat" where
  "stack_need argv = widths argv + 4 * (length argv + 4)"

lemma exec_stack_cases:
  assumes st: "stack_page ua b"
  shows "if length argv \<le> 32 \<and> stack_need argv \<le> 4096
    then \<exists>m'. exec_stack ua argv (b + 4096) m = Some (b + of_nat (4096 - stack_need argv), m') \<and>
      main_frame (user_view ua m') (b + of_nat (4096 - stack_need argv)) argv \<and> (\<forall>x. 4096 \<le> unat (x - ua b) \<longrightarrow> m' x = m x)
    else exec_stack ua argv (b + 4096) m = None"
proof (cases "length argv \<le> 32 \<and> widths argv \<le> 4096")
  case False
  then have "push_args ua 0 argv (b + of_nat 4096) m = None" by (intro push_args_bad [OF st]) auto
  then have "exec_stack ua argv (b + 4096) m = None" by (simp add: exec_stack_def)
  moreover have "\<not> (length argv \<le> 32 \<and> stack_need argv \<le> 4096)" using False by (auto simp: stack_need_def)
  ultimately show ?thesis by simp
next
  case True
  define n where "n = length argv"
  define p where "p = 4096 - widths argv"
  define ws where "ws = [0xFFFFFFFF, of_nat n, b + of_nat p - (of_nat n + 1) * 4] @
    map (\<lambda>o'. b + of_nat o') (places 4096 argv) @ [0 :: u32]"
  let ?bs = "concat (map word_bytes ws)"
  obtain m1 where m1: "push_args ua 0 argv (b + of_nat 4096) m =
        Some (map (\<lambda>o'. b + of_nat o') (places 4096 argv), b + of_nat p, m1)"
      "laid (\<lambda>i. user_view ua m1 (b + of_nat i)) 4096 argv"
      "\<forall>x. 4096 \<le> unat (x - ua b) \<longrightarrow> m1 x = m x"
    using push_args_ok [OF st, of 4096 argv 0 m] True by (auto simp: p_def)
  have lb: "length ?bs = 4 * (n + 4)" unfolding words_length by (simp add: ws_def n_def)
  have e: "exec_stack ua argv (b + 4096) m =
      (case copyout ua (b + of_nat p - of_nat (4 * (n + 4))) ?bs m1 of (r, m2) \<Rightarrow>
        if r < 0 then None else Some (b + of_nat p - of_nat (4 * (n + 4)), m2))"
  proof -
    have l: "length (map (\<lambda>o'. b + of_nat o') (places 4096 argv)) = n" by (simp add: n_def)
    have s: "sp - (3 + of_nat n + 1) * 4 = sp - of_nat (4 * (n + 4))" for sp :: u32 by (simp add: algebra_simps)
    have "push_args ua 0 argv (b + 4096) m =
        Some (map (\<lambda>o'. b + of_nat o') (places 4096 argv), b + of_nat p, m1)" using m1(1) by simp
    then show ?thesis unfolding exec_stack_def ws_def by (simp only: option.case prod.case Let_def l s)
  qed
  show ?thesis
  proof (cases "stack_need argv \<le> 4096")
    case False
    then have d: "p < 4 * (n + 4)" using True by (simp add: stack_need_def p_def n_def)
    have "length ?bs > 0" unfolding lb by simp
    then have ne: "?bs \<noteq> []" by (simp only: length_greater_0_conv simp_thms)
    define k where "k = 4 * (n + 4) - p"
    have k: "4 * (n + 4) = p + k" "0 < k" using d by (simp_all add: k_def)
    have x: "b + of_nat p - of_nat (4 * (n + 4)) = b - of_nat k" unfolding k by simp
    have "fst (copyout ua (b - of_nat k) ?bs m1) = -1"
      by (rule copyout_guard [OF st k(2) _ ne]) (use k lb in simp)
    then obtain m2 where "copyout ua (b - of_nat k) ?bs m1 = (-1, m2)" by (metis prod.collapse)
    then have "exec_stack ua argv (b + 4096) m = None" unfolding e x by simp
    then show ?thesis using False by simp
  next
    case fits: True
    define q where "q = 4096 - stack_need argv"
    have q: "p = q + 4 * (n + 4)" using fits by (simp add: q_def p_def stack_need_def n_def)
    have fit: "q + length ?bs \<le> 4096" using q lb by (simp add: p_def)
    let ?m = "store_bytes (ua b + of_nat q) ?bs m1"
    have sp: "b + of_nat p - of_nat (4 * (n + 4)) = b + of_nat q" by (simp add: q)
    have x: "exec_stack ua argv (b + 4096) m = Some (b + of_nat q, ?m)"
      unfolding e sp copyout_in [OF st fit] by simp
    have word: "load32 (user_view ua ?m) (b + of_nat q + of_nat (4 * i)) = ws ! i" if "i < n + 4" for i
    proof (rule load32_bytes)
      fix k :: nat assume k: "k < 4"
      have i: "i < length ws" using that by (simp add: ws_def n_def)
      have "user_view ua ?m (b + of_nat (q + (4 * i + k))) = ?bs ! (4 * i + k)"
        using view_store [OF st fit, of "q + (4 * i + k)" m1] fit that k lb by simp
      moreover have "b + of_nat q + of_nat (4 * i) + of_nat k = b + of_nat (q + (4 * i + k))" by simp
      ultimately show "user_view ua ?m (b + of_nat q + of_nat (4 * i) + of_nat k) = word_bytes (ws ! i) ! k"
        using words_nth [OF i k] by (simp only:)
    qed
    have av: "b + of_nat p - (of_nat n + 1) * 4 = b + of_nat q + of_nat (4 * 3)" by (simp add: q algebra_simps)
    have w: "load32 (user_view ua ?m) (b + of_nat q) = 0xFFFFFFFF"
      "load32 (user_view ua ?m) (b + of_nat q + 4) = of_nat n"
      "load32 (user_view ua ?m) (b + of_nat q + 8) = b + of_nat q + of_nat (4 * 3)"
      using word [of 0] word [of 1] word [of 2] av by (simp_all add: ws_def)
    have aw: "load32 (user_view ua ?m) (b + of_nat q + of_nat (4 * 3) + of_nat (4 * i)) = ws ! (3 + i)" if "i \<le> n" for i
      using word [of "3 + i"] that by (simp only: add_mult_distrib2 of_nat_add add.assoc)
    have "laid (\<lambda>i. user_view ua ?m (b + of_nat i)) 4096 argv"
    proof (rule laid_cong [OF m1(2)])
      fix i assume "4096 - widths argv \<le> i" "i < 4096"
      then show "user_view ua ?m (b + of_nat i) = user_view ua m1 (b + of_nat i)"
        using view_store [OF st fit, of i m1] lb q by (simp add: p_def)
    qed (use True in simp)
    then have str: "string_at (user_view ua ?m) (b + of_nat (places 4096 argv ! i)) (argv ! i)" if "i < n" for i
      using laid_nth [OF _ that [unfolded n_def]] by (auto simp: string_at_def add.assoc)
    have "ws ! (3 + i) = b + of_nat (places 4096 argv ! i)" if "i < n" for i
      using that by (simp add: ws_def nth_append n_def)
    moreover have "ws ! (3 + n) = 0" by (simp add: ws_def nth_append n_def)
    ultimately have "main_frame (user_view ua ?m) (b + of_nat q) argv"
      unfolding main_frame_def Let_def w n_def [symmetric] using aw str by simp
    moreover have "?m x = m x" if "4096 \<le> unat (x - ua b)" for x
      using m1(3) that store_outside [OF fit that, of m1] by simp
    ultimately show ?thesis using x True fits by (simp add: q_def)
  qed
qed

text \<open>C31: \<open>exec\<close> and its arguments: with the stack page mapped and the page below it not accessible to the
  user, it fails exactly for more than 32 arguments or for arguments that do not fit into the page with
  their pointers, however long they are; otherwise the new program finds, through its page table and at
  its stack pointer, a frame with its arguments, each string at its pointer, and no memory outside the
  stack page has changed.\<close>

theorem exec_arguments:
  assumes "stack_page ua b"
  shows "case exec_stack ua argv (b + 4096) m of
      None \<Rightarrow> 32 < length argv \<or> 4096 < stack_need argv
    | Some (sp, m') \<Rightarrow> length argv \<le> 32 \<and> stack_need argv \<le> 4096 \<and> sp = b + of_nat (4096 - stack_need argv) \<and>
        main_frame (user_view ua m') sp argv \<and> (\<forall>x. 4096 \<le> unat (x - ua b) \<longrightarrow> m' x = m x)"
  using exec_stack_cases [OF assms, of argv m] by (auto split: if_splits)

definition echo_args :: "8 word list list" where
  "echo_args = [[101, 99, 104, 111], [104, 105]]"

text \<open>The stack page is at the user address 8192, its frame at a kernel address.\<close>

theorem exec_arguments_witness:
  "\<exists>m'. exec_stack (\<lambda>v. if v = 8192 then 0x8000A000 else 0) echo_args (8192 + 4096) (\<lambda>_. 0) = Some (8192 + 4060, m') \<and>
     main_frame (user_view (\<lambda>v. if v = 8192 then 0x8000A000 else 0) m') (8192 + 4060) echo_args"
proof -
  let ?ua = "\<lambda>v :: u32. if v = 8192 then 0x8000A000 else 0 :: u32"
  have st: "stack_page ?ua 8192" by (simp add: stack_page_def)
  have n: "stack_need echo_args = 36" "length echo_args = 2"
    by (simp_all add: stack_need_def echo_args_def width_def)
  show ?thesis
    using exec_arguments [OF st, of echo_args "\<lambda>_. 0"] unfolding n by (auto split: option.splits prod.splits)
qed

end
