(* ===== verification/CowFree.thy ===== *)
theory CowFree
  imports CowProps
begin

text \<open>
  The end of a mapping under copy on write (\<open>deallocuvm\<close> of \<open>Project4/vm.c\<close>): a page that other address
  spaces still map loses a reference, one that nobody else maps is freed. The pages that are freed are
  exactly those that nobody maps any more, and no other address space notices.
\<close>

section \<open>One page\<close>

text \<open>The pages that an address space maps are pages of the allocator, and not that at the address 0.\<close>

definition user_pages :: "u32 \<Rightarrow> 's kmem_scheme \<Rightarrow> u32 \<Rightarrow> bool" where
  "user_pages kend s d \<longleftrightarrow> (\<forall>i j e. i < 512 \<longrightarrow> entry s d i j = Some e \<longrightarrow> PTE_ADDR e \<noteq> 0 \<and> kfree_ok kend (P2V (PTE_ADDR e)))"

text \<open>\<open>s'\<close> has lost the mappings of \<open>d\<close> for which \<open>P\<close> holds, and nothing else that a process sees.\<close>

definition unmapped :: "(10 word \<Rightarrow> 10 word \<Rightarrow> bool) \<Rightarrow> u32 set \<Rightarrow> u32 \<Rightarrow> 's kmem_scheme \<Rightarrow> 's kmem_scheme \<Rightarrow> bool" where
  "unmapped P D d s s' \<longleftrightarrow> (\<forall>d'\<in>D. pmem s' (kpage d') = pmem s (kpage d')) \<and>
     (\<forall>d'\<in>D. \<forall>i j. i < 512 \<longrightarrow>
       (if d' = d \<and> P i j then entry s' d' i j = None
        else entry s' d' i j = entry s d' i j \<and> view s' d' i j = view s d' i j))"

lemma dealloc_page_ok:
  assumes inv: "vm_inv kend s D vs" and d: "d \<in> D" and i: "i < 512" and e: "entry s d i j = Some e"
    and up: "user_pages kend s d" and few: "card (maps s D (page_of e)) < 128"
  shows "\<exists>s' new. dealloc_page kend (page_of (pmem s (kpage d) i), j) s = Inr s' \<and> vm_inv kend s' D (new @ vs) \<and>
    unmapped (\<lambda>i' j'. (i', j') = (i, j)) D d s s' \<and>
    (\<forall>p. maps s' D p = maps s D p - {(d, i, j)}) \<and> kpage ` set new = {p. maps s D p \<noteq> {} \<and> maps s' D p = {}}"
proof -
  note pe = entry_present [OF e]
  define t where "t = page_of (pmem s (kpage d) i)"
  define q where "q = page_of e"
  define c where "c = card (maps s D q)"
  let ?slot = "(d, i, j)"
  let ?v = "P2V (PTE_ADDR e)"
  have in_m: "?slot \<in> maps s D q" using entry_in_maps [OF d i e] by (simp add: q_def)
  have fin: "finite (maps s D p)" for p by (rule finite_maps [OF vm_invD(1) [OF inv]])
  have c: "0 < c" "c < 128" using in_m fin few by (auto simp: c_def q_def card_gt_0_iff)
  have rc: "refcount s q = of_nat c" using vm_invD(9) [OF inv] by (simp add: c_def)
  have l: "pload s (t, j) = e" using pe(3) by (simp add: pload_def t_def)
  have v: "PTE_ADDR e \<noteq> 0" "kfree_ok kend ?v" using up i e by (auto simp: user_pages_def)
  have ix: "q < page_of PHYSTOP" using vm_invD(8) [OF inv d i e] by (simp add: q_def)
  have qt: "q \<notin> tables s d'" if "d' \<in> D" for d' using vm_invD(6) [OF inv d that i e] by (simp add: q_def)
  have tt: "t \<in> tables s d" using pe(1) by (auto simp: tables_def t_def)
  then have tq: "t \<noteq> q" using qt [OF d] by auto
  have nv: "?v \<notin> set vs" using vm_invD(7) [OF inv d i e] page_P2V [of e] by (metis image_eqI)
  define s1 where "s1 = (if c = 1 then s\<lparr>pmem := (pmem s)(q := (\<lambda>_. 0x01010101)(0 := freelist s)), freelist := ?v\<rparr> else s)"
  have k: "kfree kend ?v s = Inr s1" if "c = 1"
    using v(2) that by (simp add: kfree_def fill_page_def s1_def q_def)
  have f: "free_pages kend s1 ((if c = 1 then [?v] else []) @ vs)"
  proof (cases "c = 1")
    case True
    then show ?thesis using free_pages_kfree [OF vm_invD(2) [OF inv] v(2) nv] k by auto
  next
    case False
    then show ?thesis using vm_invD(2) [OF inv] by (simp add: s1_def)
  qed
  define s' where "s' = pstore (t, j) 0 (s1\<lparr>refcount := (refcount s1)(q := refcount s1 q - 1)\<rparr>)"
  have l1: "pload s1 (t, j) = e" using l tq by (simp add: s1_def pload_def)
  have g: "get_refc e s = Inr (int c)" using ix rc sint_count [OF c(2)] by (simp add: get_refc_def refc_index_def flip: q_def)
  have fr: "(if int c = 1 then kfree kend ?v s else Inr s) = Inr s1" using k by (cases "c = 1") (simp_all add: s1_def)
  have r: "dealloc_page kend (t, j) s = Inr s'"
    unfolding dealloc_page_def Let_def l g rbind_Inr fr using v(1) ix
    by (simp add: l1 decr_refc_def refc_index_def s'_def flip: q_def)
  have pm: "pmem s' p = pmem s p" if "p \<noteq> q" "p \<noteq> t" for p using that by (simp add: s'_def pstore_def s1_def)
  have pt: "pmem s' t = (pmem s t)(j := 0)" using tq by (simp add: s'_def pstore_def s1_def)
  have qU: "q \<notin> (\<Union>d\<in>D. tables s d)" using qt by blast
  have ch: "pmem s' (kpage d') = pmem s (kpage d')" "tables s' d' = tables s d'" "table_ok s' d' = table_ok s d'"
    "entry s' d' i' j' = (if (d', i', j') = ?slot then None else entry s d' i' j')" if "d' \<in> D" for d' i' j'
    using entry_written(1-3) [OF inv d t_def pe(1) pm pt qU that]
      entry_written(4) [OF inv d t_def pe(1) pm pt qU that, of i' j'] by simp_all
  have mp: "maps s' D p = maps s D p - {?slot}" for p
    by (auto simp: maps_def ch(4) split: if_splits)
  have mq: "maps s D p = {} \<or> ?slot \<notin> maps s D p" if "p \<noteq> q" for p using in_m that e by (auto simp: maps_def q_def)
  have one: "maps s D q - {?slot} = {} \<longleftrightarrow> c = 1"
    using in_m fin [of q] by (auto simp: c_def card_1_singleton_iff dest: card_eq_0_iff [THEN iffD1])
  have pq: "pmem s' (page_of x) = pmem s (page_of x)" if "d' \<in> D" "i' < 512" "entry s d' i' j' = Some x" "(d', i', j') \<noteq> ?slot" for d' i' j' x
  proof -
    have "page_of x \<noteq> t" using vm_invD(6) [OF inv that(1) d that(2,3)] tt by auto
    moreover have "page_of x = q \<Longrightarrow> c \<noteq> 1"
      using entry_in_maps [OF that(1-3)] that(4) one by auto
    ultimately show ?thesis by (auto simp: s'_def pstore_def s1_def)
  qed
  have "unmapped (\<lambda>i' j'. (i', j') = (i, j)) D d s s'"
    unfolding unmapped_def
  proof (intro conjI ballI allI impI)
    show "pmem s' (kpage d') = pmem s (kpage d')" if "d' \<in> D" for d' by (rule ch(1) [OF that])
    show "if d' = d \<and> (i', j') = (i, j) then entry s' d' i' j' = None
        else entry s' d' i' j' = entry s d' i' j' \<and> view s' d' i' j' = view s d' i' j'" if "d' \<in> D" "i' < 512" for d' i' j'
      using ch(4) [OF that(1), of i' j'] pq [OF that] by (auto simp: view_def) (cases "entry s d' i' j'"; simp)+
  qed
  moreover have "vm_inv kend s' D ((if c = 1 then [?v] else []) @ vs)"
  proof (rule vm_invI)
    let ?vs = "(if c = 1 then [?v] else []) @ vs"
    have "chain (pmem s') (freelist s1) ?vs = chain (pmem s1) (freelist s1) ?vs"
    proof (rule chain_cong)
      fix x assume "x \<in> set ?vs"
      then have "kpage x \<noteq> t" using vm_invD(4) [OF inv d tt] tq by (auto simp: q_def split: if_splits)
      then show "pmem s' (kpage x) 0 = pmem s1 (kpage x) 0" by (simp add: s'_def pstore_def)
    qed
    then show "free_pages kend s' ?vs" using f by (simp add: free_pages_def s'_def pstore_def)
    show "refcount s' p = of_nat (card (maps s' D p))" for p
    proof (cases "p = q")
      case True
      have "refcount s' q = refcount s q - 1" by (simp add: s'_def pstore_def s1_def)
      also have "\<dots> = of_nat (c - 1)" using rc c(1) by (simp add: of_nat_diff)
      also have "c - 1 = card (maps s' D q)" using in_m by (simp add: mp c_def)
      finally show ?thesis using True by simp
    next
      case False
      have "refcount s' p = refcount s p" using False by (simp add: s'_def pstore_def s1_def)
      moreover have "maps s' D p = maps s D p" using mq [OF False] by (auto simp: mp)
      ultimately show ?thesis using vm_invD(9) [OF inv, of p] by simp
    qed
    show "p \<notin> kpage ` set ((if c = 1 then [?v] else []) @ vs)" if "d' \<in> D" "p \<in> tables s' d'" for d' p
      using that qt vm_invD(4) [OF inv] by (auto simp: ch(2) q_def)
    show "page_of x \<notin> tables s' d2 \<and> page_of x \<notin> kpage ` set ((if c = 1 then [?v] else []) @ vs) \<and> page_of x < page_of PHYSTOP"
      if a: "d1 \<in> D" "d2 \<in> D" "i1 < 512" "entry s' d1 i1 j1 = Some x" for d1 d2 i1 j1 x
    proof -
      have x: "entry s d1 i1 j1 = Some x" "(d1, i1, j1) \<noteq> ?slot" using a(4) ch(4) [OF a(1), of i1 j1] by (auto split: if_splits)
      have "c = 1 \<Longrightarrow> page_of x \<noteq> q" using entry_in_maps [OF a(1,3) x(1)] x(2) one by auto
      then show ?thesis
        using vm_invD(6) [OF inv a(1,2,3) x(1)] vm_invD(7,8) [OF inv a(1,3) x(1)] by (auto simp: ch(2) [OF a(2)] q_def)
    qed
  qed (use vm_invD(1,3-5) [OF inv] ch in auto)
  moreover have "kpage ` set (if c = 1 then [?v] else []) = {p. maps s D p \<noteq> {} \<and> maps s' D p = {}}"
  proof -
    have "maps s D p \<noteq> {} \<and> maps s' D p = {} \<longleftrightarrow> p = q \<and> c = 1" for p
    proof (cases "p = q")
      case True
      then show ?thesis using one in_m by (auto simp: mp)
    next
      case False
      then have "maps s' D p = maps s D p" using mq [OF False] by (auto simp: mp)
      then show ?thesis using False by simp
    qed
    then show ?thesis by (auto simp: q_def)
  qed
  ultimately show ?thesis using r mp unfolding t_def by blast
qed

section \<open>A range of addresses\<close>

lemma unmappedD:
  assumes "unmapped P D d s s'" and "d' \<in> D"
  shows "pmem s' (kpage d') = pmem s (kpage d')"
    and "i < 512 \<Longrightarrow> if d' = d \<and> P i j then entry s' d' i j = None
      else entry s' d' i j = entry s d' i j \<and> view s' d' i j = view s d' i j"
  using assms unfolding unmapped_def by blast+

lemma unmappedI:
  assumes "\<And>d'. d' \<in> D \<Longrightarrow> pmem s' (kpage d') = pmem s (kpage d')"
    and "\<And>d' i j. d' \<in> D \<Longrightarrow> i < 512 \<Longrightarrow> if d' = d \<and> P i j then entry s' d' i j = None
      else entry s' d' i j = entry s d' i j \<and> view s' d' i j = view s d' i j"
  shows "unmapped P D d s s'"
  using assms unfolding unmapped_def by blast

lemma unmapped_trans:
  assumes "unmapped P D d s s1" and "unmapped Q D d s1 s2" and "\<And>i j. i < 512 \<Longrightarrow> R i j \<longleftrightarrow> P i j \<or> Q i j"
  shows "unmapped R D d s s2"
proof (rule unmappedI)
  fix d' i j assume d': "d' \<in> D"
  show "pmem s2 (kpage d') = pmem s (kpage d')" using unmappedD(1) [OF assms(1) d'] unmappedD(1) [OF assms(2) d'] by simp
  assume i: "(i :: 10 word) < 512"
  show "if d' = d \<and> R i j then entry s2 d' i j = None else entry s2 d' i j = entry s d' i j \<and> view s2 d' i j = view s d' i j"
    using unmappedD(2) [OF assms(1) d' i, of j] unmappedD(2) [OF assms(2) d' i, of j] assms(3) [OF i, of j]
    by (auto split: if_splits)
qed

lemma unmapped_none:
  assumes "\<And>i j. i < 512 \<Longrightarrow> P i j \<Longrightarrow> entry s d i j = None"
  shows "unmapped P D d s s"
  using assms by (intro unmappedI) auto

lemma unmapped_maps:
  assumes "unmapped P D d s s'"
  shows "maps s' D p \<subseteq> maps s D p"
proof
  fix x assume "x \<in> maps s' D p"
  then obtain d' i j e where x: "x = (d', i, j)" "d' \<in> D" "i < 512" "entry s' d' i j = Some e" "page_of e = p"
    by (auto simp: maps_def)
  then have "entry s d' i j = Some e" using unmappedD(2) [OF assms x(2,3), of j] by (auto split: if_splits)
  then show "x \<in> maps s D p" using x by (auto simp: maps_def)
qed

lemma unmapped_user_pages:
  assumes "unmapped P D d s s'" and "d \<in> D" and "user_pages kend s d"
  shows "user_pages kend s' d"
  unfolding user_pages_def
proof (intro allI impI)
  fix i j e assume i: "i < 512" "entry s' d i j = Some e"
  then have "entry s d i j = Some e" using unmappedD(2) [OF assms(1,2) i(1), of j] by (auto split: if_splits)
  then show "PTE_ADDR e \<noteq> 0 \<and> kfree_ok kend (P2V (PTE_ADDR e))" using assms(3) i(1) by (auto simp: user_pages_def)
qed

text \<open>The address of a slot.\<close>

definition slot_addr :: "10 word \<Rightarrow> 10 word \<Rightarrow> nat" where
  "slot_addr i j = unat i * 4194304 + unat j * 4096"

lemma unat_PDX: "unat (PDX a) = unat a div 4194304"
proof -
  have "unat (PDX a) = take_bit LENGTH(10) (unat (drop_bit 22 a))" unfolding PDX_def by (rule unsigned_ucast_eq)
  moreover have "unat a < 2 ^ LENGTH(32)" by (rule unsigned_less)
  then have "unat a div 4194304 < 2 ^ 10" by simp
  ultimately show ?thesis unfolding unat_drop_bit by (simp add: take_bit_nat_eq_self)
qed

lemma unat_PTX: "unat (PTX a) = unat a div 4096 mod 1024"
proof -
  have "unat (PTX a) = take_bit LENGTH(10) (unat (drop_bit 12 a))" unfolding PTX_def by (rule unsigned_ucast_eq)
  then show ?thesis unfolding unat_drop_bit by (simp add: take_bit_eq_mod)
qed

lemma slot_of:
  assumes "unat a mod 4096 = 0"
  shows "slot_addr (PDX a) (PTX a) = unat a"
proof -
  let ?x = "unat a div 4096"
  have "unat a div 4194304 = ?x div 1024" by (simp add: div_mult2_eq [symmetric])
  then have "slot_addr (PDX a) (PTX a) = ?x div 1024 * 4194304 + ?x mod 1024 * 4096"
    unfolding slot_addr_def unat_PDX unat_PTX by simp
  moreover have "q * 4194304 + r * 4096 = (q * 1024 + r) * 4096" for q r :: nat by simp
  ultimately have "slot_addr (PDX a) (PTX a) = (?x div 1024 * 1024 + ?x mod 1024) * 4096" by (simp only:)
  also have "\<dots> = ?x * 4096" by (simp only: div_mult_mod_eq)
  also have "\<dots> = unat a" using assms div_mult_mod_eq [of "unat a" 4096] by simp
  finally show ?thesis .
qed

lemma slot_less: "unat (j :: 10 word) < 1024"
  using unsigned_less [of j, where 'a = nat] by simp

lemma slot_inject: "slot_addr i j = slot_addr i' j' \<longleftrightarrow> i = i' \<and> j = j'"
proof
  assume a: "slot_addr i j = slot_addr i' j'"
  then have e: "unat i * 1024 + unat j = unat i' * 1024 + unat j'" by (simp add: slot_addr_def)
  have "(unat i * 1024 + unat j) div 1024 = unat i" "(unat i' * 1024 + unat j') div 1024 = unat i'"
    using slot_less [of j] slot_less [of j'] by simp_all
  then have "unat i = unat i'" using e by simp
  then show "i = i' \<and> j = j'" using e by (simp add: word_unat_eq_iff)
qed simp

lemma slot_below:
  assumes "unat a < 2147483648"
  shows "PDX a < 512"
proof -
  have "unat (PDX a) < 512" using assms unfolding unat_PDX by simp
  then show ?thesis by (simp add: word_less_nat_alt)
qed

lemma page_step:
  assumes "x mod 4096 = 0" and "y mod 4096 = 0" and "x < y + 4096"
  shows "x \<le> (y :: nat)"
proof -
  obtain k where "x = 4096 * k" using assms(1) by auto
  moreover obtain l where "y = 4096 * l" using assms(2) by auto
  moreover note assms(3)
  ultimately show ?thesis by simp
qed

text \<open>The next table: the code computes the address of its first slot.\<close>

lemma next_table:
  assumes "unat a < 2147483648"
  shows "unat (push_bit 22 (ucast (PDX a) + 1) :: u32) = (unat (PDX a) + 1) * 4194304"
proof -
  have p: "unat (PDX a) < 512" using assms unfolding unat_PDX by simp
  have "unat (ucast (PDX a) :: u32) = take_bit LENGTH(32) (unat (PDX a))" by (rule unsigned_ucast_eq)
  then have u: "unat (ucast (PDX a) :: u32) = unat (PDX a)" using p by (simp add: take_bit_nat_eq_self)
  have "unat (ucast (PDX a) + 1 :: u32) = unat (PDX a) + 1"
    using p u by (subst unat_add_lem [THEN iffD1]) simp_all
  moreover have "unat (push_bit 22 w :: u32) = unat w * 4194304" if "unat w < 1024" for w
    using that by (simp add: push_bit_eq_mult unat_word_ariths)
  ultimately show ?thesis using p by simp
qed

lemma dealloc_loop_ok:
  fixes D :: "u32 set"
  assumes "vm_inv kend s D vs" and "d \<in> D" and "user_pages kend s d" and "\<forall>p. card (maps s D p) < 128"
    and "unat a mod 4096 = 0" and "unat a \<le> 2147483648" and "unat oldsz \<le> 2147483648"
  shows "\<exists>s' new. dealloc_loop kend d oldsz a s = Inr s' \<and> vm_inv kend s' D (new @ vs) \<and>
    unmapped (\<lambda>i j. unat a \<le> slot_addr i j \<and> slot_addr i j < unat oldsz) D d s s' \<and>
    kpage ` set new = {p. maps s D p \<noteq> {} \<and> maps s' D p = {}}"
  using assms
proof (induction "2147483648 - unat a" arbitrary: a s vs rule: less_induct)
  case less
  show ?case
  proof (cases "a < oldsz")
    case False
    then have "dealloc_loop kend d oldsz a s = Inr s" by (subst dealloc_loop.simps) simp
    moreover have "unmapped (\<lambda>i j. unat a \<le> slot_addr i j \<and> slot_addr i j < unat oldsz) D d s s"
      using False by (intro unmapped_none) (auto simp: word_less_nat_alt)
    ultimately show ?thesis using less(2) by (intro exI [of _ s] exI [of _ "[]"]) simp
  next
    case True
    then have a: "unat a < 2147483648" "unat a < unat oldsz" using less(8) by (simp_all add: word_less_nat_alt)
    note i = slot_below [OF a(1)]
    show ?thesis
    proof (cases "present (pmem s (kpage d) (PDX a))")
      case False
      let ?a = "push_bit 22 (ucast (PDX a) + 1) :: u32"
      note na = next_table [OF a(1)]
      have "unat a mod 4194304 < 4194304" by simp
      then have lt: "unat a < unat ?a" unfolding na unat_PDX by (metis add_mult_distrib div_mult_mod_eq mult_1 nat_add_left_cancel_less)
      have le: "unat ?a \<le> 2147483648" using a(1) unfolding na unat_PDX by simp
      have al: "unat ?a mod 4096 = 0" unfolding na by (simp add: mod_mult_right_eq [symmetric])
      obtain s' new where r: "dealloc_loop kend d oldsz ?a s = Inr s'" "vm_inv kend s' D (new @ vs)"
        "unmapped (\<lambda>i j. unat ?a \<le> slot_addr i j \<and> slot_addr i j < unat oldsz) D d s s'"
        "kpage ` set new = {p. maps s D p \<noteq> {} \<and> maps s' D p = {}}"
      proof -
        have "2147483648 - unat ?a < 2147483648 - unat a" using lt a(1) by linarith
        from less(1) [OF this less(2-5) al le less(8)] show ?thesis using that by blast
      qed
      have n: "unmapped (\<lambda>i j. unat a \<le> slot_addr i j \<and> slot_addr i j < unat ?a \<and> slot_addr i j < unat oldsz) D d s s"
      proof (rule unmapped_none)
        fix i' j' assume s: "unat a \<le> slot_addr i' j' \<and> slot_addr i' j' < unat ?a \<and> slot_addr i' j' < unat oldsz"
        have "slot_addr i' j' div 4194304 = unat i'" using slot_less [of j'] by (simp add: slot_addr_def)
        moreover have "slot_addr i' j' div 4194304 \<ge> unat (PDX a)" using s unfolding unat_PDX by (intro div_le_mono) simp
        moreover have "slot_addr i' j' < (unat (PDX a) + 1) * 4194304" using s na by simp
        then have "slot_addr i' j' div 4194304 < unat (PDX a) + 1" by (simp add: less_mult_imp_div_less)
        ultimately have "i' = PDX a" by (simp add: word_unat_eq_iff)
        then show "entry s d i' j' = None" using False by (simp add: entry_def)
      qed
      have "unmapped (\<lambda>i j. unat a \<le> slot_addr i j \<and> slot_addr i j < unat oldsz) D d s s'"
        by (rule unmapped_trans [OF n r(3)]) (use lt in auto)
      moreover have "dealloc_loop kend d oldsz a s = dealloc_loop kend d oldsz ?a s"
        using True False lt by (subst dealloc_loop.simps) (simp add: walkpgdir_def pload_def word_less_nat_alt Let_def)
      ultimately show ?thesis using r by auto
    next
      case pde: True
      let ?t = "(page_of (pmem s (kpage d) (PDX a)), PTX a)"
      have na: "unat (a + 4096) = unat a + 4096" using a(1) by (subst unat_add_lem [THEN iffD1]) simp_all
      obtain s1 n1 where s1: "(if present (pload s ?t) then dealloc_page kend ?t s else Inr s) = Inr s1" "vm_inv kend s1 D (n1 @ vs)"
        "unmapped (\<lambda>i j. (i, j) = (PDX a, PTX a)) D d s s1" "kpage ` set n1 = {p. maps s D p \<noteq> {} \<and> maps s1 D p = {}}"
      proof (cases "present (pload s ?t)")
        case True
        then have e: "entry s d (PDX a) (PTX a) = Some (pload s ?t)" using pde by (simp add: entry_def pload_def)
        show ?thesis
          using dealloc_page_ok [OF less(2,3) i e less(4)] less(5) True that by auto
      next
        case False
        then have "entry s d (PDX a) (PTX a) = None" by (simp add: entry_def pload_def)
        then have "unmapped (\<lambda>i j. (i, j) = (PDX a, PTX a)) D d s s" by (intro unmapped_none) auto
        then show ?thesis using False less(2) that [of s "[]"] by simp
      qed
      have m1: "maps s1 D p \<subseteq> maps s D p" for p by (rule unmapped_maps [OF s1(3)])
      have c1: "\<forall>p. card (maps s1 D p) < 128"
      proof
        fix p
        have "card (maps s1 D p) \<le> card (maps s D p)"
          by (rule card_mono [OF finite_maps [OF vm_invD(1) [OF less(2)]] m1])
        then show "card (maps s1 D p) < 128" using less(5) by (meson le_less_trans)
      qed
      have al: "unat (a + 4096) mod 4096 = 0" using less(6) unfolding na by simp
      have le: "unat (a + 4096) \<le> 2147483648"
      proof -
        obtain k where "unat a = 4096 * k" using less(6) by auto
        then show ?thesis using a(1) na by simp
      qed
      obtain s' n2 where r: "dealloc_loop kend d oldsz (a + 4096) s1 = Inr s'" "vm_inv kend s' D (n2 @ n1 @ vs)"
        "unmapped (\<lambda>i j. unat (a + 4096) \<le> slot_addr i j \<and> slot_addr i j < unat oldsz) D d s1 s'"
        "kpage ` set n2 = {p. maps s1 D p \<noteq> {} \<and> maps s' D p = {}}"
      proof -
        have "2147483648 - unat (a + 4096) < 2147483648 - unat a" using na a(1) by linarith
        from less(1) [OF this s1(2) less(3) unmapped_user_pages [OF s1(3) less(3,4)] c1 al le less(8)]
        show ?thesis using that by blast
      qed
      have "unmapped (\<lambda>i j. unat a \<le> slot_addr i j \<and> slot_addr i j < unat oldsz) D d s s'"
      proof (rule unmapped_trans [OF s1(3) r(3)])
        fix i j
        have "slot_addr i j = unat a \<longleftrightarrow> (i, j) = (PDX a, PTX a)"
          using slot_inject [of i j "PDX a" "PTX a"] slot_of [OF less(6)] by simp
        moreover have "slot_addr i j mod 4096 = 0"
        proof -
          have "slot_addr i j = 4096 * (unat i * 1024 + unat j)" by (simp add: slot_addr_def)
          then show ?thesis by simp
        qed
        then have "slot_addr i j < unat a + 4096 \<longrightarrow> slot_addr i j \<le> unat a"
          using page_step [OF _ less(6), of "slot_addr i j"] by simp
        ultimately show "(unat a \<le> slot_addr i j \<and> slot_addr i j < unat oldsz) \<longleftrightarrow>
            (i, j) = (PDX a, PTX a) \<or> (unat (a + 4096) \<le> slot_addr i j \<and> slot_addr i j < unat oldsz)"
          unfolding na using a(2) by auto
      qed
      moreover have "dealloc_loop kend d oldsz a s = dealloc_loop kend d oldsz (a + 4096) s1"
        using True s1(1) na walk_present [OF pde, of False]
        by (subst dealloc_loop.simps) (simp add: word_less_nat_alt)
      moreover have "kpage ` set (n2 @ n1) = {p. maps s D p \<noteq> {} \<and> maps s' D p = {}}"
      proof -
        have "maps s D p \<noteq> {} \<and> maps s' D p = {} \<longleftrightarrow>
            (maps s1 D p \<noteq> {} \<and> maps s' D p = {}) \<or> (maps s D p \<noteq> {} \<and> maps s1 D p = {})" for p
          using unmapped_maps [OF r(3), of p] m1 [of p] by blast
        then show ?thesis unfolding set_append image_Un s1(4) r(4) by blast
      qed
      ultimately show ?thesis using r(1,2) by (intro exI [of _ s'] exI [of _ "n2 @ n1"]) simp
    qed
  qed
qed

section \<open>growproc\<close>

text \<open>
  \<open>growproc\<close> of the process with size \<open>sz\<close>: its result and its new size. A result 0 of \<open>allocuvm\<close> and
  of \<open>deallocuvm\<close> counts as failure.
\<close>

definition growproc :: "u32 \<Rightarrow> u32 \<Rightarrow> int \<Rightarrow> u32 \<Rightarrow> kmem \<Rightarrow> (int \<times> u32 \<times> kmem) result" where
  "growproc kend pgdir n sz s =
     (if n > 0 then
        rbind (allocuvm kend pgdir sz (sz + word_of_int n) s) (\<lambda>(sz1, s1).
          if sz1 = 0 then Inr (-1, sz, s1) else Inr (0, sz1, s1))
      else if n < 0 then
        rbind (deallocuvm kend pgdir sz (sz + word_of_int n) s) (\<lambda>(sz1, s1).
          if sz1 = 0 then Inr (-1, sz, s1) else Inr (0, sz1, s1))
      else Inr (0, sz, s))"

lemma growproc_zero: "growproc kend pgdir 0 sz s = Inr (0, sz, s)"
  by (simp add: growproc_def)

lemma deallocuvm_ok:
  assumes inv: "vm_inv kend s D vs" and d: "d \<in> D" and up: "user_pages kend s d" and few: "\<forall>p. card (maps s D p) < 128"
    and sz: "unat oldsz \<le> 2147483648" and lt: "newsz < oldsz"
  shows "\<exists>s' new. deallocuvm kend d oldsz newsz s = Inr (newsz, s') \<and> vm_inv kend s' D (new @ vs) \<and>
    unmapped (\<lambda>i j. unat (PGROUNDUP newsz) \<le> slot_addr i j \<and> slot_addr i j < unat oldsz) D d s s' \<and>
    kpage ` set new = {p. maps s D p \<noteq> {} \<and> maps s' D p = {}}"
proof -
  have n: "unat newsz < 2147483648" using sz lt by (simp add: word_less_nat_alt)
  have r: "PGROUNDUP newsz = PGROUNDDOWN (newsz + 4095)" by (simp add: PGROUNDUP_def PGROUNDDOWN_def)
  have "unat (newsz + 4095) = unat newsz + 4095" using n by (subst unat_add_lem [THEN iffD1]) simp_all
  then have "unat (PGROUNDUP newsz) = (unat newsz + 4095) - (unat newsz + 4095) mod 4096"
    unfolding r unat_PGROUNDDOWN by simp
  also have "\<dots> = 4096 * ((unat newsz + 4095) div 4096)" by (rule minus_mod_eq_mult_div)
  finally have u: "unat (PGROUNDUP newsz) = 4096 * ((unat newsz + 4095) div 4096)" .
  have "unat newsz + 4095 < 4096 * 524289" using n by simp
  then have "(unat newsz + 4095) div 4096 < 524289" by (simp add: less_mult_imp_div_less)
  then have "unat (PGROUNDUP newsz) \<le> 2147483648" "unat (PGROUNDUP newsz) mod 4096 = 0" unfolding u by simp_all
  from dealloc_loop_ok [OF inv d up few this(2,1) sz]
  show ?thesis using lt by (auto simp: deallocuvm_def)
qed

text \<open>C39: Freeing the memory of a process under copy on write: when \<open>deallocuvm\<close> shrinks an address space, it
  removes exactly its mappings from the new size (rounded up to a page) to the old one, and frees
  exactly the pages that after this nobody maps: no page that another process shares is freed or
  changes its contents, none is leaked, and the reference counts stay exact.\<close>

theorem deallocuvm_frees_unshared:
  assumes "vm_inv kend s D vs" and "d \<in> D" and "user_pages kend s d" and "\<forall>p. card (maps s D p) < 128"
    and "unat oldsz \<le> 2147483648" and "newsz < oldsz"
  shows "\<exists>s' new. deallocuvm kend d oldsz newsz s = Inr (newsz, s') \<and> vm_inv kend s' D (new @ vs) \<and>
    kpage ` set new = {p. maps s D p \<noteq> {} \<and> maps s' D p = {}} \<and>
    (\<forall>d'\<in>D. \<forall>i j. i < 512 \<longrightarrow>
      (if d' = d \<and> unat (PGROUNDUP newsz) \<le> slot_addr i j \<and> slot_addr i j < unat oldsz then view s' d' i j = None
       else entry s' d' i j = entry s d' i j \<and> view s' d' i j = view s d' i j))"
proof -
  obtain s' new where s': "deallocuvm kend d oldsz newsz s = Inr (newsz, s')" "vm_inv kend s' D (new @ vs)"
    "unmapped (\<lambda>i j. unat (PGROUNDUP newsz) \<le> slot_addr i j \<and> slot_addr i j < unat oldsz) D d s s'"
    "kpage ` set new = {p. maps s D p \<noteq> {} \<and> maps s' D p = {}}"
    using deallocuvm_ok [OF assms] by blast
  have "if d' = d \<and> unat (PGROUNDUP newsz) \<le> slot_addr i j \<and> slot_addr i j < unat oldsz then view s' d' i j = None
      else entry s' d' i j = entry s d' i j \<and> view s' d' i j = view s d' i j" if "d' \<in> D" "i < 512" for d' i j
    using unmappedD(2) [OF s'(3) that, of j] by (auto simp: view_def split: if_splits)
  then show ?thesis using s' by blast
qed

text \<open>The code calls a process that shrinks to nothing failed, although its memory is gone.\<close>

lemma growproc_to_zero:
  assumes "vm_inv kend s D vs" and "d \<in> D" and "user_pages kend s d" and "\<forall>p. card (maps s D p) < 128"
    and "0 < unat sz" and "unat sz \<le> 2147483648"
  shows "\<exists>s'. growproc kend d (- uint sz) sz s = Inr (-1, sz, s') \<and>
    (\<forall>i j. i < 512 \<longrightarrow> slot_addr i j < unat sz \<longrightarrow> entry s' d i j = None)"
proof -
  have z: "sz + word_of_int (- uint sz) = 0" by simp
  have "0 < sz" using assms(5) by (simp add: word_less_nat_alt)
  then obtain s' new where s': "deallocuvm kend d sz 0 s = Inr (0, s')"
    "unmapped (\<lambda>i j. unat (PGROUNDUP 0) \<le> slot_addr i j \<and> slot_addr i j < unat sz) D d s s'"
    using deallocuvm_ok [OF assms(1-4,6), of 0] by blast
  have "unat (PGROUNDUP 0) = 0" by (simp add: PGROUNDUP_def)
  then have "entry s' d i j = None" if "i < 512" "slot_addr i j < unat sz" for i j
    using unmappedD(2) [OF s'(2) assms(2) that(1), of j] that(2) by simp
  moreover have "uint sz > 0" using assms(5) by (simp only: unat_eq_nat_uint zero_less_nat_eq)
  then have "\<not> 0 < - uint sz" "- uint sz < 0" by simp_all
  then have "growproc kend d (- uint sz) sz s = Inr (-1, sz, s')"
    unfolding growproc_def z s'(1) by (simp only: if_False if_True rbind_Inr prod.case refl simp_thms)
  ultimately show ?thesis by blast
qed

text \<open>One of two processes that share a page gives its memory back: the other one keeps the page.\<close>

theorem deallocuvm_frees_unshared_witness:
  "\<exists>s'. deallocuvm 0x80100000 0x80200000 4096 0 small = Inr (0, s') \<and> vm_inv 0x80100000 s' small_dirs [0x80205000] \<and>
     view s' 0x80200000 0 0 = None \<and> view s' 0x80202000 0 0 = view small 0x80202000 0 0"
proof -
  have up: "user_pages 0x80100000 small 0x80200000"
    by (auto simp: user_pages_def small_entry PTE_ADDR_def kfree_ok_def P2V_def V2P_def)
  have few: "\<forall>p. card (maps small small_dirs p) < 128" by (simp add: small_maps)
  obtain s' new where s': "deallocuvm 0x80100000 0x80200000 4096 0 small = Inr (0, s')"
    "vm_inv 0x80100000 s' small_dirs (new @ [0x80205000])"
    and new: "kpage ` set new = {p. maps small small_dirs p \<noteq> {} \<and> maps s' small_dirs p = {}}"
    and v: "\<forall>d'\<in>small_dirs. \<forall>i j. i < 512 \<longrightarrow>
      (if d' = 0x80200000 \<and> unat (PGROUNDUP 0) \<le> slot_addr i j \<and> slot_addr i j < unat (4096 :: u32) then view s' d' i j = None
       else entry s' d' i j = entry small d' i j \<and> view s' d' i j = view small d' i j)"
    using deallocuvm_frees_unshared [OF small_inv _ up few, of 4096 0] by auto
  have e: "entry s' 0x80202000 0 0 = Some 0x204005" "view s' 0x80202000 0 0 = view small 0x80202000 0 0"
    using v [rule_format, of "0x80202000" 0 0] by (simp_all add: small_entry)
  have z: "view s' 0x80200000 0 0 = None"
    using v [rule_format, of "0x80200000" 0 0] by (simp add: PGROUNDUP_def slot_addr_def)
  have "(0x80202000, 0, 0) \<in> maps s' small_dirs 0x204" using e(1) by (simp add: maps_def)
  then have "kpage ` set new = {}" unfolding new by (auto simp: small_maps split: if_splits)
  then have "new = []" by simp
  then show ?thesis using s' e z by auto
qed

end
