(* ===== verification/CowShare.thy ===== *)
theory CowShare
  imports CowFree
begin

text \<open>
  The beginning of a shared mapping (\<open>sharerouvm\<close> of \<open>Project4/vm.c\<close>, which \<open>fork\<close> calls): the child maps
  the pages of the parent, both without the right to write, and each page gets one more reference.
\<close>

section \<open>A new page table\<close>

lemma new_table:
  assumes inv: "vm_inv kend s D (v # vs)" and d: "d \<in> D" and np: "\<not> present (pmem s (kpage d) (PDX a))"
  shows "\<exists>s1. walkpgdir d a True s = (Some (kpage v, PTX a), s1) \<and> vm_inv kend s1 D vs \<and>
    (\<forall>d'\<in>D. \<forall>i j. entry s1 d' i j = entry s d' i j) \<and> (\<forall>d'\<in>D. \<forall>i j. i < 512 \<longrightarrow> view s1 d' i j = view s d' i j) \<and>
    (\<forall>i. present (pmem s1 (kpage d) i) \<longleftrightarrow> present (pmem s (kpage d) i) \<or> i = PDX a) \<and>
    page_of (pmem s1 (kpage d) (PDX a)) = kpage v \<and> (\<forall>d'\<in>D. d' \<noteq> d \<longrightarrow> pmem s1 (kpage d') = pmem s (kpage d'))"
proof -
  define e where "e = V2P v OR PTE_P OR PTE_W OR PTE_U"
  have fp: "free_pages kend s (v # vs)" using vm_invD(2) [OF inv] .
  have v: "kfree_ok kend v" "v \<noteq> 0" "freelist s = v" using fp by (simp_all add: free_pages_def)
  have e: "present e" "page_of e = kpage v"
  proof -
    have f: "flags_only (PTE_P OR PTE_W OR PTE_U)" by (intro flags_only_or) simp_all
    then show "page_of e = kpage v" using entry_of_page(1) [OF v(1) f] by (simp only: e_def or.assoc)
    show "present e" by (simp only: e_def present_or present_P simp_thms)
  qed
  define s1 where "s1 = pstore (kpage d, PDX a) e (fill_page v 0 (s\<lparr>freelist := pmem s (kpage v) 0\<rparr>))"
  have w: "walkpgdir d a True s = (Some (kpage v, PTX a), s1)"
    using np v by (simp add: walkpgdir_def pload_def kalloc_def s1_def e_def Let_def)
  have kv: "p \<in> tables s d' \<Longrightarrow> kpage v \<noteq> p" if "d' \<in> D" for d' p using vm_invD(4) [OF inv that] by auto
  have kd: "kpage d' \<in> tables s d'" for d' by (simp add: tables_def)
  have vd: "kpage v \<noteq> kpage d" using kv [OF d kd] .
  have pm: "pmem s1 p = pmem s p" if "p \<noteq> kpage v" "p \<noteq> kpage d" for p
    using that by (simp add: s1_def pstore_def fill_page_def)
  have pv: "pmem s1 (kpage v) = (\<lambda>_. 0)" using vd by (simp add: s1_def pstore_def fill_page_def)
  have pd: "pmem s1 (kpage d) = (pmem s (kpage d))(PDX a := e)" using vd by (simp add: s1_def pstore_def fill_page_def)
  have other: "kpage d' \<noteq> kpage d" if "d' \<in> D" "d' \<noteq> d" for d'
    using vm_invD(5) [OF inv that(1) d] kd that(2) by metis
  have k: "pmem s1 (kpage d') = pmem s (kpage d')" if "d' \<in> D" "d' \<noteq> d" for d'
    using pm kv [OF that(1) kd] other [OF that] by metis
  have T: "tables s1 d' = (if d' = d then insert (kpage v) (tables s d) else tables s d')" if "d' \<in> D" for d'
  proof (cases "d' = d")
    case True
    have "{page_of (pmem s1 (kpage d) i) | i. present (pmem s1 (kpage d) i)} =
        insert (kpage v) {page_of (pmem s (kpage d) i) | i. present (pmem s (kpage d) i)}"
      using np e by (auto simp: pd split: if_splits) metis
    then show ?thesis using True by (auto simp: tables_def)
  qed (simp add: tables_def k [OF that])
  have tab: "pmem s1 (page_of (pmem s (kpage d') i)) = pmem s (page_of (pmem s (kpage d') i))"
    if "d' \<in> D" "present (pmem s (kpage d') i)" for d' i
  proof (rule pm)
    have t: "page_of (pmem s (kpage d') i) \<in> tables s d'" using that(2) by (auto simp: tables_def)
    then show "page_of (pmem s (kpage d') i) \<noteq> kpage v" using kv [OF that(1)] by metis
    show "page_of (pmem s (kpage d') i) \<noteq> kpage d"
    proof
      assume q: "page_of (pmem s (kpage d') i) = kpage d"
      then have "d' = d" using vm_invD(5) [OF inv that(1) d] t kd by metis
      then show False using vm_invD(3) [OF inv d] that(2) q by (auto simp: table_ok_def)
    qed
  qed
  have en: "entry s1 d' i j = entry s d' i j" if "d' \<in> D" for d' i j
  proof (cases "d' = d \<and> i = PDX a")
    case True
    then show ?thesis using np e by (simp add: entry_def pd pv Let_def)
  next
    case False
    then have "pmem s1 (kpage d') i = pmem s (kpage d') i" using k [OF that] pd by (cases "d' = d") auto
    then show ?thesis using tab [OF that, of i] by (auto simp: entry_def Let_def)
  qed
  have vw: "view s1 d' i j = view s d' i j" if "d' \<in> D" "i < 512" for d' i j
  proof (cases "entry s d' i j")
    case (Some x)
    have "page_of x \<noteq> kpage d" using vm_invD(6) [OF inv that(1) d that(2) Some] kd by metis
    moreover have "page_of x \<noteq> kpage v" using vm_invD(7) [OF inv that Some] by auto
    ultimately show ?thesis using Some en [OF that(1)] pm by (simp add: view_def)
  qed (simp add: view_def en [OF that(1)])
  have mp: "maps s1 D p = maps s D p" for p using en by (auto simp: maps_def)
  have nk: "kpage v \<notin> kpage ` set vs"
  proof
    assume "kpage v \<in> kpage ` set vs"
    then obtain w where w: "w \<in> set vs" "kpage w = kpage v" by auto
    then have "w = v" using fp kpage_inject [of kend w v] by (simp add: free_pages_def)
    then show False using w fp by (simp add: free_pages_def)
  qed
  have "vm_inv kend s1 D vs"
  proof (rule vm_invI)
    have "chain (pmem s1) (pmem s (kpage v) 0) vs = chain (pmem s) (pmem s (kpage v) 0) vs"
    proof (rule chain_cong)
      fix x assume x: "x \<in> set vs"
      then have "kpage x \<noteq> kpage v" using nk by (metis imageI)
      moreover have "kpage x \<noteq> kpage d" using vm_invD(4) [OF inv d kd] x by (metis imageI list.set_intros(2))
      ultimately show "pmem s1 (kpage x) 0 = pmem s (kpage x) 0" by (simp add: pm)
    qed
    then show "free_pages kend s1 vs" using fp by (simp add: free_pages_def s1_def pstore_def fill_page_def)
    show "table_ok s1 d'" if "d' \<in> D" for d'
    proof (cases "d' = d")
      case True
      have t: "present (pmem s (kpage d) i) \<Longrightarrow> page_of (pmem s (kpage d) i) \<noteq> kpage v" for i
      proof -
        assume "present (pmem s (kpage d) i)"
        then have "page_of (pmem s (kpage d) i) \<in> tables s d" by (auto simp: tables_def)
        then show "page_of (pmem s (kpage d) i) \<noteq> kpage v" using kv [OF d] by metis
      qed
      then have "kpage v \<noteq> page_of (pmem s (kpage d) i)" if "present (pmem s (kpage d) i)" for i using that by metis
      then show ?thesis using vm_invD(3) [OF inv d] np e vd t unfolding True table_ok_def pd by (auto split: if_splits)
    next
      case False
      then show ?thesis using vm_invD(3) [OF inv that] k [OF that] by (simp add: table_ok_def)
    qed
    show "p \<notin> kpage ` set vs" if "d' \<in> D" "p \<in> tables s1 d'" for d' p
    proof (cases "p = kpage v")
      case False
      then have "p \<in> tables s d'" using that T [OF that(1)] by (auto split: if_splits)
      then show ?thesis using vm_invD(4) [OF inv that(1)] by auto
    qed (use nk in simp)
    show "d1 = d2" if "d1 \<in> D" "d2 \<in> D" "p \<in> tables s1 d1" "p \<in> tables s1 d2" for d1 d2 p
    proof -
      have "kpage v \<notin> tables s d'" if "d' \<in> D" for d' using kv [OF that] by metis
      then show ?thesis using that T vm_invD(5) [OF inv that(1,2)] by (auto split: if_splits)
    qed
    show "page_of x \<notin> tables s1 d2 \<and> page_of x \<notin> kpage ` set vs \<and> page_of x < page_of PHYSTOP"
      if a: "d1 \<in> D" "d2 \<in> D" "i < 512" "entry s1 d1 i j = Some x" for d1 d2 i j x
    proof -
      have x: "entry s d1 i j = Some x" using a(4) en [OF a(1)] by simp
      then show ?thesis
        using vm_invD(6) [OF inv a(1,2,3) x] vm_invD(7,8) [OF inv a(1,3) x] T [OF a(2)] by (auto split: if_splits)
    qed
    show "refcount s1 p = of_nat (card (maps s1 D p))" for p
      using vm_invD(9) [OF inv, of p] by (simp add: mp) (simp add: s1_def pstore_def fill_page_def)
  qed (rule vm_invD(1) [OF inv])
  moreover have "present (pmem s1 (kpage d) i) \<longleftrightarrow> present (pmem s (kpage d) i) \<or> i = PDX a" for i
    using e by (simp add: pd)
  ultimately show ?thesis using w en vw e k by (simp add: pd)
qed

section \<open>Writing one slot\<close>

text \<open>A slot gets an entry whose page is mapped already, with the reference counts that go with it.\<close>

lemma write_slot:
  assumes inv: "vm_inv kend s D vs" and d: "d \<in> D" and i: "i < 512" and pde: "present (pmem s (kpage d) i)"
    and t: "t = page_of (pmem s (kpage d) i)" and e': "present e'"
    and old: "d0 \<in> D" "i0 < 512" "entry s d0 i0 j0 = Some e0" "page_of e' = page_of e0"
    and pm: "pmem s' = (pmem s)(t := (pmem s t)(j := e'))" and fl: "freelist s' = freelist s"
    and rc: "\<And>p. refcount s' p = of_nat (card (maps s D p - {(d, i, j)} \<union> (if page_of e' = p then {(d, i, j)} else {})))"
  shows "vm_inv kend s' D vs" and "d' \<in> D \<Longrightarrow> pmem s' (kpage d') = pmem s (kpage d')"
    and "d' \<in> D \<Longrightarrow> entry s' d' i' j' = (if (d', i', j') = (d, i, j) then Some e' else entry s d' i' j')"
    and "d' \<in> D \<Longrightarrow> i' < 512 \<Longrightarrow> view s' d' i' j' = (if (d', i', j') = (d, i, j) then view s d0 i0 j0 else view s d' i' j')"
proof -
  have qU: "page_of e0 \<notin> (\<Union>d\<in>D. tables s d)" using vm_invD(6) [OF inv old(1) _ old(2,3)] by blast
  have tt: "t \<in> tables s d" using pde by (auto simp: tables_def t)
  have ch: "pmem s' (kpage d') = pmem s (kpage d')" "tables s' d' = tables s d'" "table_ok s' d' = table_ok s d'"
    "entry s' d' i' j' = (if (d', i', j') = (d, i, j) then Some e' else entry s d' i' j')" if "d' \<in> D" for d' i' j'
    by (rule entry_changed [OF inv d t pde e' _ _ qU that, where s' = s']; simp add: pm)+
  show "d' \<in> D \<Longrightarrow> pmem s' (kpage d') = pmem s (kpage d')" by (rule ch(1))
  show "d' \<in> D \<Longrightarrow> entry s' d' i' j' = (if (d', i', j') = (d, i, j) then Some e' else entry s d' i' j')" by (rule ch(4))
  have pt: "pmem s' (page_of x) = pmem s (page_of x)" if "d1 \<in> D" "i1 < 512" "entry s d1 i1 j1 = Some x" for d1 i1 j1 x
    using vm_invD(6) [OF inv that(1) d that(2,3)] tt by (auto simp: pm)
  show "view s' d' i' j' = (if (d', i', j') = (d, i, j) then view s d0 i0 j0 else view s d' i' j')" if a: "d' \<in> D" "i' < 512"
  proof (cases "(d', i', j') = (d, i, j)")
    case True
    then show ?thesis using ch(4) [OF a(1), of i' j'] old pt [OF old(1-3)] by (simp add: view_def)
  next
    case False
    have c: "entry s' d' i' j' = entry s d' i' j'" using ch(4) [OF a(1), of i' j'] unfolding if_not_P [OF False] .
    have "view s' d' i' j' = view s d' i' j'"
      using pt [OF a, of j'] unfolding view_def c by (cases "entry s d' i' j'") simp_all
    then show ?thesis unfolding if_not_P [OF False] .
  qed
  have mp: "maps s' D p = maps s D p - {(d, i, j)} \<union> (if page_of e' = p then {(d, i, j)} else {})" for p
    by (rule maps_changed [OF d i ch(4)])
  show "vm_inv kend s' D vs"
  proof (rule vm_invI)
    have "chain (pmem s') (freelist s) vs = chain (pmem s) (freelist s) vs"
    proof (rule chain_cong)
      fix x assume "x \<in> set vs"
      then have "kpage x \<noteq> t" using vm_invD(4) [OF inv d tt] by auto
      then show "pmem s' (kpage x) 0 = pmem s (kpage x) 0" by (simp add: pm)
    qed
    then show "free_pages kend s' vs" using vm_invD(2) [OF inv] fl by (simp add: free_pages_def)
    show "refcount s' p = of_nat (card (maps s' D p))" for p using rc [of p] mp [of p] by simp
    show "page_of x \<notin> tables s' d2 \<and> page_of x \<notin> kpage ` set vs \<and> page_of x < page_of PHYSTOP"
      if a: "d1 \<in> D" "d2 \<in> D" "i1 < 512" "entry s' d1 i1 j1 = Some x" for d1 d2 i1 j1 x
    proof (cases "(d1, i1, j1) = (d, i, j)")
      case True
      then have "page_of x = page_of e0" using a(4) ch(4) [OF a(1), of i1 j1] old(4) by simp
      then show ?thesis using vm_invD(6) [OF inv old(1) a(2) old(2,3)] vm_invD(7,8) [OF inv old(1-3)] by (simp add: ch(2) [OF a(2)])
    next
      case False
      then have x: "entry s d1 i1 j1 = Some x" using a(4) ch(4) [OF a(1), of i1 j1] by auto
      then show ?thesis using vm_invD(6) [OF inv a(1,2,3) x] vm_invD(7,8) [OF inv a(1,3) x] by (simp add: ch(2) [OF a(2)])
    qed
  qed (use vm_invD(1,3-5) [OF inv] ch in auto)
qed

section \<open>Sharing one page\<close>

text \<open>
  \<open>s'\<close> has the slots \<open>P\<close> of the parent \<open>p\<close> in the child \<open>d\<close> too, in both without the right to write, and is
  otherwise as before to every process.
\<close>

definition shared :: "(10 word \<Rightarrow> 10 word \<Rightarrow> bool) \<Rightarrow> u32 set \<Rightarrow> u32 \<Rightarrow> u32 \<Rightarrow> 's kmem_scheme \<Rightarrow> 's kmem_scheme \<Rightarrow> bool" where
  "shared P D p d s s' \<longleftrightarrow>
     (\<forall>d'\<in>D. \<forall>i j. i < 512 \<longrightarrow> view s' d' i j = (if d' = d \<and> P i j then view s p i j else view s d' i j)) \<and>
     (\<forall>i j. i < 512 \<longrightarrow> P i j \<longrightarrow> (\<exists>e e'. entry s' p i j = Some e \<and> entry s' d i j = Some e' \<and>
        page_of e' = page_of e \<and> e AND PTE_W = 0 \<and> e' AND PTE_W = 0)) \<and>
     (\<forall>d'\<in>D. \<forall>i j. i < 512 \<longrightarrow> \<not> P i j \<or> d' \<notin> {p, d} \<longrightarrow> entry s' d' i j = entry s d' i j)"

lemma sharedD:
  assumes "shared P D p d s s'" and "i < 512"
  shows "d' \<in> D \<Longrightarrow> view s' d' i j = (if d' = d \<and> P i j then view s p i j else view s d' i j)"
    and "P i j \<Longrightarrow> \<exists>e e'. entry s' p i j = Some e \<and> entry s' d i j = Some e' \<and>
        page_of e' = page_of e \<and> e AND PTE_W = 0 \<and> e' AND PTE_W = 0"
    and "d' \<in> D \<Longrightarrow> \<not> P i j \<or> d' \<notin> {p, d} \<Longrightarrow> entry s' d' i j = entry s d' i j"
  using assms unfolding shared_def by blast+

lemma sharedI:
  assumes "\<And>d' i j. i < 512 \<Longrightarrow> d' \<in> D \<Longrightarrow> view s' d' i j = (if d' = d \<and> P i j then view s p i j else view s d' i j)"
    and "\<And>i j. i < 512 \<Longrightarrow> P i j \<Longrightarrow> \<exists>e e'. entry s' p i j = Some e \<and> entry s' d i j = Some e' \<and>
        page_of e' = page_of e \<and> e AND PTE_W = 0 \<and> e' AND PTE_W = 0"
    and "\<And>d' i j. i < 512 \<Longrightarrow> d' \<in> D \<Longrightarrow> \<not> P i j \<or> d' \<notin> {p, d} \<Longrightarrow> entry s' d' i j = entry s d' i j"
  shows "shared P D p d s s'"
  using assms unfolding shared_def by blast

lemma shared_trans:
  assumes p: "p \<in> D" "d \<in> D" "p \<noteq> d" and 1: "shared P D p d s s1" and 2: "shared Q D p d s1 s2"
    and R: "\<And>i j. i < 512 \<Longrightarrow> R i j \<longleftrightarrow> P i j \<or> Q i j" and dis: "\<And>i j. i < 512 \<Longrightarrow> \<not> (P i j \<and> Q i j)"
  shows "shared R D p d s s2"
proof (rule sharedI)
  fix d' i j assume i: "(i :: 10 word) < 512"
  show "view s2 d' i j = (if d' = d \<and> R i j then view s p i j else view s d' i j)" if "d' \<in> D"
    using sharedD(1) [OF 1 i that, of j] sharedD(1) [OF 2 i that, of j] sharedD(1) [OF 1 i p(1), of j] R [OF i, of j] dis [OF i, of j] p(3)
    by (auto split: if_splits)
  show "\<exists>e e'. entry s2 p i j = Some e \<and> entry s2 d i j = Some e' \<and> page_of e' = page_of e \<and> e AND PTE_W = 0 \<and> e' AND PTE_W = 0"
    if "R i j"
  proof (cases "Q i j")
    case True
    then show ?thesis by (rule sharedD(2) [OF 2 i])
  next
    case False
    then have "P i j" using that R [OF i] by simp
    then show ?thesis
      using sharedD(2) [OF 1 i, of j] sharedD(3) [OF 2 i p(1), of j] sharedD(3) [OF 2 i p(2), of j] False by simp
  qed
  show "entry s2 d' i j = entry s d' i j" if "d' \<in> D" "\<not> R i j \<or> d' \<notin> {p, d}"
    using sharedD(3) [OF 1 i that(1), of j] sharedD(3) [OF 2 i that(1), of j] that(2) R [OF i, of j] by auto
qed

text \<open>The two new entries.\<close>

lemma read_only:
  assumes "present e"
  defines "f \<equiv> PTE_FLAGS e AND NOT PTE_W"
  shows "page_of (PTE_ADDR e OR f OR PTE_P) = page_of e" and "present (PTE_ADDR e OR f OR PTE_P)"
    and "(PTE_ADDR e OR f OR PTE_P) AND PTE_W = 0"
    and "page_of (e AND NOT PTE_W) = page_of e" and "present (e AND NOT PTE_W)" and "(e AND NOT PTE_W) AND PTE_W = 0"
proof -
  have e: "e = PTE_ADDR e OR PTE_FLAGS e"
    unfolding PTE_ADDR_def PTE_FLAGS_def by (rule bit_word_eqI) (auto simp: bit_simps bit_low_bits)
  have w: "PTE_W = push_bit 1 (1 :: u32)" by simp
  have fl: "flags_only (f OR PTE_P)"
  proof (rule flags_only_or)
    show "flags_only f" unfolding f_def flags_only_def PTE_FLAGS_def by (rule bit_word_eqI) (auto simp: bit_simps)
  qed simp
  have "PTE_ADDR e = page_addr (page_of e)" by (rule PTE_ADDR_page)
  then show "page_of (PTE_ADDR e OR f OR PTE_P) = page_of e"
    using page_of_or_flags fl unfolding flags_only_def or.assoc by simp
  show "present (PTE_ADDR e OR f OR PTE_P)" by (simp only: present_or present_P simp_thms)
  have b0: "bit (1 :: u32) n \<longleftrightarrow> n = 0" for n by (auto simp: bit_1_iff)
  show "(PTE_ADDR e OR f OR PTE_P) AND PTE_W = 0"
    unfolding PTE_ADDR_def f_def w by (rule bit_word_eqI) (auto simp: bit_simps bit_low_bits)
  show "(e AND NOT PTE_W) AND PTE_W = 0" by (rule bit_word_eqI) (auto simp: bit_simps)
  show "page_of (e AND NOT PTE_W) = page_of e"
  proof -
    have "PTE_ADDR (e AND NOT PTE_W) = PTE_ADDR e"
      unfolding PTE_ADDR_def w by (rule bit_word_eqI) (auto simp: bit_simps bit_low_bits)
    then show ?thesis by (metis page_of_PTE_ADDR)
  qed
  have "(e AND NOT PTE_W) AND PTE_P = e AND PTE_P" unfolding w by (rule bit_word_eqI) (auto simp: bit_simps)
  then show "present (e AND NOT PTE_W)" using assms(1) unfolding present_def by metis
qed

lemma share_page_ok:
  assumes inv: "vm_inv kend s D vs" and p: "p \<in> D" and d: "d \<in> D" and pd: "p \<noteq> d" and al: "aligned a" and i: "PDX a < 512"
    and e: "entry s p (PDX a) (PTX a) = Some e" and n: "entry s d (PDX a) (PTX a) = None"
    and room: "present (pmem s (kpage d) (PDX a)) \<or> vs \<noteq> []"
  shows "\<exists>s' ws. share_page d p a s = Inr (0, s') \<and> vm_inv kend s' D ws \<and>
    shared (\<lambda>i j. (i, j) = (PDX a, PTX a)) D p d s s' \<and>
    (\<forall>i. present (pmem s' (kpage d) i) \<longleftrightarrow> present (pmem s (kpage d) i) \<or> i = PDX a) \<and>
    (ws = vs \<and> present (pmem s (kpage d) (PDX a)) \<or> (\<exists>v. vs = v # ws) \<and> \<not> present (pmem s (kpage d) (PDX a)))"
proof -
  let ?i = "PDX a" and ?j = "PTX a"
  define c where "c = PTE_ADDR e OR (PTE_FLAGS e AND NOT PTE_W) OR PTE_P"
  define tp where "tp = page_of (pmem s (kpage p) ?i)"
  note pe = entry_present [OF e]
  note ro = read_only [OF pe(2), folded c_def]
  obtain s1 td ws where w: "walkpgdir d a True s = (Some (td, ?j), s1)" and inv1: "vm_inv kend s1 D ws"
    and en: "\<And>d' i j. d' \<in> D \<Longrightarrow> entry s1 d' i j = entry s d' i j"
    and vw: "\<And>d' i j. d' \<in> D \<Longrightarrow> i < 512 \<Longrightarrow> view s1 d' i j = view s d' i j"
    and pr: "\<And>i. present (pmem s1 (kpage d) i) \<longleftrightarrow> present (pmem s (kpage d) i) \<or> i = ?i"
    and td: "td = page_of (pmem s1 (kpage d) ?i)" and kp: "pmem s1 (kpage p) = pmem s (kpage p)"
    and ws: "ws = vs \<and> present (pmem s (kpage d) ?i) \<or> (\<exists>v. vs = v # ws) \<and> \<not> present (pmem s (kpage d) ?i)"
  proof (cases "present (pmem s (kpage d) ?i)")
    case True
    then show ?thesis using that [of "page_of (pmem s (kpage d) ?i)" s vs] walk_present [OF True, of True] inv by auto
  next
    case False
    then obtain v us where v: "vs = v # us" using room by (cases vs) auto
    show ?thesis using new_table [OF inv [unfolded v] d False] that [of "kpage v" _ us] v False p pd by (auto simp: v)
  qed
  have e1: "entry s1 p ?i ?j = Some e" "entry s1 d ?i ?j = None" using en p d e n by simp_all
  note pe1 = entry_present [OF e1(1)]
  have pt: "tp = page_of (pmem s1 (kpage p) ?i)" by (simp add: tp_def kp)
  have "tp \<in> tables s1 p" "td \<in> tables s1 d" using pe1(1) pr [of ?i] by (auto simp: tables_def pt td)
  then have ne: "tp \<noteq> td" using vm_invD(5) [OF inv1 p d] pd by auto
  define q where "q = page_of e"
  have qlt: "q < page_of PHYSTOP" using vm_invD(8) [OF inv1 p i e1(1)] by (simp add: q_def)
  define sa where "sa = (pstore (td, ?j) c s1)\<lparr>refcount := (refcount s1)(q := refcount s1 q + 1)\<rparr>"
  have rca: "refcount sa r = of_nat (card (maps s1 D r - {(d, ?i, ?j)} \<union> (if page_of c = r then {(d, ?i, ?j)} else {})))" for r
  proof -
    have f: "finite (maps s1 D r)" "(d, ?i, ?j) \<notin> maps s1 D r"
      using finite_maps [OF vm_invD(1) [OF inv1]] e1(2) by (auto simp: maps_def)
    then show ?thesis using vm_invD(9) [OF inv1, of r] by (cases "r = q") (auto simp: sa_def pstore_def ro(1) q_def)
  qed
  have pma: "pmem sa = (pmem s1)(td := (pmem s1 td)(?j := c))" "freelist sa = freelist s1" by (simp_all add: sa_def pstore_def)
  note A = write_slot [OF inv1 d i _ td ro(2) p i e1(1) ro(1) pma rca]
  have pde: "present (pmem s1 (kpage d) ?i)" using pr by simp
  note A = A [OF pde]
  have ea: "entry sa p ?i ?j = Some e" using A(3) [OF p, of ?i ?j] e1(1) pd by simp
  define sb where "sb = pstore (tp, ?j) (e AND NOT PTE_W) sa"
  have pdp: "present (pmem sa (kpage p) ?i)" "tp = page_of (pmem sa (kpage p) ?i)" using A(2) [OF p] pe1(1) pt by simp_all
  have rcb: "refcount sb r = of_nat (card (maps sa D r - {(p, ?i, ?j)} \<union> (if page_of (e AND NOT PTE_W) = r then {(p, ?i, ?j)} else {})))" for r
  proof -
    have "maps sa D r - {(p, ?i, ?j)} \<union> (if page_of (e AND NOT PTE_W) = r then {(p, ?i, ?j)} else {}) = maps sa D r"
      using entry_in_maps [OF p i ea] unfolding ro(4) by (auto simp: maps_def ea)
    then show ?thesis using vm_invD(9) [OF A(1), of r] by (simp add: sb_def pstore_def)
  qed
  have pmb: "pmem sb = (pmem sa)(tp := (pmem sa tp)(?j := e AND NOT PTE_W))" "freelist sb = freelist sa" by (simp_all add: sb_def pstore_def)
  note B = write_slot [OF A(1) p i pdp ro(5) p i ea ro(4) pmb rcb]
  have r: "share_page d p a s = Inr (0, sb)"
  proof -
    have l: "pload s (tp, ?j) = e" "pload s1 (tp, ?j) = e" using pe(3) pe1(3) by (simp_all add: pload_def tp_def pt [unfolded tp_def, symmetric])
    have l0: "\<not> present (pload s1 (td, ?j))" using e1(2) pde by (auto simp: entry_def pload_def td Let_def split: if_splits)
    have pp: "parent_pte p a s = Inr (tp, ?j)"
      using walk_present [OF pe(1), of False] l pe(2) by (simp add: parent_pte_def tp_def)
    have mp: "mappages d a 4096 (PTE_ADDR e) (PTE_FLAGS e AND NOT PTE_W) s = Inr (0, pstore (td, ?j) c s1)"
      unfolding mappages_one [OF al] by (subst mappages_loop.simps) (simp add: w l0 c_def)
    have l2: "pload (pstore (td, ?j) c s1) (tp, ?j) = e" using l(2) ne by (simp add: pload_def pstore_def)
    have l3: "pload (pstore (tp, ?j) (e AND NOT PTE_W) (pstore (td, ?j) c s1)) (tp, ?j) = e AND NOT PTE_W"
      by (simp add: pload_def pstore_def)
    have inc: "incr_refc (e AND NOT PTE_W) S = Inr (S\<lparr>refcount := (refcount S)(q := refcount S q + 1)\<rparr>)" for S :: "'a kmem_scheme"
      using qlt ro(4) by (simp add: incr_refc_def refc_index_def q_def)
    show ?thesis
      unfolding share_page_def pp rbind_Inr Let_def l mp prod.case l2 l3 inc by (simp add: sb_def sa_def pstore_def)
  qed
  have eb: "d' \<in> D \<Longrightarrow> entry sb d' i' j' = (if (d', i', j') = (p, ?i, ?j) then Some (e AND NOT PTE_W)
      else if (d', i', j') = (d, ?i, ?j) then Some c else entry s d' i' j')" for d' i' j'
    using B(3) [of d' i' j'] A(3) [of d' i' j'] en [of d' i' j'] by (auto split: if_splits)
  have vb: "view sb d' i' j' = (if (d', i', j') = (d, ?i, ?j) then view s p ?i ?j else view s d' i' j')" if "d' \<in> D" "i' < 512" for d' i' j'
    using B(4) [OF that, of j'] A(4) [OF that, of j'] A(4) [OF p i, of ?j] vw [OF that, of j'] vw [OF p i, of ?j] pd by auto
  have "shared (\<lambda>i j. (i, j) = (?i, ?j)) D p d s sb"
  proof (rule sharedI)
    show "\<exists>x y. entry sb p i' j' = Some x \<and> entry sb d i' j' = Some y \<and> page_of y = page_of x \<and> x AND PTE_W = 0 \<and> y AND PTE_W = 0"
      if "(i', j') = (?i, ?j)" for i' j'
      using that eb [OF p, of i' j'] eb [OF d, of i' j'] pd ro by auto
  qed (use vb eb in auto)
  moreover have "present (pmem sb (kpage d) i) \<longleftrightarrow> present (pmem s (kpage d) i) \<or> i = ?i" for i
    using B(2) [OF d] A(2) [OF d] pr [of i] by simp
  ultimately show ?thesis using r B(1) ws by blast
qed

section \<open>All pages\<close>

lemma aligned_unat: "aligned a \<longleftrightarrow> unat a mod 4096 = 0"
proof -
  have "a AND 0xFFF = take_bit 12 a" by (rule bit_word_eqI) (auto simp: bit_simps bit_low_bits)
  moreover have "unat (take_bit 12 a) = unat a mod 4096" by (simp add: take_bit_eq_mod unat_mod_distrib)
  ultimately show ?thesis unfolding aligned_def by (metis unat_eq_0)
qed

lemma slot_mod [simp]: "slot_addr i j mod 4096 = 0"
proof -
  have "slot_addr i j = 4096 * (unat i * 1024 + unat j)" by (simp add: slot_addr_def)
  then show ?thesis by simp
qed

lemma shared_none:
  assumes "\<And>i j. i < 512 \<Longrightarrow> \<not> P i j"
  shows "shared P D p d s s"
  using assms by (intro sharedI) auto

lemma slots_step:
  assumes "unat a mod 4096 = 0" and "unat a < n"
  shows "(unat a \<le> slot_addr i j \<and> slot_addr i j < n) \<longleftrightarrow>
    (i, j) = (PDX a, PTX a) \<or> (unat a + 4096 \<le> slot_addr i j \<and> slot_addr i j < n)"
proof -
  have "slot_addr i j = unat a \<longleftrightarrow> (i, j) = (PDX a, PTX a)"
    using slot_inject [of i j "PDX a" "PTX a"] slot_of [OF assms(1)] by simp
  moreover have "slot_addr i j < unat a + 4096 \<longrightarrow> slot_addr i j \<le> unat a"
    using page_step [OF slot_mod assms(1)] by simp
  ultimately show ?thesis using assms(2) by auto
qed

text \<open>The page tables that the child lacks for addresses below \<open>n\<close>.\<close>

definition absent :: "nat \<Rightarrow> 's kmem_scheme \<Rightarrow> u32 \<Rightarrow> 10 word set" where
  "absent n s d = {i. unat i * 4194304 < n \<and> \<not> present (pmem s (kpage d) i)}"

lemma absent_page:
  assumes "\<forall>i. present (pmem s1 (kpage d) i) \<longleftrightarrow> present (pmem s (kpage d) i) \<or> i = k" and "unat k * 4194304 < n"
    and "ws = vs \<and> present (pmem s (kpage d) k) \<or> (\<exists>v. vs = v # ws) \<and> \<not> present (pmem s (kpage d) k)"
    and "card (absent n s d) \<le> length vs"
  shows "card (absent n s1 d) \<le> length ws"
proof -
  have a: "absent n s1 d = absent n s d - {k}" using assms(1) by (auto simp: absent_def)
  show ?thesis
  proof (cases "present (pmem s (kpage d) k)")
    case True
    then show ?thesis using assms(3,4) a by (auto simp: absent_def)
  next
    case False
    then have "k \<in> absent n s d" using assms(2) by (simp add: absent_def)
    then have "card (absent n s1 d) = card (absent n s d) - 1" unfolding a by simp
    then show ?thesis using assms(3,4) False by auto
  qed
qed

lemma share_loop_ok:
  assumes "vm_inv kend s D vs" and "p \<in> D" and "d \<in> D" and "p \<noteq> d" and "unat a mod 4096 = 0" and "unat sz \<le> 2147483648"
    and "\<forall>i j. i < 512 \<longrightarrow> unat a \<le> slot_addr i j \<longrightarrow> slot_addr i j < unat sz \<longrightarrow> entry s p i j \<noteq> None \<and> entry s d i j = None"
    and "card (absent (unat sz) s d) \<le> length vs"
  shows "\<exists>s' us ws. share_loop kend d p sz a s = Inr (d, s') \<and> vs = us @ ws \<and> vm_inv kend s' D ws \<and>
    shared (\<lambda>i j. unat a \<le> slot_addr i j \<and> slot_addr i j < unat sz) D p d s s'"
  using assms
proof (induction "2147483648 - unat a" arbitrary: a s vs rule: less_induct)
  case less
  show ?case
  proof (cases "a < sz")
    case False
    then have "share_loop kend d p sz a s = Inr (d, s)" by (subst share_loop.simps) simp
    moreover have "shared (\<lambda>i j. unat a \<le> slot_addr i j \<and> slot_addr i j < unat sz) D p d s s"
      using False by (intro shared_none) (auto simp: word_less_nat_alt)
    ultimately show ?thesis using less(2) by (intro exI [of _ s] exI [of _ "[]"] exI [of _ vs]) simp
  next
    case True
    then have a: "unat a < 2147483648" "unat a < unat sz" using less(7) by (simp_all add: word_less_nat_alt)
    note i = slot_below [OF a(1)]
    have na: "unat (a + 4096) = unat a + 4096" using a(1) by (subst unat_add_lem [THEN iffD1]) simp_all
    have "entry s p (PDX a) (PTX a) \<noteq> None" and n: "entry s d (PDX a) (PTX a) = None"
      using less(8) [rule_format, OF i, of "PTX a"] slot_of [OF less(6)] a(2) by simp_all
    then obtain e where e: "entry s p (PDX a) (PTX a) = Some e" by auto
    have k: "unat (PDX a) * 4194304 < unat sz" using a(2) unfolding unat_PDX by (simp add: le_less_trans [OF div_times_less_eq_dividend])
    have room: "present (pmem s (kpage d) (PDX a)) \<or> vs \<noteq> []"
    proof (rule disjCI)
      assume "\<not> vs \<noteq> []"
      then have "card (absent (unat sz) s d) = 0" using less(9) by simp
      then have "absent (unat sz) s d = {}" by simp
      then show "present (pmem s (kpage d) (PDX a))" using k by (auto simp: absent_def)
    qed
    obtain s1 ws where s1: "share_page d p a s = Inr (0, s1)" "vm_inv kend s1 D ws"
      "shared (\<lambda>i j. (i, j) = (PDX a, PTX a)) D p d s s1"
      "\<forall>i. present (pmem s1 (kpage d) i) \<longleftrightarrow> present (pmem s (kpage d) i) \<or> i = PDX a"
      "ws = vs \<and> present (pmem s (kpage d) (PDX a)) \<or> (\<exists>v. vs = v # ws) \<and> \<not> present (pmem s (kpage d) (PDX a))"
      using share_page_ok [OF less(2-5) _ i e n room] less(6) by (auto simp: aligned_unat)
    note c = absent_page [OF s1(4) k s1(5) less(9)]
    note step = slots_step [OF less(6) a(2)]
    have al: "unat (a + 4096) mod 4096 = 0" using less(6) unfolding na by simp
    have rest: "\<forall>i j. i < 512 \<longrightarrow> unat (a + 4096) \<le> slot_addr i j \<longrightarrow> slot_addr i j < unat sz \<longrightarrow>
        entry s1 p i j \<noteq> None \<and> entry s1 d i j = None"
    proof (intro allI impI)
      fix i j assume ij: "(i :: 10 word) < 512" "unat (a + 4096) \<le> slot_addr i j" "slot_addr i j < unat sz"
      have "(i, j) \<noteq> (PDX a, PTX a)" using ij(2) slot_of [OF less(6)] unfolding na by auto
      then have "entry s1 p i j = entry s p i j" "entry s1 d i j = entry s d i j"
        using sharedD(3) [OF s1(3) ij(1)] less(3,4) by simp_all
      then show "entry s1 p i j \<noteq> None \<and> entry s1 d i j = None" using less(8) ij unfolding na by simp
    qed
    have "2147483648 - unat (a + 4096) < 2147483648 - unat a" using na a(1) by linarith
    from less(1) [OF this s1(2) less(3-5) al less(7) rest c]
    obtain s' us xs where r: "share_loop kend d p sz (a + 4096) s1 = Inr (d, s')" "ws = us @ xs" "vm_inv kend s' D xs"
      "shared (\<lambda>i j. unat (a + 4096) \<le> slot_addr i j \<and> slot_addr i j < unat sz) D p d s1 s'" by blast
    have "share_loop kend d p sz a s = Inr (d, s')"
      using True s1(1) r(1) na by (subst share_loop.simps) (simp add: word_less_nat_alt)
    moreover have "\<exists>us. vs = us @ xs" using s1(5) r(2) by (metis append_Cons)
    moreover have "shared (\<lambda>i j. unat a \<le> slot_addr i j \<and> slot_addr i j < unat sz) D p d s s'"
    proof (rule shared_trans [OF less(3-5) s1(3) r(4)])
      show "(unat a \<le> slot_addr i j \<and> slot_addr i j < unat sz) \<longleftrightarrow>
          (i, j) = (PDX a, PTX a) \<or> (unat (a + 4096) \<le> slot_addr i j \<and> slot_addr i j < unat sz)" for i j
        unfolding na by (rule step)
      show "\<not> ((i, j) = (PDX a, PTX a) \<and> unat (a + 4096) \<le> slot_addr i j \<and> slot_addr i j < unat sz)" for i j
        using slot_of [OF less(6)] unfolding na by auto
    qed
    ultimately show ?thesis using r(3) by blast
  qed
qed

text \<open>C38: A fork under copy on write: when the parent has all pages below its size and the child, fresh
  from \<open>setupkvm\<close>, none of them, the loop of \<open>sharerouvm\<close> gives the child exactly the memory of the parent.
  No process sees any other change, both can only read the pages, no page but those of the new page
  tables leaves the free list, and the reference counts of the pages stay exact.\<close>

theorem share_loop_shares:
  assumes "vm_inv kend s D vs" and "p \<in> D" and "d \<in> D" and "p \<noteq> d" and "unat sz \<le> 2147483648"
    and "\<forall>i j. i < 512 \<longrightarrow> slot_addr i j < unat sz \<longrightarrow> entry s p i j \<noteq> None \<and> entry s d i j = None"
    and "card (absent (unat sz) s d) \<le> length vs"
  shows "\<exists>s' us ws. share_loop kend d p sz 0 s = Inr (d, s') \<and> vs = us @ ws \<and> vm_inv kend s' D ws \<and>
    (\<forall>d'\<in>D. \<forall>i j. i < 512 \<longrightarrow> view s' d' i j = (if d' = d \<and> slot_addr i j < unat sz then view s p i j else view s d' i j)) \<and>
    (\<forall>i j. i < 512 \<longrightarrow> slot_addr i j < unat sz \<longrightarrow> (\<exists>e e'. entry s' p i j = Some e \<and> entry s' d i j = Some e' \<and>
       page_of e' = page_of e \<and> e AND PTE_W = 0 \<and> e' AND PTE_W = 0))"
proof -
  obtain s' us ws where s': "share_loop kend d p sz 0 s = Inr (d, s')" "vs = us @ ws" "vm_inv kend s' D ws"
    "shared (\<lambda>i j. unat (0 :: u32) \<le> slot_addr i j \<and> slot_addr i j < unat sz) D p d s s'"
    using share_loop_ok [OF assms(1-4) _ assms(5) _ assms(7), of 0] assms(6) by auto
  then show ?thesis unfolding shared_def by auto
qed

text \<open>A child with an empty directory and one free page, which becomes its page table.\<close>

definition young :: kmem where
  "young = \<lparr>use_lock = True, freelist = 0x80205000, refcount = (\<lambda>_. 0)(0x204 := 1), pmem = small_mem(0x202 := (\<lambda>_. 0))\<rparr>"

lemma young_entry:
  "d \<in> small_dirs \<Longrightarrow> entry young d i j = (if d = 0x80200000 \<and> i = 0 \<and> j = 0 then Some 0x204005 else None)"
  by (auto simp: entry_def young_def small_mem_def Let_def)

lemma young_maps: "maps young small_dirs p = (if p = 0x204 then {(0x80200000, 0, 0)} else {})"
  by (auto simp: maps_def young_entry split: if_splits)

lemma young_tables: "tables young 0x80200000 = {0x200, 0x201}" "tables young 0x80202000 = {0x202}"
  by (auto simp: tables_def young_def small_mem_def split: if_splits intro!: exI [of _ "0 :: 10 word"])

lemma young_inv: "vm_inv 0x80100000 young small_dirs [0x80205000]"
proof (rule vm_invI)
  show "free_pages 0x80100000 young [0x80205000]" by (simp add: free_pages_def young_def small_mem_def kfree_ok_def V2P_def)
  show "table_ok young d" if "d \<in> small_dirs" for d
    using that by (auto simp: table_ok_def young_def small_mem_def)
  show "refcount young p = of_nat (card (maps young small_dirs p))" for p
    by (simp add: young_maps) (simp add: young_def)
  show "page_of e \<notin> tables young d' \<and> page_of e \<notin> kpage ` set [0x80205000] \<and> page_of e < page_of PHYSTOP"
    if "d \<in> small_dirs" "d' \<in> small_dirs" "i < 512" "entry young d i j = Some e" for d d' i j e
    using that young_tables by (auto simp: young_entry page_of_def split: if_splits)
qed (use young_tables in auto)

theorem share_loop_shares_witness:
  "\<exists>s'. share_loop 0x80100000 0x80202000 0x80200000 4096 0 young = Inr (0x80202000, s') \<and>
     view s' 0x80202000 0 0 = view young 0x80200000 0 0 \<and> view young 0x80200000 0 0 = Some (\<lambda>_. 7)"
proof -
  have z: "slot_addr i j < 4096 \<Longrightarrow> i = 0 \<and> j = 0" for i j
    using slot_inject [of i j 0 0] page_step [OF slot_mod, of 0 i j] by (simp add: slot_addr_def)
  have c: "card (absent (unat (4096 :: u32)) young 0x80202000) \<le> length [0x80205000 :: u32]"
  proof -
    have "absent (unat (4096 :: u32)) young 0x80202000 \<subseteq> {0}"
      by (auto simp: absent_def word_unat_eq_iff)
    then show ?thesis using card_mono [of "{0 :: 10 word}"] by force
  qed
  have e: "\<forall>i j. i < 512 \<longrightarrow> slot_addr i j < unat (4096 :: u32) \<longrightarrow> entry young 0x80200000 i j \<noteq> None \<and> entry young 0x80202000 i j = None"
    using z by (simp add: young_entry)
  obtain s' where s': "share_loop 0x80100000 0x80202000 0x80200000 4096 0 young = Inr (0x80202000, s')"
    "\<forall>d'\<in>small_dirs. \<forall>i j. i < 512 \<longrightarrow> view s' d' i j = (if d' = 0x80202000 \<and> slot_addr i j < unat (4096 :: u32)
      then view young 0x80200000 i j else view young d' i j)"
    using share_loop_shares [OF young_inv _ _ _ _ e c] by auto
  have "view young 0x80200000 0 0 = Some (\<lambda>_. 7)" by (simp add: view_def young_entry) (simp add: young_def small_mem_def)
  then show ?thesis using s'(1) s'(2) [rule_format, of "0x80202000" 0 0] by (simp add: slot_addr_def)
qed

end
