(* ===== verification/Ide.thy ===== *)
theory Ide
  imports Bcache
begin

text \<open>
  The driver of the IDE disk (\<open>ide.c\<close>), which stands behind the buffer cache in the kernel on a real disk:
  the queue of requests, linked through the buffers, the programming of the drive and its interrupt.
  The lock \<open>idelock\<close> makes each operation one step up to its sleep. A process that sleeps in \<open>iderw\<close> is
  named by its buffer, which it holds.
\<close>

section \<open>The drive\<close>

text \<open>
  A drive takes a command with the number of a block in its registers, works, and interrupts. What is
  relied on is that it transfers the sector of its registers, unless it reports an error.
\<close>

datatype transfer = Reading | Writing block

record drive =
  r_count :: "8 word"
  r_lba0 :: "8 word"
  r_lba1 :: "8 word"
  r_lba2 :: "8 word"
  r_drive :: "8 word"
  active :: "transfer option"
  status_err :: bool
  sector_data :: block
  media :: "bool \<Rightarrow> nat \<Rightarrow> block"

definition lba :: "drive \<Rightarrow> nat" where
  "lba d = unat (r_lba0 d) + 2 ^ 8 * unat (r_lba1 d) + 2 ^ 16 * unat (r_lba2 d) + 2 ^ 24 * unat (r_drive d AND 0x0F)"

definition drive_done :: "bool \<Rightarrow> drive \<Rightarrow> drive" where
  "drive_done err d =
     (let k = bit (r_drive d) 4; m = media d k (lba d) in
      case active d of
        None \<Rightarrow> d
      | Some Reading \<Rightarrow> d\<lparr>active := None, status_err := err, sector_data := m\<rparr>
      | Some (Writing b) \<Rightarrow> d\<lparr>active := None, status_err := err,
          media := (media d)(k := (media d k)(lba d := (if err then m else b)))\<rparr>)"

section \<open>The code\<close>

text \<open>\<open>waits\<close> tells where the process with the buffer is in \<open>iderw\<close>: asleep, or woken and about to look again.\<close>

datatype waiting = Away | Sleeps | Wakes

record ide =
  ibufs :: "nat \<Rightarrow> buf"
  qnext :: "nat \<Rightarrow> nat option"
  idequeue :: "nat option"
  havedisk1 :: bool
  drv :: drive
  waits :: "nat \<Rightarrow> waiting"

abbreviation FSSIZE :: nat where
  "FSSIZE \<equiv> 1000"

text \<open>\<open>idewait\<close> of a drive that is at work would spin until it has finished.\<close>

definition idewait :: "drive \<Rightarrow> unit result" where
  "idewait d = ensure (active d = None) Hang"

definition idestart :: "nat option \<Rightarrow> ide \<Rightarrow> ide result" where
  "idestart ob s =
     (case ob of None \<Rightarrow> Inl (Panic ''idestart'')
      | Some b \<Rightarrow>
          rbind (ensure (b_blockno (ibufs s b) < FSSIZE) (Panic ''incorrect blockno'')) (\<lambda>_.
          rbind (idewait (drv s)) (\<lambda>_.
          let sector = of_nat (b_blockno (ibufs s b)) :: u32 in
          Inr (s\<lparr>drv := (drv s)\<lparr>r_count := 1,
             r_lba0 := ucast (sector AND 0xFF),
             r_lba1 := ucast (drop_bit 8 sector AND 0xFF),
             r_lba2 := ucast (drop_bit 16 sector AND 0xFF),
             r_drive := 0xE0 OR push_bit 4 (of_nat (b_dev (ibufs s b)) AND 1) OR ucast (drop_bit 24 sector AND 0x0F),
             active := Some (if b_dirty (ibufs s b) then Writing (b_data (ibufs s b)) else Reading)\<rparr>\<rparr>))))"

text \<open>\<open>ideintr\<close>; \<open>wakeup(b)\<close> reaches the process asleep on the buffer.\<close>

definition ideintr :: "ide \<Rightarrow> ide result" where
  "ideintr s =
     (case idequeue s of
        None \<Rightarrow> Inr s
      | Some b \<Rightarrow>
          let s1 = s\<lparr>idequeue := qnext s b\<rparr>;
              r = ibufs s1 b;
              r1 = (if \<not> b_dirty r \<and> \<not> status_err (drv s1) then r\<lparr>b_data := sector_data (drv s1)\<rparr> else r);
              s2 = s1\<lparr>ibufs := (ibufs s1)(b := r1\<lparr>b_valid := True, b_dirty := False\<rparr>),
                waits := (waits s1)(b := (if waits s1 b = Sleeps then Wakes else waits s1 b))\<rparr> in
          if idequeue s2 \<noteq> None then idestart (idequeue s2) s2 else Inr s2)"

text \<open>The loop that finds the end of the queue.\<close>

partial_function (option) queue_end :: "(nat \<Rightarrow> nat option) \<Rightarrow> nat \<Rightarrow> nat option" where
  "queue_end nx p = (case nx p of None \<Rightarrow> Some p | Some q \<Rightarrow> queue_end nx q)"

definition append_queue :: "nat \<Rightarrow> ide \<Rightarrow> ide result" where
  "append_queue b s =
     (let s1 = s\<lparr>qnext := (qnext s)(b := None)\<rparr> in
      case idequeue s1 of
        None \<Rightarrow> Inr (s1\<lparr>idequeue := Some b\<rparr>)
      | Some p \<Rightarrow>
          (case queue_end (qnext s1) p of
             None \<Rightarrow> Inl Hang
           | Some e \<Rightarrow> Inr (s1\<lparr>qnext := (qnext s1)(e := Some b)\<rparr>)))"

text \<open>The test of the loop that waits, and \<open>iderw\<close> up to its first sleep.\<close>

definition look_again :: "nat \<Rightarrow> ide \<Rightarrow> ide" where
  "look_again b s =
     s\<lparr>waits := (waits s)(b := (if b_valid (ibufs s b) \<and> \<not> b_dirty (ibufs s b) then Away else Sleeps))\<rparr>"

definition ide_rw :: "int \<Rightarrow> nat \<Rightarrow> ide \<Rightarrow> ide result" where
  "ide_rw me b s =
     rbind (ensure (b_locked (ibufs s b) \<and> b_pid (ibufs s b) = me) (Panic ''iderw: buf not locked'')) (\<lambda>_.
     rbind (ensure (\<not> (b_valid (ibufs s b) \<and> \<not> b_dirty (ibufs s b))) (Panic ''iderw: nothing to do'')) (\<lambda>_.
     rbind (ensure (b_dev (ibufs s b) = 0 \<or> havedisk1 s) (Panic ''iderw: ide disk 1 not present'')) (\<lambda>_.
     rbind (append_queue b s) (\<lambda>s1.
     rbind (if idequeue s1 = Some b then idestart (Some b) s1 else Inr s1) (\<lambda>s2.
     Inr (look_again b s2))))))"

section \<open>The system\<close>

text \<open>
  The processes: one that holds a buffer changes it or calls \<open>iderw\<close> for it, one that has been woken looks
  again; the drive finishes, with or without an error, and interrupts. The two lists are the requests in
  the order of the calls, and those that have been served.
\<close>

inductive ide_run :: "ide \<Rightarrow> nat list \<Rightarrow> nat list \<Rightarrow> bool" where
  start: "idequeue s = None \<Longrightarrow> active (drv s) = None \<Longrightarrow> (\<And>b. waits s b = Away) \<Longrightarrow> ide_run s [] []"
| change: "ide_run s asked served \<Longrightarrow> waits s b = Away \<Longrightarrow> ide_run (s\<lparr>ibufs := (ibufs s)(b := r)\<rparr>) asked served"
| request: "ide_run s asked served \<Longrightarrow> waits s b = Away \<Longrightarrow> b_blockno (ibufs s b) < FSSIZE \<Longrightarrow> ide_rw me b s = Inr t \<Longrightarrow>
    ide_run t (asked @ [b]) served"
| again: "ide_run s asked served \<Longrightarrow> waits s b = Wakes \<Longrightarrow> ide_run (look_again b s) asked served"
| interrupt: "ide_run s asked served \<Longrightarrow> active (drv s) \<noteq> None \<Longrightarrow> idequeue s = Some b \<Longrightarrow>
    ideintr (s\<lparr>drv := drive_done err (drv s)\<rparr>) = Inr t \<Longrightarrow> ide_run t asked (served @ [b])"

section \<open>The queue\<close>

fun chain :: "(nat \<Rightarrow> nat option) \<Rightarrow> nat option \<Rightarrow> nat list \<Rightarrow> bool" where
  "chain nx p [] = (p = None)"
| "chain nx p (x # xs) = (p = Some x \<and> chain nx (nx x) xs)"

lemma queue_chain_cong: "chain nx p xs \<Longrightarrow> (\<And>x. x \<in> set xs \<Longrightarrow> ny x = nx x) \<Longrightarrow> chain ny p xs"
  by (induction xs arbitrary: p) auto

lemma chain_end: "chain nx (Some p) (xs @ [x]) \<Longrightarrow> queue_end nx p = Some x"
proof (induction xs arbitrary: p)
  case Nil
  then show ?case by (subst queue_end.simps) simp
next
  case (Cons y xs)
  then obtain q where "nx p = Some q" by (cases xs) auto
  then show ?case using Cons by (subst queue_end.simps) simp
qed

lemma chain_append:
  "chain nx p (xs @ [x]) \<Longrightarrow> b \<notin> set (xs @ [x]) \<Longrightarrow> distinct (xs @ [x]) \<Longrightarrow>
    chain (nx(b := None, x := Some b)) p (xs @ [x, b])"
proof (induction xs arbitrary: p)
  case (Cons y xs)
  then show ?case by (auto simp del: fun_upd_apply) (auto simp: fun_upd_apply)
qed auto

lemma append_queue_ok:
  assumes c: "chain (qnext s) (idequeue s) Q" and "distinct Q" and "b \<notin> set Q"
  shows "\<exists>nx. append_queue b s = Inr (s\<lparr>qnext := nx, idequeue := (if Q = [] then Some b else idequeue s)\<rparr>) \<and>
    chain nx (if Q = [] then Some b else idequeue s) (Q @ [b])"
proof (cases Q rule: rev_cases)
  case Nil
  then show ?thesis using c by (auto simp: append_queue_def intro: exI [of _ "(qnext s)(b := None)"])
next
  case (snoc xs x)
  then obtain p where p: "idequeue s = Some p" using c by (cases xs) auto
  have "chain ((qnext s)(b := None)) (Some p) (xs @ [x])"
    using c assms(3) by (intro queue_chain_cong [OF c [unfolded snoc p]]) (auto simp: snoc)
  then have "queue_end ((qnext s)(b := None)) p = Some x" by (rule chain_end)
  moreover have "chain ((qnext s)(b := None, x := Some b)) (Some p) (xs @ [x, b])"
    using c assms(2,3) p by (intro chain_append) (auto simp: snoc)
  moreover have "s\<lparr>qnext := nx, idequeue := Some p\<rparr> = s\<lparr>qnext := nx\<rparr>" for nx using p by (cases s) simp
  ultimately show ?thesis using snoc p
    by (intro exI [of _ "(qnext s)(b := None, x := Some b)"]) (simp add: append_queue_def)
qed

section \<open>The registers\<close>

lemma byte_of:
  fixes w :: u32
  assumes "k \<le> 32"
  shows "unat (ucast (drop_bit k w AND 0xFF) :: 8 word) = unat w div 2 ^ k mod 256"
proof -
  have "(0xFF :: u32) = mask 8" by (simp add: mask_eq_exp_minus_1)
  then have "drop_bit k w AND 0xFF = take_bit 8 (drop_bit k w)" by (simp add: take_bit_eq_mask)
  then have "unat (ucast (drop_bit k w AND 0xFF) :: 8 word) = take_bit 8 (take_bit 8 (unat (drop_bit k w)))"
    by (simp add: unsigned_ucast_eq unsigned_take_bit_eq)
  also have "\<dots> = unat (drop_bit k w) mod 256" by (simp add: take_bit_eq_mod)
  finally show ?thesis by (simp only: unat_drop_bit)
qed

lemma low_byte: "unat (ucast ((w :: u32) AND 0xFF) :: 8 word) = unat w mod 256"
  using byte_of [of 0 w] by simp

lemma lba_of: "lba (d\<lparr>r_count := c, r_lba0 := x0, r_lba1 := x1, r_lba2 := x2, r_drive := x3, active := a\<rparr>) =
    unat x0 + 256 * unat x1 + 65536 * unat x2 + 16777216 * unat (x3 AND 0x0F)"
  by (simp add: lba_def)

lemma r_drive_of: "r_drive (d\<lparr>r_count := c, r_lba0 := x0, r_lba1 := x1, r_lba2 := x2, r_drive := x3, active := a\<rparr>) = x3"
  by simp

definition programmed :: "ide \<Rightarrow> nat \<Rightarrow> bool" where
  "programmed s b \<longleftrightarrow> lba (drv s) = b_blockno (ibufs s b) \<and> (bit (r_drive (drv s)) 4 \<longleftrightarrow> odd (b_dev (ibufs s b))) \<and>
     active (drv s) = Some (if b_dirty (ibufs s b) then Writing (b_data (ibufs s b)) else Reading)"

lemma idestart_ok:
  assumes n: "b_blockno (ibufs s b) < FSSIZE" and "active (drv s) = None"
  shows "\<exists>d. idestart (Some b) s = Inr (s\<lparr>drv := d\<rparr>) \<and> programmed (s\<lparr>drv := d\<rparr>) b \<and> media d = media (drv s)"
proof -
  let ?n = "b_blockno (ibufs s b)"
  let ?w = "of_nat ?n :: u32"
  let ?d = "0xE0 OR push_bit 4 (of_nat (b_dev (ibufs s b)) AND 1) OR ucast (drop_bit 24 ?w AND 0x0F) :: 8 word"
  have u: "unat ?w = ?n" using n by (intro of_nat_inverse) simp_all
  have "unat (drop_bit 24 ?w) = 0" using n unfolding unat_drop_bit u by simp
  then have "drop_bit 24 ?w = 0" by (simp only: unat_eq_0)
  then have d: "?d = 0xE0 OR push_bit 4 (of_nat (b_dev (ibufs s b)) AND 1)" by simp
  have z: "?d AND 0x0F = 0"
  proof -
    have m: "(0x0F :: 8 word) = mask 4" by (simp add: mask_eq_exp_minus_1)
    have "take_bit 4 (0xE0 :: 8 word) = 0" by (simp add: take_bit_eq_mod)
    then show ?thesis unfolding d m by (simp add: take_bit_or take_bit_push_bit flip: take_bit_eq_mask)
  qed
  have b4: "bit ?d 4 \<longleftrightarrow> odd (b_dev (ibufs s b))"
  proof -
    have "\<not> bit (0xE0 :: 8 word) 4" by (simp add: bit_iff_odd)
    moreover have "bit (of_nat m :: 8 word) 0 \<longleftrightarrow> odd m" for m
    proof -
      have "(of_nat m :: 8 word) = word_of_int (int m)" by simp
      then have "bit (of_nat m :: 8 word) 0 \<longleftrightarrow> bit (int m) 0" by (simp only: bit_word_of_int_iff) simp
      then show ?thesis by (simp add: bit_0)
    qed
    ultimately show ?thesis unfolding d by (simp add: bit_or_iff bit_push_bit_iff bit_and_iff del: bit_0)
  qed
  have b: "?n div 65536 mod 256 = 0" "?n mod 256 + 256 * (?n div 256 mod 256) = ?n"
  proof -
    have "?n div 256 < 256" using n by simp
    then show "?n mod 256 + 256 * (?n div 256 mod 256) = ?n" by simp
  qed (use n in simp)
  have "lba (d\<lparr>r_count := 1, r_lba0 := ucast (?w AND 0xFF), r_lba1 := ucast (drop_bit 8 ?w AND 0xFF),
      r_lba2 := ucast (drop_bit 16 ?w AND 0xFF), r_drive := ?d, active := a\<rparr>) = ?n" for d a
  proof -
    have "unat (ucast (drop_bit 8 ?w AND 0xFF) :: 8 word) = ?n div 2 ^ 8 mod 256"
      "unat (ucast (drop_bit 16 ?w AND 0xFF) :: 8 word) = ?n div 2 ^ 16 mod 256"
      using byte_of [of 8 ?w] byte_of [of 16 ?w] unfolding u by auto
    moreover have "unat (?d AND 0x0F) = 0" unfolding z by simp
    moreover have "unat (ucast (?w AND 0xFF) :: 8 word) = ?n mod 256" unfolding low_byte u ..
    ultimately have "lba (d\<lparr>r_count := 1, r_lba0 := ucast (?w AND 0xFF), r_lba1 := ucast (drop_bit 8 ?w AND 0xFF),
      r_lba2 := ucast (drop_bit 16 ?w AND 0xFF), r_drive := ?d, active := a\<rparr>) =
      ?n mod 256 + 256 * (?n div 2 ^ 8 mod 256) + 65536 * (?n div 2 ^ 16 mod 256) + 16777216 * 0"
      by (simp only: lba_of)
    then show ?thesis using b by simp
  qed
  note l = this
  define D where "D = (drv s)\<lparr>r_count := 1, r_lba0 := ucast (?w AND 0xFF), r_lba1 := ucast (drop_bit 8 ?w AND 0xFF),
      r_lba2 := ucast (drop_bit 16 ?w AND 0xFF), r_drive := ?d,
      active := Some (if b_dirty (ibufs s b) then Writing (b_data (ibufs s b)) else Reading)\<rparr>"
  have "idestart (Some b) s = Inr (s\<lparr>drv := D\<rparr>)" using assms by (simp add: idestart_def idewait_def Let_def D_def)
  moreover have "lba D = ?n" unfolding D_def by (rule l)
  moreover have "bit (r_drive D) 4 \<longleftrightarrow> odd (b_dev (ibufs s b))" unfolding D_def r_drive_of by (rule b4)
  moreover have "active D = Some (if b_dirty (ibufs s b) then Writing (b_data (ibufs s b)) else Reading)"
    "media D = media (drv s)" by (simp_all add: D_def)
  ultimately show ?thesis by (auto simp: programmed_def)
qed

section \<open>Service in order\<close>

definition ide_inv :: "ide \<Rightarrow> nat list \<Rightarrow> bool" where
  "ide_inv s Q \<longleftrightarrow> chain (qnext s) (idequeue s) Q \<and> distinct Q \<and> (\<forall>b. waits s b = Sleeps \<longleftrightarrow> b \<in> set Q) \<and>
     (\<forall>b\<in>set Q. b_blockno (ibufs s b) < FSSIZE \<and> b_locked (ibufs s b) \<and> (b_valid (ibufs s b) \<longrightarrow> b_dirty (ibufs s b))) \<and>
     (\<forall>b. waits s b = Wakes \<longrightarrow> b_valid (ibufs s b) \<and> \<not> b_dirty (ibufs s b)) \<and>
     (case Q of [] \<Rightarrow> active (drv s) = None | h # R \<Rightarrow> programmed s h)"

lemma sleeps_iff: "ide_inv s Q \<Longrightarrow> waits s b = Sleeps \<longleftrightarrow> b \<in> set Q"
  by (simp add: ide_inv_def)

lemma ide_rw_inv:
  assumes inv: "ide_inv s Q" and a: "waits s b = Away" and n: "b_blockno (ibufs s b) < FSSIZE" and r: "ide_rw me b s = Inr t"
  shows "ide_inv t (Q @ [b])"
proof -
  have b: "b \<notin> set Q" using sleeps_iff [OF inv, of b] a by simp
  obtain nx where q: "append_queue b s = Inr (s\<lparr>qnext := nx, idequeue := (if Q = [] then Some b else idequeue s)\<rparr>)"
    "chain nx (if Q = [] then Some b else idequeue s) (Q @ [b])"
  proof -
    have "chain (qnext s) (idequeue s) Q" "distinct Q" using inv by (simp_all add: ide_inv_def)
    then show ?thesis using append_queue_ok [OF _ _ b, of s] that by blast
  qed
  have c: "b_locked (ibufs s b)" "\<not> (b_valid (ibufs s b) \<and> \<not> b_dirty (ibufs s b))"
    using r by (auto simp: ide_rw_def rbind_eq_Inr)
  show ?thesis
  proof (cases Q)
    case Nil
    let ?s = "s\<lparr>qnext := nx, idequeue := Some b\<rparr>"
    obtain d where d: "idestart (Some b) ?s = Inr (?s\<lparr>drv := d\<rparr>)" "programmed (?s\<lparr>drv := d\<rparr>) b"
      using idestart_ok [of ?s b] n inv Nil by (auto simp: ide_inv_def)
    have t: "t = look_again b (?s\<lparr>drv := d\<rparr>)" using r q(1) d(1) Nil by (auto simp: ide_rw_def rbind_eq_Inr)
    have "programmed t b" using d(2) unfolding t programmed_def look_again_def by simp
    then show ?thesis using inv Nil q(2) n c unfolding t by (auto simp: ide_inv_def look_again_def)
  next
    case (Cons h R)
    then have i: "idequeue s \<noteq> Some b" using inv b by (auto simp: ide_inv_def)
    have t: "t = look_again b (s\<lparr>qnext := nx, idequeue := idequeue s\<rparr>)"
      using r q(1) Cons i by (auto simp: ide_rw_def rbind_eq_Inr)
    have p: "programmed (s\<lparr>qnext := nx, idequeue := q, waits := w\<rparr>) h = programmed s h" for q w
      by (simp add: programmed_def)
    show ?thesis using inv Cons q(2) n c b unfolding t by (auto simp: ide_inv_def look_again_def p)
  qed
qed

text \<open>What the interrupt does for the request at the head of the queue.\<close>

definition served_buf :: "bool \<Rightarrow> ide \<Rightarrow> nat \<Rightarrow> buf" where
  "served_buf err s h = (let r = ibufs s h in
     (if b_dirty r \<or> err then r else r\<lparr>b_data := media (drv s) (odd (b_dev r)) (b_blockno r)\<rparr>)\<lparr>b_valid := True, b_dirty := False\<rparr>)"

definition served_media :: "bool \<Rightarrow> ide \<Rightarrow> nat \<Rightarrow> bool \<Rightarrow> nat \<Rightarrow> block" where
  "served_media err s h = (let r = ibufs s h; m = media (drv s); k = odd (b_dev r) in
     if b_dirty r \<and> \<not> err then m(k := (m k)(b_blockno r := b_data r)) else m)"

lemma ideintr_ok:
  assumes inv: "ide_inv s (h # R)"
  shows "\<exists>t. ideintr (s\<lparr>drv := drive_done err (drv s)\<rparr>) = Inr t \<and> ide_inv t R \<and>
    ibufs t = (ibufs s)(h := served_buf err s h) \<and> media (drv t) = served_media err s h \<and> waits t = (waits s)(h := Wakes)"
proof -
  let ?d = "drive_done err (drv s)"
  let ?r = "ibufs s h"
  have p: "lba (drv s) = b_blockno ?r" "bit (r_drive (drv s)) 4 \<longleftrightarrow> odd (b_dev ?r)"
    "active (drv s) = Some (if b_dirty ?r then Writing (b_data ?r) else Reading)"
    using inv by (auto simp: ide_inv_def programmed_def)
  have d: "active ?d = None" "status_err ?d = err" "media ?d = served_media err s h"
    "\<not> b_dirty ?r \<Longrightarrow> sector_data ?d = media (drv s) (odd (b_dev ?r)) (b_blockno ?r)"
    using p by (auto simp: drive_done_def served_media_def Let_def fun_eq_iff)
  have q: "idequeue s = Some h" "chain (qnext s) (qnext s h) R" "h \<notin> set R" "waits s h = Sleeps"
    using inv by (auto simp: ide_inv_def)
  let ?t = "s\<lparr>drv := ?d, idequeue := qnext s h, ibufs := (ibufs s)(h := served_buf err s h), waits := (waits s)(h := Wakes)\<rparr>"
  have e: "ideintr (s\<lparr>drv := ?d\<rparr>) = (if qnext s h \<noteq> None then idestart (qnext s h) ?t else Inr ?t)"
    using q d by (auto simp: ideintr_def Let_def served_buf_def)
  show ?thesis
  proof (cases R)
    case Nil
    then have n: "qnext s h = None" using q(2) by simp
    have "ide_inv ?t R" using inv Nil n d(1) by (auto simp: ide_inv_def served_buf_def Let_def)
    then show ?thesis using e n d(3) by simp
  next
    case (Cons g R2)
    then have n: "qnext s h = Some g" using q(2) by simp
    have g: "g \<noteq> h" "b_blockno (ibufs s g) < FSSIZE" using inv Cons by (auto simp: ide_inv_def)
    then obtain d2 where d2: "idestart (Some g) ?t = Inr (?t\<lparr>drv := d2\<rparr>)" "programmed (?t\<lparr>drv := d2\<rparr>) g" "media d2 = media ?d"
      using idestart_ok [of ?t g] d(1) by auto
    have "ide_inv (?t\<lparr>drv := d2\<rparr>) R"
      using inv Cons d2(2) by (auto simp: ide_inv_def served_buf_def Let_def)
    then show ?thesis using e n d2 d(3) by auto
  qed
qed

lemma ide_run_inv: "ide_run s asked served \<Longrightarrow> \<exists>Q. asked = served @ Q \<and> ide_inv s Q"
proof (induction rule: ide_run.induct)
  case (start s)
  then have "ide_inv s []" by (simp add: ide_inv_def)
  then show ?case by simp
next
  case (change s asked served b r)
  then obtain Q where Q: "asked = served @ Q" "ide_inv s Q" by blast
  then have "b \<notin> set Q" using sleeps_iff [of s Q b] change(2) by simp
  then have "ide_inv (s\<lparr>ibufs := (ibufs s)(b := r)\<rparr>) Q"
    using Q(2) change(2) by (cases Q) (auto simp: ide_inv_def programmed_def)
  then show ?case using Q(1) by blast
next
  case (request s asked served b me t)
  then obtain Q where Q: "asked = served @ Q" "ide_inv s Q" by blast
  then have "ide_inv t (Q @ [b])" using ide_rw_inv request by blast
  then show ?case using Q(1) by auto
next
  case (again s asked served b)
  then obtain Q where Q: "asked = served @ Q" "ide_inv s Q" by blast
  then have "b \<notin> set Q" "b_valid (ibufs s b) \<and> \<not> b_dirty (ibufs s b)"
    using sleeps_iff [of s Q b] again(2) by (simp_all add: ide_inv_def)
  then have "ide_inv (look_again b s) Q"
    using Q(2) by (cases Q) (auto simp: ide_inv_def programmed_def look_again_def)
  then show ?case using Q(1) by blast
next
  case (interrupt s asked served b err t)
  then obtain Q where Q: "asked = served @ Q" "ide_inv s Q" by blast
  then obtain R where R: "Q = b # R" using interrupt(3) by (cases Q) (auto simp: ide_inv_def)
  then have "ide_inv t R" using ideintr_ok [of s b R err] Q(2) interrupt(4) by auto
  then show ?case using Q(1) R by auto
qed

text \<open>The buffers and the disk 1 as the buffer cache has them.\<close>

definition cache_of :: "ide \<Rightarrow> bst" where
  "cache_of s = \<lparr>bufs = ibufs s, lru = [], disk = media (drv s) True, disksize = FSSIZE, written = []\<rparr>"

text \<open>C17: The disk driver, for any requests of any processes: the requests are served in the order of the calls,
  exactly the processes whose request is not served yet sleep, and while there is one the drive is at
  work, so that its interrupt will come; that interrupt never fails, wakes the process of the first
  request and goes on with the next; and, without an error of the drive, it has done to the buffer and
  to the disk what \<open>iderw\<close> of the disk in memory does at once, on which the buffer cache is modelled.\<close>

theorem ide_serves:
  assumes "ide_run s asked served"
  shows "\<exists>Q. asked = served @ Q \<and> (\<forall>b. waits s b = Sleeps \<longleftrightarrow> b \<in> set Q) \<and> (active (drv s) \<noteq> None \<longleftrightarrow> Q \<noteq> []) \<and>
    (\<forall>h R err. Q = h # R \<longrightarrow>
      (\<exists>t. ideintr (s\<lparr>drv := drive_done err (drv s)\<rparr>) = Inr t \<and> waits t = (waits s)(h := Wakes) \<and>
        (active (drv t) \<noteq> None \<longleftrightarrow> R \<noteq> []) \<and>
        (b_dev (ibufs s h) = 1 \<longrightarrow> \<not> err \<longrightarrow>
          (\<exists>c. iderw (b_pid (ibufs s h)) h (cache_of s) = Inr c \<and> ibufs t = bufs c \<and> media (drv t) True = disk c))))"
proof -
  obtain Q where Q: "asked = served @ Q" "ide_inv s Q" using ide_run_inv [OF assms] by blast
  have act: "active (drv u) \<noteq> None \<longleftrightarrow> L \<noteq> []" if "ide_inv u L" for u L
    using that by (auto simp: ide_inv_def programmed_def split: list.splits)
  have step: "\<exists>t. ideintr (s\<lparr>drv := drive_done err (drv s)\<rparr>) = Inr t \<and> waits t = (waits s)(h := Wakes) \<and>
      (active (drv t) \<noteq> None \<longleftrightarrow> R \<noteq> []) \<and> (b_dev (ibufs s h) = 1 \<longrightarrow> \<not> err \<longrightarrow>
        (\<exists>c. iderw (b_pid (ibufs s h)) h (cache_of s) = Inr c \<and> ibufs t = bufs c \<and> media (drv t) True = disk c))"
    if "Q = h # R" for h R err
  proof -
    obtain t where t: "ideintr (s\<lparr>drv := drive_done err (drv s)\<rparr>) = Inr t" "ide_inv t R"
      "ibufs t = (ibufs s)(h := served_buf err s h)" "media (drv t) = served_media err s h" "waits t = (waits s)(h := Wakes)"
      using ideintr_ok [of s h R err] Q(2) unfolding \<open>Q = h # R\<close> by blast
    have h: "b_locked (ibufs s h)" "b_valid (ibufs s h) \<longrightarrow> b_dirty (ibufs s h)" "b_blockno (ibufs s h) < FSSIZE"
      using Q(2) that by (auto simp: ide_inv_def)
    have "\<exists>c. iderw (b_pid (ibufs s h)) h (cache_of s) = Inr c \<and> ibufs t = bufs c \<and> media (drv t) True = disk c"
      if "b_dev (ibufs s h) = 1" "\<not> err"
      using h that t(3,4)
      by (auto simp: iderw_def cache_of_def holding_buf_def upd_b_def Let_def served_buf_def served_media_def)
    then show ?thesis using t act [OF t(2)] by auto
  qed
  show ?thesis using Q act [OF Q(2)] step by (intro exI [of _ Q]) (auto simp: ide_inv_def)
qed

definition idle_ide :: ide where
  "idle_ide = \<lparr>ibufs = \<lambda>_. \<lparr>b_valid = False, b_dirty = False, b_dev = 1, b_blockno = 5, b_locked = True, b_pid = 7,
       b_refcnt = 1, b_data = \<lambda>_. 0\<rparr>,
     qnext = \<lambda>_. None, idequeue = None, havedisk1 = True,
     drv = \<lparr>r_count = 0, r_lba0 = 0, r_lba1 = 0, r_lba2 = 0, r_drive = 0, active = None, status_err = False,
       sector_data = \<lambda>_. 0, media = \<lambda>_ _ _. 0\<rparr>,
     waits = \<lambda>_. Away\<rparr>"

theorem ide_serves_witness:
  "\<exists>t. ide_rw 7 3 idle_ide = Inr t \<and> ide_run t [3] [] \<and> waits t 3 = Sleeps \<and> active (drv t) \<noteq> None \<and>
     (\<exists>u. ideintr (t\<lparr>drv := drive_done False (drv t)\<rparr>) = Inr u \<and> waits u 3 = Wakes)"
proof -
  have "\<exists>t. ide_rw 7 3 idle_ide = Inr t"
    by (simp add: ide_rw_def idle_ide_def append_queue_def idestart_def idewait_def Let_def)
  then obtain t where t: "ide_rw 7 3 idle_ide = Inr t" by blast
  have "ide_run idle_ide [] []" by (rule ide_run.start) (simp_all add: idle_ide_def)
  then have r: "ide_run t ([] @ [3]) []"
    by (rule ide_run.request [OF _ _ _ t]) (simp_all add: idle_ide_def)
  obtain Q where a: "[] @ [3] = [] @ Q" and Q: "\<forall>b. waits t b = Sleeps \<longleftrightarrow> b \<in> set Q"
    "active (drv t) \<noteq> None \<longleftrightarrow> Q \<noteq> []"
    and n: "\<forall>h R err. Q = h # R \<longrightarrow> (\<exists>u. ideintr (t\<lparr>drv := drive_done err (drv t)\<rparr>) = Inr u \<and> waits u = (waits t)(h := Wakes) \<and>
        (active (drv u) \<noteq> None \<longleftrightarrow> R \<noteq> []) \<and>
        (b_dev (ibufs t h) = 1 \<longrightarrow> \<not> err \<longrightarrow>
          (\<exists>c. iderw (b_pid (ibufs t h)) h (cache_of t) = Inr c \<and> ibufs u = bufs c \<and> media (drv u) True = disk c)))"
    by (rule exE [OF ide_serves [OF r]]) (elim conjE)
  have q: "Q = [3]" using a by simp
  obtain u where "ideintr (t\<lparr>drv := drive_done False (drv t)\<rparr>) = Inr u" "waits u = (waits t)(3 := Wakes)"
    using n [THEN spec, THEN spec, THEN spec, THEN mp, OF q, of False] by (elim exE conjE)
  then have "\<exists>u. ideintr (t\<lparr>drv := drive_done False (drv t)\<rparr>) = Inr u \<and> waits u 3 = Wakes" by auto
  moreover have "waits t 3 = Sleeps" "active (drv t) \<noteq> None" using Q q by simp_all
  moreover have "ide_run t [3] []" using r by simp
  ultimately show ?thesis using t by blast
qed

end
