(* ===== verification/Spec2Isabelle.thy ===== *)
theory Spec2Isabelle
  imports MlfqProps LockProps CowProps LwpEnd LogProps PipeProps Grep CstringProps SysProps FilterLive UmallocProps ShellRun Sleeplock Screen Keyboard Printf ExecArgs CowShare Ide
begin

text \<open>
  The kernels of an operating systems course. The repository holds four copies of the teaching kernel
  xv6, one for each project, and two programs for Linux. What this development models is the core of
  the kernel with what the projects add to it, and the user programs that carry logic of their own.
  A file that the copies share is modelled once, from \<open>src/Project2\<close>, unless another copy is named.

  \<^bold>\<open>The parts and how they interact.\<close> A user program enters the kernel through a system call, whose
  arguments \<open>syscall.c\<close> fetches from user memory. The calls on files (\<open>sysfile.c\<close>) work on descriptors,
  which point into the table of open files (\<open>file.c\<close>), whose entries point to pipes (\<open>pipe.c\<close>) or to
  cached inodes (\<open>fs.c\<close>). The file system changes disk blocks inside transactions of the log (\<open>log.c\<close>),
  which writes through the buffer cache (\<open>bio.c\<close>) to the disk. The calls on processes work on the table
  of processes (\<open>proc.c\<close>), whose scheduler is the subject of Project2, whose threads are that of
  Project3, and whose memory (\<open>kalloc.c\<close>, \<open>vm.c\<close>), shared by copy on write, that of Project4.

  \<^bold>\<open>Conventions.\<close> Data are records and datatypes with the names of the source, integers words of
  their width (\<open>u32\<close>) wherever wrap-around can matter, arrays functions from the index with the bounds
  checked where the code indexes. State is passed explicitly. A call of \<open>panic\<close>, a null or dangling
  pointer, an index out of bounds, an endless loop and a call of \<open>sleep\<close> are values of \<open>fault\<close>, in the
  left summand of \<open>'a result\<close>, and \<open>rbind\<close> is the sequence of statements (theory \<open>Prelude\<close>). \<open>gives\<close> is
  the assertion on the result of an operation and \<open>gives_rules\<close> its rules. Locals that C leaves
  uninitialised, the time that passes and what hardware or another program answers are arguments.

  \<^bold>\<open>Project2: the multi-level feedback queue.\<close> \<open>MlfqQueue\<close> has the queues (\<open>struct pqueue\<close>, \<open>initqueue\<close>,
  \<open>enqueue\<close>, \<open>dequeue\<close>, \<open>sortbypriority\<close>) and shows that they are lists; \<open>Machine\<close> the trap frames and
  states of processes; \<open>Mlfq\<close> the process table, the allocation, \<open>fork\<close>, \<open>exit\<close>, \<open>wait\<close>, \<open>sleep\<close>,
  \<open>wakeup\<close>, \<open>kill\<close>, \<open>yield\<close>, the scheduler, boosting, the monopoly queue and the timer branch of
  \<open>trap.c\<close>. \<open>MlfqInv\<close> states the invariant (the queues partition the live processes by level) and the
  contract of a queue as a locale, which \<open>MlfqQueue\<close> provides; \<open>MlfqOps\<close>, \<open>MlfqSched\<close>, \<open>MlfqYield\<close> and
  \<open>MlfqTop\<close> show that every operation keeps it and what it does; \<open>MlfqSys\<close> is the kernel as a step
  relation from boot, and \<open>MlfqProps\<close> the properties.

  \<^bold>\<open>Project3: threads and locks.\<close> \<open>Lwp\<close> has the two tables of \<open>Project3_LWP/proc.c\<close> (processes and
  threads) with every operation on them; \<open>LwpProps\<close> and \<open>LwpEnd\<close> show the life of a thread, the layout of
  its stacks and the end of a process. \<open>Mutex\<close> is the test program of \<open>Project3_Locking\<close> over a lock that
  is a locale; \<open>FilterLock\<close> has both locks at the grain of single memory accesses, \<open>LockProps\<close> their
  mutual exclusion, \<open>FilterLive\<close> the absence of deadlock.

  \<^bold>\<open>Project4: memory.\<close> \<open>Kalloc\<close> has the page allocator with its reference counts over a memory of
  words; \<open>Vm\<close> the page tables and the address spaces; \<open>Cow\<close> what the tables map and how sharing and the
  page fault handler keep it; \<open>CowProps\<close> the properties, among them the race of two processors.

  \<^bold>\<open>The disk.\<close> \<open>Bcache\<close> and \<open>BcacheOps\<close>: the buffer cache over \<open>memide.c\<close>, and the view of the disk that a
  process has. \<open>Log\<close> has the operations of the log; \<open>LogSteps\<close>, \<open>LogCommit\<close>, \<open>LogRecover\<close>, \<open>LogCrash\<close>
  and \<open>LogTx\<close> follow its disk writes one by one, since power can fail between any two of them; \<open>LogProps\<close>
  shows that transactions are atomic. \<open>FsBlock\<close> (super block, \<open>balloc\<close>, \<open>bfree\<close>), \<open>FsInode\<close> (inodes),
  \<open>FsDir\<close> (directories and paths) and \<open>FsSys\<close> (creating, linking, unlinking) are \<open>fs.c\<close> and the part
  of \<open>sysfile.c\<close> below the descriptors; \<open>FsFile\<close>, \<open>FsMap\<close>, \<open>FsRw\<close> and \<open>FsContent\<close> relate them to the
  abstract content of a file, a list of bytes. \<open>Refcount\<close> is the contract of a table that counts
  the pointers to its entries; \<open>FsCache\<close> interprets it on the inodes, \<open>FileRefs\<close> on the open files.
  \<open>FsRefs\<close> has the rules that say which pointers an operation takes and gives back. \<open>FsProps\<close> has the
  properties of files.

  \<^bold>\<open>System calls.\<close> \<open>Syscall\<close> fetches arguments, \<open>Pipe\<close> and \<open>PipeProps\<close> are pipes with their sleeping
  readers and writers, \<open>File\<close> the open files, \<open>Sysfile\<close> the calls. \<open>FileRefs\<close>, \<open>SysRefs\<close>, \<open>SysCalls\<close> and
  \<open>SysProps\<close> compose them: the system of all processes as a step relation, whose reachable states have
  exact counts and no dangling pipe.

  \<^bold>\<open>User programs and library.\<close> \<open>Cstring\<close> and \<open>CstringProps\<close> are the string functions over a memory of
  bytes; \<open>Grep\<close> the matcher, against the language of its patterns, and the reading of lines; \<open>Umalloc\<close>
  and \<open>UmallocProps\<close> the allocator of user memory.

  \<^bold>\<open>Bounds and fuel.\<close> The loops of the kernel are structural recursions on the index that C counts, so
  they need no fuel; loops whose end depends on a pointer structure (the rings of \<open>umalloc.c\<close>, the
  lists of the buffer cache) are partial functions or carry the list, and their ends are theorems. The
  spinning on a lock is a step relation, or \<open>Hang\<close> where the holder cannot run.

  \<^bold>\<open>Not modelled.\<close> The boot code, the programming of the interrupt controllers, the serial line and the
  clock (\<open>bootmain.c\<close>, \<open>main.c\<close>, \<open>lapic.c\<close>, \<open>ioapic.c\<close>, \<open>picirq.c\<close>, \<open>mp.c\<close>, \<open>uart.c\<close>): sequences of port
  accesses whose meaning is that of the devices. The assembly files and the switch of stacks: a context
  is opaque. The test programs (\<open>usertests.c\<close>, \<open>forktest.c\<close>, \<open>stressfs.c\<close> and those of the projects) only
  exercise the kernel.
\<close>

end
